(* ===== verification/Prelude.thy ===== *)
theory Prelude
  imports Main "HOL-Library.Word" "HOL-Library.Signed_Division"
begin

unbundle bit_operations_syntax

text \<open>
  Shared vocabulary of the development: Rust's fixed-width unsigned arithmetic on
  \<^typ>\<open>nat\<close> (checked, saturating, truncating), byte strings and big-endian integers,
  \<open>Vec::get\<close> on ranges, and results as sums with the error on the left.
  A \<open>usize\<close> has 64 bits (the README names x86-64 and ARM64 as the targets).
\<close>

named_theorems result_simps
named_theorems bytes_simps

section \<open>Unsigned machine arithmetic\<close>

type_synonym u8 = "8 word"
type_synonym bytes = "u8 list"

definition checked_add :: "nat \<Rightarrow> nat \<Rightarrow> nat \<Rightarrow> nat option" where
  "checked_add w a b = (if a + b < 2 ^ w then Some (a + b) else None)"

definition checked_mul :: "nat \<Rightarrow> nat \<Rightarrow> nat \<Rightarrow> nat option" where
  "checked_mul w a b = (if a * b < 2 ^ w then Some (a * b) else None)"

definition checked_sub :: "nat \<Rightarrow> nat \<Rightarrow> nat option" where
  "checked_sub a b = (if b \<le> a then Some (a - b) else None)"

definition sat_add :: "nat \<Rightarrow> nat \<Rightarrow> nat \<Rightarrow> nat" where
  "sat_add w a b = min (a + b) (2 ^ w - 1)"

definition sat_mul :: "nat \<Rightarrow> nat \<Rightarrow> nat \<Rightarrow> nat" where
  "sat_mul w a b = min (a * b) (2 ^ w - 1)"

definition as_u :: "nat \<Rightarrow> nat \<Rightarrow> nat" where
  "as_u w n = n mod 2 ^ w"

definition div_ceil :: "nat \<Rightarrow> nat \<Rightarrow> nat" where
  "div_ceil a b = (if a mod b = 0 then a div b else a div b + 1)"

lemma checked_add_Some [simp]:
  "checked_add w a b = Some c \<longleftrightarrow> c = a + b \<and> a + b < 2 ^ w"
  by (auto simp: checked_add_def)

lemma checked_mul_Some [simp]:
  "checked_mul w a b = Some c \<longleftrightarrow> c = a * b \<and> a * b < 2 ^ w"
  by (auto simp: checked_mul_def)

lemma checked_sub_Some [simp]: "checked_sub a b = Some c \<longleftrightarrow> c = a - b \<and> b \<le> a"
  by (auto simp: checked_sub_def)

lemma checked_add_None [simp]: "checked_add w a b = None \<longleftrightarrow> 2 ^ w \<le> a + b"
  by (auto simp: checked_add_def)

lemma checked_mul_None [simp]: "checked_mul w a b = None \<longleftrightarrow> 2 ^ w \<le> a * b"
  by (auto simp: checked_mul_def)

lemma checked_sub_None [simp]: "checked_sub a b = None \<longleftrightarrow> a < b"
  by (auto simp: checked_sub_def)

lemma sat_add_exact: "a + b < 2 ^ w \<Longrightarrow> sat_add w a b = a + b"
  by (simp add: sat_add_def)

lemma sat_add_bound: "sat_add w a b < 2 ^ w"
  by (simp add: sat_add_def min_less_iff_disj)

lemma sat_add_ge: "a < 2 ^ w \<Longrightarrow> a \<le> sat_add w a b"
  by (auto simp: sat_add_def min_def)

lemma as_u_id [simp]: "n < 2 ^ w \<Longrightarrow> as_u w n = n"
  by (simp add: as_u_def)

lemma as_u_less [simp]: "as_u w n < 2 ^ w"
  by (simp add: as_u_def)

lemma div_ceil_least: "0 < b \<Longrightarrow> a \<le> k * b \<longleftrightarrow> div_ceil a b \<le> k"
proof -
  assume b: "0 < b"
  have a: "a = a div b * b + a mod b" by simp
  have m: "a mod b < b" using b by simp
  show ?thesis
  proof (cases "a mod b = 0")
    case True
    then have "a = a div b * b" using a by simp
    then show ?thesis using b True unfolding div_ceil_def
      by (metis mult_le_cancel2)
  next
    case False
    then have "a \<le> k * b \<longleftrightarrow> a div b < k"
      using a m b by (metis add_cancel_right_right div_less_iff_less_mult le_neq_implies_less
        less_or_eq_imp_le mod_mult_self2_is_0)
    with False show ?thesis by (simp add: div_ceil_def Suc_le_eq)
  qed
qed

lemma div_ceil_ge: "0 < b \<Longrightarrow> a \<le> div_ceil a b * b"
  using div_ceil_least [of b a "div_ceil a b"] by simp

lemma div_ceil_mono: "0 < c \<Longrightarrow> a \<le> b \<Longrightarrow> div_ceil a c \<le> div_ceil b c"
  using div_ceil_least [of c a "div_ceil b c"] div_ceil_ge [of c b] by linarith

section \<open>Results\<close>

definition res_bind :: "'e + 'a \<Rightarrow> ('a \<Rightarrow> 'e + 'b) \<Rightarrow> 'e + 'b" where
  "res_bind r f = (case r of Inl e \<Rightarrow> Inl e | Inr x \<Rightarrow> f x)"

definition ok_or :: "'e \<Rightarrow> 'a option \<Rightarrow> 'e + 'a" where
  "ok_or e x = (case x of None \<Rightarrow> Inl e | Some y \<Rightarrow> Inr y)"

lemma res_bind_simps [simp, result_simps]:
  "res_bind (Inl e) f = Inl e" "res_bind (Inr x) f = f x"
  by (simp_all add: res_bind_def)

lemma ok_or_simps [simp, result_simps]: "ok_or e None = Inl e" "ok_or e (Some x) = Inr x"
  by (simp_all add: ok_or_def)

lemma res_bind_Inr [result_simps]:
  "res_bind r f = Inr y \<longleftrightarrow> (\<exists>x. r = Inr x \<and> f x = Inr y)"
  by (cases r) simp_all

lemma res_bind_Inl [result_simps]:
  "res_bind r f = Inl e \<longleftrightarrow> r = Inl e \<or> (\<exists>x. r = Inr x \<and> f x = Inl e)"
  by (cases r) simp_all

lemma ok_or_Inr [simp]: "ok_or e x = Inr y \<longleftrightarrow> x = Some y"
  by (cases x) simp_all

lemma ok_or_Inl [simp]: "ok_or e x = Inl e' \<longleftrightarrow> x = None \<and> e' = e"
  by (cases x) auto

section \<open>Byte strings\<close>

definition get_at :: "'a list \<Rightarrow> nat \<Rightarrow> 'a option" where
  "get_at bs i = (if i < length bs then Some (bs ! i) else None)"

definition slice :: "'a list \<Rightarrow> nat \<Rightarrow> nat \<Rightarrow> 'a list" where
  "slice bs a b = take (b - a) (drop a bs)"

definition get_range :: "'a list \<Rightarrow> nat \<Rightarrow> nat \<Rightarrow> 'a list option" where
  "get_range bs a b = (if a \<le> b \<and> b \<le> length bs then Some (slice bs a b) else None)"

lemma get_at_Some [simp]: "get_at bs i = Some x \<longleftrightarrow> i < length bs \<and> x = bs ! i"
  by (auto simp: get_at_def)

lemma get_at_None [simp]: "get_at bs i = None \<longleftrightarrow> length bs \<le> i"
  by (auto simp: get_at_def)

lemma get_range_Some [simp]:
  "get_range bs a b = Some xs \<longleftrightarrow> a \<le> b \<and> b \<le> length bs \<and> xs = slice bs a b"
  by (auto simp: get_range_def)

lemma get_range_None [simp]: "get_range bs a b = None \<longleftrightarrow> b < a \<or> length bs < b"
  by (auto simp: get_range_def)

lemma length_slice [simp]: "length (slice bs a b) = min (b - a) (length bs - a)"
  by (simp add: slice_def)

lemma slice_append_left: "b \<le> length xs \<Longrightarrow> slice (xs @ ys) a b = slice xs a b"
  by (simp add: slice_def)

lemma slice_append_right:
  "slice (xs @ ys) (length xs + a) (length xs + b) = slice ys a b"
  by (simp add: slice_def)

lemma slice_full [simp]: "slice xs 0 (length xs) = xs"
  by (simp add: slice_def)

lemma slice_same [simp]: "slice xs a a = []"
  by (simp add: slice_def)

lemma slice_split: "a \<le> b \<Longrightarrow> b \<le> c \<Longrightarrow> slice xs a b @ slice xs b c = slice xs a c"
proof -
  assume le: "a \<le> b" "b \<le> c"
  have "take (c - a) (drop a xs) = take ((b - a) + (c - b)) (drop a xs)"
    using le by simp
  also have "\<dots> = take (b - a) (drop a xs) @ take (c - b) (drop (b - a) (drop a xs))"
    by (rule take_add)
  finally show ?thesis using le by (simp add: slice_def)
qed

lemma set_slice: "set (slice xs a b) \<subseteq> set xs"
  unfolding slice_def by (meson order_trans set_drop_subset set_take_subset)

section \<open>Big-endian integers\<close>

definition byte :: "nat \<Rightarrow> u8" where
  "byte n = word_of_nat n"

definition be_u16 :: "nat \<Rightarrow> bytes" where
  "be_u16 n = [byte (n div 2 ^ 8), byte n]"

definition be_u24 :: "nat \<Rightarrow> bytes" where
  "be_u24 n = [byte (n div 2 ^ 16), byte (n div 2 ^ 8), byte n]"

definition be_u32 :: "nat \<Rightarrow> bytes" where
  "be_u32 n = [byte (n div 2 ^ 24), byte (n div 2 ^ 16), byte (n div 2 ^ 8), byte n]"

definition be_u64 :: "nat \<Rightarrow> bytes" where
  "be_u64 n = be_u32 (n div 2 ^ 32) @ be_u32 n"

definition be_i32 :: "int \<Rightarrow> bytes" where
  "be_i32 i = be_u32 (nat (i mod 2 ^ 32))"

definition be_nat :: "bytes \<Rightarrow> nat" where
  "be_nat bs = foldl (\<lambda>v b. v * 2 ^ 8 + unat b) 0 bs"

definition signed_of :: "nat \<Rightarrow> nat \<Rightarrow> int" where
  "signed_of w n = (if n < 2 ^ (w - 1) then int n else int n - 2 ^ w)"

lemma unat_byte [simp]: "unat (byte n) = n mod 256"
  by (simp add: byte_def unat_of_nat)

lemma byte_unat [simp]: "byte (unat b) = b"
  by (simp add: byte_def)

lemma unat_u8_less [simp]: "unat (b :: u8) < 256"
  using unsigned_less [of b, where 'a = nat] by simp

lemma unat_take_bit_u8: "unat (take_bit k (b :: u8)) = unat b mod 2 ^ k"
  unfolding unsigned_take_bit_eq by (rule take_bit_eq_mod)

lemma length_be [simp]:
  "length (be_u16 n) = 2" "length (be_u24 n) = 3" "length (be_u32 n) = 4"
  "length (be_u64 n) = 8" "length (be_i32 i) = 4"
  by (simp_all add: be_u16_def be_u24_def be_u32_def be_u64_def be_i32_def)

lemma be_nat_Nil [simp]: "be_nat [] = 0"
  by (simp add: be_nat_def)

lemma be_nat_snoc [bytes_simps]: "be_nat (bs @ [b]) = be_nat bs * 256 + unat b"
  by (simp add: be_nat_def)

lemma be_nat_append: "be_nat (xs @ ys) = be_nat xs * 256 ^ length ys + be_nat ys"
proof (induction ys rule: rev_induct)
  case Nil
  then show ?case by simp
next
  case (snoc y ys)
  then show ?case
    by (simp add: be_nat_snoc append_assoc [symmetric] algebra_simps del: append_assoc)
qed

lemma be_nat_single [simp]: "be_nat [b] = unat b"
  using be_nat_snoc [of "[]" b] by simp

lemma be_nat_Cons: "be_nat (b # bs) = unat b * 256 ^ length bs + be_nat bs"
  using be_nat_append [of "[b]" bs] by simp

lemma be_nat_bound: "be_nat bs < 256 ^ length bs"
proof (induction bs)
  case Nil
  then show ?case by simp
next
  case (Cons b bs)
  have "unat b + 1 \<le> 256" using unat_u8_less [of b] by linarith
  then have "(unat b + 1) * 256 ^ length bs \<le> 256 * 256 ^ length bs"
    by (rule mult_le_mono1)
  then have "unat b * 256 ^ length bs + 256 ^ length bs \<le> 256 * 256 ^ length bs"
    by (simp only: distrib_right mult_1)
  with Cons show ?case unfolding be_nat_Cons length_Cons power_Suc by linarith
qed

lemma be_nat_be_u16 [simp]: "be_nat (be_u16 n) = n mod 2 ^ 16"
proof -
  have "n mod 65536 = (n div 256 mod 256) * 256 + n mod 256"
    using mod_mult2_eq [of n 256 256] by simp
  then show ?thesis by (simp add: be_u16_def be_nat_Cons)
qed

lemma be_nat_be_u24 [simp]: "be_nat (be_u24 n) = n mod 2 ^ 24"
proof -
  have "n mod 65536 = (n div 256 mod 256) * 256 + n mod 256"
    using mod_mult2_eq [of n 256 256] by simp
  moreover have "n mod 16777216 = (n div 65536 mod 256) * 65536 + n mod 65536"
    using mod_mult2_eq [of n 65536 256] by simp
  ultimately show ?thesis by (simp add: be_u24_def be_nat_Cons)
qed

lemma be_nat_be_u32 [simp]: "be_nat (be_u32 n) = n mod 2 ^ 32"
proof -
  have "n mod 65536 = (n div 256 mod 256) * 256 + n mod 256"
    using mod_mult2_eq [of n 256 256] by simp
  moreover have "n mod 16777216 = (n div 65536 mod 256) * 65536 + n mod 65536"
    using mod_mult2_eq [of n 65536 256] by simp
  moreover have "n mod 4294967296 = (n div 16777216 mod 256) * 16777216 + n mod 16777216"
    using mod_mult2_eq [of n 16777216 256] by simp
  ultimately show ?thesis by (simp add: be_u32_def be_nat_Cons)
qed

lemma be_nat_be_u64 [simp]: "be_nat (be_u64 n) = n mod 2 ^ 64"
proof -
  have "n mod 18446744073709551616 = (n div 4294967296 mod 4294967296) * 4294967296 + n mod 4294967296"
    using mod_mult2_eq [of n 4294967296 4294967296] by simp
  then show ?thesis by (simp add: be_u64_def be_nat_append)
qed

text \<open>Any width, as the specifications of length-prefixed formats use it.\<close>

fun be_bytes :: "nat \<Rightarrow> nat \<Rightarrow> bytes" where
  "be_bytes 0 v = []"
| "be_bytes (Suc n) v = byte (v div 256 ^ n) # be_bytes n v"

lemma length_be_bytes [simp]: "length (be_bytes n v) = n"
  by (induction n) simp_all

lemma be_nat_be_bytes [simp]: "be_nat (be_bytes n v) = v mod 256 ^ n"
proof (induction n)
  case (Suc n)
  have "v mod (256 ^ n * 256) = 256 ^ n * (v div 256 ^ n mod 256) + v mod 256 ^ n"
    by (rule mod_mult2_eq)
  with Suc show ?case by (simp add: be_nat_Cons mult.commute)
qed simp

lemma be_bytes_snoc: "be_bytes (Suc n) v = be_bytes n (v div 256) @ [byte v]"
proof (induction n)
  case (Suc n)
  have "be_bytes (Suc (Suc n)) v = byte (v div 256 ^ Suc n) # be_bytes n (v div 256) @ [byte v]"
    unfolding Suc [symmetric] by simp
  then show ?case by (simp add: div_mult2_eq)
qed simp

lemma be_bytes_2: "be_bytes 2 n = be_u16 n"
proof -
  have "be_bytes (Suc (Suc 0)) n = be_u16 n" by (simp add: be_u16_def)
  then show ?thesis by (simp only: numeral_2_eq_2)
qed

text \<open>Bits of the masks that the bit-field code uses.\<close>

lemma bit_masks [bytes_simps]:
  "bit (3 :: int) n \<longleftrightarrow> n < 2" "bit (7 :: int) n \<longleftrightarrow> n < 3" "bit (15 :: int) n \<longleftrightarrow> n < 4"
  "bit (31 :: int) n \<longleftrightarrow> n < 5" "bit (63 :: int) n \<longleftrightarrow> n < 6" "bit (127 :: int) n \<longleftrightarrow> n < 7"
  "bit (4 :: int) n \<longleftrightarrow> n = 2" "bit (2 :: int) n \<longleftrightarrow> n = 1"
proof -
  have m: "(3 :: int) = mask 2" "(7 :: int) = mask 3" "(15 :: int) = mask 4" "(31 :: int) = mask 5"
    "(63 :: int) = mask 6" "(127 :: int) = mask 7" "(4 :: int) = 2 ^ 2"
    by (simp_all add: mask_eq_exp_minus_1)
  show "bit (3 :: int) n \<longleftrightarrow> n < 2" "bit (7 :: int) n \<longleftrightarrow> n < 3" "bit (15 :: int) n \<longleftrightarrow> n < 4"
    "bit (31 :: int) n \<longleftrightarrow> n < 5" "bit (63 :: int) n \<longleftrightarrow> n < 6" "bit (127 :: int) n \<longleftrightarrow> n < 7"
    unfolding m(1-6) bit_mask_iff by (auto simp: possible_bit_def)
  show "bit (4 :: int) n \<longleftrightarrow> n = 2" "bit (2 :: int) n \<longleftrightarrow> n = 1"
    unfolding m(7) bit_exp_iff bit_2_iff by (auto simp: possible_bit_def)
qed

lemma be_bytes_be_nat [simp]: "be_bytes (length bs) (be_nat bs) = bs"
proof (induction bs rule: rev_induct)
  case (snoc b bs)
  have "be_nat (bs @ [b]) div 256 = be_nat bs" by (simp add: be_nat_snoc)
  moreover have "byte (be_nat (bs @ [b])) = b"
    by (rule word_unat_eq_iff [THEN iffD2]) (simp add: be_nat_snoc)
  ultimately show ?case using snoc by (simp add: be_bytes_snoc del: be_bytes.simps)
qed simp

lemma signed_of_be_i32:
  assumes "- (2 ^ 31) \<le> i" "i < 2 ^ 31"
  shows "signed_of 32 (be_nat (be_i32 i)) = i"
proof (cases "0 \<le> i")
  case True
  with assms show ?thesis by (simp add: signed_of_def be_i32_def)
next
  case False
  then have m: "i mod 4294967296 = i + 4294967296"
    using assms mod_pos_pos_trivial [of "i + 4294967296" 4294967296] by simp
  show ?thesis using False assms by (simp add: signed_of_def be_i32_def m)
qed

end
