(* ===== verification/Iterators.thy ===== *)
theory Iterators
  imports Prelude "HOL-Library.Multiset"
begin

text \<open>
  The interface of the offset iterators over framed bytes (\<open>AtomIter\<close>, \<open>ElementIter\<close>,
  the child-box readers of the fragment writer's validator): a step reads one frame at an
  offset and returns the item and the next offset; the \<open>for\<close> loop of the source collects
  the items. Two contracts: every step consumes the payload and a header of at least
  \<open>hdr\<close> bytes without leaving the input, and (second locale) a step reads back a frame
  that an encoder wrote. The lemmas bound the work of a loop, and the stack of nested
  payloads, by the number of input bytes, and give the round trip of a whole sequence.
\<close>

definition ascii :: "string \<Rightarrow> bytes" where
  "ascii s = map of_char s"

lemma length_ascii [simp]: "length (ascii s) = length s"
  by (simp add: ascii_def)

locale offset_iter =
  fixes step :: "bytes \<Rightarrow> nat \<Rightarrow> 'a option \<times> nat"
    and collect :: "bytes \<Rightarrow> nat \<Rightarrow> 'a list"
    and payload :: "'a \<Rightarrow> bytes"
    and hdr :: nat
  assumes collect_unfold:
      "collect bs off = (case step bs off of (None, _) \<Rightarrow> [] | (Some a, off') \<Rightarrow> a # collect bs off')"
    and step_bounds:
      "step bs off = (Some a, off') \<Longrightarrow> off + hdr + length (payload a) \<le> off' \<and> off' \<le> length bs"
    and step_payload:
      "step bs off = (Some a, off') \<Longrightarrow> \<exists>i. off \<le> i \<and> payload a = slice bs i off'"
    and hdr_pos: "0 < hdr"
begin

lemma step_progress:
  assumes "step bs off = (Some a, off')"
  shows "off < off' \<and> off' \<le> length bs \<and> length (payload a) < length bs - off"
  using step_bounds [OF assms] hdr_pos by linarith

lemma collect_induct [consumes 1, case_names None Some]:
  assumes "off \<le> length bs"
    and "\<And>off o'. step bs off = (None, o') \<Longrightarrow> P off []"
    and "\<And>off a off'. step bs off = (Some a, off') \<Longrightarrow> P off' (collect bs off') \<Longrightarrow>
      P off (a # collect bs off')"
  shows "P off (collect bs off)"
  using assms(1)
proof (induction "length bs - off" arbitrary: off rule: less_induct)
  case less
  show ?case
  proof (cases "step bs off")
    case (Pair r off')
    show ?thesis
    proof (cases r)
      case None
      with Pair show ?thesis using assms(2) collect_unfold [of bs off] by simp
    next
      case (Some a)
      with Pair have s: "step bs off = (Some a, off')" by simp
      have "P off' (collect bs off')"
        by (rule less.hyps) (use step_progress [OF s] in linarith)+
      with assms(3) [OF s] show ?thesis using collect_unfold [of bs off] s by simp
    qed
  qed
qed

lemma collect_beyond: "length bs \<le> off \<Longrightarrow> collect bs off = []"
  using collect_unfold [of bs off] step_progress [of bs off]
  by (cases "step bs off") (auto split: option.splits)

lemma collect_weight:
  "off \<le> length bs \<Longrightarrow> (\<Sum>a\<leftarrow>collect bs off. length (payload a) + hdr) \<le> length bs - off"
proof (induction rule: collect_induct)
  case (Some off a off')
  then show ?case using step_bounds [OF Some(1)] by (simp only: list.map sum_list.Cons) linarith
qed simp

lemma collect_count: "off \<le> length bs \<Longrightarrow> length (collect bs off) * hdr \<le> length bs - off"
  using collect_weight [of off bs] by (simp add: sum_list_addf sum_list_triv)

lemma collect_member:
  assumes "off \<le> length bs"
  shows "a \<in> set (collect bs off) \<Longrightarrow> \<exists>i j. off \<le> i \<and> j \<le> length bs \<and> payload a = slice bs i j"
  using assms
proof (induction rule: collect_induct)
  case (Some off b off')
  show ?case
  proof (cases "a = b")
    case True
    then show ?thesis using step_payload [OF Some(1)] step_progress [OF Some(1)] by blast
  next
    case False
    then obtain i j where "off' \<le> i" "j \<le> length bs" "payload a = slice bs i j"
      using Some by auto
    then show ?thesis using step_progress [OF Some(1)] by (meson less_imp_le order_trans)
  qed
qed simp

lemma nested_weight:
  "(\<Sum>a\<leftarrow>filter P (collect bs 0). length (payload a) + 1) \<le> length bs"
proof -
  have "(\<Sum>a\<leftarrow>filter P (collect bs 0). length (payload a) + 1) \<le>
      (\<Sum>a\<leftarrow>collect bs 0. length (payload a) + 1)"
    by (induction "collect bs 0" rule: list.induct) (auto simp: sum_list_filter_le_nat)
  also have "\<dots> \<le> (\<Sum>a\<leftarrow>collect bs 0. length (payload a) + hdr)"
    using hdr_pos by (intro sum_list_mono) simp
  also have "\<dots> \<le> length bs" using collect_weight [of 0 bs] by simp
  finally show ?thesis .
qed

lemma member_shorter: "a \<in> set (collect bs 0) \<Longrightarrow> length (payload a) < length bs"
proof -
  assume "a \<in> set (collect bs 0)"
  then have "length (payload a) + hdr \<le> (\<Sum>a\<leftarrow>collect bs 0. length (payload a) + hdr)"
    by (intro member_le_sum_list) auto
  with collect_weight [of 0 bs] hdr_pos show ?thesis by simp
qed

end

locale offset_codec = offset_iter +
  fixes enc :: "'a \<Rightarrow> bytes" and wf :: "'a \<Rightarrow> bool" and room :: nat
  assumes step_enc:
    "wf a \<Longrightarrow> length (pre @ enc a @ rest) < room \<Longrightarrow> step (pre @ enc a @ rest) (length pre) =
       (Some a, length pre + length (enc a))"
begin

lemma collect_enc_from:
  assumes "\<forall>a \<in> set as. wf a" "length (pre @ concat (map enc as)) < room"
  shows "collect (pre @ concat (map enc as)) (length pre) = as"
  using assms
proof (induction as arbitrary: pre)
  case Nil
  then show ?case using collect_beyond [of pre "length pre"] by simp
next
  case (Cons a as)
  have "step (pre @ enc a @ concat (map enc as)) (length pre) = (Some a, length pre + length (enc a))"
    using Cons.prems by (intro step_enc) simp_all
  moreover have "collect ((pre @ enc a) @ concat (map enc as)) (length (pre @ enc a)) = as"
    using Cons.prems by (intro Cons.IH) simp_all
  ultimately show ?case
    using collect_unfold [of "pre @ enc a @ concat (map enc as)" "length pre"] by simp
qed

lemma collect_enc:
  "\<forall>a \<in> set as. wf a \<Longrightarrow> length (concat (map enc as)) < room \<Longrightarrow>
    collect (concat (map enc as)) 0 = as"
  using collect_enc_from [of as "[]"] by simp

end

end
