(* ===== verification/Atoms.thy ===== *)
theory Atoms
  imports Iterators
begin

text \<open>
  \<open>container/mp4/atom.rs\<close>: the ISO BMFF box iterator and its big-endian readers. A box
  kind is its four bytes. The iterator is shown to satisfy the contracts of
  \<^theory_text>\<open>offset_iter\<close> and \<^theory_text>\<open>offset_codec\<close>, for both header forms (32-bit and 64-bit size).
\<close>

record atom =
  at_kind :: bytes
  at_payload :: bytes

text \<open>\<open>try_into\<close> an array fails unless the slice has exactly the array's length.\<close>

definition read_u16 :: "bytes \<Rightarrow> nat option" where
  "read_u16 bs = (if length bs = 2 then Some (be_nat bs) else None)"

definition read_u32 :: "bytes \<Rightarrow> nat option" where
  "read_u32 bs = (if length bs = 4 then Some (be_nat bs) else None)"

definition read_i32 :: "bytes \<Rightarrow> int option" where
  "read_i32 bs = (if length bs = 4 then Some (signed_of 32 (be_nat bs)) else None)"

definition read_u64 :: "bytes \<Rightarrow> nat option" where
  "read_u64 bs = (if length bs = 8 then Some (be_nat bs) else None)"

text \<open>\<open>checked_add(n).is_none_or(|end| end > len)\<close>\<close>

definition past_end :: "nat \<Rightarrow> nat \<Rightarrow> nat \<Rightarrow> bool" where
  "past_end offset n len = (case checked_add 64 offset n of None \<Rightarrow> True | Some e \<Rightarrow> len < e)"

definition atom_next :: "bytes \<Rightarrow> nat \<Rightarrow> atom option \<times> nat" where
  "atom_next bs offset =
     (if past_end offset 8 (length bs) then (None, offset)
      else
        let start = offset;
            size32 = be_nat (slice bs start (start + 4));
            kind = slice bs (start + 4) (start + 8);
            header_size =
              (if size32 = 1
               then (if past_end start 16 (length bs) then None
                     else Some (16, be_nat (slice bs (start + 8) (start + 16))))
               else if size32 = 0 then Some (8, length bs - start)
               else Some (8, size32))
        in case header_size of
             None \<Rightarrow> (None, offset)
           | Some (header, sz) \<Rightarrow>
               (case (checked_add 64 start header, checked_add 64 start sz) of
                  (Some payload_start, Some e) \<Rightarrow>
                    if sz < header \<or> length bs < e then (None, length bs)
                    else (Some \<lparr>at_kind = kind, at_payload = slice bs payload_start e\<rparr>, e)
                | _ \<Rightarrow> (None, offset)))"

lemma past_end_False [simp]: "\<not> past_end offset n len \<longleftrightarrow> offset + n < 2 ^ 64 \<and> offset + n \<le> len"
  by (auto simp: past_end_def not_less split: option.splits)

lemma atom_next_Some:
  assumes "atom_next bs off = (Some a, off')"
  shows "off + 8 + length (at_payload a) \<le> off' \<and> off' \<le> length bs \<and>
    (\<exists>i. off \<le> i \<and> at_payload a = slice bs i off')"
  using assms unfolding atom_next_def Let_def
  by (auto split: if_splits option.splits prod.splits) (use le_add1 in blast)+

text \<open>\<open>for atom in AtomIter::new(bytes)\<close>: the items from an offset on.\<close>

function atoms_from :: "bytes \<Rightarrow> nat \<Rightarrow> atom list" where
  "atoms_from bs off =
     (case atom_next bs off of (None, _) \<Rightarrow> [] | (Some a, off') \<Rightarrow> a # atoms_from bs off')"
  by pat_completeness auto
termination
  by (relation "measure (\<lambda>(bs, off). length bs - off)")
    (auto dest!: sym [of "(Some _, _)"] atom_next_Some)

declare atoms_from.simps [simp del]

definition atoms :: "bytes \<Rightarrow> atom list" where
  "atoms bs = atoms_from bs 0"

interpretation atom_iter: offset_iter atom_next atoms_from at_payload 8
proof unfold_locales
  show "atoms_from bs off =
      (case atom_next bs off of (None, _) \<Rightarrow> [] | (Some a, off') \<Rightarrow> a # atoms_from bs off')" for bs off
    by (rule atoms_from.simps)
qed (use atom_next_Some in \<open>blast, blast, simp\<close>)

section \<open>Boxes as the writers of the engine lay them out\<close>

definition box32 :: "bytes \<Rightarrow> bytes \<Rightarrow> bytes" where
  "box32 kind payload = be_u32 (8 + length payload) @ kind @ payload"

definition box64 :: "bytes \<Rightarrow> bytes \<Rightarrow> bytes" where
  "box64 kind payload = be_u32 1 @ kind @ be_u64 (16 + length payload) @ payload"

definition enc_atom :: "atom \<Rightarrow> bytes" where
  "enc_atom a =
     (if 8 + length (at_payload a) < 2 ^ 32 then box32 (at_kind a) (at_payload a)
      else box64 (at_kind a) (at_payload a))"

definition wf_atom :: "atom \<Rightarrow> bool" where
  "wf_atom a \<longleftrightarrow> length (at_kind a) = 4"

lemma length_box32 [simp]: "length kind = 4 \<Longrightarrow> length (box32 kind p) = 8 + length p"
  by (simp add: box32_def)

lemma length_box64 [simp]: "length kind = 4 \<Longrightarrow> length (box64 kind p) = 16 + length p"
  by (simp add: box64_def)

lemma slice_at:
  "slice (pre @ a @ rest) (length pre) (length pre + length a) = a"
  by (simp add: slice_def)

lemma slice_in:
  "length pre + length xs = i \<Longrightarrow> length b = n \<Longrightarrow> slice (pre @ xs @ b @ rest) i (i + n) = b"
  using slice_at [of "pre @ xs" b rest] by simp

lemma atom_next_box32:
  assumes "length kind = 4" "8 + length p < 2 ^ 32" "length (pre @ box32 kind p @ rest) < 2 ^ 64"
  shows "atom_next (pre @ box32 kind p @ rest) (length pre) =
    (Some \<lparr>at_kind = kind, at_payload = p\<rparr>, length pre + length (box32 kind p))"
proof -
  let ?bs = "pre @ box32 kind p @ rest"
  have n: "be_nat (slice ?bs (length pre) (length pre + 4)) = 8 + length p"
    using slice_in [of pre "[]" _ "be_u32 (8 + length p)" 4 "kind @ p @ rest"] assms
    by (simp add: box32_def)
  have k: "slice ?bs (length pre + 4) (length pre + 8) = kind"
    using slice_in [of pre "be_u32 (8 + length p)" "length pre + 4" kind 4 "p @ rest"] assms
    by (simp add: box32_def add.assoc)
  have p: "slice ?bs (length pre + 8) (length pre + (8 + length p)) = p"
    using slice_in [of pre "be_u32 (8 + length p) @ kind" "length pre + 8" p "length p" rest] assms
    by (simp add: box32_def add.assoc)
  have e: "\<not> past_end (length pre) 8 (length ?bs)" using assms by simp
  show ?thesis unfolding atom_next_def Let_def if_not_P [OF e] n k
    using assms p by (auto simp: checked_add_def)
qed

lemma atom_next_box64:
  assumes "length kind = 4" "length (pre @ box64 kind p @ rest) < 2 ^ 64"
  shows "atom_next (pre @ box64 kind p @ rest) (length pre) =
    (Some \<lparr>at_kind = kind, at_payload = p\<rparr>, length pre + length (box64 kind p))"
proof -
  let ?bs = "pre @ box64 kind p @ rest"
  have n: "be_nat (slice ?bs (length pre) (length pre + 4)) = 1"
    using slice_in [of pre "[]" _ "be_u32 1" 4 "kind @ be_u64 (16 + length p) @ p @ rest"] assms
    by (simp add: box64_def)
  have k: "slice ?bs (length pre + 4) (length pre + 8) = kind"
    using slice_in [of pre "be_u32 1" "length pre + 4" kind 4 "be_u64 (16 + length p) @ p @ rest"] assms
    by (simp add: box64_def add.assoc)
  have s: "be_nat (slice ?bs (length pre + 8) (length pre + 16)) = 16 + length p"
    using slice_in [of pre "be_u32 1 @ kind" "length pre + 8" "be_u64 (16 + length p)" 8 "p @ rest"] assms
    by (simp add: box64_def add.assoc)
  have p: "slice ?bs (length pre + 16) (length pre + (16 + length p)) = p"
    using slice_in [of pre "be_u32 1 @ kind @ be_u64 (16 + length p)" "length pre + 16" p "length p" rest]
      assms by (simp add: box64_def add.assoc)
  have e: "\<not> past_end (length pre) 8 (length ?bs)" "\<not> past_end (length pre) 16 (length ?bs)"
    using assms by simp_all
  show ?thesis unfolding atom_next_def Let_def if_not_P [OF e(1)] n k s if_not_P [OF e(2)]
    using assms p by (auto simp: checked_add_def)
qed

interpretation atom_codec: offset_codec atom_next atoms_from at_payload 8 enc_atom wf_atom "2 ^ 64"
  by unfold_locales
    (auto simp: enc_atom_def wf_atom_def atom_next_box32 atom_next_box64)

section \<open>Properties\<close>

text \<open>Iterating over a sequence of boxes, each written with a 32-bit size or, when its
  size needs it, with the 64-bit form, returns exactly those boxes in order.\<close>

theorem atoms_roundtrip:
  assumes "\<forall>a \<in> set as. length (at_kind a) = 4"
    and "length (concat (map enc_atom as)) < 2 ^ 64"
  shows "atoms (concat (map enc_atom as)) = as"
  unfolding atoms_def using assms by (intro atom_codec.collect_enc) (simp_all add: wf_atom_def)

theorem atoms_roundtrip_witness:
  "let as = [\<lparr>at_kind = ascii ''free'', at_payload = [1, 2, 3]\<rparr>, \<lparr>at_kind = ascii ''mdat'', at_payload = []\<rparr>]
   in atoms (concat (map enc_atom as)) = as"
  unfolding Let_def by (rule atoms_roundtrip) (simp_all add: enc_atom_def)

text \<open>A box at an offset, by its own fields: the size field, the 64-bit size behind the kind when the first says 1,
  and the rest of the input when it says 0.\<close>

definition box_header :: "bytes \<Rightarrow> nat \<Rightarrow> nat" where
  "box_header bs s = (if be_nat (slice bs s (s + 4)) = 1 then 16 else 8)"

definition box_end :: "bytes \<Rightarrow> nat \<Rightarrow> nat" where
  "box_end bs s =
     (let size32 = be_nat (slice bs s (s + 4))
      in if size32 = 1 then s + be_nat (slice bs (s + 8) (s + 16))
         else if size32 = 0 then length bs else s + size32)"

definition box_fits :: "bytes \<Rightarrow> nat \<Rightarrow> bool" where
  "box_fits bs s \<longleftrightarrow> s + box_header bs s \<le> length bs \<and> s + box_header bs s \<le> box_end bs s \<and> box_end bs s \<le> length bs"

text \<open>The boxes that follow each other from an offset on, up to the first place that holds none.\<close>

fun box_chain :: "bytes \<Rightarrow> nat \<Rightarrow> atom list \<Rightarrow> bool" where
  "box_chain bs s [] = (\<not> box_fits bs s)"
| "box_chain bs s (a # as) =
     (box_fits bs s \<and> at_kind a = slice bs (s + 4) (s + 8) \<and>
      at_payload a = slice bs (s + box_header bs s) (box_end bs s) \<and> box_chain bs (box_end bs s) as)"

lemma atom_next_box:
  assumes "length bs < 2 ^ 64" "s \<le> length bs"
  shows "case atom_next bs s of
      (None, _) \<Rightarrow> \<not> box_fits bs s
    | (Some a, e) \<Rightarrow> box_fits bs s \<and> e = box_end bs s \<and> at_kind a = slice bs (s + 4) (s + 8) \<and>
        at_payload a = slice bs (s + box_header bs s) (box_end bs s)"
proof -
  have past: "past_end s k (length bs) \<longleftrightarrow> length bs < s + k" for k
    using assms(1) past_end_False [of s k "length bs"] by linarith
  show ?thesis
    using assms by (auto simp: atom_next_def box_fits_def box_header_def box_end_def Let_def past checked_add_def
        split: option.splits if_splits prod.splits)
qed

lemma atoms_from_chain:
  "length bs < 2 ^ 64 \<Longrightarrow> s \<le> length bs \<Longrightarrow> box_chain bs s (atoms_from bs s)"
proof (induction bs s rule: atoms_from.induct)
  case (1 bs s)
  note step = atom_next_box [OF "1.prems"]
  show ?case
  proof (cases "atom_next bs s")
    case (Pair r e)
    show ?thesis
    proof (cases r)
      case None
      then show ?thesis using step Pair by (simp add: atoms_from.simps [of bs s])
    next
      case (Some a)
      then have "e \<le> length bs" using step Pair by (auto simp: box_fits_def)
      then show ?thesis
        using step Pair Some "1.IH" [OF Pair [symmetric] Some] "1.prems" by (simp add: atoms_from.simps [of bs s])
    qed
  qed
qed

text \<open>C39: On arbitrary bytes the box iterator ends after at most one box per eight input bytes. The boxes it yields
  lie end to end from the start of the input: each begins where the one before ends, extends over the size its own
  fields declare, within the input, and its kind and payload are the four bytes after the size field and all bytes
  after the header. It stops at the first place where no such box fits.\<close>

theorem atoms_stay_in_input:
  assumes "length bs < 2 ^ 64"
  shows "box_chain bs 0 (atoms bs) \<and>
    8 * length (atoms bs) + (\<Sum>a\<leftarrow>atoms bs. length (at_payload a)) \<le> length bs"
  using atom_iter.collect_weight [of 0 bs] atoms_from_chain [OF assms, of 0]
  by (simp add: atoms_def sum_list_addf sum_list_triv mult.commute)

theorem atoms_stay_in_input_witness:
  "let bs = [0, 0, 0, 9, 102, 114, 101, 101, 7, 0, 0, 0, 99]
   in box_chain bs 0 (atoms bs) \<and> 8 * length (atoms bs) + (\<Sum>a\<leftarrow>atoms bs. length (at_payload a)) \<le> length bs"
  unfolding Let_def by (rule atoms_stay_in_input) simp

end
