(* ===== verification/Ebml.thy ===== *)
theory Ebml
  imports Iterators
begin

text \<open>
  \<open>container/matroska/ebml.rs\<close>: EBML variable-length integers and the element iterator.
  The readers of floats and strings (\<open>read_float\<close>, \<open>read_string\<close>) are in \<open>MkvMeta\<close>. The encoder of this theory is the format's definition, used as the
  specification of the readers; it may choose any width for a size, as files do.
\<close>

record element =
  el_id :: nat
  el_payload :: bytes
  el_payload_offset :: nat

section \<open>Variable-length integers\<close>

fun leading_zeros :: "nat \<Rightarrow> nat \<Rightarrow> nat" where
  "leading_zeros 0 n = 0"
| "leading_zeros (Suc w) n = (if 2 ^ w \<le> n then 0 else 1 + leading_zeros w n)"

definition vint_len :: "u8 \<Rightarrow> nat option" where
  "vint_len first = (if first = 0 then None else Some (leading_zeros 8 (unat first) + 1))"

text \<open>\<open>value << 8 | b\<close> on a value whose low byte is clear is the fold of \<^const>\<open>be_nat\<close>.\<close>

definition read_vint_id :: "bytes \<Rightarrow> (nat \<times> nat) option" where
  "read_vint_id bs =
     (case bs of [] \<Rightarrow> None
      | first # _ \<Rightarrow>
          (case vint_len first of None \<Rightarrow> None
           | Some n \<Rightarrow> if 4 < n \<or> length bs < n then None else Some (be_nat (take n bs), n)))"

definition read_vint_size :: "bytes \<Rightarrow> (nat \<times> nat) option" where
  "read_vint_size bs =
     (case bs of [] \<Rightarrow> None
      | first # _ \<Rightarrow>
          (case vint_len first of None \<Rightarrow> None
           | Some n \<Rightarrow>
               if 8 < n \<or> length bs < n then None
               else Some (foldl (\<lambda>v b. v * 2 ^ 8 + unat b)
                            (unat (first AND NOT (push_bit (8 - n) 1))) (slice bs 1 n), n)))"

definition read_signed_vint :: "bytes \<Rightarrow> (int \<times> nat) option" where
  "read_signed_vint bs =
     (case read_vint_size bs of None \<Rightarrow> None
      | Some (v, n) \<Rightarrow>
          let bits = 7 * n; bias = 2 ^ (bits - 1) - 1
          in if v < 2 ^ 63 then Some (int v - bias, n) else None)"

definition read_uint :: "bytes \<Rightarrow> nat option" where
  "read_uint bs = (if bs = [] \<or> 8 < length bs then None else Some (be_nat bs))"

section \<open>Elements\<close>

definition element_next :: "bytes \<Rightarrow> nat \<Rightarrow> element option \<times> nat" where
  "element_next bs offset =
     (if length bs \<le> offset then (None, offset)
      else case read_vint_id (drop offset bs) of
        None \<Rightarrow> (None, offset)
      | Some (ident, id_len) \<Rightarrow>
          (let size_offset = offset + id_len
           in case read_vint_size (drop size_offset bs) of
                None \<Rightarrow> (None, offset)
              | Some (sz, size_len) \<Rightarrow>
                  (let payload_start = size_offset + size_len
                   in case checked_add 64 payload_start sz of
                        None \<Rightarrow> (None, offset)
                      | Some payload_end \<Rightarrow>
                          if length bs < payload_end then (None, length bs)
                          else (Some \<lparr>el_id = ident, el_payload = slice bs payload_start payload_end,
                                      el_payload_offset = payload_start\<rparr>, payload_end))))"

lemma vint_len_bounds: "vint_len b = Some n \<Longrightarrow> 1 \<le> n \<and> n \<le> 8 \<and> 2 ^ (8 - n) \<le> unat b \<and> unat b < 2 ^ (9 - n)"
proof -
  have lz: "n \<noteq> 0 \<Longrightarrow> n < 2 ^ w \<Longrightarrow>
      leading_zeros w n < w \<and> 2 ^ (w - Suc (leading_zeros w n)) \<le> n \<and> n < 2 ^ (w - leading_zeros w n)"
    for w n :: nat
    by (induction w) auto
  assume "vint_len b = Some n"
  then have "unat b \<noteq> 0" "n = leading_zeros 8 (unat b) + 1"
    by (auto simp: vint_len_def unat_eq_zero split: if_splits)
  with lz [of "unat b" 8] unat_u8_less [of b] show ?thesis by auto
qed

lemma read_vint_id_Some: "read_vint_id bs = Some (v, n) \<Longrightarrow> 1 \<le> n \<and> n \<le> 4 \<and> n \<le> length bs"
  by (auto simp: read_vint_id_def dest: vint_len_bounds split: list.splits option.splits if_splits)

lemma read_vint_size_Some: "read_vint_size bs = Some (v, n) \<Longrightarrow> 1 \<le> n \<and> n \<le> 8 \<and> n \<le> length bs"
  by (auto simp: read_vint_size_def dest: vint_len_bounds split: list.splits option.splits if_splits)

lemma element_next_Some:
  assumes "element_next bs off = (Some a, off')"
  shows "off + 2 + length (el_payload a) \<le> off' \<and> off' \<le> length bs \<and> off \<le> el_payload_offset a \<and>
    el_payload a = slice bs (el_payload_offset a) off'"
  using assms unfolding element_next_def Let_def
  by (auto split: if_splits option.splits prod.splits dest!: read_vint_id_Some read_vint_size_Some)

function elements_from :: "bytes \<Rightarrow> nat \<Rightarrow> element list" where
  "elements_from bs off =
     (case element_next bs off of (None, _) \<Rightarrow> [] | (Some a, off') \<Rightarrow> a # elements_from bs off')"
  by pat_completeness auto
termination
  by (relation "measure (\<lambda>(bs, off). length bs - off)")
    (auto dest!: sym [of "(Some _, _)"] element_next_Some)

declare elements_from.simps [simp del]

definition elements :: "bytes \<Rightarrow> element list" where
  "elements bs = elements_from bs 0"

definition find_first_child :: "bytes \<Rightarrow> nat \<Rightarrow> bytes option" where
  "find_first_child bs ident = map_option el_payload (find (\<lambda>e. el_id e = ident) (elements bs))"

definition find_first_child_element :: "bytes \<Rightarrow> nat \<Rightarrow> element option" where
  "find_first_child_element bs ident = find (\<lambda>e. el_id e = ident) (elements bs)"

definition count_children :: "bytes \<Rightarrow> nat \<Rightarrow> nat" where
  "count_children bs ident = min (length (filter (\<lambda>e. el_id e = ident) (elements bs))) (2 ^ 32 - 1)"

interpretation element_iter: offset_iter element_next elements_from el_payload 2
proof unfold_locales
  show "elements_from bs off =
      (case element_next bs off of (None, _) \<Rightarrow> [] | (Some a, off') \<Rightarrow> a # elements_from bs off')" for bs off
    by (rule elements_from.simps)
qed (use element_next_Some in \<open>blast, blast, simp\<close>)

section \<open>The format\<close>

definition enc_vint :: "nat \<Rightarrow> nat \<Rightarrow> bytes" where
  "enc_vint n v = be_bytes n (2 ^ (7 * n) + v)"

lemma length_enc_vint [simp]: "length (enc_vint n v) = n"
  by (simp add: enc_vint_def)

lemma unat_clear_top:
  fixes b :: u8
  assumes "k < 8" "unat b < 2 ^ (k + 1)"
  shows "unat (b AND NOT (push_bit k 1)) = unat b mod 2 ^ k"
proof -
  have "unat (take_bit (k + 1) b) = unat b"
    using assms(2) by (simp only: unsigned_take_bit_eq take_bit_nat_eq_self)
  then have "b = take_bit (k + 1) b" by (simp only: word_unat_eq_iff)
  then have top: "n \<le> k" if "bit b n" for n
    using that by (metis Suc_eq_plus1 bit_take_bit_iff less_Suc_eq_le)
  then have "b AND NOT (push_bit k 1) = take_bit k b"
    by (intro bit_eqI) (use top in \<open>auto simp: bit_simps le_less\<close>)
  then show ?thesis by (simp only: unsigned_take_bit_eq) (rule take_bit_eq_mod)
qed

lemma vint_len_unique:
  assumes "2 ^ (8 - n) \<le> unat b" "unat b < 2 ^ (9 - n)" "1 \<le> n" "n \<le> 8"
  shows "vint_len b = Some n"
proof -
  have "b \<noteq> 0" using assms(1) by auto
  then obtain m where m: "vint_len b = Some m" by (simp add: vint_len_def)
  have b: "1 \<le> m" "m \<le> 8" "(2::nat) ^ (8 - m) \<le> unat b" "unat b < 2 ^ (9 - m)"
    using vint_len_bounds [OF m] by simp_all
  have "(2::nat) ^ (8 - m) < 2 ^ (9 - n)" "(2::nat) ^ (8 - n) < 2 ^ (9 - m)"
    using b assms by linarith+
  then have "8 - m < 9 - n" "8 - n < 9 - m" by (simp_all only: power_strict_increasing_iff one_less_numeral_iff semiring_norm)
  then have "m = n" using b assms by linarith
  with m show ?thesis by simp
qed

lemma enc_vint_first:
  assumes "1 \<le> n" "n \<le> 8" "v < 2 ^ (7 * n)"
  obtains f where "enc_vint n v = f # be_bytes (n - 1) (2 ^ (7 * n) + v)"
    "unat f = 2 ^ (8 - n) + v div 256 ^ (n - 1)" "v div 256 ^ (n - 1) < 2 ^ (8 - n)"
proof -
  obtain m where n: "n = Suc m" using assms(1) by (cases n) auto
  have e: "(2::nat) ^ (7 * n) = 256 ^ m * 2 ^ (8 - n)"
  proof -
    have "(256::nat) ^ m = 2 ^ (8 * m)" by (simp add: power_mult)
    moreover have "7 * n = 8 * m + (8 - n)" using assms(2) n by simp
    ultimately show ?thesis by (simp only: power_add)
  qed
  have q: "v div 256 ^ m < 2 ^ (8 - n)"
    using assms(3) unfolding e by (simp add: less_mult_imp_div_less mult.commute)
  have d: "(2 ^ (7 * n) + v) div 256 ^ m = 2 ^ (8 - n) + v div 256 ^ m"
    unfolding e by simp
  have "(2::nat) ^ (8 - n) \<le> 2 ^ 7" using n by (intro power_increasing) simp_all
  then have "2 ^ (8 - n) + v div 256 ^ m < 256" using q by simp
  then have "unat (byte ((2 ^ (7 * n) + v) div 256 ^ m)) = 2 ^ (8 - n) + v div 256 ^ m"
    unfolding d by simp
  with that q show ?thesis by (simp add: enc_vint_def n)
qed

lemma enc_vint_len: 
  assumes "1 \<le> n" "n \<le> 8" "v < 2 ^ (7 * n)"
  shows "vint_len (hd (enc_vint n v)) = Some n"
proof -
  obtain f where f: "enc_vint n v = f # be_bytes (n - 1) (2 ^ (7 * n) + v)"
    "unat f = 2 ^ (8 - n) + v div 256 ^ (n - 1)" "v div 256 ^ (n - 1) < 2 ^ (8 - n)"
    using enc_vint_first [OF assms] .
  have "(2::nat) ^ (9 - n) = 2 ^ (8 - n) + 2 ^ (8 - n)"
    using assms by (simp add: Suc_diff_le mult_2 [symmetric] flip: power_Suc)
  then have "vint_len f = Some n" using f assms by (intro vint_len_unique) simp_all
  with f show ?thesis by simp
qed

lemma foldl_be_nat: "foldl (\<lambda>v b. v * 2 ^ 8 + unat b) a bs = a * 256 ^ length bs + be_nat bs"
  by (induction bs rule: rev_induct) (simp_all add: be_nat_snoc algebra_simps)

lemma read_vint_size_enc:
  assumes "1 \<le> n" "n \<le> 8" "v < 2 ^ (7 * n)"
  shows "read_vint_size (enc_vint n v @ rest) = Some (v, n)"
proof -
  obtain f where f: "enc_vint n v = f # be_bytes (n - 1) (2 ^ (7 * n) + v)"
    "unat f = 2 ^ (8 - n) + v div 256 ^ (n - 1)" "v div 256 ^ (n - 1) < 2 ^ (8 - n)"
    using enc_vint_first [OF assms] .
  have l: "vint_len f = Some n" using enc_vint_len [OF assms] f(1) by simp
  have c: "unat (f AND NOT (push_bit (8 - n) 1)) = v div 256 ^ (n - 1)"
    using unat_clear_top [of "8 - n" f] f(2,3) assms by simp
  have s: "slice (enc_vint n v @ rest) 1 n = be_bytes (n - 1) (2 ^ (7 * n) + v)"
    using assms by (simp add: f(1) slice_def)
  have "(2::nat) ^ (7 * n) = 256 ^ (n - 1) * 2 ^ (8 - n)"
  proof -
    have "(256::nat) ^ (n - 1) = 2 ^ (8 * (n - 1))" by (simp add: power_mult)
    moreover have "7 * n = 8 * (n - 1) + (8 - n)" using assms by simp
    ultimately show ?thesis by (simp only: power_add)
  qed
  then have "(2 ^ (7 * n) + v) mod 256 ^ (n - 1) = v mod 256 ^ (n - 1)" by simp
  then show ?thesis
    using l c s assms unfolding read_vint_size_def foldl_be_nat
    by (simp add: f(1) Suc_diff_le) (rule div_mult_mod_eq)
qed

definition enc_id :: "nat \<Rightarrow> bytes" where
  "enc_id i = be_bytes (if i < 2 ^ 8 then 1 else if i < 2 ^ 16 then 2 else if i < 2 ^ 24 then 3 else 4) i"

text \<open>An identifier carries its own length marker, so it is valid in one width only.\<close>

definition valid_id :: "nat \<Rightarrow> bool" where
  "valid_id i \<longleftrightarrow> (\<exists>n \<in> {1..4}. 2 ^ (7 * n) \<le> i \<and> i < 2 ^ (7 * n + 1))"

lemma enc_id_vint:
  assumes "valid_id i"
  obtains n v where "1 \<le> n" "n \<le> 4" "v < 2 ^ (7 * n)" "i = 2 ^ (7 * n) + v" "enc_id i = enc_vint n v"
proof -
  obtain n where n: "n \<in> {1..4}" "2 ^ (7 * n) \<le> i" "i < 2 ^ (7 * n + 1)"
    using assms by (auto simp: valid_id_def)
  have "n = 1 \<or> n = 2 \<or> n = 3 \<or> n = 4" using n(1) by auto
  then have "enc_id i = be_bytes n i" using n by (auto simp: enc_id_def)
  with that [of n "i - 2 ^ (7 * n)"] n show ?thesis by (auto simp: enc_vint_def)
qed

lemma read_vint_id_enc:
  assumes "valid_id i"
  shows "read_vint_id (enc_id i @ rest) = Some (i, length (enc_id i))"
proof -
  obtain n v where n: "1 \<le> n" "n \<le> 4" "v < 2 ^ (7 * n)" "i = 2 ^ (7 * n) + v" "enc_id i = enc_vint n v"
    using enc_id_vint [OF assms] .
  obtain f where f: "enc_vint n v = f # be_bytes (n - 1) (2 ^ (7 * n) + v)"
    using enc_vint_first [of n v] n by auto
  have l: "vint_len f = Some n" using enc_vint_len [of n v] f n by simp
  have "i < 256 ^ n"
  proof -
    have "(2::nat) ^ (7 * n + 1) \<le> 2 ^ (8 * n)" using n by (intro power_increasing) simp_all
    then show ?thesis using n by (simp add: power_mult)
  qed
  then have "be_nat (enc_vint n v) = i" using n(4) by (simp add: enc_vint_def)
  moreover have "take n (enc_vint n v @ rest) = enc_vint n v" by simp
  ultimately show ?thesis
    using l n f unfolding read_vint_id_def n(5) by (simp add: Suc_le_eq)
qed

text \<open>An element in the file: identifier, width of the size field, payload.\<close>

definition enc_element :: "nat \<times> nat \<times> bytes \<Rightarrow> bytes" where
  "enc_element = (\<lambda>(i, n, p). enc_id i @ enc_vint n (length p) @ p)"

definition wf_element :: "nat \<times> nat \<times> bytes \<Rightarrow> bool" where
  "wf_element = (\<lambda>(i, n, p). valid_id i \<and> 1 \<le> n \<and> n \<le> 8 \<and> length p < 2 ^ (7 * n))"

definition element_key :: "element \<Rightarrow> nat \<times> bytes" where
  "element_key e = (el_id e, el_payload e)"

lemma element_next_enc:
  assumes "wf_element (i, n, p)" "length (pre @ enc_element (i, n, p) @ rest) < 2 ^ 64"
  shows "element_next (pre @ enc_element (i, n, p) @ rest) (length pre) =
    (Some \<lparr>el_id = i, el_payload = p, el_payload_offset = length pre + length (enc_id i) + n\<rparr>,
     length pre + length (enc_element (i, n, p)))"
proof -
  define bs where "bs = pre @ enc_element (i, n, p) @ rest"
  have w: "valid_id i" "1 \<le> n" "n \<le> 8" "length p < 2 ^ (7 * n)"
    using assms(1) by (simp_all add: wf_element_def)
  have i: "read_vint_id (drop (length pre) bs) = Some (i, length (enc_id i))"
    using read_vint_id_enc [OF w(1)] by (simp add: enc_element_def bs_def)
  have s: "read_vint_size (drop (length pre + length (enc_id i)) bs) = Some (length p, n)"
    using read_vint_size_enc [OF w(2-4)] by (simp add: enc_element_def bs_def)
  have p: "slice bs (length pre + length (enc_id i) + n) (length pre + length (enc_id i) + n + length p) = p"
    by (simp add: enc_element_def slice_def bs_def)
  have l: "length bs = length pre + length (enc_id i) + n + length p + length rest"
    by (simp add: enc_element_def bs_def)
  have f: "\<not> length bs \<le> length pre" using w(2) unfolding l by simp
  show ?thesis
    using assms(2) p l unfolding bs_def [symmetric] element_next_def i if_not_P [OF f]
    by (simp add: s checked_add_def enc_element_def Let_def)
qed

lemma element_key_simp [simp]: "element_key \<lparr>el_id = i, el_payload = p, el_payload_offset = k\<rparr> = (i, p)"
  by (simp add: element_key_def)

lemma elements_from_enc:
  assumes "\<forall>x \<in> set xs. wf_element x" "length (pre @ concat (map enc_element xs)) < 2 ^ 64"
  shows "map element_key (elements_from (pre @ concat (map enc_element xs)) (length pre)) =
    map (\<lambda>(i, n, p). (i, p)) xs"
  using assms
proof (induction xs arbitrary: pre)
  case Nil
  then show ?case using element_iter.collect_beyond [of pre "length pre"] by simp
next
  case (Cons x xs)
  obtain i n p where x: "x = (i, n, p)" by (cases x)
  let ?bs = "pre @ enc_element x @ concat (map enc_element xs)"
  have "element_next ?bs (length pre) =
      (Some \<lparr>el_id = i, el_payload = p, el_payload_offset = length pre + length (enc_id i) + n\<rparr>,
       length pre + length (enc_element x))"
    using Cons.prems unfolding x by (intro element_next_enc) simp_all
  moreover have "map element_key (elements_from ((pre @ enc_element x) @ concat (map enc_element xs))
      (length (pre @ enc_element x))) = map (\<lambda>(i, n, p). (i, p)) xs"
    using Cons.prems by (intro Cons.IH) simp_all
  ultimately show ?case
    using element_iter.collect_unfold [of ?bs "length pre"] by (simp add: x)
qed

section \<open>Properties\<close>

text \<open>The element iterator returns exactly the elements of a well-formed EBML sequence,
  in order, whatever width (1 to 8 bytes) each size field was written with; so the lookups
  find the first payload of an identifier and count its occurrences.\<close>

theorem ebml_elements_roundtrip:
  assumes "\<forall>x \<in> set xs. wf_element x" "length (concat (map enc_element xs)) < 2 ^ 64"
  shows "map element_key (elements (concat (map enc_element xs))) = map (\<lambda>(i, n, p). (i, p)) xs"
  unfolding elements_def using elements_from_enc [of xs "[]"] assms by simp

theorem ebml_elements_roundtrip_witness:
  "map element_key (elements (concat (map enc_element [(0x1A45DFA3, 8, [1, 2]), (0xEC, 1, [])])))
    = [(0x1A45DFA3, [1, 2]), (0xEC, [])]"
proof -
  have "valid_id 0x1A45DFA3" "valid_id 0xEC"
    unfolding valid_id_def by (rule bexI [of _ 4], simp, simp, rule bexI [of _ 1], simp, simp)
  then show ?thesis
    using ebml_elements_roundtrip [of "[(0x1A45DFA3, 8, [1, 2]), (0xEC, 1, [])]"]
    by (simp add: wf_element_def enc_element_def enc_id_def)
qed

lemma elements_offsets:
  assumes "off \<le> length bs"
  shows "e \<in> set (elements_from bs off) \<Longrightarrow>
    el_payload_offset e + length (el_payload e) \<le> length bs \<and>
    el_payload e = slice bs (el_payload_offset e) (el_payload_offset e + length (el_payload e))"
  using assms
proof (induction rule: element_iter.collect_induct)
  case (Some off a off')
  show ?case
  proof (cases "e = a")
    case True
    have b: "off' \<le> length bs" "el_payload a = slice bs (el_payload_offset a) off'"
      using element_next_Some [OF Some(1)] by simp_all
    show ?thesis
    proof (cases "el_payload_offset a \<le> off'")
      case le: True
      then have "length (el_payload a) = off' - el_payload_offset a" using b by simp
      then show ?thesis using b le True by simp
    next
      case False
      then have False using Some(1) unfolding element_next_def Let_def
        by (auto split: if_splits option.splits prod.splits)
      then show ?thesis ..
    qed
  next
    case False
    with Some show ?thesis by simp
  qed
qed simp

text \<open>On arbitrary bytes the element iterator ends, yields at most one element per two
  input bytes, and every payload it yields is the range of the input that starts at the
  payload offset the element reports.\<close>

theorem ebml_elements_stay_in_input:
  "2 * length (elements bs) + (\<Sum>e\<leftarrow>elements bs. length (el_payload e)) \<le> length bs \<and>
   list_all (\<lambda>e. el_payload_offset e + length (el_payload e) \<le> length bs \<and>
      el_payload e = slice bs (el_payload_offset e) (el_payload_offset e + length (el_payload e))) (elements bs)"
  using element_iter.collect_weight [of 0 bs] elements_offsets [of 0 bs]
  by (simp add: elements_def sum_list_addf sum_list_triv mult.commute list_all_iff del: add_2_eq_Suc')

end
