(* ===== verification/Budget.thy ===== *)
theory Budget
  imports Atoms Ebml
begin

text \<open>
  The metadata budget of untrusted containers: \<open>ParseLimits\<close>, \<open>ParseBudget::visit\<close> and the
  container sniffing of \<open>container/mod.rs\<close>, and the two validators that walk the nested
  boxes of an MP4 file (\<open>container/mp4.rs\<close>) and the nested elements of a Matroska file
  (\<open>container/matroska.rs\<close>) with an explicit stack. The stack is a list whose head is the
  end of the \<open>Vec\<close>. The walks are shown to stop, and to accept a file exactly when the
  totals over its whole tree of boxes are within the limits.
\<close>

section \<open>Container kinds\<close>

datatype container_kind = Mp4 | Mov | Matroska | Webm | Unknown

definition public_name :: "container_kind \<Rightarrow> string" where
  "public_name k = (case k of Mp4 \<Rightarrow> ''mp4'' | Mov \<Rightarrow> ''mov'' | Matroska \<Rightarrow> ''mkv''
     | Webm \<Rightarrow> ''mkv'' | Unknown \<Rightarrow> ''unknown'')"

definition direct_play :: "container_kind \<Rightarrow> bool" where
  "direct_play k = (k = Mp4 \<or> k = Mov)"

definition looks_like_mp4 :: "bytes \<Rightarrow> bool" where
  "looks_like_mp4 head = (12 \<le> length head \<and> slice head 4 8 = ascii ''ftyp'')"

definition sniff_mp4_brand :: "bytes \<Rightarrow> container_kind" where
  "sniff_mp4_brand head =
     (if \<not> looks_like_mp4 head \<or> length head < 12 then Unknown
      else if slice head 8 12 = ascii ''qt  '' then Mov else Mp4)"

definition looks_like_ebml :: "bytes \<Rightarrow> bool" where
  "looks_like_ebml head = (4 \<le> length head \<and> slice head 0 4 = [0x1a, 0x45, 0xdf, 0xa3])"

definition sniff_container :: "bytes \<Rightarrow> container_kind" where
  "sniff_container head =
     (if looks_like_mp4 head then sniff_mp4_brand head
      else if looks_like_ebml head then Matroska else Unknown)"

section \<open>The budget\<close>

record parse_limits =
  max_tracks :: nat
  max_boxes :: nat
  max_samples_per_track :: nat
  max_table_entries :: nat
  max_index_bytes :: nat
  max_depth :: nat

definition limits_default :: parse_limits where
  "limits_default =
     \<lparr>max_tracks = 256, max_boxes = 100000, max_samples_per_track = 2000000,
      max_table_entries = 2000000, max_index_bytes = 256 * 1024 * 1024, max_depth = 32\<rparr>"

text \<open>The limits stay in the callers' hands here; \<open>ParseBudget\<close> holds a copy of them.\<close>

record parse_budget =
  pb_limits :: parse_limits
  pb_boxes :: nat
  pb_tracks :: nat
  pb_bytes :: nat

datatype budget_error =
    WorkOverflow | MemoryOverflow
  | DepthExceeded nat nat | BoxesExceeded nat nat | TracksExceeded nat nat | BytesExceeded nat nat
  | SampleIndexOverflow | SampleScratchOverflow

definition budget_new :: "parse_limits \<Rightarrow> parse_budget" where
  "budget_new limits = \<lparr>pb_limits = limits, pb_boxes = 0, pb_tracks = 0, pb_bytes = 0\<rparr>"

text \<open>Every caller drops the budget on an error, so only \<open>Ok\<close> carries the new state. The
  unchecked \<open>tracks += 1\<close> cannot wrap: \<open>tracks \<le> boxes\<close>, and \<open>boxes\<close> is checked.\<close>

definition visit :: "parse_budget \<Rightarrow> nat \<Rightarrow> bool \<Rightarrow> nat \<Rightarrow> budget_error + parse_budget" where
  "visit b depth track n =
     res_bind (ok_or WorkOverflow (checked_add 64 (pb_boxes b) 1)) (\<lambda>boxes.
     let tracks = pb_tracks b + (if track then 1 else 0) in
     res_bind (ok_or MemoryOverflow (checked_add 64 (pb_bytes b) n)) (\<lambda>held.
       let limits = pb_limits b in
       if max_depth limits < depth then Inl (DepthExceeded depth (max_depth limits))
       else if max_boxes limits < boxes then Inl (BoxesExceeded boxes (max_boxes limits))
       else if max_tracks limits < tracks then Inl (TracksExceeded tracks (max_tracks limits))
       else if max_index_bytes limits < held then Inl (BytesExceeded held (max_index_bytes limits))
       else Inr (b\<lparr>pb_boxes := boxes, pb_tracks := tracks, pb_bytes := held\<rparr>)))"

section \<open>Matroska\<close>

definition mkv_nested :: "element \<Rightarrow> bool" where
  "mkv_nested e = (el_id e \<in> {0x18538067, 0x1549a966, 0x1654ae6b, 0xae, 0xe0, 0xe1, 0x1043a770,
     0x45b9, 0xb6, 0x80, 0x1c53bb6b, 0xbb, 0xb7, 0x1941a469, 0x61a7, 0x114d9b74, 0x4dbb})"

definition mkv_skipped :: "element \<Rightarrow> bool" where
  "mkv_skipped e = (el_id e \<in> {0x1f43b675, 0x465c, 0xec})"

definition mkv_alloc :: "element \<Rightarrow> nat" where
  "mkv_alloc e = (if mkv_nested e \<or> mkv_skipped e then 0 else length (el_payload e))"

fun visit_elements :: "nat \<Rightarrow> element list \<Rightarrow> parse_budget \<Rightarrow> (bytes \<times> nat) list \<Rightarrow>
    budget_error + parse_budget \<times> (bytes \<times> nat) list" where
  "visit_elements depth [] b pending = Inr (b, pending)"
| "visit_elements depth (e # es) b pending =
     res_bind (visit b depth (el_id e = 0xae) (mkv_alloc e)) (\<lambda>b.
       visit_elements depth es b
         (if mkv_nested e then (el_payload e, depth + 1) # pending else pending))"

lemma visit_elements_pending:
  "visit_elements depth es b pending = Inr (b', pending') \<Longrightarrow>
    pending' = rev (map (\<lambda>e. (el_payload e, depth + 1)) (filter mkv_nested es)) @ pending"
  by (induction es arbitrary: b pending) (auto simp: result_simps split: if_splits)

definition stack_weight :: "(bytes \<times> nat) list \<Rightarrow> nat" where
  "stack_weight pending = (\<Sum>(bs, d)\<leftarrow>pending. length bs + 1)"

lemma stack_weight_simps [simp]:
  "stack_weight [] = 0" "stack_weight ((bs, d) # p) = length bs + 1 + stack_weight p"
  "stack_weight (p @ q) = stack_weight p + stack_weight q"
  "stack_weight (rev p) = stack_weight p"
  by (simp_all add: stack_weight_def rev_map [symmetric])

lemma stack_weight_map:
  "stack_weight (map (\<lambda>a. (f a, d)) as) = (\<Sum>a\<leftarrow>as. length (f a) + 1)"
  by (induction as) simp_all

function mkv_walk :: "parse_budget \<Rightarrow> (bytes \<times> nat) list \<Rightarrow> budget_error + parse_budget" where
  "mkv_walk b [] = Inr b"
| "mkv_walk b ((bs, depth) # pending) =
     (case visit_elements depth (elements bs) b pending of
        Inl e \<Rightarrow> Inl e
      | Inr (b, pending) \<Rightarrow> mkv_walk b pending)"
  by pat_completeness auto
termination
proof (relation "measure (\<lambda>(b, pending). stack_weight pending)")
  fix b depth pending bs x b' pending'
  assume "visit_elements depth (elements bs) b pending = Inr x" "(b', pending') = x"
  then have "pending' = rev (map (\<lambda>e. (el_payload e, depth + 1)) (filter mkv_nested (elements bs))) @ pending"
    by (auto dest: visit_elements_pending)
  then show "((b', pending'), b, (bs, depth) # pending) \<in> measure (\<lambda>(b, pending). stack_weight pending)"
    using element_iter.nested_weight [of mkv_nested bs]
    by (simp add: stack_weight_map elements_def)
qed simp

declare mkv_walk.simps [simp del]

definition mkv_validate :: "bytes \<Rightarrow> parse_limits \<Rightarrow> budget_error + unit" where
  "mkv_validate bs limits =
     res_bind (mkv_walk (budget_new limits) [(bs, 0)]) (\<lambda>_. Inr ())"

section \<open>MP4\<close>

definition mp4_nested :: "atom \<Rightarrow> bool" where
  "mp4_nested a = (at_kind a \<in> ascii ` {''moov'', ''trak'', ''mdia'', ''minf'', ''stbl'', ''udta'', ''edts''})"

definition mp4_alloc :: "atom \<Rightarrow> nat" where
  "mp4_alloc a = (if at_kind a = ascii ''mdat'' \<or> mp4_nested a then 0 else length (at_payload a))"

definition note_samples :: "nat \<Rightarrow> nat \<times> nat \<Rightarrow> nat \<times> nat" where
  "note_samples samples ls =
     (case ls of (largest, second) \<Rightarrow>
        if largest \<le> samples then (samples, largest)
        else if second < samples then (largest, samples) else (largest, second))"

definition atom_samples :: "atom \<Rightarrow> nat option" where
  "atom_samples a =
     (if at_kind a = ascii ''stsz'' \<and> 12 \<le> length (at_payload a)
      then Some (case read_u32 (slice (at_payload a) 8 12) of None \<Rightarrow> 0 | Some n \<Rightarrow> n)
      else None)"

fun visit_atoms :: "nat \<Rightarrow> atom list \<Rightarrow> parse_budget \<Rightarrow> nat \<times> nat \<Rightarrow> (bytes \<times> nat) list \<Rightarrow>
    budget_error + parse_budget \<times> (nat \<times> nat) \<times> (bytes \<times> nat) list" where
  "visit_atoms depth [] b ls pending = Inr (b, ls, pending)"
| "visit_atoms depth (a # as) b ls pending =
     res_bind (visit b depth (at_kind a = ascii ''trak'') (mp4_alloc a)) (\<lambda>b.
       case atom_samples a of
         Some samples \<Rightarrow>
           if max_samples_per_track (pb_limits b) < samples
           then visit_atoms depth as b ls pending
           else visit_atoms depth as b (note_samples samples ls)
                  (if mp4_nested a then (at_payload a, depth + 1) # pending else pending)
       | None \<Rightarrow>
           visit_atoms depth as b ls
             (if mp4_nested a then (at_payload a, depth + 1) # pending else pending))"

declare visit_atoms.simps(2) [simp del]

lemma stsz_not_nested: "atom_samples a = Some n \<Longrightarrow> \<not> mp4_nested a"
  by (auto simp: atom_samples_def mp4_nested_def ascii_def split: if_splits)

definition noted :: "parse_limits \<Rightarrow> atom \<Rightarrow> nat option" where
  "noted limits a =
     (case atom_samples a of None \<Rightarrow> None
      | Some n \<Rightarrow> if max_samples_per_track limits < n then None else Some n)"

lemma visit_atoms_Cons:
  "visit_atoms depth (a # as) b ls pending =
     res_bind (visit b depth (at_kind a = ascii ''trak'') (mp4_alloc a)) (\<lambda>b.
       visit_atoms depth as b (case noted (pb_limits b) a of None \<Rightarrow> ls | Some n \<Rightarrow> note_samples n ls)
         (if mp4_nested a then (at_payload a, depth + 1) # pending else pending))"
  using stsz_not_nested [of a]
  by (cases "atom_samples a"; cases "visit b depth (at_kind a = ascii ''trak'') (mp4_alloc a)")
    (simp_all add: noted_def visit_atoms.simps(2))

lemma visit_atoms_pending:
  "visit_atoms depth as b ls pending = Inr (b', ls', pending') \<Longrightarrow>
    pending' = rev (map (\<lambda>a. (at_payload a, depth + 1)) (filter mp4_nested as)) @ pending"
proof (induction as arbitrary: b ls pending)
  case (Cons a as)
  obtain b1 where "visit_atoms depth as b1 (case noted (pb_limits b1) a of None \<Rightarrow> ls | Some n \<Rightarrow> note_samples n ls)
      (if mp4_nested a then (at_payload a, depth + 1) # pending else pending) = Inr (b', ls', pending')"
    using Cons.prems unfolding visit_atoms_Cons by (auto simp: result_simps)
  from Cons.IH [OF this] show ?case by simp
qed simp

function mp4_walk :: "parse_budget \<Rightarrow> nat \<times> nat \<Rightarrow> (bytes \<times> nat) list \<Rightarrow>
    budget_error + parse_budget \<times> nat \<times> nat" where
  "mp4_walk b ls [] = Inr (b, ls)"
| "mp4_walk b ls ((bs, depth) # pending) =
     (case visit_atoms depth (atoms bs) b ls pending of
        Inl e \<Rightarrow> Inl e
      | Inr (b, ls, pending) \<Rightarrow> mp4_walk b ls pending)"
  by pat_completeness auto
termination
proof (relation "measure (\<lambda>(b, ls, pending). stack_weight pending)")
  fix b ls depth pending bs x b' y ls' pending'
  assume "visit_atoms depth (atoms bs) b ls pending = Inr x" "(b', y) = x" "(ls', pending') = y"
  then have "pending' = rev (map (\<lambda>a. (at_payload a, depth + 1)) (filter mp4_nested (atoms bs))) @ pending"
    by (auto dest: visit_atoms_pending)
  then show "((b', ls', pending'), b, ls, (bs, depth) # pending)
      \<in> measure (\<lambda>(b, ls, pending). stack_weight pending)"
    using atom_iter.nested_weight [of mp4_nested bs]
    by (simp add: stack_weight_map atoms_def)
qed simp

declare mp4_walk.simps [simp del]

text \<open>\<open>size_of::<PacketRef>()\<close> is the compiler's: the parameter \<open>packet_ref_size\<close>.\<close>

definition mp4_validate :: "nat \<Rightarrow> bytes \<Rightarrow> parse_limits \<Rightarrow> budget_error + unit" where
  "mp4_validate packet_ref_size bs limits =
     res_bind (mp4_walk (budget_new limits) (0, 0) [(bs, 0)]) (\<lambda>(b, largest, second).
     res_bind (ok_or SampleIndexOverflow
         (case checked_add 64 largest second of None \<Rightarrow> None
          | Some samples \<Rightarrow> checked_mul 64 samples packet_ref_size)) (\<lambda>index.
     res_bind (visit b 0 False index) (\<lambda>b.
     res_bind (ok_or SampleScratchOverflow (checked_mul 64 largest 48)) (\<lambda>scratch.
     res_bind (visit b 0 False scratch) (\<lambda>_. Inr ())))))"

definition validate_metadata_budget :: "nat \<Rightarrow> bytes \<Rightarrow> parse_limits \<Rightarrow> budget_error + unit" where
  "validate_metadata_budget packet_ref_size bs limits =
     (case sniff_container bs of
        Mp4 \<Rightarrow> mp4_validate packet_ref_size bs limits
      | Mov \<Rightarrow> mp4_validate packet_ref_size bs limits
      | Matroska \<Rightarrow> mkv_validate bs limits
      | Webm \<Rightarrow> mkv_validate bs limits
      | Unknown \<Rightarrow> Inr ())"

section \<open>The tree of boxes\<close>

text \<open>Specification: every box of the tree with its depth, in document order.\<close>

locale nested_boxes =
  fixes items :: "bytes \<Rightarrow> 'a list"
    and nested :: "'a \<Rightarrow> bool"
    and payload :: "'a \<Rightarrow> bytes"
    and tree :: "bytes \<Rightarrow> nat \<Rightarrow> (nat \<times> 'a) list"
  assumes tree_unfold:
    "tree bs d = concat (map (\<lambda>a. (d, a) # (if nested a then tree (payload a) (d + 1) else [])) (items bs))"
begin

definition forest :: "(bytes \<times> nat) list \<Rightarrow> (nat \<times> 'a) list" where
  "forest pending = concat (map (\<lambda>(bs, d). tree bs d) pending)"

lemma forest_simps [simp]:
  "forest [] = []" "forest ((bs, d) # p) = tree bs d @ forest p" "forest (p @ q) = forest p @ forest q"
  by (simp_all add: forest_def)

lemma mset_forest_rev [simp]: "mset (forest (rev p)) = mset (forest p)"
  by (induction p) auto

lemma mset_tree:
  "mset (tree bs d) = mset (map (Pair d) (items bs))
     + mset (forest (map (\<lambda>a. (payload a, d + 1)) (filter nested (items bs))))"
proof -
  have "mset (concat (map (\<lambda>a. (d, a) # (if nested a then tree (payload a) (d + 1) else [])) as)) =
      mset (map (Pair d) as) + mset (forest (map (\<lambda>a. (payload a, d + 1)) (filter nested as)))" for as
    by (induction as) auto
  then show ?thesis by (subst tree_unfold) blast
qed

lemma mset_forest_step:
  "mset (map (Pair d) (items bs))
     + mset (forest (rev (map (\<lambda>a. (payload a, d + 1)) (filter nested (items bs))) @ p))
     = mset (forest ((bs, d) # p))"
  using mset_tree [of bs d] by simp

end

function mkv_tree :: "bytes \<Rightarrow> nat \<Rightarrow> (nat \<times> element) list" where
  "mkv_tree bs d = concat (map (\<lambda>e. (d, e) # (if mkv_nested e then mkv_tree (el_payload e) (d + 1) else []))
     (elements bs))"
  by pat_completeness auto
termination
  by (relation "measure (\<lambda>(bs, d). length bs)")
    (auto simp: elements_def dest: element_iter.member_shorter)

declare mkv_tree.simps [simp del]

function mp4_tree :: "bytes \<Rightarrow> nat \<Rightarrow> (nat \<times> atom) list" where
  "mp4_tree bs d = concat (map (\<lambda>a. (d, a) # (if mp4_nested a then mp4_tree (at_payload a) (d + 1) else []))
     (atoms bs))"
  by pat_completeness auto
termination
  by (relation "measure (\<lambda>(bs, d). length bs)")
    (auto simp: atoms_def dest: atom_iter.member_shorter)

declare mp4_tree.simps [simp del]

interpretation mkv_boxes: nested_boxes elements mkv_nested el_payload mkv_tree
  by unfold_locales (rule mkv_tree.simps)

interpretation mp4_boxes: nested_boxes atoms mp4_nested at_payload mp4_tree
  by unfold_locales (rule mp4_tree.simps)

section \<open>What a sequence of visits amounts to\<close>

text \<open>A visit as depth, track flag and allocation; \<open>within\<close> is the acceptance condition.\<close>

type_synonym visits = "(nat \<times> bool \<times> nat) multiset"

definition within :: "parse_limits \<Rightarrow> visits \<Rightarrow> bool" where
  "within limits V \<longleftrightarrow>
     (\<forall>(d, t, n) \<in># V. d \<le> max_depth limits) \<and>
     size V \<le> max_boxes limits \<and>
     size {#v \<in># V. fst (snd v)#} \<le> max_tracks limits \<and>
     (\<Sum>(d, t, n) \<in># V. n) \<le> max_index_bytes limits"

definition budget_of :: "parse_limits \<Rightarrow> visits \<Rightarrow> parse_budget" where
  "budget_of limits V =
     \<lparr>pb_limits = limits, pb_boxes = size V,
      pb_tracks = size {#v \<in># V. fst (snd v)#}, pb_bytes = (\<Sum>(d, t, n) \<in># V. n)\<rparr>"

definition usize_limits :: "parse_limits \<Rightarrow> bool" where
  "usize_limits limits \<longleftrightarrow> max_boxes limits < 2 ^ 64 \<and> max_index_bytes limits < 2 ^ 64"

lemma within_mono: "within limits (V + W) \<Longrightarrow> within limits V"
  by (auto simp: within_def)

lemma visit_Inr:
  assumes "usize_limits limits" "within limits V"
  shows "visit (budget_of limits V) d t n = Inr b \<longleftrightarrow>
    within limits (add_mset (d, t, n) V) \<and> b = budget_of limits (add_mset (d, t, n) V)"
  using assms
  by (auto simp: visit_def budget_of_def within_def usize_limits_def Let_def result_simps
      add.commute split: if_splits)

lemma budget_of_simps [simp]: "pb_limits (budget_of limits V) = limits"
  by (simp add: budget_of_def)

lemma budget_new_of: "budget_new limits = budget_of limits {#}"
  by (simp add: budget_new_def budget_of_def)

lemma within_empty [simp]: "within limits {#}"
  by (simp add: within_def)

definition mkv_cost :: "nat \<times> element \<Rightarrow> nat \<times> bool \<times> nat" where
  "mkv_cost = (\<lambda>(d, e). (d, el_id e = 0xae, mkv_alloc e))"

definition mp4_cost :: "nat \<times> atom \<Rightarrow> nat \<times> bool \<times> nat" where
  "mp4_cost = (\<lambda>(d, a). (d, at_kind a = ascii ''trak'', mp4_alloc a))"

lemma visit_elements_Inr:
  assumes "usize_limits limits" "within limits V"
  shows "visit_elements d es (budget_of limits V) pending = Inr (b, p) \<longleftrightarrow>
    within limits (image_mset mkv_cost (mset (map (Pair d) es)) + V) \<and>
    b = budget_of limits (image_mset mkv_cost (mset (map (Pair d) es)) + V) \<and>
    p = rev (map (\<lambda>e. (el_payload e, d + 1)) (filter mkv_nested es)) @ pending"
  using assms(2)
proof (induction es arbitrary: V pending)
  case (Cons e es)
  let ?V = "add_mset (mkv_cost (d, e)) V"
  have c: "mkv_cost (d, e) = (d, el_id e = 0xae, mkv_alloc e)" by (simp add: mkv_cost_def)
  have w: "within limits ?V" if "within limits (image_mset mkv_cost (mset (map (Pair d) (e # es))) + V)"
    using that within_mono [of limits ?V "image_mset mkv_cost (mset (map (Pair d) es))"]
    by (simp add: union_commute)
  show ?case
    using visit_Inr [OF assms(1) Cons.prems, folded c] w Cons.IH [of ?V]
    by (auto simp: result_simps mkv_cost_def)
qed auto

lemma mkv_walk_Inr:
  assumes "usize_limits limits" "within limits V"
  shows "mkv_walk (budget_of limits V) pending = Inr b \<longleftrightarrow>
    within limits (image_mset mkv_cost (mset (mkv_boxes.forest pending)) + V) \<and>
    b = budget_of limits (image_mset mkv_cost (mset (mkv_boxes.forest pending)) + V)"
  using assms(2)
proof (induction "budget_of limits V" pending arbitrary: V rule: mkv_walk.induct)
  case 1
  then show ?case by (auto simp: mkv_walk.simps)
next
  case (2 bs d pending V)
  let ?here = "image_mset mkv_cost (mset (map (Pair d) (elements bs)))"
  let ?p = "rev (map (\<lambda>e. (el_payload e, d + 1)) (filter mkv_nested (elements bs))) @ pending"
  have m: "?here + image_mset mkv_cost (mset (mkv_boxes.forest ?p))
      = image_mset mkv_cost (mset (mkv_boxes.forest ((bs, d) # pending)))"
    unfolding mkv_boxes.mset_forest_step [symmetric] by simp
  note v = visit_elements_Inr [OF assms(1) "2.prems", of d "elements bs" pending]
  show ?case
  proof (cases "within limits (?here + V)")
    case True
    then have s: "visit_elements d (elements bs) (budget_of limits V) pending
        = Inr (budget_of limits (?here + V), ?p)" using v by blast
    have w: "mkv_walk (budget_of limits V) ((bs, d) # pending) = mkv_walk (budget_of limits (?here + V)) ?p"
      by (simp only: mkv_walk.simps s sum.case prod.case)
    have "image_mset mkv_cost (mset (mkv_boxes.forest ?p)) + (?here + V)
        = image_mset mkv_cost (mset (mkv_boxes.forest ((bs, d) # pending))) + V"
      unfolding m [symmetric] by (simp only: ac_simps)
    from "2.hyps" [OF s refl True, unfolded this] show ?thesis unfolding w .
  next
    case False
    then obtain x where "visit_elements d (elements bs) (budget_of limits V) pending = Inl x"
      using v by (cases "visit_elements d (elements bs) (budget_of limits V) pending") auto
    moreover have "image_mset mkv_cost (mset (mkv_boxes.forest ((bs, d) # pending))) + V
        = (?here + V) + image_mset mkv_cost (mset (mkv_boxes.forest ?p))"
      unfolding m [symmetric] by (simp only: ac_simps)
    then have "\<not> within limits (image_mset mkv_cost (mset (mkv_boxes.forest ((bs, d) # pending))) + V)"
      using False within_mono [of limits "?here + V"] by metis
    ultimately show ?thesis by (simp add: mkv_walk.simps)
  qed
qed

text \<open>The two largest sample counts of a file.\<close>

definition first_max :: "nat multiset \<Rightarrow> nat" where
  "first_max S = Max (insert 0 (set_mset S))"

definition second_max :: "nat multiset \<Rightarrow> nat" where
  "second_max S = first_max (S - {#first_max S#})"

lemma first_max_add: "first_max (add_mset n S) = max n (first_max S)"
  unfolding first_max_def set_mset_add_mset_insert insert_commute [of 0] by (rule Max_insert) simp_all

lemma first_max_member: "0 < first_max S \<Longrightarrow> first_max S \<in># S"
  using Max_in [of "insert 0 (set_mset S)"] by (auto simp: first_max_def)

lemma note_samples_max:
  "note_samples n (first_max S, second_max S) = (first_max (add_mset n S), second_max (add_mset n S))"
proof (cases "first_max S \<le> n")
  case True
  then show ?thesis by (simp add: note_samples_def second_max_def first_max_add max_absorb1)
next
  case False
  then have "first_max S \<in># S" by (intro first_max_member) simp
  with False show ?thesis
    by (auto simp: note_samples_def second_max_def first_max_add max_def)
qed

definition sample_counts :: "parse_limits \<Rightarrow> (nat \<times> atom) list \<Rightarrow> nat list" where
  "sample_counts limits as = List.map_filter (noted limits) (map snd as)"

lemma mset_map_filter: "mset (List.map_filter f xs) = (\<Sum>x \<in># mset xs. case f x of None \<Rightarrow> {#} | Some y \<Rightarrow> {#y#})"
  by (induction xs) (auto simp: map_filter_simps split: option.splits)

abbreviation count_mset :: "parse_limits \<Rightarrow> (nat \<times> atom) list \<Rightarrow> nat multiset" where
  "count_mset limits as \<equiv> mset (sample_counts limits as)"

lemma count_mset_append [simp]:
  "count_mset limits (xs @ ys) = count_mset limits xs + count_mset limits ys"
  by (simp add: sample_counts_def mset_map_filter)

lemma count_mset_cong: "mset xs = mset ys \<Longrightarrow> count_mset limits xs = count_mset limits ys"
  by (metis mset_map mset_map_filter sample_counts_def)

definition tops :: "nat multiset \<Rightarrow> nat \<times> nat" where
  "tops S = (first_max S, second_max S)"

lemma visit_atoms_Inr:
  assumes "usize_limits limits" "within limits V"
  shows "visit_atoms d as (budget_of limits V) (tops S) pending = Inr (b, ls, p) \<longleftrightarrow>
    within limits (image_mset mp4_cost (mset (map (Pair d) as)) + V) \<and>
    b = budget_of limits (image_mset mp4_cost (mset (map (Pair d) as)) + V) \<and>
    ls = tops (count_mset limits (map (Pair d) as) + S) \<and>
    p = rev (map (\<lambda>a. (at_payload a, d + 1)) (filter mp4_nested as)) @ pending"
  using assms(2)
proof (induction as arbitrary: V S pending)
  case Nil
  then show ?case by (auto simp: sample_counts_def map_filter_simps)
next
  case (Cons a as)
  let ?V = "add_mset (mp4_cost (d, a)) V"
  let ?S = "(case noted limits a of None \<Rightarrow> {#} | Some n \<Rightarrow> {#n#}) + S"
  have c: "mp4_cost (d, a) = (d, at_kind a = ascii ''trak'', mp4_alloc a)" by (simp add: mp4_cost_def)
  have w: "within limits ?V" if "within limits (image_mset mp4_cost (mset (map (Pair d) (a # as))) + V)"
    using that within_mono [of limits ?V "image_mset mp4_cost (mset (map (Pair d) as))"]
    by (simp add: union_commute)
  have t: "(case noted limits a of None \<Rightarrow> tops S | Some n \<Rightarrow> note_samples n (tops S)) = tops ?S"
    by (simp add: tops_def note_samples_max split: option.splits)
  have n: "count_mset limits (map (Pair d) (a # as)) + S = count_mset limits (map (Pair d) as) + ?S"
    by (simp add: sample_counts_def map_filter_simps split: option.splits)
  have m: "image_mset mp4_cost (mset (map (Pair d) (a # as))) + V
      = image_mset mp4_cost (mset (map (Pair d) as)) + ?V" by simp
  show ?case
    unfolding visit_atoms_Cons n m
    using visit_Inr [OF assms(1) Cons.prems] w [unfolded m] t
    by (cases "within limits ?V") (auto simp: result_simps Cons.IH c)
qed

lemma mp4_walk_Inr:
  assumes "usize_limits limits" "within limits V"
  shows "mp4_walk (budget_of limits V) (tops S) pending = Inr (b, ls) \<longleftrightarrow>
    within limits (image_mset mp4_cost (mset (mp4_boxes.forest pending)) + V) \<and>
    b = budget_of limits (image_mset mp4_cost (mset (mp4_boxes.forest pending)) + V) \<and>
    ls = tops (count_mset limits (mp4_boxes.forest pending) + S)"
  using assms(2)
proof (induction "budget_of limits V" "tops S" pending arbitrary: V S rule: mp4_walk.induct)
  case 1
  then show ?case by (auto simp: mp4_walk.simps sample_counts_def map_filter_simps)
next
  case (2 bs d pending V S)
  let ?here = "image_mset mp4_cost (mset (map (Pair d) (atoms bs)))"
  let ?S = "count_mset limits (map (Pair d) (atoms bs)) + S"
  let ?p = "rev (map (\<lambda>a. (at_payload a, d + 1)) (filter mp4_nested (atoms bs))) @ pending"
  note fs = mp4_boxes.mset_forest_step [of d bs pending]
  have m: "?here + image_mset mp4_cost (mset (mp4_boxes.forest ?p))
      = image_mset mp4_cost (mset (mp4_boxes.forest ((bs, d) # pending)))"
    unfolding fs [symmetric] by simp
  have n: "count_mset limits (map (Pair d) (atoms bs)) + count_mset limits (mp4_boxes.forest ?p)
      = count_mset limits (mp4_boxes.forest ((bs, d) # pending))"
    unfolding count_mset_append [symmetric] by (rule count_mset_cong) (simp only: mset_append fs)
  note v = visit_atoms_Inr [OF assms(1) "2.prems", of d "atoms bs" S pending]
  show ?case
  proof (cases "within limits (?here + V)")
    case True
    then have s: "visit_atoms d (atoms bs) (budget_of limits V) (tops S) pending
        = Inr (budget_of limits (?here + V), tops ?S, ?p)" using v by blast
    have w: "mp4_walk (budget_of limits V) (tops S) ((bs, d) # pending)
        = mp4_walk (budget_of limits (?here + V)) (tops ?S) ?p"
      by (simp only: mp4_walk.simps s sum.case prod.case)
    have e: "image_mset mp4_cost (mset (mp4_boxes.forest ?p)) + (?here + V)
        = image_mset mp4_cost (mset (mp4_boxes.forest ((bs, d) # pending))) + V"
      "count_mset limits (mp4_boxes.forest ?p) + ?S
        = count_mset limits (mp4_boxes.forest ((bs, d) # pending)) + S"
      unfolding m [symmetric] n [symmetric] by (simp_all only: ac_simps)
    show ?thesis using "2.hyps" [OF s refl refl True] unfolding w e .
  next
    case False
    then obtain x where "visit_atoms d (atoms bs) (budget_of limits V) (tops S) pending = Inl x"
      using v by (cases "visit_atoms d (atoms bs) (budget_of limits V) (tops S) pending") auto
    moreover have "image_mset mp4_cost (mset (mp4_boxes.forest ((bs, d) # pending))) + V
        = (?here + V) + image_mset mp4_cost (mset (mp4_boxes.forest ?p))"
      unfolding m [symmetric] by (simp only: ac_simps)
    then have "\<not> within limits (image_mset mp4_cost (mset (mp4_boxes.forest ((bs, d) # pending))) + V)"
      using False within_mono [of limits "?here + V"] by metis
    ultimately show ?thesis by (simp add: mp4_walk.simps)
  qed
qed

lemma within_list:
  "within limits (image_mset f (mset xs)) \<longleftrightarrow>
     (\<forall>x \<in> set xs. fst (f x) \<le> max_depth limits) \<and> length xs \<le> max_boxes limits \<and>
     length (filter (\<lambda>x. fst (snd (f x))) xs) \<le> max_tracks limits \<and>
     (\<Sum>x\<leftarrow>xs. snd (snd (f x))) \<le> max_index_bytes limits"
proof -
  have "size {#v \<in># image_mset f (mset xs). fst (snd v)#} = length (filter (\<lambda>x. fst (snd (f x))) xs)"
    by (induction xs) simp_all
  moreover have "(\<Sum>(d, t, n) \<in># image_mset f (mset xs). n) = (\<Sum>x\<leftarrow>xs. snd (snd (f x)))"
    by (induction xs) (simp_all add: split_beta)
  ultimately show ?thesis by (simp add: within_def split_beta)
qed

lemma mkv_validate_Inr:
  assumes "usize_limits limits"
  shows "mkv_validate bs limits = Inr () \<longleftrightarrow> within limits (image_mset mkv_cost (mset (mkv_tree bs 0)))"
proof -
  have "mkv_validate bs limits = Inr () \<longleftrightarrow> (\<exists>b. mkv_walk (budget_of limits {#}) [(bs, 0)] = Inr b)"
    by (auto simp: mkv_validate_def budget_new_of result_simps)
  then show ?thesis by (simp add: mkv_walk_Inr [OF assms within_empty])
qed

lemma mp4_validate_Inr:
  assumes "usize_limits limits"
  shows "mp4_validate sz bs limits = Inr () \<longleftrightarrow>
    (let (l, s) = tops (count_mset limits (mp4_tree bs 0)) in
     within limits (image_mset mp4_cost (mset (mp4_tree bs 0)) + {#(0, False, (l + s) * sz), (0, False, l * 48)#}))"
proof -
  let ?V = "image_mset mp4_cost (mset (mp4_tree bs 0))" and ?C = "count_mset limits (mp4_tree bs 0)"
  have t: "(0, 0) = tops {#}" by (simp add: tops_def second_max_def first_max_def)
  obtain l s where ls: "tops ?C = (l, s)" by (cases "tops ?C")
  have w: "mp4_walk (budget_new limits) (0, 0) [(bs, 0)] = Inr (b, l', s') \<longleftrightarrow>
      within limits ?V \<and> b = budget_of limits ?V \<and> l' = l \<and> s' = s" for b l' s'
    unfolding budget_new_of t using mp4_walk_Inr [OF assms within_empty, of "{#}" "[(bs, 0)]" b "(l', s')"]
    by (auto simp: ls)
  have small: "(l + s) * sz < 2 ^ 64 \<and> l * 48 < 2 ^ 64"
    if "within limits (?V + {#(0, False, (l + s) * sz), (0, False, l * 48)#})"
    using that assms by (auto simp: within_def usize_limits_def)
  have sum: "l + s < 2 ^ 64" if "l * 48 < 2 ^ 64"
  proof -
    have "s \<le> l"
    proof -
      have "first_max (?C - {#first_max ?C#}) \<le> first_max ?C"
        unfolding first_max_def by (rule Max_mono) (auto dest: in_diffD)
      then show ?thesis using ls by (auto simp: tops_def second_max_def)
    qed
    with that show ?thesis by simp
  qed
  have v1: "within limits (?V + {#(0, False, (l + s) * sz)#})" "within limits ?V"
    if "within limits (?V + {#(0, False, (l + s) * sz), (0, False, l * 48)#})"
    using that within_mono [of limits "?V + {#(0, False, (l + s) * sz)#}" "{#(0, False, l * 48)#}"]
      within_mono [of limits ?V "{#(0, False, (l + s) * sz), (0, False, l * 48)#}"]
    by (simp_all add: add_mset_commute)
  have vv: "(\<exists>b b'. visit (budget_of limits ?V) 0 False ((l + s) * sz) = Inr b \<and>
        visit b 0 False (l * 48) = Inr b') \<longleftrightarrow>
      within limits (?V + {#(0, False, (l + s) * sz), (0, False, l * 48)#})" if W: "within limits ?V"
  proof (cases "within limits (add_mset (0, False, (l + s) * sz) ?V)")
    case True
    show ?thesis
      unfolding visit_Inr [OF assms W] using True
      by (simp add: visit_Inr [OF assms True] add_mset_commute)
  next
    case False
    then show ?thesis using v1(1) unfolding visit_Inr [OF assms W] by auto
  qed
  have "mp4_validate sz bs limits = Inr () \<longleftrightarrow>
      within limits ?V \<and> l + s < 2 ^ 64 \<and> (l + s) * sz < 2 ^ 64 \<and> l * 48 < 2 ^ 64 \<and>
      (\<exists>b b'. visit (budget_of limits ?V) 0 False ((l + s) * sz) = Inr b \<and>
        visit b 0 False (l * 48) = Inr b')"
    by (auto simp: mp4_validate_def result_simps w split: option.splits prod.splits)
  also have "\<dots> \<longleftrightarrow> within limits (?V + {#(0, False, (l + s) * sz), (0, False, l * 48)#})"
    using small sum v1 vv by blast
  finally show ?thesis by (simp add: ls)
qed

section \<open>Properties\<close>

text \<open>C2: The Matroska metadata budget accepts a file exactly when, over the whole tree of
  its elements, no element lies deeper than the limit, the number of elements and of track
  entries are within the limits, and so is the total size of the payloads that are neither
  descended into nor skipped. The stack walk always ends, on arbitrary bytes.\<close>

theorem matroska_budget_exact:
  assumes "max_boxes limits < 2 ^ 64" "max_index_bytes limits < 2 ^ 64"
  shows "mkv_validate bs limits = Inr () \<longleftrightarrow>
    (\<forall>(d, e) \<in> set (mkv_tree bs 0). d \<le> max_depth limits) \<and>
    length (mkv_tree bs 0) \<le> max_boxes limits \<and>
    length (filter (\<lambda>(d, e). el_id e = 0xae) (mkv_tree bs 0)) \<le> max_tracks limits \<and>
    (\<Sum>(d, e)\<leftarrow>mkv_tree bs 0. mkv_alloc e) \<le> max_index_bytes limits"
  using mkv_validate_Inr [of limits bs] assms
  by (simp add: usize_limits_def within_list mkv_cost_def case_prod_unfold)

text \<open>C1: The MP4 metadata budget accepts a file exactly when, over the whole tree of its
  boxes, depth, box count, track count and retained bytes are within the limits, where the
  retained bytes include the packet indexes of the two largest acceptable tracks and 48
  bytes of scratch per sample of the largest.\<close>

theorem mp4_budget_exact:
  assumes "max_boxes limits < 2 ^ 64" "max_index_bytes limits < 2 ^ 64"
  shows "mp4_validate packet_ref_size bs limits = Inr () \<longleftrightarrow>
    (let tree = mp4_tree bs 0; counts = mset (sample_counts limits tree);
         l = first_max counts; s = second_max counts in
    (\<forall>(d, a) \<in> set tree. d \<le> max_depth limits) \<and>
    length tree + 2 \<le> max_boxes limits \<and>
    length (filter (\<lambda>(d, a). at_kind a = ascii ''trak'') tree) \<le> max_tracks limits \<and>
    (\<Sum>(d, a)\<leftarrow>tree. mp4_alloc a) + (l + s) * packet_ref_size + l * 48 \<le> max_index_bytes limits)"
proof -
  have w: "within limits (V + {#(0, False, x), (0, False, y)#}) \<longleftrightarrow>
      (\<forall>(d, t, n) \<in># V. d \<le> max_depth limits) \<and> size V + 2 \<le> max_boxes limits \<and>
      size {#v \<in># V. fst (snd v)#} \<le> max_tracks limits \<and>
      (\<Sum>(d, t, n) \<in># V. n) + x + y \<le> max_index_bytes limits" for V x y
    by (simp add: within_def ac_simps)
  have f: "size {#v \<in># image_mset f (mset xs). fst (snd v)#} = length (filter (\<lambda>x. fst (snd (f x))) xs)"
    for f :: "nat \<times> atom \<Rightarrow> nat \<times> bool \<times> nat" and xs
    by (induction xs) simp_all
  have g: "(\<Sum>(d, t, n) \<in># image_mset f (mset xs). n) = (\<Sum>x\<leftarrow>xs. snd (snd (f x)))"
    for f :: "nat \<times> atom \<Rightarrow> nat \<times> bool \<times> nat" and xs
    by (induction xs) (simp_all add: split_beta)
  show ?thesis
    unfolding mp4_validate_Inr [of limits, unfolded usize_limits_def, OF conjI, OF assms]
      tops_def Let_def prod.case w f g
    by (simp add: mp4_cost_def case_prod_unfold)
qed

definition demo_limits :: parse_limits where
  "demo_limits = limits_default\<lparr>max_tracks := 0\<rparr>"

theorem matroska_budget_exact_witness:
  "mkv_validate (enc_element (0xEC, 1, [7])) demo_limits = Inr ()"
proof -
  let ?x = "(0xEC, 1, [7]) :: nat \<times> nat \<times> bytes"
  have "wf_element ?x" by (simp add: wf_element_def valid_id_def) (rule bexI [of _ 1]; simp)
  then have "map element_key (elements (enc_element ?x)) = [(0xEC, [7])]"
    using elements_from_enc [of "[?x]" "[]"] by (simp add: elements_def enc_element_def enc_id_def)
  then obtain e where e: "elements (enc_element ?x) = [e]" "el_id e = 0xEC"
    by (auto simp: element_key_def)
  then have "mkv_tree (enc_element ?x) 0 = [(0, e)]"
    unfolding mkv_tree.simps [of "enc_element ?x"] e(1) by (simp add: mkv_nested_def)
  then show ?thesis
    using matroska_budget_exact [of demo_limits "enc_element ?x"] e
    by (simp add: demo_limits_def limits_default_def mkv_alloc_def mkv_nested_def mkv_skipped_def)
qed

theorem mp4_budget_exact_witness:
  "mp4_validate 48 (enc_atom \<lparr>at_kind = ascii ''free'', at_payload = [1, 2]\<rparr>) limits_default = Inr ()"
proof -
  let ?a = "\<lparr>at_kind = ascii ''free'', at_payload = [1, 2]\<rparr>"
  have "atoms (concat (map enc_atom [?a])) = [?a]"
    unfolding atoms_def by (rule atom_codec.collect_enc) (simp_all add: wf_atom_def enc_atom_def)
  then have a: "atoms (enc_atom ?a) = [?a]" by simp
  have n: "\<not> mp4_nested ?a" "atom_samples ?a = None" "ascii ''free'' \<noteq> ascii ''trak''"
    "ascii ''free'' \<noteq> ascii ''mdat''"
    by (simp_all add: mp4_nested_def atom_samples_def ascii_def)
  then have t: "mp4_tree (enc_atom ?a) 0 = [(0, ?a)]" by (simp add: mp4_tree.simps [of "enc_atom ?a"] a)
  have "sample_counts limits_default [(0::nat, ?a)] = []"
    by (simp add: sample_counts_def map_filter_simps noted_def n)
  then show ?thesis
    using mp4_budget_exact [of limits_default 48 "enc_atom ?a"] n
    by (simp add: t limits_default_def mp4_alloc_def first_max_def second_max_def Let_def)
qed

end
