(* ===== verification/Resources.thy ===== *)
theory Resources
  imports Prelude
begin

text \<open>
  \<open>resources.rs\<close> and \<open>work.rs\<close>: the resource policy and its validation, the shared
  admission pool whose leases are taken and dropped in any order, and the cooperative
  work control. The pool's mutex makes \<open>admit\<close> and \<open>drop\<close> atomic, so concurrent use is
  an interleaving of these two steps.
\<close>

section \<open>Policies\<close>

record resource_policy =
  session_memory_bytes :: nat
  aggregate_memory_bytes :: nat
  max_sessions :: nat
  metadata_bytes :: nat
  index_bytes :: nat
  compressed_window_bytes :: nat
  decoded_batch_bytes :: nat
  output_bytes :: nat
  frame_pixels :: nat
  codec_threads :: nat
  allow_software_video :: bool

definition policy_default :: resource_policy where
  "policy_default =
     \<lparr>session_memory_bytes = 1536 * 1024 * 1024,
      aggregate_memory_bytes = 3 * 1024 * 1024 * 1024,
      max_sessions = 2,
      metadata_bytes = 64 * 1024 * 1024,
      index_bytes = 256 * 1024 * 1024,
      compressed_window_bytes = 64 * 1024 * 1024,
      decoded_batch_bytes = 64 * 1024 * 1024,
      output_bytes = 128 * 1024 * 1024,
      frame_pixels = 8192 * 4320,
      codec_threads = 2,
      allow_software_video = True\<rparr>"

definition small_nas :: resource_policy where
  "small_nas = policy_default
     \<lparr>session_memory_bytes := 224 * 1024 * 1024,
      aggregate_memory_bytes := 384 * 1024 * 1024,
      metadata_bytes := 24 * 1024 * 1024,
      index_bytes := 96 * 1024 * 1024,
      compressed_window_bytes := 32 * 1024 * 1024,
      decoded_batch_bytes := 8 * 1024 * 1024,
      output_bytes := 64 * 1024 * 1024,
      codec_threads := 1,
      allow_software_video := False\<rparr>"

datatype resource_error =
    InvalidPolicy string
  | Exceeded string nat nat
  | Busy

text \<open>The loop of \<open>validate\<close> over the five allocation ceilings, with its running total.\<close>

fun validate_sum :: "nat list \<Rightarrow> nat \<Rightarrow> resource_error + nat" where
  "validate_sum [] acc = Inr acc"
| "validate_sum (value # values) acc =
     (if value = 0 then Inl (InvalidPolicy ''allocation ceilings must be positive'')
      else res_bind (ok_or (InvalidPolicy ''memory accounting overflow'')
             (checked_add 64 acc value)) (\<lambda>acc. validate_sum values acc))"

definition validate :: "resource_policy \<Rightarrow> resource_error + unit" where
  "validate p =
     (if max_sessions p = 0 \<or> codec_threads p = 0 \<or> 64 < codec_threads p \<or> frame_pixels p = 0
      then Inl (InvalidPolicy ''zero capacity or invalid thread/pixel count'')
      else res_bind
        (validate_sum [metadata_bytes p, index_bytes p, compressed_window_bytes p,
                       decoded_batch_bytes p, output_bytes p] 0)
        (\<lambda>acc.
          if session_memory_bytes p < acc \<or> aggregate_memory_bytes p < session_memory_bytes p
          then Inl (InvalidPolicy ''allocation/session/aggregate ceilings are inconsistent'')
          else Inr ()))"

definition policy_check :: "string \<Rightarrow> nat \<Rightarrow> nat \<Rightarrow> resource_error + unit" where
  "policy_check resource requested limit =
     (if limit < requested then Inl (Exceeded resource requested limit) else Inr ())"

section \<open>The admission pool\<close>

record engine_runtime =
  er_policy :: resource_policy
  er_sessions :: nat

definition runtime_new :: "resource_policy \<Rightarrow> resource_error + engine_runtime" where
  "runtime_new policy =
     res_bind (validate policy) (\<lambda>_. Inr \<lparr>er_policy = policy, er_sessions = 0\<rparr>)"

definition active_sessions :: "engine_runtime \<Rightarrow> nat" where
  "active_sessions r = er_sessions r"

definition admission_limit :: "engine_runtime \<Rightarrow> nat" where
  "admission_limit r =
     min (max_sessions (er_policy r))
         (aggregate_memory_bytes (er_policy r) div session_memory_bytes (er_policy r))"

text \<open>\<open>Ok(SessionLease)\<close> is \<open>Inr\<close> of the runtime with one more session.\<close>

definition admit :: "engine_runtime \<Rightarrow> resource_error + engine_runtime" where
  "admit r =
     (if admission_limit r \<le> er_sessions r then Inl Busy
      else Inr (r\<lparr>er_sessions := er_sessions r + 1\<rparr>))"

definition drop_lease :: "engine_runtime \<Rightarrow> engine_runtime" where
  "drop_lease r = r\<lparr>er_sessions := er_sessions r - 1\<rparr>"

section \<open>The work control\<close>

record work_control =
  wc_cancelled :: bool
  wc_deadline :: "nat option"

datatype work_stopped = Cancelled | Deadline

definition work_default :: work_control where
  "work_default = \<lparr>wc_cancelled = False, wc_deadline = None\<rparr>"

definition with_deadline :: "nat \<Rightarrow> work_control" where
  "with_deadline deadline = work_default\<lparr>wc_deadline := Some deadline\<rparr>"

definition cancel :: "work_control \<Rightarrow> work_control" where
  "cancel w = w\<lparr>wc_cancelled := True\<rparr>"

text \<open>\<open>Instant::now()\<close> is the argument \<open>now\<close>.\<close>

definition work_check :: "nat \<Rightarrow> work_control \<Rightarrow> work_stopped + unit" where
  "work_check now w =
     (if wc_cancelled w then Inl Cancelled
      else if (case wc_deadline w of None \<Rightarrow> False | Some deadline \<Rightarrow> deadline \<le> now)
      then Inl Deadline
      else Inr ())"

section \<open>The contract of an admission pool\<close>

text \<open>
  What a client of a bounded pool relies on. \<open>take\<close> fails exactly at the limit and
  otherwise adds one; \<open>give\<close> returns one; neither changes the limit.
\<close>

locale bounded_pool =
  fixes take :: "'s \<Rightarrow> 's option"
    and give :: "'s \<Rightarrow> 's"
    and active :: "'s \<Rightarrow> nat"
    and limit :: "'s \<Rightarrow> nat"
  assumes take_Some: "take s = Some t \<Longrightarrow> active s < limit s \<and> active t = Suc (active s) \<and> limit t = limit s"
    and take_None: "take s = None \<longleftrightarrow> limit s \<le> active s"
    and give_active: "active (give s) = active s - 1"
    and give_limit: "limit (give s) = limit s"
begin

inductive step :: "'s \<times> 'l set \<Rightarrow> 's \<times> 'l set \<Rightarrow> bool" where
  open_lease: "take s = Some t \<Longrightarrow> l \<notin> live \<Longrightarrow> step (s, live) (t, insert l live)"
| rejected: "take s = None \<Longrightarrow> step (s, live) (s, live)"
| close_lease: "l \<in> live \<Longrightarrow> step (s, live) (give s, live - {l})"

inductive reachable :: "'s \<Rightarrow> 's \<times> 'l set \<Rightarrow> bool" for s0 where
  start: "reachable s0 (s0, {})"
| move: "reachable s0 c \<Longrightarrow> step c c' \<Longrightarrow> reachable s0 c'"

lemma reachable_inv:
  assumes "reachable s0 c" "active s0 = 0"
  shows "finite (snd c) \<and> active (fst c) = card (snd c) \<and> active (fst c) \<le> limit s0
    \<and> limit (fst c) = limit s0"
  using assms
proof (induction rule: reachable.induct)
  case start
  then show ?case by simp
next
  case (move c c')
  then have inv: "finite (snd c)" "active (fst c) = card (snd c)" "active (fst c) \<le> limit s0"
    "limit (fst c) = limit s0" by simp_all
  from move(2) inv show ?case
  proof cases
    case (open_lease s t l live)
    then show ?thesis using inv take_Some by fastforce
  next
    case (rejected s live)
    then show ?thesis using inv by simp
  next
    case (close_lease l live s)
    then show ?thesis using inv by (simp add: give_active give_limit card_Diff_singleton)
  qed
qed

lemma reachable_progress:
  assumes "reachable s0 (s, live)" "active s0 = 0" "card live < limit s0"
  shows "take s \<noteq> None"
  using reachable_inv [OF assms(1,2)] assms(3) by (simp add: take_None)

end

definition admit_option :: "engine_runtime \<Rightarrow> engine_runtime option" where
  "admit_option r = (case admit r of Inl _ \<Rightarrow> None | Inr r' \<Rightarrow> Some r')"

interpretation runtime_pool: bounded_pool admit_option drop_lease active_sessions admission_limit
  by unfold_locales
    (auto simp: admit_option_def admit_def drop_lease_def active_sessions_def admission_limit_def
      split: if_splits)

lemma validate_sum_Inr:
  "validate_sum vs t = Inr u \<longleftrightarrow>
     u = t + sum_list vs \<and> (\<forall>v \<in> set vs. 0 < v) \<and> (vs = [] \<or> t + sum_list vs < 2 ^ 64)"
proof (induction vs arbitrary: t)
  case (Cons v vs)
  then show ?case by (cases vs) (auto simp: result_simps)
qed auto

lemma validate_Inr:
  "validate p = Inr () \<longleftrightarrow>
     0 < max_sessions p \<and> 0 < codec_threads p \<and> codec_threads p \<le> 64 \<and> 0 < frame_pixels p \<and>
     (\<forall>v \<in> set [metadata_bytes p, index_bytes p, compressed_window_bytes p,
         decoded_batch_bytes p, output_bytes p]. 0 < v) \<and>
     (let acc = metadata_bytes p + index_bytes p + compressed_window_bytes p
          + decoded_batch_bytes p + output_bytes p
      in acc < 2 ^ 64 \<and> acc \<le> session_memory_bytes p) \<and>
     session_memory_bytes p \<le> aggregate_memory_bytes p"
  unfolding validate_def
  by (auto simp: result_simps validate_sum_Inr Let_def simp del: validate_sum.simps)

lemma runtime_new_Inr:
  "runtime_new p = Inr r \<longleftrightarrow> validate p = Inr () \<and> r = \<lparr>er_policy = p, er_sessions = 0\<rparr>"
  by (auto simp: runtime_new_def result_simps)

lemma admission_limit_memory:
  "admission_limit r * session_memory_bytes (er_policy r) \<le> aggregate_memory_bytes (er_policy r)"
proof -
  have "admission_limit r * session_memory_bytes (er_policy r)
      \<le> aggregate_memory_bytes (er_policy r) div session_memory_bytes (er_policy r)
        * session_memory_bytes (er_policy r)"
    by (rule mult_le_mono1) (simp add: admission_limit_def)
  then show ?thesis using div_times_less_eq_dividend order_trans by blast
qed

lemma admission_limit_pos: "validate (er_policy r) = Inr () \<Longrightarrow> 0 < admission_limit r"
  by (auto simp: validate_Inr admission_limit_def Let_def div_greater_zero_iff)

section \<open>Properties\<close>

text \<open>A policy passes validation exactly when every ceiling is positive, the thread
  count is between 1 and 64, and the five allocation ceilings together fit one session's
  reservation, which fits the aggregate.\<close>

theorem validate_accepts_consistent_policies:
  "validate p = Inr () \<longleftrightarrow>
     0 < max_sessions p \<and> codec_threads p \<in> {1..64} \<and> 0 < frame_pixels p \<and>
     0 < metadata_bytes p \<and> 0 < index_bytes p \<and> 0 < compressed_window_bytes p \<and>
     0 < decoded_batch_bytes p \<and> 0 < output_bytes p \<and>
     metadata_bytes p + index_bytes p + compressed_window_bytes p + decoded_batch_bytes p
       + output_bytes p < 2 ^ 64 \<and>
     metadata_bytes p + index_bytes p + compressed_window_bytes p + decoded_batch_bytes p
       + output_bytes p \<le> session_memory_bytes p \<and>
     session_memory_bytes p \<le> aggregate_memory_bytes p"
  by (auto simp: validate_Inr Let_def)

text \<open>C9: However admissions and lease drops of a fresh runtime interleave, its counter is
  the number of live leases, stays within the session ceiling, and the reservations of all
  live sessions together stay within the aggregate memory ceiling; as long as fewer leases
  live than the limit (which is at least one), another admission succeeds.\<close>

theorem admission_never_overcommits:
  assumes "runtime_new p = Inr r0" "runtime_pool.reachable r0 (r, live)"
  shows "active_sessions r = card live \<and> card live \<le> max_sessions p \<and>
    card live * session_memory_bytes p \<le> aggregate_memory_bytes p \<and>
    0 < admission_limit r0 \<and> (card live < admission_limit r0 \<longrightarrow> (\<exists>r'. admit r = Inr r'))"
proof -
  have r0: "er_policy r0 = p" "active_sessions r0 = 0" "validate p = Inr ()"
    using assms(1) by (auto simp: runtime_new_Inr active_sessions_def)
  have inv: "active_sessions r = card live" "card live \<le> admission_limit r0"
    using runtime_pool.reachable_inv [OF assms(2) r0(2)] by simp_all
  have "card live * session_memory_bytes p \<le> aggregate_memory_bytes p"
    using mult_le_mono1 [OF inv(2)] admission_limit_memory [of r0] order_trans unfolding r0 by blast
  moreover have "\<exists>r'. admit r = Inr r'" if "card live < admission_limit r0"
    using runtime_pool.reachable_progress [OF assms(2) r0(2) that]
    by (auto simp: admit_option_def split: sum.splits)
  moreover have "admission_limit r0 \<le> max_sessions p" by (simp add: admission_limit_def r0)
  ultimately show ?thesis using inv r0 admission_limit_pos [of r0] by simp
qed

theorem admission_never_overcommits_witness:
  "\<exists>r0 r. runtime_new small_nas = Inr r0 \<and> runtime_pool.reachable r0 (r, {7::nat}) \<and>
     active_sessions r = 1 \<and> 1 * session_memory_bytes small_nas \<le> aggregate_memory_bytes small_nas"
proof -
  define r0 where "r0 = \<lparr>er_policy = small_nas, er_sessions = 0\<rparr>"
  define r where "r = \<lparr>er_policy = small_nas, er_sessions = 1\<rparr>"
  have n: "runtime_new small_nas = Inr r0"
    by (simp add: runtime_new_Inr r0_def validate_Inr small_nas_def policy_default_def Let_def)
  have "admit_option r0 = Some r"
    by (simp add: admit_option_def admit_def r0_def r_def admission_limit_def small_nas_def
        policy_default_def)
  then have m: "runtime_pool.reachable r0 (r, {7::nat})"
    using runtime_pool.reachable.move [OF runtime_pool.reachable.start [of r0]]
      runtime_pool.step.open_lease [of r0 r 7 "{}"] by simp
  show ?thesis using n m admission_never_overcommits [OF n m] by auto
qed

end
