(* ===== verification/TimeBase.thy ===== *)
theory TimeBase
  imports Prelude
begin

text \<open>
  Rational media time of \<open>packet/mod.rs\<close>: time scales, points and deltas, and the
  checked rescaling between scales. \<open>u64\<close> values are \<^typ>\<open>nat\<close> and \<open>i64\<close>/\<open>i128\<close>
  values are \<^typ>\<open>int\<close>; every conversion the code checks is a check here.
  The lemmas give the closed form of each rounding mode and show that the \<open>i128\<close>
  intermediate never overflows on \<open>u64\<close>/\<open>i64\<close> inputs.
\<close>

section \<open>Types\<close>

record time_scale =
  units_per_second :: nat

record time_point =
  tp_units :: nat
  tp_scale :: time_scale

record time_delta =
  td_units :: nat
  td_scale :: time_scale

record signed_time_point =
  stp_units :: int
  stp_scale :: time_scale

record signed_time_delta =
  std_units :: int
  std_scale :: time_scale

datatype time_rounding = Floor | Truncate | Nearest | Ceil

datatype time_error = ZeroScale | Overflow

definition MILLIS :: time_scale where
  "MILLIS = \<lparr>units_per_second = 1000\<rparr>"

definition time_scale_new :: "nat \<Rightarrow> time_error + time_scale" where
  "time_scale_new ups = (if ups = 0 then Inl ZeroScale else Inr \<lparr>units_per_second = ups\<rparr>)"

section \<open>Rescaling\<close>

definition i128_range :: "int \<Rightarrow> bool" where
  "i128_range x \<longleftrightarrow> - (2 ^ 127) \<le> x \<and> x < 2 ^ 127"

definition i64_range :: "int \<Rightarrow> bool" where
  "i64_range x \<longleftrightarrow> - (2 ^ 63) \<le> x \<and> x < 2 ^ 63"

definition checked_i128 :: "int \<Rightarrow> time_error + int" where
  "checked_i128 x = (if i128_range x then Inr x else Inl Overflow)"

text \<open>Rust's \<open>/\<close> and \<open>%\<close> truncate towards zero: \<open>sdiv\<close> and \<open>smod\<close>.\<close>

definition rescale_signed :: "int \<Rightarrow> int \<Rightarrow> int \<Rightarrow> time_rounding \<Rightarrow> time_error + int" where
  "rescale_signed units numerator denominator rounding =
     (if denominator = 0 then Inl ZeroScale
      else res_bind (checked_i128 (units * numerator)) (\<lambda>scaled.
        let quotient = scaled sdiv denominator;
            remainder = scaled smod denominator
        in if remainder = 0 then Inr quotient
           else let same_sign = ((0 \<le> scaled) = (0 \<le> denominator))
                in res_bind
                     (case rounding of
                        Truncate \<Rightarrow> Inr 0
                      | Floor \<Rightarrow> Inr (if same_sign then 0 else - 1)
                      | Ceil \<Rightarrow> Inr (if same_sign then 1 else 0)
                      | Nearest \<Rightarrow>
                          res_bind (checked_i128 (\<bar>remainder\<bar> * 2)) (\<lambda>doubled_remainder.
                            Inr (if \<bar>denominator\<bar> \<le> doubled_remainder
                                 then (if same_sign then 1 else - 1) else 0)))
                     (\<lambda>adjustment. checked_i128 (quotient + adjustment))))"

definition checked_rescale_u64 ::
    "time_scale \<Rightarrow> nat \<Rightarrow> time_scale \<Rightarrow> time_rounding \<Rightarrow> time_error + nat" where
  "checked_rescale_u64 self units target rounding =
     (if units_per_second self = 0 \<or> units_per_second target = 0 then Inl ZeroScale
      else res_bind
             (rescale_signed (int units) (int (units_per_second target))
                (int (units_per_second self)) rounding)
             (\<lambda>value. if 0 \<le> value \<and> value < 2 ^ 64 then Inr (nat value) else Inl Overflow))"

definition checked_rescale_i64 ::
    "time_scale \<Rightarrow> int \<Rightarrow> time_scale \<Rightarrow> time_rounding \<Rightarrow> time_error + int" where
  "checked_rescale_i64 self units target rounding =
     (if units_per_second self = 0 \<or> units_per_second target = 0 then Inl ZeroScale
      else res_bind
             (rescale_signed units (int (units_per_second target))
                (int (units_per_second self)) rounding)
             (\<lambda>value. if i64_range value then Inr value else Inl Overflow))"

definition to_millis :: "time_scale \<Rightarrow> nat \<Rightarrow> nat" where
  "to_millis self units =
     (case checked_rescale_u64 self units MILLIS Truncate of Inl _ \<Rightarrow> 0 | Inr v \<Rightarrow> v)"

section \<open>Points and deltas\<close>

definition time_point_zero :: "time_scale \<Rightarrow> time_point" where
  "time_point_zero scale = \<lparr>tp_units = 0, tp_scale = scale\<rparr>"

definition time_point_millis :: "nat \<Rightarrow> time_point" where
  "time_point_millis ms = \<lparr>tp_units = ms, tp_scale = MILLIS\<rparr>"

definition tp_as_millis :: "time_point \<Rightarrow> nat" where
  "tp_as_millis p = to_millis (tp_scale p) (tp_units p)"

definition tp_to_signed :: "time_point \<Rightarrow> time_error + signed_time_point" where
  "tp_to_signed p =
     (if tp_units p < 2 ^ 63
      then Inr \<lparr>stp_units = int (tp_units p), stp_scale = tp_scale p\<rparr> else Inl Overflow)"

definition time_delta_millis :: "nat \<Rightarrow> time_delta" where
  "time_delta_millis ms = \<lparr>td_units = ms, td_scale = MILLIS\<rparr>"

definition td_as_millis :: "time_delta \<Rightarrow> nat" where
  "td_as_millis d = to_millis (td_scale d) (td_units d)"

definition td_to_signed :: "time_delta \<Rightarrow> time_error + signed_time_delta" where
  "td_to_signed d =
     (if td_units d < 2 ^ 63
      then Inr \<lparr>std_units = int (td_units d), std_scale = td_scale d\<rparr> else Inl Overflow)"

definition signed_time_point_new :: "int \<Rightarrow> time_scale \<Rightarrow> time_error + signed_time_point" where
  "signed_time_point_new units scale =
     res_bind (time_scale_new (units_per_second scale))
       (\<lambda>_. Inr \<lparr>stp_units = units, stp_scale = scale\<rparr>)"

definition stp_rescale ::
    "signed_time_point \<Rightarrow> time_scale \<Rightarrow> time_rounding \<Rightarrow> time_error + signed_time_point" where
  "stp_rescale p target rounding =
     res_bind (checked_rescale_i64 (stp_scale p) (stp_units p) target rounding)
       (\<lambda>u. Inr \<lparr>stp_units = u, stp_scale = target\<rparr>)"

definition signed_time_delta_new :: "int \<Rightarrow> time_scale \<Rightarrow> time_error + signed_time_delta" where
  "signed_time_delta_new units scale =
     res_bind (time_scale_new (units_per_second scale))
       (\<lambda>_. Inr \<lparr>std_units = units, std_scale = scale\<rparr>)"

definition std_rescale ::
    "signed_time_delta \<Rightarrow> time_scale \<Rightarrow> time_rounding \<Rightarrow> time_error + signed_time_delta" where
  "std_rescale d target rounding =
     res_bind (checked_rescale_i64 (std_scale d) (std_units d) target rounding)
       (\<lambda>u. Inr \<lparr>std_units = u, std_scale = target\<rparr>)"

text \<open>\<open>transcode/mod.rs\<close>: nearest rounding with a \<open>u128\<close> intermediate, saturating.\<close>

definition rescale_units_rounded :: "nat \<Rightarrow> time_scale \<Rightarrow> time_scale \<Rightarrow> nat" where
  "rescale_units_rounded units from_scale to_scale =
     (if units_per_second from_scale = 0 \<or> units_per_second to_scale = 0 then 0
      else let numerator = units * units_per_second to_scale;
               denominator = units_per_second from_scale;
               rounded = (numerator + denominator div 2) div denominator
           in min rounded (2 ^ 64 - 1))"

text \<open>\<open>fmp4/mod.rs\<close>: floor with a \<open>u128\<close> intermediate, saturating.\<close>

definition rescale_time :: "nat \<Rightarrow> nat \<Rightarrow> nat \<Rightarrow> nat" where
  "rescale_time units from_ups to_ups =
     min (units * to_ups div max from_ups 1) (2 ^ 64 - 1)"

section \<open>Closed forms\<close>

definition round_div :: "time_rounding \<Rightarrow> int \<Rightarrow> int \<Rightarrow> int" where
  "round_div r x d =
     (case r of
        Floor \<Rightarrow> x div d
      | Ceil \<Rightarrow> - ((- x) div d)
      | Truncate \<Rightarrow> sgn x * (\<bar>x\<bar> div d)
      | Nearest \<Rightarrow> sgn x * ((2 * \<bar>x\<bar> + d) div (2 * d)))"

lemma sdiv_pos: "(0::int) < d \<Longrightarrow> 0 \<le> x \<Longrightarrow> x sdiv d = x div d"
  by (cases "x = 0") (simp_all add: signed_divide_int_def)

lemma sdiv_neg: "(0::int) < d \<Longrightarrow> x < 0 \<Longrightarrow> x sdiv d = - ((- x) div d)"
  by (simp add: signed_divide_int_def)

lemma smod_pos: "(0::int) < d \<Longrightarrow> 0 \<le> x \<Longrightarrow> x smod d = x mod d"
  by (simp add: minus_sdiv_mult_eq_smod [symmetric] sdiv_pos minus_div_mult_eq_mod)

lemma smod_neg: "(0::int) < d \<Longrightarrow> x < 0 \<Longrightarrow> x smod d = - ((- x) mod d)"
  using minus_div_mult_eq_mod [of "- x" d]
  by (simp add: minus_sdiv_mult_eq_smod [symmetric] sdiv_neg)

lemma div_neg_floor:
  fixes x d :: int
  assumes "0 < d" "(- x) mod d \<noteq> 0"
  shows "x div d = - ((- x) div d) - 1"
  using assms zdiv_zminus1_eq_if [of d "- x"] by simp

lemma nearest_div:
  fixes x d :: int
  assumes "0 < d" "0 \<le> x"
  shows "(2 * x + d) div (2 * d) = x div d + (if d \<le> 2 * (x mod d) then 1 else 0)"
proof -
  have m: "0 \<le> x mod d" "x mod d < d" using assms by simp_all
  have e: "2 * x + d = (2 * d) * q + (2 * k + d)" if "x = d * q + k" for q k
    using that by (simp add: algebra_simps)
  have "(2 * x + d) div (2 * d) = x div d + (2 * (x mod d) + d) div (2 * d)"
    unfolding e [OF mult_div_mod_eq [of d x, symmetric]] using assms
    by (subst div_mult_self4) simp_all
  moreover have "(2 * (x mod d) + d) div (2 * d) = (if d \<le> 2 * (x mod d) then 1 else 0)"
  proof (cases "d \<le> 2 * (x mod d)")
    case True
    have "(2 * (x mod d) + d) div (2 * d) = 1"
      by (rule int_div_pos_eq [where r = "2 * (x mod d) - d"]) (use m True in linarith)+
    with True show ?thesis by simp
  next
    case False
    then show ?thesis using m assms by (simp add: div_pos_pos_trivial)
  qed
  ultimately show ?thesis by simp
qed

lemma rescale_signed_nonneg:
  assumes d: "0 < d" "d < 2 ^ 126" and x: "0 \<le> u * n" "u * n < 2 ^ 126"
  shows "rescale_signed u n d r = Inr (round_div r (u * n) d)"
proof -
  define x where "x = u * n"
  have x0: "0 \<le> x" "x < 2 ^ 126" using x by (simp_all add: x_def)
  have m: "0 \<le> x mod d" "x mod d < d" using d by simp_all
  have q: "0 \<le> x div d" "x div d \<le> x"
    using x0 d zdiv_mono2 [of x 1 d] by (simp_all add: pos_imp_zdiv_nonneg_iff)
  have ceil: "x mod d \<noteq> 0 \<Longrightarrow> - ((- x) div d) = x div d + 1"
    using zdiv_zminus1_eq_if [of d x] d by simp
  have ceil0: "x mod d = 0 \<Longrightarrow> - ((- x) div d) = x div d"
    using zdiv_zminus1_eq_if [of d x] d by simp
  have sg: "sgn x * k = k" if "x = 0 \<Longrightarrow> k = 0" for k
    using that x0 by (cases "x = 0") simp_all
  show ?thesis
    unfolding x_def [symmetric] rescale_signed_def round_div_def
    using d x0 m q ceil ceil0 nearest_div [OF d(1) x0(1)]
    by (cases r; cases "x = 0")
      (auto simp: checked_i128_def i128_range_def sdiv_pos smod_pos Let_def)
qed

lemma rescale_signed_neg:
  assumes d: "0 < d" "d < 2 ^ 126" and x: "u * n < 0" "- (2 ^ 126) < u * n"
  shows "rescale_signed u n d r = Inr (round_div r (u * n) d)"
proof -
  define x y where "x = u * n" and "y = - (u * n)"
  have y: "0 < y" "y < 2 ^ 126" "x = - y" using x by (simp_all add: x_def y_def)
  have m: "0 \<le> y mod d" "y mod d < d" using d by simp_all
  have q: "0 \<le> y div d" "y div d \<le> y"
    using y d zdiv_mono2 [of y 1 d] by (simp_all add: pos_imp_zdiv_nonneg_iff)
  have floor: "y mod d \<noteq> 0 \<Longrightarrow> (- y) div d = - (y div d) - 1"
    "y mod d = 0 \<Longrightarrow> (- y) div d = - (y div d)"
    using zdiv_zminus1_eq_if [of d y] d by simp_all
  show ?thesis
    unfolding x_def [symmetric] rescale_signed_def round_div_def
    using d y m q floor nearest_div [of d y] sdiv_neg [of d "- y"] smod_neg [of d "- y"]
    by (cases r; simp add: checked_i128_def i128_range_def Let_def)
qed

theorem rescale_signed_correct:
  assumes "0 < d" "d < 2 ^ 126" "\<bar>u * n\<bar> < 2 ^ 126"
  shows "rescale_signed u n d r = Inr (round_div r (u * n) d)"
  using assms by (cases "0 \<le> u * n") (auto intro: rescale_signed_nonneg rescale_signed_neg)

section \<open>What each rounding mode promises\<close>

definition rounds :: "time_rounding \<Rightarrow> int \<Rightarrow> int \<Rightarrow> int \<Rightarrow> bool" where
  "rounds r x d q \<longleftrightarrow>
     (case r of
        Floor \<Rightarrow> q * d \<le> x \<and> x < (q + 1) * d
      | Ceil \<Rightarrow> (q - 1) * d < x \<and> x \<le> q * d
      | Truncate \<Rightarrow> 0 \<le> q * x \<and> \<bar>q\<bar> * d \<le> \<bar>x\<bar> \<and> \<bar>x\<bar> < (\<bar>q\<bar> + 1) * d
      | Nearest \<Rightarrow> 0 \<le> q * x \<and> 2 * \<bar>q * d - x\<bar> \<le> d \<and>
          (2 * \<bar>q * d - x\<bar> = d \<longrightarrow> \<bar>x\<bar> < \<bar>q\<bar> * d))"

lemma div_bounds:
  fixes x d :: int
  assumes "0 < d"
  shows "(x div d) * d \<le> x" "x < (x div d) * d + d"
proof -
  have "x = (x div d) * d + x mod d" by simp
  moreover have "0 \<le> x mod d" "x mod d < d" using assms by simp_all
  ultimately show "(x div d) * d \<le> x" "x < (x div d) * d + d" by linarith+
qed

lemma round_div_nearest_nonneg:
  assumes "0 < d" "0 \<le> x"
  shows "rounds Nearest x d ((2 * x + d) div (2 * d))"
proof -
  define q where "q = (2 * x + d) div (2 * d)"
  have b: "q * (2 * d) \<le> 2 * x + d" "2 * x + d < q * (2 * d) + 2 * d"
    using div_bounds [of "2 * d" "2 * x + d"] assms by (simp_all add: q_def)
  have b': "2 * (q * d) \<le> 2 * x + d" "2 * x < 2 * (q * d) + d"
    using b by (simp_all add: algebra_simps)
  have "0 \<le> q" using assms by (simp add: q_def pos_imp_zdiv_nonneg_iff)
  then show ?thesis unfolding q_def [symmetric] rounds_def
    using b' assms by (auto simp: abs_if)
qed

lemma rounds_uminus_nearest: "rounds Nearest (- x) d (- q) = rounds Nearest x d q"
proof -
  have "\<bar>- q * d - (- x)\<bar> = \<bar>q * d - x\<bar>" by (simp add: abs_minus_commute)
  then show ?thesis by (simp add: rounds_def)
qed

lemma round_div_rounds:
  assumes "0 < d"
  shows "rounds r x d (round_div r x d)"
proof (cases r)
  case Floor
  then show ?thesis using div_bounds [OF assms, of x]
    by (simp add: rounds_def round_div_def distrib_right)
next
  case Ceil
  then show ?thesis using div_bounds [OF assms, of "- x"]
    by (simp add: rounds_def round_div_def algebra_simps)
next
  case Truncate
  have "0 \<le> \<bar>x\<bar> div d" using assms by (simp add: pos_imp_zdiv_nonneg_iff)
  then show ?thesis using Truncate div_bounds [OF assms, of "\<bar>x\<bar>"] assms
    by (auto simp: rounds_def round_div_def abs_mult distrib_right sgn_if zero_le_mult_iff)
next
  case Nearest
  show ?thesis
  proof (cases "0 \<le> x")
    case True
    then show ?thesis using round_div_nearest_nonneg [OF assms True] Nearest assms
      by (cases "x = 0") (auto simp: round_div_def)
  next
    case False
    then have "rounds Nearest (- x) d ((2 * (- x) + d) div (2 * d))"
      using round_div_nearest_nonneg [OF assms, of "- x"] by simp
    then have "rounds Nearest x d (- ((2 * (- x) + d) div (2 * d)))"
      using rounds_uminus_nearest [of x d] by (metis minus_minus)
    then show ?thesis using False Nearest by (simp add: round_div_def)
  qed
qed

lemma round_div_nonneg: "0 < d \<Longrightarrow> 0 \<le> x \<Longrightarrow> 0 \<le> round_div r x d"
proof -
  assume a: "0 < d" "0 \<le> x"
  then have "(- x) div d \<le> 0" using zdiv_mono1 [of "- x" 0 d] by simp
  with a show ?thesis
    by (cases r; cases "x = 0") (simp_all add: round_div_def pos_imp_zdiv_nonneg_iff)
qed

lemma round_div_mult [simp]: "0 < d \<Longrightarrow> round_div r (q * d) d = q"
proof -
  assume d: "0 < d"
  have n: "(2 * (k * d) + d) div (2 * d) = k" if "0 \<le> k" for k
    using nearest_div [OF d, of "k * d"] d that by simp
  show ?thesis
    using d n [of q] n [of "- q"] nonzero_mult_div_cancel_right [of d "- q"]
    by (cases r; cases q "0 :: int" rule: linorder_cases)
      (auto simp: round_div_def sgn_mult abs_mult mult_neg_pos mult_pos_pos)
qed

section \<open>Rescaling of 64-bit timestamps\<close>

definition valid_scale :: "time_scale \<Rightarrow> bool" where
  "valid_scale s \<longleftrightarrow> 0 < units_per_second s \<and> units_per_second s < 2 ^ 32"

lemma valid_scale_MILLIS [simp]: "valid_scale MILLIS"
  by (simp add: valid_scale_def MILLIS_def)

lemma product_u64_u32: "a < 2 ^ 64 \<Longrightarrow> b < 2 ^ 32 \<Longrightarrow> a * b < (2 ^ 96 :: nat)"
  using mult_strict_mono [of a "2 ^ 64" b "2 ^ 32"] by simp

lemma rescale_u64_closed:
  assumes "valid_scale s" "valid_scale t" "u < 2 ^ 64"
  shows "checked_rescale_u64 s u t r =
    (let v = round_div r (int u * int (units_per_second t)) (int (units_per_second s))
     in if v < 2 ^ 64 then Inr (nat v) else Inl Overflow)"
proof -
  let ?s = "int (units_per_second s)" and ?t = "int (units_per_second t)"
  have p: "u * units_per_second t < 2 ^ 96"
    using assms product_u64_u32 by (simp add: valid_scale_def)
  then have "int u * ?t < 2 ^ 96"
    using of_nat_less_iff [of "u * units_per_second t" "2 ^ 96", where 'a = int] by simp
  then have b: "\<bar>int u * ?t\<bar> < 2 ^ 126" by simp
  have "rescale_signed (int u) ?t ?s r = Inr (round_div r (int u * ?t) ?s)"
    using assms b by (intro rescale_signed_correct) (simp_all add: valid_scale_def)
  moreover have "0 \<le> round_div r (int u * ?t) ?s"
    using assms by (intro round_div_nonneg) (simp_all add: valid_scale_def)
  ultimately show ?thesis
    using assms by (simp add: checked_rescale_u64_def valid_scale_def Let_def)
qed

lemma rescale_i64_closed:
  assumes "valid_scale s" "valid_scale t" "i64_range u"
  shows "checked_rescale_i64 s u t r =
    (let v = round_div r (u * int (units_per_second t)) (int (units_per_second s))
     in if i64_range v then Inr v else Inl Overflow)"
proof -
  let ?s = "int (units_per_second s)" and ?t = "int (units_per_second t)"
  have "\<bar>u\<bar> * ?t \<le> 2 ^ 63 * 2 ^ 32"
    using assms by (intro mult_mono) (auto simp: i64_range_def valid_scale_def)
  then have "\<bar>u * ?t\<bar> < 2 ^ 126" by (simp add: abs_mult)
  then have "rescale_signed u ?t ?s r = Inr (round_div r (u * ?t) ?s)"
    using assms by (intro rescale_signed_correct) (simp_all add: valid_scale_def)
  then show ?thesis
    using assms by (simp add: checked_rescale_i64_def valid_scale_def Let_def)
qed

lemma to_millis_closed:
  assumes "valid_scale s" "u < 2 ^ 64"
  shows "to_millis s u =
    (let v = u * 1000 div units_per_second s in if v < 2 ^ 64 then v else 0)"
proof -
  have "round_div Truncate (int u * 1000) (int (units_per_second s)) =
      int (u * 1000 div units_per_second s)"
    by (cases "u = 0") (simp_all add: round_div_def zdiv_int)
  moreover have "int (u * 1000 div units_per_second s) < 2 ^ 64 \<longleftrightarrow>
      u * 1000 div units_per_second s < 2 ^ 64"
    using of_nat_less_iff [of "u * 1000 div units_per_second s" "2 ^ 64", where 'a = int] by simp
  ultimately show ?thesis
    using rescale_u64_closed [OF assms(1) valid_scale_MILLIS assms(2), of Truncate]
    by (simp add: to_millis_def MILLIS_def Let_def)
qed

lemma to_millis_MILLIS [simp]: "u < 2 ^ 64 \<Longrightarrow> to_millis MILLIS u = u"
  using to_millis_closed [OF valid_scale_MILLIS, of u]
  by (simp add: Let_def) (simp add: MILLIS_def)

lemma to_millis_bound: "to_millis s u < 2 ^ 64"
  by (auto simp: to_millis_def checked_rescale_u64_def result_simps split: sum.splits if_splits)

section \<open>Rounding is unique\<close>

lemma rounds_floor_unique: "0 < d \<Longrightarrow> rounds Floor x d q \<Longrightarrow> q = x div d"
  using int_div_pos_eq [of x d q "x - q * d"] by (simp add: rounds_def algebra_simps)

lemma rounds_nearest_nonneg_unique:
  assumes "0 < d" "0 \<le> x" "rounds Nearest x d q"
  shows "q = (2 * x + d) div (2 * d)"
proof -
  have r: "0 \<le> q * x" "2 * \<bar>q * d - x\<bar> \<le> d" "2 * \<bar>q * d - x\<bar> = d \<longrightarrow> \<bar>x\<bar> < \<bar>q\<bar> * d"
    using assms by (simp_all add: rounds_def)
  have q0: "0 \<le> q"
  proof (cases "x = 0")
    case True
    with r have "2 * (\<bar>q\<bar> * d) \<le> d" using assms by (simp add: abs_mult)
    then have "\<bar>q\<bar> * d < 1 * d" using assms by simp
    then have "\<bar>q\<bar> < 1" using assms mult_less_cancel_right_pos by blast
    then show ?thesis by simp
  next
    case False
    with r assms show ?thesis by (simp add: zero_le_mult_iff)
  qed
  have "2 * (q * d) - 2 * x \<le> d" "2 * x - 2 * (q * d) < d"
    using r q0 assms by (auto simp: abs_if split: if_splits)
  then have "2 * x + d = (2 * d) * q + (2 * x + d - 2 * (q * d))"
    "0 \<le> 2 * x + d - 2 * (q * d)" "2 * x + d - 2 * (q * d) < 2 * d"
    by (simp_all add: algebra_simps)
  then show ?thesis using int_div_pos_eq by metis
qed

lemma rounds_unique:
  assumes d: "0 < d" and r: "rounds r x d q"
  shows "q = round_div r x d"
proof (cases r)
  case Floor
  then show ?thesis using rounds_floor_unique [OF d] r by (simp add: round_div_def)
next
  case Ceil
  then have "rounds Floor (- x) d (- q)" using r by (simp add: rounds_def algebra_simps)
  then have "- q = (- x) div d" by (rule rounds_floor_unique [OF d])
  then show ?thesis using Ceil by (simp add: round_div_def)
next
  case Truncate
  then have t: "0 \<le> q * x" "rounds Floor \<bar>x\<bar> d \<bar>q\<bar>" using r by (simp_all add: rounds_def)
  then have "\<bar>q\<bar> = \<bar>x\<bar> div d" by (intro rounds_floor_unique [OF d])
  moreover have "q = sgn x * \<bar>q\<bar>"
    using t d calculation by (cases "x = 0") (auto simp: sgn_if zero_le_mult_iff)
  ultimately show ?thesis using Truncate by (simp add: round_div_def)
next
  case Nearest
  show ?thesis
  proof (cases "0 \<le> x")
    case True
    with rounds_nearest_nonneg_unique [OF d True] r Nearest d show ?thesis
      by (cases "x = 0") (auto simp: round_div_def)
  next
    case False
    with r Nearest have "rounds Nearest (- x) d (- q)" by (simp add: rounds_uminus_nearest)
    then have "- q = (2 * (- x) + d) div (2 * d)"
      using False by (intro rounds_nearest_nonneg_unique [OF d]) simp_all
    with False Nearest show ?thesis by (simp add: round_div_def)
  qed
qed

lemma rounds_iff: "0 < d \<Longrightarrow> rounds r x d q \<longleftrightarrow> q = round_div r x d"
  using rounds_unique round_div_rounds by blast

section \<open>Properties\<close>

text \<open>C5: Checked rescaling of a \<open>u64\<close> timestamp returns exactly the value that the
  rounding mode's mathematical contract picks, for every pair of non-zero \<open>u32\<close> scales;
  the \<open>i128\<close> intermediate never overflows, so the only failure is \<open>Overflow\<close>, and it
  is reported exactly when the contract's value exceeds \<open>u64::MAX\<close>.\<close>

theorem checked_rescale_u64_correct:
  assumes "valid_scale s" "valid_scale t" "u < 2 ^ 64"
  shows "(checked_rescale_u64 s u t r = Inr v \<longleftrightarrow>
      v < 2 ^ 64 \<and>
      rounds r (int u * int (units_per_second t)) (int (units_per_second s)) (int v)) \<and>
    (checked_rescale_u64 s u t r = Inl e \<longleftrightarrow>
      e = Overflow \<and> (\<forall>q. rounds r (int u * int (units_per_second t))
        (int (units_per_second s)) q \<longrightarrow> 2 ^ 64 \<le> q))"
proof (rule conjI)
  let ?x = "int u * int (units_per_second t)" and ?d = "int (units_per_second s)"
  have d: "0 < ?d" using assms by (simp add: valid_scale_def)
  have n: "0 \<le> round_div r ?x ?d" using d by (intro round_div_nonneg) simp_all
  have eq: "int v = round_div r ?x ?d \<longleftrightarrow> v = nat (round_div r ?x ?d)"
    using n by (simp add: eq_nat_nat_iff nat_eq_iff2) (metis int_nat_eq nat_int)
  have lt: "nat (round_div r ?x ?d) < 2 ^ 64 \<longleftrightarrow> round_div r ?x ?d < 2 ^ 64"
    using n by (simp add: nat_less_iff)
  show "checked_rescale_u64 s u t r = Inr v \<longleftrightarrow> v < 2 ^ 64 \<and> rounds r ?x ?d (int v)"
    using lt by (auto simp: rescale_u64_closed [OF assms] rounds_iff [OF d] eq Let_def)
  show "checked_rescale_u64 s u t r = Inl e \<longleftrightarrow>
      e = Overflow \<and> (\<forall>q. rounds r ?x ?d q \<longrightarrow> 2 ^ 64 \<le> q)"
    by (auto simp: rescale_u64_closed [OF assms] rounds_iff [OF d] Let_def not_less)
qed

theorem checked_rescale_u64_correct_witness:
  "(checked_rescale_u64 \<lparr>units_per_second = 90000\<rparr> 45 MILLIS Nearest = Inr 1 \<longleftrightarrow>
     rounds Nearest (45 * 1000) 90000 1) \<and>
   (checked_rescale_u64 \<lparr>units_per_second = 1\<rparr> (2 ^ 63) MILLIS Floor = Inl Overflow \<longleftrightarrow>
     (\<forall>q. rounds Floor (2 ^ 63 * 1000) 1 q \<longrightarrow> 2 ^ 64 \<le> q))"
proof (rule conjI)
  have v: "valid_scale \<lparr>units_per_second = 90000\<rparr>" "valid_scale \<lparr>units_per_second = 1\<rparr>"
    "valid_scale MILLIS"
    by (simp_all add: valid_scale_def MILLIS_def)
  show "checked_rescale_u64 \<lparr>units_per_second = 90000\<rparr> 45 MILLIS Nearest = Inr 1 \<longleftrightarrow>
     rounds Nearest (45 * 1000) 90000 1"
    using checked_rescale_u64_correct [OF v(1) v(3), of 45 Nearest 1] by (simp add: MILLIS_def)
  show "checked_rescale_u64 \<lparr>units_per_second = 1\<rparr> (2 ^ 63) MILLIS Floor = Inl Overflow \<longleftrightarrow>
     (\<forall>q. rounds Floor (2 ^ 63 * 1000) 1 q \<longrightarrow> 2 ^ 64 \<le> q)"
    using checked_rescale_u64_correct [OF v(2) v(3), of "2 ^ 63" Floor 0 Overflow]
    by (simp add: MILLIS_def)
qed

text \<open>Rescaling a timestamp into a scale that is an integer multiple of its own and
  back returns the timestamp, whatever the two rounding modes.\<close>

theorem rescale_to_multiple_roundtrip:
  assumes "valid_scale s" "valid_scale t" "units_per_second t = k * units_per_second s"
    and "u * k < 2 ^ 64"
  shows "checked_rescale_u64 s u t r = Inr (u * k) \<and>
    checked_rescale_u64 t (u * k) s r' = Inr u"
proof (rule conjI)
  let ?s = "int (units_per_second s)"
  have s: "0 < ?s" and k: "0 < k" using assms by (auto simp: valid_scale_def intro: gr0I)
  have "u * 1 \<le> u * k" using k by (intro mult_le_mono) simp_all
  then have u: "u < 2 ^ 64" using assms by linarith
  have "round_div r (int u * (int k * ?s)) ?s = int u * int k"
    using s round_div_mult [of ?s r "int u * int k"] by (simp add: mult.assoc)
  moreover have "int u * int k < 2 ^ 64"
    using assms(4) of_nat_less_iff [of "u * k" "2 ^ 64", where 'a = int] by simp
  ultimately show "checked_rescale_u64 s u t r = Inr (u * k)"
    by (simp add: rescale_u64_closed [OF assms(1,2) u] assms(3) Let_def nat_mult_distrib)
  have "round_div r' (int (u * k) * ?s) (int k * ?s) = int u"
    using s k round_div_mult [of "int k * ?s" r' "int u"] by (simp add: mult.assoc)
  then show "checked_rescale_u64 t (u * k) s r' = Inr u"
    using u rescale_u64_closed [OF assms(2,1,4), of r'] by (simp add: assms(3) Let_def)
qed

theorem rescale_to_multiple_roundtrip_witness:
  "checked_rescale_u64 MILLIS 1001 \<lparr>units_per_second = 90000\<rparr> Nearest = Inr (1001 * 90) \<and>
   checked_rescale_u64 \<lparr>units_per_second = 90000\<rparr> (1001 * 90) MILLIS Floor = Inr 1001"
  using rescale_to_multiple_roundtrip [of MILLIS "\<lparr>units_per_second = 90000\<rparr>" 90 1001 Nearest Floor]
  by (simp add: valid_scale_def MILLIS_def)

end
