(* ===== verification/Packets.thy ===== *)
theory Packets
  imports TimeBase
begin

text \<open>
  Compressed packet indexes of \<open>packet/mod.rs\<close>: the keyframe-aligned chunk planner
  (an incremental state machine), the seek anchor, the copy-seek window, and the
  payload spans and sample tables extracted for a packet range.
\<close>

section \<open>Types\<close>

record packet_ref =
  pr_source_offset :: nat
  pr_size :: nat
  pr_pts :: time_point
  pr_dts :: time_point
  pr_duration :: time_delta
  pr_keyframe :: bool

record packet_range =
  rng_start :: nat
  rng_end :: nat

record native_chunk =
  nc_index :: nat
  nc_start :: time_point
  nc_duration :: time_delta
  nc_packet_range :: packet_range
  nc_key_aligned :: bool

record chunk_plan =
  cp_track_ids :: "string list"
  cp_chunks :: "native_chunk list"

record seek_anchor =
  sa_target_ms :: nat
  sa_anchor_ms :: nat
  sa_packet_index :: nat
  sa_preroll_ms :: nat
  sa_key_aligned :: bool

record copy_seek_plan =
  cs_track_id :: string
  cs_target_ms :: nat
  cs_anchor :: seek_anchor
  cs_chunk :: native_chunk

record chunk_sample =
  smp_index :: nat
  smp_payload_offset :: nat
  smp_byte_count :: nat
  smp_pts :: time_point
  smp_dts :: time_point
  smp_duration :: time_delta
  smp_keyframe :: bool

record extracted_chunk =
  ec_track_id :: string
  ec_chunk :: native_chunk
  ec_packet_count :: nat
  ec_byte_count :: nat
  ec_samples :: "chunk_sample list"

record packet_payload_span =
  span_packet_index :: nat
  span_source_offset :: nat
  span_bytes :: bytes

datatype packet_extract_error = InvalidRange | RangeOutOfBounds | SourceOutOfBounds

section \<open>The incremental chunk planner\<close>

record track_chunk_planner =
  tcp_target_ms :: nat
  tcp_chunks :: "native_chunk list"
  tcp_count :: nat
  tcp_start_idx :: nat
  tcp_chunk_start_ms :: nat
  tcp_last_end_ms :: nat
  tcp_key_aligned :: bool

definition planner_new :: "nat \<Rightarrow> track_chunk_planner" where
  "planner_new target_ms =
     \<lparr>tcp_target_ms = target_ms, tcp_chunks = [], tcp_count = 0, tcp_start_idx = 0,
      tcp_chunk_start_ms = 0, tcp_last_end_ms = 0, tcp_key_aligned = False\<rparr>"

text \<open>The chunk that \<open>push\<close> and \<open>finish\<close> both emit for the packets since the last cut.\<close>

definition planner_emit :: "track_chunk_planner \<Rightarrow> native_chunk" where
  "planner_emit s =
     \<lparr>nc_index = as_u 32 (length (tcp_chunks s)),
      nc_start = time_point_millis (tcp_chunk_start_ms s),
      nc_duration = time_delta_millis (tcp_last_end_ms s - tcp_chunk_start_ms s),
      nc_packet_range = \<lparr>rng_start = tcp_start_idx s, rng_end = as_u 32 (tcp_count s)\<rparr>,
      nc_key_aligned = tcp_key_aligned s\<rparr>"

definition packet_start_ms :: "packet_ref \<Rightarrow> nat" where
  "packet_start_ms p = tp_as_millis (pr_pts p)"

definition packet_end_ms :: "packet_ref \<Rightarrow> nat" where
  "packet_end_ms p = sat_add 64 (packet_start_ms p) (td_as_millis (pr_duration p))"

definition planner_push :: "track_chunk_planner \<Rightarrow> packet_ref \<Rightarrow> track_chunk_planner" where
  "planner_push s0 packet =
     (if tcp_target_ms s0 = 0 then s0
      else
        let s = (if tcp_count s0 = 0
                 then s0\<lparr>tcp_chunk_start_ms := packet_start_ms packet,
                         tcp_key_aligned := pr_keyframe packet\<rparr>
                 else s0);
            should_cut = (0 < tcp_count s \<and> pr_keyframe packet \<and>
                          tcp_target_ms s \<le> packet_start_ms packet - tcp_chunk_start_ms s);
            s = (if should_cut
                 then s\<lparr>tcp_chunks := tcp_chunks s @ [planner_emit s],
                        tcp_start_idx := as_u 32 (tcp_count s),
                        tcp_chunk_start_ms := packet_start_ms packet,
                        tcp_key_aligned := pr_keyframe packet\<rparr>
                 else s)
        in s\<lparr>tcp_last_end_ms := packet_end_ms packet, tcp_count := tcp_count s + 1\<rparr>)"

definition planner_finish :: "track_chunk_planner \<Rightarrow> string \<Rightarrow> chunk_plan" where
  "planner_finish s track_id =
     (if tcp_count s = 0 then \<lparr>cp_track_ids = [], cp_chunks = []\<rparr>
      else \<lparr>cp_track_ids = (if track_id = [] then [] else [track_id]),
            cp_chunks = tcp_chunks s @ [planner_emit s]\<rparr>)"

definition plan_track_chunks :: "string \<Rightarrow> packet_ref list \<Rightarrow> nat \<Rightarrow> chunk_plan" where
  "plan_track_chunks track_id packets target_ms =
     planner_finish
       (if 0 < target_ms then foldl planner_push (planner_new target_ms) packets
        else planner_new target_ms)
       track_id"

definition plan_fixed_chunks :: "packet_ref list \<Rightarrow> nat \<Rightarrow> chunk_plan" where
  "plan_fixed_chunks packets target_ms = plan_track_chunks [] packets target_ms"

section \<open>Seeking\<close>

text \<open>The scan keeps the last index at or before the target and the last such keyframe.\<close>

fun seek_scan :: "packet_ref list \<Rightarrow> nat \<Rightarrow> nat \<Rightarrow> nat \<Rightarrow> nat option \<Rightarrow> nat \<times> nat option" where
  "seek_scan [] target_ms idx fallback_idx keyframe_idx = (fallback_idx, keyframe_idx)"
| "seek_scan (p # ps) target_ms idx fallback_idx keyframe_idx =
     (if target_ms < packet_start_ms p then (fallback_idx, keyframe_idx)
      else seek_scan ps target_ms (idx + 1) idx
             (if pr_keyframe p then Some idx else keyframe_idx))"

definition seek_anchor_for_packets :: "packet_ref list \<Rightarrow> nat \<Rightarrow> seek_anchor option" where
  "seek_anchor_for_packets packets target_ms =
     (if packets = [] then None
      else let (fallback_idx, keyframe_idx) = seek_scan packets target_ms 0 0 None;
               packet_index = (case keyframe_idx of Some k \<Rightarrow> k | None \<Rightarrow> fallback_idx);
               packet = packets ! packet_index;
               anchor_ms = packet_start_ms packet
           in Some \<lparr>sa_target_ms = target_ms, sa_anchor_ms = anchor_ms,
                    sa_packet_index = as_u 32 packet_index,
                    sa_preroll_ms = target_ms - anchor_ms,
                    sa_key_aligned = pr_keyframe packet\<rparr>)"

fun copy_end_scan :: "packet_ref list \<Rightarrow> nat \<Rightarrow> nat \<Rightarrow> nat \<Rightarrow> nat" where
  "copy_end_scan [] target_end_ms idx end_idx = end_idx"
| "copy_end_scan (p # ps) target_end_ms idx end_idx =
     (if target_end_ms \<le> packet_start_ms p then idx
      else copy_end_scan ps target_end_ms (idx + 1) (sat_add 64 idx 1))"

definition plan_copy_seek ::
    "string \<Rightarrow> packet_ref list \<Rightarrow> nat \<Rightarrow> nat \<Rightarrow> copy_seek_plan option" where
  "plan_copy_seek track_id packets target_ms window_ms =
     (case seek_anchor_for_packets packets target_ms of
        None \<Rightarrow> None
      | Some anchor \<Rightarrow>
          let start = sa_packet_index anchor;
              target_end_ms = sat_add 64 target_ms (max window_ms 1);
              end0 = min (sat_add 64 start 1) (length packets);
              end_idx = copy_end_scan (drop (start + 1) packets) target_end_ms (start + 1) end0;
              ends = map packet_end_ms (slice packets start end_idx);
              last_end_ms = (if ends = [] then sa_anchor_ms anchor else Max (set ends))
          in Some \<lparr>cs_track_id = track_id, cs_target_ms = target_ms, cs_anchor = anchor,
                   cs_chunk =
                     \<lparr>nc_index = 0, nc_start = time_point_millis (sa_anchor_ms anchor),
                      nc_duration = time_delta_millis (last_end_ms - sa_anchor_ms anchor),
                      nc_packet_range =
                        \<lparr>rng_start = sa_packet_index anchor, rng_end = as_u 32 end_idx\<rparr>,
                      nc_key_aligned = sa_key_aligned anchor\<rparr>\<rparr>)"

section \<open>Extraction\<close>

text \<open>
  The loop over \<open>packets[start..end]\<close>; the span index \<open>range.start + relative_idx\<close>
  is carried as \<open>idx\<close>.
\<close>

fun spans_loop ::
    "bytes \<Rightarrow> packet_ref list \<Rightarrow> nat \<Rightarrow> packet_extract_error + packet_payload_span list" where
  "spans_loop source [] idx = Inr []"
| "spans_loop source (packet # ps) idx =
     (case checked_add 64 (pr_source_offset packet) (pr_size packet) of
        None \<Rightarrow> Inl SourceOutOfBounds
      | Some packet_end \<Rightarrow>
          if length source < packet_end then Inl SourceOutOfBounds
          else res_bind (spans_loop source ps (idx + 1)) (\<lambda>rest.
                 Inr (\<lparr>span_packet_index = idx,
                       span_source_offset = pr_source_offset packet,
                       span_bytes = slice source (pr_source_offset packet) packet_end\<rparr> # rest)))"

definition packet_payload_spans ::
    "bytes \<Rightarrow> packet_ref list \<Rightarrow> packet_range \<Rightarrow>
     packet_extract_error + packet_payload_span list" where
  "packet_payload_spans source packets rng =
     (if rng_end rng < rng_start rng then Inl InvalidRange
      else if length packets < rng_end rng then Inl RangeOutOfBounds
      else spans_loop source (slice packets (rng_start rng) (rng_end rng)) (rng_start rng))"

fun samples_loop :: "packet_ref list \<Rightarrow> nat \<Rightarrow> nat \<Rightarrow> chunk_sample list" where
  "samples_loop [] idx payload_offset = []"
| "samples_loop (packet # ps) idx payload_offset =
     \<lparr>smp_index = idx, smp_payload_offset = payload_offset, smp_byte_count = pr_size packet,
      smp_pts = pr_pts packet, smp_dts = pr_dts packet, smp_duration = pr_duration packet,
      smp_keyframe = pr_keyframe packet\<rparr>
     # samples_loop ps (idx + 1) (sat_add 64 payload_offset (pr_size packet))"

definition packet_samples_for_range ::
    "packet_ref list \<Rightarrow> packet_range \<Rightarrow> packet_extract_error + chunk_sample list" where
  "packet_samples_for_range packets rng =
     (if rng_end rng < rng_start rng then Inl InvalidRange
      else if length packets < rng_end rng then Inl RangeOutOfBounds
      else Inr (samples_loop (slice packets (rng_start rng) (rng_end rng))
                 (rng_start rng) 0))"

section \<open>The planner's invariant\<close>

abbreviation chunk_from :: "native_chunk \<Rightarrow> nat" where
  "chunk_from c \<equiv> rng_start (nc_packet_range c)"

abbreviation chunk_to :: "native_chunk \<Rightarrow> nat" where
  "chunk_to c \<equiv> rng_end (nc_packet_range c)"

fun contiguous :: "nat \<Rightarrow> native_chunk list \<Rightarrow> nat \<Rightarrow> bool" where
  "contiguous a [] b \<longleftrightarrow> a = b"
| "contiguous a (c # cs) b \<longleftrightarrow>
     chunk_from c = a \<and> a < chunk_to c \<and> contiguous (chunk_to c) cs b"

lemma contiguous_append:
  "contiguous a (xs @ ys) b \<longleftrightarrow> (\<exists>m. contiguous a xs m \<and> contiguous m ys b)"
  by (induction xs arbitrary: a) auto

text \<open>A chunk agrees with the packets at its two ends.\<close>

definition chunk_matches :: "packet_ref list \<Rightarrow> native_chunk \<Rightarrow> bool" where
  "chunk_matches ps c \<longleftrightarrow>
     chunk_to c \<le> length ps \<and>
     nc_key_aligned c = pr_keyframe (ps ! chunk_from c) \<and>
     nc_start c = time_point_millis (packet_start_ms (ps ! chunk_from c)) \<and>
     nc_duration c = time_delta_millis
       (packet_end_ms (ps ! (chunk_to c - 1)) - packet_start_ms (ps ! chunk_from c))"

definition cut_ok :: "nat \<Rightarrow> native_chunk \<Rightarrow> native_chunk \<Rightarrow> bool" where
  "cut_ok target c d \<longleftrightarrow>
     nc_key_aligned d \<and> tp_units (nc_start c) + target \<le> tp_units (nc_start d)"

definition planner_inv :: "nat \<Rightarrow> packet_ref list \<Rightarrow> track_chunk_planner \<Rightarrow> bool" where
  "planner_inv target ps s \<longleftrightarrow>
     tcp_target_ms s = target \<and> tcp_count s = length ps \<and>
     map nc_index (tcp_chunks s) = [0..<length (tcp_chunks s)] \<and>
     contiguous 0 (tcp_chunks s) (tcp_start_idx s) \<and>
     (ps = [] \<longrightarrow> tcp_chunks s = [] \<and> tcp_start_idx s = 0) \<and>
     (ps \<noteq> [] \<longrightarrow>
        tcp_start_idx s < length ps \<and>
        length (tcp_chunks s) \<le> tcp_start_idx s \<and>
        (\<forall>c \<in> set (tcp_chunks s). chunk_matches ps c) \<and>
        successively (cut_ok target) (tcp_chunks s @ [planner_emit s]) \<and>
        tcp_key_aligned s = pr_keyframe (ps ! tcp_start_idx s) \<and>
        tcp_chunk_start_ms s = packet_start_ms (ps ! tcp_start_idx s) \<and>
        tcp_last_end_ms s = packet_end_ms (last ps))"

lemma planner_inv_new: "planner_inv target [] (planner_new target)"
  by (simp add: planner_inv_def planner_new_def)

lemma chunk_matches_snoc:
  "chunk_from c < chunk_to c \<Longrightarrow> chunk_matches ps c \<Longrightarrow> chunk_matches (ps @ [p]) c"
  by (auto simp: chunk_matches_def nth_append)

lemma contiguous_bounds:
  "contiguous a cs b \<Longrightarrow> c \<in> set cs \<Longrightarrow> a \<le> chunk_from c \<and> chunk_from c < chunk_to c \<and> chunk_to c \<le> b"
proof (induction cs arbitrary: a)
  case (Cons d ds)
  have mono: "contiguous x es y \<Longrightarrow> x \<le> y" for x es y
    by (induction es arbitrary: x) (auto dest: less_imp_le order.trans)
  from Cons show ?case by (auto dest: mono less_imp_le order.trans)
qed simp

lemma contiguous_length: "contiguous a cs b \<Longrightarrow> a + length cs \<le> b"
  by (induction cs arbitrary: a) fastforce+

lemma planner_push_first:
  assumes "0 < target"
  shows "planner_inv target [p] (planner_push (planner_new target) p)"
  using assms
  by (simp add: planner_inv_def planner_push_def planner_new_def Let_def)

lemma planner_inv_push:
  assumes inv: "planner_inv target ps s" and t: "0 < target" and ne: "ps \<noteq> []"
    and len: "length ps < 2 ^ 32"
  shows "planner_inv target (ps @ [p]) (planner_push s p)"
proof -
  define n where "n = length ps"
  from inv ne have cnt: "tcp_count s = n" "0 < n" "n < 2 ^ 32" "tcp_target_ms s = target"
    and idx: "map nc_index (tcp_chunks s) = [0..<length (tcp_chunks s)]"
    and con: "contiguous 0 (tcp_chunks s) (tcp_start_idx s)"
    and st: "tcp_start_idx s < n" "length (tcp_chunks s) \<le> tcp_start_idx s"
    and cm: "\<forall>c \<in> set (tcp_chunks s). chunk_matches ps c"
    and cut: "successively (cut_ok target) (tcp_chunks s @ [planner_emit s])"
    and key: "tcp_key_aligned s = pr_keyframe (ps ! tcp_start_idx s)"
    and ms: "tcp_chunk_start_ms s = packet_start_ms (ps ! tcp_start_idx s)"
    and le: "tcp_last_end_ms s = packet_end_ms (last ps)"
    using len by (auto simp: planner_inv_def n_def)
  have lastn: "last ps = ps ! (n - 1)" using ne by (simp add: last_conv_nth n_def)
  have cm': "\<forall>c \<in> set (tcp_chunks s). chunk_matches (ps @ [p]) c"
    using cm contiguous_bounds [OF con] by (auto intro: chunk_matches_snoc)
  have em: "chunk_matches (ps @ [p]) (planner_emit s)"
    using cnt st key ms le lastn
    by (auto simp: chunk_matches_def planner_emit_def nth_append n_def)
  have from_to: "chunk_from (planner_emit s) = tcp_start_idx s" "chunk_to (planner_emit s) = n"
    "nc_index (planner_emit s) = length (tcp_chunks s)"
    using cnt st by (simp_all add: planner_emit_def)
  show ?thesis
  proof (cases "pr_keyframe p \<and> target \<le> packet_start_ms p - tcp_chunk_start_ms s")
    case True
    define s' where "s' = planner_push s p"
    have s': "tcp_chunks s' = tcp_chunks s @ [planner_emit s]" "tcp_start_idx s' = n"
      "tcp_chunk_start_ms s' = packet_start_ms p" "tcp_key_aligned s' = pr_keyframe p"
      "tcp_last_end_ms s' = packet_end_ms p" "tcp_count s' = n + 1" "tcp_target_ms s' = target"
      using True cnt t by (simp_all add: s'_def planner_push_def Let_def)
    have "cut_ok target (planner_emit s) (planner_emit s')"
      using True t by (auto simp: cut_ok_def planner_emit_def s' time_point_millis_def)
    then have "successively (cut_ok target) (tcp_chunks s' @ [planner_emit s'])"
      using cut by (simp add: s' successively_append_iff)
    then show ?thesis unfolding s'_def [symmetric]
      using s' idx con st cm' em from_to cnt
      by (auto simp: planner_inv_def contiguous_append n_def nth_append)
  next
    case False
    define s' where "s' = planner_push s p"
    have s': "tcp_chunks s' = tcp_chunks s" "tcp_start_idx s' = tcp_start_idx s"
      "tcp_chunk_start_ms s' = tcp_chunk_start_ms s" "tcp_key_aligned s' = tcp_key_aligned s"
      "tcp_last_end_ms s' = packet_end_ms p" "tcp_count s' = n + 1" "tcp_target_ms s' = target"
      using False cnt t by (auto simp: s'_def planner_push_def Let_def)
    have "successively (cut_ok target) (tcp_chunks s @ [planner_emit s'])"
      using cut by (cases "tcp_chunks s" rule: rev_cases)
        (auto simp: successively_append_iff cut_ok_def planner_emit_def s')
    then show ?thesis unfolding s'_def [symmetric]
      using s' idx con st cm' cnt key ms
      by (auto simp: planner_inv_def n_def nth_append)
  qed
qed

lemma planner_inv_fold:
  assumes "0 < target" "length ps \<le> 2 ^ 32"
  shows "planner_inv target ps (foldl planner_push (planner_new target) ps)"
  using assms
proof (induction ps rule: rev_induct)
  case Nil
  then show ?case by (simp add: planner_inv_new)
next
  case (snoc p ps)
  then show ?case
    by (cases "ps = []") (simp_all add: planner_push_first planner_inv_push)
qed

lemma plan_chunks_inv:
  assumes "0 < target" "ps \<noteq> []" "length ps < 2 ^ 32"
  shows "let cs = cp_chunks (plan_track_chunks tid ps target) in
    contiguous 0 cs (length ps) \<and> map nc_index cs = [0..<length cs] \<and>
    (\<forall>c \<in> set cs. chunk_matches ps c) \<and> successively (cut_ok target) cs"
proof -
  define s where "s = foldl planner_push (planner_new target) ps"
  have inv: "planner_inv target ps s"
    using planner_inv_fold [of target ps] assms by (simp add: s_def)
  have cs: "cp_chunks (plan_track_chunks tid ps target) = tcp_chunks s @ [planner_emit s]"
    using assms inv
    by (auto simp: plan_track_chunks_def planner_finish_def s_def planner_inv_def)
  have len: "length (tcp_chunks s) < 2 ^ 32" using inv assms by (auto simp: planner_inv_def)
  have "chunk_matches ps (planner_emit s)"
    using inv assms
    by (auto simp: planner_inv_def chunk_matches_def planner_emit_def last_conv_nth)
  moreover have "nc_index (planner_emit s) = length (tcp_chunks s)"
    using len by (simp add: planner_emit_def)
  ultimately show ?thesis
    using inv assms
    by (auto simp: cs planner_inv_def contiguous_append planner_emit_def)
qed

lemma contiguous_covers:
  "contiguous a cs b \<Longrightarrow> a \<le> i \<Longrightarrow> i < b \<Longrightarrow>
     \<exists>!k. k < length cs \<and> chunk_from (cs ! k) \<le> i \<and> i < chunk_to (cs ! k)"
proof (induction cs arbitrary: a)
  case (Cons c cs)
  then have c: "chunk_from c = a" "a < chunk_to c" "contiguous (chunk_to c) cs b" by simp_all
  show ?case
  proof (cases "i < chunk_to c")
    case True
    have "\<not> chunk_from (cs ! k) \<le> i" if "k < length cs" for k
      using contiguous_bounds [OF c(3) nth_mem [OF that]] True by simp
    then show ?thesis using c True Cons.prems
      by (intro ex1I [of _ 0]) (auto simp: nth_Cons split: nat.splits)
  next
    case False
    then obtain k where k: "k < length cs" "chunk_from (cs ! k) \<le> i" "i < chunk_to (cs ! k)"
      and u: "\<And>j. j < length cs \<Longrightarrow> chunk_from (cs ! j) \<le> i \<Longrightarrow> i < chunk_to (cs ! j) \<Longrightarrow> j = k"
      using Cons.IH [OF c(3)] Cons.prems by fastforce
    show ?thesis
    proof (rule ex1I [of _ "Suc k"])
      show "Suc k < length (c # cs) \<and> chunk_from ((c # cs) ! Suc k) \<le> i \<and>
          i < chunk_to ((c # cs) ! Suc k)"
        using k by simp
      fix j
      assume j: "j < length (c # cs) \<and> chunk_from ((c # cs) ! j) \<le> i \<and>
          i < chunk_to ((c # cs) ! j)"
      show "j = Suc k"
      proof (cases j)
        case 0
        with j False show ?thesis by simp
      next
        case (Suc m)
        with j u [of m] show ?thesis by simp
      qed
    qed
  qed
qed simp

section \<open>The seek scan\<close>

definition reached :: "packet_ref list \<Rightarrow> nat \<Rightarrow> nat" where
  "reached ps t = length (takeWhile (\<lambda>p. packet_start_ms p \<le> t) ps)"

definition reached_keys :: "packet_ref list \<Rightarrow> nat \<Rightarrow> nat list" where
  "reached_keys ps t = filter (\<lambda>i. pr_keyframe (ps ! i)) [0..<reached ps t]"

lemma reached_Cons [simp]:
  "reached (p # ps) t = (if packet_start_ms p \<le> t then Suc (reached ps t) else 0)"
  by (simp add: reached_def)

lemma reached_le: "reached ps t \<le> length ps"
  by (simp add: reached_def length_takeWhile_le)

lemma reached_nth: "i < reached ps t \<Longrightarrow> packet_start_ms (ps ! i) \<le> t"
  unfolding reached_def by (metis nth_mem set_takeWhileD takeWhile_nth)

lemma reached_keys_Cons:
  "packet_start_ms p \<le> t \<Longrightarrow> reached_keys (p # ps) t =
     (if pr_keyframe p then [0] else []) @ map Suc (reached_keys ps t)"
  by (simp add: reached_keys_def upt_conv_Cons filter_map o_def del: upt_Suc
      flip: map_Suc_upt)

lemma seek_scan_spec:
  "seek_scan ps t idx fb kf =
     (if reached ps t = 0 then fb else idx + reached ps t - 1,
      if reached_keys ps t = [] then kf else Some (idx + last (reached_keys ps t)))"
proof (induction ps t idx fb kf rule: seek_scan.induct)
  case (1 t idx fb kf)
  then show ?case by (simp add: reached_keys_def reached_def)
next
  case (2 p ps t idx fb kf)
  show ?case
  proof (cases "t < packet_start_ms p")
    case True
    then show ?thesis by (simp add: reached_keys_def)
  next
    case False
    with 2 show ?thesis by (auto simp: reached_keys_Cons last_map)
  qed
qed

lemma reached_keys_last:
  assumes "reached_keys ps t \<noteq> []"
  shows "last (reached_keys ps t) < reached ps t"
    and "pr_keyframe (ps ! last (reached_keys ps t))"
    and "last (reached_keys ps t) < j \<Longrightarrow> j < reached ps t \<Longrightarrow> \<not> pr_keyframe (ps ! j)"
proof -
  let ?ks = "reached_keys ps t"
  have "last ?ks \<in> set ?ks" using assms by simp
  then show "last ?ks < reached ps t" "pr_keyframe (ps ! last ?ks)"
    by (auto simp: reached_keys_def)
  have "sorted (butlast ?ks @ [last ?ks])" using assms
    by (simp add: reached_keys_def sorted_wrt_filter)
  then have "k \<le> last ?ks" if "k \<in> set (butlast ?ks @ [last ?ks])" for k
    using that unfolding sorted_append by auto
  then have le: "k \<le> last ?ks" if "k \<in> set ?ks" for k
    using that unfolding append_butlast_last_id [OF assms] .
  show "\<not> pr_keyframe (ps ! j)" if "last ?ks < j" "j < reached ps t"
    using that le [of j] by (auto simp: reached_keys_def)
qed

section \<open>Spans and samples\<close>

fun offsets :: "nat \<Rightarrow> nat list \<Rightarrow> nat list" where
  "offsets a [] = []"
| "offsets a (n # ns) = a # offsets (a + n) ns"

lemma offsets_slice:
  "slice (pre @ concat xss) (offsets (length pre) (map length xss) ! i)
     (offsets (length pre) (map length xss) ! i + length (xss ! i)) = xss ! i"
  if "i < length xss"
  using that
proof (induction xss arbitrary: i pre)
  case (Cons xs xss)
  show ?case
  proof (cases i)
    case 0
    then show ?thesis
      using slice_append_right [of pre "xs @ concat xss" 0 "length xs"]
      by (simp add: slice_append_left)
  next
    case (Suc j)
    then show ?thesis using Cons.IH [of j "pre @ xs"] Cons.prems by simp
  qed
qed simp

lemma length_offsets [simp]: "length (offsets a ns) = length ns"
  by (induction ns arbitrary: a) simp_all

lemma samples_loop_offsets:
  "off + sum_list (map pr_size ps) < 2 ^ 64 \<Longrightarrow>
   map smp_payload_offset (samples_loop ps idx off) = offsets off (map pr_size ps)"
  by (induction ps arbitrary: idx off) (simp_all add: sat_add_exact)

lemma samples_loop_fields:
  "map smp_byte_count (samples_loop ps idx off) = map pr_size ps"
  "map smp_index (samples_loop ps idx off) = [idx..<idx + length ps]"
  "map smp_pts (samples_loop ps idx off) = map pr_pts ps"
  "map smp_dts (samples_loop ps idx off) = map pr_dts ps"
  "map smp_duration (samples_loop ps idx off) = map pr_duration ps"
  "map smp_keyframe (samples_loop ps idx off) = map pr_keyframe ps"
  by (induction ps arbitrary: idx off) (simp_all add: upt_conv_Cons del: upt_Suc)

lemma spans_loop_fields:
  "spans_loop source ps idx = Inr spans \<Longrightarrow>
     map span_packet_index spans = [idx..<idx + length ps] \<and>
     map (length \<circ> span_bytes) spans = map pr_size ps \<and>
     map span_bytes spans =
       map (\<lambda>p. slice source (pr_source_offset p) (pr_source_offset p + pr_size p)) ps"
  by (induction ps arbitrary: idx spans)
    (auto simp: result_simps upt_conv_Cons simp del: upt_Suc split: option.splits if_splits)

section \<open>Properties\<close>

text \<open>C3: The chunks of a plan partition the packet index: their ranges are non-empty,
  start at 0, abut, end at the last packet, and are numbered consecutively, so every
  packet belongs to exactly one chunk.\<close>

theorem plan_partitions_packets:
  assumes "0 < target" "ps \<noteq> []" "length ps < 2 ^ 32"
  shows "let cs = cp_chunks (plan_track_chunks tid ps target) in
    contiguous 0 cs (length ps) \<and> map nc_index cs = [0..<length cs] \<and>
    (\<forall>i < length ps. \<exists>!k. k < length cs \<and> chunk_from (cs ! k) \<le> i \<and> i < chunk_to (cs ! k))"
  using plan_chunks_inv [OF assms, of tid] contiguous_covers [of 0 _ "length ps"]
  by (simp add: Let_def)

definition demo_packet :: "nat \<Rightarrow> bool \<Rightarrow> packet_ref" where
  "demo_packet ms key =
     \<lparr>pr_source_offset = ms, pr_size = 2, pr_pts = time_point_millis ms,
      pr_dts = time_point_millis ms, pr_duration = time_delta_millis 40, pr_keyframe = key\<rparr>"

definition demo_packets :: "packet_ref list" where
  "demo_packets = [demo_packet 0 True, demo_packet 40 False, demo_packet 80 True]"

theorem plan_partitions_packets_witness:
  "let cs = cp_chunks (plan_track_chunks ''v0'' demo_packets 50) in
    contiguous 0 cs 3 \<and> map nc_index cs = [0..<length cs]"
  using plan_partitions_packets [of 50 demo_packets "''v0''"]
  by (simp add: demo_packets_def Let_def numeral_3_eq_3)

text \<open>C4: Every chunk describes its packets: it starts at the presentation time of its
  first packet, is flagged key aligned exactly when that packet is a keyframe, and
  lasts to the end of its last packet; every chunk but the first starts on a keyframe, at
  least the target duration after the chunk before it.\<close>

theorem plan_cuts_on_keyframes:
  assumes "0 < target" "ps \<noteq> []" "length ps < 2 ^ 32"
  shows "let cs = cp_chunks (plan_track_chunks tid ps target) in
    (\<forall>c \<in> set cs. chunk_matches ps c) \<and>
    (\<forall>k. Suc k < length cs \<longrightarrow>
       pr_keyframe (ps ! chunk_from (cs ! Suc k)) \<and>
       packet_start_ms (ps ! chunk_from (cs ! k)) + target
         \<le> packet_start_ms (ps ! chunk_from (cs ! Suc k)))"
proof -
  define cs where "cs = cp_chunks (plan_track_chunks tid ps target)"
  have m: "\<forall>c \<in> set cs. chunk_matches ps c" and c: "successively (cut_ok target) cs"
    using plan_chunks_inv [OF assms, of tid] by (simp_all add: Let_def cs_def)
  have "pr_keyframe (ps ! chunk_from (cs ! Suc k)) \<and>
       packet_start_ms (ps ! chunk_from (cs ! k)) + target
         \<le> packet_start_ms (ps ! chunk_from (cs ! Suc k))" if k: "Suc k < length cs" for k
  proof -
    have "cut_ok target (cs ! k) (cs ! Suc k)" using c k by (simp add: successively_conv_nth)
    moreover have "chunk_matches ps (cs ! k)" "chunk_matches ps (cs ! Suc k)"
      using m k by simp_all
    ultimately show ?thesis
      by (auto simp: cut_ok_def chunk_matches_def time_point_millis_def)
  qed
  with m show ?thesis by (simp add: Let_def cs_def)
qed

theorem plan_cuts_on_keyframes_witness:
  "let cs = cp_chunks (plan_track_chunks ''v0'' demo_packets 50) in
    list_all (chunk_matches demo_packets) cs"
  using plan_cuts_on_keyframes [of 50 demo_packets "''v0''"]
  by (simp add: demo_packets_def Let_def list_all_iff)

text \<open>The seek anchor is the last keyframe among the leading packets that start at or
  before the target; without such a keyframe it is the last of those packets, and the
  first packet of the track when even that one starts later. It starts after the target
  only in the last case.\<close>

theorem seek_anchor_is_last_keyframe:
  assumes "seek_anchor_for_packets ps t = Some a" "length ps < 2 ^ 32"
  shows "let i = sa_packet_index a; n = reached ps t in
    i < length ps \<and> sa_key_aligned a = pr_keyframe (ps ! i) \<and>
    sa_anchor_ms a = packet_start_ms (ps ! i) \<and>
    (reached_keys ps t \<noteq> [] \<longrightarrow>
       i < n \<and> pr_keyframe (ps ! i) \<and> (\<forall>j. i < j \<and> j < n \<longrightarrow> \<not> pr_keyframe (ps ! j))) \<and>
    (reached_keys ps t = [] \<longrightarrow> i = n - 1) \<and>
    (0 < n \<longrightarrow> sa_anchor_ms a \<le> t \<and> sa_preroll_ms a = t - sa_anchor_ms a)"
proof -
  define i where "i = (if reached_keys ps t = [] then reached ps t - 1 else last (reached_keys ps t))"
  have ne: "ps \<noteq> []" using assms by (auto simp: seek_anchor_for_packets_def)
  have keys: "reached_keys ps t = []" if "reached ps t = 0" using that by (simp add: reached_keys_def)
  have il: "i < length ps"
    using reached_le [of ps t] reached_keys_last(1) [of ps t] ne
    by (cases "reached ps t") (auto simp: i_def)
  have ir: "0 < reached ps t \<Longrightarrow> i < reached ps t"
    using reached_keys_last(1) [of ps t] by (auto simp: i_def)
  have sc: "seek_scan ps t 0 0 None =
      (reached ps t - 1, if reached_keys ps t = [] then None else Some (last (reached_keys ps t)))"
    by (simp add: seek_scan_spec)
  have a: "sa_packet_index a = i" "sa_key_aligned a = pr_keyframe (ps ! i)"
    "sa_anchor_ms a = packet_start_ms (ps ! i)" "sa_preroll_ms a = t - packet_start_ms (ps ! i)"
    using assms il ne by (auto simp: seek_anchor_for_packets_def sc i_def Let_def)
  show ?thesis
    unfolding a Let_def
  proof (intro conjI impI)
    show "i < length ps" by (rule il)
    show "packet_start_ms (ps ! i) \<le> t" if "0 < reached ps t"
      using ir [OF that] by (rule reached_nth)
    show "i < reached ps t" "pr_keyframe (ps ! i)"
      "\<forall>j. i < j \<and> j < reached ps t \<longrightarrow> \<not> pr_keyframe (ps ! j)" if "reached_keys ps t \<noteq> []"
      using reached_keys_last [OF that] that by (auto simp: i_def)
    show "i = reached ps t - 1" if "reached_keys ps t = []"
      using that by (simp add: i_def)
  qed simp_all
qed

lemma seek_anchor_total: "ps \<noteq> [] \<Longrightarrow> \<exists>a. seek_anchor_for_packets ps t = Some a"
  by (simp add: seek_anchor_for_packets_def Let_def split: prod.splits)

theorem seek_anchor_is_last_keyframe_witness:
  "\<exists>a. seek_anchor_for_packets demo_packets 79 = Some a \<and> sa_packet_index a < 3 \<and>
     sa_anchor_ms a \<le> 79"
proof -
  obtain a where a: "seek_anchor_for_packets demo_packets 79 = Some a"
    using seek_anchor_total [of demo_packets 79] by (auto simp: demo_packets_def)
  have "0 < reached demo_packets 79"
    by (simp add: demo_packets_def demo_packet_def packet_start_ms_def tp_as_millis_def
        time_point_millis_def)
  with seek_anchor_is_last_keyframe [OF a] show ?thesis
    using a by (auto simp: Let_def demo_packets_def)
qed

text \<open>The window's end scan stops at the first packet that starts at or after the limit.\<close>

lemma copy_end_scan_spec:
  assumes "i + length ps < 2 ^ 64"
  shows "copy_end_scan ps limit i i =
    i + length (takeWhile (\<lambda>p. packet_start_ms p < limit) ps)"
  using assms
  by (induction ps arbitrary: i) (simp_all add: sat_add_exact not_less)

text \<open>A copy-seek window starts on the seek anchor, never is empty, stays inside the
  packet index, and after the anchor holds exactly the leading packets that start before
  the end of the requested window; its duration reaches the latest end of its packets.\<close>

theorem copy_seek_window:
  assumes plan: "plan_copy_seek tid ps t w = Some plan" and len: "length ps < 2 ^ 32"
  shows "let c = cs_chunk plan; i = chunk_from c; e = chunk_to c;
             limit = sat_add 64 t (max w 1) in
    seek_anchor_for_packets ps t = Some (cs_anchor plan) \<and> i = sa_packet_index (cs_anchor plan) \<and>
    i < e \<and> e \<le> length ps \<and>
    (\<forall>j. i < j \<and> j < e \<longrightarrow> packet_start_ms (ps ! j) < limit) \<and>
    (e < length ps \<longrightarrow> limit \<le> packet_start_ms (ps ! e)) \<and>
    (\<forall>j. i \<le> j \<and> j < e \<longrightarrow>
       packet_end_ms (ps ! j) \<le> sa_anchor_ms (cs_anchor plan) + td_units (nc_duration c))"
proof -
  obtain a where a: "seek_anchor_for_packets ps t = Some a"
    using plan by (auto simp: plan_copy_seek_def split: option.splits)
  define i where "i = sa_packet_index a"
  define limit where "limit = sat_add 64 t (max w 1)"
  define rest where "rest = drop (i + 1) ps"
  define n where "n = length (takeWhile (\<lambda>p. packet_start_ms p < limit) rest)"
  define e where "e = i + 1 + n"
  have il: "i < length ps"
    using seek_anchor_is_last_keyframe [OF a len] by (simp add: Let_def i_def)
  have e0: "min (sat_add 64 i 1) (length ps) = i + 1"
    using il len by (simp add: sat_add_exact)
  have scan: "copy_end_scan rest limit (i + 1) (i + 1) = e"
    using il len by (simp add: copy_end_scan_spec e_def n_def rest_def)
  have nl: "n \<le> length rest" by (simp add: n_def length_takeWhile_le)
  then have el: "e \<le> length ps" using il by (simp add: e_def rest_def)
  define ends where "ends = map packet_end_ms (slice ps i e)"
  have ne: "ends \<noteq> []" using el by (simp add: ends_def e_def slice_def il)
  have full: "plan_copy_seek tid ps t w = Some
      \<lparr>cs_track_id = tid, cs_target_ms = t, cs_anchor = a,
       cs_chunk =
         \<lparr>nc_index = 0, nc_start = time_point_millis (sa_anchor_ms a),
          nc_duration = time_delta_millis (Max (set ends) - sa_anchor_ms a),
          nc_packet_range = \<lparr>rng_start = i, rng_end = as_u 32 e\<rparr>,
          nc_key_aligned = sa_key_aligned a\<rparr>\<rparr>"
    unfolding plan_copy_seek_def a option.case Let_def i_def [symmetric] limit_def [symmetric]
      rest_def [symmetric] e0 scan ends_def [symmetric] if_not_P [OF ne] ..
  have plan': "cs_anchor plan = a" "chunk_from (cs_chunk plan) = i" "chunk_to (cs_chunk plan) = e"
    "td_units (nc_duration (cs_chunk plan)) = Max (set ends) - sa_anchor_ms a"
    using plan el len unfolding full by (auto simp: time_delta_millis_def)
  have "packet_start_ms (ps ! j) < limit" if "i < j" "j < e" for j
  proof -
    have "j - (i + 1) < n" using that by (simp add: e_def)
    then have "packet_start_ms (rest ! (j - (i + 1))) < limit"
      unfolding n_def by (metis nth_mem set_takeWhileD takeWhile_nth)
    then show ?thesis using that il by (simp add: rest_def)
  qed
  moreover have "limit \<le> packet_start_ms (ps ! e)" if "e < length ps"
  proof -
    have "n < length rest" using that by (simp add: e_def rest_def)
    then have "\<not> packet_start_ms (rest ! n) < limit" unfolding n_def by (rule nth_length_takeWhile)
    then show ?thesis using that by (simp add: rest_def e_def not_less)
  qed
  moreover have "packet_end_ms (ps ! j) \<le> sa_anchor_ms a + (Max (set ends) - sa_anchor_ms a)"
    if "i \<le> j" "j < e" for j
  proof -
    have "ps ! j = slice ps i e ! (j - i)" using that el by (simp add: slice_def)
    then have "packet_end_ms (ps ! j) \<in> set ends"
      using that el by (auto simp: ends_def intro!: imageI nth_mem)
    then have "packet_end_ms (ps ! j) \<le> Max (set ends)" by simp
    then show ?thesis by linarith
  qed
  ultimately show ?thesis
    unfolding Let_def plan' limit_def [symmetric] using a el by (auto simp: e_def i_def)
qed

theorem copy_seek_window_witness:
  "\<exists>plan. plan_copy_seek ''v0'' demo_packets 45 30 = Some plan \<and>
     chunk_from (cs_chunk plan) < chunk_to (cs_chunk plan)"
proof -
  obtain a where "seek_anchor_for_packets demo_packets 45 = Some a"
    using seek_anchor_total [of demo_packets 45] by (auto simp: demo_packets_def)
  then obtain plan where p: "plan_copy_seek ''v0'' demo_packets 45 30 = Some plan"
    by (simp add: plan_copy_seek_def Let_def)
  then show ?thesis using copy_seek_window [OF p] by (auto simp: Let_def demo_packets_def)
qed

text \<open>The sample table built for a packet range indexes the payload extracted for the
  same range: sample \<open>i\<close> carries the packet's number, size and timing, and its offset and
  byte count cut exactly that packet's bytes out of the concatenated spans.\<close>

theorem samples_index_extracted_payload:
  assumes spans: "packet_payload_spans source ps rng = Inr spans"
    and samples: "packet_samples_for_range ps rng = Inr samples"
    and fits: "sum_list (map pr_size ps) < 2 ^ 64"
    and i: "i < length samples"
  shows "let payload = concat (map span_bytes spans); s = samples ! i; p = ps ! (rng_start rng + i) in
    length spans = length samples \<and>
    smp_index s = rng_start rng + i \<and> span_packet_index (spans ! i) = smp_index s \<and>
    slice payload (smp_payload_offset s) (smp_payload_offset s + smp_byte_count s)
      = slice source (pr_source_offset p) (pr_source_offset p + pr_size p) \<and>
    smp_byte_count s = pr_size p \<and> smp_pts s = pr_pts p \<and> smp_dts s = pr_dts p \<and>
    smp_duration s = pr_duration p \<and> smp_keyframe s = pr_keyframe p"
proof -
  define qs where "qs = slice ps (rng_start rng) (rng_end rng)"
  have sp: "spans_loop source qs (rng_start rng) = Inr spans"
    and sm: "samples = samples_loop qs (rng_start rng) 0"
    using spans samples
    by (auto simp: packet_payload_spans_def packet_samples_for_range_def qs_def split: if_splits)
  have bytes: "map (length \<circ> span_bytes) spans = map pr_size qs"
    "map span_bytes spans = map (\<lambda>p. slice source (pr_source_offset p) (pr_source_offset p + pr_size p)) qs"
    "map span_packet_index spans = [rng_start rng..<rng_start rng + length qs]"
    using spans_loop_fields [OF sp] by simp_all
  have len: "length spans = length qs" using bytes(1) by (metis length_map)
  have lsm: "length samples = length qs"
    using arg_cong [OF samples_loop_fields(1), of length] by (simp add: sm)
  have iq: "i < length qs" using i lsm by simp
  have "rng_start rng \<le> length ps" using iq unfolding qs_def length_slice by linarith
  then have q: "qs ! i = ps ! (rng_start rng + i)" using iq by (simp add: qs_def slice_def)
  have sum: "sum_list (map pr_size qs) < 2 ^ 64"
  proof -
    have "sum_list (map pr_size (take n (drop m xs))) \<le> sum_list (map pr_size xs)" for n m xs
      by (metis append_take_drop_id le_add1 le_add2 le_trans map_append sum_list_append)
    from le_less_trans [OF this fits] show ?thesis by (simp add: qs_def slice_def)
  qed
  have off: "smp_payload_offset (samples ! i) = offsets 0 (map pr_size qs) ! i"
    using samples_loop_offsets [of 0 qs "rng_start rng"] sum lsm iq sm by (metis add_0 nth_map)
  have sizes: "map length (map span_bytes spans) = map pr_size qs" using bytes(1) by simp
  have "slice (concat (map span_bytes spans)) (offsets 0 (map pr_size qs) ! i)
      (offsets 0 (map pr_size qs) ! i + length (map span_bytes spans ! i)) = map span_bytes spans ! i"
    using offsets_slice [of i "map span_bytes spans" "[]"] iq len sizes by simp
  moreover have "length (map span_bytes spans ! i) = pr_size (qs ! i)"
    using sizes iq len by (metis nth_map length_map)
  moreover have "map span_bytes spans ! i =
      slice source (pr_source_offset (qs ! i)) (pr_source_offset (qs ! i) + pr_size (qs ! i))"
    using bytes(2) iq by simp
  moreover have "span_packet_index (spans ! i) = rng_start rng + i"
    using bytes(3) iq len by (metis nth_map nth_upt add_less_cancel_left)
  moreover have "smp_index (samples ! i) = rng_start rng + i"
    "smp_byte_count (samples ! i) = pr_size (qs ! i)" "smp_pts (samples ! i) = pr_pts (qs ! i)"
    "smp_dts (samples ! i) = pr_dts (qs ! i)" "smp_duration (samples ! i) = pr_duration (qs ! i)"
    "smp_keyframe (samples ! i) = pr_keyframe (qs ! i)"
    using samples_loop_fields [of qs "rng_start rng" 0] sm lsm iq
    by (metis nth_map nth_upt add_less_cancel_left)+
  ultimately show ?thesis using q off len lsm by (simp add: Let_def)
qed

theorem samples_index_extracted_payload_witness:
  "\<exists>spans samples. packet_payload_spans (replicate 100 7) demo_packets \<lparr>rng_start = 1, rng_end = 3\<rparr> = Inr spans \<and>
     packet_samples_for_range demo_packets \<lparr>rng_start = 1, rng_end = 3\<rparr> = Inr samples \<and>
     slice (concat (map span_bytes spans)) (smp_payload_offset (samples ! 1))
       (smp_payload_offset (samples ! 1) + smp_byte_count (samples ! 1)) = slice (replicate 100 7) 80 82"
proof -
  let ?r = "\<lparr>rng_start = 1, rng_end = 3\<rparr>" and ?src = "replicate 100 7 :: bytes"
  have q: "slice demo_packets (Suc 0) 3 = [demo_packet 40 False, demo_packet 80 True]"
    by (simp add: demo_packets_def slice_def numeral_3_eq_3 numeral_2_eq_2)
  have l: "length demo_packets = 3" by (simp add: demo_packets_def)
  obtain spans where sp: "packet_payload_spans ?src demo_packets ?r = Inr spans"
    by (simp add: packet_payload_spans_def q l demo_packet_def checked_add_def)
  obtain samples where sm: "packet_samples_for_range demo_packets ?r = Inr samples"
    "length samples = 2"
    by (simp add: packet_samples_for_range_def q l)
  have f: "sum_list (map pr_size demo_packets) < 2 ^ 64" and i: "1 < length samples"
    using sm(2) by (simp_all add: demo_packets_def demo_packet_def)
  have p: "demo_packets ! (rng_start ?r + 1) = demo_packet 80 True"
    "pr_source_offset (demo_packet 80 True) = 80"
    "80 + pr_size (demo_packet 80 True) = 82"
    by (simp_all add: demo_packets_def demo_packet_def)
  show ?thesis
    using sp sm(1) samples_index_extracted_payload [OF sp sm(1) f i, unfolded Let_def p] by blast
qed

end
