(* ===== verification/Mp4Tables.thy ===== *)
theory Mp4Tables
  imports Atoms Budget Packets
begin

text \<open>
  The sample tables of \<open>container/mp4.rs\<close>: the readers of \<open>stsz\<close>, \<open>stts\<close>, \<open>ctts\<close>,
  \<open>stss\<close>, \<open>stsc\<close>, \<open>stco\<close>/\<open>co64\<close> with their entry ceilings, the totals used for bit
  rates, and the expansion of a table into packets and chunk plans. \<open>try_reserve\<close> is
  taken to succeed. A table read runs over the entry index; the readers' slices are shown
  to be in range, so \<open>read_u32(..)?\<close> on them never fails and never panics.
\<close>

section \<open>Entry counts\<close>

definition checked_payload_entries :: "bytes \<Rightarrow> nat \<Rightarrow> nat \<Rightarrow> nat option" where
  "checked_payload_entries payload header_len entry_width =
     (if entry_width = 0 \<or> length payload < header_len then None
      else Some ((length payload - header_len) div entry_width))"

definition checked_table_entry_count :: "bytes \<Rightarrow> nat \<Rightarrow> nat \<Rightarrow> parse_limits \<Rightarrow> nat option" where
  "checked_table_entry_count payload header_len entry_width limits =
     (case Option.bind (get_range payload 4 8) read_u32 of None \<Rightarrow> None
      | Some declared \<Rightarrow>
          if max_table_entries limits < declared then None
          else case checked_payload_entries payload header_len entry_width of None \<Rightarrow> None
          | Some room \<Rightarrow>
              if room < declared then None
              else case checked_mul 64 declared entry_width of None \<Rightarrow> None
              | Some n \<Rightarrow> if max_index_bytes limits < n then None else Some declared)"

definition find_atom :: "bytes \<Rightarrow> bytes \<Rightarrow> bytes option" where
  "find_atom payload kind = map_option at_payload (find (\<lambda>a. at_kind a = kind) (atoms payload))"

definition parse_mdhd_timescale :: "bytes \<Rightarrow> nat option" where
  "parse_mdhd_timescale payload =
     (case payload of [] \<Rightarrow> None
      | version # _ \<Rightarrow>
          if version = 1
          then (if length payload < 24 then None else read_u32 (slice payload 20 24))
          else (if length payload < 16 then None else read_u32 (slice payload 12 16)))"

section \<open>Sample tables\<close>

record sample_to_chunk =
  first_chunk :: nat
  samples_per_chunk :: nat

record sample_table =
  sample_sizes :: "nat list"
  sample_durations :: "nat list"
  composition_offsets :: "int list"
  keyframes :: "bool list"
  chunk_offsets :: "nat list"
  sample_to_chunk :: "sample_to_chunk list"

text \<open>Run-length tables: \<open>n\<close> entries left, the offset of the next and the values so far.\<close>

fun stts_loop :: "bytes \<Rightarrow> nat \<Rightarrow> nat \<Rightarrow> nat \<Rightarrow> nat list \<Rightarrow> nat list option" where
  "stts_loop payload sample_count 0 offset durations =
     (if length durations = sample_count then Some durations else None)"
| "stts_loop payload sample_count (Suc n) offset durations =
     Option.bind (read_u32 (slice payload offset (offset + 4))) (\<lambda>count.
     Option.bind (read_u32 (slice payload (offset + 4) (offset + 8))) (\<lambda>delta.
     Option.bind (checked_sub sample_count (length durations)) (\<lambda>room.
       if room < count then None
       else stts_loop payload sample_count n (offset + 8) (durations @ replicate count delta))))"

definition parse_stts :: "bytes \<Rightarrow> nat \<Rightarrow> parse_limits \<Rightarrow> nat list option" where
  "parse_stts payload sample_count limits =
     (if length payload < 8 then None
      else Option.bind (checked_table_entry_count payload 8 8 limits) (\<lambda>entry_count.
        stts_loop payload sample_count entry_count 8 []))"

fun stts_total_loop :: "bytes \<Rightarrow> nat \<Rightarrow> nat \<Rightarrow> nat \<Rightarrow> nat option" where
  "stts_total_loop payload 0 offset acc = (if 0 < acc then Some acc else None)"
| "stts_total_loop payload (Suc n) offset acc =
     Option.bind (read_u32 (slice payload offset (offset + 4))) (\<lambda>count.
     Option.bind (read_u32 (slice payload (offset + 4) (offset + 8))) (\<lambda>delta.
     Option.bind (checked_mul 64 count delta) (\<lambda>run.
     Option.bind (checked_add 64 acc run) (\<lambda>acc.
       stts_total_loop payload n (offset + 8) acc))))"

definition parse_stts_total_duration :: "bytes \<Rightarrow> parse_limits \<Rightarrow> nat option" where
  "parse_stts_total_duration payload limits =
     (if length payload < 8 then None
      else Option.bind (checked_table_entry_count payload 8 8 limits) (\<lambda>entry_count.
        stts_total_loop payload entry_count 8 0))"

definition ctts_value :: "u8 \<Rightarrow> bytes \<Rightarrow> int option" where
  "ctts_value version bs =
     (if version = 0 then map_option int (read_u32 bs)
      else if version = 1 then read_i32 bs else None)"

fun ctts_loop :: "bytes \<Rightarrow> nat \<Rightarrow> u8 \<Rightarrow> nat \<Rightarrow> nat \<Rightarrow> int list \<Rightarrow> int list option" where
  "ctts_loop payload sample_count version 0 offset out =
     (if length out = sample_count then Some out else None)"
| "ctts_loop payload sample_count version (Suc n) offset out =
     Option.bind (read_u32 (slice payload offset (offset + 4))) (\<lambda>count.
     Option.bind (ctts_value version (slice payload (offset + 4) (offset + 8))) (\<lambda>sample_offset.
     Option.bind (checked_sub sample_count (length out)) (\<lambda>room.
       if room < count then None
       else ctts_loop payload sample_count version n (offset + 8)
              (out @ replicate count sample_offset))))"

definition parse_ctts :: "bytes \<Rightarrow> nat \<Rightarrow> parse_limits \<Rightarrow> int list option" where
  "parse_ctts payload sample_count limits =
     (if length payload < 8 then None
      else Option.bind (checked_table_entry_count payload 8 8 limits) (\<lambda>entry_count.
        ctts_loop payload sample_count (payload ! 0) entry_count 8 []))"

fun stss_loop :: "bytes \<Rightarrow> nat \<Rightarrow> nat \<Rightarrow> nat \<Rightarrow> bool list \<Rightarrow> bool list option" where
  "stss_loop payload sample_count 0 offset out = Some out"
| "stss_loop payload sample_count (Suc n) offset out =
     Option.bind (read_u32 (slice payload offset (offset + 4))) (\<lambda>sample_number.
       if \<not> (1 \<le> sample_number \<and> sample_number \<le> sample_count) \<or> out ! (sample_number - 1) then None
       else stss_loop payload sample_count n (offset + 4) (out[sample_number - 1 := True]))"

definition parse_stss :: "bytes \<Rightarrow> nat \<Rightarrow> parse_limits \<Rightarrow> bool list option" where
  "parse_stss payload sample_count limits =
     (if length payload < 8 then None
      else Option.bind (checked_table_entry_count payload 8 4 limits) (\<lambda>entry_count.
        if max_samples_per_track limits < sample_count then None
        else stss_loop payload sample_count entry_count 8 (replicate sample_count False)))"

fun stsc_loop :: "bytes \<Rightarrow> nat \<Rightarrow> nat \<Rightarrow> sample_to_chunk list \<Rightarrow> sample_to_chunk list option" where
  "stsc_loop payload 0 offset out = (if out = [] then None else Some out)"
| "stsc_loop payload (Suc n) offset out =
     Option.bind (read_u32 (slice payload offset (offset + 4))) (\<lambda>first.
     Option.bind (read_u32 (slice payload (offset + 4) (offset + 8))) (\<lambda>per_chunk.
       stsc_loop payload n (offset + 12)
         (out @ [\<lparr>first_chunk = first, samples_per_chunk = per_chunk\<rparr>])))"

definition parse_stsc :: "bytes \<Rightarrow> parse_limits \<Rightarrow> sample_to_chunk list option" where
  "parse_stsc payload limits =
     (if length payload < 8 then None
      else Option.bind (checked_table_entry_count payload 8 12 limits) (\<lambda>entry_count.
        stsc_loop payload entry_count 8 []))"

text \<open>The loop that \<open>parse_stsz\<close> and \<open>parse_stco\<close> share: \<open>n\<close> consecutive \<open>u32\<close> values.\<close>

fun u32_loop :: "bytes \<Rightarrow> nat \<Rightarrow> nat \<Rightarrow> nat list \<Rightarrow> nat list option" where
  "u32_loop payload 0 offset out = Some out"
| "u32_loop payload (Suc n) offset out =
     Option.bind (read_u32 (slice payload offset (offset + 4))) (\<lambda>v.
       u32_loop payload n (offset + 4) (out @ [v]))"

fun u64_loop :: "bytes \<Rightarrow> nat \<Rightarrow> nat \<Rightarrow> nat list \<Rightarrow> nat list option" where
  "u64_loop payload 0 offset out = Some out"
| "u64_loop payload (Suc n) offset out =
     Option.bind (read_u64 (slice payload offset (offset + 8))) (\<lambda>v.
       u64_loop payload n (offset + 8) (out @ [v]))"

definition parse_stsz :: "bytes \<Rightarrow> parse_limits \<Rightarrow> nat list option" where
  "parse_stsz payload limits =
     (if length payload < 12 then None
      else Option.bind (read_u32 (slice payload 4 8)) (\<lambda>fixed_size.
        Option.bind (read_u32 (slice payload 8 12)) (\<lambda>sample_count.
          if max_samples_per_track limits < sample_count then None
          else if fixed_size \<noteq> 0
          then Option.bind (checked_mul 64 sample_count 4) (\<lambda>n.
                 if max_index_bytes limits < n then None
                 else Some (replicate sample_count fixed_size))
          else Option.bind (checked_payload_entries payload 12 4) (\<lambda>room.
                 if room < sample_count then None
                 else u32_loop payload sample_count 12 []))))"

fun stsz_total_loop :: "bytes \<Rightarrow> nat \<Rightarrow> nat \<Rightarrow> nat \<Rightarrow> nat option" where
  "stsz_total_loop payload 0 offset acc = Some acc"
| "stsz_total_loop payload (Suc n) offset acc =
     Option.bind (read_u32 (slice payload offset (offset + 4))) (\<lambda>v.
     Option.bind (checked_add 64 acc v) (\<lambda>acc. stsz_total_loop payload n (offset + 4) acc))"

definition parse_stsz_totals :: "bytes \<Rightarrow> parse_limits \<Rightarrow> (nat \<times> nat) option" where
  "parse_stsz_totals payload limits =
     (if length payload < 12 then None
      else Option.bind (read_u32 (slice payload 4 8)) (\<lambda>fixed_size.
        Option.bind (read_u32 (slice payload 8 12)) (\<lambda>sample_count.
          if max_samples_per_track limits < sample_count then None
          else if fixed_size \<noteq> 0
          then map_option (Pair sample_count) (checked_mul 64 fixed_size sample_count)
          else Option.bind (checked_payload_entries payload 12 4) (\<lambda>room.
                 if room < sample_count then None
                 else map_option (Pair sample_count) (stsz_total_loop payload sample_count 12 0)))))"

definition parse_stco :: "bytes \<Rightarrow> parse_limits \<Rightarrow> nat list option" where
  "parse_stco payload limits =
     (if length payload < 8 then None
      else Option.bind (checked_table_entry_count payload 8 4 limits) (\<lambda>entry_count.
        u32_loop payload entry_count 8 []))"

definition parse_co64 :: "bytes \<Rightarrow> parse_limits \<Rightarrow> nat list option" where
  "parse_co64 payload limits =
     (if length payload < 8 then None
      else Option.bind (checked_table_entry_count payload 8 8 limits) (\<lambda>entry_count.
        u64_loop payload entry_count 8 []))"

definition parse_sample_table_with_limits :: "bytes \<Rightarrow> parse_limits \<Rightarrow> sample_table option" where
  "parse_sample_table_with_limits stbl limits =
     Option.bind (Option.bind (find_atom stbl (ascii ''stsz'')) (\<lambda>p. parse_stsz p limits)) (\<lambda>sizes.
     let sample_count = length sizes in
     Option.bind (Option.bind (find_atom stbl (ascii ''stts''))
       (\<lambda>p. parse_stts p sample_count limits)) (\<lambda>durations.
     Option.bind (case find_atom stbl (ascii ''ctts'') of
         Some payload \<Rightarrow> parse_ctts payload sample_count limits
       | None \<Rightarrow> Some (replicate sample_count 0)) (\<lambda>ctts.
     Option.bind (case find_atom stbl (ascii ''stss'') of
         Some payload \<Rightarrow> parse_stss payload sample_count limits
       | None \<Rightarrow> Some (replicate sample_count True)) (\<lambda>keys.
     Option.bind (case Option.bind (find_atom stbl (ascii ''stco'')) (\<lambda>p. parse_stco p limits) of
         Some os \<Rightarrow> Some os
       | None \<Rightarrow> Option.bind (find_atom stbl (ascii ''co64'')) (\<lambda>p. parse_co64 p limits)) (\<lambda>chunks.
     Option.bind (Option.bind (find_atom stbl (ascii ''stsc'')) (\<lambda>p. parse_stsc p limits)) (\<lambda>s2c.
       Some \<lparr>sample_sizes = sizes, sample_durations = durations, composition_offsets = ctts,
             keyframes = keys, chunk_offsets = chunks, sample_to_chunk = s2c\<rparr>))))))"

definition parse_sample_table :: "bytes \<Rightarrow> sample_table option" where
  "parse_sample_table stbl = parse_sample_table_with_limits stbl limits_default"

definition parse_trak_sample_table :: "bytes \<Rightarrow> (time_scale \<times> sample_table) option" where
  "parse_trak_sample_table payload =
     Option.bind (find_atom payload (ascii ''mdia'')) (\<lambda>mdia.
     Option.bind (Option.bind (find_atom mdia (ascii ''mdhd'')) parse_mdhd_timescale) (\<lambda>timescale.
     Option.bind (Option.bind (find_atom mdia (ascii ''minf'')) (\<lambda>minf. find_atom minf (ascii ''stbl''))) (\<lambda>stbl.
     Option.bind (parse_sample_table stbl) (\<lambda>table.
       Some (\<lparr>units_per_second = timescale\<rparr>, table)))))"

section \<open>Rates\<close>

record sample_timing =
  tm_sample_count :: nat
  tm_size_bytes :: nat
  tm_duration_units :: nat

definition parse_sample_timing :: "bytes \<Rightarrow> sample_timing option" where
  "parse_sample_timing stbl =
     Option.bind (Option.bind (find_atom stbl (ascii ''stsz''))
       (\<lambda>p. parse_stsz_totals p limits_default)) (\<lambda>(sample_count, size_bytes).
     Option.bind (Option.bind (find_atom stbl (ascii ''stts''))
       (\<lambda>p. parse_stts_total_duration p limits_default)) (\<lambda>units.
       Some \<lparr>tm_sample_count = sample_count, tm_size_bytes = size_bytes, tm_duration_units = units\<rparr>))"

definition bitrate_from_sample_timing :: "nat option \<Rightarrow> sample_timing option \<Rightarrow> nat option" where
  "bitrate_from_sample_timing timescale timing =
     Option.bind timescale (\<lambda>timescale. Option.bind timing (\<lambda>timing.
       if timescale = 0 \<or> tm_size_bytes timing = 0 \<or> tm_duration_units timing = 0 then None
       else let bits = sat_mul 128 (tm_size_bytes timing) 8;
                bps = sat_mul 128 bits timescale div tm_duration_units timing
            in Some (min bps (2 ^ 64 - 1))))"

section \<open>What the readers return\<close>

definition field32 :: "bytes \<Rightarrow> nat \<Rightarrow> nat" where
  "field32 payload off = be_nat (slice payload off (off + 4))"

lemma field32_bound: "field32 payload off < 2 ^ 32"
proof -
  have "(256::nat) ^ length (slice payload off (off + 4)) \<le> 256 ^ 4" by (intro power_increasing) simp_all
  then show ?thesis
    using be_nat_bound [of "slice payload off (off + 4)"] unfolding field32_def by simp
qed

lemma read_u32_field [simp]:
  "off + 4 \<le> length payload \<Longrightarrow> e = off + 4 \<Longrightarrow> read_u32 (slice payload off e) = Some (field32 payload off)"
  by (simp add: read_u32_def field32_def)

lemma read_u32_bound: "read_u32 bs = Some v \<Longrightarrow> v < 2 ^ 32"
  using be_nat_bound [of bs] by (auto simp: read_u32_def split: if_splits)

lemma entry_count_Some:
  assumes "checked_table_entry_count payload h w limits = Some n"
  shows "h + n * w \<le> length payload \<and> n = field32 payload 4 \<and> n \<le> max_table_entries limits \<and>
    n * w \<le> max_index_bytes limits"
proof -
  have room: "h + n * w \<le> length payload"
    if "n \<le> (length payload - h) div w" "h \<le> length payload"
  proof -
    have "n * w \<le> (length payload - h) div w * w" using that by (intro mult_le_mono1)
    then have "n * w \<le> length payload - h" using div_times_less_eq_dividend le_trans by blast
    then show ?thesis using that by linarith
  qed
  show ?thesis
    using assms room
    by (auto simp: checked_table_entry_count_def checked_payload_entries_def Option.bind_eq_Some_conv
        not_less split: option.splits if_splits)
qed

fun rows :: "bytes \<Rightarrow> nat \<Rightarrow> nat \<Rightarrow> nat \<Rightarrow> (nat \<times> nat) list" where
  "rows payload w 0 off = []"
| "rows payload w (Suc n) off =
     (field32 payload off, field32 payload (off + 4)) # rows payload w n (off + w)"

lemma length_rows [simp]: "length (rows payload w n off) = n"
  by (induction n arbitrary: off) simp_all

lemma rows_bound: "(a, b) \<in> set (rows payload w n off) \<Longrightarrow> a < 2 ^ 32 \<and> b < 2 ^ 32"
  by (induction n arbitrary: off) (use field32_bound in auto)

definition expand :: "(nat \<times> 'a) list \<Rightarrow> 'a list" where
  "expand rs = concat (map (\<lambda>(c, d). replicate c d) rs)"

lemma expand_simps [simp]:
  "expand [] = []" "expand ((c, d) # rs) = replicate c d @ expand rs"
  by (simp_all add: expand_def)

lemma sum_list_expand: "sum_list (expand rs) = (\<Sum>(c, d)\<leftarrow>rs. c * d :: nat)"
  by (induction rs) (auto simp: sum_list_replicate)

lemma set_expand: "set (expand rs) \<subseteq> snd ` set rs"
  by (induction rs) auto

lemma stts_loop_rows:
  "offset + n * 8 \<le> length payload \<Longrightarrow>
   stts_loop payload sample_count n offset ds =
     (let out = ds @ expand (rows payload 8 n offset) in
      if length out = sample_count then Some out else None)"
  by (induction n arbitrary: offset ds)
    (auto simp: Let_def checked_sub_def add.assoc split: option.splits)

lemma stts_total_loop_rows:
  "offset + n * 8 \<le> length payload \<Longrightarrow>
   stts_total_loop payload n offset acc =
     (let out = acc + sum_list (expand (rows payload 8 n offset)) in
      if 0 < out \<and> (n = 0 \<or> out < 2 ^ 64) then Some out else None)"
proof (induction n arbitrary: offset acc)
  case (Suc n)
  let ?c = "field32 payload offset" and ?d = "field32 payload (offset + 4)"
  have IH: "stts_total_loop payload n (offset + 8) (acc + ?c * ?d) =
     (let out = acc + ?c * ?d + sum_list (expand (rows payload 8 n (offset + 8))) in
      if 0 < out \<and> (n = 0 \<or> out < 2 ^ 64) then Some out else None)"
    using Suc.prems by (intro Suc.IH) simp
  show ?case
  proof (cases "acc + ?c * ?d < 2 ^ 64")
    case True
    then show ?thesis using Suc.prems IH
      by (cases n) (auto simp: checked_mul_def checked_add_def sum_list_replicate Let_def add.assoc)
  next
    case False
    then show ?thesis using Suc.prems
      by (auto simp: checked_mul_def checked_add_def sum_list_replicate Let_def)
  qed
qed (auto simp: Let_def)

fun fields :: "bytes \<Rightarrow> nat \<Rightarrow> nat \<Rightarrow> nat list" where
  "fields payload 0 off = []"
| "fields payload (Suc n) off = field32 payload off # fields payload n (off + 4)"

lemma length_fields [simp]: "length (fields payload n off) = n"
  by (induction n arbitrary: off) simp_all

lemma fields_bound: "v \<in> set (fields payload n off) \<Longrightarrow> v < 2 ^ 32"
  by (induction n arbitrary: off) (use field32_bound in auto)

lemma u32_loop_fields:
  "offset + n * 4 \<le> length payload \<Longrightarrow>
    u32_loop payload n offset out = Some (out @ fields payload n offset)"
  by (induction n arbitrary: offset out) simp_all

lemma stsz_total_loop_fields:
  "offset + n * 4 \<le> length payload \<Longrightarrow> acc < 2 ^ 64 \<Longrightarrow>
   stsz_total_loop payload n offset acc =
     (let out = acc + sum_list (fields payload n offset) in if out < 2 ^ 64 then Some out else None)"
proof (induction n arbitrary: offset acc)
  case (Suc n)
  show ?case
  proof (cases "acc + field32 payload offset < 2 ^ 64")
    case True
    then show ?thesis using Suc.prems Suc.IH [of "offset + 4" "acc + field32 payload offset"]
      by (auto simp: checked_add_def Let_def add.assoc)
  next
    case False
    then show ?thesis using Suc.prems by (auto simp: checked_add_def Let_def)
  qed
qed simp

lemma stss_loop_fields:
  assumes "offset + n * 4 \<le> length payload" "length out = sample_count"
    and "stss_loop payload sample_count n offset out = Some keys"
  shows "length keys = sample_count \<and>
    (\<forall>v \<in> set (fields payload n offset). 1 \<le> v \<and> v \<le> sample_count \<and> \<not> out ! (v - 1)) \<and>
    distinct (fields payload n offset) \<and>
    (\<forall>i < sample_count. keys ! i \<longleftrightarrow> out ! i \<or> i + 1 \<in> set (fields payload n offset))"
  using assms
proof (induction n arbitrary: offset out)
  case (Suc n)
  let ?v = "field32 payload offset"
  have v: "1 \<le> ?v" "?v \<le> sample_count" "\<not> out ! (?v - 1)"
    and l: "stss_loop payload sample_count n (offset + 4) (out[?v - 1 := True]) = Some keys"
    using Suc.prems by (auto split: if_splits)
  have IH: "length keys = sample_count \<and>
    (\<forall>v \<in> set (fields payload n (offset + 4)). 1 \<le> v \<and> v \<le> sample_count \<and> \<not> out[?v - 1 := True] ! (v - 1)) \<and>
    distinct (fields payload n (offset + 4)) \<and>
    (\<forall>i < sample_count. keys ! i \<longleftrightarrow> out[?v - 1 := True] ! i \<or> i + 1 \<in> set (fields payload n (offset + 4)))"
    using Suc.prems l by (intro Suc.IH) simp_all
  have "\<not> out ! (w - 1) \<and> w \<noteq> ?v" if "w \<in> set (fields payload n (offset + 4))" for w
  proof -
    have "1 \<le> w" "w \<le> sample_count" "\<not> out[?v - 1 := True] ! (w - 1)" using IH that by blast+
    then show ?thesis using v Suc.prems(2) by (cases "w = ?v") (auto simp: nth_list_update)
  qed
  then show ?case using IH v Suc.prems(2) by (auto simp: nth_list_update)
qed auto

lemma ctts_loop_length:
  "ctts_loop payload sample_count version n offset out = Some os \<Longrightarrow> length os = sample_count"
  by (induction payload sample_count version n offset out rule: ctts_loop.induct)
    (auto simp: Option.bind_eq_Some_conv split: if_splits)

definition ctts_range :: "int \<Rightarrow> bool" where
  "ctts_range v \<longleftrightarrow> - (2 ^ 31) \<le> v \<and> v < 2 ^ 32"

lemma ctts_value_range: "ctts_value version bs = Some v \<Longrightarrow> ctts_range v"
proof -
  assume v: "ctts_value version bs = Some v"
  have "be_nat bs < 2 ^ 32" if "length bs = 4" using be_nat_bound [of bs] that by simp
  then have "int (be_nat bs) < 2 ^ 32" if "length bs = 4" using that by fastforce
  with v show ?thesis
    by (fastforce simp: ctts_value_def ctts_range_def read_u32_def read_i32_def signed_of_def
        split: if_splits)
qed

lemma ctts_loop_range:
  "ctts_loop payload sample_count version n offset out = Some os \<Longrightarrow> \<forall>v \<in> set out. ctts_range v \<Longrightarrow>
    \<forall>v \<in> set os. ctts_range v"
proof (induction payload sample_count version n offset out rule: ctts_loop.induct)
  case (2 payload sample_count version n offset out)
  then show ?case
    by (fastforce simp: Option.bind_eq_Some_conv dest: ctts_value_range split: if_splits)
qed (auto split: if_splits)

lemma stsc_loop_nonempty: "stsc_loop payload n offset out = Some s2c \<Longrightarrow> s2c \<noteq> []"
  by (induction payload n offset out rule: stsc_loop.induct)
    (auto simp: Option.bind_eq_Some_conv split: if_splits)

lemma stsc_loop_bound:
  "stsc_loop payload n offset out = Some s2c \<Longrightarrow>
    \<forall>e \<in> set out. first_chunk e < 2 ^ 32 \<and> samples_per_chunk e < 2 ^ 32 \<Longrightarrow>
    \<forall>e \<in> set s2c. first_chunk e < 2 ^ 32 \<and> samples_per_chunk e < 2 ^ 32"
proof (induction payload n offset out rule: stsc_loop.induct)
  case (2 payload n offset out)
  then show ?case by (fastforce simp: Option.bind_eq_Some_conv dest: read_u32_bound)
qed (auto split: if_splits)

lemma parse_stts_expand:
  "parse_stts payload n limits = Some ds \<longleftrightarrow>
     (\<exists>k. 8 \<le> length payload \<and> checked_table_entry_count payload 8 8 limits = Some k \<and>
       ds = expand (rows payload 8 k 8) \<and> length ds = n)"
proof -
  have "stts_loop payload n k 8 [] = Some ds \<longleftrightarrow> ds = expand (rows payload 8 k 8) \<and> length ds = n"
    if "checked_table_entry_count payload 8 8 limits = Some k" for k
    using entry_count_Some [OF that] by (auto simp: stts_loop_rows Let_def)
  then show ?thesis
    by (auto simp: parse_stts_def Option.bind_eq_Some_conv not_less)
qed

lemma parse_stsz_cases:
  assumes "parse_stsz payload limits = Some sizes"
  obtains (fixed) v n where "v \<noteq> 0" "v < 2 ^ 32" "sizes = replicate n v" "n \<le> max_samples_per_track limits"
      "12 \<le> length payload" "field32 payload 4 = v" "field32 payload 8 = n"
  | (table) n where "sizes = fields payload n 12" "12 + n * 4 \<le> length payload"
      "n \<le> max_samples_per_track limits" "field32 payload 4 = 0" "field32 payload 8 = n"
proof -
  define v n where "v = field32 payload 4" and "n = field32 payload 8"
  have len: "12 \<le> length payload" using assms by (auto simp: parse_stsz_def split: if_splits)
  have c: "n \<le> max_samples_per_track limits" and
    r: "if v \<noteq> 0 then sizes = replicate n v
        else n \<le> (length payload - 12) div 4 \<and> u32_loop payload n 12 [] = Some sizes"
    using assms len
    by (auto simp: parse_stsz_def v_def n_def checked_payload_entries_def Option.bind_eq_Some_conv
        split: if_splits)
  show thesis
  proof (cases "v = 0")
    case True
    with r have "n \<le> (length payload - 12) div 4" by simp
    then have l: "12 + n * 4 \<le> length payload" using len by simp
    then have "sizes = fields payload n 12" using r True by (simp add: u32_loop_fields)
    then show thesis using table l c True by (simp add: v_def n_def)
  next
    case False
    then have "sizes = replicate n v" using r by simp
    moreover have "v < 2 ^ 32" "field32 payload 4 = v" "field32 payload 8 = n"
      using field32_bound by (simp_all only: v_def n_def)
    ultimately show thesis using False c len by (intro fixed)
  qed
qed

definition wf_table :: "parse_limits \<Rightarrow> sample_table \<Rightarrow> bool" where
  "wf_table limits t \<longleftrightarrow>
     (let n = length (sample_sizes t) in
      n \<le> max_samples_per_track limits \<and> n < 2 ^ 32 \<and>
      length (sample_durations t) = n \<and> length (composition_offsets t) = n \<and>
      length (keyframes t) = n \<and> sample_to_chunk t \<noteq> [] \<and>
      (\<forall>v \<in> set (sample_sizes t). v < 2 ^ 32) \<and>
      (\<forall>v \<in> set (sample_durations t). v < 2 ^ 32) \<and>
      (\<forall>v \<in> set (composition_offsets t). ctts_range v))"

lemma parse_stsz_bounds:
  assumes "parse_stsz payload limits = Some sizes"
  shows "length sizes \<le> max_samples_per_track limits \<and> length sizes < 2 ^ 32 \<and> (\<forall>v \<in> set sizes. v < 2 ^ 32)"
  using assms
proof (cases rule: parse_stsz_cases)
  case (fixed v n)
  then show ?thesis using field32_bound [of payload 8] by simp
next
  case (table n)
  then show ?thesis using fields_bound field32_bound [of payload 8] by auto
qed

lemma parse_stts_bounds:
  "parse_stts payload n limits = Some ds \<Longrightarrow> length ds = n \<and> (\<forall>v \<in> set ds. v < 2 ^ 32)"
  using set_expand rows_bound by (fastforce simp: parse_stts_expand)

lemma parse_ctts_bounds:
  "parse_ctts payload n limits = Some os \<Longrightarrow> length os = n \<and> (\<forall>v \<in> set os. ctts_range v)"
  using ctts_loop_length ctts_loop_range
  by (fastforce simp: parse_ctts_def Option.bind_eq_Some_conv split: if_splits)

lemma parse_stss_keys:
  assumes "parse_stss payload n limits = Some keys"
  shows "length keys = n \<and> distinct (fields payload (field32 payload 4) 8) \<and>
    (\<forall>i < n. keys ! i \<longleftrightarrow> i + 1 \<in> set (fields payload (field32 payload 4) 8))"
proof -
  obtain k where k: "checked_table_entry_count payload 8 4 limits = Some k"
    and l: "stss_loop payload n k 8 (replicate n False) = Some keys"
    using assms by (auto simp: parse_stss_def Option.bind_eq_Some_conv split: if_splits)
  show ?thesis
    using stss_loop_fields [OF _ _ l] entry_count_Some [OF k] by auto
qed

lemma parse_stsc_bounds: "parse_stsc payload limits = Some s2c \<Longrightarrow> s2c \<noteq> []"
  by (auto simp: parse_stsc_def Option.bind_eq_Some_conv dest: stsc_loop_nonempty split: if_splits)

lemma parse_sample_table_Some:
  assumes "parse_sample_table_with_limits stbl limits = Some t"
  obtains stsz stts where
    "find_atom stbl (ascii ''stsz'') = Some stsz" "parse_stsz stsz limits = Some (sample_sizes t)"
    "find_atom stbl (ascii ''stts'') = Some stts"
    "parse_stts stts (length (sample_sizes t)) limits = Some (sample_durations t)"
    "wf_table limits t"
proof -
  obtain sizes stsz stts ds os ks s2c chunks where
    sz: "find_atom stbl (ascii ''stsz'') = Some stsz" "parse_stsz stsz limits = Some sizes" and
    ds: "find_atom stbl (ascii ''stts'') = Some stts" "parse_stts stts (length sizes) limits = Some ds" and
    os: "(case find_atom stbl (ascii ''ctts'') of
         Some payload \<Rightarrow> parse_ctts payload (length sizes) limits
       | None \<Rightarrow> Some (replicate (length sizes) 0)) = Some os" and
    ks: "(case find_atom stbl (ascii ''stss'') of
         Some payload \<Rightarrow> parse_stss payload (length sizes) limits
       | None \<Rightarrow> Some (replicate (length sizes) True)) = Some ks" and
    sc: "\<exists>p. find_atom stbl (ascii ''stsc'') = Some p \<and> parse_stsc p limits = Some s2c" and
    t: "t = \<lparr>sample_sizes = sizes, sample_durations = ds, composition_offsets = os,
             keyframes = ks, chunk_offsets = chunks, sample_to_chunk = s2c\<rparr>"
    using assms unfolding parse_sample_table_with_limits_def Let_def Option.bind_eq_Some_conv
      option.inject by blast
  let ?n = "length sizes"
  have fields: "sample_sizes t = sizes" "sample_durations t = ds" "composition_offsets t = os"
    "keyframes t = ks" "sample_to_chunk t \<noteq> []"
    using sc parse_stsc_bounds by (auto simp: t)
  have "length os = ?n \<and> (\<forall>v \<in> set os. ctts_range v)"
    using os parse_ctts_bounds by (fastforce simp: ctts_range_def split: option.splits)
  moreover have "length ks = ?n" using ks parse_stss_keys by (fastforce split: option.splits)
  ultimately have "wf_table limits t"
    using fields parse_stsz_bounds [OF sz(2)] parse_stts_bounds [OF ds(2)] by (simp add: wf_table_def Let_def)
  with that sz ds fields show thesis by simp
qed

section \<open>Expansion into packets\<close>

record normalized_sample_timing =
  nt_pts :: nat
  nt_dts :: nat
  nt_duration :: nat

definition checked_add_i128 :: "int \<Rightarrow> int \<Rightarrow> int option" where
  "checked_add_i128 a b = (if i128_range (a + b) then Some (a + b) else None)"

definition u64_try_from :: "int \<Rightarrow> nat option" where
  "u64_try_from v = (if 0 \<le> v \<and> v < 2 ^ 64 then Some (nat v) else None)"

text \<open>First pass, over the \<open>n\<close> samples from \<open>i\<close>: the smallest of 0 and all raw times.\<close>

fun timing_min :: "sample_table \<Rightarrow> nat \<Rightarrow> nat \<Rightarrow> int \<Rightarrow> int \<Rightarrow> int option" where
  "timing_min t 0 i dts min_time = Some min_time"
| "timing_min t (Suc n) i dts min_time =
     (let duration = int (case get_at (sample_durations t) i of None \<Rightarrow> 0 | Some d \<Rightarrow> d) in
      Option.bind (get_at (composition_offsets t) i) (\<lambda>offset.
      Option.bind (checked_add_i128 dts offset) (\<lambda>pts.
      Option.bind (checked_add_i128 dts duration) (\<lambda>dts'.
        timing_min t n (i + 1) dts' (min (min min_time pts) dts)))))"

fun timing_shifted :: "sample_table \<Rightarrow> int \<Rightarrow> nat \<Rightarrow> nat \<Rightarrow> int \<Rightarrow> normalized_sample_timing list option" where
  "timing_shifted t shift 0 i dts = Some []"
| "timing_shifted t shift (Suc n) i dts =
     Option.bind (get_at (sample_durations t) i) (\<lambda>duration.
     Option.bind (get_at (composition_offsets t) i) (\<lambda>offset.
     Option.bind (checked_add_i128 dts offset) (\<lambda>pts.
     Option.bind (checked_add_i128 dts (int duration)) (\<lambda>dts'.
     Option.bind (Option.bind (checked_add_i128 pts shift) u64_try_from) (\<lambda>pts.
     Option.bind (Option.bind (checked_add_i128 dts shift) u64_try_from) (\<lambda>cur.
     Option.bind (u64_try_from (int duration)) (\<lambda>duration.
     Option.bind (timing_shifted t shift n (i + 1) dts') (\<lambda>rest.
       Some (\<lparr>nt_pts = pts, nt_dts = cur, nt_duration = duration\<rparr> # rest)))))))))"

definition normalized_timing :: "sample_table \<Rightarrow> normalized_sample_timing list option" where
  "normalized_timing t =
     Option.bind (timing_min t (length (sample_sizes t)) 0 0 0) (\<lambda>min_time.
     Option.bind (if i128_range (- min_time) then Some (- min_time) else None) (\<lambda>shift.
       timing_shifted t shift (length (sample_sizes t)) 0 0))"

function advance_sample_to_chunk :: "sample_table \<Rightarrow> nat \<Rightarrow> nat \<Rightarrow> nat" where
  "advance_sample_to_chunk t index chunk_number =
     (case get_at (sample_to_chunk t) (index + 1) of
        None \<Rightarrow> index
      | Some entry \<Rightarrow>
          if first_chunk entry \<le> chunk_number then advance_sample_to_chunk t (index + 1) chunk_number
          else index)"
  by pat_completeness auto
termination
  by (relation "measure (\<lambda>(t, index, _). length (sample_to_chunk t) - index)") auto

declare advance_sample_to_chunk.simps [simp del]

definition sample_packet :: "sample_table \<Rightarrow> time_scale \<Rightarrow> normalized_sample_timing list \<Rightarrow> nat \<Rightarrow> nat \<Rightarrow> packet_ref" where
  "sample_packet t scale timing source_offset i =
     \<lparr>pr_source_offset = source_offset, pr_size = sample_sizes t ! i,
      pr_pts = \<lparr>tp_units = nt_pts (timing ! i), tp_scale = scale\<rparr>,
      pr_dts = \<lparr>tp_units = nt_dts (timing ! i), tp_scale = scale\<rparr>,
      pr_duration = \<lparr>td_units = nt_duration (timing ! i), td_scale = scale\<rparr>,
      pr_keyframe = (case get_at (keyframes t) i of None \<Rightarrow> True | Some k \<Rightarrow> k)\<rparr>"

text \<open>The inner loop: at most \<open>n\<close> samples of one chunk, and the next sample index.\<close>

fun chunk_packets :: "sample_table \<Rightarrow> time_scale \<Rightarrow> normalized_sample_timing list \<Rightarrow> nat \<Rightarrow> nat \<Rightarrow> nat \<Rightarrow> nat \<Rightarrow>
    packet_ref list \<times> nat" where
  "chunk_packets t scale timing chunk_offset 0 i off = ([], i)"
| "chunk_packets t scale timing chunk_offset (Suc n) i off =
     (case get_at (sample_sizes t) i of
        None \<Rightarrow> ([], i)
      | Some sz \<Rightarrow>
          (case chunk_packets t scale timing chunk_offset n (i + 1) (sat_add 64 off sz) of
             (ps, j) \<Rightarrow> (sample_packet t scale timing (sat_add 64 chunk_offset off) i # ps, j)))"

fun packets_loop :: "sample_table \<Rightarrow> time_scale \<Rightarrow> normalized_sample_timing list \<Rightarrow> nat list \<Rightarrow> nat \<Rightarrow> nat \<Rightarrow> nat \<Rightarrow>
    packet_ref list" where
  "packets_loop t scale timing [] chunk_idx s2c_index i = []"
| "packets_loop t scale timing (chunk_offset # cs) chunk_idx s2c_index i =
     (let s2c_index = advance_sample_to_chunk t s2c_index (as_u 32 (chunk_idx + 1));
          n = samples_per_chunk (sample_to_chunk t ! s2c_index)
      in case chunk_packets t scale timing chunk_offset n i 0 of
           (ps, j) \<Rightarrow>
             ps @ (if length (sample_sizes t) \<le> j then []
                   else packets_loop t scale timing cs (chunk_idx + 1) s2c_index j))"

definition into_packets :: "sample_table \<Rightarrow> time_scale \<Rightarrow> packet_ref list" where
  "into_packets t scale =
     (case normalized_timing t of
        None \<Rightarrow> []
      | Some timing \<Rightarrow> packets_loop t scale timing (chunk_offsets t) 0 0 0)"

section \<open>Normalized timing\<close>

definition raw_dts :: "sample_table \<Rightarrow> nat \<Rightarrow> nat" where
  "raw_dts t i = sum_list (take i (sample_durations t))"

lemma raw_dts_0 [simp]: "raw_dts t 0 = 0"
  by (simp add: raw_dts_def)

lemma raw_dts_Suc: "i < length (sample_durations t) \<Longrightarrow> raw_dts t (Suc i) = raw_dts t i + sample_durations t ! i"
  by (simp add: raw_dts_def take_Suc_conv_app_nth)

lemma wf_lengths:
  assumes wf: "wf_table limits t"
  shows "length (sample_durations t) = length (sample_sizes t)"
  "length (composition_offsets t) = length (sample_sizes t)"
  "length (keyframes t) = length (sample_sizes t)" "length (sample_sizes t) < 2 ^ 32"
  using wf by (simp_all add: wf_table_def Let_def)

lemma raw_dts_bound:
  assumes wf: "wf_table limits t" and "i \<le> length (sample_sizes t)"
  shows "raw_dts t i \<le> i * (2 ^ 32 - 1)"
proof -
  have "sum_list xs \<le> length xs * (2 ^ 32 - 1)" if "\<forall>v \<in> set xs. v < 2 ^ 32" for xs :: "nat list"
    using that by (induction xs) auto
  moreover have "\<forall>v \<in> set (take i (sample_durations t)). v < 2 ^ 32"
    using wf by (auto simp: wf_table_def Let_def dest: in_set_takeD)
  ultimately have "raw_dts t i \<le> length (take i (sample_durations t)) * (2 ^ 32 - 1)"
    unfolding raw_dts_def by blast
  with assms wf_lengths [OF wf] show ?thesis by simp
qed

lemma raw_dts_last:
  assumes wf: "wf_table limits t" and "i < length (sample_sizes t)"
  shows "raw_dts t i < 2 ^ 64 - 2 ^ 33"
proof -
  have "i \<le> 4294967294" using assms wf_lengths [OF wf] by simp
  then have "i * (2 ^ 32 - 1) \<le> 4294967294 * (2 ^ 32 - 1)" by (rule mult_le_mono1)
  with raw_dts_bound [OF wf, of i] assms show ?thesis by simp
qed

lemma raw_pts_range:
  assumes wf: "wf_table limits t" and "i < length (sample_sizes t)"
  shows "ctts_range (composition_offsets t ! i)"
  using wf assms by (auto simp: wf_table_def Let_def)

lemma timing_min_spec:
  assumes wf: "wf_table limits t" and a: "i + n = length (sample_sizes t)" "- (2 ^ 31) \<le> m" "m \<le> 0"
  shows "\<exists>m'. timing_min t n i (int (raw_dts t i)) m = Some m' \<and> - (2 ^ 31) \<le> m' \<and> m' \<le> m \<and>
    (\<forall>k. i \<le> k \<and> k < i + n \<longrightarrow> m' \<le> int (raw_dts t k) + composition_offsets t ! k) \<and>
    (m' = m \<or> (\<exists>k. i \<le> k \<and> k < i + n \<and> m' = int (raw_dts t k) + composition_offsets t ! k))"
  using a assms(3,4)
proof (induction n arbitrary: i m)
  case 0
  then show ?case by simp
next
  case (Suc n)
  let ?d = "int (raw_dts t i)" and ?o = "composition_offsets t ! i"
  define m1 where "m1 = min (min m (?d + ?o)) ?d"
  have i: "i < length (sample_sizes t)" using Suc.prems by simp
  have d: "raw_dts t i < 2 ^ 64 - 2 ^ 33" "raw_dts t (Suc i) = raw_dts t i + sample_durations t ! i"
    using raw_dts_last [OF wf i] raw_dts_Suc [of i t] i wf_lengths [OF wf] by simp_all
  have du: "sample_durations t ! i < 2 ^ 32" using wf i by (auto simp: wf_table_def Let_def)
  have o: "ctts_range ?o" using raw_pts_range [OF wf i] .
  have di: "0 \<le> ?d" "?d < 2 ^ 64" using d(1) by simp_all
  have r: "i128_range (?d + ?o)" "i128_range (?d + int (sample_durations t ! i))"
    using di o du by (auto simp: i128_range_def ctts_range_def)
  have m1: "- (2 ^ 31) \<le> m1" "m1 \<le> 0" "m1 \<le> m"
    using Suc.prems di o by (auto simp: m1_def ctts_range_def)
  have step: "timing_min t (Suc n) i ?d m = timing_min t n (i + 1) (int (raw_dts t (i + 1))) m1"
    using i d(2) r wf_lengths [OF wf]
    by (simp add: get_at_def checked_add_i128_def m1_def Let_def)
  obtain m' where m': "timing_min t n (i + 1) (int (raw_dts t (i + 1))) m1 = Some m'"
    "- (2 ^ 31) \<le> m'" "m' \<le> m1"
    "\<forall>k. i + 1 \<le> k \<and> k < i + 1 + n \<longrightarrow> m' \<le> int (raw_dts t k) + composition_offsets t ! k"
    "m' = m1 \<or> (\<exists>k. i + 1 \<le> k \<and> k < i + 1 + n \<and> m' = int (raw_dts t k) + composition_offsets t ! k)"
    using Suc.IH [of "i + 1" m1] Suc.prems m1 by auto
  have "m' \<le> int (raw_dts t k) + composition_offsets t ! k" if "i \<le> k" "k < i + Suc n" for k
    using m'(3,4) that by (cases "k = i") (auto simp: m1_def)
  moreover have "m' = m \<or> (\<exists>k. i \<le> k \<and> k < i + Suc n \<and> m' = int (raw_dts t k) + composition_offsets t ! k)"
  proof (cases "m' = m1")
    case True
    then have "m' = m \<or> m' = ?d + ?o" using Suc.prems di by (auto simp: m1_def min_def split: if_splits)
    then show ?thesis by fastforce
  next
    case False
    then obtain k where "i + 1 \<le> k" "k < i + 1 + n" "m' = int (raw_dts t k) + composition_offsets t ! k"
      using m'(5) by blast
    then show ?thesis by (intro disjI2 exI [of _ k]) simp
  qed
  ultimately show ?case unfolding step using m' m1 by (intro exI [of _ m']) auto
qed

lemma timing_shifted_spec:
  assumes wf: "wf_table limits t" and a: "i + n = length (sample_sizes t)" "0 \<le> shift" "shift \<le> 2 ^ 31"
    and "\<forall>k < length (sample_sizes t). 0 \<le> int (raw_dts t k) + composition_offsets t ! k + shift"
  shows "timing_shifted t shift n i (int (raw_dts t i)) =
    Some (map (\<lambda>k. \<lparr>nt_pts = nat (int (raw_dts t k) + composition_offsets t ! k + shift),
                     nt_dts = nat (int (raw_dts t k) + shift), nt_duration = sample_durations t ! k\<rparr>)
      [i..<i + n])"
  using a
proof (induction n arbitrary: i)
  case (Suc n)
  let ?d = "int (raw_dts t i)" and ?o = "composition_offsets t ! i"
  have i: "i < length (sample_sizes t)" using Suc.prems by simp
  have d: "raw_dts t i < 2 ^ 64 - 2 ^ 33" "raw_dts t (Suc i) = raw_dts t i + sample_durations t ! i"
    using raw_dts_last [OF wf i] raw_dts_Suc [of i t] i wf_lengths [OF wf] by simp_all
  have du: "sample_durations t ! i < 2 ^ 32" using wf i by (auto simp: wf_table_def Let_def)
  have o: "ctts_range ?o" using raw_pts_range [OF wf i] .
  have di: "0 \<le> ?d" "?d < 2 ^ 64 - 2 ^ 33" using d(1) by simp_all
  have sh: "0 \<le> shift" "shift \<le> 2 ^ 31" "0 \<le> ?d + ?o + shift" using assms(3-5) i by blast+
  have r: "i128_range (?d + ?o)" "i128_range (?d + int (sample_durations t ! i))"
    "i128_range (?d + ?o + shift)" "i128_range (?d + shift)"
    "?d + ?o + shift < 2 ^ 64" "?d + shift < 2 ^ 64" "0 \<le> ?d + shift"
    using di o du sh by (auto simp: i128_range_def ctts_range_def)
  have IH: "timing_shifted t shift n (i + 1) (int (raw_dts t (i + 1))) =
    Some (map (\<lambda>k. \<lparr>nt_pts = nat (int (raw_dts t k) + composition_offsets t ! k + shift),
                     nt_dts = nat (int (raw_dts t k) + shift), nt_duration = sample_durations t ! k\<rparr>)
      [i + 1..<i + 1 + n])"
    using Suc.prems by (intro Suc.IH) simp
  have u: "[i..<i + Suc n] = i # [i + 1..<i + 1 + n]" by (simp add: upt_rec)
  have nxt: "?d + int (sample_durations t ! i) = int (raw_dts t (i + 1))" using d(2) by simp
  have "get_at (sample_durations t) i = Some (sample_durations t ! i)"
    "get_at (composition_offsets t) i = Some ?o"
    using i wf_lengths [OF wf] by simp_all
  moreover have "checked_add_i128 ?d ?o = Some (?d + ?o)"
    "checked_add_i128 ?d (int (sample_durations t ! i)) = Some (int (raw_dts t (i + 1)))"
    "checked_add_i128 (?d + ?o) shift = Some (?d + ?o + shift)"
    "checked_add_i128 ?d shift = Some (?d + shift)"
    "u64_try_from (?d + ?o + shift) = Some (nat (?d + ?o + shift))"
    "u64_try_from (?d + shift) = Some (nat (?d + shift))"
    "u64_try_from (int (sample_durations t ! i)) = Some (sample_durations t ! i)"
    using r sh du unfolding checked_add_i128_def u64_try_from_def nxt by simp_all
  ultimately show ?case unfolding u timing_shifted.simps(2) by (simp only: Option.bind.simps IH list.map)
qed simp

lemma normalized_timing_spec:
  assumes wf: "wf_table limits t"
  shows "\<exists>shift timing. normalized_timing t = Some timing \<and>
    length timing = length (sample_sizes t) \<and>
    (\<forall>i < length timing. int (nt_dts (timing ! i)) = int (raw_dts t i) + int shift \<and>
       int (nt_pts (timing ! i)) = int (raw_dts t i) + composition_offsets t ! i + int shift \<and>
       nt_duration (timing ! i) = sample_durations t ! i) \<and>
    (shift = 0 \<or> (\<exists>i < length timing. nt_pts (timing ! i) = 0))"
proof -
  let ?n = "length (sample_sizes t)"
  obtain m where m: "timing_min t ?n 0 0 0 = Some m" "- (2 ^ 31) \<le> m" "m \<le> 0"
    "\<forall>k < ?n. m \<le> int (raw_dts t k) + composition_offsets t ! k"
    "m = 0 \<or> (\<exists>k < ?n. m = int (raw_dts t k) + composition_offsets t ! k)"
    using timing_min_spec [OF wf, of 0 ?n 0] by auto
  have neg: "i128_range (- m)" using m(2,3) by (simp add: i128_range_def)
  define timing where "timing = map (\<lambda>k. \<lparr>nt_pts = nat (int (raw_dts t k) + composition_offsets t ! k - m),
      nt_dts = nat (int (raw_dts t k) - m), nt_duration = sample_durations t ! k\<rparr>) [0..<?n]"
  have "timing_shifted t (- m) ?n 0 0 = Some timing"
    using timing_shifted_spec [OF wf, of 0 ?n "- m"] m(2-4) by (simp add: timing_def)
  then have "normalized_timing t = Some timing"
    using m(1) neg by (simp add: normalized_timing_def)
  moreover have "int (nat (- m)) = - m" using m(3) by simp
  moreover have "nat (- m) = 0 \<or> (\<exists>i < length timing. nt_pts (timing ! i) = 0)"
    using m(5) by (auto simp: timing_def)
  moreover have "0 \<le> int (raw_dts t k) + composition_offsets t ! k - m" if "k < ?n" for k
    using m(4) that by simp
  ultimately show ?thesis using m(3)
    by (intro exI [of _ "nat (- m)"] exI [of _ timing]) (auto simp: timing_def)
qed

section \<open>Which chunk a sample lies in\<close>

definition s2c_at :: "sample_table \<Rightarrow> nat \<Rightarrow> nat" where
  "s2c_at t number = length (takeWhile (\<lambda>e. first_chunk e \<le> number) (tl (sample_to_chunk t)))"

definition chunk_sample_count :: "sample_table \<Rightarrow> nat \<Rightarrow> nat" where
  "chunk_sample_count t k = samples_per_chunk (sample_to_chunk t ! s2c_at t (k + 1))"

fun chunk_base :: "sample_table \<Rightarrow> nat \<Rightarrow> nat" where
  "chunk_base t 0 = 0"
| "chunk_base t (Suc k) = chunk_base t k + chunk_sample_count t k"

definition raw_size :: "sample_table \<Rightarrow> nat \<Rightarrow> nat" where
  "raw_size t i = sum_list (take i (sample_sizes t))"

lemma raw_size_Suc: "i < length (sample_sizes t) \<Longrightarrow> raw_size t (Suc i) = raw_size t i + sample_sizes t ! i"
  by (simp add: raw_size_def take_Suc_conv_app_nth)

lemma raw_size_le: "raw_size t i \<le> sum_list (sample_sizes t)"
  unfolding raw_size_def by (metis append_take_drop_id le_add1 sum_list_append)

lemma s2c_at_mono:
  assumes "m \<le> m'"
  shows "s2c_at t m \<le> s2c_at t m'"
proof -
  have "length (takeWhile P xs) \<le> length (takeWhile Q xs)" if "\<And>x. P x \<Longrightarrow> Q x"
    for P Q and xs :: "sample_to_chunk list"
    using that by (induction xs) auto
  then show ?thesis using assms unfolding s2c_at_def by (meson order_trans)
qed

lemma advance_spec:
  assumes "sample_to_chunk t \<noteq> []" "index \<le> s2c_at t m"
  shows "advance_sample_to_chunk t index m = s2c_at t m"
  using assms(2)
proof (induction "s2c_at t m - index" arbitrary: index)
  case 0
  then have i: "index = s2c_at t m" by simp
  have "get_at (sample_to_chunk t) (index + 1) = None \<or>
      (\<exists>e. get_at (sample_to_chunk t) (index + 1) = Some e \<and> m < first_chunk e)"
  proof (cases "index < length (tl (sample_to_chunk t))")
    case True
    then have "\<not> first_chunk (tl (sample_to_chunk t) ! index) \<le> m"
      unfolding i s2c_at_def by (rule nth_length_takeWhile)
    then show ?thesis using True by (simp add: nth_tl not_le) linarith
  next
    case False
    then show ?thesis by (simp add: not_less) linarith
  qed
  then show ?case by (subst advance_sample_to_chunk.simps) (auto simp: i split: option.splits)
next
  case (Suc d)
  then have lt: "index < s2c_at t m" by linarith
  then have il: "index < length (tl (sample_to_chunk t))"
    unfolding s2c_at_def using length_takeWhile_le less_le_trans by blast
  have "first_chunk (tl (sample_to_chunk t) ! index) \<le> m"
    using lt unfolding s2c_at_def by (metis nth_mem set_takeWhileD takeWhile_nth)
  then have "first_chunk (sample_to_chunk t ! (index + 1)) \<le> m" using il by (simp add: nth_tl)
  moreover have "advance_sample_to_chunk t (index + 1) m = s2c_at t m"
    using Suc.hyps(2) lt by (intro Suc.hyps(1)) simp_all
  ultimately show ?case using il
    by (subst advance_sample_to_chunk.simps) (auto simp: get_at_def)
qed

lemma chunk_packets_spec:
  assumes "i \<le> length (sample_sizes t)"
    and "co + off + (sum_list (sample_sizes t) - raw_size t i) < 2 ^ 64"
  shows "chunk_packets t scale tm co n i off =
    (map (\<lambda>j. sample_packet t scale tm (co + off + (raw_size t j - raw_size t i)) j)
       [i..<min (i + n) (length (sample_sizes t))], min (i + n) (length (sample_sizes t)))"
  using assms
proof (induction n arbitrary: i off)
  case 0
  then show ?case by simp
next
  case (Suc n)
  let ?N = "length (sample_sizes t)"
  show ?case
  proof (cases "i < ?N")
    case True
    let ?z = "sample_sizes t ! i"
    have r: "raw_size t (Suc i) = raw_size t i + ?z" using raw_size_Suc [OF True] .
    have le: "raw_size t (Suc i) \<le> sum_list (sample_sizes t)" by (rule raw_size_le)
    have sat: "sat_add 64 off ?z = off + ?z" "sat_add 64 co off = co + off"
      using Suc.prems le r by (intro sat_add_exact; linarith)+
    have IH: "chunk_packets t scale tm co n (i + 1) (off + ?z) =
      (map (\<lambda>j. sample_packet t scale tm (co + (off + ?z) + (raw_size t j - raw_size t (i + 1))) j)
         [i + 1..<min (i + 1 + n) ?N], min (i + 1 + n) ?N)"
      using True Suc.prems r le by (intro Suc.IH) auto
    have mono: "raw_size t (Suc i) \<le> raw_size t j" if "Suc i \<le> j" for j
      unfolding raw_size_def using that
      by (metis le_add1 le_Suc_ex sum_list_append take_add)
    have "map (\<lambda>j. sample_packet t scale tm (co + (off + ?z) + (raw_size t j - raw_size t (i + 1))) j)
         [i + 1..<min (i + 1 + n) ?N] =
       map (\<lambda>j. sample_packet t scale tm (co + off + (raw_size t j - raw_size t i)) j)
         [i + 1..<min (i + 1 + n) ?N]"
    proof (rule map_cong [OF refl])
      fix j assume "j \<in> set [i + 1..<min (i + 1 + n) ?N]"
      then have "raw_size t (Suc i) \<le> raw_size t j" by (intro mono) simp
      then have "co + (off + ?z) + (raw_size t j - raw_size t (i + 1)) = co + off + (raw_size t j - raw_size t i)"
        using r by simp
      then show "sample_packet t scale tm (co + (off + ?z) + (raw_size t j - raw_size t (i + 1))) j =
          sample_packet t scale tm (co + off + (raw_size t j - raw_size t i)) j" by (simp only:)
    qed
    moreover have "[i..<min (i + Suc n) ?N] = i # [i + 1..<min (i + 1 + n) ?N]"
      using True by (simp add: upt_rec)
    moreover have g: "get_at (sample_sizes t) i = Some ?z" using True by simp
    ultimately show ?thesis unfolding chunk_packets.simps g option.case sat IH
      by (simp add: sat)
  next
    case False
    then show ?thesis using Suc.prems by (simp add: get_at_def)
  qed
qed

lemma chunk_base_mono: "j \<le> k \<Longrightarrow> chunk_base t j \<le> chunk_base t k"
  by (induction k) (auto simp: le_Suc_eq)

definition chunk_segment :: "sample_table \<Rightarrow> time_scale \<Rightarrow> normalized_sample_timing list \<Rightarrow> nat \<Rightarrow> packet_ref list" where
  "chunk_segment t scale tm k =
     (let N = length (sample_sizes t) in
      map (\<lambda>j. sample_packet t scale tm
            (chunk_offsets t ! k + (raw_size t j - raw_size t (chunk_base t k))) j)
        [min (chunk_base t k) N..<min (chunk_base t (Suc k)) N])"

lemma packets_loop_spec:
  assumes ne: "sample_to_chunk t \<noteq> []" and fits: "\<forall>co \<in> set (chunk_offsets t). co + sum_list (sample_sizes t) < 2 ^ 64"
    and len: "length (chunk_offsets t) < 2 ^ 32"
    and "k + length cs = length (chunk_offsets t)" "cs = drop k (chunk_offsets t)"
    and "chunk_base t k \<le> length (sample_sizes t)" "s2c \<le> s2c_at t (k + 1)"
  shows "packets_loop t scale tm cs k s2c (chunk_base t k) =
    concat (map (chunk_segment t scale tm) [k..<length (chunk_offsets t)])"
  using assms(4-)
proof (induction cs arbitrary: k s2c)
  case Nil
  then show ?case by simp
next
  case (Cons co cs)
  let ?N = "length (sample_sizes t)" and ?K = "length (chunk_offsets t)"
  have k: "k < ?K" using Cons.prems(1) by simp
  have co: "co = chunk_offsets t ! k" "cs = drop (Suc k) (chunk_offsets t)"
    using Cons.prems(2) k by (metis Cons_nth_drop_Suc list.inject)+
  have num: "as_u 32 (k + 1) = k + 1" using k len by simp
  have adv: "advance_sample_to_chunk t s2c (k + 1) = s2c_at t (k + 1)"
    using advance_spec [OF ne] Cons.prems by simp
  have "co + 0 + (sum_list (sample_sizes t) - raw_size t (chunk_base t k)) < 2 ^ 64"
    using fits k co(1) by (metis add.right_neutral diff_le_self le_less_trans nat_add_left_cancel_le nth_mem)
  then have cp: "chunk_packets t scale tm co (chunk_sample_count t k) (chunk_base t k) 0 =
      (chunk_segment t scale tm k, min (chunk_base t (Suc k)) ?N)"
    using chunk_packets_spec [of "chunk_base t k" t co 0 scale tm "chunk_sample_count t k"]
      Cons.prems(3) by (simp add: chunk_segment_def Let_def co(1))
  have unf: "packets_loop t scale tm (co # cs) k s2c (chunk_base t k) =
      chunk_segment t scale tm k @ (if ?N \<le> min (chunk_base t (Suc k)) ?N then []
        else packets_loop t scale tm cs (k + 1) (s2c_at t (k + 1)) (min (chunk_base t (Suc k)) ?N))"
    unfolding packets_loop.simps(2) num adv Let_def chunk_sample_count_def [symmetric] cp by simp
  have seg: "[k..<?K] = k # [Suc k..<?K]" using k by (simp add: upt_rec)
  show ?case
  proof (cases "?N \<le> chunk_base t (Suc k)")
    case True
    have "chunk_segment t scale tm j = []" if "j \<in> set [Suc k..<?K]" for j
    proof -
      have "?N \<le> chunk_base t j"
        using True that chunk_base_mono [of "Suc k" j t] order_trans by auto
      moreover have "?N \<le> chunk_base t (Suc j)" using calculation by simp
      ultimately show ?thesis unfolding chunk_segment_def Let_def by (simp only: min_absorb2) simp
    qed
    then have "concat (map (chunk_segment t scale tm) [Suc k..<?K]) = []" by auto
    with True show ?thesis unfolding unf seg list.map concat.simps by (simp del: chunk_base.simps)
  next
    case False
    have "packets_loop t scale tm cs (Suc k) (s2c_at t (k + 1)) (chunk_base t (Suc k)) =
        concat (map (chunk_segment t scale tm) [Suc k..<?K])"
      using False Cons.prems(1) co(2) s2c_at_mono [of "k + 1" "Suc k + 1" t]
      by (intro Cons.IH) simp_all
    moreover have "min (chunk_base t (Suc k)) ?N = chunk_base t (Suc k)" using False by linarith
    ultimately show ?thesis using False unfolding unf seg list.map concat.simps
      by (simp del: chunk_base.simps)
  qed
qed

lemma concat_segments:
  assumes "mono m"
  shows "length (concat (map (\<lambda>k. map (f k) [m k..<m (Suc k)]) [0..<K])) = m K - m 0 \<and>
    (\<forall>k < K. \<forall>i. m k \<le> i \<and> i < m (Suc k) \<longrightarrow>
      concat (map (\<lambda>k. map (f k) [m k..<m (Suc k)]) [0..<K]) ! (i - m 0) = f k i)"
proof (induction K)
  case (Suc K)
  let ?c = "\<lambda>K. concat (map (\<lambda>k. map (f k) [m k..<m (Suc k)]) [0..<K])"
  have le: "m 0 \<le> m K" "m K \<le> m (Suc K)" using assms by (simp_all add: monoD)
  have IH: "length (?c K) = m K - m 0" using Suc.IH by blast
  have app: "?c (Suc K) = ?c K @ map (f K) [m K..<m (Suc K)]" by simp
  have "?c (Suc K) ! (i - m 0) = f k i" if "k < Suc K" "m k \<le> i" "i < m (Suc k)" for k i
  proof (cases "k < K")
    case True
    then have "m (Suc k) \<le> m K" using assms by (simp add: monoD)
    then have "i - m 0 < length (?c K)"
      using that IH assms monoD [OF assms, of 0 k] by simp
    then show ?thesis unfolding app using Suc.IH True that by (simp add: nth_append)
  next
    case False
    then have "k = K" using that by simp
    then have "\<not> i - m 0 < length (?c K)" "i - m 0 - length (?c K) = i - m K"
      "i - m K < length [m K..<m (Suc K)]"
      using that IH le by auto
    then show ?thesis unfolding app nth_append using \<open>k = K\<close> that by (simp del: upt_Suc)
  qed
  then show ?case using IH le unfolding app by simp
qed simp

section \<open>The chunk plan of a sample table\<close>

record table_plan =
  tp_chunks :: "native_chunk list"
  tp_sample_index :: nat
  tp_start_sample :: nat
  tp_start_ms :: nat
  tp_last_end_ms :: nat
  tp_key :: bool

definition table_emit :: "table_plan \<Rightarrow> native_chunk" where
  "table_emit s =
     \<lparr>nc_index = as_u 32 (length (tp_chunks s)),
      nc_start = time_point_millis (tp_start_ms s),
      nc_duration = time_delta_millis (tp_last_end_ms s - tp_start_ms s),
      nc_packet_range = \<lparr>rng_start = tp_start_sample s, rng_end = as_u 32 (tp_sample_index s)\<rparr>,
      nc_key_aligned = tp_key s\<rparr>"

definition plan_sample :: "sample_table \<Rightarrow> time_scale \<Rightarrow> nat \<Rightarrow> normalized_sample_timing list \<Rightarrow> table_plan \<Rightarrow> table_plan" where
  "plan_sample t scale target_ms timing s =
     (let i = tp_sample_index s;
          packet_start = to_millis scale (nt_pts (timing ! i));
          packet_end = to_millis scale (sat_add 64 (nt_pts (timing ! i)) (nt_duration (timing ! i)));
          is_key = (case get_at (keyframes t) i of None \<Rightarrow> True | Some k \<Rightarrow> k);
          should_cut = (tp_start_sample s < as_u 32 i \<and> is_key \<and>
                        target_ms \<le> packet_start - tp_start_ms s);
          s = (if should_cut
               then s\<lparr>tp_chunks := tp_chunks s @ [table_emit s], tp_start_sample := as_u 32 i,
                      tp_start_ms := packet_start, tp_key := is_key\<rparr>
               else s)
      in s\<lparr>tp_last_end_ms := packet_end, tp_sample_index := i + 1\<rparr>)"

text \<open>The flag of the result is \<open>break 'chunks\<close>.\<close>

fun plan_chunk :: "sample_table \<Rightarrow> time_scale \<Rightarrow> nat \<Rightarrow> normalized_sample_timing list \<Rightarrow> nat \<Rightarrow> table_plan \<Rightarrow> table_plan \<times> bool" where
  "plan_chunk t scale target_ms timing 0 s = (s, False)"
| "plan_chunk t scale target_ms timing (Suc n) s =
     (if length (sample_sizes t) \<le> tp_sample_index s then (s, True)
      else plan_chunk t scale target_ms timing n (plan_sample t scale target_ms timing s))"

fun plan_loop :: "sample_table \<Rightarrow> time_scale \<Rightarrow> nat \<Rightarrow> normalized_sample_timing list \<Rightarrow> nat list \<Rightarrow> nat \<Rightarrow> nat \<Rightarrow> table_plan \<Rightarrow> table_plan" where
  "plan_loop t scale target_ms timing [] chunk_idx s2c_index s = s"
| "plan_loop t scale target_ms timing (_ # cs) chunk_idx s2c_index s =
     (let s2c_index = advance_sample_to_chunk t s2c_index (as_u 32 (chunk_idx + 1));
          n = samples_per_chunk (sample_to_chunk t ! s2c_index)
      in case plan_chunk t scale target_ms timing n s of
           (s, stop) \<Rightarrow> if stop then s
             else plan_loop t scale target_ms timing cs (chunk_idx + 1) s2c_index s)"

definition table_plan_init :: "sample_table \<Rightarrow> table_plan" where
  "table_plan_init t =
     \<lparr>tp_chunks = [], tp_sample_index = 0, tp_start_sample = 0, tp_start_ms = 0, tp_last_end_ms = 0,
      tp_key = (case keyframes t of [] \<Rightarrow> True | k # _ \<Rightarrow> k)\<rparr>"

definition table_chunk_plan :: "sample_table \<Rightarrow> string \<Rightarrow> time_scale \<Rightarrow> nat \<Rightarrow> chunk_plan" where
  "table_chunk_plan t track_id scale target_ms =
     (if sample_sizes t = [] \<or> target_ms = 0 then \<lparr>cp_track_ids = [], cp_chunks = []\<rparr>
      else case normalized_timing t of
        None \<Rightarrow> \<lparr>cp_track_ids = [], cp_chunks = []\<rparr>
      | Some timing \<Rightarrow>
          let s = plan_loop t scale target_ms timing (chunk_offsets t) 0 0 (table_plan_init t)
          in \<lparr>cp_track_ids = [track_id], cp_chunks = tp_chunks s @ [table_emit s]\<rparr>)"

definition chunk_bitrate :: "sample_table \<Rightarrow> native_chunk list \<Rightarrow> nat \<Rightarrow> nat option" where
  "chunk_bitrate t chunks index =
     (let chunk = chunks ! index in
      Option.bind (get_range (sample_sizes t) (rng_start (nc_packet_range chunk)) (rng_end (nc_packet_range chunk)))
       (\<lambda>sizes.
        let n = sum_list sizes;
            duration = (case get_at chunks (index + 1) of
              None \<Rightarrow> td_as_millis (nc_duration chunk)
            | Some nxt \<Rightarrow> tp_as_millis (nc_start nxt) - tp_as_millis (nc_start chunk))
        in if 0 < duration then Some (min (div_ceil (n * 8000) duration) (2 ^ 64 - 1)) else None))"

definition peak_chunk_bitrate :: "sample_table \<Rightarrow> chunk_plan \<Rightarrow> nat option" where
  "peak_chunk_bitrate t plan =
     (let rates = List.map_filter (chunk_bitrate t (cp_chunks plan)) [0..<length (cp_chunks plan)]
      in if rates = [] then None
         else if 0 < Max (set rates) then Some (Max (set rates)) else None)"

subsection \<open>It visits the samples in order\<close>

lemma plan_sample_index [simp]: "tp_sample_index (plan_sample t scale target tm s) = tp_sample_index s + 1"
  by (simp add: plan_sample_def Let_def)

lemma plan_chunk_funpow:
  "tp_sample_index s \<le> length (sample_sizes t) \<Longrightarrow>
   plan_chunk t scale target tm n s =
     (let m = min n (length (sample_sizes t) - tp_sample_index s)
      in ((plan_sample t scale target tm ^^ m) s, m < n))"
proof (induction n arbitrary: s)
  case (Suc n)
  show ?case
  proof (cases "length (sample_sizes t) \<le> tp_sample_index s")
    case False
    then have "length (sample_sizes t) - tp_sample_index s = Suc (length (sample_sizes t) - (tp_sample_index s + 1))"
      by simp
    then show ?thesis using Suc.IH [of "plan_sample t scale target tm s"] False
      by (simp add: Let_def funpow_swap1)
  qed simp
qed simp

lemma plan_funpow_index [simp]:
  "tp_sample_index ((plan_sample t scale target tm ^^ m) s) = tp_sample_index s + m"
  by (induction m) simp_all

lemma plan_loop_funpow:
  assumes ne: "sample_to_chunk t \<noteq> []" and len: "length (chunk_offsets t) < 2 ^ 32"
    and "k + length cs = length (chunk_offsets t)"
    and "tp_sample_index s = chunk_base t k" "chunk_base t k \<le> length (sample_sizes t)" "s2c \<le> s2c_at t (k + 1)"
  shows "plan_loop t scale target tm cs k s2c s =
    (plan_sample t scale target tm ^^
      (min (chunk_base t (length (chunk_offsets t))) (length (sample_sizes t)) - chunk_base t k)) s"
  using assms(3-)
proof (induction cs arbitrary: k s2c s)
  case Nil
  then show ?case by simp
next
  case (Cons c cs)
  let ?N = "length (sample_sizes t)" and ?K = "length (chunk_offsets t)"
  have k: "k < ?K" "as_u 32 (k + 1) = k + 1" using Cons.prems(1) len by simp_all
  have adv: "advance_sample_to_chunk t s2c (k + 1) = s2c_at t (k + 1)"
    using advance_spec [OF ne] Cons.prems by simp
  let ?n = "chunk_sample_count t k"
  let ?m = "min ?n (?N - chunk_base t k)"
  have le: "chunk_base t (Suc k) \<le> chunk_base t ?K" using k(1) by (intro chunk_base_mono) simp
  have unf: "plan_loop t scale target tm (c # cs) k s2c s =
      (if ?m < ?n then (plan_sample t scale target tm ^^ ?m) s
       else plan_loop t scale target tm cs (k + 1) (s2c_at t (k + 1)) ((plan_sample t scale target tm ^^ ?m) s))"
    using plan_chunk_funpow [of s t scale target tm ?n] Cons.prems(2,3)
    unfolding plan_loop.simps(2) k(2) adv Let_def chunk_sample_count_def [symmetric] by simp
  show ?case
  proof (cases "?m < ?n")
    case True
    then have "min (chunk_base t ?K) ?N - chunk_base t k = ?m" using le Cons.prems(3) by simp
    then show ?thesis unfolding unf using True by simp
  next
    case False
    then have m: "?m = ?n" "chunk_base t (Suc k) \<le> ?N" using Cons.prems(3) by auto
    have "plan_loop t scale target tm cs (Suc k) (s2c_at t (k + 1)) ((plan_sample t scale target tm ^^ ?n) s) =
      (plan_sample t scale target tm ^^ (min (chunk_base t ?K) ?N - chunk_base t (Suc k)))
        ((plan_sample t scale target tm ^^ ?n) s)"
      using Cons.prems m s2c_at_mono [of "k + 1" "Suc k + 1" t]
      by (intro Cons.IH) simp_all
    also have "\<dots> = (plan_sample t scale target tm ^^ (min (chunk_base t ?K) ?N - chunk_base t k)) s"
    proof -
      have "min (chunk_base t ?K) ?N - chunk_base t k = (min (chunk_base t ?K) ?N - chunk_base t (Suc k)) + ?n"
        using le m by simp
      then show ?thesis by (simp add: funpow_add)
    qed
    finally show ?thesis unfolding unf using False m(1) by simp
  qed
qed

subsection \<open>It simulates the packet planner\<close>

definition close_chunk :: "native_chunk \<Rightarrow> native_chunk \<Rightarrow> bool" where
  "close_chunk c d \<longleftrightarrow>
     nc_index c = nc_index d \<and> nc_start c = nc_start d \<and> nc_packet_range c = nc_packet_range d \<and>
     nc_key_aligned c = nc_key_aligned d \<and>
     td_units (nc_duration d) \<le> td_units (nc_duration c) \<and>
     td_units (nc_duration c) \<le> td_units (nc_duration d) + 1"

definition plans_agree :: "nat \<Rightarrow> nat \<Rightarrow> table_plan \<Rightarrow> track_chunk_planner \<Rightarrow> bool" where
  "plans_agree target m s p \<longleftrightarrow>
     tp_sample_index s = m \<and> tcp_count p = m \<and> tcp_target_ms p = target \<and>
     tp_start_sample s = tcp_start_idx p \<and> tp_start_sample s < m \<and>
     tp_start_ms s = tcp_chunk_start_ms p \<and> tp_key s = tcp_key_aligned p \<and>
     tcp_last_end_ms p \<le> tp_last_end_ms s \<and> tp_last_end_ms s \<le> tcp_last_end_ms p + 1 \<and>
     list_all2 close_chunk (tp_chunks s) (tcp_chunks p)"

lemma plans_agree_emit:
  assumes "plans_agree target m s p"
  shows "close_chunk (table_emit s) (planner_emit p)"
  using assms list_all2_lengthD [of close_chunk "tp_chunks s" "tcp_chunks p"]
  by (auto simp: plans_agree_def close_chunk_def table_emit_def planner_emit_def
      time_point_millis_def time_delta_millis_def)

lemma millis_sum:
  assumes "valid_scale sc" "(a + b) * 1000 < 2 ^ 64"
  shows "sat_add 64 (to_millis sc a) (to_millis sc b) \<le> to_millis sc (sat_add 64 a b) \<and>
    to_millis sc (sat_add 64 a b) \<le> sat_add 64 (to_millis sc a) (to_millis sc b) + 1"
proof -
  let ?u = "units_per_second sc"
  have u: "0 < ?u" using assms(1) by (simp add: valid_scale_def)
  have b: "a < 2 ^ 64" "b < 2 ^ 64" "a + b < 2 ^ 64" using assms(2) by simp_all
  have c: "to_millis sc x = x * 1000 div ?u" if "x \<le> a + b" for x
  proof -
    have "x * 1000 div ?u \<le> x * 1000" by (rule div_le_dividend)
    also have "\<dots> < 2 ^ 64" using that assms(2) by simp
    finally show ?thesis using to_millis_closed [OF assms(1), of x] that b by (simp add: Let_def)
  qed
  have "(a + b) * 1000 div ?u = a * 1000 div ?u + b * 1000 div ?u + (a * 1000 mod ?u + b * 1000 mod ?u) div ?u"
    unfolding distrib_right by (rule div_add1_eq)
  moreover have "(a * 1000 mod ?u + b * 1000 mod ?u) div ?u \<le> 1"
  proof -
    have "a * 1000 mod ?u < ?u" "b * 1000 mod ?u < ?u" using u by simp_all
    then have "a * 1000 mod ?u + b * 1000 mod ?u < 2 * ?u" by linarith
    then show ?thesis using less_mult_imp_div_less by fastforce
  qed
  moreover have "sat_add 64 a b = a + b" using b by (simp add: sat_add_exact)
  moreover have "(a + b) * 1000 div ?u \<le> (a + b) * 1000" by (rule div_le_dividend)
  then have "(a + b) * 1000 div ?u < 2 ^ 64" using assms(2) by linarith
  ultimately show ?thesis
    using c [of a] c [of b] c [of "a + b"] by (simp add: sat_add_exact)
qed

lemma plans_agree_step:
  assumes a: "plans_agree target m s p" and t: "0 < target" and m: "m < 2 ^ 32"
    and i: "m < length (sample_sizes t)" and k: "length (keyframes t) = length (sample_sizes t)"
    and sc: "valid_scale scale" "(nt_pts (tm ! m) + nt_duration (tm ! m)) * 1000 < 2 ^ 64"
  shows "plans_agree target (Suc m) (plan_sample t scale target tm s)
    (planner_push p (sample_packet t scale tm off m))"
proof -
  let ?q = "sample_packet t scale tm off m"
  have q: "packet_start_ms ?q = to_millis scale (nt_pts (tm ! m))"
    "packet_end_ms ?q = sat_add 64 (to_millis scale (nt_pts (tm ! m))) (to_millis scale (nt_duration (tm ! m)))"
    "pr_keyframe ?q = keyframes t ! m"
    using i k by (simp_all add: packet_start_ms_def packet_end_ms_def sample_packet_def tp_as_millis_def
        td_as_millis_def get_at_def)
  have ends: "packet_end_ms ?q \<le> to_millis scale (sat_add 64 (nt_pts (tm ! m)) (nt_duration (tm ! m)))"
    "to_millis scale (sat_add 64 (nt_pts (tm ! m)) (nt_duration (tm ! m))) \<le> packet_end_ms ?q + 1"
    using millis_sum [OF sc] q(2) by simp_all
  have kf: "(case get_at (keyframes t) m of None \<Rightarrow> True | Some k \<Rightarrow> k) = keyframes t ! m"
    using i k by (simp add: get_at_def)
  have f: "tp_sample_index s = m" "tcp_count p = m" "tcp_target_ms p = target" "0 < m"
    "tp_start_sample s < m" "tp_start_sample s = tcp_start_idx p" "tp_start_ms s = tcp_chunk_start_ms p"
    "tp_key s = tcp_key_aligned p" "list_all2 close_chunk (tp_chunks s) (tcp_chunks p)"
    using a by (auto simp: plans_agree_def)
  have asu: "as_u 32 m = m" using m by simp
  have cut: "(tp_start_sample s < as_u 32 m \<and> keyframes t ! m \<and>
        target \<le> to_millis scale (nt_pts (tm ! m)) - tp_start_ms s) \<longleftrightarrow>
      (0 < m \<and> pr_keyframe ?q \<and> target \<le> packet_start_ms ?q - tcp_chunk_start_ms p)"
    unfolding asu q using f by simp
  show ?thesis
  proof (cases "0 < m \<and> pr_keyframe ?q \<and> target \<le> packet_start_ms ?q - tcp_chunk_start_ms p")
    case True
    have "list_all2 close_chunk (tp_chunks s @ [table_emit s]) (tcp_chunks p @ [planner_emit p])"
      using f plans_agree_emit [OF a] by (intro list_all2_appendI) simp_all
    then show ?thesis
      unfolding plan_sample_def planner_push_def Let_def f(1,2,3) kf cut
      using True ends q(1,3) t f m by (auto simp: plans_agree_def)
  next
    case False
    then show ?thesis
      unfolding plan_sample_def planner_push_def Let_def f(1,2,3) kf cut
      using ends t f by (auto simp: plans_agree_def)
  qed
qed

text \<open>The same packet when presentation runs from 0 ms on: it ends where it did.\<close>

definition from_zero :: "packet_ref \<Rightarrow> packet_ref" where
  "from_zero q = q\<lparr>pr_pts := \<lparr>tp_units = 0, tp_scale = tp_scale (pr_pts q)\<rparr>,
     pr_duration := \<lparr>td_units = sat_add 64 (tp_units (pr_pts q)) (td_units (pr_duration q)), td_scale = td_scale (pr_duration q)\<rparr>\<rparr>"

fun first_from_zero :: "packet_ref list \<Rightarrow> packet_ref list" where
  "first_from_zero [] = []"
| "first_from_zero (q # qs) = from_zero q # qs"

lemma plans_agree_first:
  assumes t: "0 < target" and i: "0 < length (sample_sizes t)"
    and k: "length (keyframes t) = length (sample_sizes t)"
    and q: "packet_start_ms q = 0" "pr_keyframe q = keyframes t ! 0"
    and ends: "packet_end_ms q \<le> to_millis scale (sat_add 64 (nt_pts (tm ! 0)) (nt_duration (tm ! 0)))"
    "to_millis scale (sat_add 64 (nt_pts (tm ! 0)) (nt_duration (tm ! 0))) \<le> packet_end_ms q + 1"
  shows "plans_agree target 1 (plan_sample t scale target tm (table_plan_init t)) (planner_push (planner_new target) q)"
proof -
  obtain b bs where b: "keyframes t = b # bs" using i k by (cases "keyframes t") auto
  have s: "plan_sample t scale target tm (table_plan_init t) =
      \<lparr>tp_chunks = [], tp_sample_index = 1, tp_start_sample = 0, tp_start_ms = 0,
       tp_last_end_ms = to_millis scale (sat_add 64 (nt_pts (tm ! 0)) (nt_duration (tm ! 0))), tp_key = b\<rparr>"
    by (simp add: plan_sample_def table_plan_init_def Let_def b as_u_def)
  have p: "planner_push (planner_new target) q =
      \<lparr>tcp_target_ms = target, tcp_chunks = [], tcp_count = 1, tcp_start_idx = 0,
       tcp_chunk_start_ms = 0, tcp_last_end_ms = packet_end_ms q, tcp_key_aligned = b\<rparr>"
    using t by (simp add: planner_push_def planner_new_def Let_def q b)
  show ?thesis unfolding s p using ends by (simp add: plans_agree_def)
qed

lemma sample_starts_plan:
  assumes "0 < target" "0 < length (sample_sizes t)" "length (keyframes t) = length (sample_sizes t)"
    and sc: "valid_scale scale" "(nt_pts (tm ! 0) + nt_duration (tm ! 0)) * 1000 < 2 ^ 64"
    and q: "q = from_zero (sample_packet t scale tm off 0) \<or>
      to_millis scale (nt_pts (tm ! 0)) = 0 \<and> q = sample_packet t scale tm off 0"
  shows "plans_agree target 1 (plan_sample t scale target tm (table_plan_init t)) (planner_push (planner_new target) q)"
proof (rule plans_agree_first [OF assms(1-3)])
  have small: "sat_add 64 (to_millis scale a) b = to_millis scale a + b" if "to_millis scale a = 0" "b < 2 ^ 64" for a b
    using that by (simp add: sat_add_exact)
  have zero: "to_millis scale 0 = 0" using to_millis_closed [OF sc(1), of 0] by simp
  have lt: "to_millis scale x < 2 ^ 64" if "x < 2 ^ 64" for x using to_millis_closed [OF sc(1) that] by (simp add: Let_def)
  have exact: "sat_add 64 0 (to_millis scale (sat_add 64 a b)) = to_millis scale (sat_add 64 a b)" for a b
    using lt [OF sat_add_bound] by (simp add: sat_add_exact)
  show "packet_start_ms q = 0" "pr_keyframe q = keyframes t ! 0"
    using q zero assms(2,3) by (auto simp: packet_start_ms_def sample_packet_def from_zero_def tp_as_millis_def get_at_def)
  show "packet_end_ms q \<le> to_millis scale (sat_add 64 (nt_pts (tm ! 0)) (nt_duration (tm ! 0)))"
    "to_millis scale (sat_add 64 (nt_pts (tm ! 0)) (nt_duration (tm ! 0))) \<le> packet_end_ms q + 1"
    using q zero exact millis_sum [OF sc]
    by (auto simp: packet_end_ms_def packet_start_ms_def sample_packet_def from_zero_def tp_as_millis_def td_as_millis_def)
qed

lemma plans_agree_fold:
  assumes t: "0 < target" and k: "length (keyframes t) = length (sample_sizes t)"
    and sc: "valid_scale scale" "\<forall>i < length (sample_sizes t). (nt_pts (tm ! i) + nt_duration (tm ! i)) * 1000 < 2 ^ 64"
    and n: "0 < n" "n \<le> length (sample_sizes t)" "n < 2 ^ 32"
    and ps: "length ps = n" "\<forall>i < n. 0 < i \<longrightarrow> (\<exists>off. ps ! i = sample_packet t scale tm off i)"
    and first: "plans_agree target 1 (plan_sample t scale target tm (table_plan_init t)) (planner_push (planner_new target) (ps ! 0))"
  shows "plans_agree target n ((plan_sample t scale target tm ^^ n) (table_plan_init t))
    (foldl planner_push (planner_new target) ps)"
  using n ps first
proof (induction n arbitrary: ps)
  case (Suc n)
  obtain qs q where ps: "ps = qs @ [q]" using Suc.prems by (cases ps rule: rev_cases) auto
  show ?case
  proof (cases "n = 0")
    case True
    then show ?thesis using ps Suc.prems(4,6) by simp
  next
    case False
    obtain off where q: "q = sample_packet t scale tm off n"
      using Suc.prems(4,5) ps False by (auto simp: nth_append dest!: spec [of _ n])
    have "plans_agree target n ((plan_sample t scale target tm ^^ n) (table_plan_init t))
        (foldl planner_push (planner_new target) qs)"
    proof (rule Suc.IH)
      show "\<forall>i < n. 0 < i \<longrightarrow> (\<exists>off. qs ! i = sample_packet t scale tm off i)"
      proof (intro allI impI)
        fix i assume "i < n" "0 < i"
        then show "\<exists>off. qs ! i = sample_packet t scale tm off i"
          using Suc.prems(4) spec [OF Suc.prems(5), of i] ps by (auto simp: nth_append)
      qed
    qed (use False Suc.prems ps in \<open>auto simp: nth_append\<close>)
    then show ?thesis
      using plans_agree_step [of target n _ _ t scale tm off] t k sc Suc.prems ps q by simp
  qed
qed simp

lemma planner_push_start:
  "0 < tcp_count p \<Longrightarrow> nc_start (hd (tcp_chunks (planner_push p q) @ [planner_emit (planner_push p q)])) =
    nc_start (hd (tcp_chunks p @ [planner_emit p])) \<and> (0 < tcp_target_ms p \<longrightarrow> 0 < tcp_count (planner_push p q)) \<and>
    tcp_target_ms (planner_push p q) = tcp_target_ms p"
  by (cases "tcp_chunks p") (simp_all add: planner_push_def planner_emit_def Let_def)

lemma plan_starts_with_packet:
  assumes "0 < target"
  shows "cp_chunks (plan_track_chunks tid (q # qs) target) \<noteq> [] \<and>
    nc_start (hd (cp_chunks (plan_track_chunks tid (q # qs) target))) = time_point_millis (packet_start_ms q)"
proof -
  let ?start = "\<lambda>p. nc_start (hd (tcp_chunks p @ [planner_emit p]))"
  have fold: "0 < tcp_count p \<Longrightarrow> 0 < tcp_target_ms p \<Longrightarrow> 0 < tcp_count (foldl planner_push p qs) \<and> ?start (foldl planner_push p qs) = ?start p" for p
  proof (induction qs arbitrary: p)
    case (Cons r qs)
    then show ?case using planner_push_start [of p r] by simp
  qed simp
  have "tcp_count (planner_push (planner_new target) q) = 1" "tcp_target_ms (planner_push (planner_new target) q) = target"
      "?start (planner_push (planner_new target) q) = time_point_millis (packet_start_ms q)"
    using assms by (simp_all add: planner_push_def planner_new_def planner_emit_def Let_def)
  then show ?thesis
    using fold [of "planner_push (planner_new target) q"] assms by (simp add: plan_track_chunks_def planner_finish_def)
qed

section \<open>Properties\<close>

lemma into_packets_segments:
  assumes wf: "wf_table limits t" and tm: "normalized_timing t = Some timing"
    and len: "length (chunk_offsets t) < 2 ^ 32"
    and fits: "\<forall>co \<in> set (chunk_offsets t). co + sum_list (sample_sizes t) < 2 ^ 64"
  shows "length (into_packets t scale) = min (chunk_base t (length (chunk_offsets t))) (length (sample_sizes t)) \<and>
    (\<forall>k < length (chunk_offsets t). \<forall>i. chunk_base t k \<le> i \<and>
        i < min (chunk_base t (Suc k)) (length (sample_sizes t)) \<longrightarrow>
      into_packets t scale ! i = sample_packet t scale timing
        (chunk_offsets t ! k + (raw_size t i - raw_size t (chunk_base t k))) i)"
proof -
  let ?n = "length (sample_sizes t)" and ?K = "length (chunk_offsets t)"
  define m where "m k = min (chunk_base t k) ?n" for k
  define f where "f k j = sample_packet t scale timing
      (chunk_offsets t ! k + (raw_size t j - raw_size t (chunk_base t k))) j" for k j
  have mono: "mono m" unfolding m_def by (intro monoI min.mono chunk_base_mono) simp_all
  have ne: "sample_to_chunk t \<noteq> []" using wf by (simp add: wf_table_def Let_def)
  have ps: "into_packets t scale = concat (map (\<lambda>k. map (f k) [m k..<m (Suc k)]) [0..<?K])"
    using packets_loop_spec [OF ne fits len, of 0 "chunk_offsets t" 0 scale timing] tm
    by (simp add: into_packets_def chunk_segment_def [abs_def] Let_def f_def [abs_def] m_def
        del: chunk_base.simps(2))
  note seg = concat_segments [OF mono, of f ?K, folded ps]
  have m0: "m 0 = 0" by (simp add: m_def)
  have "into_packets t scale ! i = f k i"
    if "k < ?K" "chunk_base t k \<le> i" "i < min (chunk_base t (Suc k)) ?n" for k i
    using seg that unfolding m0 by (auto simp: m_def simp del: chunk_base.simps)
  moreover have "length (into_packets t scale) = min (chunk_base t ?K) ?n"
    using seg unfolding m0 by (simp add: m_def del: chunk_base.simps)
  ultimately show ?thesis by (simp add: f_def del: chunk_base.simps)
qed

lemma chunk_of_sample:
  "i < chunk_base t K \<Longrightarrow> \<exists>k < K. chunk_base t k \<le> i \<and> i < chunk_base t (Suc k)"
proof (induction K)
  case (Suc K)
  then show ?case by (cases "i < chunk_base t K") (auto simp: less_Suc_eq not_less)
qed simp

lemma table_packets_located_aux:
  assumes wf: "wf_table limits t" and tm: "normalized_timing t = Some timing"
    and len: "length (chunk_offsets t) < 2 ^ 32"
    and fits: "\<forall>co \<in> set (chunk_offsets t). co + sum_list (sample_sizes t) < 2 ^ 64"
  shows "length (into_packets t scale) = min (chunk_base t (length (chunk_offsets t))) (length (sample_sizes t)) \<and>
    (\<forall>i < length (into_packets t scale). \<exists>off. into_packets t scale ! i = sample_packet t scale timing off i)"
proof -
  note seg = into_packets_segments [OF assms, of scale]
  have "\<exists>off. into_packets t scale ! i = sample_packet t scale timing off i"
    if i: "i < min (chunk_base t (length (chunk_offsets t))) (length (sample_sizes t))" for i
  proof -
    obtain k where "k < length (chunk_offsets t)" "chunk_base t k \<le> i" "i < chunk_base t (Suc k)"
      using chunk_of_sample [of i t "length (chunk_offsets t)"] i by auto
    then show ?thesis using seg i by (auto simp del: chunk_base.simps)
  qed
  with seg show ?thesis by simp
qed

text \<open>C36: A parsed sample table is consistent: sizes, durations, composition offsets and
  keyframe flags all have one entry per sample, within the sample ceiling, and the
  sample-to-chunk table is not empty (so indexing it never panics).\<close>

theorem parsed_sample_table_consistent:
  assumes "parse_sample_table_with_limits stbl limits = Some t"
  shows "length (sample_sizes t) \<le> max_samples_per_track limits \<and>
    length (sample_durations t) = length (sample_sizes t) \<and>
    length (composition_offsets t) = length (sample_sizes t) \<and>
    length (keyframes t) = length (sample_sizes t) \<and> sample_to_chunk t \<noteq> []"
  using assms by (rule parse_sample_table_Some) (simp add: wf_table_def Let_def)

text \<open>The totals used for bit rates agree with the tables read for playback: whenever
  the size and duration tables of a sample table are accepted, the separate totals readers
  return the number of samples, the sum of the sizes and the sum of the durations, or fail
  exactly on a zero duration or a sum that exceeds \<open>u64\<close>.\<close>

theorem sample_totals_agree_with_tables:
  assumes "parse_stsz stsz limits = Some sizes" "parse_stts stts n limits = Some durations"
  shows "parse_stsz_totals stsz limits =
      (if sum_list sizes < 2 ^ 64 then Some (length sizes, sum_list sizes) else None) \<and>
    parse_stts_total_duration stts limits =
      (if 0 < sum_list durations \<and> sum_list durations < 2 ^ 64 then Some (sum_list durations) else None)"
proof (rule conjI)
  show "parse_stsz_totals stsz limits =
      (if sum_list sizes < 2 ^ 64 then Some (length sizes, sum_list sizes) else None)"
    using assms(1)
  proof (cases rule: parse_stsz_cases)
    case (fixed v m)
    then show ?thesis
      by (auto simp: parse_stsz_totals_def sum_list_replicate mult.commute checked_mul_def)
  next
    case (table m)
    have "m \<le> (length stsz - 12) div 4" using table(2) by simp
    then show ?thesis using table
      by (auto simp: parse_stsz_totals_def checked_payload_entries_def stsz_total_loop_fields Let_def)
  qed
  obtain k where k: "8 \<le> length stts" "checked_table_entry_count stts 8 8 limits = Some k"
    "durations = expand (rows stts 8 k 8)"
    using assms(2) by (auto simp: parse_stts_expand)
  define d where "d = sum_list durations"
  have "stts_total_loop stts k 8 0 = (if 0 < d \<and> (k = 0 \<or> d < 2 ^ 64) then Some d else None)"
    unfolding d_def k(3)
    by (subst stts_total_loop_rows) (use entry_count_Some [OF k(2)] in \<open>simp, simp only: Let_def add_0\<close>)
  moreover have "k = 0 \<Longrightarrow> d = 0" by (simp add: d_def k(3))
  ultimately show "parse_stts_total_duration stts limits =
      (if 0 < sum_list durations \<and> sum_list durations < 2 ^ 64 then Some (sum_list durations) else None)"
    unfolding d_def [symmetric] using k(1,2) by (auto simp: parse_stts_total_duration_def)
qed

text \<open>Timing normalization of a consistent table always succeeds. All times are shifted
  by the same amount, the least one that makes none negative: decode times advance by the
  sample durations from the shift, and each presentation time is its decode time plus the
  sample's composition offset.\<close>

theorem normalized_timing_exact:
  assumes "wf_table limits t"
  shows "\<exists>shift timing. normalized_timing t = Some timing \<and>
    length timing = length (sample_sizes t) \<and>
    (\<forall>i < length timing.
       nt_dts (timing ! i) = shift + sum_list (take i (sample_durations t)) \<and>
       int (nt_pts (timing ! i)) = int (nt_dts (timing ! i)) + composition_offsets t ! i \<and>
       nt_duration (timing ! i) = sample_durations t ! i) \<and>
    (shift = 0 \<or> (\<exists>i < length timing. nt_pts (timing ! i) = 0))"
proof -
  obtain shift timing where n: "normalized_timing t = Some timing"
    "length timing = length (sample_sizes t)" "shift = 0 \<or> (\<exists>i < length timing. nt_pts (timing ! i) = 0)"
    "\<forall>i < length timing. int (nt_dts (timing ! i)) = int (raw_dts t i) + int shift \<and>
       int (nt_pts (timing ! i)) = int (raw_dts t i) + composition_offsets t ! i + int shift \<and>
       nt_duration (timing ! i) = sample_durations t ! i"
    using normalized_timing_spec [OF assms] by blast
  then show ?thesis
    by (intro exI [of _ shift] exI [of _ timing]) (auto simp: raw_dts_def)
qed

text \<open>C6: The packet index of a sample table lists the samples in order, as many as the
  chunks hold; a sample of chunk \<open>k\<close> lies at the chunk's offset plus the sizes of the
  samples before it in that chunk, and carries the sample's size, timing and keyframe flag.\<close>

theorem table_packets_located:
  assumes wf: "wf_table limits t" and tm: "normalized_timing t = Some timing"
    and len: "length (chunk_offsets t) < 2 ^ 32"
    and fits: "\<forall>co \<in> set (chunk_offsets t). co + sum_list (sample_sizes t) < 2 ^ 64"
  shows "let ps = into_packets t scale; n = length (sample_sizes t); K = length (chunk_offsets t) in
    length ps = min (chunk_base t K) n \<and>
    (\<forall>k < K. \<forall>i. chunk_base t k \<le> i \<and> i < min (chunk_base t (k + 1)) n \<longrightarrow>
      pr_source_offset (ps ! i) = chunk_offsets t ! k + sum_list (slice (sample_sizes t) (chunk_base t k) i) \<and>
      pr_size (ps ! i) = sample_sizes t ! i \<and> tp_units (pr_pts (ps ! i)) = nt_pts (timing ! i) \<and>
      tp_units (pr_dts (ps ! i)) = nt_dts (timing ! i) \<and>
      td_units (pr_duration (ps ! i)) = nt_duration (timing ! i) \<and>
      pr_keyframe (ps ! i) = keyframes t ! i)"
proof -
  let ?n = "length (sample_sizes t)" and ?K = "length (chunk_offsets t)"
  note seg = into_packets_segments [OF wf tm len fits, of scale]
  have key: "pr_keyframe (sample_packet t scale timing off i) = keyframes t ! i" if "i < ?n" for off i
    using that wf_lengths [OF wf] by (simp add: sample_packet_def get_at_def)
  have off: "raw_size t i - raw_size t a = sum_list (slice (sample_sizes t) a i)" if "a \<le> i" for a i
  proof -
    have "take i (sample_sizes t) = take a (sample_sizes t) @ slice (sample_sizes t) a i"
      using that by (metis le_add_diff_inverse slice_def take_add)
    then show ?thesis by (simp add: raw_size_def)
  qed
  show ?thesis using seg key off
    by (simp add: Let_def del: chunk_base.simps) (simp add: sample_packet_def)
qed

text \<open>C7: The chunk plan computed directly from a sample table, without building packets, is the packet
  planner's plan for the table's packets with the first one drawn out to start at 0 ms: same chunks, packet
  ranges, starts and keyframe flags, and durations that differ by at most the one millisecond that rounding
  start and length separately loses. So it agrees with the plan for the packets as they are exactly for the
  tracks whose first sample is presented at 0 ms.\<close>

theorem table_plan_agrees_with_packet_plan:
  assumes wf: "wf_table limits t" and tm: "normalized_timing t = Some timing"
    and len: "length (chunk_offsets t) < 2 ^ 32"
    and fits: "\<forall>co \<in> set (chunk_offsets t). co + sum_list (sample_sizes t) < 2 ^ 64"
    and scale: "valid_scale scale" and target: "0 < target"
    and times: "\<forall>i < length (sample_sizes t). (nt_pts (timing ! i) + nt_duration (timing ! i)) * 1000 < 2 ^ 64"
    and some: "into_packets t scale \<noteq> []"
  shows "list_all2 close_chunk (cp_chunks (table_chunk_plan t tid scale target))
      (cp_chunks (plan_track_chunks tid (first_from_zero (into_packets t scale)) target)) \<and>
    (list_all2 close_chunk (cp_chunks (table_chunk_plan t tid scale target))
        (cp_chunks (plan_track_chunks tid (into_packets t scale) target)) \<longleftrightarrow> to_millis scale (nt_pts (timing ! 0)) = 0)"
proof -
  let ?ps = "into_packets t scale" and ?N = "length (sample_sizes t)"
  let ?K = "length (chunk_offsets t)"
  define n where "n = min (chunk_base t ?K) ?N"
  have ne: "sample_to_chunk t \<noteq> []" and kf: "length (keyframes t) = ?N" "?N < 2 ^ 32"
    using wf by (simp_all add: wf_table_def Let_def)
  have l: "length ?ps = n"
    using table_packets_located_aux [OF wf tm len fits] by (simp add: n_def)
  have n: "0 < n" "n \<le> ?N" "n < 2 ^ 32"
    using l some kf(2) by (metis length_greater_0_conv) (use kf(2) in \<open>simp_all add: n_def\<close>)
  have ps: "\<forall>i < n. \<exists>off. ?ps ! i = sample_packet t scale timing off i"
    using table_packets_located_aux [OF wf tm len fits] l by simp
  have head: "(nt_pts (timing ! 0) + nt_duration (timing ! 0)) * 1000 < 2 ^ 64" using times n by force
  obtain q qs off where q: "?ps = q # qs" "q = sample_packet t scale timing off 0"
    using some ps n(1) by (cases ?ps) (auto dest!: spec [of _ 0])
  let ?s = "(plan_sample t scale target timing ^^ n) (table_plan_init t)"
  have "plan_loop t scale target timing (chunk_offsets t) 0 0 (table_plan_init t) = ?s"
    using plan_loop_funpow [OF ne len, of 0 "chunk_offsets t" "table_plan_init t" 0 scale target timing]
    by (simp add: n_def table_plan_init_def)
  then have table: "cp_chunks (table_chunk_plan t tid scale target) = tp_chunks ?s @ [table_emit ?s]"
    using n target tm by (auto simp: table_chunk_plan_def Let_def)
  have agree: "list_all2 close_chunk (cp_chunks (table_chunk_plan t tid scale target)) (cp_chunks (plan_track_chunks tid (r # qs) target))"
    if r: "r = from_zero q \<or> to_millis scale (nt_pts (timing ! 0)) = 0 \<and> r = q" for r
  proof -
    let ?p = "foldl planner_push (planner_new target) (r # qs)"
    have first: "plans_agree target 1 (plan_sample t scale target timing (table_plan_init t)) (planner_push (planner_new target) r)"
      using r q(2) n head by (intro sample_starts_plan [OF target _ kf(1) scale, of _ r off]) auto
    have "plans_agree target n ?s ?p"
    proof (rule plans_agree_fold [OF target kf(1) scale times n])
      show "\<forall>i < n. 0 < i \<longrightarrow> (\<exists>off. (r # qs) ! i = sample_packet t scale timing off i)"
        using ps q(1) by (metis nth_Cons_pos)
    qed (use l q(1) first in simp_all)
    moreover have "cp_chunks (plan_track_chunks tid (r # qs) target) = tcp_chunks ?p @ [planner_emit ?p]"
      using calculation target n by (simp add: plan_track_chunks_def planner_finish_def plans_agree_def)
    ultimately show ?thesis
      using plans_agree_emit [of target n ?s ?p] by (simp add: table plans_agree_def list_all2_appendI)
  qed
  have "to_millis scale (nt_pts (timing ! 0)) = 0"
    if "list_all2 close_chunk (cp_chunks (table_chunk_plan t tid scale target)) (cp_chunks (plan_track_chunks tid (q # qs) target))"
  proof -
    have start: "nc_start (hd xs) = nc_start (hd ys)" if "list_all2 close_chunk xs ys" "ys \<noteq> []" for xs ys
      using that by (cases xs; cases ys) (auto simp: close_chunk_def)
    have "packet_start_ms q = packet_start_ms (from_zero q)"
      using start [OF that] start [OF agree [of "from_zero q"]] plan_starts_with_packet [OF target, of tid _ qs]
      by (simp add: time_point_millis_def)
    then show ?thesis
      using to_millis_closed [OF scale, of 0] by (simp add: packet_start_ms_def from_zero_def tp_as_millis_def sample_packet_def q(2))
  qed
  then show ?thesis using agree [of "from_zero q"] agree [of q] q(1) by auto
qed

definition demo_table :: sample_table where
  "demo_table =
     \<lparr>sample_sizes = [10, 20, 30], sample_durations = [40, 40, 40], composition_offsets = [0, 80, - 40],
      keyframes = [True, False, True], chunk_offsets = [100, 200],
      sample_to_chunk = [\<lparr>first_chunk = 1, samples_per_chunk = 2\<rparr>]\<rparr>"

definition demo_timing :: "normalized_sample_timing list" where
  "demo_timing =
     [\<lparr>nt_pts = 0, nt_dts = 0, nt_duration = 40\<rparr>, \<lparr>nt_pts = 120, nt_dts = 40, nt_duration = 40\<rparr>,
      \<lparr>nt_pts = 40, nt_dts = 80, nt_duration = 40\<rparr>]"

lemma demo_wf: "wf_table limits_default demo_table"
  by (simp add: wf_table_def demo_table_def limits_default_def ctts_range_def Let_def)

lemma demo_normalized: "normalized_timing demo_table = Some demo_timing"
  by (simp add: normalized_timing_def demo_table_def demo_timing_def checked_add_i128_def i128_range_def
      u64_try_from_def get_at_def numeral_3_eq_3 Let_def)

lemma demo_chunks [simp]: "s2c_at demo_table k = 0" "chunk_base demo_table (Suc (Suc 0)) = 4"
  "chunk_base demo_table (Suc 0) = 2"
  by (simp_all add: s2c_at_def demo_table_def chunk_sample_count_def)

lemma demo_stbl:
  "atoms (concat (map enc_atom as)) = as \<Longrightarrow>
    find_atom (concat (map enc_atom as)) k = map_option at_payload (find (\<lambda>a. at_kind a = k) as)"
  by (simp add: find_atom_def)

definition demo_boxes :: "atom list" where
  "demo_boxes =
     [\<lparr>at_kind = ascii ''stsz'', at_payload = [0, 0, 0, 0, 0, 0, 0, 9, 0, 0, 0, 2]\<rparr>,
      \<lparr>at_kind = ascii ''stts'', at_payload = [0, 0, 0, 0, 0, 0, 0, 1, 0, 0, 0, 2, 0, 0, 0, 40]\<rparr>,
      \<lparr>at_kind = ascii ''stco'', at_payload = [0, 0, 0, 0, 0, 0, 0, 1, 0, 0, 0, 48]\<rparr>,
      \<lparr>at_kind = ascii ''stsc'', at_payload = [0, 0, 0, 0, 0, 0, 0, 1, 0, 0, 0, 1, 0, 0, 0, 2, 0, 0, 0, 1]\<rparr>]"

lemma demo_atoms: "atoms (concat (map enc_atom demo_boxes)) = demo_boxes"
  unfolding atoms_def by (rule atom_codec.collect_enc) (auto simp: demo_boxes_def wf_atom_def enc_atom_def)

lemmas read_simps = read_u32_def slice_def be_nat_def get_range_def checked_payload_entries_def
  checked_mul_def limits_default_def checked_table_entry_count_def

lemma demo_stsz: "parse_stsz [0, 0, 0, 0, 0, 0, 0, 9, 0, 0, 0, 2] limits_default = Some [9, 9]"
  by (simp add: parse_stsz_def read_simps) (simp add: numeral_2_eq_2)

lemma demo_stts:
  "parse_stts [0, 0, 0, 0, 0, 0, 0, 1, 0, 0, 0, 2, 0, 0, 0, 40] 2 limits_default = Some [40, 40]"
  by (simp add: parse_stts_def read_simps checked_sub_def) (simp add: numeral_2_eq_2)

lemma demo_parse:
  "\<exists>t. parse_sample_table_with_limits (concat (map enc_atom demo_boxes)) limits_default = Some t"
proof -
  have k: "ascii ''stsz'' \<noteq> ascii ''stts''" "ascii ''stsz'' \<noteq> ascii ''stco''" "ascii ''stsz'' \<noteq> ascii ''stsc''"
    "ascii ''stts'' \<noteq> ascii ''stco''" "ascii ''stts'' \<noteq> ascii ''stsc''" "ascii ''stco'' \<noteq> ascii ''stsc''"
    "ascii ''stsz'' \<noteq> ascii ''ctts''" "ascii ''stts'' \<noteq> ascii ''ctts''" "ascii ''stco'' \<noteq> ascii ''ctts''"
    "ascii ''stsc'' \<noteq> ascii ''ctts''" "ascii ''stsz'' \<noteq> ascii ''stss''" "ascii ''stts'' \<noteq> ascii ''stss''"
    "ascii ''stco'' \<noteq> ascii ''stss''" "ascii ''stsc'' \<noteq> ascii ''stss''"
    by (simp_all add: ascii_def)
  have "parse_stco [0, 0, 0, 0, 0, 0, 0, 1, 0, 0, 0, 48] limits_default = Some [48]"
    by (simp add: parse_stco_def read_simps)
  moreover have "parse_stsc [0, 0, 0, 0, 0, 0, 0, 1, 0, 0, 0, 1, 0, 0, 0, 2, 0, 0, 0, 1] limits_default
      = Some [\<lparr>first_chunk = 1, samples_per_chunk = 2\<rparr>]"
    by (simp add: parse_stsc_def read_simps)
  ultimately show ?thesis
    unfolding parse_sample_table_with_limits_def demo_stbl [OF demo_atoms]
    by (simp add: demo_boxes_def k k [symmetric] demo_stsz demo_stts numeral_2_eq_2 [symmetric])
qed

theorem parsed_sample_table_consistent_witness:
  "\<exists>t. parse_sample_table_with_limits (concat (map enc_atom demo_boxes)) limits_default = Some t \<and>
    sample_to_chunk t \<noteq> []"
  using demo_parse parsed_sample_table_consistent by blast

theorem sample_totals_agree_with_tables_witness:
  "parse_stsz_totals [0, 0, 0, 0, 0, 0, 0, 9, 0, 0, 0, 2] limits_default = Some (2, 18) \<and>
   parse_stts_total_duration [0, 0, 0, 0, 0, 0, 0, 1, 0, 0, 0, 2, 0, 0, 0, 40] limits_default = Some 80"
  using sample_totals_agree_with_tables [OF demo_stsz demo_stts] by simp

theorem normalized_timing_exact_witness:
  "length demo_timing = 3 \<and> nt_dts (demo_timing ! 2) = 80"
  using normalized_timing_exact [OF demo_wf] by (auto simp: demo_normalized demo_table_def demo_timing_def)

lemma demo_fits:
  "length (chunk_offsets demo_table) < 2 ^ 32"
  "\<forall>co \<in> set (chunk_offsets demo_table). co + sum_list (sample_sizes demo_table) < 2 ^ 64"
  by (simp_all add: demo_table_def)

lemma demo_lengths [simp]: "length (sample_sizes demo_table) = 3" "length (chunk_offsets demo_table) = 2"
  by (simp_all add: demo_table_def)

theorem table_packets_located_witness:
  "length (into_packets demo_table MILLIS) = 3 \<and>
   pr_source_offset (into_packets demo_table MILLIS ! 1) = 110 \<and>
   pr_source_offset (into_packets demo_table MILLIS ! 2) = 200"
proof -
  note loc = table_packets_located [OF demo_wf demo_normalized demo_fits, of MILLIS, unfolded Let_def]
  note at = loc [THEN conjunct2, rule_format]
  have b: "chunk_base demo_table 2 = 4" "chunk_base demo_table 1 = 2"
    using demo_chunks by (simp_all only: numeral_2_eq_2 One_nat_def)
  have o: "slice (sample_sizes demo_table) 0 1 = [10]" "slice (sample_sizes demo_table) 2 2 = []"
    "chunk_offsets demo_table ! 0 = 100" "chunk_offsets demo_table ! 1 = 200"
    by (simp_all add: demo_table_def slice_def)
  have "length (into_packets demo_table MILLIS) = 3" using loc b by simp
  moreover have "pr_source_offset (into_packets demo_table MILLIS ! 1) = 110"
    using at [of 0 1] b o by (simp del: chunk_base.simps(2))
  moreover have "pr_source_offset (into_packets demo_table MILLIS ! 2) = 200"
    using at [of 1 2] b o by (simp del: chunk_base.simps(2))
  ultimately show ?thesis by blast
qed

theorem table_plan_agrees_with_packet_plan_witness:
  "list_all2 close_chunk (cp_chunks (table_chunk_plan demo_table ''v0'' MILLIS 20))
      (cp_chunks (plan_track_chunks ''v0'' (first_from_zero (into_packets demo_table MILLIS)) 20)) \<and>
    (list_all2 close_chunk (cp_chunks (table_chunk_plan demo_table ''v0'' MILLIS 20))
      (cp_chunks (plan_track_chunks ''v0'' (into_packets demo_table MILLIS) 20)) \<longleftrightarrow> to_millis MILLIS (nt_pts (demo_timing ! 0)) = 0)"
proof (rule table_plan_agrees_with_packet_plan [OF demo_wf demo_normalized demo_fits])
  have "length (into_packets demo_table MILLIS) = 3"
    using table_packets_located_aux [OF demo_wf demo_normalized demo_fits, of MILLIS] demo_chunks(2)
    by (simp only: demo_lengths numeral_2_eq_2)
  then show "into_packets demo_table MILLIS \<noteq> []" by auto
  show "\<forall>i < length (sample_sizes demo_table).
      (nt_pts (demo_timing ! i) + nt_duration (demo_timing ! i)) * 1000 < 2 ^ 64"
    by (auto simp: demo_timing_def numeral_3_eq_3 less_Suc_eq)
qed simp_all

end
