(* ===== verification/Fmp4Boxes.thy ===== *)
theory Fmp4Boxes
  imports Mp4Tables
begin

text \<open>
  The box writers of \<open>fmp4/mod.rs\<close> and the init segment they write (lines 96 to 139 and 498 to
  954). A writer of the source mutates the output vector and, for \<open>traf\<close>, the captured list of
  patch positions; here it is a function on the pair of both. A contract says that a writer only
  appends, which turns the in-place size fields of \<open>write_box\<close> into plain concatenation; the
  init segment is then read back with the MP4 readers of the engine.
\<close>

section \<open>Writers\<close>

type_synonym 's writer = "bytes \<times> 's \<Rightarrow> bytes \<times> 's"

definition put :: "bytes \<Rightarrow> 's writer" where
  "put bs = (\<lambda>(out, s). (out @ bs, s))"

definition seq :: "'s writer list \<Rightarrow> 's writer" where
  "seq ws = fold (\<lambda>w st. w st) ws"

definition patch :: "bytes \<Rightarrow> nat \<Rightarrow> bytes \<Rightarrow> bytes" where
  "patch out i bs = take i out @ bs @ drop (i + length bs) out"

definition write_box :: "bytes \<Rightarrow> 's writer \<Rightarrow> 's writer" where
  "write_box name write_payload = (\<lambda>(out, s).
     let start = length out;
         (out, s) = write_payload (out @ be_u32 0 @ name, s);
         sz = (if length out - start < 2 ^ 32 then length out - start else 2 ^ 32 - 1)
     in (patch out start (be_u32 sz), s))"

definition write_full_box :: "bytes \<Rightarrow> nat \<Rightarrow> nat \<Rightarrow> 's writer \<Rightarrow> 's writer" where
  "write_full_box name version flags write_payload =
     write_box name (seq [put [byte version, byte (flags div 2 ^ 16), byte (flags div 2 ^ 8), byte flags],
       write_payload])"

text \<open>\<open>write_descriptor\<close> writes the length in four base-128 digits, most significant first.\<close>

definition write_descriptor_len :: "nat \<Rightarrow> bytes" where
  "write_descriptor_len len =
     map (\<lambda>i. let digit = word_of_nat (len div 2 ^ (7 * (3 - i))) AND (0x7f :: u8)
          in if i \<noteq> 3 then digit OR 0x80 else digit) [0..<4]"

definition write_descriptor :: "u8 \<Rightarrow> 's writer \<Rightarrow> 's writer" where
  "write_descriptor tag write_payload = (\<lambda>(out, s).
     let out = out @ [tag]; len_pos = length out;
         payload_start = len_pos + 4;
         (out, s) = write_payload (out @ replicate 4 0, s)
     in (patch out len_pos (write_descriptor_len (length out - payload_start)), s))"

section \<open>Tracks\<close>

datatype fmp4_track_kind = Fmp4Video | Fmp4Audio

record source_video_entry =
  sve_codec_fourcc :: bytes
  sve_payload :: bytes

datatype fmp4_sample_entry =
    AvcEntry bytes nat nat
  | HevcEntry bytes nat nat
  | SourceHevcEntry source_video_entry nat nat
  | AacEntry bytes nat nat
  | Mp3Entry nat nat
  | Ac3Entry bytes nat nat
  | Eac3Entry bytes nat nat
  | FlacEntry bytes nat nat
  | AlacEntry bytes nat nat

record fmp4_track =
  ft_id :: nat
  ft_kind :: fmp4_track_kind
  ft_timescale :: nat
  ft_default_sample_duration :: nat
  ft_default_sample_size :: nat
  ft_default_sample_flags :: nat
  ft_sample_entry :: fmp4_sample_entry

definition MOVIE_TIMESCALE :: nat where "MOVIE_TIMESCALE = 1000"

definition MAX_COPY_VIDEO_SAMPLE_ENTRY_BYTES :: nat where
  "MAX_COPY_VIDEO_SAMPLE_ENTRY_BYTES = 256 * 1024"

section \<open>Movie header boxes\<close>

definition write_identity_matrix :: "'s writer" where
  "write_identity_matrix = put (be_u32 0x00010000 @ be_u32 0 @ be_u32 0 @ be_u32 0 @ be_u32 0x00010000
     @ be_u32 0 @ be_u32 0 @ be_u32 0 @ be_u32 0x40000000)"

definition write_mvhd :: "'s writer" where
  "write_mvhd = write_full_box (ascii ''mvhd'') 0 0 (seq
     [put (be_u32 0 @ be_u32 0 @ be_u32 MOVIE_TIMESCALE @ be_u32 0 @ be_u32 0x00010000 @ be_u16 0x0100
        @ be_u16 0 @ be_u32 0 @ be_u32 0),
      write_identity_matrix, put (concat (replicate 6 (be_u32 0)) @ be_u32 1)])"

definition entry_size :: "fmp4_sample_entry \<Rightarrow> bytes" where
  "entry_size entry =
     (case entry of
        AvcEntry _ width height \<Rightarrow> be_u32 (width * 2 ^ 16) @ be_u32 (height * 2 ^ 16)
      | HevcEntry _ width height \<Rightarrow> be_u32 (width * 2 ^ 16) @ be_u32 (height * 2 ^ 16)
      | SourceHevcEntry _ width height \<Rightarrow> be_u32 (width * 2 ^ 16) @ be_u32 (height * 2 ^ 16)
      | _ \<Rightarrow> be_u32 0 @ be_u32 0)"

definition write_tkhd :: "fmp4_track \<Rightarrow> 's writer" where
  "write_tkhd track = write_full_box (ascii ''tkhd'') 0 0x000007 (seq
     [put (be_u32 0 @ be_u32 0 @ be_u32 (ft_id track) @ be_u32 0 @ be_u32 0 @ be_u32 0 @ be_u32 0
        @ be_u16 0 @ be_u16 0 @ be_u16 (if ft_kind track = Fmp4Audio then 0x0100 else 0) @ be_u16 0),
      write_identity_matrix, put (entry_size (ft_sample_entry track))])"

definition write_mdhd :: "nat \<Rightarrow> 's writer" where
  "write_mdhd timescale = write_full_box (ascii ''mdhd'') 0 0
     (put (be_u32 0 @ be_u32 0 @ be_u32 timescale @ be_u32 0 @ be_u16 0x55c4 @ be_u16 0))"

definition write_hdlr :: "fmp4_track_kind \<Rightarrow> 's writer" where
  "write_hdlr kind = write_full_box (ascii ''hdlr'') 0 0
     (put (be_u32 0 @ (case kind of Fmp4Video \<Rightarrow> ascii ''vide'' | Fmp4Audio \<Rightarrow> ascii ''soun'')
        @ be_u32 0 @ be_u32 0 @ be_u32 0 @ [0]))"

definition write_vmhd :: "'s writer" where
  "write_vmhd = write_full_box (ascii ''vmhd'') 0 1 (put (be_u16 0 @ be_u16 0 @ be_u16 0 @ be_u16 0))"

definition write_smhd :: "'s writer" where
  "write_smhd = write_full_box (ascii ''smhd'') 0 0 (put (be_u16 0 @ be_u16 0))"

definition write_dinf :: "'s writer" where
  "write_dinf = write_box (ascii ''dinf'') (write_full_box (ascii ''dref'') 0 0 (seq
     [put (be_u32 1), write_full_box (ascii ''url '') 0 1 (put [])]))"

section \<open>Sample descriptions\<close>

definition video_entry_head :: "nat \<Rightarrow> nat \<Rightarrow> bytes" where
  "video_entry_head width height =
     replicate 6 0 @ be_u16 1 @ be_u16 0 @ be_u16 0 @ be_u32 0 @ be_u32 0 @ be_u32 0
     @ be_u16 width @ be_u16 height @ be_u32 0x00480000 @ be_u32 0x00480000 @ be_u32 0 @ be_u16 1
     @ replicate 32 0 @ be_u16 0x0018 @ be_u16 0xffff"

definition write_video_sample_entry :: "bytes \<Rightarrow> nat \<Rightarrow> nat \<Rightarrow> bytes \<Rightarrow> bytes \<Rightarrow> 's writer" where
  "write_video_sample_entry coding_name width height config_name codec_config =
     write_box coding_name (seq [put (video_entry_head width height), write_box config_name (put codec_config)])"

definition write_pasp :: "nat \<Rightarrow> nat \<Rightarrow> 's writer" where
  "write_pasp h_spacing v_spacing =
     write_box (ascii ''pasp'') (put (be_u32 (max h_spacing 1) @ be_u32 (max v_spacing 1)))"

definition write_hevc_sample_entry :: "nat \<Rightarrow> nat \<Rightarrow> bytes \<Rightarrow> 's writer" where
  "write_hevc_sample_entry width height codec_config =
     write_box (ascii ''hev1'') (seq [put (video_entry_head width height),
       write_box (ascii ''hvcC'') (put codec_config), write_pasp 1 1])"

definition write_audio_sample_entry :: "bytes \<Rightarrow> nat \<Rightarrow> nat \<Rightarrow> 's writer \<Rightarrow> 's writer" where
  "write_audio_sample_entry coding_name channel_count sample_rate write_extension =
     write_box coding_name (seq
       [put (replicate 6 0 @ be_u16 1 @ be_u16 0 @ be_u16 0 @ be_u32 0 @ be_u16 channel_count @ be_u16 16
          @ be_u16 0 @ be_u16 0 @ be_u32 (sample_rate * 2 ^ 16)), write_extension])"

definition write_esds :: "u8 \<Rightarrow> bytes \<Rightarrow> 's writer" where
  "write_esds object_type decoder_config =
     write_full_box (ascii ''esds'') 0 0 (write_descriptor 0x03 (seq
       [put (be_u16 0 @ [0]),
        write_descriptor 0x04 (seq
          [put ([object_type, 0x15] @ [0, 0, 0] @ be_u32 0 @ be_u32 0),
           if decoder_config \<noteq> [] then write_descriptor 0x05 (put decoder_config) else put []]),
        write_descriptor 0x06 (put [2])]))"

definition write_dfla :: "bytes \<Rightarrow> 's writer" where
  "write_dfla stream_info =
     write_full_box (ascii ''dfLa'') 0 0 (put (0x80 # be_u24 (length stream_info) @ stream_info))"

definition write_sample_entry :: "fmp4_sample_entry \<Rightarrow> 's writer" where
  "write_sample_entry entry =
     (case entry of
        AvcEntry codec_config width height \<Rightarrow>
          write_video_sample_entry (ascii ''avc1'') width height (ascii ''avcC'') codec_config
      | HevcEntry codec_config width height \<Rightarrow> write_hevc_sample_entry width height codec_config
      | SourceHevcEntry source _ _ \<Rightarrow>
          write_box (sve_codec_fourcc source)
            (put (take 6 (sve_payload source) @ be_u16 1 @ drop 8 (sve_payload source)))
      | AacEntry decoder_config channel_count sample_rate \<Rightarrow>
          write_audio_sample_entry (ascii ''mp4a'') channel_count sample_rate (write_esds 0x40 decoder_config)
      | Mp3Entry channel_count sample_rate \<Rightarrow>
          write_audio_sample_entry (ascii ''mp4a'') channel_count sample_rate (write_esds 0x6b [])
      | Ac3Entry dac3 channel_count sample_rate \<Rightarrow>
          write_audio_sample_entry (ascii ''ac-3'') channel_count sample_rate (write_box (ascii ''dac3'') (put dac3))
      | Eac3Entry dec3 channel_count sample_rate \<Rightarrow>
          write_audio_sample_entry (ascii ''ec-3'') channel_count sample_rate (write_box (ascii ''dec3'') (put dec3))
      | FlacEntry stream_info channel_count sample_rate \<Rightarrow>
          write_audio_sample_entry (ascii ''fLaC'') channel_count sample_rate (write_dfla stream_info)
      | AlacEntry codec_config channel_count sample_rate \<Rightarrow>
          write_audio_sample_entry (ascii ''alac'') channel_count sample_rate
            (write_box (ascii ''alac'') (put codec_config)))"

definition write_stsd :: "fmp4_track \<Rightarrow> 's writer" where
  "write_stsd track = write_full_box (ascii ''stsd'') 0 0 (seq
     [put (be_u32 1), write_sample_entry (ft_sample_entry track)])"

definition write_empty_stbl :: "fmp4_track \<Rightarrow> 's writer" where
  "write_empty_stbl track = write_box (ascii ''stbl'') (seq
     [write_stsd track,
      write_full_box (ascii ''stts'') 0 0 (put (be_u32 0)),
      write_full_box (ascii ''stsc'') 0 0 (put (be_u32 0)),
      write_full_box (ascii ''stsz'') 0 0 (put (be_u32 0 @ be_u32 0)),
      write_full_box (ascii ''stco'') 0 0 (put (be_u32 0))])"

definition write_elst :: "nat \<times> nat \<Rightarrow> 's writer" where
  "write_elst = (\<lambda>(priming, duration_ms). write_box (ascii ''edts'') (write_full_box (ascii ''elst'') 1 0
     (put (be_u32 1 @ be_u64 duration_ms @ be_u64 priming @ be_u16 1 @ be_u16 0))))"

definition write_trak :: "fmp4_track \<Rightarrow> (nat \<times> nat) option \<Rightarrow> 's writer" where
  "write_trak track edit = write_box (ascii ''trak'') (seq
     [write_tkhd track,
      case edit of Some e \<Rightarrow> write_elst e | None \<Rightarrow> put [],
      write_box (ascii ''mdia'') (seq
        [write_mdhd (ft_timescale track), write_hdlr (ft_kind track),
         write_box (ascii ''minf'') (seq
           [case ft_kind track of Fmp4Video \<Rightarrow> write_vmhd | Fmp4Audio \<Rightarrow> write_smhd,
            write_dinf, write_empty_stbl track])])])"

definition write_trex :: "fmp4_track \<Rightarrow> 's writer" where
  "write_trex track = write_full_box (ascii ''trex'') 0 0
     (put (be_u32 (ft_id track) @ be_u32 1 @ be_u32 (ft_default_sample_duration track)
        @ be_u32 (ft_default_sample_size track) @ be_u32 (ft_default_sample_flags track)))"

definition write_mvex :: "fmp4_track list \<Rightarrow> 's writer" where
  "write_mvex tracks = write_box (ascii ''mvex'') (seq (map write_trex tracks))"

section \<open>The init segment\<close>

datatype fmp4_error =
    NoTracks
  | InvalidSourceEntry
  | PayloadMismatch nat nat nat
  | OffsetOutOfRange
  | FragmentOverflow
  | InvalidHeader string
  | NoSamples
  | NotContiguous
  | ScaleMismatch
  | OutputExceeded nat nat

definition source_entry_ok :: "fmp4_sample_entry \<Rightarrow> bool" where
  "source_entry_ok entry =
     (case entry of
        SourceHevcEntry source _ _ \<Rightarrow>
          sve_codec_fourcc source \<in> set (map ascii [''hvc1'', ''hev1'', ''dvh1'', ''dvhe'']) \<and>
          78 \<le> length (sve_payload source) \<and> length (sve_payload source) \<le> MAX_COPY_VIDEO_SAMPLE_ENTRY_BYTES
      | _ \<Rightarrow> True)"

definition track_edit :: "(nat \<times> nat \<times> nat) list \<Rightarrow> fmp4_track \<Rightarrow> (nat \<times> nat) option" where
  "track_edit edits track = map_option snd (find (\<lambda>e. fst e = ft_id track) edits)"

definition write_init :: "fmp4_track list \<Rightarrow> (nat \<times> nat \<times> nat) list \<Rightarrow> unit writer" where
  "write_init tracks edits = seq
     [write_box (ascii ''ftyp'') (put (ascii ''iso6'' @ be_u32 1 @ ascii ''iso6'' @ ascii ''mp41'' @ ascii ''cmfc'')),
      write_box (ascii ''moov'') (seq
        [write_mvhd, seq (map (\<lambda>track. write_trak track (track_edit edits track)) tracks), write_mvex tracks])]"

definition init_segment_with_edits :: "fmp4_track list \<Rightarrow> (nat \<times> nat \<times> nat) list \<Rightarrow> fmp4_error + bytes" where
  "init_segment_with_edits tracks edits =
     (if tracks = [] then Inl NoTracks
      else if \<not> list_all (\<lambda>track. source_entry_ok (ft_sample_entry track)) tracks then Inl InvalidSourceEntry
      else Inr (fst (write_init tracks edits ([], ()))))"

definition init_segment :: "fmp4_track list \<Rightarrow> fmp4_error + bytes" where
  "init_segment tracks = init_segment_with_edits tracks []"

section \<open>Writers only append\<close>

definition emits :: "'s writer \<Rightarrow> bytes \<Rightarrow> bool" where
  "emits w p \<longleftrightarrow> (\<forall>out s. w (out, s) = (out @ p, s))"

definition sized_box :: "bytes \<Rightarrow> bytes \<Rightarrow> bytes" where
  "sized_box name p = be_u32 (if 8 + length p < 2 ^ 32 then 8 + length p else 2 ^ 32 - 1) @ name @ p"

definition full_head :: "nat \<Rightarrow> nat \<Rightarrow> bytes" where
  "full_head version flags = [byte version, byte (flags div 2 ^ 16), byte (flags div 2 ^ 8), byte flags]"

lemma patch_at: "length b = length a \<Longrightarrow> patch (xs @ a @ ys) (length xs) b = xs @ b @ ys"
  by (simp add: patch_def)

lemma sized_box32: "8 + length p < 2 ^ 32 \<Longrightarrow> sized_box name p = box32 name p"
  by (simp add: sized_box_def box32_def)

lemma emits_put: "emits (put p) p"
  by (simp add: emits_def put_def)

lemma seq_simps: "seq [] st = st" "seq (w # ws) st = seq ws (w st)"
  by (simp_all add: seq_def)

lemma emits_seq: "list_all2 emits ws ps \<Longrightarrow> emits (seq ws) (concat ps)"
proof (induction ws ps rule: list_all2_induct)
  case (Cons w ws p ps)
  then show ?case by (simp add: emits_def seq_simps)
qed (simp add: emits_def seq_simps)

lemma emits_box:
  assumes "emits w p" "length name = 4"
  shows "emits (write_box name w) (sized_box name p)"
  unfolding emits_def
proof (intro allI)
  fix out s
  have "patch (out @ be_u32 0 @ name @ p) (length out) (be_u32 n) = out @ be_u32 n @ name @ p" for n
    by (rule patch_at) simp
  then show "write_box name w (out, s) = (out @ sized_box name p, s)"
    using assms by (simp add: write_box_def emits_def sized_box_def Let_def)
qed

lemma emits_full_box:
  assumes "emits w p" "length name = 4"
  shows "emits (write_full_box name v f w) (sized_box name (full_head v f @ p))"
proof -
  have "emits (seq [put (full_head v f), w]) (concat [full_head v f, p])"
    by (rule emits_seq) (simp add: assms emits_put)
  then show ?thesis
    unfolding write_full_box_def full_head_def [symmetric] by (intro emits_box) (use assms in simp_all)
qed

lemma length_descriptor_len [simp]: "length (write_descriptor_len n) = 4"
  by (simp add: write_descriptor_len_def)

lemma emits_descriptor:
  assumes "emits w p"
  shows "emits (write_descriptor tag w) (tag # write_descriptor_len (length p) @ p)"
  unfolding emits_def
proof (intro allI)
  fix out s
  have "patch ((out @ [tag]) @ replicate 4 0 @ p) (length (out @ [tag])) (write_descriptor_len (length p)) =
    (out @ [tag]) @ write_descriptor_len (length p) @ p" by (rule patch_at) simp
  then show "write_descriptor tag w (out, s) = (out @ tag # write_descriptor_len (length p) @ p, s)"
    using assms by (simp add: write_descriptor_def emits_def Let_def)
qed

end
