(* ===== verification/Text.thy ===== *)
theory Text
  imports Iterators
begin

text \<open>
  Rust strings as the engine uses them: \<open>str::from_utf8\<close> as a decoder to code points that
  rejects overlong forms, surrogates and values above U+10FFFF, \<open>trim\<close> and the whitespace
  classes, and the \<open>format!\<close> directives for decimal and hexadecimal numbers. Texts from a file
  are lists of code points; names that the source spells out are HOL strings.
\<close>

section \<open>UTF-8\<close>

type_synonym ustring = "nat list"

text \<open>An ASCII literal of the source as a Rust string.\<close>

definition lit :: "string \<Rightarrow> ustring" where
  "lit s = map of_char s"

lemma lit_eq [simp]: "lit s = lit t \<longleftrightarrow> s = t"
  unfolding lit_def by (intro inj_map_eq_map injI) (simp only: of_char_eq_iff)

definition scalar_value :: "nat \<Rightarrow> bool" where
  "scalar_value c \<longleftrightarrow> c < 0xd800 \<or> 0xe000 \<le> c \<and> c < 0x110000"

definition cont_byte :: "u8 \<Rightarrow> bool" where
  "cont_byte b \<longleftrightarrow> 0x80 \<le> unat b \<and> unat b < 0xc0"

fun utf8_decode :: "bytes \<Rightarrow> ustring option" where
  "utf8_decode [] = Some []"
| "utf8_decode (b # bs) =
     (let a = unat b
      in if a < 0x80 then map_option ((#) a) (utf8_decode bs)
         else if a < 0xc2 then None
         else if a < 0xe0 then
           (case bs of
              c1 # rest \<Rightarrow>
                if cont_byte c1 then map_option ((#) ((a - 0xc0) * 0x40 + (unat c1 - 0x80))) (utf8_decode rest)
                else None
            | _ \<Rightarrow> None)
         else if a < 0xf0 then
           (case bs of
              c1 # c2 # rest \<Rightarrow>
                let c = (a - 0xe0) * 0x1000 + (unat c1 - 0x80) * 0x40 + (unat c2 - 0x80)
                in if cont_byte c1 \<and> cont_byte c2 \<and> 0x800 \<le> c \<and> scalar_value c
                   then map_option ((#) c) (utf8_decode rest) else None
            | _ \<Rightarrow> None)
         else if a < 0xf5 then
           (case bs of
              c1 # c2 # c3 # rest \<Rightarrow>
                let c = (a - 0xf0) * 0x40000 + (unat c1 - 0x80) * 0x1000 + (unat c2 - 0x80) * 0x40 + (unat c3 - 0x80)
                in if cont_byte c1 \<and> cont_byte c2 \<and> cont_byte c3 \<and> 0x10000 \<le> c \<and> scalar_value c
                   then map_option ((#) c) (utf8_decode rest) else None
            | _ \<Rightarrow> None)
         else None)"

definition utf8_encode_char :: "nat \<Rightarrow> bytes" where
  "utf8_encode_char c =
     (if c < 0x80 then [byte c]
      else if c < 0x800 then [byte (0xc0 + c div 0x40), byte (0x80 + c mod 0x40)]
      else if c < 0x10000 then [byte (0xe0 + c div 0x1000), byte (0x80 + c div 0x40 mod 0x40), byte (0x80 + c mod 0x40)]
      else [byte (0xf0 + c div 0x40000), byte (0x80 + c div 0x1000 mod 0x40), byte (0x80 + c div 0x40 mod 0x40),
            byte (0x80 + c mod 0x40)])"

definition utf8_encode :: "ustring \<Rightarrow> bytes" where
  "utf8_encode cs = concat (map utf8_encode_char cs)"

lemma cont_byte_low [simp]: "cont_byte (byte (0x80 + c mod 0x40))"
proof -
  have "c mod 64 < 64" by simp
  then have "(128 + c mod 64) mod 256 = 128 + c mod 64" by (intro mod_less) linarith
  then show ?thesis by (simp add: cont_byte_def)
qed

lemma unat_cont [simp]: "unat (byte (0x80 + c mod 0x40)) - 0x80 = c mod 0x40"
proof -
  have "c mod 64 < 64" by simp
  then have "(128 + c mod 64) mod 256 = 128 + c mod 64" by (intro mod_less) linarith
  then show ?thesis by simp
qed

lemma unat_lead: "k + n < 0x100 \<Longrightarrow> unat (byte (k + n)) = k + n"
  by simp

lemma base64_digits:
  fixes c :: nat
  shows "c div 0x40 * 0x40 + c mod 0x40 = c"
    "c div 0x1000 * 0x1000 + c div 0x40 mod 0x40 * 0x40 + c mod 0x40 = c"
    "c div 0x40000 * 0x40000 + c div 0x1000 mod 0x40 * 0x1000 + c div 0x40 mod 0x40 * 0x40 + c mod 0x40 = c"
proof -
  show a: "c div 0x40 * 0x40 + c mod 0x40 = c" for c :: nat by simp
  show b: "c div 0x1000 * 0x1000 + c div 0x40 mod 0x40 * 0x40 + c mod 0x40 = c" for c :: nat
  proof -
    have "c div 0x1000 = c div 0x40 div 0x40" by (simp add: div_mult2_eq [symmetric])
    then show ?thesis using a [of c] a [of "c div 0x40"] by linarith
  qed
  show "c div 0x40000 * 0x40000 + c div 0x1000 mod 0x40 * 0x1000 + c div 0x40 mod 0x40 * 0x40 + c mod 0x40 = c"
  proof -
    have "c div 0x40000 = c div 0x1000 div 0x40" by (simp add: div_mult2_eq [symmetric])
    then show ?thesis using b [of c] a [of "c div 0x1000"] by linarith
  qed
qed

lemma utf8_decode_char:
  assumes "scalar_value c"
  shows "utf8_decode (utf8_encode_char c @ bs) = map_option ((#) c) (utf8_decode bs)"
proof -
  have c: "c < 0x110000" using assms by (auto simp: scalar_value_def)
  consider "c < 0x80" | "0x80 \<le> c" "c < 0x800" | "0x800 \<le> c" "c < 0x10000" | "0x10000 \<le> c" by linarith
  then show ?thesis
  proof cases
    case 1
    then show ?thesis by (simp add: utf8_encode_char_def)
  next
    case 2
    then have e: "utf8_encode_char c = [byte (0xc0 + c div 0x40), byte (0x80 + c mod 0x40)]"
      by (simp add: utf8_encode_char_def)
    from 2 have b: "2 \<le> c div 0x40" "c div 0x40 < 0x20" by linarith+
    then have "unat (byte (0xc0 + c div 0x40)) = 0xc0 + c div 0x40" by (intro unat_lead) linarith
    then show ?thesis unfolding e using b base64_digits(1) [of c] by (simp del: unat_byte add: Let_def)
  next
    case 3
    then have e: "utf8_encode_char c = [byte (0xe0 + c div 0x1000), byte (0x80 + c div 0x40 mod 0x40), byte (0x80 + c mod 0x40)]"
      by (simp add: utf8_encode_char_def)
    from 3 have b: "c div 0x1000 < 0x10" by linarith
    then have "unat (byte (0xe0 + c div 0x1000)) = 0xe0 + c div 0x1000" by (intro unat_lead) linarith
    then show ?thesis unfolding e using b 3 assms base64_digits(2) [of c] by (simp del: unat_byte add: Let_def)
  next
    case 4
    then have e: "utf8_encode_char c = [byte (0xf0 + c div 0x40000), byte (0x80 + c div 0x1000 mod 0x40),
        byte (0x80 + c div 0x40 mod 0x40), byte (0x80 + c mod 0x40)]"
      by (simp add: utf8_encode_char_def)
    from c have b: "c div 0x40000 < 5" by linarith
    then have "unat (byte (0xf0 + c div 0x40000)) = 0xf0 + c div 0x40000" by (intro unat_lead) linarith
    then show ?thesis unfolding e using b 4 assms base64_digits(3) [of c] by (simp del: unat_byte add: Let_def)
  qed
qed

lemma utf8_roundtrip: "list_all scalar_value cs \<Longrightarrow> utf8_decode (utf8_encode cs) = Some cs"
  by (induction cs) (simp_all add: utf8_encode_def utf8_decode_char)

text \<open>
  \<open>String::from_utf8_lossy\<close>: each maximal prefix of a code point that does not continue is replaced by
  one U+FFFD.
\<close>

definition second_byte :: "nat \<Rightarrow> u8 \<Rightarrow> bool" where
  "second_byte a b =
     (let c = unat b
      in if a = 0xe0 then 0xa0 \<le> c \<and> c < 0xc0 else if a = 0xed then 0x80 \<le> c \<and> c < 0xa0
         else if a = 0xf0 then 0x90 \<le> c \<and> c < 0xc0 else if a = 0xf4 then 0x80 \<le> c \<and> c < 0x90
         else cont_byte b)"

fun utf8_lossy :: "bytes \<Rightarrow> ustring" where
  "utf8_lossy [] = []"
| "utf8_lossy (b # bs) =
     (let a = unat b
      in if a < 0x80 then a # utf8_lossy bs
         else if 0xc2 \<le> a \<and> a < 0xe0 then
           (case bs of
              c1 # rest \<Rightarrow>
                if cont_byte c1 then ((a - 0xc0) * 0x40 + (unat c1 - 0x80)) # utf8_lossy rest
                else 0xfffd # utf8_lossy bs
            | [] \<Rightarrow> [0xfffd])
         else if 0xe0 \<le> a \<and> a < 0xf0 then
           (case bs of
              c1 # c2 # rest \<Rightarrow>
                if \<not> second_byte a c1 then 0xfffd # utf8_lossy bs
                else if cont_byte c2 then
                  ((a - 0xe0) * 0x1000 + (unat c1 - 0x80) * 0x40 + (unat c2 - 0x80)) # utf8_lossy rest
                else 0xfffd # utf8_lossy (c2 # rest)
            | [c1] \<Rightarrow> if second_byte a c1 then [0xfffd] else 0xfffd # utf8_lossy bs
            | [] \<Rightarrow> [0xfffd])
         else if 0xf0 \<le> a \<and> a < 0xf5 then
           (case bs of
              c1 # c2 # c3 # rest \<Rightarrow>
                if \<not> second_byte a c1 then 0xfffd # utf8_lossy bs
                else if \<not> cont_byte c2 then 0xfffd # utf8_lossy (c2 # c3 # rest)
                else if cont_byte c3 then
                  ((a - 0xf0) * 0x40000 + (unat c1 - 0x80) * 0x1000 + (unat c2 - 0x80) * 0x40 + (unat c3 - 0x80))
                    # utf8_lossy rest
                else 0xfffd # utf8_lossy (c3 # rest)
            | [c1, c2] \<Rightarrow>
                if \<not> second_byte a c1 then 0xfffd # utf8_lossy bs
                else if cont_byte c2 then [0xfffd] else 0xfffd # utf8_lossy [c2]
            | [c1] \<Rightarrow> if second_byte a c1 then [0xfffd] else 0xfffd # utf8_lossy bs
            | [] \<Rightarrow> [0xfffd])
         else 0xfffd # utf8_lossy bs)"

lemma utf8_lossy_ascii: "list_all (\<lambda>b. unat b < 0x80) bs \<Longrightarrow> utf8_lossy bs = map unat bs"
  by (induction bs) simp_all

section \<open>Whitespace\<close>

definition ascii_whitespace :: "u8 \<Rightarrow> bool" where
  "ascii_whitespace b \<longleftrightarrow> b \<in> {0x20, 0x09, 0x0a, 0x0c, 0x0d}"

definition char_whitespace :: "nat \<Rightarrow> bool" where
  "char_whitespace c \<longleftrightarrow> 0x09 \<le> c \<and> c \<le> 0x0d \<or> c \<in> {0x20, 0x85, 0xa0, 0x1680} \<or>
     0x2000 \<le> c \<and> c \<le> 0x200a \<or> c \<in> {0x2028, 0x2029, 0x202f, 0x205f, 0x3000}"

definition trim_by :: "('a \<Rightarrow> bool) \<Rightarrow> 'a list \<Rightarrow> 'a list" where
  "trim_by P s = rev (dropWhile P (rev (dropWhile P s)))"

abbreviation trim :: "ustring \<Rightarrow> ustring" where
  "trim \<equiv> trim_by char_whitespace"

lemma trim_by_id: "s = [] \<or> \<not> P (hd s) \<and> \<not> P (last s) \<Longrightarrow> trim_by P s = s"
proof (cases s)
  case (Cons x xs)
  assume "s = [] \<or> \<not> P (hd s) \<and> \<not> P (last s)"
  then have p: "\<not> P (hd s)" "\<not> P (last s)" using Cons by simp_all
  have d: "dropWhile P s = s" using p(1) Cons by simp
  have "rev s = last s # rev (butlast s)" using Cons by (metis append_butlast_last_id list.distinct(1) rev.simps(2) rev_rev_ident rev_append append_Cons append_Nil)
  then have "dropWhile P (rev s) = rev s" using p(2) by (metis dropWhile.simps(2))
  then show ?thesis by (simp add: trim_by_def d)
qed (simp add: trim_by_def)

text \<open>\<open>to_ascii_lowercase\<close>, \<open>to_ascii_uppercase\<close>\<close>

definition ascii_lower :: "ustring \<Rightarrow> ustring" where
  "ascii_lower = map (\<lambda>c. if 65 \<le> c \<and> c \<le> 90 then c + 32 else c)"

definition ascii_upper :: "ustring \<Rightarrow> ustring" where
  "ascii_upper = map (\<lambda>c. if 97 \<le> c \<and> c \<le> 122 then c - 32 else c)"

section \<open>Numbers in text\<close>

definition digit_char :: "nat \<Rightarrow> char" where
  "digit_char n = char_of (if n < 10 then 48 + n else 55 + n)"

definition digit_char_lower :: "nat \<Rightarrow> char" where
  "digit_char_lower n = char_of (if n < 10 then 48 + n else 87 + n)"

fun show_nat :: "nat \<Rightarrow> string" where
  "show_nat n = (if n < 10 then [digit_char n] else show_nat (n div 10) @ [digit_char (n mod 10)])"

fun show_hex :: "nat \<Rightarrow> string" where
  "show_hex n = (if n < 16 then [digit_char n] else show_hex (n div 16) @ [digit_char (n mod 16)])"

declare show_nat.simps [simp del] show_hex.simps [simp del]

text \<open>\<open>{:02X}\<close> and \<open>{:02x}\<close> on a byte, \<open>{:02}\<close>.\<close>

definition show_hex2 :: "nat \<Rightarrow> string" where
  "show_hex2 n = [digit_char (n div 16), digit_char (n mod 16)]"

definition show_hex2_lower :: "nat \<Rightarrow> string" where
  "show_hex2_lower n = [digit_char_lower (n div 16), digit_char_lower (n mod 16)]"

definition show_nat2 :: "nat \<Rightarrow> string" where
  "show_nat2 n = (if n < 10 then ''0'' else []) @ show_nat n"

lemma digit_char_inj: "m < 36 \<Longrightarrow> n < 36 \<Longrightarrow> digit_char m = digit_char n \<longleftrightarrow> m = n"
proof -
  assume lt: "m < 36" "n < 36"
  have code: "(of_char (digit_char k) :: nat) = (if k < 10 then 48 + k else 55 + k)" if "k < 36" for k
    using that by (simp add: digit_char_def)
  show ?thesis
  proof
    assume "digit_char m = digit_char n"
    then have "(of_char (digit_char m) :: nat) = of_char (digit_char n)" by simp
    then show "m = n" unfolding code [OF lt(1)] code [OF lt(2)] using lt by (auto split: if_splits)
  qed simp
qed

lemma show_nat_inj: "show_nat m = show_nat n \<longleftrightarrow> m = n"
proof (induction m arbitrary: n rule: less_induct)
  case (less m)
  have ne: "show_nat k \<noteq> []" for k by (subst show_nat.simps) simp
  show ?case
  proof (cases "m < 10 \<or> n < 10")
    case True
    then show ?thesis
      by (cases "m < 10"; cases "n < 10"; simp add: show_nat.simps [of m] show_nat.simps [of n] digit_char_inj ne ne [symmetric])
  next
    case False
    then have d: "show_nat m = show_nat (m div 10) @ [digit_char (m mod 10)]"
      "show_nat n = show_nat (n div 10) @ [digit_char (n mod 10)]" "m div 10 < m"
      by (simp_all add: show_nat.simps [of m] show_nat.simps [of n])
    have "show_nat m = show_nat n \<longleftrightarrow> m div 10 = n div 10 \<and> m mod 10 = n mod 10"
      unfolding d(1,2) using less [OF d(3)] by (simp add: digit_char_inj)
    then show ?thesis by (metis div_mult_mod_eq)
  qed
qed

end
