(* ===== verification/Mp4Codec.thy ===== *)
theory Mp4Codec
  imports Fmp4Boxes Text
begin

text \<open>
  The sample entries of \<open>container/mp4.rs\<close> (lines 165 to 208 and 1279 to 1700): the first entry of
  \<open>stsd\<close>, its child boxes, the codec configuration and the RFC 6381 codec string, the MPEG-4
  descriptors of \<open>esds\<close>, dynamic range, Atmos flag and, from \<open>codec/pixel_format.rs\<close>, the pixel
  format. Floating point frame rates are not part of the records.
\<close>

section \<open>Names\<close>

datatype mp4_track_kind = MtVideo | MtAudio | MtSubtitle | MtUnknown

definition ascii_graphic :: "u8 \<Rightarrow> bool" where
  "ascii_graphic b \<longleftrightarrow> 0x21 \<le> b \<and> b \<le> 0x7e"

definition ascii_text :: "bytes \<Rightarrow> string" where
  "ascii_text bs = map (\<lambda>b. char_of (unat b)) bs"

definition fourcc_to_string :: "bytes \<Rightarrow> string option" where
  "fourcc_to_string bs =
     (if length bs \<noteq> 4 \<or> \<not> list_all (\<lambda>b. ascii_graphic b \<or> b = 0x20) bs then None
      else Some (trim_by (\<lambda>c. c = CHR '' '') (ascii_text bs)))"

definition hex_string :: "bytes \<Rightarrow> string" where
  "hex_string bs = concat (map (\<lambda>b. show_hex2_lower (unat b)) bs)"

definition fourccs :: "string list \<Rightarrow> bytes set" where
  "fourccs names = set (map ascii names)"

definition is_video_sample_entry :: "bytes \<Rightarrow> bool" where
  "is_video_sample_entry fourcc \<longleftrightarrow>
     fourcc \<in> fourccs [''avc1'', ''avc3'', ''hvc1'', ''hev1'', ''dvh1'', ''dvhe'', ''av01'', ''vp09'', ''mp4v'']"

definition is_audio_sample_entry :: "bytes \<Rightarrow> bool" where
  "is_audio_sample_entry fourcc \<longleftrightarrow>
     fourcc \<in> fourccs [''mp4a'', ''ac-3'', ''ec-3'', ''alac'', ''fLaC'', ''Opus'', ''.mp3'']"

definition handler_to_track_kind :: "string option \<Rightarrow> mp4_track_kind" where
  "handler_to_track_kind handler =
     (case handler of
        None \<Rightarrow> MtUnknown
      | Some h \<Rightarrow>
          if h = ''vide'' then MtVideo
          else if h = ''soun'' then MtAudio
          else if h \<in> {''text'', ''sbtl'', ''subt''} then MtSubtitle
          else MtUnknown)"

definition mp4_track_kind_name :: "mp4_track_kind \<Rightarrow> string" where
  "mp4_track_kind_name kind =
     (case kind of MtVideo \<Rightarrow> ''video'' | MtAudio \<Rightarrow> ''audio'' | MtSubtitle \<Rightarrow> ''subtitle''
      | MtUnknown \<Rightarrow> ''unknown'')"

section \<open>Sample entries\<close>

record sample_entry =
  se_codec_fourcc :: bytes
  se_payload :: bytes

definition parse_stsd_entry :: "bytes \<Rightarrow> sample_entry option" where
  "parse_stsd_entry payload =
     (if length payload < 16 then None
      else Option.bind (read_u32 (slice payload 4 8)) (\<lambda>entry_count.
        if entry_count = 0 then None
        else Option.bind (read_u32 (slice payload 8 12)) (\<lambda>entry_size.
          if entry_size < 8 \<or> length payload < 8 + entry_size then None
          else Some \<lparr>se_codec_fourcc = slice payload 12 16, se_payload = slice payload 16 (8 + entry_size)\<rparr>)))"

text \<open>\<open>payload.get(offset..)\<close>\<close>

definition get_from :: "'a list \<Rightarrow> nat \<Rightarrow> 'a list option" where
  "get_from xs off = (if off \<le> length xs then Some (drop off xs) else None)"

definition sample_entry_child_boxes :: "mp4_track_kind \<Rightarrow> bytes \<Rightarrow> bytes \<Rightarrow> bytes option" where
  "sample_entry_child_boxes kind codec_fourcc payload =
     (if is_video_sample_entry codec_fourcc then get_from payload 78
      else if is_audio_sample_entry codec_fourcc then get_from payload 28
      else if kind = MtSubtitle then get_from payload 8
      else None)"

section \<open>Codec strings\<close>

definition avc_codec_string :: "bytes \<Rightarrow> string option" where
  "avc_codec_string payload =
     (if length payload < 4 then None
      else Some (''avc1.'' @ show_hex2 (unat (payload ! 1)) @ show_hex2 (unat (payload ! 2))
        @ show_hex2 (unat (payload ! 3))))"

definition avc_nalu_length_size :: "bytes \<Rightarrow> nat option" where
  "avc_nalu_length_size payload = map_option (\<lambda>b. unat (b AND 0x03) + 1) (get_at payload 4)"

definition reverse_bits32 :: "nat \<Rightarrow> nat" where
  "reverse_bits32 n = fold (\<lambda>i r. 2 * r + n div 2 ^ i mod 2) [0..<32] 0"

text \<open>\<open>omit only trailing zero constraint bytes\<close>\<close>

definition drop_trailing_zeros :: "bytes \<Rightarrow> bytes" where
  "drop_trailing_zeros bs = rev (dropWhile (\<lambda>b. b = 0) (rev bs))"

definition hevc_codec_string :: "bytes \<Rightarrow> bytes \<Rightarrow> string option" where
  "hevc_codec_string payload sample_entry =
     (if length payload < 13 then None
      else Option.bind (read_u32 (slice payload 2 6)) (\<lambda>compatibility.
        let prefix = (if sample_entry = ascii ''hev1'' then ''hev1'' else ''hvc1'');
            profile_space = unat (drop_bit 6 (payload ! 1));
            profile_idc = unat (payload ! 1 AND 0x1f);
            tier = (if payload ! 1 AND 0x20 \<noteq> 0 then ''H'' else ''L'');
            level = unat (payload ! 12);
            space = (if profile_space = 1 then ''A'' else if profile_space = 2 then ''B''
                     else if profile_space = 3 then ''C'' else [])
        in Some (prefix @ ''.'' @ space @ show_nat profile_idc @ ''.'' @ show_hex (reverse_bits32 compatibility)
             @ ''.'' @ tier @ show_nat level
             @ concat (map (\<lambda>b. ''.'' @ show_hex2 (unat b)) (drop_trailing_zeros (slice payload 6 12))))))"

definition hevc_nalu_length_size :: "bytes \<Rightarrow> nat option" where
  "hevc_nalu_length_size payload = map_option (\<lambda>b. unat (b AND 0x03) + 1) (get_at payload 21)"

text \<open>Dolby Vision profile and level, from the \<open>dvcC\<close> or \<open>dvvC\<close> box.\<close>

definition dolby_vision_profile_level :: "bytes \<Rightarrow> bytes \<Rightarrow> (nat \<times> nat) option" where
  "dolby_vision_profile_level fourcc payload =
     (if fourcc \<notin> fourccs [''dvh1'', ''dvhe''] then None
      else Option.bind (sample_entry_child_boxes MtVideo fourcc payload) (\<lambda>children.
        Option.bind (find (\<lambda>a. at_kind a \<in> fourccs [''dvcC'', ''dvvC'']) (atoms children)) (\<lambda>config.
        Option.bind (get_at (at_payload config) 2) (\<lambda>b2.
          let profile = unat (drop_bit 1 b2)
          in Option.bind (get_at (at_payload config) 3) (\<lambda>b3.
            let level = unat (push_bit 5 (b2 AND 1) OR drop_bit 3 b3)
            in if profile \<noteq> 0 \<and> level \<noteq> 0 then Some (profile, level) else None)))))"

definition video_range_from_transfer :: "nat option \<Rightarrow> string option" where
  "video_range_from_transfer transfer =
     Option.bind transfer (\<lambda>t.
       if t = 16 then Some ''PQ''
       else if t = 18 then Some ''HLG''
       else if t \<in> {1, 6, 13, 14, 15} then Some ''SDR''
       else None)"


definition video_range :: "source_video_entry \<Rightarrow> string option" where
  "video_range entry =
     Option.bind (sample_entry_child_boxes MtVideo (sve_codec_fourcc entry) (sve_payload entry)) (\<lambda>children.
       case Option.bind (find (\<lambda>a. at_kind a = ascii ''colr'') (atoms children)) (\<lambda>color.
           if get_range (at_payload color) 0 4 \<in> {Some (ascii ''nclx''), Some (ascii ''nclc'')}
           then video_range_from_transfer (Option.bind (get_range (at_payload color) 6 8) read_u16)
           else None) of
         Some r \<Rightarrow> Some r
       | None \<Rightarrow>
           Option.bind (dolby_vision_profile_level (sve_codec_fourcc entry) (sve_payload entry)) (\<lambda>(profile, _).
             if profile = 5 then Some ''PQ'' else None))"

section \<open>MPEG-4 descriptors\<close>

text \<open>\<open>read_descriptor_size\<close> reads at most four base-128 digits.\<close>

fun descriptor_size_loop :: "bytes \<Rightarrow> nat \<Rightarrow> nat \<Rightarrow> (nat \<times> nat) option" where
  "descriptor_size_loop [] idx sz = None"
| "descriptor_size_loop (b # bs) idx sz =
     (if idx = 4 then None
      else let sz = sz * 128 + unat (b AND 0x7f)
           in if b AND 0x80 = 0 then Some (sz, idx + 1) else descriptor_size_loop bs (idx + 1) sz)"

definition read_descriptor_size :: "bytes \<Rightarrow> (nat \<times> nat) option" where
  "read_descriptor_size payload = descriptor_size_loop payload 0 0"

text \<open>The body of a descriptor that holds further descriptors.\<close>

definition nested_body :: "u8 \<Rightarrow> bytes \<Rightarrow> bytes" where
  "nested_body descriptor_tag body =
     (if descriptor_tag = 0x03 then drop 3 body
      else if descriptor_tag = 0x04 then drop 13 body
      else body)"

definition descriptor_at :: "bytes \<Rightarrow> nat \<Rightarrow> (u8 \<times> nat \<times> nat) option" where
  "descriptor_at payload offset =
     Option.bind (read_descriptor_size (drop (offset + 1) payload)) (\<lambda>(sz, size_len).
     Option.bind (checked_add 64 (offset + 1 + size_len) sz) (\<lambda>e.
       if length payload < e then None else Some (payload ! offset, offset + 1 + size_len, e)))"

lemma descriptor_at_bounds:
  "descriptor_at payload offset = Some (t, s, e) \<Longrightarrow> offset < s \<and> s \<le> e \<and> e \<le> length payload"
  by (auto simp: descriptor_at_def checked_add_def split: if_splits option.splits bind_splits)

lemma length_nested_body: "length (nested_body t b) \<le> length b"
  by (simp add: nested_body_def)

lemma descriptor_progress:
  assumes "Some (t, s, e) = descriptor_at payload offset" "\<not> length payload < offset + 2"
  shows "length (nested_body t' (slice payload s e)) < length payload - offset"
    "length payload - e < length payload - offset"
  using descriptor_at_bounds [OF assms(1) [symmetric]] length_nested_body [of t' "slice payload s e"]
  by auto

function find_descriptor_from :: "bytes \<Rightarrow> u8 \<Rightarrow> nat \<Rightarrow> bytes option" where
  "find_descriptor_from payload tag offset =
     (if length payload < offset + 2 then None
      else case descriptor_at payload offset of
        None \<Rightarrow> None
      | Some (descriptor_tag, start, e) \<Rightarrow>
          let body = slice payload start e
          in if descriptor_tag = tag then Some body
             else case find_descriptor_from (nested_body descriptor_tag body) tag 0 of
               Some nested \<Rightarrow> Some nested
             | None \<Rightarrow> find_descriptor_from payload tag e)"
  by pat_completeness auto
termination
  by (relation "measure (\<lambda>(payload, tag, offset). length payload - offset)")
    (simp, simp add: descriptor_progress(1), use descriptor_at_bounds in fastforce)

declare find_descriptor_from.simps [simp del]

definition find_descriptor_payload :: "bytes \<Rightarrow> u8 \<Rightarrow> bytes option" where
  "find_descriptor_payload payload tag = find_descriptor_from payload tag 0"

record audio_specific_config =
  object_type_indication :: u8
  audio_object_type :: "nat option"
  asc_bytes :: bytes

definition audio_specific_config_from_esds :: "bytes \<Rightarrow> audio_specific_config option" where
  "audio_specific_config_from_esds payload =
     (let descriptors = (case get_from payload 4 of Some d \<Rightarrow> d | None \<Rightarrow> payload)
      in Option.bind (find_descriptor_payload descriptors 0x04) (\<lambda>decoder_config.
         Option.bind (get_at decoder_config 0) (\<lambda>object_type.
           let config = (case find_descriptor_payload descriptors 0x05 of Some c \<Rightarrow> c | None \<Rightarrow> [])
           in Some \<lparr>object_type_indication = object_type,
                audio_object_type = (case (get_at config 0, get_at config 1) of
                    (Some b0, Some b1) \<Rightarrow> Some (unat (drop_bit 3 b0)) | _ \<Rightarrow> None),
                asc_bytes = config\<rparr>)))"

definition mp4a_codec_string :: "audio_specific_config \<Rightarrow> string option" where
  "mp4a_codec_string config =
     (if object_type_indication config = 0x40
      then Option.bind (audio_object_type config) (\<lambda>object_type.
        if 0 < object_type then Some (''mp4a.40.'' @ show_nat object_type) else None)
      else Some (''mp4a.'' @ show_hex2_lower (unat (object_type_indication config))))"

definition flac_stream_info_from_dfla :: "bytes \<Rightarrow> bytes option" where
  "flac_stream_info_from_dfla payload =
     Option.bind (get_from payload 4) (\<lambda>metadata.
     Option.bind (get_at metadata 0) (\<lambda>block_header.
       if block_header AND 0x7f \<noteq> 0 then None
       else
         Option.bind (get_at metadata 1) (\<lambda>b1.
         Option.bind (get_at metadata 2) (\<lambda>b2.
         Option.bind (get_at metadata 3) (\<lambda>b3.
           get_range metadata 4 (4 + be_nat [b1, b2, b3]))))))"

section \<open>Codec configuration\<close>

record sample_entry_codec_config =
  cc_box_type :: bytes
  cc_codec_string :: "string option"
  cc_nalu_length_size :: "nat option"
  cc_description :: bytes

definition hvcc_codec_string :: "sample_entry \<Rightarrow> bytes \<Rightarrow> string option" where
  "hvcc_codec_string entry payload =
     (if se_codec_fourcc entry \<in> fourccs [''dvh1'', ''dvhe'']
      then map_option (\<lambda>(profile, level).
          ascii_text (se_codec_fourcc entry) @ ''.'' @ show_nat2 profile @ ''.'' @ show_nat2 level)
        (dolby_vision_profile_level (se_codec_fourcc entry) (se_payload entry))
      else hevc_codec_string payload (se_codec_fourcc entry))"

definition esds_description :: "audio_specific_config option \<Rightarrow> bytes \<Rightarrow> bytes" where
  "esds_description asc payload =
     (case asc of
        None \<Rightarrow> payload
      | Some config \<Rightarrow>
          if object_type_indication config = 0x40 \<and> asc_bytes config \<noteq> [] then asc_bytes config else payload)"

definition child_config :: "sample_entry \<Rightarrow> atom \<Rightarrow> sample_entry_codec_config option" where
  "child_config entry a =
     (let kind = at_kind a; payload = at_payload a
      in if kind = ascii ''avcC'' then
           Some \<lparr>cc_box_type = kind, cc_codec_string = avc_codec_string payload,
             cc_nalu_length_size = avc_nalu_length_size payload, cc_description = payload\<rparr>
         else if kind = ascii ''hvcC'' then
           Some \<lparr>cc_box_type = kind, cc_codec_string = hvcc_codec_string entry payload,
             cc_nalu_length_size = hevc_nalu_length_size payload, cc_description = payload\<rparr>
         else if kind = ascii ''esds'' then
           (let asc = audio_specific_config_from_esds payload
            in Some \<lparr>cc_box_type = kind, cc_codec_string = Option.bind asc mp4a_codec_string,
                 cc_nalu_length_size = None, cc_description = esds_description asc payload\<rparr>)
         else if kind = ascii ''dfLa'' then
           Some \<lparr>cc_box_type = kind, cc_codec_string = Some ''fLaC'', cc_nalu_length_size = None,
             cc_description = (case flac_stream_info_from_dfla payload of Some i \<Rightarrow> i | None \<Rightarrow> payload)\<rparr>
         else if kind = ascii ''alac'' then
           Some \<lparr>cc_box_type = kind, cc_codec_string = Some ''alac'', cc_nalu_length_size = None,
             cc_description = payload\<rparr>
         else None)"

primrec first_config :: "sample_entry \<Rightarrow> atom list \<Rightarrow> sample_entry_codec_config option" where
  "first_config entry [] = None"
| "first_config entry (a # as) =
     (case child_config entry a of Some c \<Rightarrow> Some c | None \<Rightarrow> first_config entry as)"

definition codec_config_from_sample_entry :: "mp4_track_kind \<Rightarrow> sample_entry \<Rightarrow> sample_entry_codec_config option" where
  "codec_config_from_sample_entry kind entry =
     Option.bind (sample_entry_child_boxes kind (se_codec_fourcc entry) (se_payload entry))
       (\<lambda>child_boxes. first_config entry (atoms child_boxes))"

definition sample_entry_codec :: "bytes \<Rightarrow> mp4_track_kind \<Rightarrow> string" where
  "sample_entry_codec fourcc kind =
     (if fourcc \<in> fourccs [''avc1'', ''avc3''] then ''h264''
      else if fourcc \<in> fourccs [''hvc1'', ''hev1''] then ''hevc''
      else if fourcc \<in> fourccs [''dvh1'', ''dvhe''] then ''hevc''
      else if fourcc = ascii ''av01'' then ''av1''
      else if fourcc = ascii ''vp09'' then ''vp9''
      else if fourcc = ascii ''mp4a'' \<and> kind = MtAudio then ''aac''
      else if fourcc = ascii ''ac-3'' then ''ac3''
      else if fourcc = ascii ''ec-3'' then ''eac3''
      else if fourcc = ascii ''alac'' then ''alac''
      else if fourcc = ascii ''fLaC'' then ''flac''
      else if fourcc = ascii ''Opus'' then ''opus''
      else if fourcc \<in> fourccs [''tx3g'', ''text''] then ''mov_text''
      else if fourcc = ascii ''wvtt'' then ''webvtt''
      else case fourcc_to_string fourcc of Some s \<Rightarrow> s | None \<Rightarrow> ''unknown'')"

definition sample_entry_codec_from_config ::
    "bytes \<Rightarrow> mp4_track_kind \<Rightarrow> sample_entry_codec_config option \<Rightarrow> string" where
  "sample_entry_codec_from_config fourcc kind config =
     (case (if fourcc = ascii ''mp4a'' \<and> kind = MtAudio then Option.bind config cc_codec_string else None) of
        Some codec_string \<Rightarrow>
          if take 8 codec_string = ''mp4a.40.'' then ''aac''
          else if codec_string = ''mp4a.a9'' \<or> codec_string = ''mp4a.ac'' then ''dts''
          else codec_string
      | None \<Rightarrow> sample_entry_codec fourcc kind)"

section \<open>Pixel format\<close>

definition read_u16_at :: "bytes \<Rightarrow> nat \<Rightarrow> nat option" where
  "read_u16_at bs offset =
     Option.bind (checked_add 64 offset 2) (\<lambda>e. Option.bind (get_range bs offset e) read_u16)"

definition pixel_format_label :: "nat \<Rightarrow> nat \<Rightarrow> string option" where
  "pixel_format_label chroma_format_idc bit_depth_luma =
     map_option (\<lambda>chroma. chroma @ ''-'' @ show_nat bit_depth_luma @ ''bit'')
       (if chroma_format_idc = 0 then Some ''monochrome''
        else if chroma_format_idc = 1 then Some ''yuv420''
        else if chroma_format_idc = 2 then Some ''yuv422''
        else if chroma_format_idc = 3 then Some ''yuv444''
        else None)"

definition is_high_profile :: "u8 \<Rightarrow> bool" where
  "is_high_profile profile_idc \<longleftrightarrow>
     profile_idc \<in> {100, 110, 122, 244, 44, 83, 86, 118, 128, 138, 139, 134, 135}"

text \<open>\<open>n\<close> length-prefixed parameter sets from \<open>offset\<close>; the offset behind them.\<close>

fun skip_parameter_sets :: "bytes \<Rightarrow> nat \<Rightarrow> nat \<Rightarrow> nat option" where
  "skip_parameter_sets payload 0 offset = Some offset"
| "skip_parameter_sets payload (Suc n) offset =
     Option.bind (read_u16_at payload offset) (\<lambda>len.
     Option.bind (Option.bind (checked_add 64 offset 2) (\<lambda>e. checked_add 64 e len)) (\<lambda>offset.
       if length payload < offset then None else skip_parameter_sets payload n offset))"

definition pixel_format_from_avc_decoder_config :: "bytes \<Rightarrow> string option" where
  "pixel_format_from_avc_decoder_config payload =
     (if length payload < 7 \<or> payload ! 0 \<noteq> 1 then None
      else
        Option.bind (skip_parameter_sets payload (unat (payload ! 5 AND 0x1f)) 6) (\<lambda>offset.
        Option.bind (get_at payload offset) (\<lambda>pps_count.
        Option.bind (skip_parameter_sets payload (unat pps_count) (offset + 1)) (\<lambda>offset.
          if is_high_profile (payload ! 1) \<and> offset + 3 \<le> length payload
          then pixel_format_label (unat (payload ! offset AND 0x03)) (8 + unat (payload ! (offset + 1) AND 0x07))
          else pixel_format_label 1 8))))"

definition pixel_format_from_hevc_decoder_config :: "bytes \<Rightarrow> string option" where
  "pixel_format_from_hevc_decoder_config payload =
     (if length payload < 23 \<or> payload ! 0 \<noteq> 1 then None
      else pixel_format_label (unat (payload ! 16 AND 0x03)) (8 + unat (payload ! 17 AND 0x07)))"

primrec first_pixel_format :: "atom list \<Rightarrow> string option" where
  "first_pixel_format [] = None"
| "first_pixel_format (a # as) =
     (if at_kind a = ascii ''avcC'' then pixel_format_from_avc_decoder_config (at_payload a)
      else if at_kind a = ascii ''hvcC'' then pixel_format_from_hevc_decoder_config (at_payload a)
      else first_pixel_format as)"

definition parse_video_sample_entry_pixel_format :: "bytes \<Rightarrow> bytes \<Rightarrow> string option" where
  "parse_video_sample_entry_pixel_format codec_fourcc payload =
     Option.bind (sample_entry_child_boxes MtVideo codec_fourcc payload) (\<lambda>cs. first_pixel_format (atoms cs))"

section \<open>Atmos\<close>

text \<open>\<open>BitReader\<close>: the state is the bit offset.\<close>

definition bit_at :: "bytes \<Rightarrow> nat \<Rightarrow> nat" where
  "bit_at bs i = unat (drop_bit (7 - i mod 8) (bs ! (i div 8)) AND 1)"

definition read_bits :: "bytes \<Rightarrow> nat \<Rightarrow> nat \<Rightarrow> (nat \<times> nat) option" where
  "read_bits bs bit_offset bit_count =
     (if 32 < bit_count \<or> length bs * 8 < sat_add 64 bit_offset bit_count then None
      else Some (fold (\<lambda>i v. (v * 2 + bit_at bs i) mod 2 ^ 32) [bit_offset..<bit_offset + bit_count] 0,
             bit_offset + bit_count))"

text \<open>\<open>n\<close> independent substreams are left.\<close>

fun dec3_substreams :: "bytes \<Rightarrow> nat \<Rightarrow> nat \<Rightarrow> nat option" where
  "dec3_substreams bs 0 pos = Some pos"
| "dec3_substreams bs (Suc n) pos =
     Option.bind (read_bits bs pos 24) (\<lambda>(_, pos).
     Option.bind (read_bits bs pos 4) (\<lambda>(num_dep_sub, pos).
     Option.bind (read_bits bs pos (if num_dep_sub = 0 then 1 else 9)) (\<lambda>(_, pos).
       dec3_substreams bs n pos)))"

definition dec3_has_eac3_extension_type_a :: "bytes \<Rightarrow> bool" where
  "dec3_has_eac3_extension_type_a payload =
     (case Option.bind (read_bits payload 0 13) (\<lambda>(_, pos).
           Option.bind (read_bits payload pos 3) (\<lambda>(num_ind_sub, pos).
           Option.bind (dec3_substreams payload (num_ind_sub + 1) pos) (\<lambda>pos.
           Option.bind (read_bits payload pos 7) (\<lambda>(_, pos).
             read_bits payload pos 1)))) of
        Some (v, _) \<Rightarrow> v = 1
      | None \<Rightarrow> False)"

definition parse_audio_sample_entry_atmos :: "bytes \<Rightarrow> bytes \<Rightarrow> bool" where
  "parse_audio_sample_entry_atmos codec_fourcc payload =
     (codec_fourcc = ascii ''ec-3'' \<and>
      (case sample_entry_child_boxes MtAudio codec_fourcc payload of
         None \<Rightarrow> False
       | Some child_boxes \<Rightarrow>
           list_ex (\<lambda>a. at_kind a = ascii ''dec3'' \<and> dec3_has_eac3_extension_type_a (at_payload a)) (atoms child_boxes)))"

section \<open>Dynamic range\<close>

datatype mp4_dynamic_range = Sdr | Hdr10 | Hlg | DolbyVision | UnknownRange

definition dynamic_range_from_colr :: "bytes \<Rightarrow> mp4_dynamic_range" where
  "dynamic_range_from_colr payload =
     (if length payload < 10 then UnknownRange
      else if slice payload 0 4 \<noteq> ascii ''nclx'' \<and> slice payload 0 4 \<noteq> ascii ''nclc'' then UnknownRange
      else if read_u16 (slice payload 6 8) = Some 16 then Hdr10
      else if read_u16 (slice payload 6 8) = Some 18 then Hlg
      else Sdr)"

primrec dynamic_range_of_atoms :: "mp4_dynamic_range \<Rightarrow> atom list \<Rightarrow> mp4_dynamic_range" where
  "dynamic_range_of_atoms r [] = r"
| "dynamic_range_of_atoms r (a # as) =
     (if at_kind a \<in> fourccs [''dvcC'', ''dvvC''] then DolbyVision
      else if at_kind a = ascii ''colr'' \<and> r = UnknownRange
        then dynamic_range_of_atoms (dynamic_range_from_colr (at_payload a)) as
      else dynamic_range_of_atoms r as)"

definition parse_video_sample_entry_dynamic_range :: "bytes \<Rightarrow> bytes \<Rightarrow> mp4_dynamic_range" where
  "parse_video_sample_entry_dynamic_range codec_fourcc payload =
     (let r = (if codec_fourcc \<in> fourccs [''dvh1'', ''dvhe''] then DolbyVision else UnknownRange)
      in case sample_entry_child_boxes MtVideo codec_fourcc payload of
           None \<Rightarrow> r
         | Some child_boxes \<Rightarrow> dynamic_range_of_atoms r (atoms child_boxes))"

section \<open>The whole sample entry\<close>

record sample_entry_info =
  sei_codec :: string
  sei_width :: "nat option"
  sei_height :: "nat option"
  sei_channels :: "nat option"
  sei_sample_rate :: "nat option"
  sei_dynamic_range :: mp4_dynamic_range
  sei_pixel_format :: "string option"
  sei_atmos :: bool

definition parse_sample_entry :: "bytes \<Rightarrow> bytes \<Rightarrow> sample_entry_info" where
  "parse_sample_entry codec_fourcc payload =
     (let kind = (if is_video_sample_entry codec_fourcc then MtVideo
                  else if is_audio_sample_entry codec_fourcc then MtAudio else MtUnknown);
          config = codec_config_from_sample_entry kind
            \<lparr>se_codec_fourcc = codec_fourcc, se_payload = payload\<rparr>;
          out = \<lparr>sei_codec = sample_entry_codec_from_config codec_fourcc kind config, sei_width = None,
            sei_height = None, sei_channels = None, sei_sample_rate = None, sei_dynamic_range = UnknownRange,
            sei_pixel_format = None, sei_atmos = False\<rparr>
      in if is_video_sample_entry codec_fourcc then
           (let out = (if 28 \<le> length payload
                       then out\<lparr>sei_width := read_u16 (slice payload 24 26),
                              sei_height := read_u16 (slice payload 26 28)\<rparr>
                       else out)
            in out\<lparr>sei_dynamic_range := parse_video_sample_entry_dynamic_range codec_fourcc payload,
                 sei_pixel_format := parse_video_sample_entry_pixel_format codec_fourcc payload\<rparr>)
         else if is_audio_sample_entry codec_fourcc \<and> 28 \<le> length payload then
           out\<lparr>sei_channels := read_u16 (slice payload 16 18),
             sei_sample_rate := map_option (\<lambda>v. v div 2 ^ 16) (read_u32 (slice payload 24 28)),
             sei_atmos := parse_audio_sample_entry_atmos codec_fourcc payload\<rparr>
         else out)"

definition parse_stsd :: "bytes \<Rightarrow> sample_entry_info option" where
  "parse_stsd payload =
     map_option (\<lambda>entry. parse_sample_entry (se_codec_fourcc entry) (se_payload entry)) (parse_stsd_entry payload)"

end
