(* ===== verification/Mp4Meta.thy ===== *)
theory Mp4Meta
  imports Mp4Codec
begin

text \<open>
  The movie metadata of \<open>container/mp4.rs\<close> (lines 238 to 444, 457 to 703 and 1703 to 2011): the file
  type, movie, track, media and handler boxes, titles, languages and chapters, and the walk that
  names the tracks \<open>v0\<close>, \<open>a0\<close>, \<open>s0\<close> and hands the requested one to the packet, chunk and codec
  readers. Floating point frame rates are left out of the records.
\<close>

section \<open>Text fields\<close>

text \<open>\<open>bytes.split(|b| b == 0).next()\<close> is the prefix before the first NUL.\<close>

definition parse_mp4_string :: "bytes \<Rightarrow> ustring option" where
  "parse_mp4_string payload =
     (let bs = (case payload of
            len # rest \<Rightarrow> if unat len = length rest then rest else payload
          | [] \<Rightarrow> payload);
          bs = dropWhile ascii_whitespace (takeWhile (\<lambda>b. b \<noteq> 0) bs)
      in Option.bind (utf8_decode bs) (\<lambda>txt.
           let txt = trim txt in if txt = [] then None else Some txt))"

primrec first_some :: "('a \<Rightarrow> 'b option) \<Rightarrow> 'a list \<Rightarrow> 'b option" where
  "first_some f [] = None"
| "first_some f (x # xs) = (case f x of Some y \<Rightarrow> Some y | None \<Rightarrow> first_some f xs)"

lemma first_some_cong [fundef_cong]:
  "xs = ys \<Longrightarrow> (\<And>x. x \<in> set ys \<Longrightarrow> f x = g x) \<Longrightarrow> first_some f xs = first_some g ys"
  by (induction xs arbitrary: ys) (auto split: option.splits)

definition parse_ilst_title :: "bytes \<Rightarrow> ustring option" where
  "parse_ilst_title payload =
     first_some (\<lambda>a. if at_kind a \<noteq> [0xa9] @ ascii ''nam'' then None
       else first_some (\<lambda>child. if at_kind child \<noteq> ascii ''data'' then None
         else Option.bind (get_from (at_payload child) 8) parse_mp4_string) (atoms (at_payload a)))
       (atoms payload)"

text \<open>\<open>meta\<close> boxes nest: the function recurses into their payload.\<close>

function parse_udta_title :: "bytes \<Rightarrow> ustring option" where
  "parse_udta_title payload =
     first_some (\<lambda>a.
       if at_kind a = ascii ''name'' then parse_mp4_string (at_payload a)
       else if at_kind a = ascii ''meta'' then
         parse_udta_title (case get_from (at_payload a) 4 of Some p \<Rightarrow> p | None \<Rightarrow> at_payload a)
       else if at_kind a = ascii ''ilst'' then parse_ilst_title (at_payload a)
       else None) (atoms payload)"
  by pat_completeness auto
termination
proof (relation "measure length", goal_cases)
  case (2 payload a)
  then have "length (at_payload a) < length payload" by (simp add: atoms_def atom_iter.member_shorter)
  then show ?case by (auto simp: get_from_def)
qed simp

declare parse_udta_title.simps [simp del]

section \<open>Header boxes\<close>

record handler_info =
  hi_kind :: "string option"
  hi_name :: "ustring option"

definition parse_hdlr :: "bytes \<Rightarrow> handler_info" where
  "parse_hdlr payload =
     (if length payload < 12 then \<lparr>hi_kind = None, hi_name = None\<rparr>
      else \<lparr>hi_kind = fourcc_to_string (slice payload 8 12),
             hi_name = Option.bind (get_from payload 24) parse_mp4_string\<rparr>)"

definition duration_to_ms :: "nat \<Rightarrow> nat \<Rightarrow> nat option" where
  "duration_to_ms duration timescale =
     (if timescale = 0 then None else Some (sat_mul 64 duration 1000 div timescale))"

definition parse_mdhd_duration_ms :: "bytes \<Rightarrow> nat option" where
  "parse_mdhd_duration_ms payload =
     (case payload of [] \<Rightarrow> None
      | version # _ \<Rightarrow>
          if version = 1 then
            (if length payload < 32 then None
             else Option.bind (read_u32 (slice payload 20 24)) (\<lambda>timescale.
               Option.bind (read_u64 (slice payload 24 32)) (\<lambda>duration. duration_to_ms duration timescale)))
          else
            (if length payload < 20 then None
             else Option.bind (read_u32 (slice payload 12 16)) (\<lambda>timescale.
               Option.bind (read_u32 (slice payload 16 20)) (\<lambda>duration. duration_to_ms duration timescale))))"

definition parse_mvhd_duration_ms :: "bytes \<Rightarrow> nat option" where
  "parse_mvhd_duration_ms payload =
     (case payload of [] \<Rightarrow> None
      | version # _ \<Rightarrow>
          if version = 1 then
            (if length payload < 32 then None
             else Option.bind (read_u32 (slice payload 20 24)) (\<lambda>timescale.
               Option.bind (read_u64 (slice payload 24 32)) (\<lambda>duration. duration_to_ms duration timescale)))
          else
            (if length payload < 20 then None
             else Option.bind (read_u32 (slice payload 12 16)) (\<lambda>timescale.
               Option.bind (read_u32 (slice payload 16 20)) (\<lambda>duration. duration_to_ms duration timescale))))"

definition iso_letter :: "nat \<Rightarrow> nat \<Rightarrow> nat" where
  "iso_letter bits shift = bits div 2 ^ shift mod 32"

definition decode_iso_639_2 :: "nat \<Rightarrow> string option" where
  "decode_iso_639_2 bits =
     (if bits = 0 \<or> bits = 0x55c4 then None
      else let values = map (iso_letter bits) [10, 5, 0]
           in if list_ex (\<lambda>v. v = 0 \<or> 26 < v) values then None
              else Some (map (\<lambda>v. char_of (97 + v - 1)) values))"

definition parse_mdhd_language :: "bytes \<Rightarrow> string option" where
  "parse_mdhd_language payload =
     (case payload of [] \<Rightarrow> None
      | version # _ \<Rightarrow>
          let language_offset = (if version = 1 then 32 else 20)
          in if length payload < language_offset + 2 then None
             else Option.bind (read_u16 (slice payload language_offset (language_offset + 2))) decode_iso_639_2)"

definition fixed_16_16_to_u32 :: "nat \<Rightarrow> nat" where
  "fixed_16_16_to_u32 v = v div 2 ^ 16 + (if 0x8000 \<le> v mod 2 ^ 16 then 1 else 0)"

record tkhd_info =
  tk_enabled :: bool
  tk_size :: "(nat \<times> nat) option"

definition tkhd_enabled :: "bytes \<Rightarrow> bool option" where
  "tkhd_enabled payload = (if length payload < 4 then None else Some (payload ! 3 AND 0x01 \<noteq> 0))"

definition parse_tkhd_size :: "bytes \<Rightarrow> (nat \<times> nat) option" where
  "parse_tkhd_size payload =
     (case payload of [] \<Rightarrow> None
      | version # _ \<Rightarrow>
          let (width_offset, height_offset) = (if version = 1 then (88, 92) else (76, 80))
          in if length payload < height_offset + 4 then None
             else Option.bind (read_u32 (slice payload width_offset (width_offset + 4))) (\<lambda>w.
               Option.bind (read_u32 (slice payload height_offset (height_offset + 4))) (\<lambda>h.
                 let width = fixed_16_16_to_u32 w; height = fixed_16_16_to_u32 h
                 in if width = 0 \<or> height = 0 then None else Some (width, height))))"

definition parse_tkhd :: "bytes \<Rightarrow> tkhd_info option" where
  "parse_tkhd payload =
     map_option (\<lambda>enabled. \<lparr>tk_enabled = enabled, tk_size = parse_tkhd_size payload\<rparr>) (tkhd_enabled payload)"

section \<open>Chapters\<close>

record mp4_chapter =
  ch_id :: string
  ch_start_ms :: nat
  ch_end_ms :: "nat option"
  ch_title :: "ustring option"
  ch_language :: "string option"

text \<open>\<open>n\<close> chapters are left; any that does not fit drops the whole list.\<close>

fun chpl_loop :: "bytes \<Rightarrow> nat \<Rightarrow> nat \<Rightarrow> mp4_chapter list \<Rightarrow> mp4_chapter list" where
  "chpl_loop payload 0 offset chapters = chapters"
| "chpl_loop payload (Suc n) offset chapters =
     (if length payload < offset + 9 then []
      else case read_u64 (slice payload offset (offset + 8)) of
        None \<Rightarrow> []
      | Some start_units \<Rightarrow>
          let title_len = unat (payload ! (offset + 8)); offset = offset + 9
          in if length payload < offset + title_len then []
             else
               let title = (case utf8_decode (slice payload offset (offset + title_len)) of
                     Some v \<Rightarrow> if v = [] then None else Some v | None \<Rightarrow> None)
               in chpl_loop payload n (offset + title_len)
                    (chapters @ [\<lparr>ch_id = ''ch'' @ show_nat (length chapters), ch_start_ms = start_units div 10000,
                       ch_end_ms = None, ch_title = title, ch_language = None\<rparr>]))"

fun chain_ends :: "mp4_chapter list \<Rightarrow> mp4_chapter list" where
  "chain_ends (c # d # cs) = c\<lparr>ch_end_ms := Some (ch_start_ms d)\<rparr> # chain_ends (d # cs)"
| "chain_ends cs = cs"

definition parse_chpl :: "bytes \<Rightarrow> mp4_chapter list" where
  "parse_chpl payload =
     (if length payload < 5 then []
      else
        let offset = (if payload ! 0 \<noteq> 0 then 8 else 4)
        in case get_at payload offset of
             None \<Rightarrow> []
           | Some chapter_count \<Rightarrow> chain_ends (chpl_loop payload (unat chapter_count) (offset + 1) []))"

section \<open>Media and track boxes\<close>

record mdia_info =
  md_handler :: handler_info
  md_duration_ms :: "nat option"
  md_language :: "string option"
  md_bitrate_bps :: "nat option"
  md_sample_entry :: "sample_entry_info option"

text \<open>The locals of \<open>parse_mdia\<close>, updated box by box.\<close>

record mdia_locals =
  ml_handler :: handler_info
  ml_duration_ms :: "nat option"
  ml_language :: "string option"
  ml_timescale :: "nat option"
  ml_sample_entry :: "sample_entry_info option"
  ml_sample_timing :: "sample_timing option"

definition parse_stbl :: "bytes \<Rightarrow> sample_entry_info option" where
  "parse_stbl payload = Option.bind (find_atom payload (ascii ''stsd'')) parse_stsd"

definition mdia_step :: "mdia_locals \<Rightarrow> atom \<Rightarrow> mdia_locals" where
  "mdia_step l a =
     (if at_kind a = ascii ''hdlr'' then l\<lparr>ml_handler := parse_hdlr (at_payload a)\<rparr>
      else if at_kind a = ascii ''mdhd'' then
        l\<lparr>ml_duration_ms := parse_mdhd_duration_ms (at_payload a), ml_language := parse_mdhd_language (at_payload a),
          ml_timescale := parse_mdhd_timescale (at_payload a)\<rparr>
      else if at_kind a = ascii ''minf'' then
        (let stbl = find_atom (at_payload a) (ascii ''stbl'')
         in l\<lparr>ml_sample_entry := Option.bind stbl parse_stbl, ml_sample_timing := Option.bind stbl parse_sample_timing\<rparr>)
      else l)"

definition parse_mdia :: "bytes \<Rightarrow> mdia_info option" where
  "parse_mdia payload =
     (let l = foldl mdia_step \<lparr>ml_handler = \<lparr>hi_kind = None, hi_name = None\<rparr>, ml_duration_ms = None,
            ml_language = None, ml_timescale = None, ml_sample_entry = None, ml_sample_timing = None\<rparr> (atoms payload)
      in Some \<lparr>md_handler = ml_handler l, md_duration_ms = ml_duration_ms l, md_language = ml_language l,
           md_bitrate_bps = bitrate_from_sample_timing (ml_timescale l) (ml_sample_timing l),
           md_sample_entry = ml_sample_entry l\<rparr>)"

record mp4_track =
  m4_index :: nat
  m4_kind :: mp4_track_kind
  m4_codec :: string
  m4_duration_ms :: "nat option"
  m4_language :: "string option"
  m4_title :: "ustring option"
  m4_default :: bool
  m4_forced :: bool
  m4_bitrate_bps :: "nat option"
  m4_dynamic_range :: mp4_dynamic_range
  m4_pixel_format :: "string option"
  m4_width :: "nat option"
  m4_height :: "nat option"
  m4_channels :: "nat option"
  m4_sample_rate :: "nat option"
  m4_atmos :: bool

definition trak_step ::
    "tkhd_info option \<times> mdia_info option \<times> ustring option \<Rightarrow> atom \<Rightarrow>
     tkhd_info option \<times> mdia_info option \<times> ustring option" where
  "trak_step = (\<lambda>(tkhd, mdia, title) a.
     if at_kind a = ascii ''tkhd'' then (parse_tkhd (at_payload a), mdia, title)
     else if at_kind a = ascii ''mdia'' then (tkhd, parse_mdia (at_payload a), title)
     else if at_kind a = ascii ''udta'' then
       (tkhd, mdia, case title of Some t \<Rightarrow> Some t | None \<Rightarrow> parse_udta_title (at_payload a))
     else (tkhd, mdia, title))"

definition entry_or_header_size :: "sample_entry_info \<Rightarrow> tkhd_info option \<Rightarrow> nat option \<times> nat option" where
  "entry_or_header_size stsd tkhd =
     (if sei_width stsd \<noteq> None \<or> sei_height stsd \<noteq> None then (sei_width stsd, sei_height stsd)
      else case Option.bind tkhd tk_size of Some (w, h) \<Rightarrow> (Some w, Some h) | None \<Rightarrow> (None, None))"

definition parse_trak :: "bytes \<Rightarrow> nat \<Rightarrow> mp4_track option" where
  "parse_trak payload index =
     (let (tkhd, mdia, title) = foldl trak_step (None, None, None) (atoms payload)
      in Option.bind mdia (\<lambda>mdia. Option.bind (md_sample_entry mdia) (\<lambda>stsd.
           let (width, height) = entry_or_header_size stsd tkhd
           in Some \<lparr>m4_index = index, m4_kind = handler_to_track_kind (hi_kind (md_handler mdia)),
                m4_codec = sei_codec stsd, m4_duration_ms = md_duration_ms mdia, m4_language = md_language mdia,
                m4_title = (case title of Some t \<Rightarrow> Some t | None \<Rightarrow> hi_name (md_handler mdia)),
                m4_default = (case tkhd of Some t \<Rightarrow> tk_enabled t | None \<Rightarrow> False), m4_forced = False,
                m4_bitrate_bps = md_bitrate_bps mdia, m4_dynamic_range = sei_dynamic_range stsd,
                m4_pixel_format = sei_pixel_format stsd, m4_width = width, m4_height = height,
                m4_channels = sei_channels stsd, m4_sample_rate = sei_sample_rate stsd, m4_atmos = sei_atmos stsd\<rparr>)))"

definition parse_trak_kind :: "bytes \<Rightarrow> mp4_track_kind option" where
  "parse_trak_kind payload =
     Option.bind (find_atom payload (ascii ''mdia'')) (\<lambda>mdia.
       map_option (\<lambda>hdlr. handler_to_track_kind (hi_kind (parse_hdlr hdlr))) (find_atom mdia (ascii ''hdlr'')))"

section \<open>Movie metadata\<close>

record mp4_basic_metadata =
  bm_major_brand :: "string option"
  bm_compatible_brands :: "string list"
  bm_duration_ms :: "nat option"
  bm_tracks :: "mp4_track list"
  bm_chapters :: "mp4_chapter list"

text \<open>The \<open>while offset + 4 <= len\<close> loop of \<open>parse_ftyp\<close> over the bytes from \<open>offset\<close> on.\<close>

fun compatible_brands_from :: "bytes \<Rightarrow> string list" where
  "compatible_brands_from (a # b # c # d # rest) =
     (case fourcc_to_string [a, b, c, d] of Some brand \<Rightarrow> [brand] | None \<Rightarrow> []) @ compatible_brands_from rest"
| "compatible_brands_from _ = []"

definition parse_ftyp :: "bytes \<Rightarrow> mp4_basic_metadata \<Rightarrow> mp4_basic_metadata" where
  "parse_ftyp payload meta =
     (if length payload < 8 then meta
      else meta\<lparr>bm_major_brand := fourcc_to_string (slice payload 0 4),
             bm_compatible_brands := bm_compatible_brands meta @ compatible_brands_from (drop 8 payload)\<rparr>)"

text \<open>The first non-empty chapter list among the children of \<open>udta\<close>.\<close>

definition udta_chapters :: "bytes \<Rightarrow> mp4_chapter list option" where
  "udta_chapters payload =
     first_some (\<lambda>child. if at_kind child = ascii ''chpl'' then
         (let chapters = parse_chpl (at_payload child) in if chapters = [] then None else Some chapters)
       else None) (atoms payload)"

definition moov_step :: "mp4_basic_metadata \<Rightarrow> atom \<Rightarrow> mp4_basic_metadata" where
  "moov_step meta a =
     (if at_kind a = ascii ''mvhd'' then meta\<lparr>bm_duration_ms := parse_mvhd_duration_ms (at_payload a)\<rparr>
      else if at_kind a = ascii ''trak'' then
        (case parse_trak (at_payload a) (length (bm_tracks meta)) of
           Some track \<Rightarrow> meta\<lparr>bm_tracks := bm_tracks meta @ [track]\<rparr>
         | None \<Rightarrow> meta)
      else if at_kind a = ascii ''chpl'' then
        (let chapters = parse_chpl (at_payload a) in if chapters = [] then meta else meta\<lparr>bm_chapters := chapters\<rparr>)
      else if at_kind a = ascii ''udta'' \<and> bm_chapters meta = [] then
        (case udta_chapters (at_payload a) of Some chapters \<Rightarrow> meta\<lparr>bm_chapters := chapters\<rparr> | None \<Rightarrow> meta)
      else meta)"

definition parse_moov :: "bytes \<Rightarrow> mp4_basic_metadata \<Rightarrow> mp4_basic_metadata" where
  "parse_moov payload meta = foldl moov_step meta (atoms payload)"

definition parse_basic_metadata :: "bytes \<Rightarrow> mp4_basic_metadata" where
  "parse_basic_metadata bs =
     foldl (\<lambda>meta a. if at_kind a = ascii ''ftyp'' then parse_ftyp (at_payload a) meta
       else if at_kind a = ascii ''moov'' then parse_moov (at_payload a) meta else meta)
       \<lparr>bm_major_brand = None, bm_compatible_brands = [], bm_duration_ms = None, bm_tracks = [], bm_chapters = []\<rparr>
       (atoms bs)"

section \<open>Naming and choosing tracks\<close>

text \<open>The four counters of the walk: video, audio, subtitle, unknown.\<close>

type_synonym counters = "nat \<times> nat \<times> nat \<times> nat"

definition next_track_id :: "mp4_track_kind \<Rightarrow> counters \<Rightarrow> string \<times> counters" where
  "next_track_id kind = (\<lambda>(v, a, s, x).
     case kind of
       MtVideo \<Rightarrow> (''v'' @ show_nat v, (v + 1, a, s, x))
     | MtAudio \<Rightarrow> (''a'' @ show_nat a, (v, a + 1, s, x))
     | MtSubtitle \<Rightarrow> (''s'' @ show_nat s, (v, a, s + 1, x))
     | MtUnknown \<Rightarrow> (''x'' @ show_nat x, (v, a, s, x + 1)))"

definition should_parse :: "string option \<Rightarrow> mp4_track_kind \<Rightarrow> string \<Rightarrow> bool" where
  "should_parse requested kind track_id =
     (case requested of Some r \<Rightarrow> r = track_id | None \<Rightarrow> kind = MtVideo)"

text \<open>The \<open>trak\<close> boxes of every \<open>moov\<close>, in the order the two nested loops visit them.\<close>

definition trak_boxes :: "bytes \<Rightarrow> bytes list" where
  "trak_boxes bs =
     concat (map (\<lambda>moov. map at_payload (filter (\<lambda>a. at_kind a = ascii ''trak'') (atoms (at_payload moov))))
       (filter (\<lambda>a. at_kind a = ascii ''moov'') (atoms bs)))"

record mp4_track_packet_index =
  mi_track_id :: string
  mi_track_index :: nat
  mi_kind :: mp4_track_kind
  mi_timescale :: time_scale
  mi_packets :: "packet_ref list"

definition parse_trak_packet_index :: "bytes \<Rightarrow> nat \<Rightarrow> mp4_track_kind \<Rightarrow> string \<Rightarrow> mp4_track_packet_index option" where
  "parse_trak_packet_index payload track_index kind track_id =
     map_option (\<lambda>(scale, table). \<lparr>mi_track_id = track_id, mi_track_index = track_index, mi_kind = kind,
         mi_timescale = scale, mi_packets = into_packets table scale\<rparr>) (parse_trak_sample_table payload)"

fun packet_track_loop :: "string option \<Rightarrow> counters \<Rightarrow> nat \<Rightarrow> bytes list \<Rightarrow> mp4_track_packet_index option" where
  "packet_track_loop requested cs index [] = None"
| "packet_track_loop requested cs index (trak # traks) =
     (case parse_trak_kind trak of
        None \<Rightarrow> packet_track_loop requested cs (index + 1) traks
      | Some kind \<Rightarrow>
          let (track_id, cs) = next_track_id kind cs
          in if should_parse requested kind track_id then parse_trak_packet_index trak index kind track_id
             else packet_track_loop requested cs (index + 1) traks)"

definition parse_packet_track :: "bytes \<Rightarrow> string option \<Rightarrow> mp4_track_packet_index option" where
  "parse_packet_track bs requested = packet_track_loop requested (0, 0, 0, 0) 0 (trak_boxes bs)"

fun chunk_plan_loop :: "string option \<Rightarrow> nat \<Rightarrow> counters \<Rightarrow> bytes list \<Rightarrow> (chunk_plan \<times> nat option) option" where
  "chunk_plan_loop requested target_ms cs [] = None"
| "chunk_plan_loop requested target_ms cs (trak # traks) =
     (case parse_trak_kind trak of
        None \<Rightarrow> chunk_plan_loop requested target_ms cs traks
      | Some kind \<Rightarrow>
          let (track_id, cs) = next_track_id kind cs
          in if should_parse requested kind track_id then
               map_option (\<lambda>(scale, table).
                 let plan = table_chunk_plan table track_id scale target_ms
                 in (plan, peak_chunk_bitrate table plan)) (parse_trak_sample_table trak)
             else chunk_plan_loop requested target_ms cs traks)"

definition parse_chunk_plan_with_peak_bitrate :: "bytes \<Rightarrow> string option \<Rightarrow> nat \<Rightarrow> (chunk_plan \<times> nat option) option" where
  "parse_chunk_plan_with_peak_bitrate bs requested target_ms =
     chunk_plan_loop requested target_ms (0, 0, 0, 0) (trak_boxes bs)"

definition parse_chunk_plan :: "bytes \<Rightarrow> string option \<Rightarrow> nat \<Rightarrow> chunk_plan option" where
  "parse_chunk_plan bs requested target_ms =
     map_option fst (parse_chunk_plan_with_peak_bitrate bs requested target_ms)"

section \<open>Codec configuration of a track\<close>

record mp4_codec_config =
  cfg_track_id :: string
  cfg_track_kind :: string
  cfg_codec :: string
  cfg_sample_entry :: string
  cfg_config_box :: "string option"
  cfg_codec_string :: "string option"
  cfg_nalu_length_size :: "nat option"
  cfg_description_hex :: "string option"
  cfg_source_video_sample_entry :: "source_video_entry option"

definition parse_trak_codec_config :: "bytes \<Rightarrow> mp4_track_kind \<Rightarrow> string \<Rightarrow> mp4_codec_config option" where
  "parse_trak_codec_config payload kind track_id =
     Option.bind (find_atom payload (ascii ''mdia'')) (\<lambda>mdia.
     Option.bind (Option.bind (find_atom mdia (ascii ''minf'')) (\<lambda>minf. find_atom minf (ascii ''stbl''))) (\<lambda>stbl.
     Option.bind (Option.bind (find_atom stbl (ascii ''stsd'')) parse_stsd_entry) (\<lambda>entry.
     Option.bind (fourcc_to_string (se_codec_fourcc entry)) (\<lambda>sample_entry.
       let config = codec_config_from_sample_entry kind entry
       in Some \<lparr>cfg_track_id = track_id, cfg_track_kind = mp4_track_kind_name kind,
            cfg_codec = sample_entry_codec_from_config (se_codec_fourcc entry) kind config,
            cfg_sample_entry = sample_entry,
            cfg_config_box = Option.bind config (\<lambda>c. fourcc_to_string (cc_box_type c)),
            cfg_codec_string = Option.bind config cc_codec_string,
            cfg_nalu_length_size = Option.bind config cc_nalu_length_size,
            cfg_description_hex = map_option (\<lambda>c. hex_string (cc_description c)) config,
            cfg_source_video_sample_entry =
              (if kind = MtVideo \<and> 78 \<le> length (se_payload entry) \<and>
                  length (se_payload entry) \<le> MAX_COPY_VIDEO_SAMPLE_ENTRY_BYTES
               then Some \<lparr>sve_codec_fourcc = se_codec_fourcc entry, sve_payload = se_payload entry\<rparr>
               else None)\<rparr>))))"

text \<open>Unlike the two walks above, a \<open>trak\<close> without a handler ends this one.\<close>

fun codec_config_loop :: "string option \<Rightarrow> counters \<Rightarrow> bytes list \<Rightarrow> mp4_codec_config option" where
  "codec_config_loop requested cs [] = None"
| "codec_config_loop requested cs (trak # traks) =
     (case parse_trak_kind trak of
        None \<Rightarrow> None
      | Some kind \<Rightarrow>
          let (track_id, cs) = next_track_id kind cs
          in if should_parse requested kind track_id then parse_trak_codec_config trak kind track_id
             else codec_config_loop requested cs traks)"

definition parse_codec_config :: "bytes \<Rightarrow> string option \<Rightarrow> mp4_codec_config option" where
  "parse_codec_config bs requested = codec_config_loop requested (0, 0, 0, 0) (trak_boxes bs)"

end
