(* ===== verification/Mp4Chapters.thy ===== *)
theory Mp4Chapters
  imports Mp4Meta
begin

text \<open>
  The Nero chapter list of \<open>container/mp4.rs\<close>, against an encoder of its layout, and the packed
  language codes of \<open>mdhd\<close>.
\<close>

section \<open>The layout of a chapter list\<close>

definition enc_chapter :: "nat \<times> ustring \<Rightarrow> bytes" where
  "enc_chapter c = be_u64 (fst c) @ byte (length (utf8_encode (snd c))) # utf8_encode (snd c)"

definition enc_chpl :: "(nat \<times> ustring) list \<Rightarrow> bytes" where
  "enc_chpl cs = [1, 0, 0, 0] @ be_u32 0 @ byte (length cs) # concat (map enc_chapter cs)"

definition wf_chapter :: "nat \<times> ustring \<Rightarrow> bool" where
  "wf_chapter c \<longleftrightarrow> fst c < 2 ^ 64 \<and> list_all scalar_value (snd c) \<and> length (utf8_encode (snd c)) < 256"

definition chapter_at :: "nat \<Rightarrow> nat \<times> ustring \<Rightarrow> mp4_chapter" where
  "chapter_at i c = \<lparr>ch_id = ''ch'' @ show_nat i, ch_start_ms = fst c div 10000, ch_end_ms = None,
     ch_title = (if snd c = [] then None else Some (snd c)), ch_language = None\<rparr>"

definition read_chapters :: "(nat \<times> ustring) list \<Rightarrow> mp4_chapter list" where
  "read_chapters cs = map (\<lambda>i. (chapter_at i (cs ! i))
     \<lparr>ch_end_ms := if i + 1 < length cs then Some (fst (cs ! (i + 1)) div 10000) else None\<rparr>) [0..<length cs]"

section \<open>Reading it back\<close>

lemma chpl_step:
  assumes "wf_chapter c" "payload = pre @ enc_chapter c @ rest"
  shows "chpl_loop payload (Suc n) (length pre) acc =
    chpl_loop payload n (length pre + length (enc_chapter c)) (acc @ [chapter_at (length acc) c])"
proof -
  let ?t = "utf8_encode (snd c)"
  have w: "fst c < 2 ^ 64" "utf8_decode ?t = Some (snd c)" "length ?t < 256"
    using assms(1) utf8_roundtrip by (auto simp: wf_chapter_def)
  have s: "slice payload (length pre) (length pre + 8) = be_u64 (fst c)"
    "slice payload (length pre + 9) (length pre + 9 + length ?t) = ?t" "payload ! (length pre + 8) = byte (length ?t)"
    by (simp_all add: assms(2) enc_chapter_def slice_def nth_append)
  have l: "\<not> length payload < length pre + 9" "\<not> length payload < length pre + 9 + length ?t"
    "length pre + 9 + length ?t = length pre + length (enc_chapter c)"
    by (simp_all add: assms(2) enc_chapter_def)
  have u: "unat (byte (length ?t)) = length ?t" "read_u64 (be_u64 (fst c)) = Some (fst c)"
    using w by (simp_all add: read_u64_def)
  show ?thesis
    unfolding chpl_loop.simps(2) if_not_P [OF l(1)] s u option.case Let_def if_not_P [OF l(2)] w(2)
    by (simp add: l(3) chapter_at_def)
qed

lemma chpl_loop_written:
  assumes "list_all wf_chapter cs" "payload = pre @ concat (map enc_chapter cs) @ rest"
  shows "chpl_loop payload (length cs) (length pre) acc =
    acc @ map (\<lambda>i. chapter_at (length acc + i) (cs ! i)) [0..<length cs]"
  using assms
proof (induction cs arbitrary: pre acc)
  case (Cons c cs)
  have "chpl_loop payload (length (c # cs)) (length pre) acc =
      chpl_loop payload (length cs) (length (pre @ enc_chapter c)) (acc @ [chapter_at (length acc) c])"
    using chpl_step [of c payload pre "concat (map enc_chapter cs) @ rest"] Cons.prems by simp
  also have "\<dots> = (acc @ [chapter_at (length acc) c]) @
      map (\<lambda>i. chapter_at (length (acc @ [chapter_at (length acc) c]) + i) (cs ! i)) [0..<length cs]"
    by (rule Cons.IH) (use Cons.prems in simp_all)
  also have "\<dots> = acc @ map (\<lambda>i. chapter_at (length acc + i) ((c # cs) ! i)) [0..<length (c # cs)]"
    by (simp add: upt_conv_Cons map_Suc_upt [symmetric] del: upt_Suc)
  finally show ?case .
qed simp

text \<open>A strict prefix of the entries runs out before the count does.\<close>

lemma chpl_loop_cut:
  assumes "list_all wf_chapter cs" "m < length (concat (map enc_chapter cs))"
    and "payload = pre @ take m (concat (map enc_chapter cs))"
  shows "chpl_loop payload (length cs) (length pre) acc = []"
  using assms
proof (induction cs arbitrary: pre acc m)
  case (Cons c cs)
  let ?e = "enc_chapter c" and ?es = "concat (map enc_chapter cs)"
  show ?case
  proof (cases "length ?e \<le> m")
    case True
    then have p: "payload = pre @ ?e @ take (m - length ?e) ?es" using Cons.prems by simp
    then have "chpl_loop payload (length (c # cs)) (length pre) acc =
        chpl_loop payload (length cs) (length (pre @ ?e)) (acc @ [chapter_at (length acc) c])"
      using chpl_step [of c payload pre "take (m - length ?e) ?es"] Cons.prems(1) by simp
    also have "\<dots> = []" by (rule Cons.IH [of "m - length ?e"]) (use Cons.prems True p in auto)
    finally show ?thesis .
  next
    case False
    then have p: "payload = pre @ take m ?e" using Cons.prems by simp
    have w: "length (utf8_encode (snd c)) < 256" using Cons.prems(1) by (simp add: wf_chapter_def)
    have "\<not> length payload < length pre + 9 \<Longrightarrow> payload ! (length pre + 8) = byte (length (utf8_encode (snd c)))"
      by (simp add: p enc_chapter_def nth_append)
    moreover have "length payload < length pre + 9 + length (utf8_encode (snd c))"
      using False by (simp add: p enc_chapter_def)
    ultimately show ?thesis using w by (auto simp: Let_def split: option.splits)
  qed
qed simp

lemma length_chain_ends [simp]: "length (chain_ends cs) = length cs"
  by (induction cs rule: chain_ends.induct) simp_all

lemma nth_chain_ends: "i < length cs \<Longrightarrow> chain_ends cs ! i =
  (if i + 1 < length cs then (cs ! i)\<lparr>ch_end_ms := Some (ch_start_ms (cs ! (i + 1)))\<rparr> else cs ! i)"
proof (induction cs arbitrary: i rule: chain_ends.induct)
  case (1 c d cs)
  then show ?case by (cases i) auto
qed simp_all

section \<open>Properties\<close>

text \<open>Reading a chapter list is all or nothing: a list of at most 255 chapters with UTF-8 titles is read back
  with every start in milliseconds, each chapter ending where the next begins and the last left open, and
  a list cut short anywhere yields no chapter at all.\<close>

theorem chapters_all_or_nothing:
  assumes "list_all wf_chapter cs" "length cs < 256"
  shows "parse_chpl (enc_chpl cs) = read_chapters cs \<and> (m < length (enc_chpl cs) \<longrightarrow> parse_chpl (take m (enc_chpl cs)) = [])"
proof
  let ?pre = "[1, 0, 0, 0] @ be_u32 0 @ [byte (length cs)]"
  have e: "enc_chpl cs = ?pre @ concat (map enc_chapter cs)" by (simp add: enc_chpl_def)
  have g: "get_at (?pre @ es) 8 = Some (byte (length cs))" "\<not> length (?pre @ es) < 5" "(?pre @ es) ! 0 \<noteq> 0" for es
    by (simp_all add: get_at_def nth_append)
  have n: "unat (byte (length cs)) = length cs" using assms(2) by simp
  have step: "parse_chpl (?pre @ es) = chain_ends (chpl_loop (?pre @ es) (length cs) (length ?pre) [])" for es
    unfolding parse_chpl_def if_not_P [OF g(2)] Let_def if_P [OF g(3)] g(1) option.case n by simp
  show "parse_chpl (enc_chpl cs) = read_chapters cs"
    unfolding e step chpl_loop_written [OF assms(1), of _ ?pre "[]", simplified append_Nil2, OF refl]
    by (rule nth_equalityI) (auto simp: read_chapters_def nth_chain_ends chapter_at_def)
  show "m < length (enc_chpl cs) \<longrightarrow> parse_chpl (take m (enc_chpl cs)) = []"
  proof
    assume m: "m < length (enc_chpl cs)"
    show "parse_chpl (take m (enc_chpl cs)) = []"
    proof (cases "m < 9")
      case True
      have "take m (enc_chpl cs) ! 0 \<noteq> 0" if "0 < m" using that by (simp add: enc_chpl_def)
      then show ?thesis using True by (cases "m < 5") (auto simp: parse_chpl_def get_at_def Let_def)
    next
      case False
      then have t: "take m (enc_chpl cs) = ?pre @ take (m - 9) (concat (map enc_chapter cs))"
        unfolding e by (subst take_append) simp
      have "chpl_loop (?pre @ take (m - 9) (concat (map enc_chapter cs))) (length cs) (length ?pre) [] = []"
        by (rule chpl_loop_cut [OF assms(1), of "m - 9"]) (use m False e in simp_all)
      then show ?thesis unfolding t step by simp
    qed
  qed
qed

theorem chapters_all_or_nothing_witness:
  "let cs = [(0, [0x49]), (600000000, [0xe9])]
   in map ch_end_ms (parse_chpl (enc_chpl cs)) = [Some 60000, None] \<and> parse_chpl (take 29 (enc_chpl cs)) = []"
proof -
  let ?cs = "[(0, [0x49]), (600000000, [0xe9])]"
  have "list_all wf_chapter ?cs"
    by (simp add: wf_chapter_def scalar_value_def utf8_encode_def utf8_encode_char_def)
  from chapters_all_or_nothing [OF this, of 29] show ?thesis
    by (simp add: read_chapters_def chapter_at_def Let_def enc_chpl_def enc_chapter_def utf8_encode_def utf8_encode_char_def)
qed

text \<open>The 15 bits of a language code are the three letters of the code: packing three letters the way
  \<open>mdhd\<close> stores them is inverted by the reader, except for the code of undetermined, which it reports
  as absent.\<close>

theorem language_code_roundtrip:
  assumes "a \<in> {1..26}" "b \<in> {1..26}" "c \<in> {1..26}"
  shows "decode_iso_639_2 (a * 1024 + b * 32 + c) =
    (if (a, b, c) = (21, 14, 4) then None else Some (map (\<lambda>v. char_of (96 + v)) [a, b, c]))"
proof -
  let ?bits = "a * 1024 + b * 32 + c"
  have v: "map (iso_letter ?bits) [10, 5, 0] = [a, b, c]"
  proof -
    have lt: "a < 32" "b < 32" "c < 32" using assms by simp_all
    have d: "(x * 32 + y) div 32 = x" "(x * 32 + y) mod 32 = y" if "y < 32" for x y :: nat
      using that by simp_all
    have x: "?bits = (a * 32 + b) * 32 + c" by simp
    have "?bits div 2 ^ 5 = a * 32 + b" unfolding x using d(1) [OF lt(3)] by simp
    moreover have "?bits mod 32 = c" unfolding x by (rule d(2) [OF lt(3)])
    moreover have "?bits div 2 ^ 10 = ?bits div 2 ^ 5 div 32" by (simp add: div_mult2_eq [symmetric])
    ultimately show ?thesis using d [OF lt(2), of a] lt(1) by (simp add: iso_letter_def)
  qed
  have u: "?bits = 0x55c4 \<longleftrightarrow> (a, b, c) = (21, 14, 4)"
  proof
    assume h: "?bits = 0x55c4"
    have "[a, b, c] = map (iso_letter 0x55c4) [10, 5, 0]" using v unfolding h by simp
    then show "(a, b, c) = (21, 14, 4)" by (simp add: iso_letter_def)
  qed simp
  show ?thesis unfolding decode_iso_639_2_def u Let_def v using assms by (auto simp: add.commute)
qed

theorem language_code_roundtrip_witness: "decode_iso_639_2 (5 * 1024 + 14 * 32 + 7) = Some (map (\<lambda>v. char_of (96 + v)) [5, 14, 7 :: nat])"
  using language_code_roundtrip [of 5 14 7] by simp

end
