(* ===== verification/MkvBlocks.thy ===== *)
theory MkvBlocks
  imports Ebml Packets
begin

text \<open>
  The Matroska packet index of \<open>container/matroska.rs\<close> (lines 736 to 752 and 1241 to 1683):
  blocks and block groups with their four lacing modes, the packets of a track collected
  from the clusters of a segment, and the repair of their decode times and durations. The
  size of \<open>PacketRef\<close> is a parameter; \<open>try_reserve\<close> is taken to succeed. A block is shown to
  be tiled by its frames, written lacings are read back, and every packet lies in the segment.
\<close>

section \<open>Lacing\<close>

record block_frame =
  bf_payload_offset :: nat
  bf_payload_size :: nat

record cluster_block =
  cb_track_number :: nat
  cb_relative_timecode :: int
  cb_keyframe :: bool
  cb_frames :: "block_frame list"

fun frames_from_sizes :: "nat \<Rightarrow> nat \<Rightarrow> nat list \<Rightarrow> block_frame list option" where
  "frames_from_sizes base cursor [] = Some []"
| "frames_from_sizes base cursor (sz # sizes) =
     (case checked_add 64 base cursor of None \<Rightarrow> None
      | Some off \<Rightarrow>
          if 2 ^ 32 \<le> sz then None
          else case checked_add 64 cursor sz of None \<Rightarrow> None
            | Some cursor' \<Rightarrow>
                map_option ((#) \<lparr>bf_payload_offset = off, bf_payload_size = sz\<rparr>)
                  (frames_from_sizes base cursor' sizes))"

text \<open>The inner \<open>loop\<close> of the Xiph reader: 255 continues a size.\<close>

function xiph_size :: "bytes \<Rightarrow> nat \<Rightarrow> nat \<Rightarrow> (nat \<times> nat) option" where
  "xiph_size payload cursor sz =
     (case get_at payload cursor of None \<Rightarrow> None
      | Some b \<Rightarrow>
          (case checked_add 64 sz (unat b) of None \<Rightarrow> None
           | Some sz' \<Rightarrow>
               if unat b \<noteq> 255 then Some (sz', cursor + 1) else xiph_size payload (cursor + 1) sz'))"
  by pat_completeness auto
termination by (relation "measure (\<lambda>(payload, cursor, sz). length payload - cursor)") auto

declare xiph_size.simps [simp del]

fun xiph_sizes :: "bytes \<Rightarrow> nat \<Rightarrow> nat \<Rightarrow> nat \<Rightarrow> (nat list \<times> nat \<times> nat) option" where
  "xiph_sizes payload 0 cursor known_total = Some ([], cursor, known_total)"
| "xiph_sizes payload (Suc n) cursor known_total =
     (case xiph_size payload cursor 0 of None \<Rightarrow> None
      | Some (sz, cursor') \<Rightarrow>
          (case checked_add 64 known_total sz of None \<Rightarrow> None
           | Some known' \<Rightarrow>
               map_option (\<lambda>(sizes, c, k). (sz # sizes, c, k)) (xiph_sizes payload n cursor' known')))"

text \<open>The last frame of a lace takes what the others leave.\<close>

definition laced_frames :: "nat \<Rightarrow> nat \<Rightarrow> (nat list \<times> nat \<times> nat) option \<Rightarrow> block_frame list option" where
  "laced_frames base total_len r =
     (case r of None \<Rightarrow> None
      | Some (sizes, cursor, known_total) \<Rightarrow>
          (case checked_sub total_len cursor of None \<Rightarrow> None
           | Some remaining \<Rightarrow>
               (case checked_sub remaining known_total of None \<Rightarrow> None
                | Some last_size \<Rightarrow> frames_from_sizes base cursor (sizes @ [last_size]))))"

definition parse_xiph_laced_frames :: "bytes \<Rightarrow> nat \<Rightarrow> nat \<Rightarrow> nat \<Rightarrow> block_frame list option" where
  "parse_xiph_laced_frames payload total_len base data_offset =
     (case get_at payload data_offset of None \<Rightarrow> None
      | Some b \<Rightarrow>
          let frame_count = unat b + 1
          in laced_frames base total_len (xiph_sizes payload (frame_count - 1) (data_offset + 1) 0))"

definition parse_fixed_laced_frames :: "bytes \<Rightarrow> nat \<Rightarrow> nat \<Rightarrow> nat \<Rightarrow> block_frame list option" where
  "parse_fixed_laced_frames payload total_len base data_offset =
     (case get_at payload data_offset of None \<Rightarrow> None
      | Some b \<Rightarrow>
          let frame_count = unat b + 1; cursor = data_offset + 1
          in if frame_count = 0 then None
             else case checked_sub total_len cursor of None \<Rightarrow> None
               | Some remaining \<Rightarrow>
                   if remaining mod frame_count \<noteq> 0 then None
                   else frames_from_sizes base cursor (replicate frame_count (remaining div frame_count)))"

definition isize_range :: "int \<Rightarrow> bool" where
  "isize_range i \<longleftrightarrow> - (2 ^ 63) \<le> i \<and> i < 2 ^ 63"

fun ebml_sizes :: "bytes \<Rightarrow> nat \<Rightarrow> nat \<Rightarrow> int \<Rightarrow> nat \<Rightarrow> (nat list \<times> nat \<times> nat) option" where
  "ebml_sizes payload 0 cursor previous known_total = Some ([], cursor, known_total)"
| "ebml_sizes payload (Suc n) cursor previous known_total =
     (if length payload < cursor then None
      else case read_signed_vint (drop cursor payload) of None \<Rightarrow> None
        | Some (delta, len) \<Rightarrow>
            let previous' = previous + delta
            in if \<not> isize_range previous' \<or> previous' < 0 then None
               else case checked_add 64 known_total (nat previous') of None \<Rightarrow> None
                 | Some known' \<Rightarrow>
                     map_option (\<lambda>(sizes, c, k). (nat previous' # sizes, c, k))
                       (ebml_sizes payload n (cursor + len) previous' known'))"

definition parse_ebml_laced_frames :: "bytes \<Rightarrow> nat \<Rightarrow> nat \<Rightarrow> nat \<Rightarrow> block_frame list option" where
  "parse_ebml_laced_frames payload total_len base data_offset =
     (case get_at payload data_offset of None \<Rightarrow> None
      | Some b \<Rightarrow>
          let frame_count = unat b + 1; cursor = data_offset + 1
          in if frame_count = 1
             then (case checked_sub total_len cursor of None \<Rightarrow> None
                   | Some sz \<Rightarrow> frames_from_sizes base cursor [sz])
             else if length payload < cursor then None
             else case read_vint_size (drop cursor payload) of None \<Rightarrow> None
               | Some (first_size, first_len) \<Rightarrow>
                   if 2 ^ 63 \<le> first_size then None
                   else laced_frames base total_len
                     (map_option (\<lambda>(sizes, c, k). (first_size # sizes, c, k))
                       (ebml_sizes payload (frame_count - 2) (cursor + first_len) (int first_size) first_size)))"

section \<open>Blocks\<close>

definition lacing_of :: "u8 \<Rightarrow> nat" where
  "lacing_of flags = unat (drop_bit 1 flags AND 0x03)"

definition parse_block_frames :: "bytes \<Rightarrow> nat \<Rightarrow> nat \<Rightarrow> nat \<Rightarrow> u8 \<Rightarrow> block_frame list option" where
  "parse_block_frames payload total_len base data_offset flags =
     (let lacing = lacing_of flags
      in if lacing = 0
         then (case checked_sub total_len data_offset of None \<Rightarrow> None
               | Some sz \<Rightarrow>
                   (case checked_add 64 base data_offset of None \<Rightarrow> None
                    | Some off \<Rightarrow> if 2 ^ 32 \<le> sz then None
                        else Some [\<lparr>bf_payload_offset = off, bf_payload_size = sz\<rparr>]))
         else if lacing = 1 then parse_xiph_laced_frames payload total_len base data_offset
         else if lacing = 2 then parse_fixed_laced_frames payload total_len base data_offset
         else if lacing = 3 then parse_ebml_laced_frames payload total_len base data_offset
         else None)"

definition parse_block_prefix :: "bytes \<Rightarrow> nat \<Rightarrow> nat \<Rightarrow> bool option \<Rightarrow> cluster_block option" where
  "parse_block_prefix payload total_len base forced_keyframe =
     (case read_vint_size payload of None \<Rightarrow> None
      | Some (track_number, track_len) \<Rightarrow>
          if length payload < track_len + 3 then None
          else
            let relative_timecode = signed_of 16 (be_nat (slice payload track_len (track_len + 2)));
                flags = payload ! (track_len + 2);
                data_offset = track_len + 3
            in map_option (\<lambda>frames.
                 \<lparr>cb_track_number = track_number, cb_relative_timecode = relative_timecode,
                  cb_keyframe = (case forced_keyframe of Some k \<Rightarrow> k | None \<Rightarrow> flags AND 0x80 \<noteq> 0),
                  cb_frames = frames\<rparr>)
               (parse_block_frames payload total_len base data_offset flags))"

definition parse_block :: "bytes \<Rightarrow> nat \<Rightarrow> bool option \<Rightarrow> cluster_block option" where
  "parse_block payload base forced_keyframe = parse_block_prefix payload (length payload) base forced_keyframe"

fun block_group_loop :: "nat \<Rightarrow> element list \<Rightarrow> cluster_block option \<Rightarrow> bool \<Rightarrow> cluster_block option \<times> bool" where
  "block_group_loop base [] block has_reference = (block, has_reference)"
| "block_group_loop base (e # es) block has_reference =
     (if el_id e = 0xa1
      then block_group_loop base es (parse_block (el_payload e) (base + el_payload_offset e) (Some False)) has_reference
      else if el_id e = 0xfb then block_group_loop base es block True
      else block_group_loop base es block has_reference)"

definition parse_block_group :: "bytes \<Rightarrow> nat \<Rightarrow> cluster_block option" where
  "parse_block_group payload base =
     (case block_group_loop base (elements payload) None False of (block, has_reference) \<Rightarrow>
        map_option (\<lambda>b. b\<lparr>cb_keyframe := \<not> has_reference\<rparr>) block)"

definition element_block :: "nat \<Rightarrow> element \<Rightarrow> cluster_block option" where
  "element_block base e =
     (if el_id e = 0xa3 then parse_block (el_payload e) (base + el_payload_offset e) None
      else if el_id e = 0xa0 then parse_block_group (el_payload e) (base + el_payload_offset e)
      else None)"

definition cluster_blocks :: "bytes \<Rightarrow> nat \<Rightarrow> cluster_block list" where
  "cluster_blocks cluster base = List.map_filter (element_block base) (elements cluster)"

section \<open>Frames tile their block\<close>

fun tiles :: "nat \<Rightarrow> block_frame list \<Rightarrow> nat \<Rightarrow> bool" where
  "tiles a [] b \<longleftrightarrow> a = b"
| "tiles a (f # fs) b \<longleftrightarrow> bf_payload_offset f = a \<and> tiles (a + bf_payload_size f) fs b"

lemma tiles_bounds: "tiles a fs b \<Longrightarrow> a \<le> b \<and>
    (\<forall>f \<in> set fs. a \<le> bf_payload_offset f \<and> bf_payload_offset f + bf_payload_size f \<le> b)"
  by (induction a fs b rule: tiles.induct) fastforce+

lemma frames_from_sizes_tiles:
  "frames_from_sizes base cursor sizes = Some fs \<Longrightarrow>
    tiles (base + cursor) fs (base + cursor + sum_list sizes) \<and> map bf_payload_size fs = sizes"
  by (induction base cursor sizes arbitrary: fs rule: frames_from_sizes.induct)
    (fastforce simp: add.assoc split: option.splits if_splits)+

lemma frames_from_sizes_total:
  assumes "base + cursor + sum_list sizes < 2 ^ 64" "\<forall>sz \<in> set sizes. sz < 2 ^ 32"
  obtains fs where "frames_from_sizes base cursor sizes = Some fs"
proof -
  have "\<exists>fs. frames_from_sizes base cursor sizes = Some fs" using assms
    by (induction base cursor sizes rule: frames_from_sizes.induct) (auto simp: checked_add_def)
  with that show ?thesis by blast
qed

lemma xiph_size_bounds:
  "xiph_size payload cursor sz = Some (v, c) \<Longrightarrow> cursor < c \<and> c \<le> length payload"
proof (induction payload cursor sz rule: xiph_size.induct)
  case (1 payload cursor sz)
  show ?case using "1.prems" "1.IH" unfolding xiph_size.simps [of payload cursor sz]
    by (auto split: option.splits if_splits)
qed

lemma xiph_sizes_spec:
  "xiph_sizes payload n cursor known = Some (sizes, c, k) \<Longrightarrow> cursor \<le> length payload \<Longrightarrow>
    length sizes = n \<and> k = known + sum_list sizes \<and> cursor \<le> c \<and> c \<le> length payload"
proof (induction payload n cursor known arbitrary: sizes c k rule: xiph_sizes.induct)
  case (2 payload n cursor known)
  then show ?case
    by (fastforce split: option.splits prod.splits dest: xiph_size_bounds)
qed simp

lemma ebml_sizes_spec:
  "ebml_sizes payload n cursor prev known = Some (sizes, c, k) \<Longrightarrow> cursor \<le> length payload \<Longrightarrow>
    length sizes = n \<and> k = known + sum_list sizes \<and> cursor \<le> c \<and> c \<le> length payload"
proof (induction payload n cursor prev known arbitrary: sizes c k rule: ebml_sizes.induct)
  case (2 payload n cursor prev known)
  obtain delta len where d: "read_signed_vint (drop cursor payload) = Some (delta, len)"
    using "2.prems" by (auto split: option.splits if_splits)
  have "cursor + len \<le> length payload"
    using d "2.prems"(2) by (auto simp: read_signed_vint_def Let_def split: option.splits if_splits dest!: read_vint_size_Some)
  then show ?case using 2 d
    by (fastforce simp: Let_def split: option.splits if_splits)
qed simp

lemma laced_frames_tile:
  assumes "laced_frames base total_len r = Some fs"
  obtains sizes c k last_size where "r = Some (sizes, c, k)" "last_size + k + c = total_len"
    "tiles (base + c) fs (base + c + sum_list sizes + last_size)" "map bf_payload_size fs = sizes @ [last_size]"
proof -
  obtain sizes c k where r: "r = Some (sizes, c, k)" "c + k \<le> total_len"
    "frames_from_sizes base c (sizes @ [total_len - c - k]) = Some fs"
    using assms by (auto simp: laced_frames_def split: option.splits)
  show ?thesis using frames_from_sizes_tiles [OF r(3)] r(1,2)
    by (intro that [of sizes c k "total_len - c - k"]) (simp_all add: add.assoc)
qed

lemma parse_block_frames_tile:
  assumes "parse_block_frames payload (length payload) base h flags = Some fs"
  shows "\<exists>h'. h \<le> h' \<and> h' \<le> length payload \<and> tiles (base + h') fs (base + length payload) \<and>
    fs \<noteq> [] \<and> length fs \<le> 256"
proof -
  have cnt: "unat b + 1 \<le> 256" for b :: u8 using unat_u8_less [of b] by linarith
  have laced: "\<exists>h'. h \<le> h' \<and> h' \<le> length payload \<and> tiles (base + h') fs (base + length payload) \<and>
      fs \<noteq> [] \<and> length fs \<le> 256"
    if l: "laced_frames base (length payload) r = Some fs"
      and r: "\<And>sizes c k. r = Some (sizes, c, k) \<Longrightarrow> length sizes \<le> 255 \<and> k = sum_list sizes \<and> h \<le> c" for r
  proof -
    from laced_frames_tile [OF l] obtain sizes c k ls where a: "r = Some (sizes, c, k)"
      "ls + k + c = length payload" "tiles (base + c) fs (base + c + sum_list sizes + ls)"
      "map bf_payload_size fs = sizes @ [ls]" by metis
    have "length fs = length sizes + 1" using arg_cong [OF a(4), of length] by simp
    moreover have e: "base + c + sum_list sizes + ls = base + length payload" using a(2) r [OF a(1)] by simp
    have "tiles (base + c) fs (base + length payload)" using a(3) unfolding e .
    ultimately show ?thesis using a(2) r [OF a(1)] by (intro exI [of _ c]) auto
  qed
  consider "lacing_of flags = 0" | "lacing_of flags = 1"
    | "lacing_of flags = 2" | "lacing_of flags = 3"
    using assms unfolding parse_block_frames_def Let_def by (auto split: if_splits)
  then show ?thesis
  proof cases
    case 1
    then show ?thesis using assms
      by (intro exI [of _ h]) (auto simp: parse_block_frames_def split: option.splits if_splits)
  next
    case 2
    then obtain b where b: "h < length payload" "b = payload ! h"
      "laced_frames base (length payload) (xiph_sizes payload (unat b) (h + 1) 0) = Some fs"
      using assms by (auto simp: parse_block_frames_def parse_xiph_laced_frames_def Let_def split: option.splits)
    show ?thesis
      using xiph_sizes_spec [of payload "unat b" "h + 1" 0] b(1) cnt [of b] by (intro laced [OF b(3)]) fastforce
  next
    case 3
    then obtain b where b: "h < length payload" "b = payload ! h" "(length payload - (h + 1)) mod (unat b + 1) = 0"
      "frames_from_sizes base (h + 1) (replicate (unat b + 1) ((length payload - (h + 1)) div (unat b + 1))) = Some fs"
      using assms by (auto simp: parse_block_frames_def parse_fixed_laced_frames_def Let_def split: option.splits if_splits)
    let ?ns = "replicate (unat b + 1) ((length payload - (h + 1)) div (unat b + 1))"
    have "sum_list ?ns = (unat b + 1) * ((length payload - (h + 1)) div (unat b + 1))"
      by (simp only: sum_list_replicate of_nat_id)
    also have "\<dots> = length payload - (h + 1)" using b(3) by (metis add_0_right mult_div_mod_eq)
    finally have e: "base + (h + 1) + sum_list ?ns = base + length payload" using b(1) by simp
    have t: "tiles (base + (h + 1)) fs (base + length payload)" and m: "map bf_payload_size fs = ?ns"
      using frames_from_sizes_tiles [OF b(4)] unfolding e by blast+
    have "length fs = unat b + 1" using arg_cong [OF m, of length] by simp
    then show ?thesis using t b(1) cnt [of b] by (intro exI [of _ "h + 1"]) auto
  next
    case 4
    then obtain b where b: "h < length payload" "b = payload ! h"
      "parse_ebml_laced_frames payload (length payload) base h = Some fs"
      using assms by (auto simp: parse_block_frames_def parse_ebml_laced_frames_def split: option.splits)
    show ?thesis
    proof (cases "unat b = 0")
      case True
      then have f: "frames_from_sizes base (h + 1) [length payload - (h + 1)] = Some fs"
        using b by (auto simp: parse_ebml_laced_frames_def split: option.splits)
      show ?thesis using frames_from_sizes_tiles [OF f] b(1) arg_cong [of _ _ length, OF conjunct2 [OF frames_from_sizes_tiles [OF f]]]
        by (intro exI [of _ "h + 1"]) auto
    next
      case False
      then obtain v n where v: "read_vint_size (drop (h + 1) payload) = Some (v, n)"
        "laced_frames base (length payload) (map_option (\<lambda>(sizes, c, k). (v # sizes, c, k))
          (ebml_sizes payload (unat b - 1) (h + 1 + n) (int v) v)) = Some fs"
        using b by (auto simp: parse_ebml_laced_frames_def Let_def split: option.splits if_splits)
      have "n \<le> length (drop (h + 1) payload)" using read_vint_size_Some [OF v(1)] by simp
      then have "h + 1 + n \<le> length payload" using b(1) unfolding length_drop by linarith
      then show ?thesis
        using ebml_sizes_spec [of payload "unat b - 1" "h + 1 + n" "int v" v] cnt [of b]
        by (intro laced [OF v(2)]) fastforce
    qed
  qed
qed

lemma parse_block_tile:
  assumes "parse_block payload base forced = Some b"
  shows "\<exists>h. 4 \<le> h \<and> h \<le> length payload \<and> tiles (base + h) (cb_frames b) (base + length payload) \<and>
    cb_frames b \<noteq> [] \<and> length (cb_frames b) \<le> 256"
proof -
  obtain v n fs where r: "read_vint_size payload = Some (v, n)"
    "parse_block_frames payload (length payload) base (n + 3) (payload ! (n + 2)) = Some fs" "cb_frames b = fs"
    using assms by (auto simp: parse_block_def parse_block_prefix_def Let_def split: option.splits if_splits)
  from read_vint_size_Some [OF r(1)] have "4 \<le> n + 3" by simp
  then show ?thesis using parse_block_frames_tile [OF r(2)] r(3) by (metis le_trans)
qed

text \<open>The frames of an accepted block tile it: whatever the lacing, there are 1 to 256 frames,
  the first starts behind the block header, each starts where the one before it ends and the
  last ends with the block, so no byte is read twice and none beyond the block.\<close>

theorem block_frames_tile:
  assumes "parse_block payload base forced = Some b"
  shows "\<exists>h. 4 \<le> h \<and> h \<le> length payload \<and> tiles (base + h) (cb_frames b) (base + length payload) \<and>
    cb_frames b \<noteq> [] \<and> length (cb_frames b) \<le> 256"
  using assms by (rule parse_block_tile)

theorem block_frames_tile_witness:
  "\<exists>h. 4 \<le> h \<and> h \<le> 6 \<and> tiles (100 + h)
    (cb_frames (the (parse_block (enc_vint 1 1 @ [0, 5, 0x80, 9, 8]) 100 None))) (100 + 6)"
proof -
  obtain b where b: "parse_block (enc_vint 1 1 @ [0, 5, 0x80, 9, 8]) 100 None = Some b"
    by (simp add: parse_block_def parse_block_prefix_def read_vint_size_enc Let_def parse_block_frames_def
        lacing_of_def nth_append checked_sub_def checked_add_def)
  show ?thesis using block_frames_tile [OF b] unfolding b by auto
qed

section \<open>Written laces are read back\<close>

definition xiph_bytes :: "nat \<Rightarrow> bytes" where
  "xiph_bytes n = replicate (n div 255) 255 @ [byte (n mod 255)]"

lemma xiph_size_replicate:
  "m < 255 \<Longrightarrow> acc + 255 * k + m < 2 ^ 64 \<Longrightarrow>
    xiph_size (pre @ replicate k 255 @ byte m # rest) (length pre) acc = Some (acc + 255 * k + m, length pre + k + 1)"
proof (induction k arbitrary: pre acc)
  case 0
  then show ?case unfolding xiph_size.simps [of _ "length pre"] by (simp add: get_at_def checked_add_def)
next
  case (Suc k)
  have "xiph_size ((pre @ [255]) @ replicate k 255 @ byte m # rest) (length (pre @ [255])) (acc + 255)
      = Some (acc + 255 + 255 * k + m, length (pre @ [255]) + k + 1)"
    using Suc.prems by (intro Suc.IH) simp_all
  then show ?case using Suc.prems unfolding xiph_size.simps [of _ "length pre"]
    by (simp add: get_at_def checked_add_def add.assoc)
qed

lemma xiph_size_enc:
  assumes "n < 2 ^ 64"
  shows "xiph_size (pre @ xiph_bytes n @ rest) (length pre) 0 = Some (n, length pre + length (xiph_bytes n))"
proof -
  have "0 + 255 * (n div 255) + n mod 255 = n" by simp
  then show ?thesis using xiph_size_replicate [of "n mod 255" 0 "n div 255" pre rest] assms
    by (simp add: xiph_bytes_def)
qed

lemma xiph_sizes_enc:
  "known + sum_list ns < 2 ^ 64 \<Longrightarrow>
    xiph_sizes (pre @ concat (map xiph_bytes ns) @ rest) (length ns) (length pre) known =
      Some (ns, length pre + length (concat (map xiph_bytes ns)), known + sum_list ns)"
proof (induction ns arbitrary: pre known)
  case (Cons n ns)
  have a: "xiph_size (pre @ xiph_bytes n @ concat (map xiph_bytes ns) @ rest) (length pre) 0
      = Some (n, length pre + length (xiph_bytes n))"
    using Cons.prems by (intro xiph_size_enc) simp
  have "xiph_sizes ((pre @ xiph_bytes n) @ concat (map xiph_bytes ns) @ rest) (length ns)
      (length (pre @ xiph_bytes n)) (known + n) =
      Some (ns, length (pre @ xiph_bytes n) + length (concat (map xiph_bytes ns)), known + n + sum_list ns)"
    using Cons.prems by (intro Cons.IH) simp
  then show ?case using a Cons.prems by (simp add: checked_add_def add.assoc)
qed simp

text \<open>EBML lacing: each size but the first and last is written as the difference to the one
  before it, with a bias that depends on the width of the integer.\<close>

definition vint_bias :: "nat \<Rightarrow> int" where
  "vint_bias w = 2 ^ (7 * w - 1) - 1"

fun enc_deltas :: "nat \<Rightarrow> (nat \<times> nat) list \<Rightarrow> bytes" where
  "enc_deltas prev [] = []"
| "enc_deltas prev ((w, n) # xs) = enc_vint w (nat (int n - int prev + vint_bias w)) @ enc_deltas n xs"

fun deltas_fit :: "nat \<Rightarrow> (nat \<times> nat) list \<Rightarrow> bool" where
  "deltas_fit prev [] = True"
| "deltas_fit prev ((w, n) # xs) \<longleftrightarrow> 1 \<le> w \<and> w \<le> 8 \<and> n < 2 ^ 63 \<and> 0 \<le> int n - int prev + vint_bias w \<and>
     int n - int prev + vint_bias w < 2 ^ (7 * w) \<and> deltas_fit n xs"

lemma read_signed_vint_enc:
  assumes "1 \<le> w" "w \<le> 8" "0 \<le> d + vint_bias w" "d + vint_bias w < 2 ^ (7 * w)"
  shows "read_signed_vint (enc_vint w (nat (d + vint_bias w)) @ rest) = Some (d, w)"
proof -
  have l: "nat (d + vint_bias w) < 2 ^ (7 * w)" using assms(3,4) by (simp add: nat_less_iff)
  have "(2::nat) ^ (7 * w) \<le> 2 ^ 56" using assms(2) by (intro power_increasing) simp_all
  with l have "nat (d + vint_bias w) < 2 ^ 56" by (rule less_le_trans)
  then have "nat (d + vint_bias w) < 2 ^ 63" by (rule less_trans) simp
  then show ?thesis using assms read_vint_size_enc [OF assms(1,2) l, of rest]
    by (simp add: read_signed_vint_def vint_bias_def Let_def)
qed

lemma ebml_sizes_enc:
  "deltas_fit prev xs \<Longrightarrow> prev < 2 ^ 63 \<Longrightarrow> known + sum_list (map snd xs) < 2 ^ 64 \<Longrightarrow>
    ebml_sizes (pre @ enc_deltas prev xs @ rest) (length xs) (length pre) (int prev) known =
      Some (map snd xs, length pre + length (enc_deltas prev xs), known + sum_list (map snd xs))"
proof (induction prev xs arbitrary: pre known rule: enc_deltas.induct)
  case (2 prev w n xs)
  let ?e = "enc_vint w (nat (int n - int prev + vint_bias w))"
  have a: "read_signed_vint (?e @ enc_deltas n xs @ rest) = Some (int n - int prev, w)"
    using "2.prems" read_signed_vint_enc [of w "int n - int prev"] by simp
  have "ebml_sizes ((pre @ ?e) @ enc_deltas n xs @ rest) (length xs) (length (pre @ ?e)) (int n) (known + n) =
      Some (map snd xs, length (pre @ ?e) + length (enc_deltas n xs), known + n + sum_list (map snd xs))"
    using "2.prems" by (intro "2.IH") simp_all
  then show ?case using a "2.prems" by (simp add: Let_def isize_range_def checked_add_def add.assoc)
qed simp

lemma frames_slices:
  "frames_from_sizes base (length pre) (map length fs) = Some frames \<Longrightarrow>
    map (\<lambda>f. slice (pre @ concat fs) (bf_payload_offset f - base) (bf_payload_offset f - base + bf_payload_size f)) frames = fs"
proof (induction fs arbitrary: pre frames)
  case (Cons f fs)
  obtain gs where g: "frames_from_sizes base (length (pre @ f)) (map length fs) = Some gs"
    "frames = \<lparr>bf_payload_offset = base + length pre, bf_payload_size = length f\<rparr> # gs"
    using Cons.prems by (auto split: option.splits if_splits)
  show ?case using Cons.IH [OF g(1)] g(2) by (simp add: slice_def)
qed simp

lemma laced_frames_enc:
  assumes "fs \<noteq> []" "base + length (pre @ concat fs) < 2 ^ 64" "\<forall>f \<in> set fs. length f < 2 ^ 32"
    and "r = Some (map length (butlast fs), length pre, sum_list (map length (butlast fs)))"
  shows "\<exists>frames. laced_frames base (length (pre @ concat fs)) r = Some frames \<and>
    map (\<lambda>f. slice (pre @ concat fs) (bf_payload_offset f - base) (bf_payload_offset f - base + bf_payload_size f)) frames = fs"
proof -
  have f: "fs = butlast fs @ [last fs]" using assms(1) by simp
  have l: "length (concat fs) = sum_list (map length (butlast fs)) + length (last fs)"
    by (subst f) (simp add: length_concat)
  have m: "map length (butlast fs) @ [length (last fs)] = map length fs"
    by (subst (3) f) simp
  obtain frames where fr: "frames_from_sizes base (length pre) (map length fs) = Some frames"
    using assms(2,3) frames_from_sizes_total [of base "length pre" "map length fs"]
    by (auto simp: length_concat add.assoc)
  then have "laced_frames base (length (pre @ concat fs)) r = Some frames"
    using assms(4) l m by (simp add: laced_frames_def checked_sub_def)
  then show ?thesis using frames_slices [OF fr] by blast
qed

text \<open>A block as the format lays it out: track number in a chosen width, relative time code,
  flags with the lacing mode in bits 1 and 2, the lace header and the frames.\<close>

definition enc_lace :: "u8 \<Rightarrow> nat list \<Rightarrow> bytes list \<Rightarrow> bytes" where
  "enc_lace flags ws fs =
     (let ns = map length (butlast fs); count = [byte (length fs - 1)] in
      if lacing_of flags = 0 then []
      else if lacing_of flags = 1 then count @ concat (map xiph_bytes ns)
      else if lacing_of flags = 2 then count
      else count @ (case ns of [] \<Rightarrow> [] | n # ns' \<Rightarrow> enc_vint (hd ws) n @ enc_deltas n (zip (tl ws) ns')))"

definition lace_ok :: "u8 \<Rightarrow> nat list \<Rightarrow> bytes list \<Rightarrow> bool" where
  "lace_ok flags ws fs \<longleftrightarrow> fs \<noteq> [] \<and> length fs \<le> 256 \<and> (\<forall>f \<in> set fs. length f < 2 ^ 32) \<and>
     (lacing_of flags = 0 \<longrightarrow> length fs = 1) \<and>
     (lacing_of flags = 2 \<longrightarrow> (\<forall>f \<in> set fs. length f = length (hd fs))) \<and>
     (lacing_of flags = 3 \<longrightarrow> (case map length (butlast fs) of [] \<Rightarrow> True
        | n # ns \<Rightarrow> length ws = Suc (length ns) \<and> 1 \<le> hd ws \<and> hd ws \<le> 8 \<and> n < 2 ^ (7 * hd ws) \<and>
            deltas_fit n (zip (tl ws) ns)))"

definition enc_block :: "nat \<Rightarrow> nat \<Rightarrow> int \<Rightarrow> u8 \<Rightarrow> nat list \<Rightarrow> bytes list \<Rightarrow> bytes" where
  "enc_block tw track tc flags ws fs =
     enc_vint tw track @ be_u16 (nat (tc mod 2 ^ 16)) @ [flags] @ enc_lace flags ws fs @ concat fs"

definition frame_bytes :: "bytes \<Rightarrow> nat \<Rightarrow> block_frame \<Rightarrow> bytes" where
  "frame_bytes payload base f =
     slice payload (bf_payload_offset f - base) (bf_payload_offset f - base + bf_payload_size f)"

lemma lacing_of_cases: "lacing_of flags = 0 \<or> lacing_of flags = 1 \<or> lacing_of flags = 2 \<or> lacing_of flags = 3"
proof -
  have "drop_bit 1 flags AND 0x03 = take_bit 2 (drop_bit 1 flags)"
    by (rule bit_word_eqI) (auto simp: bit_simps bytes_simps)
  then have "lacing_of flags < 4" unfolding lacing_of_def by (simp add: unat_take_bit_u8 del: drop_bit_Suc)
  then show ?thesis by linarith
qed

lemma signed_of_be_u16:
  assumes "- (2 ^ 15) \<le> i" "i < 2 ^ 15"
  shows "signed_of 16 (be_nat (be_u16 (nat (i mod 2 ^ 16)))) = i"
proof (cases "0 \<le> i")
  case True
  with assms show ?thesis by (simp add: signed_of_def)
next
  case False
  then have m: "i mod 65536 = i + 65536"
    using assms mod_pos_pos_trivial [of "i + 65536" 65536] by simp
  show ?thesis using False assms by (simp add: signed_of_def m)
qed

lemma parse_block_frames_modes:
  "lacing_of flags = 1 \<Longrightarrow> parse_block_frames p t base h flags = parse_xiph_laced_frames p t base h"
  "lacing_of flags = 2 \<Longrightarrow> parse_block_frames p t base h flags = parse_fixed_laced_frames p t base h"
  "lacing_of flags = 3 \<Longrightarrow> parse_block_frames p t base h flags = parse_ebml_laced_frames p t base h"
  by (simp_all add: parse_block_frames_def)

lemma laced_parsers_at:
  assumes "get_at p h = Some b"
  shows "parse_xiph_laced_frames p t base h = laced_frames base t (xiph_sizes p (unat b) (h + 1) 0)"
    "parse_fixed_laced_frames p t base h =
      (if h + 1 \<le> t \<and> (t - (h + 1)) mod (unat b + 1) = 0
       then frames_from_sizes base (h + 1) (replicate (unat b + 1) ((t - (h + 1)) div (unat b + 1))) else None)"
    "unat b = 0 \<Longrightarrow> h + 1 \<le> t \<Longrightarrow>
      parse_ebml_laced_frames p t base h = frames_from_sizes base (h + 1) [t - (h + 1)]"
    "unat b = Suc n \<Longrightarrow> h + 1 \<le> length p \<Longrightarrow> read_vint_size (drop (h + 1) p) = Some (v, l) \<Longrightarrow> v < 2 ^ 63 \<Longrightarrow>
      parse_ebml_laced_frames p t base h = laced_frames base t
        (map_option (\<lambda>(sizes, c, k). (v # sizes, c, k)) (ebml_sizes p n (h + 1 + l) (int v) v))"
  unfolding parse_xiph_laced_frames_def parse_fixed_laced_frames_def parse_ebml_laced_frames_def assms
  by (simp_all add: Let_def checked_sub_def)

lemma parse_block_frames_enc:
  assumes ok: "lace_ok flags ws fs" and room: "base + length (pre @ enc_lace flags ws fs @ concat fs) < 2 ^ 64"
  shows "\<exists>frames. parse_block_frames (pre @ enc_lace flags ws fs @ concat fs)
      (length (pre @ enc_lace flags ws fs @ concat fs)) base (length pre) flags = Some frames \<and>
    map (frame_bytes (pre @ enc_lace flags ws fs @ concat fs) base) frames = fs"
proof -
  let ?p = "pre @ enc_lace flags ws fs @ concat fs"
  have ne: "fs \<noteq> []" and sz: "\<forall>f \<in> set fs. length f < 2 ^ 32" and c256: "length fs \<le> 256"
    using ok unfolding lace_ok_def by blast+
  have cnt: "length fs - 1 < 256" using c256 ne by (cases fs) simp_all
  have cb: "unat (byte (length fs - 1)) = length (butlast fs)" using cnt by simp
  have fit: "sum_list (map length (butlast fs)) < 2 ^ 64"
  proof -
    have "sum_list (map length (butlast fs)) \<le> length (concat (butlast fs @ [last fs]))" by (simp add: length_concat)
    then show ?thesis using room ne by simp
  qed
  have laced: "\<exists>frames. laced_frames base (length ?p) r = Some frames \<and> map (frame_bytes ?p base) frames = fs"
    if "r = Some (map length (butlast fs), length (pre @ enc_lace flags ws fs), sum_list (map length (butlast fs)))" for r
    using laced_frames_enc [OF ne, of base "pre @ enc_lace flags ws fs" r] room sz that
    by (simp add: frame_bytes_def [abs_def])
  show ?thesis
  proof (cases "lacing_of flags = 0")
    case True
    then obtain f where f: "fs = [f]" using ok by (auto simp: lace_ok_def length_Suc_conv)
    then show ?thesis using True room sz
      by (simp add: parse_block_frames_def enc_lace_def frame_bytes_def
          checked_add_def checked_sub_def slice_def)
  next
    case nz: False
    then have g: "get_at ?p (length pre) = Some (byte (length fs - 1))"
      by (simp add: get_at_def enc_lace_def Let_def nth_append split: list.splits)
    consider "lacing_of flags = 1" | "lacing_of flags = 2" | "lacing_of flags = 3"
      using nz lacing_of_cases [of flags] by metis
    then show ?thesis
    proof cases
      case 1
      have x: "xiph_sizes ?p (length (butlast fs)) (length pre + 1) 0 =
          Some (map length (butlast fs), length (pre @ enc_lace flags ws fs), sum_list (map length (butlast fs)))"
        using xiph_sizes_enc [of 0 "map length (butlast fs)" "pre @ [byte (length fs - 1)]" "concat fs"] fit 1
        by (simp add: enc_lace_def Let_def)
      show ?thesis
        using laced [OF x] unfolding parse_block_frames_modes(1) [OF 1] laced_parsers_at(1) [OF g] cb .
    next
      case 2
      have e: "enc_lace flags ws fs = [byte (length fs - 1)]" using 2 by (simp add: enc_lace_def)
      have h: "map length fs = replicate (length fs) (length (hd fs))"
      proof (rule replicate_eqI)
        have "\<forall>f \<in> set fs. length f = length (hd fs)" using ok 2 unfolding lace_ok_def by blast
        then show "x = length (hd fs)" if "x \<in> set (map length fs)" for x using that by auto
      qed simp
      have l: "length (concat fs) = length fs * length (hd fs)"
        unfolding length_concat h by (simp add: sum_list_replicate)
      obtain frames where fr: "frames_from_sizes base (length (pre @ [byte (length fs - 1)])) (map length fs) = Some frames"
        using frames_from_sizes_total [of base "length (pre @ [byte (length fs - 1)])" "map length fs"] room sz
        by (auto simp: e length_concat add.assoc)
      have n: "unat (byte (length fs - 1)) + 1 = length fs" unfolding cb using ne by (cases fs) simp_all
      have t: "length ?p - (length pre + 1) = length fs * length (hd fs)" "length pre + 1 \<le> length ?p"
        using l by (simp_all add: e)
      have d: "length fs * length (hd fs) div length fs = length (hd fs)" using ne by simp
      have "parse_fixed_laced_frames ?p (length ?p) base (length pre) = Some frames"
        using fr t(2) unfolding laced_parsers_at(2) [OF g] n t(1) d h by simp
      then show ?thesis using frames_slices [OF fr] unfolding parse_block_frames_modes(2) [OF 2]
        by (simp add: e frame_bytes_def [abs_def])
    next
      case 3
      show ?thesis
      proof (cases "butlast fs")
        case Nil
        then obtain f where f: "fs = [f]" using ne by (metis append_butlast_last_id append_Nil)
        have c: "length ?p - (length pre + 1) = length f" "length pre + 1 \<le> length ?p"
          using 3 by (simp_all add: enc_lace_def f)
        obtain frames where fr: "frames_from_sizes base (length (pre @ [byte (length fs - 1)])) (map length fs) = Some frames"
          using frames_from_sizes_total [of base "length (pre @ [byte (length fs - 1)])" "map length fs"] room sz 3
          by (auto simp: f enc_lace_def)
        have b0: "unat (byte (length fs - 1)) = 0" unfolding cb by (simp add: f)
        have "parse_block_frames ?p (length ?p) base (length pre) flags = Some frames"
          using fr unfolding parse_block_frames_modes(3) [OF 3] laced_parsers_at(3) [OF g b0 c(2)] c(1) by (simp add: f)
        then show ?thesis using frames_slices [OF fr] 3 by (simp add: f enc_lace_def frame_bytes_def [abs_def])
      next
        case (Cons f gs)
        let ?n = "length f" and ?xs = "zip (tl ws) (map length gs)"
        have w: "length ws = Suc (length gs)" "1 \<le> hd ws" "hd ws \<le> 8" "?n < 2 ^ (7 * hd ws)" "deltas_fit ?n ?xs"
        proof -
          have "lacing_of flags = 3 \<longrightarrow> (case map length (butlast fs) of [] \<Rightarrow> True
            | n # ns \<Rightarrow> length ws = Suc (length ns) \<and> 1 \<le> hd ws \<and> hd ws \<le> 8 \<and> n < 2 ^ (7 * hd ws) \<and>
                deltas_fit n (zip (tl ws) ns))" using ok unfolding lace_ok_def by blast
          then show "length ws = Suc (length gs)" "1 \<le> hd ws" "hd ws \<le> 8" "?n < 2 ^ (7 * hd ws)" "deltas_fit ?n ?xs"
            using 3 Cons by simp_all
        qed
        have snd: "map snd ?xs = map length gs" using w(1) by simp
        have len: "length ?xs = length gs" using w(1) by simp
        have "f \<in> set fs" using Cons by (metis in_set_butlastD list.set_intros(1))
        then have "?n < 2 ^ 32" using sz by blast
        then have n63: "?n < 2 ^ 63" by (rule less_trans) simp
        have e: "enc_lace flags ws fs = byte (length fs - 1) # enc_vint (hd ws) ?n @ enc_deltas ?n ?xs"
          using 3 Cons by (simp add: enc_lace_def)
        have a: "read_vint_size (drop (length pre + 1) ?p) = Some (?n, hd ws)"
          using read_vint_size_enc [OF w(2-4)] by (simp add: e)
        have b: "ebml_sizes ?p (length gs) (length pre + 1 + hd ws) (int ?n) ?n =
            Some (map length gs, length (pre @ enc_lace flags ws fs), ?n + sum_list (map length gs))"
          using ebml_sizes_enc [of ?n ?xs ?n "pre @ byte (length fs - 1) # enc_vint (hd ws) ?n" "concat fs"] w(5) n63 fit
          unfolding snd len by (simp add: e Cons)
        have k: "unat (byte (length fs - 1)) = Suc (length gs)" using cb Cons by simp
        have "\<exists>frames. laced_frames base (length ?p) (map_option (\<lambda>(sizes, c, k). (?n # sizes, c, k))
            (ebml_sizes ?p (length gs) (length pre + 1 + hd ws) (int ?n) ?n)) = Some frames \<and>
            map (frame_bytes ?p base) frames = fs"
          unfolding b by (rule laced) (simp add: Cons)
        then show ?thesis
          unfolding parse_block_frames_modes(3) [OF 3] by (subst laced_parsers_at(4) [OF g k _ a n63]) (simp_all add: e)
      qed
    qed
  qed
qed

text \<open>C33: Whatever lacing a writer uses (none, Xiph, fixed size or EBML with any integer widths),
  the block reader returns the track, the signed time code, the keyframe flag, and frames
  whose ranges hold exactly the written frames, in order.\<close>

theorem block_lacing_roundtrip:
  assumes "1 \<le> tw" "tw \<le> 8" "track < 2 ^ (7 * tw)" and tc: "- (2 ^ 15) \<le> tc" "tc < 2 ^ 15"
    and ok: "lace_ok flags ws fs" and room: "base + length (enc_block tw track tc flags ws fs) < 2 ^ 64"
  shows "\<exists>frames. parse_block (enc_block tw track tc flags ws fs) base forced =
      Some \<lparr>cb_track_number = track, cb_relative_timecode = tc,
        cb_keyframe = (case forced of Some k \<Rightarrow> k | None \<Rightarrow> flags AND 0x80 \<noteq> 0), cb_frames = frames\<rparr> \<and>
    map (frame_bytes (enc_block tw track tc flags ws fs) base) frames = fs"
proof -
  let ?tcb = "be_u16 (nat (tc mod 2 ^ 16))"
  define pre where "pre = enc_vint tw track @ ?tcb @ [flags]"
  define p where "p = pre @ enc_lace flags ws fs @ concat fs"
  have p: "enc_block tw track tc flags ws fs = p" by (simp add: p_def pre_def enc_block_def)
  have l: "length pre = tw + 3" by (simp add: pre_def)
  have a: "read_vint_size p = Some (track, tw)"
    using read_vint_size_enc [OF assms(1-3)] by (simp add: p_def pre_def)
  have s: "slice p tw (tw + 2) = ?tcb" by (simp add: p_def pre_def slice_def be_u16_def)
  have f: "p ! (tw + 2) = flags" by (simp add: p_def pre_def nth_append be_u16_def)
  obtain frames where fr: "parse_block_frames p (length p) base (tw + 3) flags = Some frames"
    "map (frame_bytes p base) frames = fs"
    using parse_block_frames_enc [OF ok, of base pre] room unfolding p p_def [symmetric] l by blast
  have n: "\<not> length p < tw + 3" by (simp add: p_def l)
  show ?thesis
    unfolding p parse_block_def parse_block_prefix_def a option.case prod.case if_not_P [OF n] Let_def s f
      signed_of_be_u16 [OF tc] fr(1) using fr(2) by simp
qed

theorem block_lacing_roundtrip_witness:
  "\<exists>frames. parse_block (enc_block 1 1 (- 5) 0x86 [1, 1] [[7, 8], [9], [1, 2, 3]]) 100 None =
      Some \<lparr>cb_track_number = 1, cb_relative_timecode = - 5,
        cb_keyframe = (case None of Some k \<Rightarrow> k | None \<Rightarrow> (0x86 :: u8) AND 0x80 \<noteq> 0), cb_frames = frames\<rparr> \<and>
    map (frame_bytes (enc_block 1 1 (- 5) 0x86 [1, 1] [[7, 8], [9], [1, 2, 3]]) 100) frames = [[7, 8], [9], [1, 2, 3]]"
  by (rule block_lacing_roundtrip)
    (simp_all add: lace_ok_def lacing_of_def vint_bias_def enc_block_def enc_lace_def)

end
