(* ===== verification/MkvPackets.thy ===== *)
theory MkvPackets
  imports MkvBlocks Budget Text
begin

text \<open>
  The packet index of one Matroska track (\<open>container/matroska.rs\<close>, \<open>parse_track_packets\<close> and
  what it calls): the clusters of a segment, the blocks of the track in them, one packet per
  frame, and the repair of decode times and durations. \<open>size_of::<PacketRef>()\<close> is the
  parameter \<open>packet_ref_size\<close>, as in \<open>Budget\<close>.
\<close>

section \<open>Tracks and time codes\<close>

datatype mkv_track_kind = MkvVideo | MkvAudio | MkvSubtitle | MkvUnknown

record matroska_track =
  mt_index :: nat
  mt_number :: nat
  mt_kind :: mkv_track_kind
  mt_codec :: ustring
  mt_language :: "ustring option"
  mt_name :: "ustring option"
  mt_default :: bool
  mt_forced :: bool
  mt_width :: "nat option"
  mt_height :: "nat option"
  mt_pixel_format :: "string option"
  mt_transfer_characteristics :: "nat option"
  mt_channels :: "nat option"
  mt_sample_rate :: "nat option"
  mt_atmos :: bool
  mt_object_audio_candidate :: bool
  mt_default_duration_ns :: "nat option"
  mt_codec_private :: "bytes option"

definition track_frame_duration :: "matroska_track \<Rightarrow> time_delta option" where
  "track_frame_duration track =
     (case mt_default_duration_ns track of
        Some ns \<Rightarrow>
          if 0 < ns then Some \<lparr>td_units = ns, td_scale = \<lparr>units_per_second = 1000000000\<rparr>\<rparr>
          else if mt_kind track = MkvAudio \<and> mt_codec track = lit ''aac''
          then map_option (\<lambda>r. \<lparr>td_units = 1024, td_scale = \<lparr>units_per_second = r\<rparr>\<rparr>) (mt_sample_rate track)
          else None
      | None \<Rightarrow>
          if mt_kind track = MkvAudio \<and> mt_codec track = lit ''aac''
          then map_option (\<lambda>r. \<lparr>td_units = 1024, td_scale = \<lparr>units_per_second = r\<rparr>\<rparr>) (mt_sample_rate track)
          else None)"

definition matroska_timecode_to_ms :: "int \<Rightarrow> nat \<Rightarrow> nat" where
  "matroska_timecode_to_ms timecode scale_ns =
     (if timecode \<le> 0 then 0 else sat_mul 64 (nat timecode) scale_ns div 1000000)"

definition clamp_i64 :: "int \<Rightarrow> int" where
  "clamp_i64 i = max (- (2 ^ 63)) (min i (2 ^ 63 - 1))"

definition saturating_add_signed :: "int \<Rightarrow> int \<Rightarrow> int" where
  "saturating_add_signed self rhs =
     (if 0 \<le> rhs then clamp_i64 (self + rhs) else clamp_i64 (self - clamp_i64 \<bar>rhs\<bar>))"

definition parse_segment_timecode_scale :: "bytes \<Rightarrow> nat" where
  "parse_segment_timecode_scale segment =
     (case find (\<lambda>e. el_id e = 0x1549a966) (elements segment) of None \<Rightarrow> 1000000
      | Some info \<Rightarrow>
          (case find (\<lambda>e. el_id e = 0x2ad7b1) (elements (el_payload info)) of None \<Rightarrow> 1000000
           | Some e \<Rightarrow> (case read_uint (el_payload e) of None \<Rightarrow> 1000000 | Some v \<Rightarrow> v)))"

definition parse_cluster_timecode :: "bytes \<Rightarrow> int option" where
  "parse_cluster_timecode cluster =
     (case find (\<lambda>e. el_id e = 0xe7) (elements cluster) of None \<Rightarrow> None
      | Some e \<Rightarrow>
          (case read_uint (el_payload e) of None \<Rightarrow> None
           | Some v \<Rightarrow> if v < 2 ^ 63 then Some (int v) else None))"

section \<open>Packets of a block\<close>

definition set_last_duration :: "time_delta \<Rightarrow> packet_ref list \<Rightarrow> packet_ref list" where
  "set_last_duration d ps = (if ps = [] then [] else butlast ps @ [(last ps)\<lparr>pr_duration := d\<rparr>])"

definition packet_gap :: "packet_ref \<Rightarrow> time_point \<Rightarrow> time_delta" where
  "packet_gap previous pts =
     (if tp_scale (pr_pts previous) = tp_scale pts
      then \<lparr>td_units = tp_units pts - tp_units (pr_pts previous), td_scale = tp_scale pts\<rparr>
      else time_delta_millis (tp_as_millis pts - tp_as_millis (pr_pts previous)))"

fun push_frames :: "time_point \<Rightarrow> time_delta \<Rightarrow> bool \<Rightarrow> nat \<Rightarrow> block_frame list \<Rightarrow> packet_ref list \<Rightarrow>
    packet_ref list" where
  "push_frames base_pts frame_duration keyframe idx [] packets = packets"
| "push_frames base_pts frame_duration keyframe idx (frame # frames) packets =
     (let pts = \<lparr>tp_units = sat_add 64 (tp_units base_pts) (sat_mul 64 (td_units frame_duration) idx),
                 tp_scale = tp_scale base_pts\<rparr>;
          packets = (if packets = [] then [] else set_last_duration (packet_gap (last packets) pts) packets)
      in push_frames base_pts frame_duration keyframe (idx + 1) frames
           (packets @ [\<lparr>pr_source_offset = bf_payload_offset frame, pr_size = bf_payload_size frame,
              pr_pts = pts, pr_dts = pts, pr_duration = frame_duration, pr_keyframe = keyframe\<rparr>]))"

definition block_base_pts :: "nat \<Rightarrow> time_delta \<Rightarrow> time_point" where
  "block_base_pts timestamp_ms frame_duration =
     (if td_scale frame_duration = MILLIS then time_point_millis timestamp_ms
      else \<lparr>tp_units = (case checked_rescale_u64 MILLIS timestamp_ms (td_scale frame_duration) Nearest of
                Inr u \<Rightarrow> u | Inl _ \<Rightarrow> 0),
            tp_scale = td_scale frame_duration\<rparr>)"

definition push_block_packets :: "nat \<Rightarrow> packet_ref list \<Rightarrow> cluster_block \<Rightarrow> nat \<Rightarrow> time_delta option \<Rightarrow>
    packet_ref list option" where
  "push_block_packets packet_ref_size packets block timestamp_ms frame_duration =
     (case checked_add 64 (length packets) (length (cb_frames block)) of None \<Rightarrow> None
      | Some n \<Rightarrow>
          if max_samples_per_track limits_default < n then None
          else case checked_mul 64 n packet_ref_size of None \<Rightarrow> None
            | Some held \<Rightarrow>
                if max_index_bytes limits_default < held then None
                else
                  let frame_duration = (case frame_duration of Some d \<Rightarrow> d | None \<Rightarrow> time_delta_millis 0)
                  in Some (push_frames (block_base_pts timestamp_ms frame_duration) frame_duration
                       (cb_keyframe block) 0 (cb_frames block) packets))"

section \<open>Timing repair\<close>

definition infer_last_packet_duration :: "packet_ref list \<Rightarrow> time_delta option" where
  "infer_last_packet_duration packets =
     (if length packets < 2 then None
      else Some (packet_gap (packets ! (length packets - 2)) (pr_pts (last packets))))"

definition frame_delta :: "packet_ref \<times> packet_ref \<Rightarrow> time_delta option" where
  "frame_delta pair =
     (if tp_scale (pr_pts (fst pair)) = tp_scale (pr_pts (snd pair))
      then let a = tp_units (pr_pts (fst pair)); b = tp_units (pr_pts (snd pair))
           in if a < b then Some \<lparr>td_units = b - a, td_scale = tp_scale (pr_pts (fst pair))\<rparr> else None
      else let a = tp_as_millis (pr_pts (fst pair)); b = tp_as_millis (pr_pts (snd pair))
           in if a < b then Some (time_delta_millis (b - a)) else None)"

text \<open>\<open>sort_unstable_by_key\<close> may order equal keys in any way. It runs only without a default
  duration; all packets then count milliseconds, so equal keys are equal deltas.\<close>

definition infer_nominal_frame_duration :: "packet_ref list \<Rightarrow> time_delta option" where
  "infer_nominal_frame_duration packets =
     (let deltas = filter (\<lambda>d. td_as_millis d \<le> 250) (List.map_filter frame_delta (zip packets (tl packets)))
      in if deltas = [] then None else Some (sort_key td_as_millis deltas ! (length deltas div 2)))"

definition repaired_dts :: "time_point \<Rightarrow> time_delta \<Rightarrow> nat \<Rightarrow> time_point" where
  "repaired_dts first_dts duration index =
     (if tp_scale first_dts = td_scale duration
      then \<lparr>tp_units = sat_add 64 (tp_units first_dts) (sat_mul 64 (td_units duration) index),
            tp_scale = tp_scale first_dts\<rparr>
      else time_point_millis (sat_add 64 (tp_as_millis first_dts)
             (sat_mul 64 (max (td_as_millis duration) 1) index)))"

definition repair_matroska_packet_timing :: "packet_ref list \<Rightarrow> mkv_track_kind \<Rightarrow> time_delta option \<Rightarrow>
    packet_ref list" where
  "repair_matroska_packet_timing packets kind frame_duration =
     (if packets = [] then packets
      else if kind = MkvVideo
      then let duration = (case frame_duration of Some d \<Rightarrow> d
                 | None \<Rightarrow> (case infer_nominal_frame_duration packets of Some d \<Rightarrow> d | None \<Rightarrow> time_delta_millis 1));
               first_dts = pr_pts (packets ! 0)
           in map (\<lambda>(index, packet). packet\<lparr>pr_dts := repaired_dts first_dts duration index,
                 pr_duration := duration\<rparr>) (enumerate 0 packets)
      else let last_duration = (case infer_last_packet_duration packets of Some d \<Rightarrow> d | None \<Rightarrow> time_delta_millis 0)
           in set_last_duration last_duration packets)"

section \<open>Packets of a track\<close>

type_synonym track_state = "packet_ref list \<times> nat option"

definition track_block :: "nat \<Rightarrow> time_delta option \<Rightarrow> nat \<Rightarrow> int \<Rightarrow> cluster_block \<Rightarrow> track_state \<Rightarrow>
    track_state option" where
  "track_block packet_ref_size frame_duration timecode_scale cluster_timecode block = (\<lambda>(packets, last_pts).
     let timestamp_ms = matroska_timecode_to_ms
           (saturating_add_signed cluster_timecode (cb_relative_timecode block)) timecode_scale;
         packets = (case last_pts of
             Some prev \<Rightarrow> if packets = [] then packets
               else set_last_duration (time_delta_millis (timestamp_ms - prev)) packets
           | None \<Rightarrow> packets)
     in map_option (\<lambda>packets. (packets, Some timestamp_ms))
          (push_block_packets packet_ref_size packets block timestamp_ms frame_duration))"

fun track_blocks :: "nat \<Rightarrow> time_delta option \<Rightarrow> nat \<Rightarrow> nat \<Rightarrow> int \<Rightarrow> cluster_block list \<Rightarrow> track_state \<Rightarrow>
    track_state option" where
  "track_blocks rs fd scale number ct [] st = Some st"
| "track_blocks rs fd scale number ct (block # blocks) st =
     (if cb_track_number block \<noteq> number then track_blocks rs fd scale number ct blocks st
      else case track_block rs fd scale ct block st of None \<Rightarrow> None
        | Some st' \<Rightarrow> track_blocks rs fd scale number ct blocks st')"

fun track_clusters :: "nat \<Rightarrow> time_delta option \<Rightarrow> nat \<Rightarrow> nat \<Rightarrow> nat \<Rightarrow> element list \<Rightarrow> track_state \<Rightarrow>
    track_state option" where
  "track_clusters rs fd scale number base [] st = Some st"
| "track_clusters rs fd scale number base (cluster # clusters) st =
     (let ct = (case parse_cluster_timecode (el_payload cluster) of Some t \<Rightarrow> t | None \<Rightarrow> 0)
      in case track_blocks rs fd scale number ct
             (cluster_blocks (el_payload cluster) (base + el_payload_offset cluster)) st of
           None \<Rightarrow> None
         | Some st' \<Rightarrow> track_clusters rs fd scale number base clusters st')"

definition parse_track_packets :: "nat \<Rightarrow> bytes \<Rightarrow> nat \<Rightarrow> nat \<Rightarrow> mkv_track_kind \<Rightarrow> time_delta option \<Rightarrow> nat \<Rightarrow>
    packet_ref list option" where
  "parse_track_packets packet_ref_size segment segment_base track_number kind frame_duration timecode_scale =
     (case track_clusters packet_ref_size frame_duration timecode_scale track_number segment_base
             (filter (\<lambda>e. el_id e = 0x1f43b675) (elements segment)) ([], None) of
        None \<Rightarrow> None
      | Some (packets, _) \<Rightarrow>
          if packets = [] then None
          else Some (repair_matroska_packet_timing packets kind frame_duration))"

section \<open>Where the packets lie\<close>

definition packet_at :: "packet_ref \<Rightarrow> nat \<times> nat" where
  "packet_at p = (pr_source_offset p, pr_size p)"

definition frame_at :: "block_frame \<Rightarrow> nat \<times> nat" where
  "frame_at f = (bf_payload_offset f, bf_payload_size f)"

definition lies_in :: "nat \<Rightarrow> nat \<Rightarrow> nat \<times> nat \<Rightarrow> bool" where
  "lies_in a b r \<longleftrightarrow> a \<le> fst r \<and> fst r + snd r \<le> b"

lemma lies_in_mono: "lies_in a b r \<Longrightarrow> a' \<le> a \<Longrightarrow> b \<le> b' \<Longrightarrow> lies_in a' b' r"
  by (simp add: lies_in_def)

lemma set_last_duration_at [simp]: "map packet_at (set_last_duration d ps) = map packet_at ps"
proof (cases "ps = []")
  case False
  then have "map packet_at ps = map packet_at (butlast ps) @ [packet_at (last ps)]"
    by (metis append_butlast_last_id list.simps(8,9) map_append)
  then show ?thesis using False by (simp add: set_last_duration_def packet_at_def)
qed (simp add: set_last_duration_def)

lemma length_set_last_duration [simp]: "length (set_last_duration d ps) = length ps"
  by (simp add: set_last_duration_def)

lemma push_frames_at:
  "map packet_at (push_frames b d k i frames ps) = map packet_at ps @ map frame_at frames"
proof (induction frames arbitrary: i ps)
  case (Cons f frames)
  show ?case by (simp add: Cons.IH Let_def) (simp add: packet_at_def frame_at_def)
qed simp

lemma tiles_lie:
  "tiles a fs b \<Longrightarrow> list_all (lies_in a b) (map frame_at fs)"
  using tiles_bounds [of a fs b] by (auto simp: list_all_iff lies_in_def frame_at_def)

lemma list_all_lies_mono:
  "list_all (lies_in a b) rs \<Longrightarrow> a' \<le> a \<Longrightarrow> b \<le> b' \<Longrightarrow> list_all (lies_in a' b') rs"
  by (auto simp: list_all_iff intro: lies_in_mono)

lemma parse_block_lies:
  assumes "parse_block payload base forced = Some b"
  shows "list_all (lies_in base (base + length payload)) (map frame_at (cb_frames b))"
proof -
  obtain h where "h \<le> length payload" "tiles (base + h) (cb_frames b) (base + length payload)"
    using parse_block_tile [OF assms] by blast
  then show ?thesis using tiles_lie list_all_lies_mono by (metis le_add1 order_refl)
qed

lemma element_lies:
  assumes "e \<in> set (elements bs)"
  shows "el_payload_offset e + length (el_payload e) \<le> length bs"
  using elements_offsets [of 0 bs e] assms by (simp add: elements_def)

lemma block_group_loop_lies:
  assumes "\<forall>e \<in> set es. el_payload_offset e + length (el_payload e) \<le> n"
    "\<forall>b. block = Some b \<longrightarrow> list_all (lies_in base (base + n)) (map frame_at (cb_frames b))"
    "block_group_loop base es block r = (Some b, r')"
  shows "list_all (lies_in base (base + n)) (map frame_at (cb_frames b))"
  using assms
proof (induction es arbitrary: block r)
  case (Cons e es)
  have e: "el_payload_offset e + length (el_payload e) \<le> n" using Cons.prems(1) by simp
  have p: "\<forall>b. parse_block (el_payload e) (base + el_payload_offset e) (Some False) = Some b \<longrightarrow>
      list_all (lies_in base (base + n)) (map frame_at (cb_frames b))"
  proof (intro allI impI)
    fix b assume "parse_block (el_payload e) (base + el_payload_offset e) (Some False) = Some b"
    from parse_block_lies [OF this] show "list_all (lies_in base (base + n)) (map frame_at (cb_frames b))"
      by (rule list_all_lies_mono) (use e in simp_all)
  qed
  show ?case using Cons.prems p
    by (auto split: if_splits intro: Cons.IH [of "parse_block (el_payload e) (base + el_payload_offset e) (Some False)"]
        Cons.IH [of block])
qed simp

lemma cluster_blocks_lie:
  assumes "b \<in> set (cluster_blocks cluster base)"
  shows "list_all (lies_in base (base + length cluster)) (map frame_at (cb_frames b))"
proof -
  obtain e where e: "e \<in> set (elements cluster)" "element_block base e = Some b"
    using assms by (auto simp: cluster_blocks_def List.map_filter_def)
  let ?o = "base + el_payload_offset e" and ?n = "length (el_payload e)"
  have "list_all (lies_in ?o (?o + ?n)) (map frame_at (cb_frames b))"
  proof (cases "el_id e = 0xa3")
    case True
    then show ?thesis using e(2) parse_block_lies by (simp add: element_block_def)
  next
    case False
    then obtain b' r where g: "block_group_loop ?o (elements (el_payload e)) None False = (Some b', r)"
      "cb_frames b = cb_frames b'"
      using e(2) by (auto simp: element_block_def parse_block_group_def split: if_splits prod.splits)
    show ?thesis unfolding g(2)
      by (rule block_group_loop_lies [OF _ _ g(1)]) (use element_lies in auto)
  qed
  then show ?thesis by (rule list_all_lies_mono) (use element_lies [OF e(1)] in simp_all)
qed

lemma push_block_packets_at:
  "push_block_packets rs ps block ts fd = Some qs \<Longrightarrow>
    map packet_at qs = map packet_at ps @ map frame_at (cb_frames block)"
  by (auto simp: push_block_packets_def Let_def push_frames_at split: option.splits if_splits)

lemma track_block_at:
  "track_block rs fd scale ct block (ps, l) = Some (qs, l') \<Longrightarrow>
    map packet_at qs = map packet_at ps @ map frame_at (cb_frames block)"
  by (auto simp: track_block_def Let_def dest!: push_block_packets_at split: option.splits if_splits)

lemma track_blocks_lie:
  assumes "\<forall>b \<in> set blocks. list_all (lies_in lo hi) (map frame_at (cb_frames b))"
    "list_all (lies_in lo hi) (map packet_at ps)" "track_blocks rs fd scale number ct blocks (ps, l) = Some (qs, l')"
  shows "list_all (lies_in lo hi) (map packet_at qs)"
  using assms
proof (induction blocks arbitrary: ps l)
  case (Cons b blocks)
  show ?case
  proof (cases "cb_track_number b = number")
    case True
    then obtain ps1 l1 where s: "track_block rs fd scale ct b (ps, l) = Some (ps1, l1)"
      "track_blocks rs fd scale number ct blocks (ps1, l1) = Some (qs, l')"
      using Cons.prems(3) by (auto split: option.splits)
    have "list_all (lies_in lo hi) (map packet_at ps1)"
      unfolding track_block_at [OF s(1)] using Cons.prems(1,2) by simp
    with s(2) Cons.prems(1) show ?thesis by (intro Cons.IH [of ps1 l1]) simp_all
  next
    case False
    with Cons.prems show ?thesis by (intro Cons.IH [of ps l]) simp_all
  qed
qed simp

lemma track_clusters_lie:
  assumes "\<forall>e \<in> set clusters. el_payload_offset e + length (el_payload e) \<le> n"
    "list_all (lies_in base (base + n)) (map packet_at ps)"
    "track_clusters rs fd scale number base clusters (ps, l) = Some (qs, l')"
  shows "list_all (lies_in base (base + n)) (map packet_at qs)"
  using assms
proof (induction clusters arbitrary: ps l)
  case (Cons e clusters)
  let ?bs = "cluster_blocks (el_payload e) (base + el_payload_offset e)"
  obtain ct ps1 l1 where s: "track_blocks rs fd scale number ct ?bs (ps, l) = Some (ps1, l1)"
    "track_clusters rs fd scale number base clusters (ps1, l1) = Some (qs, l')"
    using Cons.prems(3) by (auto simp: Let_def split: option.splits)
  have "\<forall>b \<in> set ?bs. list_all (lies_in base (base + n)) (map frame_at (cb_frames b))"
  proof
    fix b assume "b \<in> set ?bs"
    from cluster_blocks_lie [OF this] show "list_all (lies_in base (base + n)) (map frame_at (cb_frames b))"
      by (rule list_all_lies_mono) (use Cons.prems(1) in simp_all)
  qed
  from track_blocks_lie [OF this Cons.prems(2) s(1)] s(2) Cons.prems(1) show ?case
    by (intro Cons.IH [of ps1 l1]) simp_all
qed simp

lemma repair_at: "map packet_at (repair_matroska_packet_timing ps kind fd) = map packet_at ps"
proof -
  have "map packet_at (map (\<lambda>(i, p). p\<lparr>pr_dts := f i, pr_duration := d\<rparr>) (enumerate n ps)) = map packet_at ps"
    for f d n by (induction ps arbitrary: n) (simp_all add: packet_at_def)
  then show ?thesis by (simp add: repair_matroska_packet_timing_def Let_def)
qed

text \<open>Every packet of a Matroska track is a byte range of the segment it was parsed from,
  whatever the bytes are: no packet of the index makes a reader leave the file.\<close>

theorem matroska_packets_in_segment:
  assumes "parse_track_packets rs segment base number kind fd scale = Some ps"
  shows "list_all (lies_in base (base + length segment)) (map packet_at ps)"
proof -
  obtain qs l where q: "track_clusters rs fd scale number base
      (filter (\<lambda>e. el_id e = 0x1f43b675) (elements segment)) ([], None) = Some (qs, l)"
    "ps = repair_matroska_packet_timing qs kind fd"
    using assms by (auto simp: parse_track_packets_def split: option.splits if_splits)
  have "list_all (lies_in base (base + length segment)) (map packet_at qs)"
    by (rule track_clusters_lie [OF _ _ q(1)]) (use element_lies in auto)
  then show ?thesis unfolding q(2) repair_at .
qed

text \<open>A segment of one cluster with one block, for the witnesses.\<close>

definition demo_block_bytes :: bytes where
  "demo_block_bytes = enc_vint 1 1 @ [0, 5, 0x80, 9, 8]"

definition demo_cluster :: bytes where
  "demo_cluster = enc_element (0xa3, 1, demo_block_bytes)"

definition demo_segment :: bytes where
  "demo_segment = enc_element (0x1f43b675, 1, demo_cluster)"

lemma elements_single:
  assumes "wf_element (i, n, p)" "length (enc_element (i, n, p)) < 2 ^ 64"
  shows "elements (enc_element (i, n, p)) =
    [\<lparr>el_id = i, el_payload = p, el_payload_offset = length (enc_id i) + n\<rparr>]"
proof -
  have "element_next (enc_element (i, n, p)) 0 =
      (Some \<lparr>el_id = i, el_payload = p, el_payload_offset = length (enc_id i) + n\<rparr>,
       length (enc_element (i, n, p)))"
    using element_next_enc [OF assms(1), of "[]" "[]"] assms(2) by simp
  then show ?thesis unfolding elements_def
    using element_iter.collect_unfold [of "enc_element (i, n, p)" 0]
      element_iter.collect_beyond [of "enc_element (i, n, p)" "length (enc_element (i, n, p))"] by simp
qed

lemma demo_ids: "valid_id 0x1f43b675" "valid_id 0xa3"
  unfolding valid_id_def by (rule bexI [of _ 4], simp, simp, rule bexI [of _ 1], simp, simp)

lemma mkv_demo_lengths [simp]: "length demo_block_bytes = 6" "length demo_cluster = 8" "length demo_segment = 13"
  by (simp_all add: demo_block_bytes_def demo_cluster_def demo_segment_def enc_element_def enc_id_def)

lemma demo_elements:
  "elements demo_segment = [\<lparr>el_id = 0x1f43b675, el_payload = demo_cluster, el_payload_offset = 5\<rparr>]"
  "elements demo_cluster = [\<lparr>el_id = 0xa3, el_payload = demo_block_bytes, el_payload_offset = 2\<rparr>]"
proof -
  have "length (enc_id 0x1f43b675) = 4" "length (enc_id 0xa3) = 1" by (simp_all add: enc_id_def)
  then show "elements demo_segment = [\<lparr>el_id = 0x1f43b675, el_payload = demo_cluster, el_payload_offset = 5\<rparr>]"
    "elements demo_cluster = [\<lparr>el_id = 0xa3, el_payload = demo_block_bytes, el_payload_offset = 2\<rparr>]"
    using elements_single [where i = "0x1f43b675" and n = 1 and p = demo_cluster]
      elements_single [where i = "0xa3" and n = 1 and p = demo_block_bytes] demo_ids
      mkv_demo_lengths(2,3) unfolding demo_segment_def [symmetric] demo_cluster_def [symmetric]
    by (simp_all add: wf_element_def)
qed

lemma demo_block:
  "parse_block demo_block_bytes 7 None = Some \<lparr>cb_track_number = 1,
     cb_relative_timecode = 5, cb_keyframe = True,
     cb_frames = [\<lparr>bf_payload_offset = 11, bf_payload_size = 2\<rparr>]\<rparr>"
  by (simp add: demo_block_bytes_def parse_block_def parse_block_prefix_def read_vint_size_enc Let_def
      parse_block_frames_def lacing_of_def nth_append checked_sub_def checked_add_def slice_def signed_of_def be_nat_def)

lemma demo_packets_parsed:
  "parse_track_packets 64 demo_segment 0 1 MkvAudio None 1000000 =
     Some [\<lparr>pr_source_offset = 11, pr_size = 2, pr_pts = time_point_millis 5, pr_dts = time_point_millis 5,
       pr_duration = time_delta_millis 0, pr_keyframe = True\<rparr>]"
  by (simp add: parse_track_packets_def demo_elements cluster_blocks_def List.map_filter_simps element_block_def
      demo_block parse_cluster_timecode_def track_block_def Let_def matroska_timecode_to_ms_def
      saturating_add_signed_def clamp_i64_def sat_mul_def push_block_packets_def checked_add_def checked_mul_def
      limits_default_def block_base_pts_def time_delta_millis_def time_point_millis_def sat_add_def
      repair_matroska_packet_timing_def infer_last_packet_duration_def set_last_duration_def)

theorem matroska_packets_in_segment_witness:
  "list_all (lies_in 0 (0 + length demo_segment))
     (map packet_at [\<lparr>pr_source_offset = 11, pr_size = 2, pr_pts = time_point_millis 5, pr_dts = time_point_millis 5,
       pr_duration = time_delta_millis 0, pr_keyframe = True\<rparr>])"
  by (rule matroska_packets_in_segment [OF demo_packets_parsed])

section \<open>Durations and decode times\<close>

fun gaps_filled :: "packet_ref list \<Rightarrow> bool" where
  "gaps_filled (p # q # ps) \<longleftrightarrow> pr_duration p = packet_gap p (pr_pts q) \<and> gaps_filled (q # ps)"
| "gaps_filled _ \<longleftrightarrow> True"

lemma gaps_filled_snoc:
  "gaps_filled (ps @ [p]) \<longleftrightarrow>
    gaps_filled ps \<and> (ps = [] \<or> pr_duration (last ps) = packet_gap (last ps) (pr_pts p))"
  by (induction ps rule: gaps_filled.induct) auto

lemma gaps_filled_last: "gaps_filled (set_last_duration d ps) = gaps_filled ps"
proof (cases "ps = []")
  case False
  then show ?thesis using gaps_filled_snoc [of "butlast ps" "last ps"]
    by (simp add: set_last_duration_def gaps_filled_snoc)
qed (simp add: set_last_duration_def)

lemma last_set_last_duration:
  "ps \<noteq> [] \<Longrightarrow> last (set_last_duration d ps) = (last ps)\<lparr>pr_duration := d\<rparr> \<and> set_last_duration d ps \<noteq> []"
  by (simp add: set_last_duration_def)

lemma packet_gap_duration [simp]: "packet_gap (p\<lparr>pr_duration := d\<rparr>) t = packet_gap p t"
  by (simp add: packet_gap_def)

lemma push_frames_gaps:
  "gaps_filled ps \<Longrightarrow> gaps_filled (push_frames b d k i frames ps)"
proof (induction frames arbitrary: i ps)
  case (Cons f frames)
  then show ?case
    by (auto simp: Let_def gaps_filled_snoc gaps_filled_last last_set_last_duration intro!: Cons.IH)
qed simp

lemma track_blocks_gaps:
  "track_blocks rs fd scale number ct blocks (ps, l) = Some (qs, l') \<Longrightarrow> gaps_filled ps \<Longrightarrow> gaps_filled qs"
proof (induction blocks arbitrary: ps l)
  case (Cons b blocks)
  have "gaps_filled ps1" if "track_block rs fd scale ct b (ps, l) = Some (ps1, l1)" for ps1 l1
    using that Cons.prems(2)
    by (auto simp: track_block_def push_block_packets_def Let_def gaps_filled_last push_frames_gaps
        split: option.splits if_splits)
  with Cons show ?case by (fastforce split: if_splits option.splits)
qed simp

lemma track_clusters_gaps:
  "track_clusters rs fd scale number base clusters (ps, l) = Some (qs, l') \<Longrightarrow> gaps_filled ps \<Longrightarrow> gaps_filled qs"
proof (induction clusters arbitrary: ps l)
  case (Cons e clusters)
  then show ?case by (auto simp: Let_def split: option.splits dest: track_blocks_gaps)
qed simp

text \<open>In the index of an audio or subtitle track every packet lasts to the presentation of the
  next one, and the last packet repeats the gap before it, so the packets leave no hole.\<close>

theorem matroska_durations_fill_gaps:
  assumes "parse_track_packets rs segment base number kind fd scale = Some ps" "kind \<noteq> MkvVideo"
  shows "gaps_filled ps \<and> pr_duration (last ps) =
    (if length ps < 2 then time_delta_millis 0 else packet_gap (ps ! (length ps - 2)) (pr_pts (last ps)))"
proof -
  obtain qs l where q: "track_clusters rs fd scale number base
      (filter (\<lambda>e. el_id e = 0x1f43b675) (elements segment)) ([], None) = Some (qs, l)"
    "qs \<noteq> []" "ps = repair_matroska_packet_timing qs kind fd"
    using assms(1) by (auto simp: parse_track_packets_def split: option.splits if_splits)
  have g: "gaps_filled qs" using track_clusters_gaps [OF q(1)] by simp
  define d where "d = (case infer_last_packet_duration qs of Some d \<Rightarrow> d | None \<Rightarrow> time_delta_millis 0)"
  have ps: "ps = set_last_duration d qs" using q(2,3) assms(2) by (simp add: repair_matroska_packet_timing_def d_def)
  have "ps ! (length qs - 2) = qs ! (length qs - 2)" if "2 \<le> length qs"
    using that q(2) by (simp add: ps set_last_duration_def nth_append nth_butlast)
  then show ?thesis
    using g q(2) by (auto simp: ps gaps_filled_last last_set_last_duration d_def
        infer_last_packet_duration_def)
qed

theorem matroska_durations_fill_gaps_witness:
  "gaps_filled [\<lparr>pr_source_offset = 11, pr_size = 2, pr_pts = time_point_millis 5, pr_dts = time_point_millis 5,
       pr_duration = time_delta_millis 0, pr_keyframe = True\<rparr>]"
  using matroska_durations_fill_gaps [OF demo_packets_parsed] by simp

lemma repaired_packet:
  assumes "\<forall>p \<in> set ps. tp_scale (pr_pts p) = td_scale d" "i < length ps"
    and "tp_units (pr_pts (ps ! 0)) + td_units d * length ps < 2 ^ 64"
  shows "repair_matroska_packet_timing ps MkvVideo (Some d) ! i =
    (ps ! i)\<lparr>pr_dts := \<lparr>tp_units = tp_units (pr_pts (ps ! 0)) + td_units d * i, tp_scale = td_scale d\<rparr>,
      pr_duration := d\<rparr>"
proof -
  have ne: "ps \<noteq> []" using assms(2) by auto
  have s0: "tp_scale (pr_pts (ps ! 0)) = td_scale d" using assms(1) ne by (simp add: nth_mem)
  have "td_units d * i \<le> td_units d * length ps" using assms(2) by simp
  then have m: "td_units d * i < 2 ^ 64" "tp_units (pr_pts (ps ! 0)) + td_units d * i < 2 ^ 64"
    using assms(3) by linarith+
  have "repaired_dts (pr_pts (ps ! 0)) d i =
      \<lparr>tp_units = tp_units (pr_pts (ps ! 0)) + td_units d * i, tp_scale = td_scale d\<rparr>"
    using m s0 by (simp add: repaired_dts_def sat_add_exact sat_mul_def)
  then show ?thesis using ne assms(2) by (simp add: repair_matroska_packet_timing_def nth_enumerate_eq)
qed

text \<open>The repair gives the packets of a video track evenly spaced, increasing decode times that
  start at the first packet's presentation time, and leaves presentation times alone. Nothing
  keeps a decode time below its presentation time: a frame presented before its slot in decode
  order, as every reordered frame is, gets a decode time after its presentation time.\<close>

theorem matroska_video_timing_repaired:
  assumes "\<forall>p \<in> set ps. tp_scale (pr_pts p) = td_scale d" "0 < td_units d" "i < length ps"
    and "tp_units (pr_pts (ps ! 0)) + td_units d * length ps < 2 ^ 64"
  shows "let qs = repair_matroska_packet_timing ps MkvVideo (Some d) in
    length qs = length ps \<and> pr_pts (qs ! i) = pr_pts (ps ! i) \<and> pr_duration (qs ! i) = d \<and>
    tp_scale (pr_dts (qs ! i)) = td_scale d \<and>
    tp_units (pr_dts (qs ! i)) = tp_units (pr_pts (ps ! 0)) + td_units d * i \<and>
    (tp_units (pr_pts (qs ! i)) < tp_units (pr_dts (qs ! i)) \<longleftrightarrow>
       tp_units (pr_pts (ps ! i)) < tp_units (pr_pts (ps ! 0)) + td_units d * i)"
  using repaired_packet [OF assms(1,3,4)]
  by (simp add: Let_def) (simp add: repair_matroska_packet_timing_def)

definition reordered_video :: "packet_ref list" where
  "reordered_video = map (\<lambda>t. \<lparr>pr_source_offset = 0, pr_size = 1, pr_pts = time_point_millis t,
     pr_dts = time_point_millis t, pr_duration = time_delta_millis 40, pr_keyframe = True\<rparr>) [0, 120, 40, 80]"

theorem matroska_video_timing_repaired_witness:
  "let qs = repair_matroska_packet_timing reordered_video MkvVideo (Some (time_delta_millis 40)) in
   tp_units (pr_pts (qs ! 2)) = 40 \<and> tp_units (pr_dts (qs ! 2)) = 80"
  using matroska_video_timing_repaired [of reordered_video "time_delta_millis 40" 2]
  by (simp add: reordered_video_def time_point_millis_def time_delta_millis_def Let_def)

end
