(* ===== verification/Float64.thy ===== *)
theory Float64
  imports Prelude Complex_Main
begin

text \<open>
  The binary64 arithmetic of Rust's \<open>f64\<close> that the container readers use: decoding from bits,
  multiplication and division with round to nearest even, \<open>round\<close>, and the saturating casts to
  unsigned integers. Finite values are rationals; the sign of zero is not kept, which no operation
  modelled here can observe, as the code never divides by a float that may be zero.
\<close>

section \<open>Values\<close>

datatype f64 = Finite rat | Infinite bool | NaN

fun ilog2 :: "nat \<Rightarrow> nat" where
  "ilog2 n = (if n < 2 then 0 else Suc (ilog2 (n div 2)))"

declare ilog2.simps [simp del]

definition pow2 :: "int \<Rightarrow> rat" where
  "pow2 k = (if 0 \<le> k then 2 ^ nat k else 1 / 2 ^ nat (- k))"

text \<open>The exponent of a positive rational: \<open>pow2 k \<le> x < pow2 (k + 1)\<close>.\<close>

definition floor_log2 :: "rat \<Rightarrow> int" where
  "floor_log2 x =
     (let (n, d) = quotient_of x; k = int (ilog2 (nat n)) - int (ilog2 (nat d))
      in if pow2 k \<le> x then k else k - 1)"

definition round_half_even :: "rat \<Rightarrow> int" where
  "round_half_even q =
     (let f = \<lfloor>q\<rfloor>; r = q - of_int f
      in if r < 1 / 2 then f else if 1 / 2 < r then f + 1 else if even f then f else f + 1)"

definition round_f64 :: "rat \<Rightarrow> f64" where
  "round_f64 x =
     (if x = 0 then Finite 0
      else let e = max (floor_log2 \<bar>x\<bar> - 52) (- 1074);
               y = of_int (round_half_even (x / pow2 e)) * pow2 e
           in if pow2 1024 \<le> \<bar>y\<bar> then Infinite (x < 0) else Finite y)"

definition f64_from_bits :: "nat \<Rightarrow> f64" where
  "f64_from_bits n =
     (let neg = (n div 2 ^ 63 = 1); e = n div 2 ^ 52 mod 2 ^ 11; m = n mod 2 ^ 52;
          signed = (\<lambda>q :: rat. Finite (if neg then - q else q))
      in if e = 2047 then (if m = 0 then Infinite neg else NaN)
         else if e = 0 then signed (of_nat m * pow2 (- 1074))
         else signed (of_nat (2 ^ 52 + m) * pow2 (int e - 1075)))"

text \<open>\<open>f32::from_be_bytes(..) as f64\<close> is exact.\<close>

definition f32_from_bits :: "nat \<Rightarrow> f64" where
  "f32_from_bits n =
     (let neg = (n div 2 ^ 31 = 1); e = n div 2 ^ 23 mod 2 ^ 8; m = n mod 2 ^ 23;
          signed = (\<lambda>q :: rat. Finite (if neg then - q else q))
      in if e = 255 then (if m = 0 then Infinite neg else NaN)
         else if e = 0 then signed (of_nat m * pow2 (- 149))
         else signed (of_nat (2 ^ 23 + m) * pow2 (int e - 150)))"

section \<open>Operations\<close>

definition f64_of_nat :: "nat \<Rightarrow> f64" where
  "f64_of_nat n = round_f64 (of_nat n)"

fun f64_negative :: "f64 \<Rightarrow> bool" where
  "f64_negative (Finite q) = (q < 0)"
| "f64_negative (Infinite neg) = neg"
| "f64_negative NaN = False"

fun f64_mul :: "f64 \<Rightarrow> f64 \<Rightarrow> f64" where
  "f64_mul (Finite a) (Finite b) = round_f64 (a * b)"
| "f64_mul (Infinite m) (Infinite n) = Infinite (m \<noteq> n)"
| "f64_mul (Infinite m) (Finite b) = (if b = 0 then NaN else Infinite (m \<noteq> (b < 0)))"
| "f64_mul (Finite a) (Infinite n) = (if a = 0 then NaN else Infinite ((a < 0) \<noteq> n))"
| "f64_mul NaN _ = NaN"
| "f64_mul _ NaN = NaN"

text \<open>Division by a non-zero finite constant.\<close>

fun f64_div_const :: "f64 \<Rightarrow> rat \<Rightarrow> f64" where
  "f64_div_const (Finite a) b = round_f64 (a / b)"
| "f64_div_const (Infinite m) b = Infinite (m \<noteq> (b < 0))"
| "f64_div_const NaN b = NaN"

fun f64_is_finite :: "f64 \<Rightarrow> bool" where
  "f64_is_finite (Finite _) = True"
| "f64_is_finite _ = False"

text \<open>Comparison with \<open>0.0\<close>; false on NaN.\<close>

fun f64_ge0 :: "f64 \<Rightarrow> bool" where
  "f64_ge0 (Finite q) = (0 \<le> q)"
| "f64_ge0 (Infinite neg) = (\<not> neg)"
| "f64_ge0 NaN = False"

fun f64_gt0 :: "f64 \<Rightarrow> bool" where
  "f64_gt0 (Finite q) = (0 < q)"
| "f64_gt0 (Infinite neg) = (\<not> neg)"
| "f64_gt0 NaN = False"

text \<open>\<open>f64::round\<close>: half away from zero.\<close>

fun f64_round :: "f64 \<Rightarrow> f64" where
  "f64_round (Finite q) = Finite (of_int (if 0 \<le> q then \<lfloor>q + 1 / 2\<rfloor> else - \<lfloor>1 / 2 - q\<rfloor>))"
| "f64_round x = x"

text \<open>\<open>as u64\<close>, \<open>as u32\<close>: truncating and saturating, zero for NaN.\<close>

fun f64_as_uint :: "nat \<Rightarrow> f64 \<Rightarrow> nat" where
  "f64_as_uint w (Finite q) = (if q < 0 then 0 else min (nat \<lfloor>q\<rfloor>) (2 ^ w - 1))"
| "f64_as_uint w (Infinite neg) = (if neg then 0 else 2 ^ w - 1)"
| "f64_as_uint w NaN = 0"

section \<open>Integers below 2^53 are exact\<close>

lemma ilog2_bounds: "0 < n \<Longrightarrow> 2 ^ ilog2 n \<le> n \<and> n < 2 ^ Suc (ilog2 n)"
proof (induction n rule: ilog2.induct)
  case (1 n)
  show ?case
  proof (cases "n < 2")
    case True
    then have "n = 1" using 1 by simp
    then show ?thesis by (simp add: ilog2.simps)
  next
    case False
    then have "ilog2 n = Suc (ilog2 (n div 2))" by (simp add: ilog2.simps [of n])
    with 1(1) [OF False] False show ?thesis by auto
  qed
qed

lemma pow2_pos [simp]: "0 < pow2 k"
  by (simp add: pow2_def)

lemma pow2_nat: "pow2 (int n) = 2 ^ n"
  by (simp add: pow2_def)

lemma pow2_neg: "pow2 (- int n) * 2 ^ n = 1"
  by (cases n) (simp_all add: pow2_def nat_add_distrib)

lemma floor_log2_nat:
  assumes "0 < n" "n < 2 ^ Suc b"
  shows "floor_log2 (of_nat n) \<le> int b"
proof -
  have q: "quotient_of (of_nat n) = (int n, 1)"
    using quotient_of_Fract [of "int n" 1] by (simp add: Fract_of_int_eq [symmetric] Rat.normalize_def) 
  have "2 ^ ilog2 n < (2 :: nat) ^ Suc b" using ilog2_bounds [OF assms(1)] assms(2) by linarith
  then have "ilog2 n < Suc b" by (rule power_less_imp_less_exp [rotated]) simp
  then have "ilog2 n \<le> b" by simp
  moreover have "ilog2 1 = 0" by (simp add: ilog2.simps)
  ultimately show ?thesis unfolding floor_log2_def q by (simp add: Let_def)
qed

lemma round_half_even_int [simp]: "round_half_even (of_int i) = i"
  by (simp add: round_half_even_def)

lemma round_f64_nat:
  assumes "n < 2 ^ 53"
  shows "round_f64 (of_nat n) = Finite (of_nat n)"
proof (cases "n = 0")
  case False
  define e where "e = max (floor_log2 (of_nat n) - 52) (- 1074)"
  have fl: "floor_log2 (of_nat n) \<le> 52" using floor_log2_nat [of n 52] assms False by simp
  have e: "e \<le> 0" using fl by (simp add: e_def)
  have p: "pow2 e * 2 ^ nat (- e) = 1" using e by (auto simp: pow2_def)
  have "of_nat n / pow2 e = (of_nat n * (pow2 e * 2 ^ nat (- e)) / pow2 e :: rat)" unfolding p by simp
  then have "of_nat n / pow2 e = (of_nat n * 2 ^ nat (- e) :: rat)" using pow2_pos [of e] by simp
  then have d: "of_nat n / pow2 e = (of_int (int (n * 2 ^ nat (- e))) :: rat)" by simp
  have "of_int (round_half_even (of_nat n / pow2 e)) * pow2 e = (of_nat n :: rat)"
    unfolding d round_half_even_int using p by (simp add: mult.assoc) (simp add: mult.commute)
  moreover have "(of_nat n :: rat) < pow2 1024"
  proof -
    have "(of_nat n :: rat) < of_nat (2 ^ 53)" using assms by (simp only: of_nat_less_iff)
    also have "\<dots> \<le> pow2 1024" by (simp add: pow2_def)
    finally show ?thesis .
  qed
  ultimately show ?thesis using False by (simp add: round_f64_def e_def [symmetric] Let_def)
qed (simp add: round_f64_def)

lemma f64_of_nat_exact: "n < 2 ^ 53 \<Longrightarrow> f64_of_nat n = Finite (of_nat n)"
  by (simp add: f64_of_nat_def round_f64_nat)

lemma f64_mul_nat: "m * n < 2 ^ 53 \<Longrightarrow> f64_mul (Finite (of_nat m)) (Finite (of_nat n)) = Finite (of_nat (m * n))"
  using round_f64_nat [of "m * n"] by simp

lemma f64_div_const_nat:
  "n < 2 ^ 53 \<Longrightarrow> 0 < c \<Longrightarrow> f64_div_const (Finite (of_nat (n * c))) (of_nat c) = Finite (of_nat n)"
  using round_f64_nat [of n] by simp

lemma f64_round_nat [simp]: "f64_round (Finite (of_nat n)) = Finite (of_nat n)"
proof -
  have "\<lfloor>of_nat n + (1 / 2 :: rat)\<rfloor> = int n" by linarith
  then show ?thesis by simp
qed

lemma f64_as_uint_nat [simp]: "f64_as_uint w (Finite (of_nat n)) = min n (2 ^ w - 1)"
  by simp

text \<open>Encoding an integer below 2^52 as binary64, and reading it back.\<close>

definition f64_bits_of_nat :: "nat \<Rightarrow> nat" where
  "f64_bits_of_nat n = (if n = 0 then 0 else (ilog2 n + 1023) * 2 ^ 52 + (n * 2 ^ (52 - ilog2 n) - 2 ^ 52))"

lemma f64_bits_of_nat_read:
  assumes "n < 2 ^ 53"
  shows "f64_from_bits (f64_bits_of_nat n) = Finite (of_nat n)"
proof (cases "n = 0")
  case True
  then show ?thesis by (simp add: f64_bits_of_nat_def f64_from_bits_def Let_def)
next
  case False
  let ?k = "ilog2 n"
  have b: "2 ^ ?k \<le> n" "n < 2 ^ Suc ?k" using ilog2_bounds False by auto
  have "2 ^ ?k < (2 :: nat) ^ 53" using b assms by linarith
  then have "?k < 53" by (rule power_less_imp_less_exp [rotated]) simp
  then have k: "?k \<le> 52" by simp
  define m where "m = n * 2 ^ (52 - ?k) - 2 ^ 52"
  have pk: "(2 :: nat) ^ ?k * 2 ^ (52 - ?k) = 2 ^ 52" using k by (simp add: power_add [symmetric])
  have "2 ^ 52 \<le> n * 2 ^ (52 - ?k)" using b(1) pk by (metis mult_le_mono1)
  moreover have "n * 2 ^ (52 - ?k) < 2 * 2 ^ 52"
  proof -
    have "n * 2 ^ (52 - ?k) < 2 ^ Suc ?k * 2 ^ (52 - ?k)" using b(2) by (intro mult_strict_right_mono) simp_all
    also have "\<dots> = 2 * 2 ^ 52" using pk by simp
    finally show ?thesis .
  qed
  ultimately have m: "2 ^ 52 + m = n * 2 ^ (52 - ?k)" "m < 2 ^ 52" by (simp_all add: m_def)
  have bits: "f64_bits_of_nat n = (?k + 1023) * 2 ^ 52 + m" using False by (simp add: f64_bits_of_nat_def m_def)
  have d: "f64_bits_of_nat n div 2 ^ 52 = ?k + 1023" "f64_bits_of_nat n mod 2 ^ 52 = m"
    using m(2) unfolding bits by (metis div_mult_self3 div_less add_0_right zero_neq_numeral power_eq_0_iff, metis mod_mult_self3 mod_less)
  have s: "f64_bits_of_nat n div 2 ^ 63 = 0"
  proof -
    have "f64_bits_of_nat n div 2 ^ 63 = f64_bits_of_nat n div 2 ^ 52 div 2 ^ 11" by (simp add: div_mult2_eq [symmetric])
    then show ?thesis using k unfolding d by simp
  qed
  have e: "(?k + 1023) mod 2 ^ 11 = ?k + 1023" using k by simp
  have v: "of_nat (n * 2 ^ (52 - ?k)) * pow2 (int (?k + 1023) - 1075) = (of_nat n :: rat)"
  proof -
    have "int (?k + 1023) - 1075 = - int (52 - ?k)" using k by simp
    then have "pow2 (int (?k + 1023) - 1075) * 2 ^ (52 - ?k) = 1" by (simp only: pow2_neg)
    then have "of_nat n * (2 ^ (52 - ?k) * pow2 (int (?k + 1023) - 1075)) = (of_nat n * 1 :: rat)"
      by (simp only: mult.commute)
    then show ?thesis by (simp only: of_nat_mult of_nat_power of_nat_numeral mult.assoc mult_1_right)
  qed
  have c: "?k + 1023 \<noteq> 2047" "?k + 1023 \<noteq> 0" "(0 :: nat) \<noteq> 1" using k by simp_all
  show ?thesis unfolding f64_from_bits_def Let_def s d e m(1) v if_not_P [OF c(1)] if_not_P [OF c(2)] if_not_P [OF c(3)] ..
qed

end
