(* ===== verification/MkvMeta.thy ===== *)
theory MkvMeta
  imports MkvPackets Mp4Meta Float64
begin

text \<open>
  The metadata of a Matroska segment (\<open>container/matroska.rs\<close>, lines 388 to 1014 and 1178 to 1219, and the
  floats and strings of \<open>matroska/ebml.rs\<close>): duration, tracks, chapters, the track an id names, and
  the chunk plans from the cue index or from the blocks themselves. The code compiled only for tests is left out.
\<close>

section \<open>Floats and strings\<close>

definition read_float :: "bytes \<Rightarrow> f64 option" where
  "read_float bs =
     (if length bs = 4 then Some (f32_from_bits (be_nat bs))
      else if length bs = 8 then Some (f64_from_bits (be_nat bs))
      else None)"

definition read_string :: "bytes \<Rightarrow> ustring option" where
  "read_string bs =
     (let s = trim (trim_by (\<lambda>c. c = 0) (utf8_lossy bs)) in if s = [] then None else Some s)"

section \<open>Segment information\<close>

record matroska_chapter =
  mc_id :: string
  mc_start_ms :: nat
  mc_end_ms :: "nat option"
  mc_title :: "ustring option"
  mc_language :: "ustring option"

record matroska_basic_metadata =
  mm_duration_ms :: "nat option"
  mm_tracks :: "matroska_track list"
  mm_chapters :: "matroska_chapter list"
  mm_attachment_count :: nat

definition info_step :: "nat \<times> f64 option \<Rightarrow> element \<Rightarrow> nat \<times> f64 option" where
  "info_step = (\<lambda>(timecode_scale, duration) child.
     if el_id child = 0x2ad7b1 then
       (case read_uint (el_payload child) of Some v \<Rightarrow> (v, duration) | None \<Rightarrow> (timecode_scale, duration))
     else if el_id child = 0x4489 then (timecode_scale, read_float (el_payload child))
     else (timecode_scale, duration))"

definition parse_info :: "bytes \<Rightarrow> matroska_basic_metadata \<Rightarrow> matroska_basic_metadata" where
  "parse_info payload meta =
     (let (timecode_scale, duration) = foldl info_step (1000000, None) (elements payload)
      in case duration of
           None \<Rightarrow> meta
         | Some duration_units \<Rightarrow>
             let ns = f64_mul duration_units (f64_of_nat timecode_scale)
             in if f64_is_finite ns \<and> f64_ge0 ns
                then meta\<lparr>mm_duration_ms := Some (f64_as_uint 64 (f64_round (f64_div_const ns 1000000)))\<rparr>
                else meta)"

section \<open>Chapters\<close>

definition nanoseconds_to_millis :: "nat \<Rightarrow> nat" where
  "nanoseconds_to_millis v = v div 1000000"

definition parse_chapter_display :: "bytes \<Rightarrow> ustring option \<times> ustring option" where
  "parse_chapter_display payload =
     foldl (\<lambda>(title, language) child.
       if el_id child = 0x85 then (read_string (el_payload child), language)
       else if el_id child = 0x437c \<or> el_id child = 0x437d then (title, read_string (el_payload child))
       else (title, language)) (None, None) (elements payload)"

text \<open>The locals of \<open>parse_chapter_atom_at_depth\<close>; nested atoms are read from the elements directly.\<close>

record chapter_locals =
  cl_uid :: "nat option"
  cl_start_ms :: "nat option"
  cl_end_ms :: "nat option"
  cl_title :: "ustring option"
  cl_language :: "ustring option"

definition chapter_step :: "chapter_locals \<Rightarrow> element \<Rightarrow> chapter_locals" where
  "chapter_step l child =
     (if el_id child = 0x73c4 then l\<lparr>cl_uid := read_uint (el_payload child)\<rparr>
      else if el_id child = 0x91 then
        l\<lparr>cl_start_ms := map_option nanoseconds_to_millis (read_uint (el_payload child))\<rparr>
      else if el_id child = 0x92 then
        l\<lparr>cl_end_ms := map_option nanoseconds_to_millis (read_uint (el_payload child))\<rparr>
      else if el_id child = 0x80 then
        (let (title, language) = parse_chapter_display (el_payload child)
         in l\<lparr>cl_title := (case cl_title l of Some t \<Rightarrow> Some t | None \<Rightarrow> title),
              cl_language := (case cl_language l of Some t \<Rightarrow> Some t | None \<Rightarrow> language)\<rparr>)
      else l)"

definition push_chapter :: "chapter_locals \<Rightarrow> matroska_chapter list \<Rightarrow> matroska_chapter list" where
  "push_chapter l chapters =
     (case cl_start_ms l of
        None \<Rightarrow> chapters
      | Some start_ms \<Rightarrow>
          chapters @ [\<lparr>mc_id = (case cl_uid l of Some uid \<Rightarrow> show_nat uid
              | None \<Rightarrow> ''ch'' @ show_nat (length chapters)),
            mc_start_ms = start_ms, mc_end_ms = cl_end_ms l, mc_title = cl_title l, mc_language = cl_language l\<rparr>])"

definition chapter_atoms :: "bytes \<Rightarrow> bytes list" where
  "chapter_atoms payload = map el_payload (filter (\<lambda>e. el_id e = 0xb6) (elements payload))"

lemma chapter_atoms_shorter: "x \<in> set (chapter_atoms payload) \<Longrightarrow> length x < length payload"
  by (auto simp: chapter_atoms_def elements_def dest: element_iter.member_shorter)

function parse_chapter_atom_at_depth :: "nat \<Rightarrow> bytes \<Rightarrow> matroska_chapter list \<Rightarrow> matroska_chapter list" where
  "parse_chapter_atom_at_depth depth payload chapters =
     (if max_depth limits_default \<le> depth \<or> max_boxes limits_default \<le> length chapters then chapters
      else
        let l = foldl chapter_step \<lparr>cl_uid = None, cl_start_ms = None, cl_end_ms = None, cl_title = None,
              cl_language = None\<rparr> (elements payload)
        in fold (\<lambda>nested. parse_chapter_atom_at_depth (depth + 1) nested) (chapter_atoms payload) (push_chapter l chapters))"
  by pat_completeness auto
termination
  by (relation "measure (\<lambda>(depth, payload, chapters). length payload)") (auto simp: chapter_atoms_shorter)

declare parse_chapter_atom_at_depth.simps [simp del]

definition parse_chapters :: "bytes \<Rightarrow> matroska_basic_metadata \<Rightarrow> matroska_basic_metadata" where
  "parse_chapters payload meta =
     meta\<lparr>mm_chapters :=
       fold (\<lambda>edition. fold (\<lambda>atom. parse_chapter_atom_at_depth 0 atom) (chapter_atoms (el_payload edition)))
         (filter (\<lambda>e. el_id e = 0x45b9) (elements payload)) (mm_chapters meta)\<rparr>"

section \<open>Tracks\<close>

definition track_type :: "nat \<Rightarrow> mkv_track_kind" where
  "track_type v = (if v = 1 then MkvVideo else if v = 2 then MkvAudio else if v = 0x11 then MkvSubtitle
     else MkvUnknown)"

definition u32_try_from :: "nat \<Rightarrow> nat option" where
  "u32_try_from v = (if v < 2 ^ 32 then Some v else None)"

definition codec_names :: "(string \<times> string) list" where
  "codec_names =
     [(''V_MPEG4/ISO/AVC'', ''h264''), (''V_MPEGH/ISO/HEVC'', ''hevc''), (''V_AV1'', ''av1''), (''V_VP9'', ''vp9''),
      (''A_AAC'', ''aac''), (''A_AAC/MPEG4/LC'', ''aac''), (''A_AAC/MPEG2/LC'', ''aac''), (''A_AC3'', ''ac3''),
      (''A_EAC3'', ''eac3''), (''A_DTS'', ''dts''), (''A_TRUEHD'', ''truehd''), (''A_FLAC'', ''flac''),
      (''A_OPUS'', ''opus''), (''A_VORBIS'', ''vorbis''), (''S_TEXT/UTF8'', ''subrip''), (''S_TEXT/ASS'', ''ass''),
      (''S_TEXT/SSA'', ''ssa''), (''S_TEXT/WEBVTT'', ''webvtt''), (''S_HDMV/PGS'', ''hdmv_pgs_subtitle''),
      (''S_VOBSUB'', ''dvd_subtitle''), (''S_DVBSUB'', ''dvb_subtitle''), (''S_TEXT/TTML'', ''ttml'')]"

definition normalize_codec_id :: "ustring \<Rightarrow> ustring" where
  "normalize_codec_id codec_id =
     (case find (\<lambda>(name, _). lit name = ascii_upper (trim codec_id)) codec_names of
        Some (_, codec) \<Rightarrow> lit codec
      | None \<Rightarrow> trim codec_id)"

definition parse_video :: "bytes \<Rightarrow> nat option \<times> nat option \<times> nat option" where
  "parse_video payload =
     foldl (\<lambda>(width, height, transfer) child.
       if el_id child = 0xb0 then (Option.bind (read_uint (el_payload child)) u32_try_from, height, transfer)
       else if el_id child = 0xba then (width, Option.bind (read_uint (el_payload child)) u32_try_from, transfer)
       else if el_id child = 0x55b0 then
         (width, height, Option.bind (find_first_child (el_payload child) 0x55ba) read_uint)
       else (width, height, transfer)) (None, None, None) (elements payload)"

definition parse_audio :: "bytes \<Rightarrow> nat option \<times> nat option" where
  "parse_audio payload =
     foldl (\<lambda>(channels, sample_rate) child.
       if el_id child = 0x9f then (Option.bind (read_uint (el_payload child)) u32_try_from, sample_rate)
       else if el_id child = 0xb5 then
         (channels, Option.bind (read_float (el_payload child)) (\<lambda>v.
            if f64_is_finite v \<and> f64_gt0 v then Some (f64_as_uint 32 (f64_round v)) else None))
       else (channels, sample_rate)) (None, None) (elements payload)"

definition matroska_audio_features :: "ustring \<Rightarrow> bool \<times> bool" where
  "matroska_audio_features codec = (False, codec = lit ''eac3'' \<or> codec = lit ''truehd'')"

definition video_pixel_format_from_codec_private :: "ustring \<Rightarrow> bytes option \<Rightarrow> string option" where
  "video_pixel_format_from_codec_private codec codec_private =
     Option.bind codec_private (\<lambda>private.
       if codec = lit ''h264'' then pixel_format_from_avc_decoder_config private
       else if codec = lit ''hevc'' then pixel_format_from_hevc_decoder_config private
       else None)"

record track_locals =
  tl_number :: "nat option"
  tl_kind :: mkv_track_kind
  tl_codec_id :: "ustring option"
  tl_language :: "ustring option"
  tl_name :: "ustring option"
  tl_default :: bool
  tl_forced :: bool
  tl_width :: "nat option"
  tl_height :: "nat option"
  tl_transfer :: "nat option"
  tl_channels :: "nat option"
  tl_sample_rate :: "nat option"
  tl_default_duration_ns :: "nat option"
  tl_codec_private :: "bytes option"

definition track_step :: "track_locals \<Rightarrow> element \<Rightarrow> track_locals" where
  "track_step l child =
     (let i = el_id child; p = el_payload child; v = (case read_uint p of Some v \<Rightarrow> v | None \<Rightarrow> 0)
      in if i = 0xd7 then l\<lparr>tl_number := read_uint p\<rparr>
         else if i = 0x83 then l\<lparr>tl_kind := track_type v\<rparr>
         else if i = 0x86 then l\<lparr>tl_codec_id := read_string p\<rparr>
         else if i = 0x63a2 then l\<lparr>tl_codec_private := Some p\<rparr>
         else if i = 0x22b59c \<or> i = 0x22b59d then l\<lparr>tl_language := read_string p\<rparr>
         else if i = 0x536e then l\<lparr>tl_name := read_string p\<rparr>
         else if i = 0x88 then l\<lparr>tl_default := (v \<noteq> 0)\<rparr>
         else if i = 0x55aa then l\<lparr>tl_forced := (v \<noteq> 0)\<rparr>
         else if i = 0x23e383 then l\<lparr>tl_default_duration_ns := read_uint p\<rparr>
         else if i = 0xe0 then
           (let (w, h, transfer) = parse_video p in l\<lparr>tl_width := w, tl_height := h, tl_transfer := transfer\<rparr>)
         else if i = 0xe1 then
           (let (ch, sr) = parse_audio p in l\<lparr>tl_channels := ch, tl_sample_rate := sr\<rparr>)
         else l)"

definition track_locals_init :: track_locals where
  "track_locals_init = \<lparr>tl_number = None, tl_kind = MkvUnknown, tl_codec_id = None, tl_language = None, tl_name = None,
     tl_default = False, tl_forced = False, tl_width = None, tl_height = None, tl_transfer = None, tl_channels = None,
     tl_sample_rate = None, tl_default_duration_ns = None, tl_codec_private = None\<rparr>"

definition parse_track_entry :: "bytes \<Rightarrow> nat \<Rightarrow> matroska_track option" where
  "parse_track_entry payload index =
     (let l = foldl track_step track_locals_init (elements payload)
      in map_option (\<lambda>codec_id.
           let codec = normalize_codec_id codec_id
           in \<lparr>mt_index = index, mt_number = (case tl_number l of Some n \<Rightarrow> n | None \<Rightarrow> index + 1), mt_kind = tl_kind l,
               mt_codec = codec, mt_language = tl_language l, mt_name = tl_name l, mt_default = tl_default l,
               mt_forced = tl_forced l, mt_width = tl_width l, mt_height = tl_height l,
               mt_pixel_format = (if tl_kind l = MkvVideo
                 then video_pixel_format_from_codec_private codec (tl_codec_private l) else None),
               mt_transfer_characteristics = tl_transfer l, mt_channels = tl_channels l, mt_sample_rate = tl_sample_rate l,
               mt_atmos = fst (matroska_audio_features codec),
               mt_object_audio_candidate = snd (matroska_audio_features codec),
               mt_default_duration_ns = tl_default_duration_ns l, mt_codec_private = tl_codec_private l\<rparr>) (tl_codec_id l))"

definition parse_tracks :: "bytes \<Rightarrow> matroska_basic_metadata \<Rightarrow> matroska_basic_metadata" where
  "parse_tracks payload meta =
     foldl (\<lambda>meta entry.
       case parse_track_entry (el_payload entry) (length (mm_tracks meta)) of
         Some track \<Rightarrow> meta\<lparr>mm_tracks := mm_tracks meta @ [track]\<rparr>
       | None \<Rightarrow> meta) meta (filter (\<lambda>e. el_id e = 0xae) (elements payload))"

section \<open>The whole segment\<close>

primrec segment_loop :: "matroska_basic_metadata \<Rightarrow> element list \<Rightarrow> matroska_basic_metadata" where
  "segment_loop meta [] = meta"
| "segment_loop meta (child # children) =
     (let p = el_payload child
      in if el_id child = 0x1549a966 then segment_loop (parse_info p meta) children
         else if el_id child = 0x1654ae6b then segment_loop (parse_tracks p meta) children
         else if el_id child = 0x1043a770 then segment_loop (parse_chapters p meta) children
         else if el_id child = 0x1941a469 then
           segment_loop (meta\<lparr>mm_attachment_count := count_children p 0x61a7\<rparr>) children
         else if el_id child = 0x1f43b675 \<and> mm_duration_ms meta \<noteq> None \<and> mm_tracks meta \<noteq> [] then meta
         else segment_loop meta children)"

definition mkv_basic_metadata :: "bytes \<Rightarrow> matroska_basic_metadata" where
  "mkv_basic_metadata bs =
     (let meta = \<lparr>mm_duration_ms = None, mm_tracks = [], mm_chapters = [], mm_attachment_count = 0\<rparr>
      in case find_first_child bs 0x18538067 of
           None \<Rightarrow> meta
         | Some segment \<Rightarrow> segment_loop meta (elements segment))"

section \<open>Choosing a track\<close>

record selected_chunk_track =
  sct_id :: string
  sct_number :: nat
  sct_kind :: mkv_track_kind
  sct_frame_duration :: "time_delta option"

definition mkv_next_track_id :: "mkv_track_kind \<Rightarrow> counters \<Rightarrow> string \<times> counters" where
  "mkv_next_track_id kind = (\<lambda>(v, a, s, x).
     case kind of
       MkvVideo \<Rightarrow> (''v'' @ show_nat v, (v + 1, a, s, x))
     | MkvAudio \<Rightarrow> (''a'' @ show_nat a, (v, a + 1, s, x))
     | MkvSubtitle \<Rightarrow> (''s'' @ show_nat s, (v, a, s + 1, x))
     | MkvUnknown \<Rightarrow> (''x'' @ show_nat x, (v, a, s, x + 1)))"

fun select_loop :: "string option \<Rightarrow> counters \<Rightarrow> matroska_track list \<Rightarrow> selected_chunk_track option" where
  "select_loop requested cs [] = None"
| "select_loop requested cs (track # tracks) =
     (let (track_id, cs) = mkv_next_track_id (mt_kind track) cs
      in if (case requested of Some r \<Rightarrow> r = track_id | None \<Rightarrow> mt_kind track = MkvVideo)
         then Some \<lparr>sct_id = track_id, sct_number = mt_number track, sct_kind = mt_kind track,
                sct_frame_duration = track_frame_duration track\<rparr>
         else select_loop requested cs tracks)"

definition select_chunk_track :: "matroska_track list \<Rightarrow> string option \<Rightarrow> selected_chunk_track option" where
  "select_chunk_track tracks requested = select_loop requested (0, 0, 0, 0) tracks"

record matroska_packet_track =
  mp_id :: string
  mp_packets :: "packet_ref list"

definition mkv_packet_track :: "nat \<Rightarrow> bytes \<Rightarrow> string option \<Rightarrow> matroska_packet_track option" where
  "mkv_packet_track packet_ref_size bs requested =
     Option.bind (select_chunk_track (mm_tracks (mkv_basic_metadata bs)) requested) (\<lambda>selected.
     Option.bind (find_first_child_element bs 0x18538067) (\<lambda>segment.
       map_option (\<lambda>packets. \<lparr>mp_id = sct_id selected, mp_packets = packets\<rparr>)
         (parse_track_packets packet_ref_size (el_payload segment) (el_payload_offset segment) (sct_number selected)
           (sct_kind selected) (sct_frame_duration selected) (parse_segment_timecode_scale (el_payload segment)))))"

end
