(* ===== verification/Float64Round.thy ===== *)
theory Float64Round
  imports Float64
begin

text \<open>
  The error of one binary64 rounding, and the consequence the readers rely on: dividing an integer below
  2^53 by 10^6 and rounding gives the nearest integer, with no double rounding.
\<close>

lemma pow2_mono: "j \<le> k \<Longrightarrow> pow2 j \<le> pow2 k"
proof (cases "0 \<le> j")
  case True
  assume "j \<le> k"
  with True show ?thesis by (simp add: pow2_def power_increasing nat_mono)
next
  case False
  assume jk: "j \<le> k"
  show ?thesis
  proof (cases "0 \<le> k")
    case True
    have "1 / 2 ^ nat (- j) \<le> (1 :: rat)" by (simp add: divide_le_eq)
    also have "\<dots> \<le> 2 ^ nat k" by simp
    finally show ?thesis using False True by (simp add: pow2_def)
  next
    case k: False
    have "(2 :: rat) ^ nat (- k) \<le> 2 ^ nat (- j)" using jk by (intro power_increasing) simp_all
    then show ?thesis using False k by (simp add: pow2_def frac_le)
  qed
qed

lemma pow2_less: "pow2 j < pow2 k \<Longrightarrow> j < k"
  using pow2_mono [of k j] by linarith

lemma pow2_add: "pow2 (j + k) = pow2 j * pow2 k"
proof -
  have p: "pow2 k = 2 powi k" for k
    by (simp add: pow2_def power_int_def power_inverse inverse_eq_divide power_one_over)
  show ?thesis unfolding p by (simp add: power_int_add)
qed

lemma floor_log2_lower:
  assumes "0 < x"
  shows "pow2 (floor_log2 x) \<le> x"
proof -
  obtain n d where q: "quotient_of x = (n, d)" by (cases "quotient_of x")
  have d: "0 < d" using q by (rule quotient_of_denom_pos)
  have x: "x = of_int n / of_int d" using q by (rule quotient_of_div)
  have n: "0 < n" using assms d unfolding x by (simp add: zero_less_divide_iff)
  define k where "k = int (ilog2 (nat n)) - int (ilog2 (nat d))"
  have "pow2 (k - 1) \<le> x"
  proof -
    have a: "2 ^ ilog2 (nat n) \<le> nat n" "nat d < 2 ^ Suc (ilog2 (nat d))"
      using ilog2_bounds [of "nat n"] ilog2_bounds [of "nat d"] n d by auto
    have "(of_nat (2 ^ ilog2 (nat n)) :: rat) \<le> of_nat (nat n)" "(of_nat (nat d) :: rat) \<le> of_nat (2 ^ Suc (ilog2 (nat d)))"
      using a by (simp_all only: of_nat_le_iff less_imp_le)
    then have b: "2 ^ ilog2 (nat n) \<le> (of_int n :: rat)" "(of_int d :: rat) \<le> 2 ^ Suc (ilog2 (nat d))"
      using n d by simp_all
    have "pow2 (k - 1) * pow2 (int (Suc (ilog2 (nat d)))) = pow2 (int (ilog2 (nat n)))"
      unfolding pow2_add [symmetric] by (simp add: k_def)
    then have "pow2 (k - 1) * 2 ^ Suc (ilog2 (nat d)) = 2 ^ ilog2 (nat n)" by (simp only: pow2_nat)
    then have "pow2 (k - 1) * of_int d \<le> of_int n"
      using b mult_left_mono [OF b(2), of "pow2 (k - 1)"] pow2_pos [of "k - 1"] by linarith
    then show ?thesis unfolding x using d by (simp add: pos_le_divide_eq)
  qed
  then show ?thesis by (simp add: floor_log2_def q k_def [symmetric] Let_def)
qed

lemma floor_log2_less: "0 < x \<Longrightarrow> x < pow2 k \<Longrightarrow> floor_log2 x < k"
  by (meson floor_log2_lower order_le_less_trans pow2_less)

lemma round_half_even_error: "\<bar>of_int (round_half_even q) - q\<bar> \<le> 1 / 2"
proof -
  have "of_int \<lfloor>q\<rfloor> \<le> q" "q < of_int \<lfloor>q\<rfloor> + 1" using floor_correct [of q] by simp_all
  then show ?thesis unfolding round_half_even_def Let_def by (simp add: abs_le_iff)
qed

definition ulp_exp :: "rat \<Rightarrow> int" where
  "ulp_exp x = max (floor_log2 \<bar>x\<bar> - 52) (- 1074)"

lemma round_f64_pos:
  assumes "0 < x" "x < pow2 1000"
  shows "\<exists>y. round_f64 x = Finite y \<and> \<bar>y - x\<bar> \<le> pow2 (ulp_exp x) / 2 \<and>
    (\<forall>i :: int. x / pow2 (ulp_exp x) = of_int i \<longrightarrow> y = x)"
proof -
  define e where "e = ulp_exp x"
  define y where "y = of_int (round_half_even (x / pow2 e)) * pow2 e"
  have pe: "0 < pow2 e" by simp
  have "\<bar>y - x\<bar> = \<bar>of_int (round_half_even (x / pow2 e)) - x / pow2 e\<bar> * pow2 e"
  proof -
    have "y - x = (of_int (round_half_even (x / pow2 e)) - x / pow2 e) * pow2 e"
      using pe less_imp_neq [OF pe] by (simp add: y_def left_diff_distrib)
    then show ?thesis using abs_of_pos [OF pe] by (simp add: abs_mult)
  qed
  also have "\<dots> \<le> 1 / 2 * pow2 e" by (rule mult_right_mono [OF round_half_even_error less_imp_le [OF pe]])
  finally have err: "\<bar>y - x\<bar> \<le> pow2 e / 2" by simp
  have "e \<le> 948"
    using floor_log2_less [OF assms] assms(1) by (simp add: e_def ulp_exp_def)
  then have "pow2 e \<le> pow2 1000" by (intro pow2_mono) simp
  moreover have "pow2 1000 * 2 \<le> pow2 1024" by (simp add: pow2_def)
  ultimately have "\<bar>y\<bar> < pow2 1024" using err assms by linarith
  then have "round_f64 x = Finite y"
    using assms(1) by (simp add: round_f64_def y_def e_def ulp_exp_def Let_def)
  moreover have "y = x" if "x / pow2 e = of_int i" for i :: int
    unfolding y_def that round_half_even_int using that pe by (metis nonzero_divide_eq_eq less_irrefl)
  ultimately show ?thesis using err unfolding e_def by blast
qed

lemma div_million_rounds:
  assumes "n < 2 ^ 53"
  shows "f64_as_uint 64 (f64_round (f64_div_const (Finite (of_nat n)) 1000000)) = (n + 500000) div 1000000"
proof (cases "n = 0")
  case True
  then show ?thesis by (simp add: round_f64_def)
next
  case False
  define x :: rat where "x = of_nat n / 1000000"
  define q where "q = (n + 500000) div 1000000"
  have x0: "0 < x" using False by (simp add: x_def)
  have x34: "x < pow2 34"
  proof -
    have "(of_nat n :: rat) < of_nat (2 ^ 53)" using assms by (simp only: of_nat_less_iff)
    then show ?thesis by (simp add: x_def pow2_def)
  qed
  then have "x < pow2 1000" using pow2_mono [of 34 1000] by simp
  then obtain y where y: "round_f64 x = Finite y" "\<bar>y - x\<bar> \<le> pow2 (ulp_exp x) / 2"
    "\<And>i :: int. x / pow2 (ulp_exp x) = of_int i \<Longrightarrow> y = x"
    using round_f64_pos [OF x0] by blast
  have u: "ulp_exp x \<le> - 19" using floor_log2_less [OF x0 x34] x0 by (simp add: ulp_exp_def)
  then have "pow2 (ulp_exp x) \<le> pow2 (- 19)" by (rule pow2_mono)
  then have "pow2 (ulp_exp x) / 2 < 1 / 1000000" by (simp add: pow2_def)
  with y(2) have err: "\<bar>y - x\<bar> < 1 / 1000000" by linarith
  define r where "r = (n + 500000) mod 1000000"
  have nr: "n + 500000 = q * 1000000 + r" "r < 1000000" by (simp_all add: q_def r_def)
  then have "(of_nat (n + 500000) :: rat) = of_nat (q * 1000000 + r)" by simp
  then have xq: "x + 1 / 2 = of_nat q + of_nat r / 1000000" by (simp add: x_def field_simps)
  have r1: "(of_nat r :: rat) \<le> 999999" using nr(2) by (simp add: of_nat_le_iff [of _ 999999, simplified])
  have upper: "y + 1 / 2 < of_nat q + 1" using err xq r1 by linarith
  have lower: "of_nat q \<le> y + 1 / 2"
  proof (cases "r = 0")
    case True
    then have xh: "x = of_nat q - 1 / 2" using xq by simp
    define m where "m = nat (- ulp_exp x) - 1"
    have m: "ulp_exp x = - int (Suc m)" using u by (simp add: m_def)
    have p: "pow2 (ulp_exp x) * 2 ^ Suc m = 1" unfolding m by (rule pow2_neg)
    have "x / pow2 (ulp_exp x) = x * (pow2 (ulp_exp x) * 2 ^ Suc m) / pow2 (ulp_exp x)" unfolding p by simp
    also have "\<dots> = x * 2 ^ Suc m" using less_imp_neq [OF pow2_pos [of "ulp_exp x"]] by (simp del: power_Suc)
    also have "\<dots> = of_int ((2 * int q - 1) * 2 ^ m)" unfolding xh by (simp add: algebra_simps)
    finally have "y = x" by (rule y(3))
    then show ?thesis using xh by simp
  next
    case False
    then have "1 \<le> (of_nat r :: rat)" by simp
    then show ?thesis using err xq by linarith
  qed
  have y0: "0 \<le> y"
  proof (cases "q = 0")
    case False
    then show ?thesis using lower by (simp add: of_nat_le_iff [of 1, simplified] order_trans [of _ "1 - 1 / 2 :: rat"])
  next
    case True
    have "1 / 1000000 \<le> x" using False by (simp add: x_def)
    then show ?thesis using err by linarith
  qed
  have "\<lfloor>y + 1 / 2\<rfloor> = int q" using upper lower by (intro floor_unique) simp_all
  then have "f64_round (Finite y) = Finite (of_nat q)" using y0 by simp
  moreover have "q \<le> 2 ^ 64 - 1" using assms by (simp add: q_def)
  ultimately show ?thesis using y(1) by (simp add: x_def [symmetric] q_def)
qed

end
