(* ===== verification/MkvPlans.thy ===== *)
theory MkvPlans
  imports MkvMeta Float64Round
begin

text \<open>
  The chunk plans of a Matroska track (\<open>container/matroska.rs\<close>, lines 413 to 615 and 682 to 691): from the cue
  index when the segment has one, otherwise from the keyframes of the blocks. Both cut a sequence of
  timed entries once the target length is reached, so the two are shown to satisfy one contract.
\<close>

section \<open>Cues\<close>

definition cue_positions_track :: "bytes \<Rightarrow> nat option" where
  "cue_positions_track payload = Option.bind (find_first_child payload 0xf7) read_uint"

definition as_i64 :: "nat \<Rightarrow> int" where
  "as_i64 v = signed_of 64 v"

definition parse_cue_point :: "bytes \<Rightarrow> nat \<Rightarrow> nat \<Rightarrow> nat option" where
  "parse_cue_point payload selected_track_number timecode_scale =
     (let (cue_time, has_selected_track) =
            foldl (\<lambda>(cue_time, has) e.
              if el_id e = 0xb3 then (read_uint (el_payload e), has)
              else if el_id e = 0xb7 then
                (cue_time, has \<or> cue_positions_track (el_payload e) = Some selected_track_number)
              else (cue_time, has)) (None, False) (elements payload)
      in if has_selected_track
         then Some (matroska_timecode_to_ms (as_i64 (case cue_time of Some t \<Rightarrow> t | None \<Rightarrow> 0)) timecode_scale)
         else None)"

text \<open>One \<open>Seek\<close> entry: its target id and position.\<close>

definition seek_entry :: "bytes \<Rightarrow> nat option \<times> nat option" where
  "seek_entry payload =
     foldl (\<lambda>(seek_id, position) child.
       if el_id child = 0x53ab then (read_uint (el_payload child), position)
       else if el_id child = 0x53ac then (seek_id, read_uint (el_payload child))
       else (seek_id, position)) (None, None) (elements payload)"

definition find_cue_position_from_seek_head :: "bytes \<Rightarrow> nat option" where
  "find_cue_position_from_seek_head segment =
     Option.bind (find_first_child segment 0x114d9b74) (\<lambda>seek_head.
       case find (\<lambda>e. fst (seek_entry (el_payload e)) = Some 0x1c53bb6b)
           (filter (\<lambda>e. el_id e = 0x4dbb) (elements seek_head)) of
         Some e \<Rightarrow> snd (seek_entry (el_payload e))
       | None \<Rightarrow> None)"

text \<open>The first element at the position, if it is the \<open>Cues\<close>; otherwise a scan of a segment of at most 512 MiB.
  A position past the end ends the search.\<close>

definition find_cues_payload :: "bytes \<Rightarrow> bytes option" where
  "find_cues_payload segment =
     (let scan = (if length segment \<le> 512 * 1024 * 1024 then find_first_child segment 0x1c53bb6b else None)
      in case find_cue_position_from_seek_head segment of
           None \<Rightarrow> scan
         | Some cue_position \<Rightarrow>
             (case get_from segment cue_position of
                None \<Rightarrow> None
              | Some tail \<Rightarrow>
                  (case elements tail of
                     e # _ \<Rightarrow> if el_id e = 0x1c53bb6b then Some (el_payload e) else scan
                   | [] \<Rightarrow> scan)))"

definition cue_times :: "bytes \<Rightarrow> nat \<Rightarrow> nat \<Rightarrow> nat list option" where
  "cue_times segment number timecode_scale =
     map_option (\<lambda>cues. remdups_adj (sort (List.map_filter (\<lambda>cue. parse_cue_point (el_payload cue) number timecode_scale)
       (filter (\<lambda>e. el_id e = 0xbb) (elements cues))))) (find_cues_payload segment)"

section \<open>Cutting\<close>

definition cut_chunk :: "native_chunk list \<Rightarrow> nat \<Rightarrow> nat \<Rightarrow> nat \<Rightarrow> nat \<Rightarrow> bool \<Rightarrow> native_chunk" where
  "cut_chunk chunks start_ms end_ms start_idx end_idx key_aligned =
     \<lparr>nc_index = as_u 32 (length chunks), nc_start = time_point_millis start_ms,
      nc_duration = time_delta_millis (end_ms - start_ms),
      nc_packet_range = \<lparr>rng_start = start_idx, rng_end = as_u 32 end_idx\<rparr>, nc_key_aligned = key_aligned\<rparr>"

fun cue_loop :: "nat \<Rightarrow> nat \<Rightarrow> nat list \<Rightarrow> native_chunk list \<Rightarrow> nat \<Rightarrow> nat \<Rightarrow> nat \<Rightarrow>
    native_chunk list \<times> nat \<times> nat \<times> nat" where
  "cue_loop target_ms idx [] chunks start_cue start_ms last_start = (chunks, start_cue, start_ms, last_start)"
| "cue_loop target_ms idx (cue_ms # cues) chunks start_cue start_ms last_start =
     (if target_ms \<le> cue_ms - start_ms
      then cue_loop target_ms (idx + 1) cues
             (chunks @ [cut_chunk chunks start_ms cue_ms start_cue idx True]) (as_u 32 idx) cue_ms cue_ms
      else cue_loop target_ms (idx + 1) cues chunks start_cue start_ms cue_ms)"

definition parse_cue_chunk_plan :: "bytes \<Rightarrow> selected_chunk_track \<Rightarrow> nat \<Rightarrow> nat \<Rightarrow> chunk_plan option" where
  "parse_cue_chunk_plan segment selected timecode_scale target_ms =
     (case cue_times segment (sct_number selected) timecode_scale of
        None \<Rightarrow> None
      | Some [] \<Rightarrow> None
      | Some (t # ts) \<Rightarrow>
          let (chunks, start_cue, start_ms, last_start) = cue_loop target_ms 1 ts [] 0 t t
          in Some \<lparr>cp_track_ids = [sct_id selected],
               cp_chunks = chunks @ [cut_chunk chunks start_ms last_start start_cue (length (t # ts)) True]\<rparr>)"

section \<open>Scanning the blocks\<close>

record block_scan =
  bs_chunks :: "native_chunk list"
  bs_index :: nat
  bs_start_block :: nat
  bs_start_ms :: nat
  bs_last_seen_ms :: nat
  bs_key_aligned :: bool
  bs_saw_block :: bool

definition scan_init :: block_scan where
  "scan_init = \<lparr>bs_chunks = [], bs_index = 0, bs_start_block = 0, bs_start_ms = 0, bs_last_seen_ms = 0,
     bs_key_aligned = True, bs_saw_block = False\<rparr>"

definition scan_step :: "nat \<Rightarrow> block_scan \<Rightarrow> nat \<times> bool \<Rightarrow> block_scan" where
  "scan_step target_ms s = (\<lambda>(timestamp_ms, keyframe).
     let s = (if bs_saw_block s then s
              else s\<lparr>bs_start_ms := timestamp_ms, bs_key_aligned := keyframe, bs_saw_block := True\<rparr>);
         s = (if bs_start_block s < bs_index s \<and> keyframe \<and> target_ms \<le> timestamp_ms - bs_start_ms s
              then s\<lparr>bs_chunks := bs_chunks s @ [cut_chunk (bs_chunks s) (bs_start_ms s) timestamp_ms (bs_start_block s)
                       (bs_index s) (bs_key_aligned s)],
                     bs_start_block := bs_index s, bs_start_ms := timestamp_ms, bs_key_aligned := keyframe\<rparr>
              else s)
     in s\<lparr>bs_last_seen_ms := timestamp_ms, bs_index := bs_index s + 1\<rparr>)"

text \<open>Time and keyframe flag of the blocks of the track, in file order.\<close>

definition cluster_times :: "nat \<Rightarrow> nat \<Rightarrow> element \<Rightarrow> (nat \<times> bool) list" where
  "cluster_times number timecode_scale cluster =
     (let ct = (case parse_cluster_timecode (el_payload cluster) of Some t \<Rightarrow> t | None \<Rightarrow> 0)
      in map (\<lambda>b. (matroska_timecode_to_ms (saturating_add_signed ct (cb_relative_timecode b)) timecode_scale, cb_keyframe b))
           (filter (\<lambda>b. cb_track_number b = number) (cluster_blocks (el_payload cluster) 0)))"

definition block_times :: "bytes \<Rightarrow> nat \<Rightarrow> nat \<Rightarrow> (nat \<times> bool) list" where
  "block_times segment number timecode_scale =
     concat (map (cluster_times number timecode_scale) (filter (\<lambda>e. el_id e = 0x1f43b675) (elements segment)))"

definition scan_finish :: "block_scan \<Rightarrow> native_chunk list" where
  "scan_finish s =
     (if bs_saw_block s
      then bs_chunks s @ [cut_chunk (bs_chunks s) (bs_start_ms s) (bs_last_seen_ms s) (bs_start_block s) (bs_index s)
             (bs_key_aligned s)]
      else bs_chunks s)"

definition close_last_chunk :: "nat option \<Rightarrow> chunk_plan \<Rightarrow> chunk_plan" where
  "close_last_chunk duration plan =
     (case duration of
        Some d \<Rightarrow>
          (if cp_chunks plan = [] then plan
           else let c = last (cp_chunks plan)
                in plan\<lparr>cp_chunks := butlast (cp_chunks plan) @
                     [c\<lparr>nc_duration := time_delta_millis (max (d - tp_as_millis (nc_start c)) 1)\<rparr>]\<rparr>)
      | None \<Rightarrow> plan)"

definition mkv_chunk_plan :: "bytes \<Rightarrow> string option \<Rightarrow> nat \<Rightarrow> chunk_plan option" where
  "mkv_chunk_plan bs requested target_ms =
     (if target_ms = 0 then Some \<lparr>cp_track_ids = [], cp_chunks = []\<rparr>
      else
        let meta = mkv_basic_metadata bs
        in Option.bind (select_chunk_track (mm_tracks meta) requested) (\<lambda>selected.
           Option.bind (find_first_child bs 0x18538067) (\<lambda>segment.
             let timecode_scale = parse_segment_timecode_scale segment
             in case parse_cue_chunk_plan segment selected timecode_scale target_ms of
                  Some plan \<Rightarrow> Some (close_last_chunk (mm_duration_ms meta) plan)
                | None \<Rightarrow>
                    if 512 * 1024 * 1024 < length segment then None
                    else Some \<lparr>cp_track_ids = [sct_id selected],
                           cp_chunks = scan_finish (foldl (scan_step target_ms) scan_init
                             (block_times segment (sct_number selected) timecode_scale))\<rparr>)))"

section \<open>One contract for both\<close>

text \<open>
  Chunks cut from the timed entries \<open>ts\<close> (time, may begin a chunk): they tile the entries, start at the time
  of their first entry, end at the time of the next chunk's first entry (the last one at the time of the
  last entry), carry that entry's flag, and every cut is at a flagged entry at least the target after the start.
\<close>

definition chunk_end_ms :: "(nat \<times> bool) list \<Rightarrow> native_chunk \<Rightarrow> nat" where
  "chunk_end_ms ts c = fst (ts ! (if chunk_to c < length ts then chunk_to c else length ts - 1))"

definition cuts :: "nat \<Rightarrow> (nat \<times> bool) list \<Rightarrow> native_chunk \<Rightarrow> bool" where
  "cuts target_ms ts c \<longleftrightarrow>
     nc_start c = time_point_millis (fst (ts ! chunk_from c)) \<and>
     nc_duration c = time_delta_millis (chunk_end_ms ts c - fst (ts ! chunk_from c)) \<and>
     nc_key_aligned c = snd (ts ! chunk_from c) \<and>
     (chunk_to c < length ts \<longrightarrow> snd (ts ! chunk_to c) \<and> target_ms \<le> fst (ts ! chunk_to c) - fst (ts ! chunk_from c))"

text \<open>The state of a cutting loop after the entries before \<open>idx\<close>.\<close>

definition cutting :: "nat \<Rightarrow> (nat \<times> bool) list \<Rightarrow> nat \<Rightarrow> native_chunk list \<Rightarrow> nat \<Rightarrow> bool" where
  "cutting target_ms ts idx chunks start \<longleftrightarrow>
     start < idx \<and> idx \<le> length ts \<and> contiguous 0 chunks start \<and> list_all (cuts target_ms ts) chunks"

lemma cutting_cut:
  assumes "cutting target_ms ts idx chunks start" "idx < length ts" "length ts < 2 ^ 32"
    and "snd (ts ! idx)" "target_ms \<le> fst (ts ! idx) - fst (ts ! start)"
  shows "cutting target_ms ts (Suc idx)
    (chunks @ [cut_chunk chunks (fst (ts ! start)) (fst (ts ! idx)) start idx (snd (ts ! start))]) idx"
  using assms by (auto simp: cutting_def contiguous_append cut_chunk_def cuts_def chunk_end_ms_def as_u_def)

lemma cutting_last:
  assumes "cutting target_ms ts (length ts) chunks start" "length ts < 2 ^ 32"
  shows "contiguous 0 (chunks @ [cut_chunk chunks (fst (ts ! start)) (fst (last ts)) start (length ts) (snd (ts ! start))])
      (length ts) \<and>
    list_all (cuts target_ms ts)
      (chunks @ [cut_chunk chunks (fst (ts ! start)) (fst (last ts)) start (length ts) (snd (ts ! start))])"
proof -
  have "ts \<noteq> []" using assms(1) by (auto simp: cutting_def)
  then show ?thesis
    using assms by (auto simp: cutting_def contiguous_append cut_chunk_def cuts_def chunk_end_ms_def as_u_def last_conv_nth)
qed

lemma cue_loop_cutting:
  assumes "ts = map (\<lambda>t. (t, True)) tms" "cutting target_ms ts idx chunks start" "cues = drop idx tms"
    "length tms < 2 ^ 32" "start_ms = tms ! start" "last_start = tms ! (idx - 1)"
    "cue_loop target_ms idx cues chunks start start_ms last_start = (chunks', start', start_ms', last')"
  shows "cutting target_ms ts (length ts) chunks' start' \<and> start_ms' = tms ! start' \<and> last' = last tms"
  using assms
proof (induction cues arbitrary: idx chunks start start_ms last_start)
  case Nil
  then have "idx = length tms" by (auto simp: cutting_def)
  moreover have "tms \<noteq> []" using Nil by (auto simp: cutting_def)
  ultimately show ?case using Nil by (auto simp: last_conv_nth)
next
  case (Cons cue cues)
  have i: "idx < length tms" "cue = tms ! idx" "cues = drop (Suc idx) tms"
    using Cons.prems(3) by (metis drop_eq_Nil linorder_not_le list.distinct(1), metis nth_via_drop, metis drop_Suc list.sel(3) tl_drop)
  have s: "start < length tms" using Cons.prems(2) i(1) by (simp add: cutting_def)
  show ?case
  proof (cases "target_ms \<le> cue - start_ms")
    case True
    have "cutting target_ms ts (Suc idx)
        (chunks @ [cut_chunk chunks (fst (ts ! start)) (fst (ts ! idx)) start idx (snd (ts ! start))]) idx"
      using True Cons.prems i(1,2) s by (intro cutting_cut) auto
    then have "cutting target_ms ts (Suc idx) (chunks @ [cut_chunk chunks start_ms cue start idx True]) idx"
      using Cons.prems i s by simp
    then show ?thesis using Cons.prems(1,4,7) True i
      by (intro Cons.IH [of "Suc idx" "chunks @ [cut_chunk chunks start_ms cue start idx True]" idx cue cue])
        (simp_all add: as_u_def)
  next
    case False
    have "cutting target_ms ts (Suc idx) chunks start" using Cons.prems i(1) by (auto simp: cutting_def)
    then show ?thesis using Cons.prems(1,4,5,7) False i
      by (intro Cons.IH [of "Suc idx" chunks start start_ms cue]) simp_all
  qed
qed

definition scan_inv :: "nat \<Rightarrow> (nat \<times> bool) list \<Rightarrow> nat \<Rightarrow> block_scan \<Rightarrow> bool" where
  "scan_inv target_ms ts idx s \<longleftrightarrow>
     bs_saw_block s \<and> bs_index s = idx \<and> cutting target_ms ts idx (bs_chunks s) (bs_start_block s) \<and>
     bs_start_ms s = fst (ts ! bs_start_block s) \<and> bs_key_aligned s = snd (ts ! bs_start_block s) \<and>
     bs_last_seen_ms s = fst (ts ! (idx - 1))"

lemma scan_step_inv:
  assumes "scan_inv target_ms ts idx s" "idx < length ts" "length ts < 2 ^ 32"
  shows "scan_inv target_ms ts (Suc idx) (scan_step target_ms s (ts ! idx))"
proof (cases "snd (ts ! idx) \<and> target_ms \<le> fst (ts ! idx) - bs_start_ms s")
  case True
  have c: "cutting target_ms ts idx (bs_chunks s) (bs_start_block s)" using assms(1) by (simp add: scan_inv_def)
  have "cutting target_ms ts (Suc idx)
      (bs_chunks s @ [cut_chunk (bs_chunks s) (fst (ts ! bs_start_block s)) (fst (ts ! idx)) (bs_start_block s) idx
        (snd (ts ! bs_start_block s))]) idx"
    using True assms by (intro cutting_cut [OF c]) (simp_all add: scan_inv_def)
  moreover have "bs_start_block s < idx" using c by (simp add: cutting_def)
  ultimately show ?thesis using True assms
    by (simp add: scan_inv_def scan_step_def Let_def case_prod_unfold)
next
  case False
  have "cutting target_ms ts (Suc idx) (bs_chunks s) (bs_start_block s)"
    using assms by (auto simp: scan_inv_def cutting_def)
  then show ?thesis using False assms
    by (auto simp: scan_inv_def scan_step_def Let_def case_prod_unfold)
qed

lemma scan_all:
  assumes "ts \<noteq> []" "length ts < 2 ^ 32" "0 < idx" "idx \<le> length ts"
  shows "scan_inv target_ms ts idx (foldl (scan_step target_ms) scan_init (take idx ts))"
  using assms(3,4)
proof (induction idx rule: nat_induct_non_zero)
  case 1
  have t: "take 1 ts = [ts ! 0]" using assms(1) by (cases ts) simp_all
  show ?case unfolding t using assms(1)
    by (simp add: scan_init_def scan_step_def scan_inv_def cutting_def case_prod_unfold Let_def Suc_le_eq)
next
  case (Suc idx)
  then have "take (Suc idx) ts = take idx ts @ [ts ! idx]" by (simp add: take_Suc_conv_app_nth)
  then show ?case using Suc scan_step_inv [of target_ms ts idx] assms(2) by simp
qed

lemma strict_remdups_adj: "sorted xs \<Longrightarrow> sorted_wrt (<) (remdups_adj (xs :: nat list))"
proof (induction xs rule: remdups_adj.induct)
  case (3 x y xs)
  have "set (remdups_adj (y # xs)) = set (y # xs)" by (rule remdups_adj_set)
  with 3 show ?case by (auto intro: order.strict_trans1 [of x y])
qed simp_all

section \<open>Properties\<close>

text \<open>A chunk plan from the cue index cuts the distinct, increasing cue times: the chunks tile the cue
  indices, each starts at its first cue, is key aligned, and ends where the next begins, at the first cue that
  is the target or more after its start.\<close>

theorem cue_plan_cuts_cues:
  assumes "parse_cue_chunk_plan segment selected timecode_scale target_ms = Some plan"
    and "cue_times segment (sct_number selected) timecode_scale = Some tms" "length tms < 2 ^ 32"
  shows "sorted_wrt (<) tms \<and> contiguous 0 (cp_chunks plan) (length tms) \<and>
    list_all (cuts target_ms (map (\<lambda>t. (t, True)) tms)) (cp_chunks plan)"
proof -
  obtain t us where t: "tms = t # us" using assms(1,2) by (cases tms) (auto simp: parse_cue_chunk_plan_def)
  obtain chunks start start_ms last_start where l: "cue_loop target_ms (Suc 0) us [] 0 t t = (chunks, start, start_ms, last_start)"
    by (cases "cue_loop target_ms (Suc 0) us [] 0 t t")
  let ?ts = "map (\<lambda>t. (t, True)) tms"
  have p: "cp_chunks plan = chunks @ [cut_chunk chunks start_ms last_start start (length tms) True]"
    using assms(1,2) by (auto simp: parse_cue_chunk_plan_def t l)
  have "cutting target_ms ?ts (length ?ts) chunks start \<and> start_ms = tms ! start \<and> last_start = last tms"
  proof (rule cue_loop_cutting [OF refl _ _ assms(3)])
    show "cutting target_ms ?ts (Suc 0) [] 0" by (simp add: cutting_def t)
    show "us = drop (Suc 0) tms" "t = tms ! 0" "t = tms ! (Suc 0 - 1)" by (simp_all add: t)
    show "cue_loop target_ms (Suc 0) us [] 0 t t = (chunks, start, start_ms, last_start)" by (rule l)
  qed
  then have c: "cutting target_ms ?ts (length ?ts) chunks start" "start_ms = tms ! start" "last_start = last tms" by blast+
  have s: "start < length tms" using c(1) by (simp add: cutting_def)
  have "last ?ts = (last tms, True)" by (simp add: t last_map)
  then have "contiguous 0 (cp_chunks plan) (length tms) \<and> list_all (cuts target_ms ?ts) (cp_chunks plan)"
    using cutting_last [OF c(1)] assms(3) s by (simp add: p c(2,3))
  moreover have "sorted_wrt (<) tms"
  proof -
    obtain xs where x: "tms = remdups_adj (sort xs)" using assms(2) by (auto simp: cue_times_def)
    show ?thesis unfolding x by (rule strict_remdups_adj) simp
  qed
  ultimately show ?thesis by blast
qed

definition demo_cues :: bytes where
  "demo_cues = [0x1c, 0x53, 0xbb, 0x6b, 0x94, 0xbb, 0x88, 0xb3, 0x81, 0x00, 0xb7, 0x83, 0xf7, 0x81, 0x01,
     0xbb, 0x88, 0xb3, 0x81, 0x64, 0xb7, 0x83, 0xf7, 0x81, 0x01]"

definition demo_selected :: selected_chunk_track where
  "demo_selected = \<lparr>sct_id = ''v0'', sct_number = 1, sct_kind = MkvVideo, sct_frame_duration = None\<rparr>"

lemmas element_eval = elements_def elements_from.simps element_next_def read_vint_id_def read_vint_size_def vint_len_def
  slice_def be_nat_def checked_add_def Let_def

lemma leading_zeros_numeral:
  "leading_zeros (numeral k) n =
    (if 2 ^ pred_numeral k \<le> n then 0 else 1 + leading_zeros (pred_numeral k) n)"
  by (simp add: numeral_eq_Suc)

lemma demo_cue_elements:
  "elements demo_cues = [\<lparr>el_id = 0x1c53bb6b, el_payload = drop 5 demo_cues, el_payload_offset = 5\<rparr>]"
  by (simp add: demo_cues_def element_eval leading_zeros_numeral)

lemma demo_cue_points: "elements (drop 5 demo_cues) =
  [\<lparr>el_id = 0xbb, el_payload = [0xb3, 0x81, 0x00, 0xb7, 0x83, 0xf7, 0x81, 0x01], el_payload_offset = 2\<rparr>,
   \<lparr>el_id = 0xbb, el_payload = [0xb3, 0x81, 0x64, 0xb7, 0x83, 0xf7, 0x81, 0x01], el_payload_offset = 12\<rparr>]"
  by (simp add: demo_cues_def element_eval leading_zeros_numeral)

lemma demo_cue_point:
  "elements [0xb3, 0x81, t, 0xb7, 0x83, 0xf7, 0x81, 0x01] =
    [\<lparr>el_id = 0xb3, el_payload = [t], el_payload_offset = 2\<rparr>,
     \<lparr>el_id = 0xb7, el_payload = [0xf7, 0x81, 0x01], el_payload_offset = 5\<rparr>]"
  "elements [0xf7, 0x81, 0x01] = [\<lparr>el_id = 0xf7, el_payload = [1], el_payload_offset = 2\<rparr>]"
  by (simp_all add: element_eval leading_zeros_numeral)

lemma small_timecode: "n < 256 \<Longrightarrow> matroska_timecode_to_ms (as_i64 n) 1000000 = n"
  by (simp add: as_i64_def signed_of_def matroska_timecode_to_ms_def sat_mul_def)

lemma demo_cue_times: "cue_times demo_cues 1 1000000 = Some [0, 100]"
proof -
  have p: "parse_cue_point [0xb3, 0x81, t, 0xb7, 0x83, 0xf7, 0x81, 0x01] 1 1000000 = Some (unat t)"
    for t :: u8
  proof -
    have n: "unat t < 256" using unsigned_less [of t, where ?'a = nat] by simp
    have "read_uint [t] = Some (unat t)" "read_uint [1] = Some 1" by (simp_all add: read_uint_def be_nat_def)
    moreover have "matroska_timecode_to_ms (as_i64 (unat t)) 1000000 = unat t"
      using n by (rule small_timecode)
    ultimately show ?thesis
      by (simp add: parse_cue_point_def demo_cue_point cue_positions_track_def find_first_child_def)
  qed
  show ?thesis
    by (simp add: cue_times_def find_cues_payload_def find_cue_position_from_seek_head_def find_first_child_def
        demo_cue_elements demo_cue_points List.map_filter_def p [of 0, unfolded One_nat_def] p [of 100, unfolded One_nat_def])
    (simp add: demo_cues_def)
qed

theorem cue_plan_cuts_cues_witness:
  "\<exists>plan. parse_cue_chunk_plan demo_cues demo_selected 1000000 50 = Some plan \<and> contiguous 0 (cp_chunks plan) 2"
proof -
  have t: "cue_times demo_cues (sct_number demo_selected) 1000000 = Some [0, 100]"
    using demo_cue_times by (simp add: demo_selected_def)
  obtain plan where p: "parse_cue_chunk_plan demo_cues demo_selected 1000000 50 = Some plan"
    unfolding parse_cue_chunk_plan_def t by simp
  show ?thesis using cue_plan_cuts_cues [OF p t] p by simp (simp add: numeral_2_eq_2)
qed

text \<open>Without cues the plan is cut from the blocks of the track under the same contract: the chunks tile the
  blocks, and every chunk after the first begins at a keyframe at least the target after its predecessor's start.\<close>

theorem block_plan_cuts_keyframes:
  assumes "ts \<noteq> []" "length ts < 2 ^ 32"
  shows "contiguous 0 (scan_finish (foldl (scan_step target_ms) scan_init ts)) (length ts) \<and>
    list_all (cuts target_ms ts) (scan_finish (foldl (scan_step target_ms) scan_init ts))"
proof -
  let ?s = "foldl (scan_step target_ms) scan_init ts"
  have i: "scan_inv target_ms ts (length ts) ?s" using scan_all [OF assms, of "length ts"] assms(1) by simp
  then have c: "cutting target_ms ts (length ts) (bs_chunks ?s) (bs_start_block ?s)" by (simp add: scan_inv_def)
  have "scan_finish ?s = bs_chunks ?s @ [cut_chunk (bs_chunks ?s) (fst (ts ! bs_start_block ?s)) (fst (last ts))
      (bs_start_block ?s) (length ts) (snd (ts ! bs_start_block ?s))]"
    using i assms(1) by (simp add: scan_finish_def scan_inv_def last_conv_nth)
  then show ?thesis using cutting_last [OF c assms(2)] by simp
qed

theorem block_plan_cuts_keyframes_witness:
  "contiguous 0 (scan_finish (foldl (scan_step 100) scan_init [(0, True), (40, False), (120, True)])) 3"
  using block_plan_cuts_keyframes [of "[(0, True), (40, False), (120, True)]" 100] by (simp add: numeral_3_eq_3)

section \<open>Metadata\<close>

lemma f64_bits_of_nat_bound: "n < 2 ^ 53 \<Longrightarrow> f64_bits_of_nat n < 2 ^ 64"
proof (cases "n = 0")
  case False
  assume n: "n < 2 ^ 53"
  let ?k = "ilog2 n"
  have b: "2 ^ ?k \<le> n" "n < 2 ^ Suc ?k" using ilog2_bounds False by auto
  have "2 ^ ?k < (2 :: nat) ^ 53" using b n by linarith
  then have "?k < 53" by (rule power_less_imp_less_exp [rotated]) simp
  then have k: "?k \<le> 52" by simp
  have "n * 2 ^ (52 - ?k) \<le> 2 ^ Suc ?k * 2 ^ (52 - ?k)" using b(2) by (intro mult_right_mono) simp_all
  also have "\<dots> = 2 ^ 53" using k by (simp add: power_add [symmetric] del: power_Suc)
  finally have "n * 2 ^ (52 - ?k) \<le> 2 ^ 53" .
  moreover have "(?k + 1023) * 2 ^ 52 \<le> 1075 * 2 ^ 52" using k by (intro mult_right_mono) simp_all
  ultimately show ?thesis using False by (simp add: f64_bits_of_nat_def)
qed (simp add: f64_bits_of_nat_def)

definition enc_info :: "nat \<Rightarrow> nat \<Rightarrow> bytes" where
  "enc_info scale duration =
     concat (map enc_element [(0x2ad7b1, 1, be_u64 scale), (0x4489, 1, be_u64 (f64_bits_of_nat duration))])"

lemma info_elements:
  "\<exists>x y. elements (enc_info scale duration) = [x, y] \<and> element_key x = (0x2ad7b1, be_u64 scale) \<and>
    element_key y = (0x4489, be_u64 (f64_bits_of_nat duration))"
proof -
  let ?xs = "[(0x2ad7b1, 1, be_u64 scale), (0x4489, 1, be_u64 (f64_bits_of_nat duration))]"
  have v: "valid_id 0x2ad7b1" "valid_id 0x4489"
    unfolding valid_id_def by (rule bexI [of _ 3], simp, simp, rule bexI [of _ 2], simp, simp)
  then have "\<forall>x \<in> set ?xs. wf_element x" by (simp add: wf_element_def)
  moreover have "length ([] @ concat (map enc_element ?xs)) < 2 ^ 64"
    by (simp add: enc_element_def enc_id_def)
  ultimately have "map element_key (elements (enc_info scale duration)) = [(0x2ad7b1, be_u64 scale), (0x4489, be_u64 (f64_bits_of_nat duration))]"
    using elements_from_enc [of ?xs "[]"] unfolding elements_def enc_info_def by simp
  then show ?thesis by (auto simp: map_eq_Cons_conv)
qed

text \<open>The duration of a Matroska file whose \<open>Info\<close> holds a whole number of ticks is its length in milliseconds
  rounded to the nearest, halves upwards: the three floating point operations lose nothing as long as the length
  in nanoseconds is below 2^53.\<close>

theorem matroska_duration_is_nearest_ms:
  assumes "duration * scale < 2 ^ 53" "duration < 2 ^ 53" "scale < 2 ^ 53"
  shows "mm_duration_ms (parse_info (enc_info scale duration) meta) = Some ((duration * scale + 500000) div 1000000)"
proof -
  obtain x y where e: "elements (enc_info scale duration) = [x, y]"
    "element_key x = (0x2ad7b1, be_u64 scale)" "element_key y = (0x4489, be_u64 (f64_bits_of_nat duration))"
    using info_elements by blast
  then have x: "el_id x = 0x2ad7b1" "el_payload x = be_u64 scale"
    and y: "el_id y = 0x4489" "el_payload y = be_u64 (f64_bits_of_nat duration)"
    by (simp_all add: element_key_def)
  have s: "read_uint (be_u64 scale) = Some scale"
  proof -
    have "length (be_u64 scale) = 8" by simp
    then have "be_u64 scale \<noteq> []" by (metis list.size(3) zero_neq_numeral)
    then show ?thesis using assms(3) by (simp add: read_uint_def)
  qed
  have d: "read_float (be_u64 (f64_bits_of_nat duration)) = Some (Finite (of_nat duration))"
    using f64_bits_of_nat_bound [OF assms(2)] f64_bits_of_nat_read [OF assms(2)]
    by (simp add: read_float_def be_nat_be_u64)
  have "foldl info_step (1000000, None) (elements (enc_info scale duration)) = (scale, Some (Finite (of_nat duration)))"
    by (simp add: e(1) info_step_def x y s d)
  then show ?thesis
    using f64_of_nat_exact [OF assms(3)] f64_mul_nat [OF assms(1)] div_million_rounds [OF assms(1)]
    by (simp add: parse_info_def del: f64_mul.simps f64_div_const.simps f64_round.simps f64_as_uint.simps)
qed

theorem matroska_duration_is_nearest_ms_witness:
  "mm_duration_ms (parse_info (enc_info 1000000 90500) \<lparr>mm_duration_ms = None, mm_tracks = [], mm_chapters = [], mm_attachment_count = 0\<rparr>)
    = Some 90500"
  by (subst matroska_duration_is_nearest_ms) simp_all

lemma chapter_atoms_bound:
  "length (parse_chapter_atom_at_depth depth payload chapters) \<le> max (length chapters) (max_boxes limits_default)"
proof (induction depth payload chapters rule: parse_chapter_atom_at_depth.induct)
  case (1 depth payload chapters)
  show ?case
  proof (cases "max_depth limits_default \<le> depth \<or> max_boxes limits_default \<le> length chapters")
    case True
    then show ?thesis by (simp add: parse_chapter_atom_at_depth.simps [of depth payload chapters])
  next
    case False
    define l where "l = foldl chapter_step \<lparr>cl_uid = None, cl_start_ms = None, cl_end_ms = None, cl_title = None,
              cl_language = None\<rparr> (elements payload)"
    have step: "length (fold (\<lambda>nested. parse_chapter_atom_at_depth (depth + 1) nested) xs cs) \<le> max (length cs) (max_boxes limits_default)"
      if "set xs \<subseteq> set (chapter_atoms payload)" for xs cs
      using that
    proof (induction xs arbitrary: cs)
      case (Cons x xs)
      have "length (parse_chapter_atom_at_depth (depth + 1) x cs) \<le> max (length cs) (max_boxes limits_default)"
        using 1 False Cons.prems by simp
      then show ?case using Cons.IH [of "parse_chapter_atom_at_depth (depth + 1) x cs"] Cons.prems by simp
    qed simp
    have "length (push_chapter l chapters) \<le> Suc (length chapters)" by (simp add: push_chapter_def split: option.splits)
    then show ?thesis
      using step [of "chapter_atoms payload" "push_chapter l chapters"] False
      by (simp add: parse_chapter_atom_at_depth.simps [of depth payload chapters] l_def Let_def)
  qed
qed

text \<open>However the editions and the atoms in them nest, reading chapters never holds more than the limit of
  100000 chapters.\<close>

theorem matroska_chapters_bounded:
  assumes "length (mm_chapters meta) \<le> max_boxes limits_default"
  shows "length (mm_chapters (parse_chapters payload meta)) \<le> max_boxes limits_default"
proof -
  have "length (fold (\<lambda>atom. parse_chapter_atom_at_depth 0 atom) xs cs) \<le> max_boxes limits_default"
    if "length cs \<le> max_boxes limits_default" for xs cs
    using that
  proof (induction xs arbitrary: cs)
    case (Cons x xs)
    then show ?case using chapter_atoms_bound [of 0 x cs] by simp
  qed simp
  then have "length (fold (\<lambda>edition. fold (\<lambda>atom. parse_chapter_atom_at_depth 0 atom) (chapter_atoms (el_payload edition))) es cs)
      \<le> max_boxes limits_default" if "length cs \<le> max_boxes limits_default" for es cs
    using that by (induction es arbitrary: cs) simp_all
  then show ?thesis using assms by (simp add: parse_chapters_def)
qed

theorem matroska_chapters_bounded_witness:
  "length (mm_chapters (parse_chapters [] \<lparr>mm_duration_ms = None, mm_tracks = [], mm_chapters = [], mm_attachment_count = 0\<rparr>))
    \<le> max_boxes limits_default"
  by (rule matroska_chapters_bounded) (simp add: limits_default_def)

end
