(* ===== verification/AnnexB.thy ===== *)
theory AnnexB
  imports Packets
begin

text \<open>
  Bitstream repackaging: length-prefixed AVC (\<open>codec/h264.rs\<close>) and HEVC
  (\<open>codec/hevc.rs\<close>) samples to Annex B byte streams, the decoder configuration
  records that hold the parameter sets, and AAC frames with ADTS headers
  (\<open>codec/aac.rs\<close>). A closure that updates captured state is a function from state to
  result; \<open>try_reserve\<close> is taken to succeed. The conversions are shown to accept exactly
  the well-formed samples within the output limit, and to keep every NAL unit.
\<close>

section \<open>AVC samples\<close>

record avc_nal_unit =
  nu_sample_index :: nat
  nu_sample_payload_offset :: nat
  nu_payload_offset :: nat
  nu_byte_count :: nat
  nu_type :: u8

datatype h264_error =
    InvalidLengthSize | SampleOutOfBounds | TruncatedLengthPrefix | TruncatedNalUnit
  | TruncatedAvcConfig | ResourceLimit

record avc_parameter_sets =
  aps_length_size :: nat
  aps_sps :: "bytes list"
  aps_pps :: "bytes list"

definition MAX_NAL_UNITS :: nat where
  "MAX_NAL_UNITS = 1000000"

definition MAX_ANNEX_B_BYTES :: nat where
  "MAX_ANNEX_B_BYTES = 64 * 1024 * 1024"

definition start_code :: bytes where
  "start_code = [0, 0, 0, 1]"

text \<open>The \<open>while\<close> loop of \<open>visit_avc_nalus\<close>. Its caller has checked that the length size
  is 1 to 4; the test for 0 only makes the recursion well-founded.\<close>

function visit_loop :: "bytes \<Rightarrow> nat \<Rightarrow> (nat \<Rightarrow> bytes \<Rightarrow> 's \<Rightarrow> h264_error + 's) \<Rightarrow> nat \<Rightarrow> 's \<Rightarrow>
    h264_error + 's" where
  "visit_loop sample length_size visit offset s =
     (if length_size = 0 \<or> length sample \<le> offset then Inr s
      else case checked_add 64 offset length_size of
        None \<Rightarrow> Inl TruncatedLengthPrefix
      | Some prefix_end \<Rightarrow>
          (case get_range sample offset prefix_end of
             None \<Rightarrow> Inl TruncatedLengthPrefix
           | Some prefix \<Rightarrow>
               (case checked_add 64 prefix_end (be_nat prefix) of
                  None \<Rightarrow> Inl TruncatedNalUnit
                | Some e \<Rightarrow>
                    (case get_range sample prefix_end e of
                       None \<Rightarrow> Inl TruncatedNalUnit
                     | Some bs \<Rightarrow>
                         (case (if bs \<noteq> [] then visit prefix_end bs s else Inr s) of
                            Inl err \<Rightarrow> Inl err
                          | Inr s \<Rightarrow> visit_loop sample length_size visit e s)))))"
  by pat_completeness auto
termination
  by (relation "measure (\<lambda>(sample, length_size, visit, offset, s). length sample - offset)")
    (auto split: if_splits)

declare visit_loop.simps [simp del]

definition visit_avc_nalus :: "bytes \<Rightarrow> nat \<Rightarrow> (nat \<Rightarrow> bytes \<Rightarrow> 's \<Rightarrow> h264_error + 's) \<Rightarrow> 's \<Rightarrow>
    h264_error + 's" where
  "visit_avc_nalus sample length_size visit s =
     (if \<not> (1 \<le> length_size \<and> length_size \<le> 4) then Inl InvalidLengthSize
      else visit_loop sample length_size visit 0 s)"

definition size_nal :: "nat \<Rightarrow> bytes \<Rightarrow> nat \<Rightarrow> h264_error + nat" where
  "size_nal _ bs n =
     ok_or ResourceLimit
       (Option.bind (checked_add 64 n 4) (\<lambda>n. Option.bind (checked_add 64 n (length bs))
         (\<lambda>n. if n \<le> MAX_ANNEX_B_BYTES then Some n else None)))"

definition emit_nal :: "nat \<Rightarrow> bytes \<Rightarrow> bytes \<Rightarrow> h264_error + bytes" where
  "emit_nal _ bs out = Inr (out @ start_code @ bs)"

definition append_annex_b :: "bytes \<Rightarrow> bytes \<Rightarrow> nat \<Rightarrow> h264_error + bytes" where
  "append_annex_b out sample length_size =
     res_bind (visit_avc_nalus sample length_size size_nal (length out)) (\<lambda>_.
       visit_avc_nalus sample length_size emit_nal out)"

definition avc_sample_to_annex_b :: "bytes \<Rightarrow> nat \<Rightarrow> h264_error + bytes" where
  "avc_sample_to_annex_b sample length_size = append_annex_b [] sample length_size"

definition sample_bytes :: "bytes \<Rightarrow> chunk_sample \<Rightarrow> h264_error + bytes" where
  "sample_bytes payload sample =
     res_bind (ok_or SampleOutOfBounds (checked_add 64 (smp_payload_offset sample) (smp_byte_count sample)))
       (\<lambda>e. ok_or SampleOutOfBounds (get_range payload (smp_payload_offset sample) e))"

fun size_samples :: "bytes \<Rightarrow> nat \<Rightarrow> chunk_sample list \<Rightarrow> nat \<Rightarrow> h264_error + nat" where
  "size_samples payload length_size [] n = Inr n"
| "size_samples payload length_size (sample # ss) n =
     res_bind (sample_bytes payload sample) (\<lambda>bs.
     res_bind (visit_avc_nalus bs length_size size_nal n) (\<lambda>n.
       size_samples payload length_size ss n))"

fun append_samples :: "bytes \<Rightarrow> nat \<Rightarrow> chunk_sample list \<Rightarrow> bytes \<Rightarrow> h264_error + bytes" where
  "append_samples payload length_size [] out = Inr out"
| "append_samples payload length_size (sample # ss) out =
     res_bind (sample_bytes payload sample) (\<lambda>bs.
     res_bind (append_annex_b out bs length_size) (\<lambda>out.
       append_samples payload length_size ss out))"

definition avc_chunk_to_annex_b :: "bytes \<Rightarrow> chunk_sample list \<Rightarrow> nat \<Rightarrow> h264_error + bytes" where
  "avc_chunk_to_annex_b payload samples length_size =
     (if \<not> (1 \<le> length_size \<and> length_size \<le> 4) then Inl InvalidLengthSize
      else res_bind (size_samples payload length_size samples 0) (\<lambda>_.
        append_samples payload length_size samples []))"

definition push_nal :: "nat \<Rightarrow> nat \<Rightarrow> nat \<Rightarrow> bytes \<Rightarrow> avc_nal_unit list \<Rightarrow> h264_error + avc_nal_unit list" where
  "push_nal sample_index sample_payload_offset offset bs nalus =
     (if MAX_NAL_UNITS \<le> length nalus then Inl ResourceLimit
      else res_bind (ok_or SampleOutOfBounds (checked_add 64 sample_payload_offset offset)) (\<lambda>payload_offset.
        Inr (nalus @ [\<lparr>nu_sample_index = sample_index, nu_sample_payload_offset = sample_payload_offset,
          nu_payload_offset = payload_offset, nu_byte_count = as_u 32 (length bs),
          nu_type = hd bs AND 0x1f\<rparr>])))"

definition append_avc_nalus :: "avc_nal_unit list \<Rightarrow> nat \<Rightarrow> nat \<Rightarrow> bytes \<Rightarrow> nat \<Rightarrow> h264_error + avc_nal_unit list" where
  "append_avc_nalus nalus sample_index sample_payload_offset sample length_size =
     visit_avc_nalus sample length_size (push_nal sample_index sample_payload_offset) nalus"

fun chunk_nalus_loop :: "bytes \<Rightarrow> nat \<Rightarrow> chunk_sample list \<Rightarrow> avc_nal_unit list \<Rightarrow> h264_error + avc_nal_unit list" where
  "chunk_nalus_loop payload length_size [] nalus = Inr nalus"
| "chunk_nalus_loop payload length_size (sample # ss) nalus =
     res_bind (sample_bytes payload sample) (\<lambda>bs.
     res_bind (append_avc_nalus nalus (smp_index sample) (smp_payload_offset sample) bs length_size) (\<lambda>nalus.
       chunk_nalus_loop payload length_size ss nalus))"

definition parse_avc_chunk_nalus :: "bytes \<Rightarrow> chunk_sample list \<Rightarrow> nat \<Rightarrow> h264_error + avc_nal_unit list" where
  "parse_avc_chunk_nalus payload samples length_size =
     (if \<not> (1 \<le> length_size \<and> length_size \<le> 4) then Inl InvalidLengthSize
      else chunk_nalus_loop payload length_size samples [])"

section \<open>The AVC decoder configuration record\<close>

definition avc_read_u16 :: "bytes \<Rightarrow> nat \<Rightarrow> h264_error + nat" where
  "avc_read_u16 bs offset =
     res_bind (ok_or TruncatedAvcConfig (checked_add 64 offset 2)) (\<lambda>e.
     res_bind (ok_or TruncatedAvcConfig (get_range bs offset e)) (\<lambda>raw. Inr (be_nat raw)))"

fun avc_units_loop :: "bytes \<Rightarrow> nat \<Rightarrow> nat \<Rightarrow> bytes list \<Rightarrow> h264_error + bytes list \<times> nat" where
  "avc_units_loop payload 0 offset units = Inr (units, offset)"
| "avc_units_loop payload (Suc n) offset units =
     res_bind (avc_read_u16 payload offset) (\<lambda>len.
     res_bind (ok_or TruncatedAvcConfig (checked_add 64 (offset + 2) len)) (\<lambda>e.
       if length payload < e then Inl TruncatedAvcConfig
       else avc_units_loop payload n e (units @ [slice payload (offset + 2) e])))"

definition parse_avc_decoder_config :: "bytes \<Rightarrow> h264_error + avc_parameter_sets" where
  "parse_avc_decoder_config payload =
     (if length payload < 7 then Inl TruncatedAvcConfig
      else
        let length_size = unat (payload ! 4 AND 0x03) + 1;
            sps_count = unat (payload ! 5 AND 0x1f)
        in res_bind (avc_units_loop payload sps_count 6 []) (\<lambda>(sps, offset).
           res_bind (ok_or TruncatedAvcConfig (get_at payload offset)) (\<lambda>pps_count.
           res_bind (avc_units_loop payload (unat pps_count) (offset + 1) []) (\<lambda>(pps, _).
             Inr \<lparr>aps_length_size = length_size, aps_sps = sps, aps_pps = pps\<rparr>))))"

section \<open>HEVC\<close>

record hevc_nal_array =
  hna_type :: nat
  hna_units :: "bytes list"

record hevc_decoder_config =
  hdc_profile_idc :: nat
  hdc_level_idc :: nat
  hdc_length_size :: nat
  hdc_arrays :: "hevc_nal_array list"

datatype hevc_error =
    HevcTruncatedConfig | HevcInvalidLengthSize | HevcTruncatedLengthPrefix | HevcTruncatedNalUnit
  | HevcResourceLimit

definition hevc_read_u16 :: "bytes \<Rightarrow> nat \<Rightarrow> hevc_error + nat" where
  "hevc_read_u16 bs offset =
     res_bind (ok_or HevcTruncatedConfig (checked_add 64 offset 2)) (\<lambda>e.
     res_bind (ok_or HevcTruncatedConfig (get_range bs offset e)) (\<lambda>raw. Inr (be_nat raw)))"

fun hevc_units_loop :: "bytes \<Rightarrow> nat \<Rightarrow> nat \<Rightarrow> bytes list \<Rightarrow> hevc_error + bytes list \<times> nat" where
  "hevc_units_loop payload 0 offset units = Inr (units, offset)"
| "hevc_units_loop payload (Suc n) offset units =
     res_bind (hevc_read_u16 payload offset) (\<lambda>len.
     res_bind (ok_or HevcTruncatedConfig (checked_add 64 (offset + 2) len)) (\<lambda>e.
       if length payload < e then Inl HevcTruncatedConfig
       else hevc_units_loop payload n e (units @ [slice payload (offset + 2) e])))"

fun hevc_arrays_loop :: "bytes \<Rightarrow> nat \<Rightarrow> nat \<Rightarrow> nat \<Rightarrow> hevc_nal_array list \<Rightarrow> hevc_error + hevc_nal_array list" where
  "hevc_arrays_loop payload 0 offset unit_total arrays = Inr arrays"
| "hevc_arrays_loop payload (Suc n) offset unit_total arrays =
     res_bind (ok_or HevcTruncatedConfig (get_at payload offset)) (\<lambda>header.
     res_bind (hevc_read_u16 payload (offset + 1)) (\<lambda>unit_count.
       if (length payload - (offset + 3)) div 2 < unit_count then Inl HevcTruncatedConfig
       else
         res_bind (ok_or HevcResourceLimit (Option.bind (checked_add 64 unit_total unit_count)
             (\<lambda>n. if n \<le> 4096 then Some n else None))) (\<lambda>unit_total.
         res_bind (hevc_units_loop payload unit_count (offset + 3) []) (\<lambda>(units, offset).
           hevc_arrays_loop payload n offset unit_total
             (arrays @ [\<lparr>hna_type = unat (header AND 0x3f), hna_units = units\<rparr>])))))"

definition parse_hevc_decoder_config :: "bytes \<Rightarrow> hevc_error + hevc_decoder_config" where
  "parse_hevc_decoder_config payload =
     (if length payload < 23 then Inl HevcTruncatedConfig
      else
        let length_size = unat (payload ! 21 AND 0x03) + 1
        in if \<not> (1 \<le> length_size \<and> length_size \<le> 4) then Inl HevcInvalidLengthSize
           else
             let array_count = unat (payload ! 22)
             in if (length payload - 23) div 3 < array_count then Inl HevcTruncatedConfig
                else res_bind (hevc_arrays_loop payload array_count 23 0 []) (\<lambda>arrays.
                  Inr \<lparr>hdc_profile_idc = unat (payload ! 1 AND 0x1f), hdc_level_idc = unat (payload ! 12),
                       hdc_length_size = length_size, hdc_arrays = arrays\<rparr>))"

function hevc_loop :: "bytes \<Rightarrow> nat \<Rightarrow> nat \<Rightarrow> bytes \<Rightarrow> hevc_error + bytes" where
  "hevc_loop sample length_size offset out =
     (if length_size = 0 \<or> length sample \<le> offset then Inr out
      else case checked_add 64 offset length_size of
        None \<Rightarrow> Inl HevcTruncatedLengthPrefix
      | Some len_end \<Rightarrow>
          if length sample < len_end then Inl HevcTruncatedLengthPrefix
          else
            let len = be_nat (slice sample offset len_end)
            in case checked_add 64 len_end len of
                 None \<Rightarrow> Inl HevcTruncatedNalUnit
               | Some nal_end \<Rightarrow>
                   if length sample < nal_end then Inl HevcTruncatedNalUnit
                   else case checked_add 64 len 4 of
                     None \<Rightarrow> Inl HevcResourceLimit
                   | Some extra \<Rightarrow>
                       if (case checked_add 64 (length out) extra of
                             None \<Rightarrow> True | Some n \<Rightarrow> MAX_ANNEX_B_BYTES < n)
                       then Inl HevcResourceLimit
                       else hevc_loop sample length_size nal_end
                              (out @ start_code @ slice sample len_end nal_end))"
  by pat_completeness auto
termination
  by (relation "measure (\<lambda>(sample, length_size, offset, out). length sample - offset)")
    (auto split: if_splits)

declare hevc_loop.simps [simp del]

definition append_hevc_annex_b :: "bytes \<Rightarrow> bytes \<Rightarrow> nat \<Rightarrow> hevc_error + bytes" where
  "append_hevc_annex_b out sample length_size = hevc_loop sample length_size 0 out"

definition hevc_sample_to_annex_b :: "bytes \<Rightarrow> nat \<Rightarrow> hevc_error + bytes" where
  "hevc_sample_to_annex_b sample length_size =
     (if \<not> (1 \<le> length_size \<and> length_size \<le> 4) then Inl HevcInvalidLengthSize
      else append_hevc_annex_b [] sample length_size)"

fun hevc_append_samples :: "bytes \<Rightarrow> nat \<Rightarrow> chunk_sample list \<Rightarrow> bytes \<Rightarrow> hevc_error + bytes" where
  "hevc_append_samples payload length_size [] out = Inr out"
| "hevc_append_samples payload length_size (sample # ss) out =
     res_bind (ok_or HevcTruncatedNalUnit (checked_add 64 (smp_payload_offset sample) (smp_byte_count sample))) (\<lambda>e.
       if length payload < e then Inl HevcTruncatedNalUnit
       else res_bind (append_hevc_annex_b out (slice payload (smp_payload_offset sample) e) length_size)
              (\<lambda>out. hevc_append_samples payload length_size ss out))"

definition hevc_chunk_to_annex_b :: "bytes \<Rightarrow> chunk_sample list \<Rightarrow> nat \<Rightarrow> hevc_error + bytes" where
  "hevc_chunk_to_annex_b payload samples length_size =
     (if \<not> (1 \<le> length_size \<and> length_size \<le> 4) then Inl HevcInvalidLengthSize
      else hevc_append_samples payload length_size samples [])"

definition hevc_parameter_sets_to_annex_b :: "hevc_decoder_config \<Rightarrow> bytes" where
  "hevc_parameter_sets_to_annex_b config =
     concat (map (\<lambda>array. concat (map (\<lambda>u. start_code @ u) (hna_units array)))
       (filter (\<lambda>array. 32 \<le> hna_type array \<and> hna_type array \<le> 34) (hdc_arrays config)))"

definition hevc_decoder_config_to_annex_b :: "bytes \<Rightarrow> hevc_error + bytes" where
  "hevc_decoder_config_to_annex_b payload =
     res_bind (parse_hevc_decoder_config payload) (\<lambda>config. Inr (hevc_parameter_sets_to_annex_b config))"

text \<open>\<open>remaining\<close> is the rest of the sample; the width check of the caller is repeated as above.\<close>

function vcl_loop :: "nat \<Rightarrow> bytes \<Rightarrow> nat option \<Rightarrow> hevc_error + nat option" where
  "vcl_loop length_size remaining first =
     (if length_size = 0 \<or> remaining = [] then Inr first
      else case get_range remaining 0 length_size of
        None \<Rightarrow> Inl HevcTruncatedLengthPrefix
      | Some prefix \<Rightarrow>
          let len = be_nat prefix; remaining = drop length_size remaining
          in case get_range remaining 0 len of
               None \<Rightarrow> Inl HevcTruncatedNalUnit
             | Some nal \<Rightarrow>
                 if length nal < 2 then Inl HevcTruncatedNalUnit
                 else
                   let kind = unat (drop_bit 1 (hd nal) AND 63);
                       first = (if kind \<le> 31 \<and> first = None then Some kind else first)
                   in vcl_loop length_size (drop len remaining) first)"
  by pat_completeness auto
termination
  by (relation "measure (\<lambda>(length_size, remaining, first). length remaining)") (auto split: if_splits)

declare vcl_loop.simps [simp del]

definition sample_vcl_type :: "bytes \<Rightarrow> nat \<Rightarrow> hevc_error + nat option" where
  "sample_vcl_type sample length_size =
     (if \<not> (1 \<le> length_size \<and> length_size \<le> 4) then Inl HevcInvalidLengthSize
      else vcl_loop length_size sample None)"

section \<open>AAC\<close>

record aac_config =
  aac_object_type :: nat
  aac_sample_rate :: nat
  aac_channel_config :: nat

datatype aac_error = AacTruncatedConfig | UnsupportedSampleRate | FrameTooLarge | AacSampleOutOfBounds

definition aac_rates :: "nat list" where
  "aac_rates = [96000, 88200, 64000, 48000, 44100, 32000, 24000, 22050, 16000, 12000, 11025, 8000, 7350]"

definition sample_rate_for_index :: "nat \<Rightarrow> nat option" where
  "sample_rate_for_index index = get_at aac_rates index"

definition sample_rate_index :: "nat \<Rightarrow> nat option" where
  "sample_rate_index sample_rate = find (\<lambda>index. sample_rate_for_index index = Some sample_rate) [0..<13]"

definition parse_audio_specific_config :: "bytes \<Rightarrow> aac_error + aac_config" where
  "parse_audio_specific_config bs =
     res_bind (ok_or AacTruncatedConfig (get_at bs 0)) (\<lambda>first.
     res_bind (ok_or AacTruncatedConfig (get_at bs 1)) (\<lambda>second.
       let object_type = unat (drop_bit 3 first);
           frequency_index = unat (push_bit 1 (first AND 0x07) OR drop_bit 7 second);
           channel_config = unat (drop_bit 3 second AND 0x0f)
       in res_bind (ok_or UnsupportedSampleRate (sample_rate_for_index frequency_index)) (\<lambda>sample_rate.
            Inr \<lparr>aac_object_type = object_type, aac_sample_rate = sample_rate,
                 aac_channel_config = channel_config\<rparr>)))"

definition adts_header :: "nat \<Rightarrow> aac_config \<Rightarrow> aac_error + bytes" where
  "adts_header payload_len config =
     res_bind (ok_or FrameTooLarge (checked_add 64 payload_len 7)) (\<lambda>frame_len.
       if 0x1fff < frame_len then Inl FrameTooLarge
       else res_bind (ok_or UnsupportedSampleRate (sample_rate_index (aac_sample_rate config))) (\<lambda>frequency_index.
         let profile = min (aac_object_type config - 1) 3;
             channel = byte (aac_channel_config config) AND 0x07
         in Inr [0xff, 0xf1,
              push_bit 6 (byte profile) OR push_bit 2 (byte frequency_index) OR drop_bit 2 (channel AND 0x04),
              push_bit 6 (channel AND 0x03) OR (byte (frame_len div 2 ^ 11) AND 0x03),
              byte (frame_len div 2 ^ 3),
              push_bit 5 (byte frame_len AND 0x07) OR 0x1f,
              0xfc]))"

fun adts_loop :: "bytes \<Rightarrow> chunk_sample list \<Rightarrow> aac_config \<Rightarrow> bytes \<Rightarrow> aac_error + bytes" where
  "adts_loop payload [] config out = Inr out"
| "adts_loop payload (sample # ss) config out =
     res_bind (ok_or AacSampleOutOfBounds (checked_add 64 (smp_payload_offset sample) (smp_byte_count sample))) (\<lambda>e.
       if length payload < e then Inl AacSampleOutOfBounds
       else res_bind (adts_header (smp_byte_count sample) config) (\<lambda>header.
         adts_loop payload ss config (out @ header @ slice payload (smp_payload_offset sample) e)))"

definition aac_chunk_to_adts :: "bytes \<Rightarrow> chunk_sample list \<Rightarrow> aac_config \<Rightarrow> aac_error + bytes" where
  "aac_chunk_to_adts payload samples config = adts_loop payload samples config []"

section \<open>Length-prefixed samples\<close>

definition prefixed :: "nat \<Rightarrow> bytes \<Rightarrow> bytes" where
  "prefixed length_size nal = be_bytes length_size (length nal) @ nal"

definition fits_prefix :: "nat \<Rightarrow> bytes list \<Rightarrow> bool" where
  "fits_prefix length_size ns \<longleftrightarrow> (\<forall>n \<in> set ns. length n < 256 ^ length_size)"

definition annex_b :: "bytes list \<Rightarrow> bytes" where
  "annex_b ns = concat (map (\<lambda>n. start_code @ n) ns)"

definition nonempty :: "bytes list \<Rightarrow> bytes list" where
  "nonempty ns = filter (\<lambda>n. n \<noteq> []) ns"

lemma fits_prefix_simps [simp]:
  "fits_prefix ls []" "fits_prefix ls (n # ns) \<longleftrightarrow> length n < 256 ^ ls \<and> fits_prefix ls ns"
  "fits_prefix ls (ns @ ms) \<longleftrightarrow> fits_prefix ls ns \<and> fits_prefix ls ms"
  by (auto simp: fits_prefix_def)

lemma annex_b_simps [simp]:
  "annex_b [] = []" "annex_b (n # ns) = start_code @ n @ annex_b ns"
  "annex_b (ns @ ms) = annex_b ns @ annex_b ms"
  by (simp_all add: annex_b_def)

lemma nonempty_simps [simp]:
  "nonempty [] = []" "nonempty (n # ns) = (if n = [] then nonempty ns else n # nonempty ns)"
  "nonempty (ns @ ms) = nonempty ns @ nonempty ms"
  by (simp_all add: nonempty_def)

lemma length_start_code [simp]: "length start_code = 4"
  by (simp add: start_code_def)

lemma length_prefixed [simp]: "length (prefixed ls n) = ls + length n"
  by (simp add: prefixed_def)

text \<open>One step of any reader of such samples.\<close>

lemma prefixed_step:
  assumes "drop offset sample = prefixed ls n @ rest" "1 \<le> ls" "length n < 256 ^ ls"
  shows "offset + ls + length n \<le> length sample" "slice sample offset (offset + ls) = be_bytes ls (length n)"
    "be_nat (slice sample offset (offset + ls)) = length n"
    "slice sample (offset + ls) (offset + ls + length n) = n"
    "drop (offset + ls + length n) sample = rest"
proof -
  have o: "offset \<le> length sample" "length sample = offset + ls + length n + length rest"
  proof -
    have "length (drop offset sample) = ls + length n + length rest" using assms(1) by simp
    then show "offset \<le> length sample" "length sample = offset + ls + length n + length rest"
      using assms(2) by auto
  qed
  then show "offset + ls + length n \<le> length sample" by simp
  show b: "slice sample offset (offset + ls) = be_bytes ls (length n)"
    by (simp add: slice_def assms(1) prefixed_def)
  then show "be_nat (slice sample offset (offset + ls)) = length n" using assms(3) by simp
  have d: "drop (offset + ls) sample = n @ rest"
  proof -
    have "drop (offset + ls) sample = drop ls (drop offset sample)" by (simp add: add.commute)
    then show ?thesis by (simp add: assms(1) prefixed_def)
  qed
  then show "slice sample (offset + ls) (offset + ls + length n) = n" by (simp add: slice_def)
  have "drop (offset + ls + length n) sample = drop (length n) (drop (offset + ls) sample)"
    by (simp add: add.commute add.left_commute)
  then show "drop (offset + ls + length n) sample = rest" by (simp add: d)
qed

text \<open>Conversely, a prefix and the bytes it announces are a prefixed unit.\<close>

lemma prefixed_intro:
  assumes "offset + ls + k \<le> length sample" "k = be_nat (slice sample offset (offset + ls))"
  shows "drop offset sample = prefixed ls (slice sample (offset + ls) (offset + ls + k))
      @ drop (offset + ls + k) sample" "k < 256 ^ ls"
proof -
  have l: "length (slice sample offset (offset + ls)) = ls" using assms(1) by simp
  show "k < 256 ^ ls" using be_nat_bound [of "slice sample offset (offset + ls)"] l assms(2) by simp
  have "be_bytes ls k = slice sample offset (offset + ls)"
    using be_bytes_be_nat [of "slice sample offset (offset + ls)"] l assms(2) by simp
  moreover have "length (slice sample (offset + ls) (offset + ls + k)) = k" using assms(1) by simp
  ultimately have "prefixed ls (slice sample (offset + ls) (offset + ls + k))
      = slice sample offset (offset + ls + k)"
    unfolding prefixed_def using slice_split [of offset "offset + ls" "offset + ls + k" sample] by simp
  then show "drop offset sample = prefixed ls (slice sample (offset + ls) (offset + ls + k))
      @ drop (offset + ls + k) sample"
    by (simp add: slice_def) (metis append_take_drop_id drop_drop add.commute add.assoc)
qed

fun fold_nals :: "(nat \<Rightarrow> bytes \<Rightarrow> 's \<Rightarrow> 'e + 's) \<Rightarrow> nat \<Rightarrow> nat \<Rightarrow> bytes list \<Rightarrow> 's \<Rightarrow> 'e + 's" where
  "fold_nals visit ls offset [] s = Inr s"
| "fold_nals visit ls offset (n # ns) s =
     res_bind (if n \<noteq> [] then visit (offset + ls) n s else Inr s)
       (fold_nals visit ls (offset + ls + length n) ns)"

lemma visit_loop_complete:
  assumes "1 \<le> ls" "length sample < 2 ^ 64" "offset \<le> length sample"
    and "drop offset sample = concat (map (prefixed ls) ns)" "fits_prefix ls ns"
  shows "visit_loop sample ls visit offset s = fold_nals visit ls offset ns s"
  using assms(3-)
proof (induction ns arbitrary: offset s)
  case Nil
  then show ?case by (subst visit_loop.simps) simp
next
  case (Cons n ns)
  have d: "drop offset sample = prefixed ls n @ concat (map (prefixed ls) ns)" and n: "length n < 256 ^ ls"
    using Cons.prems by simp_all
  note st = prefixed_step [OF d assms(1) n]
  have g: "\<not> (ls = 0 \<or> length sample \<le> offset)" using st(1) assms(1) by linarith
  have c: "checked_add 64 offset ls = Some (offset + ls)"
    "checked_add 64 (offset + ls) (length n) = Some (offset + ls + length n)"
    "get_range sample offset (offset + ls) = Some (slice sample offset (offset + ls))"
    "get_range sample (offset + ls) (offset + ls + length n) = Some n"
    using st assms(2) by simp_all
  have IH: "visit_loop sample ls visit (offset + ls + length n) s'
      = fold_nals visit ls (offset + ls + length n) ns s'" for s'
    using Cons.prems st by (intro Cons.IH) simp_all
  show ?case
    unfolding visit_loop.simps [of sample ls visit offset s] if_not_P [OF g] c option.case st(3)
      fold_nals.simps res_bind_def
    by (cases "if n \<noteq> [] then visit (offset + ls) n s else Inr s") (simp_all only: sum.case IH)
qed

lemma visit_loop_sound:
  assumes "visit_loop sample ls visit offset s = Inr s'" "1 \<le> ls" "offset \<le> length sample"
  shows "\<exists>ns. fits_prefix ls ns \<and> drop offset sample = concat (map (prefixed ls) ns)"
  using assms
proof (induction sample ls visit offset s rule: visit_loop.induct)
  case (1 sample ls visit offset s)
  show ?case
  proof (cases "length sample \<le> offset")
    case True
    then show ?thesis by (intro exI [of _ "[]"]) simp
  next
    case False
    define k where "k = be_nat (slice sample offset (offset + ls))"
    have g: "\<not> (ls = 0 \<or> length sample \<le> offset)" using False "1.prems" by simp
    note unf = "1.prems"(1) [unfolded visit_loop.simps [of sample ls visit offset s] if_not_P [OF g]]
    have ca: "checked_add 64 offset ls = Some (offset + ls)"
      using unf by (cases "checked_add 64 offset ls") auto
    have r1: "offset + ls \<le> length sample"
      using unf ca by (cases "get_range sample offset (offset + ls)") auto
    then have gr: "get_range sample offset (offset + ls) = Some (slice sample offset (offset + ls))" by simp
    have cb: "checked_add 64 (offset + ls) k = Some (offset + ls + k)"
      using unf ca gr unfolding k_def
      by (cases "checked_add 64 (offset + ls) (be_nat (slice sample offset (offset + ls)))") auto
    have r2: "offset + ls + k \<le> length sample"
      using unf unfolding ca option.case gr k_def [symmetric] cb
      by (cases "get_range sample (offset + ls) (offset + ls + k)") auto
    let ?n = "slice sample (offset + ls) (offset + ls + k)"
    have gr2: "get_range sample (offset + ls) (offset + ls + k) = Some ?n" using r2 by simp
    obtain s1 where v: "(if ?n \<noteq> [] then visit (offset + ls) ?n s else Inr s) = Inr s1"
      and rec: "visit_loop sample ls visit (offset + ls + k) s1 = Inr s'"
      using unf unfolding ca option.case gr k_def [symmetric] cb gr2
      by (cases "if ?n \<noteq> [] then visit (offset + ls) ?n s else Inr s") simp_all
    obtain ns where ns: "fits_prefix ls ns" "drop (offset + ls + k) sample = concat (map (prefixed ls) ns)"
      using "1.IH" [OF g ca gr cb [unfolded k_def] gr2 [unfolded k_def] v [unfolded k_def] rec [unfolded k_def] "1.prems"(2)]
        r2 unfolding k_def [symmetric] by blast
    note pi = prefixed_intro [OF r2 k_def]
    show ?thesis
      using pi ns r2 by (intro exI [of _ "?n # ns"]) simp
  qed
qed

lemma visit_avc_exact:
  assumes "length sample < 2 ^ 64"
  shows "visit_avc_nalus sample ls visit s = Inr s' \<longleftrightarrow>
    1 \<le> ls \<and> ls \<le> 4 \<and>
    (\<exists>ns. fits_prefix ls ns \<and> sample = concat (map (prefixed ls) ns) \<and> fold_nals visit ls 0 ns s = Inr s')"
proof -
  have "visit_loop sample ls visit 0 s = Inr s' \<longleftrightarrow>
      (\<exists>ns. fits_prefix ls ns \<and> sample = concat (map (prefixed ls) ns) \<and> fold_nals visit ls 0 ns s = Inr s')"
    if "1 \<le> ls"
    using visit_loop_sound [of sample ls visit 0 s s'] visit_loop_complete [of ls sample 0 _ visit s] that assms
    by (metis drop0 le0)
  then show ?thesis by (auto simp: visit_avc_nalus_def)
qed

lemma prefixed_inj:
  assumes "concat (map (prefixed ls) ns) = concat (map (prefixed ls) ms)" "1 \<le> ls"
    and "fits_prefix ls ns" "fits_prefix ls ms"
  shows "ns = ms"
  using assms
proof (induction ns arbitrary: ms)
  case Nil
  then show ?case by (cases ms) (auto simp: prefixed_def dest: arg_cong [where f = length])
next
  case (Cons n ns)
  obtain m ms' where ms: "ms = m # ms'"
    using Cons.prems by (cases ms) (auto simp: prefixed_def dest: arg_cong [where f = length])
  have e: "be_bytes ls (length n) @ n @ concat (map (prefixed ls) ns)
      = be_bytes ls (length m) @ m @ concat (map (prefixed ls) ms')"
    using Cons.prems(1) unfolding ms by (simp add: prefixed_def [of ls n] prefixed_def [of ls m])
  then have "be_bytes ls (length n) = be_bytes ls (length m)" by simp
  then have "be_nat (be_bytes ls (length n)) = be_nat (be_bytes ls (length m))" by simp
  then have "length n = length m" using Cons.prems by (simp add: ms)
  with e have "n = m" "concat (map (prefixed ls) ns) = concat (map (prefixed ls) ms')" by simp_all
  with Cons show ?case by (simp add: ms)
qed

lemma fold_size_nal:
  "fold_nals size_nal ls offset ns n = Inr m \<longleftrightarrow>
     m = n + length (annex_b (nonempty ns)) \<and> (nonempty ns = [] \<or> m \<le> MAX_ANNEX_B_BYTES)"
proof (induction ns arbitrary: offset n)
  case (Cons x ns)
  have lim: "k \<le> MAX_ANNEX_B_BYTES \<Longrightarrow> k < 2 ^ 64" for k by (simp add: MAX_ANNEX_B_BYTES_def)
  have sz: "size_nal j x n = Inr k \<longleftrightarrow> k = n + 4 + length x \<and> k \<le> MAX_ANNEX_B_BYTES" for j k
    using lim [of "n + 4 + length x"] by (auto simp: size_nal_def Option.bind_eq_Some_conv)
  show ?case using Cons.IH by (auto simp: result_simps sz)
qed auto

lemma fold_emit_nal:
  "fold_nals emit_nal ls offset ns out = Inr (out @ annex_b (nonempty ns))"
  by (induction ns arbitrary: offset out) (auto simp: emit_nal_def)

lemma append_annex_b_exact:
  assumes "length sample < 2 ^ 64"
  shows "append_annex_b out sample ls = Inr out' \<longleftrightarrow>
    1 \<le> ls \<and> ls \<le> 4 \<and>
    (\<exists>ns. fits_prefix ls ns \<and> sample = concat (map (prefixed ls) ns) \<and>
      out' = out @ annex_b (nonempty ns) \<and> (nonempty ns = [] \<or> length out' \<le> MAX_ANNEX_B_BYTES))"
  unfolding append_annex_b_def res_bind_Inr visit_avc_exact [OF assms] fold_size_nal fold_emit_nal
  using prefixed_inj by fastforce

lemma annex_b_nonempty: "annex_b ns = [] \<longleftrightarrow> ns = []"
  by (cases ns) (simp_all add: start_code_def)

section \<open>Properties\<close>

lemma avc_sample_iff:
  assumes "length sample < 2 ^ 64"
  shows "avc_sample_to_annex_b sample ls = Inr out \<longleftrightarrow>
    1 \<le> ls \<and> ls \<le> 4 \<and>
    (\<exists>ns. fits_prefix ls ns \<and> sample = concat (map (prefixed ls) ns) \<and>
      out = annex_b (nonempty ns) \<and> length out \<le> MAX_ANNEX_B_BYTES)"
  unfolding avc_sample_to_annex_b_def append_annex_b_exact [OF assms]
  by (auto simp: annex_b_nonempty)

text \<open>C8: An AVC sample is converted exactly when its length size is 1 to 4, it is a sequence
  of length-prefixed NAL units and the result is at most 64 MiB; the result has a start
  code before every non-empty unit, in order, and nothing else.\<close>

theorem avc_annex_b_exact:
  assumes "length sample < 2 ^ 64"
  shows "avc_sample_to_annex_b sample ls = Inr out \<longleftrightarrow>
    1 \<le> ls \<and> ls \<le> 4 \<and>
    (\<exists>ns. fits_prefix ls ns \<and> sample = concat (map (prefixed ls) ns) \<and>
      out = annex_b (nonempty ns) \<and> length out \<le> MAX_ANNEX_B_BYTES)"
  using assms by (rule avc_sample_iff)

theorem avc_annex_b_exact_witness:
  "avc_sample_to_annex_b [0, 2, 0x65, 9, 0, 0, 0, 1, 7] 2 = Inr [0, 0, 0, 1, 0x65, 9, 0, 0, 0, 1, 7]"
proof (rule avc_annex_b_exact [THEN iffD2], simp, intro conjI exI [of _ "[[0x65, 9], [], [7]]"])
  show "[0, 2, 0x65, 9, 0, 0, 0, 1, 7] = concat (map (prefixed 2) [[0x65, 9], [], [7]])"
    by (simp add: prefixed_def byte_def numeral_2_eq_2)
qed (simp_all add: start_code_def MAX_ANNEX_B_BYTES_def)

section \<open>HEVC samples\<close>

lemma hevc_loop_complete:
  assumes "1 \<le> ls" "length sample < 2 ^ 64" "offset \<le> length sample"
    and "drop offset sample = concat (map (prefixed ls) ns)" "fits_prefix ls ns"
  shows "hevc_loop sample ls offset out =
    (if ns = [] \<or> length (out @ annex_b ns) \<le> MAX_ANNEX_B_BYTES then Inr (out @ annex_b ns)
     else Inl HevcResourceLimit)"
  using assms(3-)
proof (induction ns arbitrary: offset out)
  case Nil
  then show ?case by (subst hevc_loop.simps) simp
next
  case (Cons n ns)
  have d: "drop offset sample = prefixed ls n @ concat (map (prefixed ls) ns)" and n: "length n < 256 ^ ls"
    using Cons.prems by simp_all
  note st = prefixed_step [OF d assms(1) n]
  have g: "\<not> (ls = 0 \<or> length sample \<le> offset)" "\<not> length sample < offset + ls"
    "\<not> length sample < offset + ls + length n" using st(1) assms(1) by linarith+
  have c: "checked_add 64 offset ls = Some (offset + ls)"
    "checked_add 64 (offset + ls) (length n) = Some (offset + ls + length n)"
    using st assms(2) by simp_all
  have IH: "hevc_loop sample ls (offset + ls + length n) (out @ start_code @ n) =
    (if ns = [] \<or> length ((out @ start_code @ n) @ annex_b ns) \<le> MAX_ANNEX_B_BYTES
     then Inr ((out @ start_code @ n) @ annex_b ns) else Inl HevcResourceLimit)"
    using Cons.prems st by (intro Cons.IH) simp_all
  have unf: "hevc_loop sample ls offset out =
      (case checked_add 64 (length n) 4 of None \<Rightarrow> Inl HevcResourceLimit
       | Some extra \<Rightarrow>
           if (case checked_add 64 (length out) extra of None \<Rightarrow> True | Some k \<Rightarrow> MAX_ANNEX_B_BYTES < k)
           then Inl HevcResourceLimit
           else hevc_loop sample ls (offset + ls + length n) (out @ start_code @ n))"
    unfolding hevc_loop.simps [of sample ls offset out] if_not_P [OF g(1)] c option.case Let_def st(3)
      if_not_P [OF g(2)] if_not_P [OF g(3)] st(4) ..
  show ?case
  proof (cases "length out + (length n + 4) \<le> MAX_ANNEX_B_BYTES")
    case True
    then have "length out + (length n + 4) < 2 ^ 64" by (simp add: MAX_ANNEX_B_BYTES_def)
    then have c: "checked_add 64 (length n) 4 = Some (length n + 4)"
      "checked_add 64 (length out) (length n + 4) = Some (length out + (length n + 4))" by simp_all
    show ?thesis using True unfolding unf IH c option.case by (auto simp: not_less)
  next
    case False
    then show ?thesis unfolding unf by (auto split: option.splits)
  qed
qed

lemma hevc_loop_sound:
  assumes "hevc_loop sample ls offset out = Inr out'" "1 \<le> ls" "offset \<le> length sample"
  shows "\<exists>ns. fits_prefix ls ns \<and> drop offset sample = concat (map (prefixed ls) ns)"
  using assms
proof (induction sample ls offset out rule: hevc_loop.induct)
  case (1 sample ls offset out)
  show ?case
  proof (cases "length sample \<le> offset")
    case True
    then show ?thesis by (intro exI [of _ "[]"]) simp
  next
    case False
    define k where "k = be_nat (slice sample offset (offset + ls))"
    have g: "\<not> (ls = 0 \<or> length sample \<le> offset)" using False "1.prems" by simp
    note unf = "1.prems"(1) [unfolded hevc_loop.simps [of sample ls offset out] if_not_P [OF g]]
    have ca: "checked_add 64 offset ls = Some (offset + ls)"
      using unf by (cases "checked_add 64 offset ls") auto
    have r1: "\<not> length sample < offset + ls" using unf ca by (auto split: if_splits)
    note unf1 = unf [unfolded ca option.case if_not_P [OF r1] Let_def, folded k_def]
    have cb: "checked_add 64 (offset + ls) k = Some (offset + ls + k)"
      using unf1 by (cases "checked_add 64 (offset + ls) k") auto
    have r2: "\<not> length sample < offset + ls + k" using unf1 cb by (auto split: if_splits)
    note unf2 = unf1 [unfolded cb option.case if_not_P [OF r2]]
    have cc: "checked_add 64 k 4 = Some (k + 4)" using unf2 by (cases "checked_add 64 k 4") auto
    note unf3 = unf2 [unfolded cc option.case]
    have r3: "\<not> (case checked_add 64 (length out) (k + 4) of None \<Rightarrow> True | Some n \<Rightarrow> MAX_ANNEX_B_BYTES < n)"
      using unf3 by (auto split: if_splits)
    note rec = unf3 [unfolded if_not_P [OF r3]]
    obtain ns where ns: "fits_prefix ls ns" "drop (offset + ls + k) sample = concat (map (prefixed ls) ns)"
      using "1.IH" [OF g ca r1 k_def cb r2 cc r3 rec "1.prems"(2)] r2 by (auto simp: not_less)
    have le: "offset + ls + k \<le> length sample" using r2 by simp
    show ?thesis
      using prefixed_intro [OF le k_def] ns by (intro exI [of _ "slice sample (offset + ls) (offset + ls + k) # ns"]) simp
  qed
qed

lemma hevc_sample_iff:
  assumes "length sample < 2 ^ 64"
  shows "hevc_sample_to_annex_b sample ls = Inr out \<longleftrightarrow>
    1 \<le> ls \<and> ls \<le> 4 \<and>
    (\<exists>ns. fits_prefix ls ns \<and> sample = concat (map (prefixed ls) ns) \<and>
      out = annex_b ns \<and> length out \<le> MAX_ANNEX_B_BYTES)"
proof -
  have c: "hevc_loop sample ls 0 [] = (if ns = [] \<or> length (annex_b ns) \<le> MAX_ANNEX_B_BYTES
      then Inr (annex_b ns) else Inl HevcResourceLimit)"
    if "1 \<le> ls" "fits_prefix ls ns" "sample = concat (map (prefixed ls) ns)" for ns
    using hevc_loop_complete [of ls sample 0 ns "[]"] that assms by simp
  have "hevc_loop sample ls 0 [] = Inr out \<longleftrightarrow>
      (\<exists>ns. fits_prefix ls ns \<and> sample = concat (map (prefixed ls) ns) \<and> out = annex_b ns \<and>
        length out \<le> MAX_ANNEX_B_BYTES)" (is "?l \<longleftrightarrow> ?r") if ls: "1 \<le> ls"
  proof
    assume l: ?l
    obtain ns where ns: "fits_prefix ls ns" "sample = concat (map (prefixed ls) ns)"
      using hevc_loop_sound [OF l ls] by auto
    then show ?r using c [OF ls ns] l by (intro exI [of _ ns]) (auto split: if_splits)
  next
    assume ?r
    then show ?l using c [OF ls] by auto
  qed
  then show ?thesis by (auto simp: hevc_sample_to_annex_b_def append_hevc_annex_b_def)
qed

text \<open>An HEVC sample is converted exactly when its length size is 1 to 4, it is a
  sequence of length-prefixed NAL units and the result is at most 64 MiB; the result has a
  start code before every unit, in order. Unlike the AVC conversion it keeps empty units.\<close>

theorem hevc_annex_b_exact:
  assumes "length sample < 2 ^ 64"
  shows "hevc_sample_to_annex_b sample ls = Inr out \<longleftrightarrow>
    1 \<le> ls \<and> ls \<le> 4 \<and>
    (\<exists>ns. fits_prefix ls ns \<and> sample = concat (map (prefixed ls) ns) \<and>
      out = annex_b ns \<and> length out \<le> MAX_ANNEX_B_BYTES)"
  using assms by (rule hevc_sample_iff)

theorem hevc_annex_b_exact_witness:
  "hevc_sample_to_annex_b [2, 0x40, 1, 0] 1 = Inr [0, 0, 0, 1, 0x40, 1, 0, 0, 0, 1]"
proof (rule hevc_annex_b_exact [THEN iffD2], simp, intro conjI exI [of _ "[[0x40, 1], []]"])
  show "[2, 0x40, 1, 0] = concat (map (prefixed 1) [[0x40, 1], []])"
    by (simp add: prefixed_def byte_def)
qed (simp_all add: start_code_def MAX_ANNEX_B_BYTES_def)

section \<open>Growth by conversion\<close>

lemma div_ceil_pos: "0 < a \<Longrightarrow> 0 < b \<Longrightarrow> 1 \<le> div_ceil a b"
  using div_ceil_least [of b a 0] by (cases "div_ceil a b") auto

lemma annex_b_growth:
  assumes "1 \<le> ls"
  shows "length (annex_b ns) \<le> length (concat (map (prefixed ls) ns)) * div_ceil 4 ls"
proof (induction ns)
  case (Cons n ns)
  have "4 \<le> ls * div_ceil 4 ls" using div_ceil_least [of ls 4 "div_ceil 4 ls"] assms by (simp add: mult.commute)
  moreover have "length n * 1 \<le> length n * div_ceil 4 ls"
    using div_ceil_pos [of 4 ls] assms by (intro mult_le_mono2) simp
  ultimately have "4 + length n \<le> (ls + length n) * div_ceil 4 ls" unfolding add_mult_distrib by linarith
  then show ?case using Cons by (simp add: algebra_simps)
qed simp

lemma annex_b_filter: "length (annex_b (filter P ns)) \<le> length (annex_b ns)"
  by (induction ns) simp_all

lemma avc_sample_growth:
  assumes "avc_sample_to_annex_b sample ls = Inr out" "length sample < 2 ^ 64"
  shows "length out \<le> length sample * div_ceil 4 ls"
proof -
  obtain ns where ns: "1 \<le> ls" "sample = concat (map (prefixed ls) ns)" "out = annex_b (nonempty ns)"
    using assms(1) unfolding avc_sample_iff [OF assms(2)] by blast
  show ?thesis using annex_b_growth [OF ns(1), of ns] annex_b_filter [of "\<lambda>n. n \<noteq> []" ns]
    unfolding ns(2,3) nonempty_def by linarith
qed

lemma hevc_sample_growth:
  assumes "hevc_sample_to_annex_b sample ls = Inr out" "length sample < 2 ^ 64"
  shows "length out \<le> length sample * div_ceil 4 ls"
proof -
  obtain ns where ns: "1 \<le> ls" "sample = concat (map (prefixed ls) ns)" "out = annex_b ns"
    using assms(1) unfolding hevc_sample_iff [OF assms(2)] by blast
  show ?thesis using annex_b_growth [OF ns(1), of ns] unfolding ns(2,3) .
qed

lemma adts_header_length: "adts_header n config = Inr h \<Longrightarrow> length h = 7"
  by (auto simp: adts_header_def result_simps Let_def split: if_splits)

section \<open>Chunks and NAL metadata\<close>

definition unit_bytes :: "bytes \<Rightarrow> avc_nal_unit \<Rightarrow> bytes" where
  "unit_bytes payload u = slice payload (nu_payload_offset u) (nu_payload_offset u + nu_byte_count u)"

definition unit_ok :: "bytes \<Rightarrow> avc_nal_unit \<Rightarrow> bool" where
  "unit_ok payload u \<longleftrightarrow>
     0 < nu_byte_count u \<and> nu_payload_offset u + nu_byte_count u \<le> length payload \<and>
     nu_type u = hd (unit_bytes payload u) AND 0x1f"

lemma slice_slice:
  "a \<le> b \<Longrightarrow> c \<le> d \<Longrightarrow> a + d \<le> b \<Longrightarrow> slice (slice xs a b) c d = slice xs (a + c) (a + d)"
  unfolding slice_def drop_take drop_drop take_take by (simp add: min_def add.commute)

lemma push_nal_Inr:
  "push_nal i spo offset n nalus = Inr nalus' \<longleftrightarrow>
     length nalus < MAX_NAL_UNITS \<and> spo + offset < 2 ^ 64 \<and>
     nalus' = nalus @ [\<lparr>nu_sample_index = i, nu_sample_payload_offset = spo, nu_payload_offset = spo + offset,
       nu_byte_count = as_u 32 (length n), nu_type = hd n AND 0x1f\<rparr>]"
  by (auto simp: push_nal_def result_simps)

lemma fold_push_nal:
  assumes "fold_nals (push_nal i spo) ls offset ns nalus = Inr nalus'"
    and "bs = slice payload spo e" "spo \<le> e" "e \<le> length payload"
    and "drop offset bs = concat (map (prefixed ls) ns)" "fits_prefix ls ns" "1 \<le> ls" "ls \<le> 4"
  shows "\<exists>us. nalus' = nalus @ us \<and> map (unit_bytes payload) us = nonempty ns \<and> (\<forall>u \<in> set us. unit_ok payload u)"
  using assms(1,5,6)
proof (induction ns arbitrary: offset nalus)
  case Nil
  then show ?case by simp
next
  case (Cons n ns)
  have d: "drop offset bs = prefixed ls n @ concat (map (prefixed ls) ns)" and n: "length n < 256 ^ ls"
    using Cons.prems by simp_all
  note st = prefixed_step [OF d assms(7) n]
  have lb: "length bs = e - spo" using assms(2,4) by simp
  show ?case
  proof (cases "n = []")
    case True
    then show ?thesis using Cons.IH [of "offset + ls" nalus] Cons.prems st by simp
  next
    case False
    let ?u = "\<lparr>nu_sample_index = i, nu_sample_payload_offset = spo, nu_payload_offset = spo + (offset + ls),
      nu_byte_count = as_u 32 (length n), nu_type = hd n AND 0x1f\<rparr>"
    have "(256::nat) ^ ls \<le> 256 ^ 4" using assms(8) by (intro power_increasing) simp_all
    then have c: "as_u 32 (length n) = length n" using n by (intro as_u_id) simp
    have rest: "fold_nals (push_nal i spo) ls (offset + ls + length n) ns (nalus @ [?u]) = Inr nalus'"
      using Cons.prems(1) False by (auto simp: push_nal_Inr result_simps)
    have b: "slice payload (spo + (offset + ls)) (spo + (offset + ls) + length n) = n"
    proof -
      have "slice (slice payload spo e) (offset + ls) (offset + ls + length n)
          = slice payload (spo + (offset + ls)) (spo + (offset + ls + length n))"
        using st(1) lb assms(3) by (intro slice_slice) linarith+
      then show ?thesis using st(4) assms(2) by (simp add: add.assoc)
    qed
    then have u: "unit_bytes payload ?u = n" by (simp add: unit_bytes_def c)
    have "unit_ok payload ?u"
      using False st(1) lb assms(3,4) u by (simp add: unit_ok_def c)
    moreover obtain us where "nalus' = (nalus @ [?u]) @ us" "map (unit_bytes payload) us = nonempty ns"
      "\<forall>u \<in> set us. unit_ok payload u"
      using Cons.IH [OF rest] st Cons.prems by auto
    ultimately show ?thesis using u False by (intro exI [of _ "?u # us"]) simp
  qed
qed

lemma sample_bytes_Inr:
  "sample_bytes payload s = Inr bs \<longleftrightarrow>
     (let e = smp_payload_offset s + smp_byte_count s in
      e < 2 ^ 64 \<and> e \<le> length payload \<and> bs = slice payload (smp_payload_offset s) e)"
  by (auto simp: sample_bytes_def result_simps Let_def)

lemma chunk_loops_agree:
  assumes "length payload < 2 ^ 64"
    and "append_samples payload ls samples out = Inr out'" "chunk_nalus_loop payload ls samples nalus = Inr nalus'"
  shows "\<exists>us. nalus' = nalus @ us \<and> out' = out @ annex_b (map (unit_bytes payload) us) \<and>
    (us = [] \<or> length out' \<le> MAX_ANNEX_B_BYTES) \<and> (\<forall>u \<in> set us. unit_ok payload u)"
  using assms(2,3)
proof (induction samples arbitrary: out nalus)
  case Nil
  then show ?case by simp
next
  case (Cons s ss)
  obtain bs out1 nalus1 where bs: "sample_bytes payload s = Inr bs"
    and a: "append_annex_b out bs ls = Inr out1" "append_samples payload ls ss out1 = Inr out'"
    and n: "append_avc_nalus nalus (smp_index s) (smp_payload_offset s) bs ls = Inr nalus1"
      "chunk_nalus_loop payload ls ss nalus1 = Inr nalus'"
    using Cons.prems by (auto simp: result_simps)
  have bl: "bs = slice payload (smp_payload_offset s) (smp_payload_offset s + smp_byte_count s)"
    "smp_payload_offset s + smp_byte_count s \<le> length payload"
    using bs by (simp_all add: sample_bytes_Inr Let_def)
  then have len: "length bs < 2 ^ 64" using assms(1) by simp
  obtain ns where ns: "1 \<le> ls" "ls \<le> 4" "fits_prefix ls ns" "bs = concat (map (prefixed ls) ns)"
    "out1 = out @ annex_b (nonempty ns)" "nonempty ns = [] \<or> length out1 \<le> MAX_ANNEX_B_BYTES"
    using a(1) unfolding append_annex_b_exact [OF len] by blast
  obtain ms where "fits_prefix ls ms" "bs = concat (map (prefixed ls) ms)"
    "fold_nals (push_nal (smp_index s) (smp_payload_offset s)) ls 0 ms nalus = Inr nalus1"
    using n(1) unfolding append_avc_nalus_def visit_avc_exact [OF len] by blast
  then have f: "fold_nals (push_nal (smp_index s) (smp_payload_offset s)) ls 0 ns nalus = Inr nalus1"
    using prefixed_inj [of ls ns ms] ns by simp
  obtain us where us: "nalus1 = nalus @ us" "map (unit_bytes payload) us = nonempty ns"
    "\<forall>u \<in> set us. unit_ok payload u"
    using fold_push_nal [OF f bl(1) _ bl(2)] ns by auto
  obtain vs where vs: "nalus' = nalus1 @ vs" "out' = out1 @ annex_b (map (unit_bytes payload) vs)"
    "vs = [] \<or> length out' \<le> MAX_ANNEX_B_BYTES" "\<forall>u \<in> set vs. unit_ok payload u"
    using Cons.IH [OF a(2) n(2)] by blast
  have "us @ vs = [] \<or> length out' \<le> MAX_ANNEX_B_BYTES"
  proof (cases "vs = []")
    case True
    then show ?thesis using vs(2) ns(6) us(2) by auto
  next
    case False
    then show ?thesis using vs(3) by simp
  qed
  then show ?case using us vs ns(5) by (intro exI [of _ "us @ vs"]) auto
qed

text \<open>For a chunk of AVC samples, the NAL metadata and the Annex B output describe the
  same units: each metadata entry is a non-empty range inside the payload with the unit's
  type, and the output is a start code and that range for each entry, at most 64 MiB.\<close>

theorem avc_chunk_matches_metadata:
  assumes "avc_chunk_to_annex_b payload samples ls = Inr out"
    and "parse_avc_chunk_nalus payload samples ls = Inr nalus" and "length payload < 2 ^ 64"
  shows "out = concat (map (\<lambda>u. start_code @
      slice payload (nu_payload_offset u) (nu_payload_offset u + nu_byte_count u)) nalus) \<and>
    length out \<le> MAX_ANNEX_B_BYTES \<and>
    (\<forall>u. u \<in> set nalus \<longrightarrow> 0 < nu_byte_count u \<and> nu_payload_offset u + nu_byte_count u \<le> length payload \<and>
      nu_type u = (payload ! nu_payload_offset u) AND 0x1f)"
proof -
  have l: "append_samples payload ls samples [] = Inr out" "chunk_nalus_loop payload ls samples [] = Inr nalus"
    using assms by (auto simp: avc_chunk_to_annex_b_def parse_avc_chunk_nalus_def result_simps split: if_splits)
  obtain us where us: "nalus = us" "out = annex_b (map (unit_bytes payload) us)"
    "us = [] \<or> length out \<le> MAX_ANNEX_B_BYTES" "\<forall>u \<in> set us. unit_ok payload u"
    using chunk_loops_agree [OF assms(3) l] by auto
  have "hd (unit_bytes payload u) = payload ! nu_payload_offset u" if "unit_ok payload u" for u
    using that unfolding unit_ok_def unit_bytes_def slice_def by (simp add: hd_drop_conv_nth)
  moreover have "length out \<le> MAX_ANNEX_B_BYTES" using us by auto
  ultimately show ?thesis using us by (auto simp: annex_b_def unit_bytes_def unit_ok_def comp_def)
qed

definition demo_sample :: "nat \<Rightarrow> nat \<Rightarrow> chunk_sample" where
  "demo_sample off n =
     \<lparr>smp_index = 5, smp_payload_offset = off, smp_byte_count = n, smp_pts = time_point_millis 0,
      smp_dts = time_point_millis 0, smp_duration = time_delta_millis 40, smp_keyframe = True\<rparr>"

lemma demo_sample_simps [simp]:
  "smp_index (demo_sample off n) = 5" "smp_payload_offset (demo_sample off n) = off"
  "smp_byte_count (demo_sample off n) = n"
  by (simp_all add: demo_sample_def)

lemma visit_demo: "visit_avc_nalus [0, 1, 0x65, 0, 2, 0x41, 9] 2 visit s = fold_nals visit 2 0 [[0x65], [0x41, 9]] s"
proof -
  have "visit_loop [0, 1, 0x65, 0, 2, 0x41, 9] 2 visit 0 s = fold_nals visit 2 0 [[0x65], [0x41, 9]] s"
    by (rule visit_loop_complete) (simp_all add: prefixed_def byte_def be_bytes_2 be_u16_def)
  then show ?thesis by (simp add: visit_avc_nalus_def)
qed

theorem avc_chunk_matches_metadata_witness:
  "\<exists>nalus. parse_avc_chunk_nalus [0, 1, 0x65, 0, 2, 0x41, 9] [demo_sample 0 7] 2 = Inr nalus \<and> nalus \<noteq> [] \<and>
    avc_chunk_to_annex_b [0, 1, 0x65, 0, 2, 0x41, 9] [demo_sample 0 7] 2 =
      Inr (concat (map (\<lambda>u. start_code @ slice [0, 1, 0x65, 0, 2, 0x41, 9] (nu_payload_offset u)
        (nu_payload_offset u + nu_byte_count u)) nalus))"
proof -
  have b: "sample_bytes [0, 1, 0x65, 0, 2, 0x41, 9] (demo_sample 0 7) = Inr [0, 1, 0x65, 0, 2, 0x41, 9]"
    by (simp add: sample_bytes_Inr Let_def slice_def)
  have sz: "fold_nals size_nal 2 0 [[0x65], [0x41, 9]] n = Inr (n + 11)" if "n = 0" for n
    using that unfolding fold_size_nal by (simp add: MAX_ANNEX_B_BYTES_def)
  obtain out where o: "avc_chunk_to_annex_b [0, 1, 0x65, 0, 2, 0x41, 9] [demo_sample 0 7] 2 = Inr out"
    using sz by (simp add: avc_chunk_to_annex_b_def b append_annex_b_def visit_demo fold_emit_nal
        del: fold_nals.simps)
  obtain nalus where n: "parse_avc_chunk_nalus [0, 1, 0x65, 0, 2, 0x41, 9] [demo_sample 0 7] 2 = Inr nalus" "nalus \<noteq> []"
    by (simp add: parse_avc_chunk_nalus_def append_avc_nalus_def b visit_demo push_nal_def MAX_NAL_UNITS_def
        checked_add_def)
  show ?thesis using avc_chunk_matches_metadata [OF o n(1)] o n by simp
qed

section \<open>Configuration records\<close>

definition sized_units :: "bytes list \<Rightarrow> bytes" where
  "sized_units us = concat (map (\<lambda>u. be_u16 (length u) @ u) us)"

definition fits_u16 :: "bytes list \<Rightarrow> bool" where
  "fits_u16 us \<longleftrightarrow> (\<forall>u \<in> set us. length u < 2 ^ 16)"

lemma sized_units_simps [simp]:
  "sized_units [] = []" "sized_units (u # us) = be_u16 (length u) @ u @ sized_units us"
  by (simp_all add: sized_units_def)

lemma sized_step:
  assumes "drop off payload = be_u16 (length u) @ u @ rest" "length u < 2 ^ 16"
  shows "off + 2 + length u \<le> length payload" "be_nat (slice payload off (off + 2)) = length u"
    "slice payload (off + 2) (off + 2 + length u) = u" "drop (off + 2 + length u) payload = rest"
proof -
  have "(256::nat) ^ 2 = 2 ^ 16" by simp
  then have d: "drop off payload = prefixed 2 u @ rest" "length u < 256 ^ 2"
    using assms by (simp_all add: prefixed_def be_bytes_2)
  show "off + 2 + length u \<le> length payload" "be_nat (slice payload off (off + 2)) = length u"
    "slice payload (off + 2) (off + 2 + length u) = u" "drop (off + 2 + length u) payload = rest"
    using prefixed_step [OF d(1) _ d(2)] by simp_all
qed

lemma avc_units_loop_complete:
  assumes "drop off payload = sized_units us @ rest" "fits_u16 us" "length payload < 2 ^ 64" "n = length us"
  shows "avc_units_loop payload n off acc = Inr (acc @ us, off + length (sized_units us))"
  using assms(1,2,4)
proof (induction us arbitrary: off acc n)
  case (Cons u us)
  have u: "length u < 2 ^ 16" using Cons.prems by (simp add: fits_u16_def)
  have d: "drop off payload = be_u16 (length u) @ u @ sized_units us @ rest" using Cons.prems by simp
  note st = sized_step [OF d u]
  have c: "checked_add 64 off 2 = Some (off + 2)" "checked_add 64 (off + 2) (length u) = Some (off + 2 + length u)"
    "get_range payload off (off + 2) = Some (slice payload off (off + 2))" "\<not> length payload < off + 2 + length u"
    using st(1) assms(3) by simp_all
  have r: "avc_read_u16 payload off = Inr (length u)"
    unfolding avc_read_u16_def c ok_or_simps res_bind_simps st(2) ..
  show ?case
    using Cons.IH [of "off + 2 + length u" "length us" "acc @ [u]"] Cons.prems st
    unfolding Cons.prems(3) list.size(4) add_Suc_right add_0_right avc_units_loop.simps r res_bind_simps c
      ok_or_simps if_not_P [OF c(4)] st(3)
    by (simp add: fits_u16_def)
qed simp

lemma hevc_units_loop_complete:
  assumes "drop off payload = sized_units us @ rest" "fits_u16 us" "length payload < 2 ^ 64" "n = length us"
  shows "hevc_units_loop payload n off acc = Inr (acc @ us, off + length (sized_units us))"
  using assms(1,2,4)
proof (induction us arbitrary: off acc n)
  case (Cons u us)
  have u: "length u < 2 ^ 16" using Cons.prems by (simp add: fits_u16_def)
  have d: "drop off payload = be_u16 (length u) @ u @ sized_units us @ rest" using Cons.prems by simp
  note st = sized_step [OF d u]
  have c: "checked_add 64 off 2 = Some (off + 2)" "checked_add 64 (off + 2) (length u) = Some (off + 2 + length u)"
    "get_range payload off (off + 2) = Some (slice payload off (off + 2))" "\<not> length payload < off + 2 + length u"
    using st(1) assms(3) by simp_all
  have r: "hevc_read_u16 payload off = Inr (length u)"
    unfolding hevc_read_u16_def c ok_or_simps res_bind_simps st(2) ..
  show ?case
    using Cons.IH [of "off + 2 + length u" "length us" "acc @ [u]"] Cons.prems st
    unfolding Cons.prems(3) list.size(4) add_Suc_right add_0_right hevc_units_loop.simps r res_bind_simps c
      ok_or_simps if_not_P [OF c(4)] st(3)
    by (simp add: fits_u16_def)
qed simp

lemma low_bits [simp]:
  "unat ((0xfc OR byte n) AND 0x03) = n mod 4" "unat ((0xe0 OR byte n) AND 0x1f) = n mod 32"
proof -
  have a: "(0xfc OR byte n) AND 0x03 = take_bit 2 (byte n)"
    by (rule bit_word_eqI) (auto simp: bit_simps bit_numeral_rec less_Suc_eq numeral_2_eq_2)
  have b: "(0xe0 OR byte n) AND 0x1f = take_bit 5 (byte n)"
    by (rule bit_word_eqI) (auto simp: bit_simps bit_numeral_rec less_Suc_eq eval_nat_numeral)
  show "unat ((0xfc OR byte n) AND 0x03) = n mod 4" "unat ((0xe0 OR byte n) AND 0x1f) = n mod 32"
    unfolding a b unat_take_bit_u8
    using mod_mod_cancel [of 4 256 n] mod_mod_cancel [of 32 256 n] by simp_all
qed

text \<open>The layout of the record, after its four profile bytes.\<close>

definition enc_avc_config :: "bytes \<Rightarrow> avc_parameter_sets \<Rightarrow> bytes \<Rightarrow> bytes" where
  "enc_avc_config profile c ext =
     profile @ [0xfc OR byte (aps_length_size c - 1), 0xe0 OR byte (length (aps_sps c))] @
     sized_units (aps_sps c) @ [byte (length (aps_pps c))] @ sized_units (aps_pps c) @ ext"

lemma avc_config_parse:
  assumes "length profile = 4" "1 \<le> aps_length_size c" "aps_length_size c \<le> 4"
    and "length (aps_sps c) < 32" "length (aps_pps c) < 256" "fits_u16 (aps_sps c)" "fits_u16 (aps_pps c)"
    and "length (enc_avc_config profile c ext) < 2 ^ 64"
  shows "parse_avc_decoder_config (enc_avc_config profile c ext) = Inr c"
proof -
  define bs where "bs = enc_avc_config profile c ext"
  let ?S = "sized_units (aps_sps c)" and ?P = "sized_units (aps_pps c)"
  obtain p0 p1 p2 p3 where p: "profile = [p0, p1, p2, p3]"
    using assms(1) by (auto simp: length_Suc_conv numeral_eq_Suc)
  have len: "length bs = 7 + length ?S + length ?P + length ext"
    by (simp add: bs_def enc_avc_config_def assms(1))
  have n: "bs ! 4 = 0xfc OR byte (aps_length_size c - 1)" "bs ! 5 = 0xe0 OR byte (length (aps_sps c))"
    by (simp_all add: bs_def enc_avc_config_def p)
  have v: "unat (bs ! 4 AND 0x03) + 1 = aps_length_size c" "unat (bs ! 5 AND 0x1f) = length (aps_sps c)"
    unfolding n low_bits using assms(2-4) by simp_all
  have s: "avc_units_loop bs (length (aps_sps c)) 6 [] = Inr (aps_sps c, 6 + length ?S)"
    using avc_units_loop_complete [of 6 bs "aps_sps c" "[byte (length (aps_pps c))] @ ?P @ ext" _ "[]"] assms
    by (simp add: bs_def enc_avc_config_def p)
  have g: "get_at bs (6 + length ?S) = Some (byte (length (aps_pps c)))"
    using len by (simp add: bs_def enc_avc_config_def p nth_append)
  have q: "avc_units_loop bs (length (aps_pps c)) (6 + length ?S + 1) [] =
      Inr (aps_pps c, 6 + length ?S + 1 + length ?P)"
  proof -
    let ?x = "profile @ [0xfc OR byte (aps_length_size c - 1), 0xe0 OR byte (length (aps_sps c))] @ ?S
      @ [byte (length (aps_pps c))]"
    have "bs = ?x @ ?P @ ext" "length ?x = 6 + length ?S + 1"
      by (simp_all add: bs_def enc_avc_config_def p)
    then have "drop (6 + length ?S + 1) bs = ?P @ ext" by (metis append_eq_conv_conj)
    from avc_units_loop_complete [OF this] show ?thesis using assms by (simp add: bs_def)
  qed
  have u: "unat (byte (length (aps_pps c))) = length (aps_pps c)" using assms(5) by simp
  have l: "\<not> length bs < 7" using len by simp
  show ?thesis
    unfolding bs_def [symmetric] parse_avc_decoder_config_def if_not_P [OF l] Let_def v s res_bind_simps
      prod.case g ok_or_simps u q by simp
qed

text \<open>The AVC configuration record reader returns exactly the length size and the
  parameter sets that the record's layout holds, whatever extension bytes follow them.\<close>

theorem avc_config_roundtrip:
  assumes "length profile = 4" "1 \<le> aps_length_size c" "aps_length_size c \<le> 4"
    and "length (aps_sps c) < 32" "length (aps_pps c) < 256"
    and "\<forall>u \<in> set (aps_sps c @ aps_pps c). length u < 2 ^ 16"
    and "length (enc_avc_config profile c ext) < 2 ^ 64"
  shows "parse_avc_decoder_config (enc_avc_config profile c ext) = Inr c"
  using assms by (intro avc_config_parse) (simp_all add: fits_u16_def)

theorem avc_config_roundtrip_witness:
  "parse_avc_decoder_config (enc_avc_config [1, 100, 0, 31]
      \<lparr>aps_length_size = 4, aps_sps = [[0x67, 1]], aps_pps = [[0x68], []]\<rparr> [0xfd]) =
    Inr \<lparr>aps_length_size = 4, aps_sps = [[0x67, 1]], aps_pps = [[0x68], []]\<rparr>"
  by (rule avc_config_roundtrip) (simp_all add: enc_avc_config_def)

section \<open>ADTS\<close>

text \<open>The fields of an ADTS header as a demuxer reads them.\<close>

definition adts_frame_length :: "bytes \<Rightarrow> nat" where
  "adts_frame_length bs =
     unat (bs ! 3 AND 0x03) * 2 ^ 11 + unat (bs ! 4) * 2 ^ 3 + unat (drop_bit 5 (bs ! 5))"

definition adts_rate_index :: "bytes \<Rightarrow> nat" where
  "adts_rate_index bs = unat (drop_bit 2 (bs ! 2) AND 0x0f)"

function adts_frames :: "bytes \<Rightarrow> (nat \<times> bytes) list" where
  "adts_frames bs =
     (if length bs < 7 \<or> adts_frame_length bs < 7 \<or> length bs < adts_frame_length bs then []
      else (adts_rate_index bs, slice bs 7 (adts_frame_length bs))
           # adts_frames (drop (adts_frame_length bs) bs))"
  by pat_completeness auto
termination by (relation "measure length") auto

declare adts_frames.simps [simp del]

lemma and_low2: "(push_bit 6 x OR (y AND 0x03)) AND 0x03 = take_bit 2 (y :: u8)"
  by (rule bit_word_eqI) (auto simp: bit_simps bytes_simps)

lemma drop_high3: "drop_bit 5 (push_bit 5 (y AND 0x07) OR 0x1f) = take_bit 3 (y :: u8)"
  by (rule bit_word_eqI) (auto simp: bit_simps bytes_simps)

lemma rate_bits:
  "drop_bit 2 (push_bit 6 x OR push_bit 2 y OR drop_bit 2 (z AND 0x04)) AND 0x0f =
    (take_bit 4 (push_bit 4 x) OR take_bit 4 y :: u8)"
  by (rule bit_word_eqI) (auto simp: bit_simps bytes_simps)

lemma adts_header_Inr:
  assumes "adts_header n config = Inr h"
  obtains i where "sample_rate_index (aac_sample_rate config) = Some i" "i < 13"
    "sample_rate_for_index i = Some (aac_sample_rate config)"
    "length h = 7" "n + 7 < 2 ^ 13" "adts_frame_length (h @ rest) = n + 7" "adts_rate_index (h @ rest) = i"
proof -
  obtain i where i: "sample_rate_index (aac_sample_rate config) = Some i" and n: "n + 7 < 2 ^ 13"
    and h: "h = [0xff, 0xf1,
              push_bit 6 (byte (min (aac_object_type config - 1) 3)) OR push_bit 2 (byte i)
                OR drop_bit 2 ((byte (aac_channel_config config) AND 0x07) AND 0x04),
              push_bit 6 ((byte (aac_channel_config config) AND 0x07) AND 0x03) OR (byte ((n + 7) div 2 ^ 11) AND 0x03),
              byte ((n + 7) div 2 ^ 3), push_bit 5 (byte (n + 7) AND 0x07) OR 0x1f, 0xfc]"
    using assms unfolding adts_header_def res_bind_Inr Let_def by (auto simp: result_simps split: if_splits)
  have fi: "sample_rate_for_index i = Some (aac_sample_rate config)" "i < 13"
    using i by (auto simp: sample_rate_index_def find_Some_iff)
  let ?m = "n + 7"
  have h3: "h ! 3 = push_bit 6 ((byte (aac_channel_config config) AND 0x07) AND 0x03) OR (byte (?m div 2 ^ 11) AND 0x03)"
    and h4: "h ! 4 = byte (?m div 2 ^ 3)" and h5: "h ! 5 = push_bit 5 (byte ?m AND 0x07) OR 0x1f"
    and h2: "h ! 2 = push_bit 6 (byte (min (aac_object_type config - 1) 3)) OR push_bit 2 (byte i)
                OR drop_bit 2 ((byte (aac_channel_config config) AND 0x07) AND 0x04)" and l: "length h = 7"
    unfolding h by simp_all
  have f: "adts_frame_length h = ?m"
  proof -
    have "unat (h ! 3 AND 0x03) = ?m div 2048 mod 256 mod 4"
      unfolding h3 and_low2 unat_take_bit_u8 by simp
    moreover have "unat (drop_bit 5 (h ! 5)) = ?m mod 256 mod 8"
      unfolding h5 drop_high3 unat_take_bit_u8 by simp
    moreover have "?m div 2048 < 4" using n by (simp add: less_mult_imp_div_less)
    moreover have "?m mod 256 mod 8 = ?m mod 8" by (simp add: mod_mod_cancel)
    moreover have "?m = ?m div 2048 * 2048 + ?m div 8 mod 256 * 8 + ?m mod 8"
    proof -
      have "?m mod 2048 = 8 * (?m div 8 mod 256) + ?m mod 8" using mod_mult2_eq [of ?m 8 256] by simp
      then show ?thesis using div_mult_mod_eq [of ?m 2048] by linarith
    qed
    ultimately show ?thesis unfolding adts_frame_length_def h4 by simp
  qed
  have r: "adts_rate_index h = i"
  proof -
    have z: "take_bit 4 (push_bit 4 x) = (0 :: u8)" for x
      by (rule bit_word_eqI) (auto simp: bit_simps)
    have "adts_rate_index h = unat (take_bit 4 (byte i))"
      unfolding adts_rate_index_def h2 rate_bits z by simp
    then show ?thesis unfolding unat_take_bit_u8 using fi by simp
  qed
  have "adts_frame_length (h @ rest) = adts_frame_length h" "adts_rate_index (h @ rest) = adts_rate_index h"
    using l by (simp_all add: adts_frame_length_def adts_rate_index_def nth_append)
  with that i fi l n f r show thesis by simp
qed

lemma adts_frames_append:
  assumes "adts_header (length p) config = Inr h"
  shows "\<exists>i. sample_rate_for_index i = Some (aac_sample_rate config) \<and>
    adts_frames (h @ p @ rest) = (i, p) # adts_frames rest"
proof -
  obtain i where i: "sample_rate_for_index i = Some (aac_sample_rate config)"
    "length h = 7" "adts_frame_length (h @ p @ rest) = length p + 7" "adts_rate_index (h @ p @ rest) = i"
    using adts_header_Inr [OF assms, of "p @ rest"] by metis
  have "adts_frames (h @ p @ rest) = (i, p) # adts_frames rest"
    by (subst adts_frames.simps) (use i in \<open>simp add: slice_def\<close>)
  with i show ?thesis by blast
qed

lemma adts_loop_frames:
  assumes "adts_loop payload samples config out = Inr out'"
  shows "\<exists>tail. out' = out @ tail \<and>
    map snd (adts_frames tail) = map (\<lambda>s. slice payload (smp_payload_offset s) (smp_payload_offset s + smp_byte_count s)) samples \<and>
    (\<forall>(i, p) \<in> set (adts_frames tail). sample_rate_for_index i = Some (aac_sample_rate config))"
  using assms
proof (induction samples arbitrary: out)
  case Nil
  then show ?case by (simp add: adts_frames.simps)
next
  case (Cons s ss)
  let ?p = "slice payload (smp_payload_offset s) (smp_payload_offset s + smp_byte_count s)"
  obtain h where h: "adts_header (smp_byte_count s) config = Inr h"
    and le: "smp_payload_offset s + smp_byte_count s \<le> length payload"
    and l: "adts_loop payload ss config (out @ h @ ?p) = Inr out'"
    using Cons.prems by (auto simp: result_simps split: if_splits)
  obtain tail where t: "out' = (out @ h @ ?p) @ tail"
    "map snd (adts_frames tail) = map (\<lambda>s. slice payload (smp_payload_offset s) (smp_payload_offset s + smp_byte_count s)) ss"
    "\<forall>(i, p) \<in> set (adts_frames tail). sample_rate_for_index i = Some (aac_sample_rate config)"
    using Cons.IH [OF l] by blast
  have "length ?p = smp_byte_count s" using le by simp
  then obtain i where "sample_rate_for_index i = Some (aac_sample_rate config)"
    "adts_frames (h @ ?p @ tail) = (i, ?p) # adts_frames tail"
    using adts_frames_append [of ?p config h tail] h by auto
  then show ?case using t by (intro exI [of _ "h @ ?p @ tail"]) auto
qed

text \<open>C40: A demuxer that follows the ADTS frame lengths recovers exactly the AAC frames of
  the chunk, in order, each under a sampling-frequency index that stands for the
  configured sample rate; frames too long for the 13-bit length field are refused.\<close>

theorem adts_roundtrip:
  assumes "aac_chunk_to_adts payload samples config = Inr out"
  shows "map snd (adts_frames out) =
      map (\<lambda>s. slice payload (smp_payload_offset s) (smp_payload_offset s + smp_byte_count s)) samples \<and>
    (\<forall>(i, p) \<in> set (adts_frames out). sample_rate_for_index i = Some (aac_sample_rate config))"
  using adts_loop_frames [of payload samples config "[]" out] assms by (auto simp: aac_chunk_to_adts_def)

theorem adts_roundtrip_witness:
  "\<exists>out. aac_chunk_to_adts [1, 2, 3, 4] [demo_sample 0 1, demo_sample 1 3]
      \<lparr>aac_object_type = 2, aac_sample_rate = 48000, aac_channel_config = 2\<rparr> = Inr out \<and>
    map snd (adts_frames out) = [[1], [2, 3, 4]]"
proof -
  let ?c = "\<lparr>aac_object_type = 2, aac_sample_rate = 48000, aac_channel_config = 2\<rparr>"
  have i: "sample_rate_index 48000 = Some 3"
    by (simp add: sample_rate_index_def sample_rate_for_index_def aac_rates_def get_at_def upt_rec)
  obtain out where o: "aac_chunk_to_adts [1, 2, 3, 4] [demo_sample 0 1, demo_sample 1 3] ?c = Inr out"
    by (simp add: aac_chunk_to_adts_def adts_header_def i checked_add_def Let_def)
  have "slice [1, 2, 3, 4] 0 1 = [1 :: u8]" "slice [1, 2, 3, 4] 1 4 = [2, 3, 4 :: u8]"
    by (simp_all add: slice_def)
  then show ?thesis using adts_roundtrip [OF o] o by simp
qed

end
