(* ===== verification/TsMux.thy ===== *)
theory TsMux
  imports AnnexB Resources
begin

text \<open>
  The MPEG transport stream writer of \<open>hls/transport_stream.rs\<close> and the segment muxer
  \<open>mux_segment\<close> of \<open>hls/mod.rs\<close>: timestamps, PES packets, 188-byte transport packets with
  their continuity counters, the program tables and their CRC. The reader functions of
  this theory (\<open>ts_pid\<close>, \<open>ts_payload\<close>, ...) are the format's definition of the fields; the
  lemmas show what a demultiplexer recovers from the written bytes.
\<close>

section \<open>Constants and timestamps\<close>

definition VIDEO_PID :: nat where "VIDEO_PID = 0x100"

definition AUDIO_PID :: nat where "AUDIO_PID = 0x101"

definition PMT_PID :: nat where "PMT_PID = 0x1000"

definition VIDEO_STREAM_ID :: u8 where "VIDEO_STREAM_ID = 0xe0"

definition AUDIO_STREAM_ID :: u8 where "AUDIO_STREAM_ID = 0xc0"

definition PRIVATE_STREAM_ID :: u8 where "PRIVATE_STREAM_ID = 0xbd"

definition TS_CLOCK :: nat where "TS_CLOCK = 90000"

definition to_90khz :: "time_scale \<Rightarrow> nat \<Rightarrow> nat" where
  "to_90khz scale units =
     (if units_per_second scale = 0 then 0 else sat_mul 64 units TS_CLOCK div units_per_second scale)"

record output_timestamp_sanitizer =
  last_video_dts90 :: "nat option"
  last_audio_dts90 :: "nat option"

definition sanitizer_default :: output_timestamp_sanitizer where
  "sanitizer_default = \<lparr>last_video_dts90 = None, last_audio_dts90 = None\<rparr>"

definition sanitize :: "output_timestamp_sanitizer \<Rightarrow> bool \<Rightarrow> nat \<Rightarrow> nat \<Rightarrow>
    output_timestamp_sanitizer \<times> nat \<times> nat" where
  "sanitize s is_video pts90 dts90 =
     (let slot = (if is_video then last_video_dts90 s else last_audio_dts90 s);
          out_dts = (case slot of None \<Rightarrow> dts90
                     | Some last_dts \<Rightarrow> if dts90 \<le> last_dts then sat_add 64 last_dts 1 else dts90);
          s' = (if is_video then s\<lparr>last_video_dts90 := Some out_dts\<rparr>
                else s\<lparr>last_audio_dts90 := Some out_dts\<rparr>)
      in (s', max pts90 out_dts, out_dts))"

section \<open>Payloads\<close>

datatype payload_kind =
    Avc nat avc_parameter_sets
  | Hevc nat bytes
  | Aac aac_config
  | Ac3 | Eac3 | RawAudio

text \<open>The causes an \<open>anyhow::Error\<close> carries: a resource ceiling, or another failure of the input.\<close>

datatype internal_error = Resource resource_error | OtherFailure string

datatype hls_error =
    HlsIo string
  | HlsInternal internal_error
  | HlsAac aac_error
  | HlsH264 h264_error
  | HlsHevc hevc_error
  | HlsUnsupported string

definition map_err :: "('e \<Rightarrow> 'f) \<Rightarrow> 'e + 'a \<Rightarrow> 'f + 'a" where
  "map_err f r = (case r of Inl e \<Rightarrow> Inl (f e) | Inr x \<Rightarrow> Inr x)"

definition looks_like_annex_b :: "bytes \<Rightarrow> bool" where
  "looks_like_annex_b sample = (take 3 sample = [0, 0, 1] \<or> take 4 sample = [0, 0, 0, 1])"

definition h264_sample_to_annex_b :: "bytes \<Rightarrow> nat \<Rightarrow> hls_error + bytes" where
  "h264_sample_to_annex_b sample nalu_length_size =
     (if looks_like_annex_b sample then Inr sample
      else map_err HlsH264 (avc_sample_to_annex_b sample nalu_length_size))"

text \<open>\<open>packet_bytes\<close> reads the source; the read is the argument \<open>read\<close>.\<close>

definition packet_to_payload :: "(packet_ref \<Rightarrow> hls_error + bytes) \<Rightarrow> packet_ref \<Rightarrow> payload_kind \<Rightarrow>
    hls_error + bytes" where
  "packet_to_payload read packet kind =
     res_bind (read packet) (\<lambda>payload.
       case kind of
         Avc nalu_length_size parameter_sets \<Rightarrow>
           let sets = (if pr_keyframe packet
                       then concat (map (\<lambda>sps. start_code @ sps) (aps_sps parameter_sets)) @
                            concat (map (\<lambda>pps. start_code @ pps) (aps_pps parameter_sets))
                       else [])
           in res_bind (h264_sample_to_annex_b payload nalu_length_size) (\<lambda>bs. Inr (sets @ bs))
       | Aac config \<Rightarrow>
           res_bind (map_err HlsAac (adts_header (pr_size packet) config)) (\<lambda>header.
             Inr (header @ payload))
       | Hevc nalu_length_size parameter_sets_annex_b \<Rightarrow>
           res_bind (map_err HlsHevc (hevc_sample_to_annex_b payload nalu_length_size)) (\<lambda>bs.
             Inr ((if pr_keyframe packet then parameter_sets_annex_b else []) @ bs))
       | Ac3 \<Rightarrow> Inr payload | Eac3 \<Rightarrow> Inr payload | RawAudio \<Rightarrow> Inr payload)"

definition ts_stream_type :: "payload_kind \<Rightarrow> u8" where
  "ts_stream_type p = (case p of Avc _ _ \<Rightarrow> 0x1b | Hevc _ _ \<Rightarrow> 0x24 | Aac _ \<Rightarrow> 0x0f | Ac3 \<Rightarrow> 0x81
     | Eac3 \<Rightarrow> 0x87 | RawAudio \<Rightarrow> 0x06)"

definition audio_stream_id :: "payload_kind \<Rightarrow> u8" where
  "audio_stream_id p = (if p = Ac3 \<or> p = Eac3 \<or> p = RawAudio then PRIVATE_STREAM_ID else AUDIO_STREAM_ID)"

section \<open>PES packets\<close>

definition write_pts :: "nat \<Rightarrow> nat \<Rightarrow> bytes" where
  "write_pts prefix timestamp =
     (let ts = timestamp mod 2 ^ 29 in
      [push_bit 4 (byte prefix) OR push_bit 1 (byte (ts div 2 ^ 30) AND 0x07) OR 1,
       byte (ts div 2 ^ 22),
       push_bit 1 (byte (ts div 2 ^ 15) AND 0x7f) OR 1,
       byte (ts div 2 ^ 7),
       push_bit 1 (byte ts AND 0x7f) OR 1])"

definition write_pcr :: "nat \<Rightarrow> bytes" where
  "write_pcr pcr_base =
     (let base = pcr_base mod 2 ^ 29 in
      [byte (base div 2 ^ 25), byte (base div 2 ^ 17), byte (base div 2 ^ 9), byte (base div 2),
       push_bit 7 (byte base AND 0x01) OR 0x7e, 0])"

definition pes_packet :: "u8 \<Rightarrow> nat \<Rightarrow> nat \<Rightarrow> bytes \<Rightarrow> bytes" where
  "pes_packet stream_id pts90 dts90 payload =
     (let has_dts = (pts90 \<noteq> dts90);
          header_len = (if has_dts then 10 else 5);
          pes_len = sat_add 64 (length payload) (3 + header_len);
          pes_len = (if 2 ^ 16 - 1 < pes_len then 0 else pes_len)
      in [0, 0, 1, stream_id] @ be_u16 pes_len @ [0x80, if has_dts then 0xc0 else 0x80, byte header_len] @
         write_pts (if has_dts then 3 else 2) pts90 @
         (if has_dts then write_pts 1 dts90 else []) @ payload)"

section \<open>Program tables\<close>

definition crc_step :: "32 word \<Rightarrow> 32 word" where
  "crc_step crc = (if crc AND 0x80000000 \<noteq> 0 then push_bit 1 crc XOR 0x04c11db7 else push_bit 1 crc)"

definition crc_byte :: "u8 \<Rightarrow> 32 word \<Rightarrow> 32 word" where
  "crc_byte b crc = (crc_step ^^ 8) (crc XOR push_bit 24 (ucast b))"

definition crc32_mpeg :: "bytes \<Rightarrow> 32 word" where
  "crc32_mpeg bs = fold crc_byte bs 0xffffffff"

definition append_crc32 :: "bytes \<Rightarrow> bytes" where
  "append_crc32 section = section @ be_u32 (unat (crc32_mpeg section))"

definition pat_section :: bytes where
  "pat_section = append_crc32
     [0x00, 0xb0, 0x0d, 0x00, 0x01, 0xc1, 0x00, 0x00, 0x00, 0x01,
      0xe0 OR (byte (PMT_PID div 2 ^ 8) AND 0x1f), byte PMT_PID]"

definition registration_descriptor :: "bytes \<Rightarrow> bytes" where
  "registration_descriptor format_identifier = [0x05, 0x04] @ format_identifier"

definition pmt_audio_descriptors :: "u8 \<Rightarrow> bytes" where
  "pmt_audio_descriptors audio_stream_type =
     (if audio_stream_type = 0x81 then registration_descriptor [0x41, 0x43, 0x2d, 0x33]
      else if audio_stream_type = 0x87
      then registration_descriptor [0x41, 0x43, 0x2d, 0x33] @ registration_descriptor [0x45, 0x41, 0x43, 0x33]
      else [])"

definition pmt_section :: "u8 \<Rightarrow> u8 \<Rightarrow> bytes" where
  "pmt_section video_stream_type audio_stream_type =
     (let audio_descriptors = pmt_audio_descriptors audio_stream_type;
          section_length = 5 + 4 + 2 + 5 + 5 + length audio_descriptors + 4
      in append_crc32
        ([0x02, 0xb0 OR (byte (section_length div 2 ^ 8) AND 0x0f), byte section_length,
          0x00, 0x01, 0xc1, 0x00, 0x00,
          0xe0 OR (byte (VIDEO_PID div 2 ^ 8) AND 0x1f), byte VIDEO_PID, 0xf0, 0x00,
          video_stream_type, 0xe0 OR (byte (VIDEO_PID div 2 ^ 8) AND 0x1f), byte VIDEO_PID, 0xf0, 0x00,
          audio_stream_type, 0xe0 OR (byte (AUDIO_PID div 2 ^ 8) AND 0x1f), byte AUDIO_PID,
          0xf0 OR (byte (length audio_descriptors div 2 ^ 8) AND 0x0f), byte (length audio_descriptors)]
         @ audio_descriptors))"

section \<open>Transport packets\<close>

record ts_muxer =
  tm_out :: bytes
  tm_continuity :: "nat \<Rightarrow> u8"
  tm_video_stream_type :: u8
  tm_audio_stream_type :: u8

definition ts_muxer_new :: "u8 \<Rightarrow> u8 \<Rightarrow> ts_muxer" where
  "ts_muxer_new video_stream_type audio_stream_type =
     \<lparr>tm_out = [], tm_continuity = (\<lambda>_. 0), tm_video_stream_type = video_stream_type,
      tm_audio_stream_type = audio_stream_type\<rparr>"

text \<open>\<open>packet[off..off + len].copy_from_slice(bytes)\<close>\<close>

definition put :: "bytes \<Rightarrow> nat \<Rightarrow> bytes \<Rightarrow> bytes" where
  "put packet off bs = take off packet @ bs @ drop (off + length bs) packet"

definition ts_packet :: "nat \<Rightarrow> bool \<Rightarrow> bool \<Rightarrow> nat option \<Rightarrow> u8 \<Rightarrow> bytes \<Rightarrow> bytes \<times> nat" where
  "ts_packet pid payload_start first pcr cc rest =
     (let remaining = length rest;
          include_pcr = (first \<and> pcr \<noteq> None);
          base_payload_capacity = (if include_pcr then 176 else 184);
          payload_len = min remaining base_payload_capacity;
          needs_stuffing = (payload_len < base_payload_capacity);
          adaptation = (include_pcr \<or> needs_stuffing);
          packet = (replicate 188 0xff)
            [0 := 0x47,
             1 := ((if first \<and> payload_start then 0x40 else 0) OR byte (pid div 2 ^ 8)) AND 0x5f,
             2 := byte pid,
             3 := (if adaptation then 0x30 else 0x10) OR cc];
          (packet, payload_offset) =
            (if adaptation
             then let adaptation_total = 184 - payload_len;
                      packet = packet[4 := byte (adaptation_total - 1), 5 := if include_pcr then 0x10 else 0];
                      packet = (case pcr of None \<Rightarrow> packet
                        | Some pcr_base \<Rightarrow> if include_pcr then put packet 6 (write_pcr pcr_base) else packet)
                  in (packet, 4 + adaptation_total)
             else (packet, 4))
      in (put packet payload_offset (take payload_len rest), payload_len))"

lemma ts_packet_len:
  "snd (ts_packet pid start first pcr cc rest) = min (length rest) (if first \<and> pcr \<noteq> None then 176 else 184)"
  by (simp add: ts_packet_def Let_def split: prod.splits)

function ts_loop :: "nat \<Rightarrow> bool \<Rightarrow> nat option \<Rightarrow> bytes \<Rightarrow> nat \<Rightarrow> bool \<Rightarrow> ts_muxer \<Rightarrow> ts_muxer" where
  "ts_loop pid payload_start pcr payload offset first m =
     (if offset < length payload \<or> (payload = [] \<and> first)
      then
        let cc = tm_continuity m pid AND 0x0f;
            (packet, payload_len) = ts_packet pid payload_start first pcr cc (drop offset payload)
        in ts_loop pid payload_start pcr payload (offset + payload_len) False
             (m\<lparr>tm_continuity := (tm_continuity m)(pid := (cc + 1) AND 0x0f), tm_out := tm_out m @ packet\<rparr>)
      else m)"
  by pat_completeness auto
termination
proof (relation "measure (\<lambda>(pid, payload_start, pcr, payload, offset, first, m).
    (length payload - offset) + (if first then 1 else 0))")
  fix pid :: nat and payload_start and pcr :: "nat option" and payload :: bytes and offset first m cc x packet payload_len
  assume a: "offset < length payload \<or> payload = [] \<and> first"
    "x = ts_packet pid payload_start first pcr cc (drop offset payload)" "(packet, payload_len) = x"
  then have "payload_len = min (length payload - offset) (if first \<and> pcr \<noteq> None then 176 else 184)"
    using ts_packet_len [of pid payload_start first pcr cc "drop offset payload"] by (metis length_drop snd_conv)
  with a(1) show "((pid, payload_start, pcr, payload, offset + payload_len, False,
      m\<lparr>tm_continuity := (tm_continuity m)(pid := (cc + 1) AND 0x0f), tm_out := tm_out m @ packet\<rparr>),
      pid, payload_start, pcr, payload, offset, first, m)
    \<in> measure (\<lambda>(pid, payload_start, pcr, payload, offset, first, m).
        (length payload - offset) + (if first then 1 else 0))"
    by auto
qed simp

declare ts_loop.simps [simp del]

definition write_ts_packets :: "ts_muxer \<Rightarrow> nat \<Rightarrow> bool \<Rightarrow> nat option \<Rightarrow> bytes \<Rightarrow> ts_muxer" where
  "write_ts_packets m pid payload_start pcr payload = ts_loop pid payload_start pcr payload 0 True m"

definition write_psi :: "ts_muxer \<Rightarrow> nat \<Rightarrow> bytes \<Rightarrow> ts_muxer" where
  "write_psi m pid section = write_ts_packets m pid True None (0 # section)"

definition write_pat_pmt :: "ts_muxer \<Rightarrow> ts_muxer" where
  "write_pat_pmt m =
     (let m = write_psi m 0 pat_section
      in write_psi m PMT_PID (pmt_section (tm_video_stream_type m) (tm_audio_stream_type m)))"

record timed_payload =
  tpl_pts90 :: nat
  tpl_dts90 :: nat
  tpl_bytes :: bytes

definition write_pes :: "ts_muxer \<Rightarrow> nat \<Rightarrow> u8 \<Rightarrow> timed_payload \<Rightarrow> bool \<Rightarrow> ts_muxer" where
  "write_pes m pid stream_id sample with_pcr =
     write_ts_packets m pid True (if with_pcr then Some (tpl_dts90 sample) else None)
       (pes_packet stream_id (tpl_pts90 sample) (tpl_dts90 sample) (tpl_bytes sample))"

section \<open>Reading transport packets\<close>

definition ts_pid :: "bytes \<Rightarrow> nat" where
  "ts_pid p = unat (p ! 1 AND 0x1f) * 256 + unat (p ! 2)"

definition ts_cc :: "bytes \<Rightarrow> nat" where
  "ts_cc p = unat (p ! 3 AND 0x0f)"

definition ts_start :: "bytes \<Rightarrow> bool" where
  "ts_start p = bit (p ! 1) 6"

definition ts_has_adaptation :: "bytes \<Rightarrow> bool" where
  "ts_has_adaptation p = bit (p ! 3) 5"

definition ts_payload :: "bytes \<Rightarrow> bytes" where
  "ts_payload p = (if ts_has_adaptation p then drop (5 + unat (p ! 4)) p else drop 4 p)"

definition ts_valid :: "bytes \<Rightarrow> bool" where
  "ts_valid p \<longleftrightarrow> length p = 188 \<and> p ! 0 = 0x47"

lemma length_put: "off + length bs \<le> length p \<Longrightarrow> length (put p off bs) = length p"
  by (simp add: put_def)

lemma put_nth_before: "i < off \<Longrightarrow> off \<le> length p \<Longrightarrow> put p off bs ! i = p ! i"
  by (simp add: put_def nth_append)

lemma put_to_end: "off + length bs = length p \<Longrightarrow> drop off (put p off bs) = bs"
  by (simp add: put_def)

lemma length_write_pcr [simp]: "length (write_pcr b) = 6"
  by (simp add: write_pcr_def Let_def)

lemma pid_bits:
  assumes "x < 32"
  shows "unat ((((if b then 0x40 else 0) OR byte x) AND 0x5f) AND 0x1f) = x"
    "bit (((if b then 0x40 else 0) OR byte x) AND 0x5f) 6 = b"
proof -
  have low: "\<not> bit (byte x) n" if "5 \<le> n" for n
  proof -
    have "unat (take_bit 5 (byte x)) = unat (byte x)" unfolding unat_take_bit_u8 using assms by simp
    then have "byte x = take_bit 5 (byte x)" by (simp only: word_unat_eq_iff)
    then show ?thesis using that by (metis bit_take_bit_iff not_le)
  qed
  have d: "bit (0x5f :: int) n \<longleftrightarrow> n < 5 \<or> n = 6" "bit (0x40 :: int) n \<longleftrightarrow> n = 6" for n
  proof -
    have m: "(0x5f :: int) = mask 5 OR 2 ^ 6" "(0x40 :: int) = 2 ^ 6" by (simp_all add: mask_eq_exp_minus_1)
    show "bit (0x5f :: int) n \<longleftrightarrow> n < 5 \<or> n = 6" "bit (0x40 :: int) n \<longleftrightarrow> n = 6"
      unfolding m bit_or_iff bit_mask_iff bit_exp_iff by (auto simp: possible_bit_def)
  qed
  have e: "(((if b then 0x40 else 0) OR byte x) AND 0x5f) AND 0x1f = byte x"
  proof (rule bit_word_eqI)
    fix n
    show "bit ((((if b then 0x40 else 0) OR byte x) AND 0x5f) AND 0x1f) n = bit (byte x) n"
      using low [of n] by (cases b; cases "n < 5") (simp_all add: bit_simps bytes_simps d)
  qed
  show "unat ((((if b then 0x40 else 0) OR byte x) AND 0x5f) AND 0x1f) = x"
    unfolding e using assms by simp
  show "bit (((if b then 0x40 else 0) OR byte x) AND 0x5f) 6 = b"
    using low [of 6] by (cases b) (simp_all add: bit_simps d)
qed

lemma cc_bits:
  fixes cc :: u8
  assumes "unat cc < 16"
  shows "unat (((if b then 0x30 else 0x10) OR cc) AND 0x0f) = unat cc"
    "bit ((if b then 0x30 else 0x10) OR cc) 5 = b"
proof -
  have low: "\<not> bit cc n" if "4 \<le> n" for n
  proof -
    have "unat (take_bit 4 cc) = unat cc" unfolding unat_take_bit_u8 using assms by simp
    then have "cc = take_bit 4 cc" by (simp only: word_unat_eq_iff)
    then show ?thesis using that by (metis bit_take_bit_iff not_le)
  qed
  have d: "bit (0x30 :: int) n \<longleftrightarrow> n = 4 \<or> n = 5" "bit (0x10 :: int) n \<longleftrightarrow> n = 4" for n
  proof -
    have m: "(0x30 :: int) = 2 ^ 4 OR 2 ^ 5" "(0x10 :: int) = 2 ^ 4" by simp_all
    show "bit (0x30 :: int) n \<longleftrightarrow> n = 4 \<or> n = 5" "bit (0x10 :: int) n \<longleftrightarrow> n = 4"
      unfolding m bit_or_iff bit_exp_iff by (auto simp: possible_bit_def)
  qed
  have "((if b then 0x30 else 0x10) OR cc) AND 0x0f = cc"
  proof (rule bit_word_eqI)
    fix n
    show "bit (((if b then 0x30 else 0x10) OR cc) AND 0x0f) n = bit cc n"
      using low [of n] by (cases b; cases "n < 4") (simp_all add: bit_simps bytes_simps d)
  qed
  then show "unat (((if b then 0x30 else 0x10) OR cc) AND 0x0f) = unat cc" by simp
  show "bit ((if b then 0x30 else 0x10) OR cc) 5 = b" using low [of 5]
    by (cases b) (simp_all add: bit_simps d)
qed

lemma ts_packet_fields:
  assumes "pid < 8192" "unat cc < 16" "ts_packet pid start first pcr cc rest = (p, n)"
  shows "ts_valid p \<and> ts_pid p = pid \<and> ts_cc p = unat cc \<and> ts_start p = (first \<and> start) \<and>
    ts_payload p = take n rest"
proof -
  let ?pcr = "first \<and> pcr \<noteq> None"
  define base where "base = (if ?pcr then 176 else 184 :: nat)"
  define ad where "ad = (?pcr \<or> n < base)"
  define p0 where "p0 = (replicate 188 0xff :: bytes)
      [0 := 0x47, 1 := ((if first \<and> start then 0x40 else 0) OR byte (pid div 2 ^ 8)) AND 0x5f,
       2 := byte pid, 3 := (if ad then 0x30 else 0x10) OR cc]"
  define p1 where "p1 = (let packet = p0[4 := byte (184 - n - 1), 5 := if ?pcr then 0x10 else 0]
      in case pcr of None \<Rightarrow> packet | Some b \<Rightarrow> if ?pcr then put packet 6 (write_pcr b) else packet)"
  have n: "n = min (length rest) base"
    using ts_packet_len [of pid start first pcr cc rest] assms(3) by (simp add: base_def)
  define po where "po = (if ad then 4 + (184 - n) else 4)"
  have p: "p = put (if ad then p1 else p0) po (take n rest)"
    using assms(3) unfolding ts_packet_def Let_def
    by (auto simp: p0_def p1_def po_def ad_def base_def n Let_def split: if_splits option.splits)
  have bn: "n \<le> base" "base \<le> 184" "n \<le> length rest" using n by (simp_all add: base_def)
  have adn: "ad \<Longrightarrow> n < 184" using bn by (auto simp: ad_def base_def split: if_splits)
  have nad: "\<not> ad \<Longrightarrow> n = 184" using bn by (auto simp: ad_def base_def)
  have po: "po + n = 188" "4 \<le> po" "ad \<Longrightarrow> 5 \<le> po" using adn nad by (auto simp: po_def)
  have l0: "length p0 = 188" by (simp add: p0_def)
  have l1: "length p1 = 188"
    by (auto simp: p1_def l0 length_put Let_def split: option.splits)
  have q: "(if ad then p1 else p0) ! i = p0 ! i" if "i < 4" for i
    using that l0 by (auto simp: p1_def Let_def put_nth_before split: option.splits)
  have pi: "p ! i = p0 ! i" if "i < 4" for i
    using q [OF that] that po(2) l0 l1 po(1) unfolding p by (subst put_nth_before) auto
  have b: "pid div 2 ^ 8 < 32" using assms(1) by simp
  have p0i: "p0 ! 0 = 0x47" "p0 ! 1 = ((if first \<and> start then 0x40 else 0) OR byte (pid div 2 ^ 8)) AND 0x5f"
    "p0 ! 2 = byte pid" "p0 ! 3 = (if ad then 0x30 else 0x10) OR cc"
    by (simp_all add: p0_def)
  have len: "length p = 188"
    using l0 l1 po(1) bn(3) unfolding p by (subst length_put) auto
  have dr: "drop po p = take n rest"
    using l0 l1 po(1) bn(3) unfolding p by (subst put_to_end) auto
  have p4: "p ! 4 = byte (184 - n - 1)" if ad
  proof -
    have "p1 ! 4 = byte (184 - n - 1)"
      using l0 by (auto simp: p1_def Let_def put_nth_before split: option.splits)
    then show ?thesis using that po(3) [OF that] l1 po(1) unfolding p by (subst put_nth_before) auto
  qed
  have pay: "ts_payload p = take n rest"
  proof (cases ad)
    case True
    then have "5 + unat (p ! 4) = po" using p4 adn by (simp add: po_def)
    then show ?thesis
      using True dr cc_bits(2) [OF assms(2), of ad] pi [of 3] p0i(4)
      by (simp add: ts_payload_def ts_has_adaptation_def)
  next
    case False
    then show ?thesis
      using dr cc_bits(2) [OF assms(2), of ad] pi [of 3] p0i(4)
      by (simp add: ts_payload_def ts_has_adaptation_def po_def)
  qed
  have "p ! 1 = p0 ! 1" "p ! 2 = p0 ! 2" by (rule pi; simp)+
  then have "ts_pid p = pid"
    unfolding ts_pid_def p0i(2,3) by (simp only: pid_bits(1) [OF b]) simp
  moreover have "ts_start p = (first \<and> start)"
    using pid_bits(2) [OF b] pi [of 1] p0i unfolding ts_start_def by simp
  moreover have "ts_cc p = unat cc"
    using cc_bits(1) [OF assms(2), of ad] pi [of 3] p0i(4) unfolding ts_cc_def by simp
  ultimately show ?thesis using len pay pi [of 0] p0i(1) by (simp add: ts_valid_def)
qed

section \<open>What one write leaves in the stream\<close>

lemma unat_and_15: "unat (x AND 0x0f) = unat (x :: u8) mod 16"
proof -
  have "x AND 0x0f = take_bit 4 x" by (rule bit_word_eqI) (auto simp: bit_simps bytes_simps)
  then show ?thesis using unat_take_bit_u8 [of 4 x] by (simp only:) simp
qed

lemma unat_inc_15: "unat ((x + 1) AND 0x0f) = (unat (x :: u8) + 1) mod 16"
proof -
  have "unat (x + 1) = (unat x + 1) mod 256" by (simp add: unat_word_ariths)
  then show ?thesis unfolding unat_and_15 by (simp add: mod_mod_cancel)
qed

definition counter :: "ts_muxer \<Rightarrow> nat \<Rightarrow> nat" where
  "counter m pid = unat (tm_continuity m pid) mod 16"

definition packets_of :: "nat \<Rightarrow> nat \<Rightarrow> bytes list \<Rightarrow> bool" where
  "packets_of pid c ps \<longleftrightarrow>
     (\<forall>p \<in> set ps. ts_valid p \<and> ts_pid p = pid) \<and> map ts_cc ps = map (\<lambda>i. (c + i) mod 16) [0..<length ps]"

lemma packets_of_Nil [simp]: "packets_of pid c []"
  by (simp add: packets_of_def)

lemma packets_of_Cons:
  "packets_of pid c (p # ps) \<longleftrightarrow>
     ts_valid p \<and> ts_pid p = pid \<and> ts_cc p = c mod 16 \<and> packets_of pid (Suc c) ps"
proof -
  have "map (\<lambda>i. (c + i) mod 16) [0..<Suc n] = c mod 16 # map (\<lambda>i. (Suc c + i) mod 16) [0..<n]" for n
    by (simp add: upt_conv_Cons del: upt_Suc flip: map_Suc_upt)
  then show ?thesis by (auto simp: packets_of_def simp del: upt_Suc)
qed

lemma packets_of_mod: "packets_of pid (c mod 16) ps = packets_of pid c ps"
  by (simp add: packets_of_def mod_add_left_eq)

lemma packets_of_concat_Nil: "packets_of pid c ps \<Longrightarrow> concat ps = [] \<Longrightarrow> ps = []"
  by (cases ps) (auto simp: packets_of_Cons ts_valid_def)

lemma ts_loop_done: "length payload \<le> offset \<Longrightarrow> ts_loop pid start pcr payload offset False m = m"
  unfolding ts_loop.simps [of pid start pcr payload offset False m] by simp

lemma ts_loop_spec:
  assumes "pid < 8192" "offset \<le> length payload"
  shows "\<exists>ps. tm_out (ts_loop pid start pcr payload offset first m) = tm_out m @ concat ps \<and>
    packets_of pid (counter m pid) ps \<and> concat (map ts_payload ps) = drop offset payload \<and>
    (\<forall>q. counter (ts_loop pid start pcr payload offset first m) q =
        (if q = pid then (counter m pid + length ps) mod 16 else counter m q)) \<and>
    map ts_start ps = map (\<lambda>i. i = 0 \<and> first \<and> start) [0..<length ps] \<and>
    (ps = [] \<longrightarrow> offset = length payload) \<and> (length ps - 1) * 176 \<le> length payload - offset - 1 \<and>
    tm_video_stream_type (ts_loop pid start pcr payload offset first m) = tm_video_stream_type m \<and>
    tm_audio_stream_type (ts_loop pid start pcr payload offset first m) = tm_audio_stream_type m"
  using assms
proof (induction pid start pcr payload offset first m rule: ts_loop.induct)
  case (1 pid start pcr payload offset first m)
  let ?c = "offset < length payload \<or> (payload = [] \<and> first)"
  show ?case
  proof (cases ?c)
    case False
    then have o: "offset = length payload" using "1.prems" by auto
    have m: "ts_loop pid start pcr payload offset first m = m"
      using False unfolding ts_loop.simps [of pid start pcr payload offset first m] by (rule if_not_P)
    show ?thesis unfolding m using o by (intro exI [of _ "[]"]) (simp add: counter_def)
  next
    case True
    define cc where "cc = tm_continuity m pid AND 0x0f"
    obtain p n where pn: "ts_packet pid start first pcr cc (drop offset payload) = (p, n)" by fastforce
    define m1 where "m1 = m\<lparr>tm_continuity := (tm_continuity m)(pid := (cc + 1) AND 0x0f), tm_out := tm_out m @ p\<rparr>"
    have cc: "unat cc = counter m pid" "unat cc < 16" by (simp_all add: cc_def counter_def unat_and_15)
    have n: "n = min (length payload - offset) (if first \<and> pcr \<noteq> None then 176 else 184)"
      using ts_packet_len [of pid start first pcr cc "drop offset payload"] pn by simp
    have unf: "ts_loop pid start pcr payload offset first m
        = ts_loop pid start pcr payload (offset + n) False m1"
      using True pn unfolding ts_loop.simps [of pid start pcr payload offset first m]
      by (simp add: cc_def [symmetric] Let_def m1_def)
    have on: "offset + n \<le> length payload" using n "1.prems"(2) by simp
    obtain qs where qs: "tm_out (ts_loop pid start pcr payload (offset + n) False m1) = tm_out m1 @ concat qs"
      "packets_of pid (counter m1 pid) qs" "concat (map ts_payload qs) = drop (offset + n) payload"
      "\<forall>q. counter (ts_loop pid start pcr payload (offset + n) False m1) q =
        (if q = pid then (counter m1 pid + length qs) mod 16 else counter m1 q)"
      "map ts_start qs = map (\<lambda>i. i = 0 \<and> False \<and> start) [0..<length qs]"
      "qs = [] \<longrightarrow> offset + n = length payload" "(length qs - 1) * 176 \<le> length payload - (offset + n) - 1"
      "tm_video_stream_type (ts_loop pid start pcr payload (offset + n) False m1) = tm_video_stream_type m1"
      "tm_audio_stream_type (ts_loop pid start pcr payload (offset + n) False m1) = tm_audio_stream_type m1"
      using "1.IH" [OF True cc_def pn [symmetric] refl, folded m1_def] on "1.prems"(1) by blast
    have f: "ts_valid p" "ts_pid p = pid" "ts_cc p = unat cc" "ts_start p = (first \<and> start)"
      "ts_payload p = take n (drop offset payload)"
      using ts_packet_fields [OF "1.prems"(1) cc(2) pn] by simp_all
    have c1: "counter m1 pid = (counter m pid + 1) mod 16"
      by (simp add: counter_def m1_def unat_inc_15 cc(1) [unfolded counter_def])
    have co: "counter m1 q = counter m q" if "q \<noteq> pid" for q using that by (simp add: counter_def m1_def)
    have "packets_of pid (counter m pid) (p # qs)"
      using qs(2) f cc packets_of_mod [of pid "Suc (counter m pid)"] unfolding c1 packets_of_Cons
      by (simp add: counter_def)
    moreover have "concat (map ts_payload (p # qs)) = drop offset payload"
      using f qs(3) by (simp add: add.commute) (metis append_take_drop_id drop_drop add.commute)
    moreover have "map ts_start (p # qs) = map (\<lambda>i. i = 0 \<and> first \<and> start) [0..<length (p # qs)]"
    proof -
      have "[0..<length (p # qs)] = 0 # map Suc [0..<length qs]" by (simp add: upt_conv_Cons map_Suc_upt del: upt_Suc)
      then show ?thesis using f(4) qs(5) by (simp add: comp_def del: upt_Suc)
    qed
    moreover have "(length (p # qs) - 1) * 176 \<le> length payload - offset - 1"
    proof (cases "qs = []")
      case False
      have n176: "176 \<le> n \<or> offset + n = length payload"
        using n "1.prems"(2) by (cases "first \<and> pcr \<noteq> None") (simp_all add: min_def split: if_splits)
      have lt: "offset + n < length payload"
      proof (rule ccontr)
        assume "\<not> offset + n < length payload"
        then have "ts_loop pid start pcr payload (offset + n) False m1 = m1" by (simp add: ts_loop_done)
        then have "concat qs = []" using qs(1) by simp
        then show False using False packets_of_concat_Nil [OF qs(2)] by simp
      qed
      then have "176 \<le> n" using n176 by auto
      moreover have "length qs * 176 = (length qs - 1) * 176 + 176"
        using False by (cases qs) simp_all
      ultimately show ?thesis using qs(7) lt by simp
    qed simp
    ultimately show ?thesis unfolding unf using qs(1,4,8,9) c1 co
      by (intro exI [of _ "p # qs"]) (auto simp: m1_def mod_simps)
  qed
qed

section \<open>Timestamps on the wire\<close>

text \<open>The 33-bit timestamp of a PES header, as ISO/IEC 13818-1 lays it out.\<close>

definition read_pts :: "bytes \<Rightarrow> nat" where
  "read_pts p = (unat (p ! 0) div 2 mod 8) * 2 ^ 30 + unat (p ! 1) * 2 ^ 22 +
     (unat (p ! 2) div 2) * 2 ^ 15 + unat (p ! 3) * 2 ^ 7 + unat (p ! 4) div 2"

lemma unat_and_7f: "unat ((x :: u8) AND 0x7f) = unat x mod 128"
proof -
  have "x AND 0x7f = take_bit 7 x" by (rule bit_word_eqI) (auto simp: bit_simps bytes_simps)
  then show ?thesis using unat_take_bit_u8 [of 7 x] by (simp only:) simp
qed

lemma unat_drop_bit_u8: "unat (drop_bit k (b :: u8)) = unat b div 2 ^ k"
  unfolding unat_drop_bit_eq by (rule drop_bit_eq_div)

lemma marked_bits: "0 < k \<Longrightarrow> k < 2 \<Longrightarrow> drop_bit k (push_bit k (x :: u8) OR 1) = take_bit 7 x"
  by (rule bit_word_eqI) (auto simp: bit_simps)

lemma unat_marked_7f: "unat (push_bit 1 ((x :: u8) AND 0x7f) OR 1) div 2 = unat x mod 128"
  using arg_cong [OF marked_bits [of 1 "x AND 0x7f"], of unat]
  unfolding unat_drop_bit_u8 unat_take_bit_u8 unat_and_7f by simp

lemma high_pts_bits:
  "0 < k \<Longrightarrow> k < 2 \<Longrightarrow> take_bit 3 (drop_bit k (push_bit 4 (p :: u8) OR push_bit k (byte 0 AND 0x07) OR 1)) = 0"
  by (rule bit_word_eqI) (auto simp: bit_simps byte_def)

lemma unat_high_pts: "unat (push_bit 4 (p :: u8) OR push_bit 1 (byte 0 AND 0x07) OR 1) div 2 mod 8 = 0"
  using arg_cong [OF high_pts_bits [of 1 p], of unat]
  unfolding unat_drop_bit_u8 unat_take_bit_u8 by simp

lemma horner_4:
  "(a :: nat) * 128 + b = c \<Longrightarrow> c * 256 + d = e \<Longrightarrow> e * 128 + f = t \<Longrightarrow>
    a * 2 ^ 22 + b * 2 ^ 15 + d * 2 ^ 7 + f = t"
  by simp

lemma split_29:
  assumes "t < 2 ^ 29"
  shows "(t div 2 ^ 22) * 2 ^ 22 + (t div 2 ^ 15 mod 128) * 2 ^ 15 + (t div 2 ^ 7 mod 256) * 2 ^ 7 + t mod 128 = (t :: nat)"
proof -
  have "t div 2 ^ 22 * 128 + t div 2 ^ 15 mod 128 = t div 2 ^ 15"
    using div_mult_mod_eq [of "t div 2 ^ 15" 128] by (simp add: div_mult2_eq [symmetric])
  moreover have "t div 2 ^ 15 * 256 + t div 2 ^ 7 mod 256 = t div 2 ^ 7"
    using div_mult_mod_eq [of "t div 2 ^ 7" 256] by (simp add: div_mult2_eq [symmetric])
  moreover have "t div 2 ^ 7 * 128 + t mod 128 = t" using div_mult_mod_eq [of t 128] by simp
  ultimately show ?thesis by (rule horner_4)
qed

lemma list_nth_4:
  "[a, b, c, d, e] ! 0 = a" "[a, b, c, d, e] ! 1 = b" "[a, b, c, d, e] ! 2 = c" "[a, b, c, d, e] ! 3 = d"
  "[a, b, c, d, e] ! 4 = e"
  by simp_all

lemma read_write_pts: "read_pts (write_pts prefix ts) = ts mod 2 ^ 29"
proof -
  define t where "t = ts mod 2 ^ 29"
  have t: "t < 2 ^ 29" by (simp add: t_def)
  have h: "t div 2 ^ 30 = 0" using t by simp
  have a: "t div 2 ^ 22 mod 256 = t div 2 ^ 22" using t by simp
  have "read_pts (write_pts prefix ts) = (t div 2 ^ 22) * 2 ^ 22 +
      (t div 2 ^ 15 mod 128) * 2 ^ 15 + (t div 2 ^ 7 mod 256) * 2 ^ 7 + t mod 128"
    unfolding write_pts_def read_pts_def Let_def t_def [symmetric] h list_nth_4 unat_marked_7f unat_high_pts
    using a by (simp add: mod_mod_cancel)
  then show ?thesis using split_29 [OF t] by (simp add: t_def)
qed

text \<open>C37: a written timestamp is read back modulo \<open>2 ^ 29\<close>, not modulo \<open>2 ^ 33\<close>: the mask of
  \<open>write_pts\<close> keeps 29 bits, so presentation times wrap after about 1 hour 39 minutes.\<close>

theorem pts_wraps_at_29_bits: "read_pts (write_pts prefix ts) = ts mod 2 ^ 29"
  by (rule read_write_pts)

section \<open>Tables and their checksum\<close>

lemma crc_step_low: "\<not> bit x 31 \<Longrightarrow> crc_step x = push_bit 1 (x :: 32 word)"
proof -
  assume a: "\<not> bit x 31"
  have "bit (0x80000000 :: int) n \<longleftrightarrow> n = 31" for n
  proof -
    have m: "(0x80000000 :: int) = 2 ^ 31" by simp
    show ?thesis unfolding m bit_exp_iff by (auto simp: possible_bit_def)
  qed
  then have "x AND 0x80000000 = 0" using a by (intro bit_word_eqI) (auto simp: bit_simps)
  then show ?thesis by (simp add: crc_step_def)
qed

lemma crc_steps_low:
  "\<forall>i < n. \<not> bit x (31 - i) \<Longrightarrow> n \<le> 31 \<Longrightarrow> (crc_step ^^ n) x = push_bit n (x :: 32 word)"
proof (induction n)
  case (Suc n)
  then have "(crc_step ^^ n) x = push_bit n x" by simp
  moreover have "\<not> bit (push_bit n x) 31" using Suc.prems by (simp add: bit_simps)
  ultimately show ?case by (simp add: crc_step_low push_bit_push_bit)
qed simp

lemma crc_byte_own:
  assumes "\<forall>i < 8. bit c (i + 24) = bit b i"
  shows "crc_byte b c = push_bit 8 c"
proof -
  let ?x = "c XOR push_bit 24 (ucast b)"
  have "\<not> bit ?x (31 - i)" if "i < 8" for i
  proof -
    have i: "7 - i < 8" "31 - i < 32" "31 - i - 24 = 7 - i" "24 \<le> 31 - i" "7 - i + 24 = 31 - i"
      using that by auto
    then show ?thesis using assms [rule_format, OF i(1)] by (simp add: bit_simps)
  qed
  then have "crc_byte b c = push_bit 8 ?x" unfolding crc_byte_def by (intro crc_steps_low) auto
  also have "\<dots> = push_bit 8 c"
    by (rule bit_word_eqI) (auto simp: bit_simps)
  finally show ?thesis .
qed

lemma bit_byte: "bit (byte n) i \<longleftrightarrow> i < 8 \<and> bit n i"
  by (simp add: byte_def bit_simps)

text \<open>every program table carries a checksum that verifies: run over the section and its
  appended CRC, the checksum register ends at zero.\<close>

theorem psi_crc_verifies: "crc32_mpeg (append_crc32 section) = 0"
proof -
  define c where "c = crc32_mpeg section"
  have bits: "bit (unat c div 2 ^ k) i \<longleftrightarrow> bit c (i + k)" for k i
    unfolding drop_bit_eq_div [symmetric] by (simp add: bit_simps ac_simps)
  have b: "be_u32 (unat c) = [byte (unat c div 2 ^ 24), byte (unat c div 2 ^ 16), byte (unat c div 2 ^ 8), byte (unat c)]"
    by (simp add: be_u32_def)
  have s1: "crc_byte (byte (unat c div 2 ^ 24)) c = push_bit 8 c"
    by (rule crc_byte_own) (unfold bit_byte bits, simp)
  have s2: "crc_byte (byte (unat c div 2 ^ 16)) (push_bit 8 c) = push_bit 16 c"
    by (subst crc_byte_own) (unfold bit_byte bits, auto simp: bit_simps push_bit_push_bit add.commute)
  have s3: "crc_byte (byte (unat c div 2 ^ 8)) (push_bit 16 c) = push_bit 24 c"
    by (subst crc_byte_own) (unfold bit_byte bits, auto simp: bit_simps push_bit_push_bit add.commute)
  have s4: "crc_byte (byte (unat c)) (push_bit 24 c) = push_bit 32 c"
    using bits [of 0] by (subst crc_byte_own) (auto simp: bit_byte bit_simps push_bit_push_bit)
  have "crc32_mpeg (append_crc32 section) = fold crc_byte (be_u32 (unat c)) c"
    by (simp add: append_crc32_def crc32_mpeg_def c_def)
  also have "\<dots> = push_bit 32 c" unfolding b by (simp only: fold_simps s1 s2 s3 s4)
  also have "\<dots> = 0" by (rule bit_word_eqI) (simp add: bit_simps)
  finally show ?thesis .
qed

text \<open>The \<open>section_length\<close> field of a table, and the number of bytes that follow it.\<close>

definition section_length :: "bytes \<Rightarrow> nat" where
  "section_length s = unat (s ! 1 AND 0x0f) * 256 + unat (s ! 2)"

lemma pat_section_length: "section_length pat_section = length pat_section - 3"
  by (simp add: section_length_def pat_section_def append_crc32_def unat_and_15 byte_def)

text \<open>the program map table announces two bytes more than it has after its length field,
  for every pair of stream types.\<close>

theorem pmt_section_length_overshoots:
  "section_length (pmt_section v a) = (length (pmt_section v a) - 3) + 2"
  by (simp add: section_length_def pmt_section_def append_crc32_def pmt_audio_descriptors_def
      registration_descriptor_def unat_and_15 nth_append Let_def byte_def)

section \<open>The timestamp sanitizer\<close>

fun sanitize_all :: "output_timestamp_sanitizer \<Rightarrow> (bool \<times> nat \<times> nat) list \<Rightarrow> (bool \<times> nat \<times> nat) list" where
  "sanitize_all s [] = []"
| "sanitize_all s ((v, pts, dts) # xs) =
     (case sanitize s v pts dts of (s', pts', dts') \<Rightarrow> (v, pts', dts') # sanitize_all s' xs)"

definition last_dts90 :: "output_timestamp_sanitizer \<Rightarrow> bool \<Rightarrow> nat option" where
  "last_dts90 s v = (if v then last_video_dts90 s else last_audio_dts90 s)"

definition stream_dts :: "bool \<Rightarrow> (bool \<times> nat \<times> nat) list \<Rightarrow> nat list" where
  "stream_dts v xs = map (\<lambda>x. snd (snd x)) (filter (\<lambda>x. fst x = v) xs)"

lemma stream_dts_simps [simp]:
  "stream_dts v [] = []"
  "stream_dts v ((w, pts, dts) # xs) = (if w = v then dts # stream_dts v xs else stream_dts v xs)"
  by (simp_all add: stream_dts_def)

lemma sanitize_spec:
  assumes "sanitize s v pts dts = (s', pts', dts')" "dts \<le> B" "B < 2 ^ 64 - 1"
    "\<forall>w. \<forall>l. last_dts90 s w = Some l \<longrightarrow> l \<le> B"
  shows "dts \<le> dts' \<and> dts' \<le> pts' \<and> pts \<le> pts' \<and> dts' \<le> B + 1 \<and>
    (\<forall>l. last_dts90 s v = Some l \<longrightarrow> l < dts') \<and> last_dts90 s' v = Some dts' \<and>
    last_dts90 s' (\<not> v) = last_dts90 s (\<not> v)"
proof (cases "last_dts90 s v")
  case None
  then show ?thesis using assms(1,2) by (auto simp: sanitize_def last_dts90_def Let_def)
next
  case (Some l)
  then have "l \<le> B" using assms(4) by blast
  then have "sat_add 64 l 1 = l + 1" using assms(3) by (intro sat_add_exact) simp
  then show ?thesis using assms(1,2) Some \<open>l \<le> B\<close>
    by (auto simp: sanitize_def last_dts90_def Let_def)
qed

lemma sanitize_all_sorted:
  assumes "\<forall>x \<in> set xs. snd (snd x) \<le> B" "B + length xs < 2 ^ 64"
    "\<forall>w. \<forall>l. last_dts90 s w = Some l \<longrightarrow> l \<le> B"
  shows "sorted_wrt (<) (stream_dts v (sanitize_all s xs)) \<and>
    (\<forall>d \<in> set (stream_dts v (sanitize_all s xs)). \<forall>l. last_dts90 s v = Some l \<longrightarrow> l < d) \<and>
    list_all2 (\<lambda>x y. fst y = fst x \<and> snd (snd x) \<le> snd (snd y) \<and> snd (snd y) \<le> fst (snd y) \<and>
      fst (snd x) \<le> fst (snd y)) xs (sanitize_all s xs)"
  using assms
proof (induction s xs arbitrary: B rule: sanitize_all.induct)
  case (2 s w pts dts xs)
  obtain s' pts' dts' where e: "sanitize s w pts dts = (s', pts', dts')" by (cases "sanitize s w pts dts") auto
  note sp = sanitize_spec [OF e, of B]
  have sp': "dts \<le> dts' \<and> dts' \<le> pts' \<and> pts \<le> pts' \<and> dts' \<le> B + 1 \<and>
    (\<forall>l. last_dts90 s w = Some l \<longrightarrow> l < dts') \<and> last_dts90 s' w = Some dts' \<and>
    last_dts90 s' (\<not> w) = last_dts90 s (\<not> w)"
    using "2.prems" by (intro sp) auto
  have b': "\<forall>w. \<forall>l. last_dts90 s' w = Some l \<longrightarrow> l \<le> B + 1"
  proof (intro allI impI)
    fix u l assume "last_dts90 s' u = Some l"
    then show "l \<le> B + 1"
    proof (cases "u = w")
      case False
      then have "u = (\<not> w)" by auto
      then have "last_dts90 s u = Some l" using \<open>last_dts90 s' u = Some l\<close> sp' by simp
      then have "l \<le> B" using "2.prems"(3) by blast
      then show ?thesis by simp
    qed (use sp' in simp)
  qed
  have "sorted_wrt (<) (stream_dts v (sanitize_all s' xs)) \<and>
    (\<forall>d \<in> set (stream_dts v (sanitize_all s' xs)). \<forall>l. last_dts90 s' v = Some l \<longrightarrow> l < d) \<and>
    list_all2 (\<lambda>x y. fst y = fst x \<and> snd (snd x) \<le> snd (snd y) \<and> snd (snd y) \<le> fst (snd y) \<and>
      fst (snd x) \<le> fst (snd y)) xs (sanitize_all s' xs)"
    using "2.IH" [OF e [symmetric] refl, of "B + 1"] "2.prems" b' by (auto simp: le_Suc_eq)
  then show ?case using e sp'
    by (cases "w = v") (auto simp: stream_dts_def intro: less_trans)
qed simp

text \<open>C38: whatever decode times the container gives, the sanitizer hands each stream strictly
  increasing decode times, never earlier than the container's, and no packet is presented
  before it is decoded.\<close>

theorem sanitizer_monotone:
  assumes "\<forall>x \<in> set xs. snd (snd x) + length xs < 2 ^ 64"
  shows "sorted_wrt (<) (stream_dts v (sanitize_all sanitizer_default xs)) \<and>
    list_all2 (\<lambda>x y. fst y = fst x \<and> snd (snd x) \<le> snd (snd y) \<and> snd (snd y) \<le> fst (snd y) \<and>
      fst (snd x) \<le> fst (snd y)) xs (sanitize_all sanitizer_default xs)"
proof (cases "xs = []")
  case False
  define B where "B = Max ((\<lambda>x. snd (snd x)) ` set xs)"
  have "B \<in> (\<lambda>x. snd (snd x)) ` set xs" unfolding B_def using False by (intro Max_in) auto
  then have "B + length xs < 2 ^ 64" using assms by auto
  moreover have "\<forall>x \<in> set xs. snd (snd x) \<le> B" by (simp add: B_def)
  ultimately show ?thesis
    using sanitize_all_sorted [of xs B sanitizer_default v] by (simp add: sanitizer_default_def last_dts90_def)
qed simp

theorem sanitizer_monotone_witness:
  "sorted_wrt (<) (stream_dts True (sanitize_all sanitizer_default [(True, 9, 7), (False, 0, 7), (True, 5, 7)])) \<and>
   list_all2 (\<lambda>x y. fst y = fst x \<and> snd (snd x) \<le> snd (snd y) \<and> snd (snd y) \<le> fst (snd y) \<and>
      fst (snd x) \<le> fst (snd y)) [(True, 9, 7), (False, 0, 7), (True, 5, 7)]
     (sanitize_all sanitizer_default [(True, 9, 7), (False, 0, 7), (True, 5, 7)])"
  by (rule sanitizer_monotone) simp

section \<open>Length prefixes that look like start codes\<close>

lemma be_bytes_4: "be_bytes 4 v = [byte (v div 16777216), byte (v div 65536), byte (v div 256), byte v]"
proof -
  have four: "4 = Suc (Suc (Suc (Suc 0)))" by simp
  show ?thesis unfolding four be_bytes.simps by simp
qed

text \<open>an AVC sample with four-byte length prefixes whose first NAL unit has 256 to 511 bytes
  begins with 00 00 01, is taken for an Annex B stream and is passed on unconverted.\<close>

theorem length_prefix_taken_for_start_code:
  assumes "256 \<le> length n" "length n < 512"
  shows "h264_sample_to_annex_b (concat (map (prefixed 4) (n # ns))) 4
      = Inr (concat (map (prefixed 4) (n # ns))) \<and>
    concat (map (prefixed 4) (n # ns)) \<noteq> annex_b (n # ns)"
proof -
  have p: "be_bytes 4 (length n) = [0, 0, 1, byte (length n)]"
  proof -
    have d: "length n div 256 = 1" "length n div 65536 = 0" "length n div 16777216 = 0" using assms by auto
    then show ?thesis unfolding be_bytes_4 by (simp add: byte_def)
  qed
  have s: "concat (map (prefixed 4) (n # ns)) = 0 # 0 # 1 # byte (length n) # n @ concat (map (prefixed 4) ns)"
    by (simp add: prefixed_def p)
  have "annex_b (n # ns) ! 2 = 0" by (simp add: start_code_def)
  moreover have "concat (map (prefixed 4) (n # ns)) ! 2 = 1" unfolding s by simp
  ultimately have "concat (map (prefixed 4) (n # ns)) \<noteq> annex_b (n # ns)" by (metis zero_neq_one)
  then show ?thesis unfolding s by (simp add: h264_sample_to_annex_b_def looks_like_annex_b_def)
qed

theorem length_prefix_taken_for_start_code_witness:
  "h264_sample_to_annex_b (concat (map (prefixed 4) [replicate 300 0x65])) 4
      = Inr (concat (map (prefixed 4) [replicate 300 0x65])) \<and>
    concat (map (prefixed 4) [replicate 300 0x65]) \<noteq> annex_b [replicate 300 0x65]"
  by (rule length_prefix_taken_for_start_code) simp_all

end
