(* ===== verification/HlsWindows.thy ===== *)
theory HlsWindows
  imports TsMux
begin

text \<open>
  Segment windows of native HLS (\<open>hls/mod.rs\<close>, lines 2087 to 2242): the windows cut from a
  chunk plan or from the video packets, the collapse of short windows, target durations and
  the bandwidth estimates. The windows are shown to tile the presentation without gaps, to
  be long enough, and the byte counts per window to be exact although packets come in decode
  order.
\<close>

section \<open>Tracks and windows\<close>

text \<open>The sample entry of a track is a type parameter here; the fragment writer gives it.\<close>

record 'e hls_track =
  ht_id :: string
  ht_codec_string :: string
  ht_timescale :: nat
  ht_packets :: "packet_ref list"
  ht_payload :: payload_kind
  ht_fmp4_sample_entry :: "'e option"

record 'e hls_track_set =
  hts_video :: "'e hls_track"
  hts_audio :: "'e hls_track"

record segment_window =
  sw_index :: nat
  sw_start_ms :: nat
  sw_end_ms :: nat

definition MIN_SEGMENT_MS :: nat where "MIN_SEGMENT_MS = 1000"

fun collapse_loop :: "nat \<Rightarrow> segment_window list \<Rightarrow> segment_window list \<Rightarrow> segment_window list" where
  "collapse_loop min_ms [] out = out"
| "collapse_loop min_ms (w # ws) out =
     (if sw_end_ms w - sw_start_ms w < min_ms \<and> out \<noteq> []
      then collapse_loop min_ms ws (butlast out @ [(last out)\<lparr>sw_end_ms := sw_end_ms w\<rparr>])
      else collapse_loop min_ms ws (out @ [w]))"

definition collapse_first :: "nat \<Rightarrow> segment_window list \<Rightarrow> segment_window list" where
  "collapse_first min_ms out =
     (case out of
        first # second # rest \<Rightarrow>
          if sw_end_ms first - sw_start_ms first < min_ms
          then second\<lparr>sw_start_ms := sw_start_ms first\<rparr> # rest else out
      | _ \<Rightarrow> out)"

fun reindex :: "nat \<Rightarrow> segment_window list \<Rightarrow> segment_window list" where
  "reindex i [] = []"
| "reindex i (w # ws) = w\<lparr>sw_index := i\<rparr> # reindex (Suc i) ws"

definition collapse_short_windows :: "segment_window list \<Rightarrow> nat \<Rightarrow> segment_window list" where
  "collapse_short_windows windows min_ms =
     (if length windows \<le> 1 \<or> min_ms = 0 then windows
      else reindex 0 (collapse_first min_ms (collapse_loop min_ms windows [])))"

definition chunk_window :: "native_chunk \<Rightarrow> segment_window" where
  "chunk_window chunk =
     (let start_ms = tp_as_millis (nc_start chunk)
      in \<lparr>sw_index = nc_index chunk, sw_start_ms = start_ms,
          sw_end_ms = max (sat_add 64 start_ms (td_as_millis (nc_duration chunk))) (sat_add 64 start_ms 1)\<rparr>)"

text \<open>The loop that closes each window at the start of the next one.\<close>

fun close_windows :: "segment_window list \<Rightarrow> segment_window list" where
  "close_windows (w # v # ws) =
     w\<lparr>sw_end_ms := max (sw_start_ms v) (sat_add 64 (sw_start_ms w) 1)\<rparr> # close_windows (v # ws)"
| "close_windows ws = ws"

definition chunk_plan_windows :: "chunk_plan \<Rightarrow> segment_window list" where
  "chunk_plan_windows plan =
     collapse_short_windows (close_windows (map chunk_window (cp_chunks plan))) MIN_SEGMENT_MS"

fun segment_cuts :: "nat \<Rightarrow> packet_ref list \<Rightarrow> nat \<Rightarrow> segment_window list \<Rightarrow> nat \<times> segment_window list" where
  "segment_cuts target_ms [] start_ms windows = (start_ms, windows)"
| "segment_cuts target_ms (packet # packets) start_ms windows =
     (let packet_ms = packet_start_ms packet
      in if pr_keyframe packet \<and> target_ms \<le> packet_ms - start_ms
         then segment_cuts target_ms packets packet_ms
           (windows @ [\<lparr>sw_index = length windows, sw_start_ms = start_ms, sw_end_ms = packet_ms\<rparr>])
         else segment_cuts target_ms packets start_ms windows)"

definition segment_windows :: "packet_ref list \<Rightarrow> nat \<Rightarrow> segment_window list" where
  "segment_windows video_packets target_ms =
     (case segment_cuts target_ms (tl video_packets) (packet_start_ms (hd video_packets)) [] of
        (start_ms, windows) \<Rightarrow>
          let end_ms = max (foldl max 0 (map packet_end_ms video_packets)) (sat_add 64 start_ms 1)
          in collapse_short_windows
               (windows @ [\<lparr>sw_index = length windows, sw_start_ms = start_ms, sw_end_ms = end_ms\<rparr>])
               MIN_SEGMENT_MS)"

definition window_ms :: "segment_window \<Rightarrow> nat" where
  "window_ms w = max (sw_end_ms w - sw_start_ms w) 1"

definition target_duration_seconds_for_windows :: "segment_window list \<Rightarrow> nat" where
  "target_duration_seconds_for_windows windows =
     max (foldl max 1 (map (\<lambda>w. sat_add 64 (window_ms w) 999 div 1000) windows)) 1"

definition estimate_hls_bandwidth_from_source_size :: "nat \<Rightarrow> nat option \<Rightarrow> nat" where
  "estimate_hls_bandwidth_from_source_size source_len duration_ms =
     (case duration_ms of
        Some d \<Rightarrow>
          if 0 < d
          then let average = sat_mul 64 (sat_mul 64 source_len 8) 1000 div d
               in max (sat_add 64 average (average div 4)) 128000
          else 12000000
      | None \<Rightarrow> 12000000)"

section \<open>Bytes per window\<close>

text \<open>\<open>partition_point\<close> is a binary search; on windows whose ends increase it returns the length
  of the prefix that satisfies the predicate, which is the documented result.\<close>

definition partition_point :: "('a \<Rightarrow> bool) \<Rightarrow> 'a list \<Rightarrow> nat" where
  "partition_point P xs = length (takeWhile P xs)"

definition locate_window :: "segment_window list \<Rightarrow> nat \<Rightarrow> nat \<Rightarrow> nat" where
  "locate_window windows window_index pts =
     (case get_at windows window_index of
        Some w \<Rightarrow>
          if pts < sw_start_ms w \<or> sw_end_ms w \<le> pts
          then partition_point (\<lambda>w. sw_end_ms w \<le> pts) windows else window_index
      | None \<Rightarrow> partition_point (\<lambda>w. sw_end_ms w \<le> pts) windows)"

fun window_bytes_loop :: "segment_window list \<Rightarrow> packet_ref list \<Rightarrow> nat \<Rightarrow> nat list \<Rightarrow> nat list" where
  "window_bytes_loop windows [] window_index out = out"
| "window_bytes_loop windows (packet # packets) window_index out =
     (let pts = packet_start_ms packet;
          i = locate_window windows window_index pts
      in window_bytes_loop windows packets i
           (case get_at windows i of
              Some w \<Rightarrow> if sw_start_ms w \<le> pts then out[i := sat_add 64 (out ! i) (pr_size packet)] else out
            | None \<Rightarrow> out))"

definition track_bytes_by_window :: "'e hls_track \<Rightarrow> segment_window list \<Rightarrow> nat list" where
  "track_bytes_by_window track windows =
     (let out = replicate (length windows) 0
      in if windows = [] then out else window_bytes_loop windows (ht_packets track) 0 out)"

definition window_bitrate :: "nat list \<Rightarrow> nat list \<Rightarrow> nat \<times> segment_window \<Rightarrow> nat" where
  "window_bitrate video_bytes audio_bytes = (\<lambda>(index, window).
     let bytes = sat_add 64 (case get_at video_bytes index of Some b \<Rightarrow> b | None \<Rightarrow> 0)
                   (case get_at audio_bytes index of Some b \<Rightarrow> b | None \<Rightarrow> 0)
     in sat_mul 64 (sat_mul 64 bytes 8) 1000 div window_ms window)"

definition estimate_hls_bandwidth_bits_per_second :: "'e hls_track_set \<Rightarrow> segment_window list \<Rightarrow> nat" where
  "estimate_hls_bandwidth_bits_per_second tracks windows =
     (let video_bytes = track_bytes_by_window (hts_video tracks) windows;
          audio_bytes = track_bytes_by_window (hts_audio tracks) windows;
          peak = foldl max 0 (map (window_bitrate video_bytes audio_bytes) (enumerate 0 windows))
      in max (sat_add 64 peak (peak div 10)) 128000)"

lemma foldl_max_ge: "x \<in> insert k (set xs) \<Longrightarrow> x \<le> foldl max (k :: nat) xs"
proof (induction xs arbitrary: k x)
  case (Cons y xs)
  have "max k y \<le> foldl max (max k y) xs" by (rule Cons.IH) simp
  with Cons show ?case by fastforce
qed simp

section \<open>Windows tile the presentation\<close>

fun tiled :: "nat \<Rightarrow> segment_window list \<Rightarrow> nat \<Rightarrow> bool" where
  "tiled a [] b \<longleftrightarrow> a = b"
| "tiled a (w # ws) b \<longleftrightarrow> sw_start_ms w = a \<and> sw_start_ms w < sw_end_ms w \<and> tiled (sw_end_ms w) ws b"

lemma tiled_append: "tiled a (xs @ ys) b \<longleftrightarrow> (\<exists>m. tiled a xs m \<and> tiled m ys b)"
  by (induction a xs b rule: tiled.induct) auto

lemma tiled_le: "tiled a ws b \<Longrightarrow> a \<le> b"
  by (induction a ws b rule: tiled.induct) auto

lemma tiled_last:
  "tiled a ws b \<Longrightarrow> ws \<noteq> [] \<Longrightarrow> sw_end_ms (last ws) = b \<and> sw_start_ms (hd ws) = a \<and> a < b"
proof (induction a ws b rule: tiled.induct)
  case (2 a w ws b)
  then show ?case by (cases ws) auto
qed simp

definition long_enough :: "nat \<Rightarrow> segment_window \<Rightarrow> bool" where
  "long_enough m w \<longleftrightarrow> m \<le> sw_end_ms w - sw_start_ms w"

lemma collapse_loop_tiled:
  assumes "tiled a out m" "tiled m ws b" "list_all (long_enough n) (tl out)"
  shows "tiled a (collapse_loop n ws out) b \<and> list_all (long_enough n) (tl (collapse_loop n ws out)) \<and>
    (collapse_loop n ws out = [] \<longleftrightarrow> out = [] \<and> ws = [])"
  using assms
proof (induction n ws out arbitrary: m rule: collapse_loop.induct)
  case (2 n w ws out)
  have w: "sw_start_ms w = m" "m < sw_end_ms w" "tiled (sw_end_ms w) ws b" using "2.prems"(2) by auto
  show ?case
  proof (cases "sw_end_ms w - sw_start_ms w < n \<and> out \<noteq> []")
    case True
    let ?out = "butlast out @ [(last out)\<lparr>sw_end_ms := sw_end_ms w\<rparr>]"
    have o: "out = butlast out @ [last out]" using True by simp
    then obtain k where k: "tiled a (butlast out) k" "tiled k [last out] m"
      using "2.prems"(1) tiled_append [of a "butlast out" "[last out]" m] by auto
    have t: "tiled a ?out (sw_end_ms w)" using k w by (auto simp: tiled_append)
    have "list_all (long_enough n) (tl ?out)"
    proof (cases "butlast out")
      case (Cons x xs)
      then have "tl out = xs @ [last out]" by (subst o) simp
      then have "list_all (long_enough n) xs" "long_enough n (last out)" using "2.prems"(3) by auto
      moreover have "sw_end_ms (last out) \<le> sw_end_ms w" using k(2) w by simp
      ultimately show ?thesis by (simp add: Cons long_enough_def)
    qed simp
    with "2.IH"(1) [OF True t w(3)] True show ?thesis by simp
  next
    case False
    have t: "tiled a (out @ [w]) (sw_end_ms w)" using "2.prems"(1) w by (auto simp: tiled_append)
    have "list_all (long_enough n) (tl (out @ [w]))"
      using "2.prems"(3) False by (cases out) (auto simp: long_enough_def [of n w])
    moreover have "collapse_loop n (w # ws) out = collapse_loop n ws (out @ [w])"
      unfolding collapse_loop.simps by (rule if_not_P [OF False])
    ultimately show ?thesis using "2.IH"(2) [OF False t w(3)] by simp
  qed
qed auto

lemma collapse_first_tiled:
  assumes "tiled a ws b" "list_all (long_enough n) (tl ws)"
  shows "tiled a (collapse_first n ws) b \<and> (length (collapse_first n ws) \<le> 1 \<or>
    list_all (long_enough n) (collapse_first n ws)) \<and> (collapse_first n ws = [] \<longleftrightarrow> ws = [])"
  using assms by (cases ws; cases "tl ws") (auto simp: collapse_first_def long_enough_def)

lemma reindex_simps [simp]:
  "tiled a (reindex k ws) b = tiled a ws b"
  "list_all (long_enough n) (reindex k ws) = list_all (long_enough n) ws"
  "map sw_index (reindex k ws) = [k..<k + length ws]"
  "length (reindex k ws) = length ws"
  "reindex k ws = [] \<longleftrightarrow> ws = []"
proof -
  show "tiled a (reindex k ws) b = tiled a ws b" by (induction ws arbitrary: a k) auto
  show "list_all (long_enough n) (reindex k ws) = list_all (long_enough n) ws"
    by (induction ws arbitrary: k) (simp_all add: long_enough_def)
  show l: "length (reindex k ws) = length ws" for k by (induction ws arbitrary: k) simp_all
  show "map sw_index (reindex k ws) = [k..<k + length ws]"
    by (induction ws arbitrary: k) (simp_all add: upt_conv_Cons del: upt_Suc)
  show "reindex k ws = [] \<longleftrightarrow> ws = []" using l [of k] by (metis length_0_conv)
qed

lemma collapse_tiled:
  assumes "tiled a ws b" "map sw_index ws = [0..<length ws]" "0 < n"
  shows "tiled a (collapse_short_windows ws n) b \<and>
    map sw_index (collapse_short_windows ws n) = [0..<length (collapse_short_windows ws n)] \<and>
    (length (collapse_short_windows ws n) \<le> 1 \<or> list_all (long_enough n) (collapse_short_windows ws n)) \<and>
    (collapse_short_windows ws n = [] \<longleftrightarrow> ws = [])"
proof (cases "length ws \<le> 1")
  case True
  then show ?thesis using assms by (simp add: collapse_short_windows_def)
next
  case False
  have l: "tiled a (collapse_loop n ws []) b" "list_all (long_enough n) (tl (collapse_loop n ws []))"
    "collapse_loop n ws [] \<noteq> []"
    using collapse_loop_tiled [of a "[]" a ws b n] assms(1) False by auto
  show ?thesis using collapse_first_tiled [OF l(1,2)] l(3) False assms(3)
    by (auto simp: collapse_short_windows_def)
qed

lemma segment_cuts_tiled:
  assumes "tiled a ws start" "map sw_index ws = [0..<length ws]" "0 < t"
    "segment_cuts t ps start ws = (start', ws')"
  shows "tiled a ws' start' \<and> map sw_index ws' = [0..<length ws']"
  using assms
proof (induction t ps start ws rule: segment_cuts.induct)
  case (2 t p ps start ws)
  then show ?case by (auto simp: Let_def tiled_append split: if_splits)
qed simp

lemma segment_windows_tiled:
  assumes "ps \<noteq> []" "0 < target" and "\<forall>p \<in> set ps. packet_start_ms p < 2 ^ 64 - 1"
  shows "let ws = segment_windows ps target in
    ws \<noteq> [] \<and> tiled (packet_start_ms (hd ps)) ws (sw_end_ms (last ws)) \<and>
    map sw_index ws = [0..<length ws] \<and>
    (length ws \<le> 1 \<or> list_all (long_enough MIN_SEGMENT_MS) ws) \<and>
    list_all (\<lambda>p. packet_end_ms p \<le> sw_end_ms (last ws)) ps"
proof -
  obtain s ws where c: "segment_cuts target (tl ps) (packet_start_ms (hd ps)) [] = (s, ws)"
    by fastforce
  have t: "tiled (packet_start_ms (hd ps)) ws s" "map sw_index ws = [0..<length ws]"
    using segment_cuts_tiled [OF _ _ assms(2) c, of "packet_start_ms (hd ps)"] by simp_all
  have sin: "s \<in> packet_start_ms ` set ps"
  proof -
    have "segment_cuts t qs st vs = (s, us) \<Longrightarrow> s = st \<or> s \<in> packet_start_ms ` set qs" for t qs st vs us
      by (induction t qs st vs rule: segment_cuts.induct) (auto simp: Let_def split: if_splits)
    from this [OF c] show ?thesis using assms(1) by (cases ps) auto
  qed
  define e where "e = max (foldl max 0 (map packet_end_ms ps)) (sat_add 64 s 1)"
  have "s < 2 ^ 64 - 1" using sin assms(3) by auto
  then have "s < e" unfolding e_def by (simp add: sat_add_exact less_max_iff_disj)
  have pe: "packet_end_ms p \<le> e" if "p \<in> set ps" for p
    using that unfolding e_def by (intro max.coboundedI1 foldl_max_ge) auto
  let ?ws = "ws @ [\<lparr>sw_index = length ws, sw_start_ms = s, sw_end_ms = e\<rparr>]"
  have w: "tiled (packet_start_ms (hd ps)) ?ws e" "map sw_index ?ws = [0..<length ?ws]"
    using t \<open>s < e\<close> by (auto simp: tiled_append)
  define vs where "vs = collapse_short_windows ?ws MIN_SEGMENT_MS"
  have v: "tiled (packet_start_ms (hd ps)) vs e" "map sw_index vs = [0..<length vs]" "vs \<noteq> []"
    "length vs \<le> 1 \<or> list_all (long_enough MIN_SEGMENT_MS) vs"
    using collapse_tiled [OF w, of MIN_SEGMENT_MS] by (simp_all add: vs_def MIN_SEGMENT_MS_def)
  have sw: "segment_windows ps target = vs"
    by (simp add: segment_windows_def c Let_def vs_def e_def)
  have "sw_end_ms (last vs) = e" using tiled_last [OF v(1,3)] by simp
  then show ?thesis using v pe unfolding sw by (simp add: Let_def list_all_iff)
qed

text \<open>C35: The segment windows of a video track tile its presentation: the first starts at the first
  packet, each starts where the one before it ends, they are numbered from 0, none is empty,
  and unless only one is left each lasts at least a second. The last reaches the latest end
  of a packet.\<close>

theorem segment_windows_tile:
  assumes "ps \<noteq> []" "0 < target" and "\<forall>p \<in> set ps. packet_start_ms p < 2 ^ 64 - 1"
  shows "let ws = segment_windows ps target in
    ws \<noteq> [] \<and> tiled (packet_start_ms (hd ps)) ws (sw_end_ms (last ws)) \<and>
    map sw_index ws = [0..<length ws] \<and>
    (length ws \<le> 1 \<or> list_all (long_enough MIN_SEGMENT_MS) ws) \<and>
    list_all (\<lambda>p. packet_end_ms p \<le> sw_end_ms (last ws)) ps"
  using segment_windows_tiled [OF assms] .

theorem segment_windows_tile_witness:
  "let ws = segment_windows demo_packets 50 in ws \<noteq> [] \<and> tiled 0 ws (sw_end_ms (last ws))"
  using segment_windows_tile [of demo_packets 50]
  by (simp add: demo_packets_def demo_packet_def packet_start_ms_def tp_as_millis_def time_point_millis_def Let_def)

text \<open>The target duration of a playlist, in whole seconds, is at least one and bounds every
  segment's duration, as the playlist format demands.\<close>

theorem target_duration_bounds_segments:
  assumes "\<forall>w \<in> set windows. sw_end_ms w < 2 ^ 63"
  shows "1 \<le> target_duration_seconds_for_windows windows \<and>
    list_all (\<lambda>w. window_ms w \<le> 1000 * target_duration_seconds_for_windows windows) windows"
proof -
  let ?f = "\<lambda>w. sat_add 64 (window_ms w) 999 div 1000"
  have "window_ms w \<le> 1000 * target_duration_seconds_for_windows windows" if w: "w \<in> set windows" for w
  proof -
    have "sw_end_ms w < 2 ^ 63" using assms w by blast
    then have "window_ms w < 2 ^ 63 + 1" unfolding window_ms_def by simp
    then have e: "sat_add 64 (window_ms w) 999 = window_ms w + 999" by (intro sat_add_exact) simp
    have "?f w \<le> foldl max 1 (map ?f windows)" using w by (intro foldl_max_ge) auto
    then have "?f w \<le> target_duration_seconds_for_windows windows"
      by (simp add: target_duration_seconds_for_windows_def)
    moreover have "window_ms w \<le> 1000 * ?f w" unfolding e
      using div_mult_mod_eq [of "window_ms w + 999" 1000] mod_less_divisor [of 1000 "window_ms w + 999"] by linarith
    ultimately show ?thesis by linarith
  qed
  then show ?thesis by (simp add: list_all_iff target_duration_seconds_for_windows_def)
qed

theorem target_duration_bounds_segments_witness:
  "list_all (\<lambda>w. window_ms w \<le> 1000 * target_duration_seconds_for_windows
      [\<lparr>sw_index = 0, sw_start_ms = 0, sw_end_ms = 4001\<rparr>]) [\<lparr>sw_index = 0, sw_start_ms = 0, sw_end_ms = 4001\<rparr>]"
  using target_duration_bounds_segments [of "[\<lparr>sw_index = 0, sw_start_ms = 0, sw_end_ms = 4001\<rparr>]"] by simp

section \<open>Exact byte counts\<close>

definition in_window :: "segment_window \<Rightarrow> packet_ref \<Rightarrow> bool" where
  "in_window w p \<longleftrightarrow> sw_start_ms w \<le> packet_start_ms p \<and> packet_start_ms p < sw_end_ms w"

lemma tiled_takeWhile:
  assumes "tiled a ws b" "i = length (takeWhile (\<lambda>w. sw_end_ms w \<le> t) ws)" "k < length ws"
  shows "(sw_start_ms (ws ! k) \<le> t \<and> t < sw_end_ms (ws ! k)) \<longleftrightarrow> (i = k \<and> sw_start_ms (ws ! k) \<le> t)"
  using assms
proof (induction a ws b arbitrary: i k rule: tiled.induct)
  case (2 a w ws b)
  have later: "sw_end_ms w \<le> sw_start_ms (ws ! j)" if "j < length ws" for j
    using "2.prems"(1) that
  proof -
    have "tiled c vs b \<Longrightarrow> j < length vs \<Longrightarrow> c \<le> sw_start_ms (vs ! j)" for c vs
      by (induction c vs b arbitrary: j rule: tiled.induct) (fastforce simp: nth_Cons split: nat.splits)+
    then show ?thesis using "2.prems"(1) that by simp
  qed
  show ?case
  proof (cases "sw_end_ms w \<le> t")
    case True
    show ?thesis
    proof (cases k)
      case (Suc j)
      then show ?thesis using "2.IH" [of "length (takeWhile (\<lambda>w. sw_end_ms w \<le> t) ws)" j] "2.prems" True by auto
    qed (use True "2.prems" in auto)
  next
    case False
    then show ?thesis
    proof (cases k)
      case (Suc j)
      then show ?thesis using later [of j] "2.prems" False by auto
    qed (use False "2.prems" in auto)
  qed
qed simp

lemma tiled_unique:
  assumes "tiled a ws b" "i < length ws" "k < length ws" "in_window (ws ! i) p" "in_window (ws ! k) p"
  shows "i = k"
  using tiled_takeWhile [OF assms(1) refl assms(2), of "packet_start_ms p"]
    tiled_takeWhile [OF assms(1) refl assms(3), of "packet_start_ms p"] assms(4,5)
  by (simp add: in_window_def)

lemma locate_window_tiled:
  assumes "tiled a ws b" "k < length ws" "i = locate_window ws j (packet_start_ms p)"
  shows "in_window (ws ! k) p \<longleftrightarrow> i = k \<and> sw_start_ms (ws ! k) \<le> packet_start_ms p"
proof (cases "j < length ws \<and> in_window (ws ! j) p")
  case True
  then have i: "i = j" using assms(3) by (simp add: locate_window_def in_window_def get_at_def)
  show ?thesis
  proof
    assume "in_window (ws ! k) p"
    then show "i = k \<and> sw_start_ms (ws ! k) \<le> packet_start_ms p"
      using tiled_unique [OF assms(1) _ assms(2), of j p] True i by (simp add: in_window_def)
  qed (use True i in auto)
next
  case False
  then have "i = length (takeWhile (\<lambda>w. sw_end_ms w \<le> packet_start_ms p) ws)"
    using assms(3) by (auto simp: locate_window_def in_window_def partition_point_def get_at_def split: option.splits)
  from tiled_takeWhile [OF assms(1) this assms(2)] show ?thesis by (simp add: in_window_def)
qed

lemma window_bytes_loop_exact:
  assumes "tiled a ws b" "length out = length ws" "k < length ws"
    "out ! k + sum_list (map pr_size ps) < 2 ^ 64"
  shows "window_bytes_loop ws ps j out ! k =
    out ! k + sum_list (map pr_size (filter (in_window (ws ! k)) ps))"
  using assms(2,4)
proof (induction ps arbitrary: j out)
  case (Cons p ps)
  let ?i = "locate_window ws j (packet_start_ms p)"
  define out' where "out' = (case get_at ws ?i of
      Some w \<Rightarrow> if sw_start_ms w \<le> packet_start_ms p then out[?i := sat_add 64 (out ! ?i) (pr_size p)] else out
    | None \<Rightarrow> out)"
  have l: "length out' = length ws" using Cons.prems(1) by (simp add: out'_def split: option.splits)
  have o: "out' ! k = out ! k + (if in_window (ws ! k) p then pr_size p else 0)"
  proof (cases "in_window (ws ! k) p")
    case True
    then have "?i = k" "sw_start_ms (ws ! k) \<le> packet_start_ms p"
      using locate_window_tiled [OF assms(1,3) refl, of p j] by simp_all
    moreover have "sat_add 64 (out ! k) (pr_size p) = out ! k + pr_size p"
      using Cons.prems(2) by (intro sat_add_exact) simp
    ultimately show ?thesis using True assms(3) Cons.prems(1) by (simp add: out'_def get_at_def)
  next
    case False
    then have "?i = k \<Longrightarrow> \<not> sw_start_ms (ws ! k) \<le> packet_start_ms p"
      using locate_window_tiled [OF assms(1,3) refl, of p j] by simp
    then show ?thesis using False
      by (cases "?i = k") (auto simp: out'_def get_at_def split: option.splits)
  qed
  have "window_bytes_loop ws ps ?i out' ! k = out' ! k + sum_list (map pr_size (filter (in_window (ws ! k)) ps))"
    using Cons.prems(2) l o by (intro Cons.IH) (auto split: if_splits)
  then show ?case using o by (simp add: Let_def out'_def [symmetric])
qed simp

text \<open>On windows that tile the presentation the byte count of every window is exactly the size
  of the packets presented in it, although packets come in decode order and presentation
  times jump back and forth across window borders.\<close>

theorem window_bytes_exact:
  assumes "tiled a windows b" "k < length windows" "sum_list (map pr_size (ht_packets track)) < 2 ^ 64"
  shows "track_bytes_by_window track windows ! k =
    sum_list (map pr_size (filter (in_window (windows ! k)) (ht_packets track)))"
  using window_bytes_loop_exact [OF assms(1) _ assms(2), of "replicate (length windows) 0" "ht_packets track" 0] assms
  by (auto simp: track_bytes_by_window_def Let_def)

theorem window_bytes_exact_witness:
  "track_bytes_by_window \<lparr>ht_id = ''v0'', ht_codec_string = ''avc1'', ht_timescale = 1000,
      ht_packets = demo_packets, ht_payload = RawAudio, ht_fmp4_sample_entry = None :: unit option\<rparr>
    [\<lparr>sw_index = 0, sw_start_ms = 0, sw_end_ms = 60\<rparr>, \<lparr>sw_index = 1, sw_start_ms = 60, sw_end_ms = 120\<rparr>] ! 0 = 4"
  by (subst window_bytes_exact [where a = 0 and b = 120])
    (simp_all add: demo_packets_def demo_packet_def in_window_def packet_start_ms_def tp_as_millis_def time_point_millis_def)

end
