(* ===== verification/HlsPlaylist.thy ===== *)
theory HlsPlaylist
  imports HlsWindows Float64Round Text
begin

text \<open>
  The playlists of native HLS (\<open>hls/playlist.rs\<close> and the playlist functions of \<open>hls/mod.rs\<close>): media playlists of
  transport stream and fMP4 segments, master playlists, and the multi-audio plan. They are read back by the rules a
  player follows.
\<close>

section \<open>Formatting\<close>

definition nl :: string where "nl = [CHR 0x0A]"

text \<open>\<open>{n:05}\<close>.\<close>

definition pad_nat :: "nat \<Rightarrow> nat \<Rightarrow> string" where
  "pad_nat width n = replicate (width - length (show_nat n)) (digit_char 0) @ show_nat n"

text \<open>\<open>{:.3}\<close> of a finite number that is not negative: the nearest multiple of a thousandth, ties to even.\<close>

fun show_fixed3 :: "f64 \<Rightarrow> string" where
  "show_fixed3 (Finite q) =
     (let m = nat (round_half_even (q * 1000)) in show_nat (m div 1000) @ ''.'' @ pad_nat 3 (m mod 1000))"
| "show_fixed3 _ = ''NaN''"

definition segment_name :: "nat \<Rightarrow> string" where
  "segment_name index = ''seg-'' @ pad_nat 5 index @ ''.ts''"

definition fmp4_segment_name :: "nat \<Rightarrow> string" where
  "fmp4_segment_name index = ''seg-'' @ pad_nat 5 index @ ''.m4s''"

section \<open>Playlist bodies\<close>

definition master_playlist_body :: "string \<Rightarrow> string \<Rightarrow> nat \<Rightarrow> string" where
  "master_playlist_body video_codec audio_codec bandwidth_bits_per_second =
     ''#EXTM3U'' @ nl @ ''#EXT-X-VERSION:3'' @ nl @
     ''#EXT-X-STREAM-INF:BANDWIDTH='' @ show_nat bandwidth_bits_per_second @ '',CODECS=\"'' @ video_codec @ '','' @
     audio_codec @ ''\"'' @ nl @ ''0/playlist.m3u8'' @ nl"

text \<open>The entry of one segment; the duration is divided in binary64.\<close>

definition segment_entry :: "nat \<Rightarrow> string \<Rightarrow> string" where
  "segment_entry duration_ms name =
     ''#EXTINF:'' @ show_fixed3 (f64_div_const (f64_of_nat duration_ms) 1000) @ '','' @ nl @ name @ nl"

fun segment_entries :: "(nat \<Rightarrow> string) \<Rightarrow> nat \<Rightarrow> nat list \<Rightarrow> string" where
  "segment_entries name index [] = []"
| "segment_entries name index (d # ds) = segment_entry d (name index) @ segment_entries name (Suc index) ds"

definition media_playlist_body :: "nat \<Rightarrow> nat list \<Rightarrow> string" where
  "media_playlist_body target_duration_seconds durations_ms =
     ''#EXTM3U'' @ nl @ ''#EXT-X-VERSION:3'' @ nl @ ''#EXT-X-TARGETDURATION:'' @ show_nat target_duration_seconds @ nl @
     ''#EXT-X-MEDIA-SEQUENCE:0'' @ nl @ ''#EXT-X-PLAYLIST-TYPE:VOD'' @ nl @
     segment_entries segment_name 0 durations_ms @ ''#EXT-X-ENDLIST'' @ nl"

definition fmp4_media_playlist_body :: "nat \<Rightarrow> nat list \<Rightarrow> string" where
  "fmp4_media_playlist_body target_duration_seconds durations_ms =
     ''#EXTM3U'' @ nl @ ''#EXT-X-VERSION:7'' @ nl @ ''#EXT-X-TARGETDURATION:'' @ show_nat target_duration_seconds @ nl @
     ''#EXT-X-MEDIA-SEQUENCE:0'' @ nl @ ''#EXT-X-PLAYLIST-TYPE:VOD'' @ nl @ ''#EXT-X-MAP:URI=\"init.mp4\"'' @ nl @
     segment_entries fmp4_segment_name 0 durations_ms @ ''#EXT-X-ENDLIST'' @ nl"

definition media_playlist_for_windows :: "nat \<Rightarrow> segment_window list \<Rightarrow> string" where
  "media_playlist_for_windows target_duration_seconds windows =
     media_playlist_body target_duration_seconds (map window_ms windows)"

definition fmp4_media_playlist_for_windows :: "nat \<Rightarrow> segment_window list \<Rightarrow> string" where
  "fmp4_media_playlist_for_windows target_duration_seconds windows =
     fmp4_media_playlist_body target_duration_seconds (map window_ms windows)"

record hls_segment_info =
  hsi_index :: nat
  hsi_start_ms :: nat
  hsi_duration_ms :: nat
  hsi_uri :: string

definition segment_infos :: "segment_window list \<Rightarrow> hls_segment_info list" where
  "segment_infos windows = map (\<lambda>w. \<lparr>hsi_index = sw_index w, hsi_start_ms = sw_start_ms w,
     hsi_duration_ms = window_ms w, hsi_uri = segment_name (sw_index w)\<rparr>) windows"

section \<open>Numbers read back\<close>

definition digit_value :: "char \<Rightarrow> nat" where
  "digit_value c = of_char c - 48"

definition read_nat :: "string \<Rightarrow> nat" where
  "read_nat s = foldl (\<lambda>n c. n * 10 + digit_value c) 0 s"

definition decimal :: "char \<Rightarrow> bool" where
  "decimal c \<longleftrightarrow> 48 \<le> (of_char c :: nat) \<and> (of_char c :: nat) \<le> 57"

lemma of_digit_char: "d < 10 \<Longrightarrow> of_char (digit_char d) = (48 + d :: nat)"
  by (simp add: digit_char_def)

lemma show_nat_decimal: "c \<in> set (show_nat n) \<Longrightarrow> decimal c"
proof (induction n rule: show_nat.induct)
  case (1 n)
  then show ?case by (subst (asm) show_nat.simps) (auto simp: decimal_def of_digit_char split: if_splits)
qed

lemma read_nat_append: "read_nat (s @ [c]) = read_nat s * 10 + digit_value c"
  by (simp add: read_nat_def)

lemma read_show_nat [simp]: "read_nat (show_nat n) = n"
proof (induction n rule: show_nat.induct)
  case (1 n)
  show ?case
  proof (cases "n < 10")
    case True
    then show ?thesis by (simp add: show_nat.simps [of n] read_nat_def digit_value_def of_digit_char)
  next
    case False
    then show ?thesis using 1 by (simp add: show_nat.simps [of n] read_nat_append digit_value_def of_digit_char)
  qed
qed

lemma read_pad_nat [simp]: "read_nat (pad_nat k n) = n"
proof -
  have "read_nat (replicate j (digit_char 0) @ s) = read_nat s" for j s
    by (induction j) (simp_all add: read_nat_def digit_value_def of_digit_char)
  then show ?thesis by (simp add: pad_nat_def)
qed

lemma pad_nat_decimal: "c \<in> set (pad_nat k n) \<Longrightarrow> decimal c"
  using show_nat_decimal by (auto simp: pad_nat_def decimal_def of_digit_char)

text \<open>Up to 2^52 milliseconds, about 142,000 years, dividing by a thousand and rounding to three places loses nothing.\<close>

lemma fixed3_exact:
  assumes "d < 2 ^ 52"
  shows "show_fixed3 (f64_div_const (f64_of_nat d) 1000) = show_nat (d div 1000) @ ''.'' @ pad_nat 3 (d mod 1000)"
proof (cases "d = 0")
  case True
  then show ?thesis by (simp add: f64_of_nat_exact round_f64_def round_half_even_def)
next
  case False
  define x :: rat where "x = of_nat d / 1000"
  have x0: "0 < x" using False by (simp add: x_def)
  have "(of_nat d :: rat) < of_nat (2 ^ 52)" using assms by (simp only: of_nat_less_iff)
  then have x43: "x < pow2 43" by (simp add: x_def pow2_def)
  then have "x < pow2 1000" using pow2_mono [of 43 1000] by simp
  then obtain y where y: "round_f64 x = Finite y" "\<bar>y - x\<bar> \<le> pow2 (ulp_exp x) / 2"
    using round_f64_pos [OF x0] by blast
  have "ulp_exp x \<le> - 10" using floor_log2_less [OF x0 x43] x0 by (simp add: ulp_exp_def)
  then have "pow2 (ulp_exp x) \<le> pow2 (- 10)" by (rule pow2_mono)
  then have "\<bar>y - x\<bar> \<le> 1 / 2048" using y(2) by (simp add: pow2_def)
  then have "y - x \<le> 1 / 2048" "x - y \<le> 1 / 2048" by linarith+
  then have "\<bar>y * 1000 - of_int (int d)\<bar> < 1 / 2" unfolding x_def of_int_of_nat_eq by linarith
  moreover have "\<bar>of_int (round_half_even (y * 1000)) - y * 1000\<bar> \<le> 1 / 2" by (rule round_half_even_error)
  ultimately have "\<bar>of_int (round_half_even (y * 1000)) - (of_int (int d) :: rat)\<bar> < 1" by linarith
  then have "\<bar>(of_int (round_half_even (y * 1000) - int d) :: rat)\<bar> < of_int 1" by simp
  then have "\<bar>round_half_even (y * 1000) - int d\<bar> < 1" by (simp only: of_int_abs [symmetric] of_int_less_iff)
  then have "nat (round_half_even (y * 1000)) = d" by linarith
  then show ?thesis using assms y(1) by (simp add: f64_of_nat_exact x_def Let_def)
qed

section \<open>A player\<close>

text \<open>Lines end at the given character.\<close>

fun lines_at :: "'a \<Rightarrow> 'a list \<Rightarrow> 'a list \<Rightarrow> 'a list list" where
  "lines_at e acc [] = (if acc = [] then [] else [acc])"
| "lines_at e acc (c # cs) = (if c = e then acc # lines_at e [] cs else lines_at e (acc @ [c]) cs)"

lemma lines_at_line: "e \<notin> set l \<Longrightarrow> lines_at e acc (l @ e # s) = (acc @ l) # lines_at e [] s"
  by (induction l arbitrary: acc) auto

definition strip_prefix :: "'a list \<Rightarrow> 'a list \<Rightarrow> 'a list option" where
  "strip_prefix p xs = (if take (length p) xs = p then Some (drop (length p) xs) else None)"

lemma strip_prefix_append [simp]: "strip_prefix p (p @ xs) = Some xs"
  by (simp add: strip_prefix_def)

record player =
  pl_target_seconds :: "nat option"
  pl_map :: "string option"
  pl_pending :: "nat option"
  pl_segments :: "(nat \<times> string) list"
  pl_ended :: bool

text \<open>A duration with three decimals, in thousandths.\<close>

definition read_thousandths :: "string \<Rightarrow> nat" where
  "read_thousandths s =
     read_nat (takeWhile (\<lambda>c. c \<noteq> CHR ''.'') s) * 1000 +
     read_nat (takeWhile (\<lambda>c. c \<noteq> CHR '','') (drop 1 (dropWhile (\<lambda>c. c \<noteq> CHR ''.'') s)))"

definition play_uri :: "string \<Rightarrow> player \<Rightarrow> player" where
  "play_uri l p =
     (case pl_pending p of
        Some d \<Rightarrow> p\<lparr>pl_pending := None, pl_segments := pl_segments p @ [(d, l)]\<rparr>
      | None \<Rightarrow> p)"

definition play_line :: "string \<Rightarrow> player \<Rightarrow> player" where
  "play_line l p =
     (case strip_prefix ''#EXTINF:'' l of Some r \<Rightarrow> p\<lparr>pl_pending := Some (read_thousandths r)\<rparr> | None \<Rightarrow>
     (case strip_prefix ''#EXT-X-TARGETDURATION:'' l of Some r \<Rightarrow> p\<lparr>pl_target_seconds := Some (read_nat r)\<rparr> | None \<Rightarrow>
     (case strip_prefix ''#EXT-X-MAP:URI='' l of Some r \<Rightarrow> p\<lparr>pl_map := Some (butlast (tl r))\<rparr> | None \<Rightarrow>
      if l = ''#EXT-X-ENDLIST'' then p\<lparr>pl_ended := True\<rparr>
      else if take 1 l = ''#'' then p
      else play_uri l p)))"

definition play :: "string \<Rightarrow> player" where
  "play s = fold play_line (lines_at (CHR 0x0A) [] s)
     \<lparr>pl_target_seconds = None, pl_map = None, pl_pending = None, pl_segments = [], pl_ended = False\<rparr>"

lemma not_decimal: "\<not> decimal (CHR ''.'')" "\<not> decimal (CHR '','')" "\<not> decimal (CHR 0x0A)"
  by (simp_all add: decimal_def)

lemma decimal_free:
  assumes "\<not> decimal c"
  shows "c \<notin> set (show_nat n)" "c \<notin> set (pad_nat k n)"
  using assms show_nat_decimal pad_nat_decimal by blast+

lemma read_thousandths_fixed3:
  "read_thousandths (show_nat n @ ''.'' @ pad_nat 3 k @ '','') = n * 1000 + k"
proof -
  have "\<forall>c \<in> set (show_nat n). c \<noteq> CHR ''.''" "\<forall>c \<in> set (pad_nat 3 k). c \<noteq> CHR '',''"
    using decimal_free [OF not_decimal(1)] decimal_free [OF not_decimal(2)] by metis+
  then show ?thesis by (simp add: read_thousandths_def takeWhile_append2 dropWhile_append2)
qed

definition uri_line :: "string \<Rightarrow> bool" where
  "uri_line l \<longleftrightarrow> CHR 0x0A \<notin> set l \<and> l \<noteq> [] \<and> hd l \<noteq> CHR ''#''"

lemma play_uri_line: "uri_line l \<Longrightarrow> play_line l p = play_uri l p"
  by (cases l) (auto simp: play_line_def uri_line_def strip_prefix_def)

lemma segment_names_are_uris: "uri_line (segment_name i)" "uri_line (fmp4_segment_name i)"
  using decimal_free(2) [OF not_decimal(3)] by (auto simp: uri_line_def segment_name_def fmp4_segment_name_def)

lemma play_segments:
  assumes "\<And>i. uri_line (name i)" "\<forall>d \<in> set ds. d < 2 ^ 52" "pl_pending p = None"
  shows "fold play_line (lines_at (CHR 0x0A) [] (segment_entries name i ds @ rest)) p =
    fold play_line (lines_at (CHR 0x0A) [] rest)
      (p\<lparr>pl_segments := pl_segments p @ zip ds (map name [i..<i + length ds])\<rparr>)"
  using assms(2,3)
proof (induction ds arbitrary: i p)
  case (Cons d ds)
  let ?inf = "''#EXTINF:'' @ show_nat (d div 1000) @ ''.'' @ pad_nat 3 (d mod 1000) @ '',''"
  have entry: "segment_entry d (name i) = ?inf @ CHR 0x0A # name i @ [CHR 0x0A]"
    using fixed3_exact [of d] Cons.prems(1) by (simp add: segment_entry_def nl_def)
  have inf: "CHR 0x0A \<notin> set ?inf" using decimal_free [OF not_decimal(3)] by auto
  have uri: "CHR 0x0A \<notin> set (name i)" using assms(1) [of i] by (simp add: uri_line_def)
  have run: "play_line ?inf p = p\<lparr>pl_pending := Some d\<rparr>"
    unfolding play_line_def strip_prefix_append read_thousandths_fixed3 option.case div_mult_mod_eq ..
  have lines: "lines_at (CHR 0x0A) [] (segment_entries name i (d # ds) @ rest) =
      ?inf # name i # lines_at (CHR 0x0A) [] (segment_entries name (Suc i) ds @ rest)"
    using lines_at_line [OF inf, of "[]"] lines_at_line [OF uri, of "[]"] by (simp add: entry)
  have index: "[i..<i + length (d # ds)] = i # [Suc i..<Suc i + length ds]" by (simp add: upt_conv_Cons del: upt_Suc)
  let ?p = "p\<lparr>pl_segments := pl_segments p @ [(d, name i)]\<rparr>"
  have step: "play_line (name i) (play_line ?inf p) = ?p"
    unfolding run play_uri_line [OF assms(1)] using Cons.prems(2) by (simp add: play_uri_def)
  have small: "\<forall>d \<in> set ds. d < 2 ^ 52" using Cons.prems(1) by simp
  have "fold play_line (lines_at (CHR 0x0A) [] (segment_entries name i (d # ds) @ rest)) p =
      fold play_line (lines_at (CHR 0x0A) [] (segment_entries name (Suc i) ds @ rest)) ?p"
    by (simp only: lines fold_simps step)
  also have "\<dots> = fold play_line (lines_at (CHR 0x0A) [] rest)
      (?p\<lparr>pl_segments := pl_segments ?p @ zip ds (map name [Suc i..<Suc i + length ds])\<rparr>)"
    by (rule Cons.IH [OF small]) (use Cons.prems(2) in simp)
  also have "?p\<lparr>pl_segments := pl_segments ?p @ zip ds (map name [Suc i..<Suc i + length ds])\<rparr> =
      p\<lparr>pl_segments := pl_segments p @ zip (d # ds) (map name [i..<i + length (d # ds)])\<rparr>"
    unfolding index by (simp del: upt_Suc)
  finally show ?case .
qed simp

lemma play_head:
  assumes "CHR 0x0A \<notin> set l"
  shows "fold play_line (lines_at (CHR 0x0A) [] (l @ nl @ rest)) p = fold play_line (lines_at (CHR 0x0A) [] rest) (play_line l p)"
  using lines_at_line [OF assms, of "[]" rest] by (simp add: nl_def)

lemma play_target: "play_line (''#EXT-X-TARGETDURATION:'' @ show_nat t) p = p\<lparr>pl_target_seconds := Some t\<rparr>"
  by (simp add: play_line_def strip_prefix_def)

lemma play_comment:
  "play_line ''#EXTM3U'' p = p" "play_line ''#EXT-X-VERSION:3'' p = p" "play_line ''#EXT-X-VERSION:7'' p = p"
  "play_line ''#EXT-X-MEDIA-SEQUENCE:0'' p = p" "play_line ''#EXT-X-PLAYLIST-TYPE:VOD'' p = p"
  "play_line ''#EXT-X-MAP:URI=\"init.mp4\"'' p = p\<lparr>pl_map := Some ''init.mp4''\<rparr>"
  "play_line ''#EXT-X-ENDLIST'' p = p\<lparr>pl_ended := True\<rparr>"
  by (simp_all add: play_line_def strip_prefix_def)

lemma target_line: "CHR 0x0A \<notin> set (''#EXT-X-TARGETDURATION:'' @ show_nat t)"
  using decimal_free(1) [OF not_decimal(3)] by auto

lemma play_end: "fold play_line (lines_at (CHR 0x0A) [] (''#EXT-X-ENDLIST'' @ nl)) p = p\<lparr>pl_ended := True\<rparr>"
  using play_head [of "''#EXT-X-ENDLIST''" "[]" p] by (simp add: play_comment)

lemma media_playlist_plays:
  assumes "\<forall>d \<in> set ds. d < 2 ^ 52"
  shows "play (media_playlist_body t ds) = \<lparr>pl_target_seconds = Some t, pl_map = None, pl_pending = None,
      pl_segments = zip ds (map segment_name [0..<length ds]), pl_ended = True\<rparr>"
  unfolding play_def media_playlist_body_def
  using play_segments [of segment_name ds _ 0 "''#EXT-X-ENDLIST'' @ nl", OF segment_names_are_uris(1) assms]
    play_head [of "''#EXTM3U''"] play_head [of "''#EXT-X-VERSION:3''"] play_head [OF target_line]
    play_head [of "''#EXT-X-MEDIA-SEQUENCE:0''"] play_head [of "''#EXT-X-PLAYLIST-TYPE:VOD''"]
  by (simp add: play_comment play_target [simplified] play_end [simplified])

lemma fmp4_media_playlist_plays:
  assumes "\<forall>d \<in> set ds. d < 2 ^ 52"
  shows "play (fmp4_media_playlist_body t ds) = \<lparr>pl_target_seconds = Some t, pl_map = Some ''init.mp4'', pl_pending = None,
      pl_segments = zip ds (map fmp4_segment_name [0..<length ds]), pl_ended = True\<rparr>"
  unfolding play_def fmp4_media_playlist_body_def
  using play_segments [of fmp4_segment_name ds _ 0 "''#EXT-X-ENDLIST'' @ nl", OF segment_names_are_uris(2) assms]
    play_head [of "''#EXTM3U''"] play_head [of "''#EXT-X-VERSION:7''"] play_head [OF target_line]
    play_head [of "''#EXT-X-MEDIA-SEQUENCE:0''"] play_head [of "''#EXT-X-PLAYLIST-TYPE:VOD''"]
    play_head [of "''#EXT-X-MAP:URI=\"init.mp4\"''"]
  by (simp add: play_comment play_target [simplified] play_end [simplified])

lemma tiled_offsets:
  "tiled a ws b \<Longrightarrow> k \<le> length ws \<Longrightarrow> a + sum_list (map window_ms (take k ws)) = (if k < length ws then sw_start_ms (ws ! k) else b)"
proof (induction a ws b arbitrary: k rule: tiled.induct)
  case (2 a w ws b)
  show ?case
  proof (cases k)
    case (Suc j)
    have "a + window_ms w = sw_end_ms w" using "2.prems"(1) by (auto simp: window_ms_def max_def)
    then have first: "a + sum_list (map window_ms (take k (w # ws))) = sw_end_ms w + sum_list (map window_ms (take j ws))"
      using Suc by simp
    show ?thesis unfolding first using "2.IH" [of j] "2.prems" Suc by simp
  qed (use 2 in simp)
qed simp

lemma tiled_window_le: "tiled a ws b \<Longrightarrow> w \<in> set ws \<Longrightarrow> window_ms w \<le> b - a"
proof (induction a ws b rule: tiled.induct)
  case (2 a w' ws b)
  then show ?case using tiled_le [of "sw_end_ms w'" ws b] by (auto simp: window_ms_def)
qed simp

text \<open>C22: A player that reads the media playlist of windows that tile a presentation finds one entry per window, in order
  and closed by the end tag. Adding up the announced durations, it starts every segment exactly at the start of the window
  its packets come from and ends at the end of the presentation, although the durations are divided in floating point. The
  fMP4 playlist announces the same and its init segment.\<close>

theorem playlist_follows_windows:
  assumes "tiled a ws b" "b < 2 ^ 52"
  shows "let p = play (media_playlist_for_windows t ws); q = play (fmp4_media_playlist_for_windows t ws) in
    pl_ended p \<and> pl_target_seconds p = Some t \<and> map snd (pl_segments p) = map segment_name [0..<length ws] \<and>
    (\<forall>k < length ws. a + sum_list (map fst (take k (pl_segments p))) = sw_start_ms (ws ! k)) \<and>
    a + sum_list (map fst (pl_segments p)) = b \<and>
    pl_ended q \<and> pl_map q = Some ''init.mp4'' \<and> map fst (pl_segments q) = map fst (pl_segments p) \<and>
    map snd (pl_segments q) = map fmp4_segment_name [0..<length ws]"
proof -
  have "\<forall>d \<in> set (map window_ms ws). d < 2 ^ 52"
    using tiled_window_le [OF assms(1)] assms(2) by fastforce
  note p = media_playlist_plays [OF this] fmp4_media_playlist_plays [OF this]
  have "map fst (take k (zip (map window_ms ws) (map segment_name [0..<length ws]))) = map window_ms (take k ws)" for k
    by (simp add: take_zip take_map min_def map_fst_zip)
  then have "a + sum_list (map fst (take k (zip (map window_ms ws) (map segment_name [0..<length ws])))) =
      (if k < length ws then sw_start_ms (ws ! k) else b)" if "k \<le> length ws" for k
    using tiled_offsets [OF assms(1) that] by simp
  from this [of "length ws"] this show ?thesis
    by (simp add: media_playlist_for_windows_def fmp4_media_playlist_for_windows_def p Let_def)
qed

theorem playlist_follows_windows_witness:
  "40 + sum_list (map fst (pl_segments (play (media_playlist_for_windows 4
     [\<lparr>sw_index = 0, sw_start_ms = 40, sw_end_ms = 4001\<rparr>, \<lparr>sw_index = 1, sw_start_ms = 4001, sw_end_ms = 6005\<rparr>])))) =
   6005"
  using playlist_follows_windows [of 40 "[\<lparr>sw_index = 0, sw_start_ms = 40, sw_end_ms = 4001\<rparr>,
    \<lparr>sw_index = 1, sw_start_ms = 4001, sw_end_ms = 6005\<rparr>]" 6005 4] by (simp add: Let_def)

section \<open>The multi-audio plan\<close>

text \<open>Text of the user is a list of code points here.\<close>

record hls_audio_rendition_input =
  hai_track_id :: ustring
  hai_codec :: ustring
  hai_language :: "ustring option"
  hai_name :: "ustring option"
  hai_default :: bool

record hls_audio_rendition =
  har_track_id :: ustring
  har_codec :: ustring
  har_language :: "ustring option"
  har_name :: ustring
  har_default :: bool
  har_playlist_uri :: ustring

record hls_multi_audio_output_plan =
  hmp_video_track_id :: ustring
  hmp_video_codec :: ustring
  hmp_video_playlist_uri :: ustring
  hmp_audio_group_id :: ustring
  hmp_audio_renditions :: "hls_audio_rendition list"
  hmp_bandwidth_bits_per_second :: nat
  hmp_master_playlist :: ustring
  hmp_duplicates_video_work :: bool

text \<open>\<open>char::is_ascii_alphanumeric\<close>.\<close>

definition ascii_alphanumeric :: "nat \<Rightarrow> bool" where
  "ascii_alphanumeric c \<longleftrightarrow> 48 \<le> c \<and> c \<le> 57 \<or> 65 \<le> c \<and> c \<le> 90 \<or> 97 \<le> c \<and> c \<le> 122"

definition path_safe :: "nat \<Rightarrow> bool" where
  "path_safe c \<longleftrightarrow> ascii_alphanumeric c \<or> c = 45 \<or> c = 95"

definition safe_hls_path_component :: "ustring \<Rightarrow> ustring" where
  "safe_hls_path_component value =
     (let safe = map (\<lambda>c. if path_safe c then c else 95) value in if safe = [] then lit ''audio'' else safe)"

text \<open>\<open>replace\<close> of one character.\<close>

definition replace_char :: "nat \<Rightarrow> ustring \<Rightarrow> ustring \<Rightarrow> ustring" where
  "replace_char c by_text value = concat (map (\<lambda>d. if d = c then by_text else [d]) value)"

definition escape_hls_attr :: "ustring \<Rightarrow> ustring" where
  "escape_hls_attr value = replace_char 34 [92, 34] (replace_char 92 [92, 92] value)"

primrec add_codecs :: "ustring list \<Rightarrow> hls_audio_rendition list \<Rightarrow> ustring list" where
  "add_codecs codecs [] = codecs"
| "add_codecs codecs (r # rs) =
     add_codecs (if har_codec r \<in> set codecs then codecs else codecs @ [har_codec r]) rs"

fun join_with :: "'a list \<Rightarrow> 'a list list \<Rightarrow> 'a list" where
  "join_with sep [] = []"
| "join_with sep [x] = x"
| "join_with sep (x # y # ys) = x @ sep @ join_with sep (y # ys)"

definition hls_variant_codecs :: "ustring \<Rightarrow> hls_audio_rendition list \<Rightarrow> ustring" where
  "hls_variant_codecs video_codec renditions = join_with (lit '','') (add_codecs [video_codec] renditions)"

definition media_line :: "ustring \<Rightarrow> hls_audio_rendition \<Rightarrow> ustring" where
  "media_line audio_group_id r =
     lit ''#EXT-X-MEDIA:TYPE=AUDIO,GROUP-ID=\"'' @ escape_hls_attr audio_group_id @ lit ''\",NAME=\"'' @
     escape_hls_attr (har_name r) @ lit ''\"'' @
     (case har_language r of Some l \<Rightarrow> lit '',LANGUAGE=\"'' @ escape_hls_attr l @ lit ''\"'' | None \<Rightarrow> []) @
     lit '',DEFAULT='' @ (if har_default r then lit ''YES'' else lit ''NO'') @
     lit '',AUTOSELECT='' @ (if har_language r \<noteq> None then lit ''YES'' else lit ''NO'') @
     lit '',URI=\"'' @ escape_hls_attr (har_playlist_uri r) @ lit ''\"'' @ lit nl"

definition multi_audio_master_playlist_body ::
    "ustring \<Rightarrow> nat \<Rightarrow> ustring \<Rightarrow> ustring \<Rightarrow> hls_audio_rendition list \<Rightarrow> ustring" where
  "multi_audio_master_playlist_body video_codec bandwidth_bits_per_second audio_group_id video_playlist_uri renditions =
     lit (''#EXTM3U'' @ nl @ ''#EXT-X-VERSION:7'' @ nl) @ concat (map (media_line audio_group_id) renditions) @
     lit ''#EXT-X-STREAM-INF:BANDWIDTH='' @ lit (show_nat bandwidth_bits_per_second) @ lit '',CODECS=\"'' @
     hls_variant_codecs video_codec renditions @ lit ''\",AUDIO=\"'' @ escape_hls_attr audio_group_id @ lit (''\"'' @ nl) @
     video_playlist_uri @ lit nl"

definition rendition_of :: "nat \<Rightarrow> hls_audio_rendition_input \<Rightarrow> hls_audio_rendition" where
  "rendition_of index input =
     \<lparr>har_track_id = hai_track_id input, har_codec = hai_codec input, har_language = hai_language input,
      har_name = (case hai_name input of Some n \<Rightarrow> n | None \<Rightarrow> lit (''Audio '' @ show_nat (index + 1))),
      har_default = hai_default input,
      har_playlist_uri = lit ''audio/'' @ safe_hls_path_component (hai_track_id input) @ lit ''/playlist.m3u8''\<rparr>"

definition plan_multi_audio_hls_outputs ::
    "ustring \<Rightarrow> ustring \<Rightarrow> nat \<Rightarrow> hls_audio_rendition_input list \<Rightarrow> hls_multi_audio_output_plan" where
  "plan_multi_audio_hls_outputs video_track_id video_codec bandwidth_bits_per_second audio_inputs =
     (let renditions = map2 rendition_of [0..<length audio_inputs] audio_inputs
      in \<lparr>hmp_video_track_id = video_track_id, hmp_video_codec = video_codec,
          hmp_video_playlist_uri = lit ''video/playlist.m3u8'', hmp_audio_group_id = lit ''audio'',
          hmp_audio_renditions = renditions, hmp_bandwidth_bits_per_second = bandwidth_bits_per_second,
          hmp_master_playlist = multi_audio_master_playlist_body video_codec bandwidth_bits_per_second (lit ''audio'')
            (lit ''video/playlist.m3u8'') renditions,
          hmp_duplicates_video_work = False\<rparr>)"

section \<open>Reading a master playlist\<close>

lemma read_attrs_shorter: "s \<noteq> [] \<Longrightarrow> length (dropWhile P (drop k (drop 1 (dropWhile Q s)))) < length s"
proof -
  assume "s \<noteq> []"
  have "length (dropWhile P (drop k (drop 1 (dropWhile Q s)))) \<le> length (drop 1 (dropWhile Q s))"
    using length_dropWhile_le [of P "drop k (drop 1 (dropWhile Q s))"] by simp
  also have "\<dots> < length s" using length_dropWhile_le [of Q s] \<open>s \<noteq> []\<close> by (cases s) (auto simp: less_Suc_eq_le)
  finally show ?thesis .
qed

text \<open>An attribute list: names and values, a quoted value ends at the next double quote.\<close>

function read_attrs :: "ustring \<Rightarrow> (ustring \<times> ustring) list" where
  "read_attrs s =
     (if s = [] then []
      else let key = takeWhile (\<lambda>c. c \<noteq> 61) s; r = drop 1 (dropWhile (\<lambda>c. c \<noteq> 61) s)
           in if take 1 r = [34]
              then (key, takeWhile (\<lambda>c. c \<noteq> 34) (drop 1 r)) # read_attrs (drop 2 (dropWhile (\<lambda>c. c \<noteq> 34) (drop 1 r)))
              else (key, takeWhile (\<lambda>c. c \<noteq> 44) r) # read_attrs (drop 1 (dropWhile (\<lambda>c. c \<noteq> 44) r)))"
  by pat_completeness auto

termination
proof (relation "measure length")
  fix s :: ustring and x xa assume a: "s \<noteq> []" "xa = drop 1 (dropWhile (\<lambda>c. c \<noteq> 61) s)"
  show "(drop 2 (dropWhile (\<lambda>c. c \<noteq> 34) (drop 1 xa)), s) \<in> measure length"
    using read_attrs_shorter [OF a(1), of "\<lambda>c. c \<noteq> 34" 1 "\<lambda>c. c \<noteq> 61"] by (simp add: a(2))
  show "(drop 1 (dropWhile (\<lambda>c. c \<noteq> 44) xa), s) \<in> measure length"
    using read_attrs_shorter [OF a(1), of "\<lambda>c. c \<noteq> 44" 0 "\<lambda>c. c \<noteq> 61"] by (simp add: a(2))
qed simp

declare read_attrs.simps [simp del]

lemma read_attrs_Nil [simp]: "read_attrs [] = []"
  by (simp add: read_attrs.simps)

lemma takeWhile_stop: "c \<notin> set k \<Longrightarrow> takeWhile (\<lambda>d. d \<noteq> c) (k @ c # s) = k"
  by (subst takeWhile_append2) auto

lemma dropWhile_stop: "c \<notin> set k \<Longrightarrow> dropWhile (\<lambda>d. d \<noteq> c) (k @ c # s) = c # s"
  by (subst dropWhile_append2) auto

lemma read_attrs_quoted:
  "61 \<notin> set k \<Longrightarrow> 34 \<notin> set v \<Longrightarrow> read_attrs (k @ 61 # 34 # v @ 34 # s) = (k, v) # read_attrs (drop 1 s)"
  by (subst read_attrs.simps) (simp add: takeWhile_stop dropWhile_stop Let_def)

lemma read_attrs_plain:
  "61 \<notin> set k \<Longrightarrow> 44 \<notin> set v \<Longrightarrow> take 1 v \<noteq> [34] \<Longrightarrow> v \<noteq> [] \<Longrightarrow>
    read_attrs (k @ 61 # v @ 44 # s) = (k, v) # read_attrs s"
  by (subst read_attrs.simps) (cases v; simp add: takeWhile_stop dropWhile_stop Let_def)

definition read_tag :: "ustring \<Rightarrow> ustring \<Rightarrow> (ustring \<times> ustring) list list" where
  "read_tag tag s = List.map_filter (\<lambda>l. map_option read_attrs (strip_prefix tag l)) (lines_at 10 [] s)"

definition clean :: "ustring \<Rightarrow> bool" where
  "clean s \<longleftrightarrow> 34 \<notin> set s \<and> 92 \<notin> set s \<and> 10 \<notin> set s"

lemma escape_clean: "clean s \<Longrightarrow> escape_hls_attr s = s"
proof -
  have "c \<notin> set t \<Longrightarrow> replace_char c b t = t" for c b t by (induction t) (auto simp: replace_char_def)
  then show "clean s \<Longrightarrow> ?thesis" by (simp add: escape_hls_attr_def clean_def)
qed

text \<open>A line break in a name or a language survives the escaping, so it breaks the line of the rendition.\<close>

lemma line_break_not_escaped: "10 \<in> set s \<Longrightarrow> 10 \<in> set (escape_hls_attr s)"
  by (force simp: escape_hls_attr_def replace_char_def)

definition yes_no :: "bool \<Rightarrow> ustring" where
  "yes_no b = (if b then lit ''YES'' else lit ''NO'')"

definition media_attrs :: "hls_audio_rendition \<Rightarrow> (ustring \<times> ustring) list" where
  "media_attrs r =
     [(lit ''TYPE'', lit ''AUDIO''), (lit ''GROUP-ID'', lit ''audio''), (lit ''NAME'', har_name r)] @
     (case har_language r of Some l \<Rightarrow> [(lit ''LANGUAGE'', l)] | None \<Rightarrow> []) @
     [(lit ''DEFAULT'', yes_no (har_default r)), (lit ''AUTOSELECT'', yes_no (har_language r \<noteq> None)),
      (lit ''URI'', har_playlist_uri r)]"

lemmas read_attrs_steps = read_attrs_quoted read_attrs_plain

lemma lit_append: "lit (s @ t) = lit s @ lit t"
  by (simp add: lit_def)

definition media_text :: "hls_audio_rendition \<Rightarrow> ustring" where
  "media_text r =
     lit ''TYPE'' @ 61 # lit ''AUDIO'' @ 44 # lit ''GROUP-ID'' @ 61 # 34 # lit ''audio'' @ 34 # 44 # lit ''NAME'' @ 61 # 34 #
     har_name r @ 34 # 44 #
     (case har_language r of Some l \<Rightarrow> lit ''LANGUAGE'' @ 61 # 34 # l @ 34 # [44] | None \<Rightarrow> []) @
     lit ''DEFAULT'' @ 61 # yes_no (har_default r) @ 44 # lit ''AUTOSELECT'' @ 61 # yes_no (har_language r \<noteq> None) @
     44 # lit ''URI'' @ 61 # 34 # har_playlist_uri r @ [34]"

definition rendition_clean :: "hls_audio_rendition \<Rightarrow> bool" where
  "rendition_clean r \<longleftrightarrow> clean (har_name r) \<and> clean (har_playlist_uri r) \<and>
     (case har_language r of Some l \<Rightarrow> clean l | None \<Rightarrow> True)"

lemma clean_audio: "clean (lit ''audio'')"
  by (simp add: clean_def lit_def)

lemma media_line_text:
  assumes "rendition_clean r"
  shows "media_line (lit ''audio'') r = lit ''#EXT-X-MEDIA:'' @ media_text r @ [10]"
proof -
  have "lit nl = [10]" by (simp add: nl_def lit_def)
  then show ?thesis using assms
    by (cases "har_language r") (simp_all add: rendition_clean_def media_line_def media_text_def escape_clean clean_audio
        yes_no_def, simp_all add: lit_def)
qed

lemma read_media_text:
  assumes "rendition_clean r"
  shows "read_attrs (media_text r) = media_attrs r"
proof -
  have keys: "61 \<notin> set (lit k)" if "k \<in> {''TYPE'', ''GROUP-ID'', ''NAME'', ''LANGUAGE'', ''DEFAULT'', ''AUTOSELECT'', ''URI''}" for k
    using that by (auto simp: lit_def)
  have plain: "44 \<notin> set v \<and> take 1 v \<noteq> [34] \<and> v \<noteq> []" if "v = lit ''AUDIO'' \<or> v = yes_no b" for v b
    using that by (cases b) (auto simp: lit_def yes_no_def)
  show ?thesis using assms plain [of "lit ''AUDIO''"] plain [of "yes_no b" b for b] clean_audio
    by (cases "har_language r") (simp_all add: rendition_clean_def clean_def media_text_def media_attrs_def keys
        read_attrs_quoted read_attrs_plain)
qed

lemma lines_clean:
  assumes "\<forall>r \<in> set rs. rendition_clean r"
  shows "lines_at 10 [] (concat (map (media_line (lit ''audio'')) rs) @ s) =
    map (\<lambda>r. lit ''#EXT-X-MEDIA:'' @ media_text r) rs @ lines_at 10 [] s"
  using assms
proof (induction rs)
  case (Cons r rs)
  have r: "rendition_clean r" using Cons.prems by simp
  have "10 \<notin> set (lit ''#EXT-X-MEDIA:'' @ media_text r)"
    using r by (cases "har_language r") (auto simp: rendition_clean_def clean_def media_text_def yes_no_def lit_def)
  from lines_at_line [OF this, of "[]"] show ?case using Cons by (simp add: media_line_text [OF r])
qed simp

lemma add_codecs_props:
  "distinct cs \<Longrightarrow> distinct (add_codecs cs rs) \<and> set (add_codecs cs rs) = set cs \<union> har_codec ` set rs \<and>
    take (length cs) (add_codecs cs rs) = cs"
proof (induction rs arbitrary: cs)
  case (Cons r rs)
  show ?case
  proof (cases "har_codec r \<in> set cs")
    case True
    then show ?thesis using Cons.IH [OF Cons.prems] by auto
  next
    case False
    then have "distinct (cs @ [har_codec r])" using Cons.prems by simp
    from Cons.IH [OF this] show ?thesis using False
      by (auto dest: arg_cong [where f = "take (length cs)"])
  qed
qed simp

lemma join_with_free: "\<forall>x \<in> set xs. c \<notin> set x \<Longrightarrow> c \<notin> set sep \<Longrightarrow> c \<notin> set (join_with sep xs)"
  by (induction sep xs rule: join_with.induct) auto

lemma stream_line:
  assumes "\<forall>c \<in> set (add_codecs [video] rs). clean c"
  shows "lines_at 10 [] (lit ''#EXT-X-STREAM-INF:BANDWIDTH='' @ lit (show_nat n) @ lit '',CODECS=\"'' @
      hls_variant_codecs video rs @ lit ''\",AUDIO=\"'' @ escape_hls_attr (lit ''audio'') @ lit (''\"'' @ nl) @
      lit ''video/playlist.m3u8'' @ lit nl) =
    [lit ''#EXT-X-STREAM-INF:'' @ lit ''BANDWIDTH'' @ 61 # lit (show_nat n) @ 44 # lit ''CODECS'' @ 61 # 34 #
       hls_variant_codecs video rs @ 34 # 44 # lit ''AUDIO'' @ 61 # 34 # lit ''audio'' @ [34],
     lit ''video/playlist.m3u8'']"
proof -
  define d where "d = lit (show_nat n)"
  have digits: "10 \<notin> set d" using show_nat_decimal by (fastforce simp: d_def lit_def decimal_def)
  have codecs: "10 \<notin> set (hls_variant_codecs video rs)"
    unfolding hls_variant_codecs_def using assms by (intro join_with_free) (auto simp: clean_def lit_def)
  have l1: "10 \<notin> set (lit ''#EXT-X-STREAM-INF:'' @ lit ''BANDWIDTH'' @ 61 # d @ 44 # lit ''CODECS'' @ 61 # 34 #
       hls_variant_codecs video rs @ 34 # 44 # lit ''AUDIO'' @ 61 # 34 # lit ''audio'' @ [34])"
    using digits codecs by (auto simp: lit_def)
  have l2: "10 \<notin> set (lit ''video/playlist.m3u8'')" by (simp add: lit_def)
  have "lit nl = [10]" "lit (''\"'' @ nl) = [34, 10]" by (simp_all add: nl_def lit_def)
  then show ?thesis unfolding d_def [symmetric]
    using lines_at_line [OF l1, of "[]" "lit ''video/playlist.m3u8'' @ [10]"] lines_at_line [OF l2, of "[]" "[]"]
    by (simp add: escape_clean clean_audio) (simp add: lit_def)
qed

lemma stream_attrs:
  assumes "\<forall>c \<in> set (add_codecs [video] rs). clean c"
  shows "read_attrs (lit ''BANDWIDTH'' @ 61 # lit (show_nat n) @ 44 # lit ''CODECS'' @ 61 # 34 #
       hls_variant_codecs video rs @ 34 # 44 # lit ''AUDIO'' @ 61 # 34 # lit ''audio'' @ [34]) =
    [(lit ''BANDWIDTH'', lit (show_nat n)), (lit ''CODECS'', hls_variant_codecs video rs), (lit ''AUDIO'', lit ''audio'')]"
proof -
  have codecs: "34 \<notin> set (hls_variant_codecs video rs)"
    unfolding hls_variant_codecs_def using assms by (intro join_with_free) (auto simp: clean_def lit_def)
  have keys: "61 \<notin> set (lit k)" if "k \<in> {''BANDWIDTH'', ''CODECS'', ''AUDIO''}" for k
    using that by (auto simp: lit_def)
  have "show_nat n \<noteq> []" by (subst show_nat.simps) simp
  moreover have "44 \<notin> set (lit (show_nat n))" "34 \<notin> set (lit (show_nat n))"
    using show_nat_decimal by (fastforce simp: lit_def decimal_def)+
  ultimately have n: "44 \<notin> set (lit (show_nat n))" "take 1 (lit (show_nat n)) \<noteq> [34]" "lit (show_nat n) \<noteq> []"
    by (cases "show_nat n"; simp add: lit_def)+
  show ?thesis using clean_audio
    by (simp add: read_attrs_plain [OF _ n] read_attrs_quoted keys codecs clean_def)
qed

lemma show_nat_ascii: "c \<in> set (lit (show_nat n)) \<Longrightarrow> 48 \<le> c \<and> c \<le> 57"
  using show_nat_decimal by (auto simp: lit_def decimal_def)

lemma rendition_clean_of:
  assumes "\<forall>n. hai_name i = Some n \<longrightarrow> clean n" "\<forall>l. hai_language i = Some l \<longrightarrow> clean l"
  shows "rendition_clean (rendition_of k i)"
proof -
  have "clean (lit (show_nat (Suc k)))"
    using show_nat_ascii [of 34 "Suc k"] show_nat_ascii [of 92 "Suc k"] show_nat_ascii [of 10 "Suc k"]
    by (auto simp: clean_def)
  then have "clean (lit (''Audio '' @ show_nat (Suc k)))"
    unfolding lit_append by (simp add: clean_def lit_def [of "''Audio ''"])
  moreover have "clean (lit ''audio/'' @ safe_hls_path_component t @ lit ''/playlist.m3u8'')" for t
    by (auto simp: clean_def safe_hls_path_component_def Let_def lit_def path_safe_def ascii_alphanumeric_def)
  ultimately show ?thesis using assms
    by (cases "hai_name i"; cases "hai_language i") (simp_all add: rendition_clean_def rendition_of_def)
qed

lemma safe_component_id: "s \<noteq> [] \<Longrightarrow> \<forall>c \<in> set s. path_safe c \<Longrightarrow> safe_hls_path_component s = s"
  by (simp add: safe_hls_path_component_def Let_def map_idI)

text \<open>C23: A player that reads the master playlist of a multi-audio plan finds, on one line each and in order, every
  rendition with its name, language, default flag and playlist, and one variant that names the shared video playlist and
  all codecs, each once, with the video codec first, provided that names, languages and codecs have no quotes,
  backslashes or line breaks. Tracks whose identifiers are made of letters, digits, dashes and underscores have playlists of their
  own.\<close>

theorem multi_audio_playlist_reads_back:
  fixes inputs video_track_id video_codec bandwidth
  defines "plan \<equiv> plan_multi_audio_hls_outputs video_track_id video_codec bandwidth inputs"
  assumes "\<forall>i \<in> set inputs. clean (hai_codec i) \<and> (\<forall>n. hai_name i = Some n \<longrightarrow> clean n) \<and>
      (\<forall>l. hai_language i = Some l \<longrightarrow> clean l)" "clean video_codec"
    and "distinct (map hai_track_id inputs)" "\<forall>i \<in> set inputs. hai_track_id i \<noteq> [] \<and> (\<forall>c \<in> set (hai_track_id i). path_safe c)"
  shows "read_tag (lit ''#EXT-X-MEDIA:'') (hmp_master_playlist plan) = map media_attrs (hmp_audio_renditions plan) \<and>
    (\<exists>codecs. distinct (video_codec # codecs) \<and> set (video_codec # codecs) = insert video_codec (hai_codec ` set inputs) \<and>
      read_tag (lit ''#EXT-X-STREAM-INF:'') (hmp_master_playlist plan) =
        [[(lit ''BANDWIDTH'', lit (show_nat bandwidth)), (lit ''CODECS'', join_with (lit '','') (video_codec # codecs)),
          (lit ''AUDIO'', lit ''audio'')]]) \<and>
    map har_track_id (hmp_audio_renditions plan) = map hai_track_id inputs \<and>
    distinct (map har_playlist_uri (hmp_audio_renditions plan))"
proof -
  define rs where "rs = map2 rendition_of [0..<length inputs] inputs"
  have plan: "hmp_audio_renditions plan = rs" "hmp_master_playlist plan =
      multi_audio_master_playlist_body video_codec bandwidth (lit ''audio'') (lit ''video/playlist.m3u8'') rs"
    by (simp_all add: plan_def plan_multi_audio_hls_outputs_def Let_def rs_def)
  have rs: "map f rs = map g inputs" if "\<And>k i. f (rendition_of k i) = g i" for f :: "_ \<Rightarrow> ustring" and g
    using that by (intro nth_equalityI) (simp_all add: rs_def)
  have clean_rs: "\<forall>r \<in> set rs. rendition_clean r"
    using assms(2) by (auto simp: rs_def intro!: rendition_clean_of dest!: set_zip_rightD)
  have codecs_rs: "har_codec ` set rs = hai_codec ` set inputs"
    using rs [of har_codec hai_codec] by (simp add: rendition_of_def flip: set_map)
  have props: "distinct (add_codecs [video_codec] rs)" "set (add_codecs [video_codec] rs) = insert video_codec (hai_codec ` set inputs)"
      "take 1 (add_codecs [video_codec] rs) = [video_codec]"
    using add_codecs_props [of "[video_codec]" rs] codecs_rs by simp_all
  then obtain codecs where codecs: "add_codecs [video_codec] rs = video_codec # codecs" by (cases "add_codecs [video_codec] rs") auto
  have clean_codecs: "\<forall>c \<in> set (add_codecs [video_codec] rs). clean c" unfolding props(2) using assms(2,3) by auto
  have header: "lines_at 10 [] (lit (''#EXTM3U'' @ nl @ ''#EXT-X-VERSION:7'' @ nl) @ s) =
      lit ''#EXTM3U'' # lit ''#EXT-X-VERSION:7'' # lines_at 10 [] s" for s
    by (simp add: lit_def nl_def)
  note lines = plan(2) multi_audio_master_playlist_body_def header lines_clean [OF clean_rs] stream_line [OF clean_codecs]
  have other: "strip_prefix (lit ''#EXT-X-STREAM-INF:'') (lit ''#EXT-X-MEDIA:'' @ t) = None"
      "strip_prefix (lit ''#EXT-X-MEDIA:'') (lit ''#EXT-X-STREAM-INF:'' @ t) = None"
      "strip_prefix (lit ''#EXT-X-MEDIA:'') (lit ''#EXTM3U'') = None" "strip_prefix (lit ''#EXT-X-STREAM-INF:'') (lit ''#EXTM3U'') = None"
      "strip_prefix (lit ''#EXT-X-MEDIA:'') (lit ''#EXT-X-VERSION:7'') = None"
      "strip_prefix (lit ''#EXT-X-STREAM-INF:'') (lit ''#EXT-X-VERSION:7'') = None"
      "strip_prefix (lit ''#EXT-X-MEDIA:'') (lit ''video/playlist.m3u8'') = None"
      "strip_prefix (lit ''#EXT-X-STREAM-INF:'') (lit ''video/playlist.m3u8'') = None" for t
    by (simp_all add: strip_prefix_def lit_def)
  have none: "List.map_filter (\<lambda>l. map_option read_attrs (strip_prefix (lit ''#EXT-X-STREAM-INF:'') l))
      (map (\<lambda>r. lit ''#EXT-X-MEDIA:'' @ media_text r) xs @ ys) =
      List.map_filter (\<lambda>l. map_option read_attrs (strip_prefix (lit ''#EXT-X-STREAM-INF:'') l)) ys" for xs ys
    by (induction xs) (simp_all add: other)
  have media: "List.map_filter (\<lambda>l. map_option read_attrs (strip_prefix (lit ''#EXT-X-MEDIA:'') l))
      (map (\<lambda>r. lit ''#EXT-X-MEDIA:'' @ media_text r) xs @ ys) =
      map media_attrs xs @ List.map_filter (\<lambda>l. map_option read_attrs (strip_prefix (lit ''#EXT-X-MEDIA:'') l)) ys"
    if "\<forall>r \<in> set xs. rendition_clean r" for xs ys
    using that by (induction xs) (simp_all add: read_media_text)
  have "read_tag (lit ''#EXT-X-MEDIA:'') (hmp_master_playlist plan) = map media_attrs rs"
    unfolding read_tag_def lines by (simp add: other media [OF clean_rs])
  moreover have "read_tag (lit ''#EXT-X-STREAM-INF:'') (hmp_master_playlist plan) =
      [[(lit ''BANDWIDTH'', lit (show_nat bandwidth)), (lit ''CODECS'', hls_variant_codecs video_codec rs), (lit ''AUDIO'', lit ''audio'')]]"
    unfolding read_tag_def lines by (simp add: other none stream_attrs [OF clean_codecs])
  moreover have "map har_track_id rs = map hai_track_id inputs" by (rule rs) (simp add: rendition_of_def)
  moreover have "distinct (map har_playlist_uri rs)"
  proof -
    have "map har_playlist_uri rs = map (\<lambda>i. lit ''audio/'' @ safe_hls_path_component (hai_track_id i) @ lit ''/playlist.m3u8'') inputs"
      by (rule rs) (simp add: rendition_of_def)
    also have "\<dots> = map (\<lambda>t. lit ''audio/'' @ t @ lit ''/playlist.m3u8'') (map hai_track_id inputs)"
      using assms(5) by (simp add: safe_component_id)
    finally show ?thesis using assms(4) by (simp add: distinct_map inj_on_def)
  qed
  ultimately show ?thesis using props codecs
    by (auto simp: plan(1) hls_variant_codecs_def intro!: exI [of _ codecs])
qed

theorem multi_audio_playlist_reads_back_witness:
  "let plan = plan_multi_audio_hls_outputs (lit ''v0'') (lit ''avc1.640028'') 5000000
      [\<lparr>hai_track_id = lit ''a0'', hai_codec = lit ''mp4a.40.2'', hai_language = Some (lit ''en''), hai_name = None, hai_default = True\<rparr>,
       \<lparr>hai_track_id = lit ''a1'', hai_codec = lit ''ac-3'', hai_language = None, hai_name = Some (lit ''Director''), hai_default = False\<rparr>]
    in read_tag (lit ''#EXT-X-MEDIA:'') (hmp_master_playlist plan) = map media_attrs (hmp_audio_renditions plan)"
  unfolding Let_def
  by (rule multi_audio_playlist_reads_back [THEN conjunct1])
    (simp_all add: clean_def path_safe_def ascii_alphanumeric_def, simp_all add: lit_def)

end
