(* ===== verification/HlsMux.thy ===== *)
theory HlsMux
  imports HlsWindows "HOL-Library.Multiset" "HOL-Library.Product_Lexorder"
begin

text \<open>
  Muxing one HLS segment (\<open>hls/mod.rs\<close>, \<open>check_mux_budget\<close> and \<open>mux_segment\<close>): the packets of
  a window become PES packets in decode order behind the program tables. The input trait
  \<open>HlsInput\<close> is a record whose payload read, which reaches the source file, is a function of
  the model. A demultiplexer is shown to recover exactly the samples of the window, and the
  budget computed beforehand to bound the bytes written.
\<close>

section \<open>Input and budget\<close>

record hls_input =
  hi_payload :: "packet_ref list \<Rightarrow> hls_error + bytes"
  hi_output_limit :: nat
  hi_compressed_limit :: nat

definition packet_bytes :: "hls_input \<Rightarrow> packet_ref \<Rightarrow> hls_error + bytes" where
  "packet_bytes input packet = hi_payload input [packet]"

definition track_growth :: "payload_kind \<Rightarrow> nat \<times> nat" where
  "track_growth payload =
     (case payload of
        Avc nalu_length_size sets \<Rightarrow>
          (div_ceil 4 (max nalu_length_size 1),
           sum_list (map (\<lambda>bs. sat_add 64 (length bs) 4) (aps_sps sets @ aps_pps sets)))
      | Hevc nalu_length_size sets \<Rightarrow> (div_ceil 4 (max nalu_length_size 1), length sets)
      | _ \<Rightarrow> (1, 7))"

definition packet_cost :: "bool \<Rightarrow> nat \<times> nat \<Rightarrow> packet_ref \<Rightarrow> nat" where
  "packet_cost transport_stream growth packet =
     (if transport_stream
      then sat_mul 64 (div_ceil (sat_add 64 (sat_add 64 (sat_mul 64 (pr_size packet) (fst growth)) (snd growth)) 64) 176) 188
      else sat_add 64 (pr_size packet) 16)"

fun budget_loop :: "bool \<Rightarrow> nat \<times> nat \<Rightarrow> segment_window \<Rightarrow> packet_ref list \<Rightarrow> nat \<times> nat \<Rightarrow> nat \<times> nat" where
  "budget_loop transport_stream growth window [] acc = acc"
| "budget_loop transport_stream growth window (packet # packets) (output, compressed) =
     (let time = packet_start_ms packet
      in if time < sw_start_ms window \<or> sw_end_ms window \<le> time
         then budget_loop transport_stream growth window packets (output, compressed)
         else budget_loop transport_stream growth window packets
           (sat_add 64 output (packet_cost transport_stream growth packet), sat_add 64 compressed (pr_size packet)))"

definition track_budget :: "bool \<Rightarrow> segment_window \<Rightarrow> 'e hls_track \<Rightarrow> nat \<times> nat \<Rightarrow> nat \<times> nat" where
  "track_budget transport_stream window track =
     budget_loop transport_stream (track_growth (ht_payload track)) window (ht_packets track)"

definition check_mux_budget :: "hls_input \<Rightarrow> 'e hls_track_set \<Rightarrow> segment_window \<Rightarrow> bool \<Rightarrow> hls_error + unit" where
  "check_mux_budget source tracks window transport_stream =
     (case track_budget transport_stream window (hts_audio tracks)
             (track_budget transport_stream window (hts_video tracks) (1024, 0)) of
        (output, compressed) \<Rightarrow>
          if hi_compressed_limit source < compressed
          then Inl (HlsInternal (Resource (Exceeded ''HLS compressed window'' compressed (hi_compressed_limit source))))
          else if hi_output_limit source < output
          then Inl (HlsInternal (Resource (Exceeded ''HLS output'' output (hi_output_limit source))))
          else Inr ())"

section \<open>Samples of a window\<close>

record mux_sample =
  ms_dts_ms :: nat
  ms_is_video :: bool
  ms_pts90 :: nat
  ms_dts90 :: nat
  ms_payload :: bytes

fun window_samples :: "hls_input \<Rightarrow> bool \<Rightarrow> segment_window \<Rightarrow> payload_kind \<Rightarrow> packet_ref list \<Rightarrow>
    hls_error + mux_sample list" where
  "window_samples input is_video window kind [] = Inr []"
| "window_samples input is_video window kind (packet # packets) =
     (let pts = packet_start_ms packet
      in if pts < sw_start_ms window \<or> sw_end_ms window \<le> pts
         then window_samples input is_video window kind packets
         else res_bind (packet_to_payload (packet_bytes input) packet kind) (\<lambda>payload.
           res_bind (window_samples input is_video window kind packets) (\<lambda>samples.
             Inr (\<lparr>ms_dts_ms = tp_as_millis (pr_dts packet), ms_is_video = is_video,
                   ms_pts90 = to_90khz (tp_scale (pr_pts packet)) (tp_units (pr_pts packet)),
                   ms_dts90 = to_90khz (tp_scale (pr_dts packet)) (tp_units (pr_dts packet)),
                   ms_payload = payload\<rparr> # samples))))"

definition segment_samples :: "hls_input \<Rightarrow> 'e hls_track_set \<Rightarrow> segment_window \<Rightarrow> hls_error + mux_sample list" where
  "segment_samples input tracks window =
     res_bind (window_samples input True window (ht_payload (hts_video tracks)) (ht_packets (hts_video tracks))) (\<lambda>vs.
     res_bind (window_samples input False window (ht_payload (hts_audio tracks)) (ht_packets (hts_audio tracks))) (\<lambda>as.
       Inr (sort_key (\<lambda>s. (ms_dts_ms s, \<not> ms_is_video s)) (vs @ as))))"

fun write_samples :: "payload_kind \<Rightarrow> mux_sample list \<Rightarrow> output_timestamp_sanitizer \<Rightarrow> ts_muxer \<Rightarrow> ts_muxer" where
  "write_samples audio_kind [] timestamps mux = mux"
| "write_samples audio_kind (s # ss) timestamps mux =
     (case sanitize timestamps (ms_is_video s) (ms_pts90 s) (ms_dts90 s) of (timestamps, pts90, dts90) \<Rightarrow>
        let timed = \<lparr>tpl_pts90 = pts90, tpl_dts90 = dts90, tpl_bytes = ms_payload s\<rparr>
        in write_samples audio_kind ss timestamps
             (if ms_is_video s then write_pes mux VIDEO_PID VIDEO_STREAM_ID timed True
              else write_pes mux AUDIO_PID (audio_stream_id audio_kind) timed False))"

definition mux_segment :: "hls_input \<Rightarrow> 'e hls_track_set \<Rightarrow> segment_window \<Rightarrow> hls_error + bytes" where
  "mux_segment input tracks window =
     res_bind (check_mux_budget input tracks window True) (\<lambda>_.
       let mux = write_pat_pmt (ts_muxer_new (ts_stream_type (ht_payload (hts_video tracks)))
                   (ts_stream_type (ht_payload (hts_audio tracks))))
       in res_bind (segment_samples input tracks window) (\<lambda>samples.
            Inr (tm_out (write_samples (ht_payload (hts_audio tracks)) samples sanitizer_default mux))))"

section \<open>A demultiplexer\<close>

text \<open>The transport packets of a stream, and the units of a PID: a packet with the start flag
  opens a unit, the others continue the last one.\<close>

function packets_188 :: "bytes \<Rightarrow> bytes list" where
  "packets_188 bs = (if length bs < 188 then [] else take 188 bs # packets_188 (drop 188 bs))"
  by pat_completeness auto
termination by (relation "measure length") auto

declare packets_188.simps [simp del]

definition of_pid :: "nat \<Rightarrow> bytes \<Rightarrow> bytes list" where
  "of_pid pid out = filter (\<lambda>p. ts_pid p = pid) (packets_188 out)"

definition unit_step :: "bytes \<Rightarrow> bytes list \<Rightarrow> bytes list" where
  "unit_step p us = (if ts_start p then us @ [ts_payload p] else butlast us @ [last us @ ts_payload p])"

definition ts_units :: "nat \<Rightarrow> bytes \<Rightarrow> bytes list" where
  "ts_units pid out = fold unit_step (of_pid pid out) []"

definition continuous :: "nat \<Rightarrow> bytes \<Rightarrow> bool" where
  "continuous pid out \<longleftrightarrow> map ts_cc (of_pid pid out) = map (\<lambda>i. i mod 16) [0..<length (of_pid pid out)]"

lemma packets_188_concat:
  "\<forall>p \<in> set ps. length p = 188 \<Longrightarrow> packets_188 (concat ps @ rest) = ps @ packets_188 rest"
proof (induction ps)
  case (Cons p ps)
  then show ?case by (subst packets_188.simps) simp
qed simp

lemma packets_188_Nil [simp]: "packets_188 [] = []"
  by (subst packets_188.simps) simp

lemma fold_unit_continue:
  "\<forall>p \<in> set ps. \<not> ts_start p \<Longrightarrow> us \<noteq> [] \<Longrightarrow>
    fold unit_step ps us = butlast us @ [last us @ concat (map ts_payload ps)]"
proof (induction ps arbitrary: us)
  case (Cons p ps)
  then show ?case by (simp add: unit_step_def butlast_append)
qed simp

lemma fold_unit_write:
  assumes "map ts_start ps = map (\<lambda>i. i = 0 \<and> True \<and> True) [0..<length ps]" "ps \<noteq> []"
  shows "fold unit_step ps us = us @ [concat (map ts_payload ps)]"
proof -
  obtain p qs where ps: "ps = p # qs" using assms(2) by (cases ps) auto
  have f: "ts_start (ps ! i) = (i = 0)" if "i < length ps" for i
    using arg_cong [OF assms(1), of "\<lambda>xs. xs ! i"] that by simp
  have "ts_start p" using f [of 0] by (simp add: ps)
  moreover have "\<forall>q \<in> set qs. \<not> ts_start q"
  proof
    fix q assume "q \<in> set qs"
    then obtain j where "j < length qs" "q = qs ! j" by (auto simp: in_set_conv_nth)
    then show "\<not> ts_start q" using f [of "Suc j"] by (simp add: ps)
  qed
  ultimately show ?thesis by (simp add: ps unit_step_def fold_unit_continue)
qed

text \<open>The invariant of the muxer: the output is whole valid packets and every PID carries its
  units under consecutive continuity counters.\<close>

definition mux_inv :: "ts_muxer \<Rightarrow> (nat \<Rightarrow> bytes list) \<Rightarrow> bool" where
  "mux_inv m units \<longleftrightarrow> (\<exists>ps. tm_out m = concat ps \<and> list_all ts_valid ps \<and>
     (\<forall>pid < 8192. let qs = filter (\<lambda>p. ts_pid p = pid) ps in
        fold unit_step qs [] = units pid \<and> map ts_cc qs = map (\<lambda>i. i mod 16) [0..<length qs] \<and>
        counter m pid = length qs mod 16))"

lemma mux_inv_new: "mux_inv (ts_muxer_new v a) (\<lambda>_. [])"
  unfolding mux_inv_def
  by (intro exI [of _ "[]"]) (simp add: ts_muxer_new_def counter_def)

lemma mux_inv_write:
  assumes inv: "mux_inv m units" and pid: "pid < 8192" and ne: "payload \<noteq> []"
  shows "mux_inv (write_ts_packets m pid True pcr payload) (units(pid := units pid @ [payload])) \<and>
    length (tm_out (write_ts_packets m pid True pcr payload)) \<le>
      length (tm_out m) + 188 * div_ceil (length payload) 176 \<and>
    tm_video_stream_type (write_ts_packets m pid True pcr payload) = tm_video_stream_type m \<and>
    tm_audio_stream_type (write_ts_packets m pid True pcr payload) = tm_audio_stream_type m"
proof -
  let ?m = "write_ts_packets m pid True pcr payload"
  obtain ps where ps: "tm_out m = concat ps" "list_all ts_valid ps"
    "\<forall>pid < 8192. let qs = filter (\<lambda>p. ts_pid p = pid) ps in
        fold unit_step qs [] = units pid \<and> map ts_cc qs = map (\<lambda>i. i mod 16) [0..<length qs] \<and>
        counter m pid = length qs mod 16"
    using inv unfolding mux_inv_def by blast
  obtain rs where rs: "tm_out ?m = tm_out m @ concat rs" "packets_of pid (counter m pid) rs"
    "concat (map ts_payload rs) = payload"
    "\<forall>q. counter ?m q = (if q = pid then (counter m pid + length rs) mod 16 else counter m q)"
    "map ts_start rs = map (\<lambda>i. i = 0 \<and> True \<and> True) [0..<length rs]"
    "(length rs - 1) * 176 \<le> length payload - 1"
    "tm_video_stream_type ?m = tm_video_stream_type m" "tm_audio_stream_type ?m = tm_audio_stream_type m"
    using ts_loop_spec [OF pid, of 0 payload True pcr True m] unfolding write_ts_packets_def by auto
  have rne: "rs \<noteq> []" using rs(3) ne by auto
  have valid: "list_all ts_valid rs" "\<forall>p \<in> set rs. ts_pid p = pid"
    using rs(2) by (simp_all add: packets_of_def list_all_iff)
  have f: "filter (\<lambda>p. ts_pid p = q) (ps @ rs) = filter (\<lambda>p. ts_pid p = q) ps @ (if q = pid then rs else [])" for q
    using valid(2) by (auto simp: filter_id_conv filter_empty_conv)
  have "mux_inv ?m (units(pid := units pid @ [payload]))"
    unfolding mux_inv_def
  proof (intro exI [of _ "ps @ rs"] conjI allI impI)
    fix q assume q: "q < (8192 :: nat)"
    let ?qs = "filter (\<lambda>p. ts_pid p = q) ps"
    have o: "fold unit_step ?qs [] = units q" "map ts_cc ?qs = map (\<lambda>i. i mod 16) [0..<length ?qs]"
      "counter m q = length ?qs mod 16"
      using ps(3) q by (simp_all add: Let_def)
    show "let qs = filter (\<lambda>p. ts_pid p = q) (ps @ rs) in
        fold unit_step qs [] = (units(pid := units pid @ [payload])) q \<and>
        map ts_cc qs = map (\<lambda>i. i mod 16) [0..<length qs] \<and> counter ?m q = length qs mod 16"
    proof (cases "q = pid")
      case True
      have "map ts_cc rs = map (\<lambda>i. (length ?qs mod 16 + i) mod 16) [0..<length rs]"
        using rs(2) o(3) True by (simp add: packets_of_def)
      also have "\<dots> = map (\<lambda>i. i mod 16) [length ?qs..<length ?qs + length rs]"
        by (rule nth_equalityI) (simp_all add: mod_add_left_eq)
      finally have "map ts_cc (?qs @ rs) = map (\<lambda>i. i mod 16) [0..<length (?qs @ rs)]"
        using o(2) by (simp add: upt_add_eq_append [of 0, simplified])
      then show ?thesis using o True rs(4) fold_unit_write [OF rs(5) rne] rs(3)
        unfolding f Let_def by (simp add: mod_add_left_eq)
    next
      case False
      then show ?thesis using o rs(4) unfolding f Let_def by simp
    qed
  qed (use ps rs valid in simp_all)
  moreover have "length (tm_out ?m) \<le> length (tm_out m) + 188 * div_ceil (length payload) 176"
  proof -
    have l: "length (concat rs) = 188 * length rs"
      using valid(1) by (induction rs) (auto simp: ts_valid_def)
    have "\<not> length payload \<le> (length rs - 1) * 176" using rs(6) ne by (cases payload) auto
    then have "length rs - 1 < div_ceil (length payload) 176"
      using div_ceil_least [of 176 "length payload" "length rs - 1"] by simp
    then have "length rs \<le> div_ceil (length payload) 176" using rne by (cases rs) auto
    then show ?thesis unfolding rs(1) by (simp add: l)
  qed
  ultimately show ?thesis using rs(7,8) by blast
qed

lemma mux_inv_units:
  assumes "mux_inv m units" "pid < 8192"
  shows "ts_units pid (tm_out m) = units pid \<and> continuous pid (tm_out m)"
proof -
  obtain ps where ps: "tm_out m = concat ps" "list_all ts_valid ps"
    "\<forall>pid < 8192. let qs = filter (\<lambda>p. ts_pid p = pid) ps in
        fold unit_step qs [] = units pid \<and> map ts_cc qs = map (\<lambda>i. i mod 16) [0..<length qs] \<and>
        counter m pid = length qs mod 16"
    using assms(1) unfolding mux_inv_def by blast
  have "packets_188 (tm_out m) = ps"
    using packets_188_concat [of ps "[]"] ps(1,2) by (auto simp: list_all_iff ts_valid_def)
  then show ?thesis using ps(3) assms(2) by (simp add: ts_units_def continuous_def of_pid_def Let_def)
qed

section \<open>What a segment holds\<close>

text \<open>The samples with the timestamps the sanitizer gives them, and the PES packets of a stream.\<close>

definition sample_times :: "mux_sample \<Rightarrow> bool \<times> nat \<times> nat" where
  "sample_times s = (ms_is_video s, ms_pts90 s, ms_dts90 s)"

definition stamped :: "output_timestamp_sanitizer \<Rightarrow> mux_sample list \<Rightarrow> ((bool \<times> nat \<times> nat) \<times> bytes) list" where
  "stamped ts ss = zip (sanitize_all ts (map sample_times ss)) (map ms_payload ss)"

definition stream_pes :: "bool \<Rightarrow> u8 \<Rightarrow> ((bool \<times> nat \<times> nat) \<times> bytes) list \<Rightarrow> bytes list" where
  "stream_pes video stream_id xs =
     map (\<lambda>((v, pts, dts), bs). pes_packet stream_id pts dts bs) (filter (\<lambda>x. fst (fst x) = video) xs)"

lemma pes_packet_length: "length (pes_packet stream_id pts dts bs) \<le> length bs + 19" "pes_packet stream_id pts dts bs \<noteq> []"
  by (simp_all add: pes_packet_def write_pts_def Let_def be_u16_def)

lemma write_pes_inv:
  assumes "mux_inv m units" "pid < 8192"
  shows "mux_inv (write_pes m pid sid t pcr)
      (units(pid := units pid @ [pes_packet sid (tpl_pts90 t) (tpl_dts90 t) (tpl_bytes t)])) \<and>
    length (tm_out (write_pes m pid sid t pcr)) \<le> length (tm_out m) + 188 * div_ceil (length (tpl_bytes t) + 19) 176"
proof -
  let ?p = "pes_packet sid (tpl_pts90 t) (tpl_dts90 t) (tpl_bytes t)"
  have "div_ceil (length ?p) 176 \<le> div_ceil (length (tpl_bytes t) + 19) 176"
    using pes_packet_length(1) by (intro div_ceil_mono) simp_all
  then have le: "188 * div_ceil (length ?p) 176 \<le> 188 * div_ceil (length (tpl_bytes t) + 19) 176" by simp
  show ?thesis using mux_inv_write [OF assms pes_packet_length(2)] le
    unfolding write_pes_def by (meson add_le_mono le_trans order_refl)
qed

lemma pids: "VIDEO_PID < 8192" "AUDIO_PID < 8192" "PMT_PID < 8192" "VIDEO_PID \<noteq> AUDIO_PID"
  "VIDEO_PID \<noteq> 0" "AUDIO_PID \<noteq> 0" "PMT_PID \<noteq> 0" "VIDEO_PID \<noteq> PMT_PID" "AUDIO_PID \<noteq> PMT_PID"
  by (simp_all add: VIDEO_PID_def AUDIO_PID_def PMT_PID_def)

lemma write_samples_inv:
  assumes "mux_inv m units"
  shows "mux_inv (write_samples kind ss ts m)
      (\<lambda>pid. units pid @ (if pid = VIDEO_PID then stream_pes True VIDEO_STREAM_ID (stamped ts ss)
         else if pid = AUDIO_PID then stream_pes False (audio_stream_id kind) (stamped ts ss) else [])) \<and>
    length (tm_out (write_samples kind ss ts m)) \<le>
      length (tm_out m) + sum_list (map (\<lambda>s. 188 * div_ceil (length (ms_payload s) + 19) 176) ss)"
  using assms
proof (induction ss arbitrary: units ts m)
  case Nil
  then show ?case by (simp add: stamped_def stream_pes_def cong: if_cong)
next
  case (Cons s ss)
  obtain ts' pts dts where e: "sanitize ts (ms_is_video s) (ms_pts90 s) (ms_dts90 s) = (ts', pts, dts)"
    by (cases "sanitize ts (ms_is_video s) (ms_pts90 s) (ms_dts90 s)") auto
  define t where "t = \<lparr>tpl_pts90 = pts, tpl_dts90 = dts, tpl_bytes = ms_payload s\<rparr>"
  define pid where "pid = (if ms_is_video s then VIDEO_PID else AUDIO_PID)"
  define sid where "sid = (if ms_is_video s then VIDEO_STREAM_ID else audio_stream_id kind)"
  define m1 where "m1 = write_pes m pid sid t (ms_is_video s)"
  have w: "write_samples kind (s # ss) ts m = write_samples kind ss ts' m1"
    using e by (simp add: m1_def pid_def sid_def t_def)
  have st: "stamped ts (s # ss) = ((ms_is_video s, pts, dts), ms_payload s) # stamped ts' ss"
    using e by (simp add: stamped_def sample_times_def)
  have "pid < 8192" using pids by (simp add: pid_def)
  note m1 = write_pes_inv [OF Cons.prems this, of sid t "ms_is_video s", folded m1_def]
  let ?u1 = "units(pid := units pid @ [pes_packet sid pts dts (ms_payload s)])"
  have i1: "mux_inv m1 ?u1" using m1 by (simp add: t_def)
  have l1: "length (tm_out m1) \<le> length (tm_out m) + 188 * div_ceil (length (ms_payload s) + 19) 176"
    using m1 by (simp add: t_def)
  have u: "(\<lambda>q. ?u1 q @ (if q = VIDEO_PID then stream_pes True VIDEO_STREAM_ID (stamped ts' ss)
         else if q = AUDIO_PID then stream_pes False (audio_stream_id kind) (stamped ts' ss) else []))
      = (\<lambda>q. units q @ (if q = VIDEO_PID then stream_pes True VIDEO_STREAM_ID (stamped ts (s # ss))
         else if q = AUDIO_PID then stream_pes False (audio_stream_id kind) (stamped ts (s # ss)) else []))"
    using pids(4) by (auto simp: fun_eq_iff st stream_pes_def pid_def sid_def)
  show ?case using Cons.IH [OF i1, of ts'] l1 unfolding w u by simp
qed

lemma write_pat_pmt_inv:
  assumes "mux_inv m units" "tm_out m = []"
  shows "mux_inv (write_pat_pmt m) (units(0 := units 0 @ [0 # pat_section], PMT_PID := units PMT_PID @
      [0 # pmt_section (tm_video_stream_type m) (tm_audio_stream_type m)])) \<and> length (tm_out (write_pat_pmt m)) \<le> 376"
proof -
  define m1 where "m1 = write_psi m 0 pat_section"
  have p: "length (0 # pat_section) = 17" by (simp add: pat_section_def append_crc32_def)
  have q: "length (0 # pmt_section v a) \<le> 176" for v a
    by (simp add: pmt_section_def append_crc32_def pmt_audio_descriptors_def registration_descriptor_def Let_def)
  have m1: "mux_inv m1 (units(0 := units 0 @ [0 # pat_section]))" "length (tm_out m1) \<le> 188"
    "tm_video_stream_type m1 = tm_video_stream_type m" "tm_audio_stream_type m1 = tm_audio_stream_type m"
    using mux_inv_write [OF assms(1), of 0 "0 # pat_section" None] assms(2) p
    by (simp_all add: m1_def write_psi_def div_ceil_def)
  let ?pmt = "0 # pmt_section (tm_video_stream_type m) (tm_audio_stream_type m)"
  have one: "div_ceil (length ?pmt) 176 \<le> 1" using q div_ceil_least [of 176 "length ?pmt" 1] by simp
  have e: "write_pat_pmt m = write_ts_packets m1 PMT_PID True None ?pmt"
    by (simp add: write_pat_pmt_def m1_def write_psi_def m1(3,4) [unfolded m1_def write_psi_def])
  have "mux_inv (write_pat_pmt m) ((units(0 := units 0 @ [0 # pat_section]))(PMT_PID :=
      (units(0 := units 0 @ [0 # pat_section])) PMT_PID @ [?pmt]))"
    "length (tm_out (write_pat_pmt m)) \<le> 188 + 188 * div_ceil (length ?pmt) 176"
    using mux_inv_write [OF m1(1) pids(3), of ?pmt None] m1(2) unfolding e by simp_all
  then show ?thesis using one pids(7) by simp
qed

lemma segment_pids:
  "(\<lambda>pid. ((\<lambda>_. [])(0 := A, PMT_PID := B)) pid @
      (if pid = VIDEO_PID then V else if pid = AUDIO_PID then W else [])) =
   (\<lambda>pid. if pid = 0 then A else if pid = PMT_PID then B else if pid = VIDEO_PID then V
      else if pid = AUDIO_PID then W else [])"
  using pids by (auto simp: fun_eq_iff)

lemma mux_segment_cases:
  assumes "mux_segment input tracks window = Inr out"
  obtains samples m where "check_mux_budget input tracks window True = Inr ()"
    "segment_samples input tracks window = Inr samples" "out = tm_out m"
    "mux_inv m (\<lambda>pid. if pid = 0 then [0 # pat_section]
      else if pid = PMT_PID then [0 # pmt_section (ts_stream_type (ht_payload (hts_video tracks)))
             (ts_stream_type (ht_payload (hts_audio tracks)))]
      else if pid = VIDEO_PID then stream_pes True VIDEO_STREAM_ID (stamped sanitizer_default samples)
      else if pid = AUDIO_PID
      then stream_pes False (audio_stream_id (ht_payload (hts_audio tracks))) (stamped sanitizer_default samples)
      else [])"
    "length out \<le> 376 + sum_list (map (\<lambda>s. 188 * div_ceil (length (ms_payload s) + 19) 176) samples)"
proof -
  let ?v = "ts_stream_type (ht_payload (hts_video tracks))" and ?a = "ts_stream_type (ht_payload (hts_audio tracks))"
  let ?k = "ht_payload (hts_audio tracks)"
  define m0 where "m0 = write_pat_pmt (ts_muxer_new ?v ?a)"
  obtain samples where s: "check_mux_budget input tracks window True = Inr ()"
    "segment_samples input tracks window = Inr samples"
    "out = tm_out (write_samples ?k samples sanitizer_default m0)"
    using assms unfolding mux_segment_def Let_def m0_def by (auto simp: result_simps)
  have m0: "mux_inv m0 ((\<lambda>_. [])(0 := [0 # pat_section], PMT_PID := [0 # pmt_section ?v ?a]))"
    "length (tm_out m0) \<le> 376"
    using write_pat_pmt_inv [OF mux_inv_new [of ?v ?a]] by (simp_all add: m0_def ts_muxer_new_def)
  note w = write_samples_inv [OF m0(1), of ?k samples sanitizer_default]
  show ?thesis
  proof (rule that [OF s(1,2,3)])
    show "length out \<le> 376 + sum_list (map (\<lambda>s. 188 * div_ceil (length (ms_payload s) + 19) 176) samples)"
      using conjunct2 [OF w] m0(2) s(3) by simp
  qed (use conjunct1 [OF w, unfolded segment_pids] in blast)
qed

section \<open>What a player reads\<close>

text \<open>A PES packet by the format's fields: the start code, the stream, a length that is zero or counts the bytes
  behind it, the flags that announce the timestamps, the header length and the payload behind the header. A unit
  without a decode time of its own is decoded when it is presented.\<close>

definition read_pes :: "bytes \<Rightarrow> (u8 \<times> nat \<times> nat \<times> bytes) option" where
  "read_pes u =
     (if length u < 14 \<or> take 3 u \<noteq> [0, 0, 1] \<or> \<not> bit (u ! 7) 7 then None
      else
        let pes_length = be_nat (slice u 4 6);
            header_length = unat (u ! 8);
            pts = read_pts (slice u 9 14);
            dts = (if bit (u ! 7) 6 then read_pts (slice u 14 19) else pts)
        in if length u < 9 + header_length \<or> (pes_length \<noteq> 0 \<and> pes_length \<noteq> length u - 6) then None
           else Some (u ! 3, pts, dts, drop (9 + header_length) u))"

lemma length_write_pts [simp]: "length (write_pts prefix ts) = 5"
  by (simp add: write_pts_def Let_def)

lemma read_pes_packet: "read_pes (pes_packet sid pts dts bs) = Some (sid, pts mod 2 ^ 29, dts mod 2 ^ 29, bs)"
proof -
  define n where "n = (let l = sat_add 64 (length bs) (3 + (if pts \<noteq> dts then 10 else 5)) in if 2 ^ 16 - 1 < l then 0 else l)"
  have n: "n = 0 \<or> n = length bs + 3 + (if pts \<noteq> dts then 10 else 5)" "n < 2 ^ 16"
    by (auto simp: n_def Let_def sat_add_def min_def)
  have be: "be_nat (be_u16 n) = n" using n(2) by simp
  have pe: "pes_packet sid pts dts bs = [0, 0, 1, sid] @ be_u16 n @
      [0x80, if pts \<noteq> dts then 0xc0 else 0x80, byte (if pts \<noteq> dts then 10 else 5)] @
      write_pts (if pts \<noteq> dts then 3 else 2) pts @ (if pts \<noteq> dts then write_pts 1 dts else []) @ bs"
    unfolding pes_packet_def n_def Let_def ..
  obtain l1 l2 where l: "be_u16 n = [l1, l2]" by (simp add: be_u16_def)
  note l' = be [unfolded l]
  have bits: "bit (0x80 :: u8) 7" "\<not> bit (0x80 :: u8) 6" "bit (0xc0 :: u8) 7" "bit (0xc0 :: u8) 6"
    by (simp_all add: bit_numeral_rec)
  show ?thesis
  proof (cases "pts = dts")
    case True
    obtain p1 p2 p3 p4 p5 where p: "write_pts 2 pts = [p1, p2, p3, p4, p5]"
      by (simp add: write_pts_def Let_def)
    have e: "pes_packet sid pts dts bs = [0, 0, 1, sid, l1, l2, 0x80, 0x80, byte 5] @ [p1, p2, p3, p4, p5] @ bs"
      using True p unfolding pe l by simp
    have "read_pts [p1, p2, p3, p4, p5] = pts mod 2 ^ 29" using read_write_pts [of 2 pts] p by simp
    then show ?thesis unfolding e read_pes_def using n l' bits True by (auto simp: slice_def byte_def Let_def)
  next
    case False
    obtain p1 p2 p3 p4 p5 q1 q2 q3 q4 q5 where p: "write_pts 3 pts = [p1, p2, p3, p4, p5]" "write_pts 1 dts = [q1, q2, q3, q4, q5]"
      by (simp add: write_pts_def Let_def)
    have e: "pes_packet sid pts dts bs =
        [0, 0, 1, sid, l1, l2, 0x80, 0xc0, byte 10] @ [p1, p2, p3, p4, p5] @ [q1, q2, q3, q4, q5] @ bs"
      using False p unfolding pe l by simp
    have "read_pts [p1, p2, p3, p4, p5] = pts mod 2 ^ 29" "read_pts [q1, q2, q3, q4, q5] = dts mod 2 ^ 29"
      using read_write_pts [of 3 pts] read_write_pts [of 1 dts] p by simp_all
    then show ?thesis unfolding e read_pes_def using n l' bits False by (auto simp: slice_def byte_def Let_def)
  qed
qed

text \<open>The packets of a window in decode order, a time on the clock of the stream, and decode times spaced apart: a
  time that does not lie behind the one before is moved one tick behind it.\<close>

definition decode_order :: "segment_window \<Rightarrow> packet_ref list \<Rightarrow> packet_ref list" where
  "decode_order window packets = sort_key (\<lambda>p. tp_as_millis (pr_dts p)) (filter (in_window window) packets)"

definition clock90 :: "time_point \<Rightarrow> nat" where
  "clock90 t = min (tp_units t * 90000) (2 ^ 64 - 1) div units_per_second (tp_scale t)"

fun spaced :: "nat option \<Rightarrow> nat list \<Rightarrow> nat list" where
  "spaced prev [] = []"
| "spaced prev (d # ds) =
     (let d' = (case prev of None \<Rightarrow> d | Some l \<Rightarrow> if l < d then d else min (l + 1) (2 ^ 64 - 1))
      in d' # spaced (Some d') ds)"

text \<open>The units of a stream carry a track: one unit per packet of the window, in decode order, under the stream id of
  the track, with the payload the packet converts to and its times, of which a unit keeps 29 bits.\<close>

definition carries_track :: "hls_input \<Rightarrow> segment_window \<Rightarrow> u8 \<Rightarrow> 'e hls_track \<Rightarrow> bytes list \<Rightarrow> bool" where
  "carries_track input window stream_id track units \<longleftrightarrow>
     (let packets = decode_order window (ht_packets track)
      in list_all2 (\<lambda>(p, dts) u.
           case packet_to_payload (packet_bytes input) p (ht_payload track) of
             Inl _ \<Rightarrow> False
           | Inr payload \<Rightarrow> read_pes u = Some (stream_id, max (clock90 (pr_pts p)) dts mod 2 ^ 29, dts mod 2 ^ 29, payload))
         (zip packets (spaced None (map (\<lambda>p. clock90 (pr_dts p)) packets))) units)"

lemma length_spaced [simp]: "length (spaced prev ds) = length ds"
  by (induction prev ds rule: spaced.induct) (simp_all add: Let_def)

lemma to_90khz_clock: "to_90khz (tp_scale t) (tp_units t) = clock90 t"
  by (simp add: to_90khz_def clock90_def sat_mul_def TS_CLOCK_def)

lemma sanitize_spaced:
  "sanitize ts v pts dts =
    (let d = (case last_dts90 ts v of None \<Rightarrow> dts | Some l \<Rightarrow> if l < dts then dts else min (l + 1) (2 ^ 64 - 1))
     in (if v then ts\<lparr>last_video_dts90 := Some d\<rparr> else ts\<lparr>last_audio_dts90 := Some d\<rparr>, max pts d, d))"
  by (cases v) (auto simp: sanitize_def last_dts90_def sat_add_def Let_def not_le split: option.splits)

lemma stamped_stream:
  "filter (\<lambda>x. fst (fst x) = v) (stamped ts ss) =
    (let fs = filter (\<lambda>s. ms_is_video s = v) ss
     in map (\<lambda>(s, d). ((v, max (ms_pts90 s) d, d), ms_payload s)) (zip fs (spaced (last_dts90 ts v) (map ms_dts90 fs))))"
proof (induction ss arbitrary: ts)
  case (Cons s ss)
  obtain ts' pts d where e: "sanitize ts (ms_is_video s) (ms_pts90 s) (ms_dts90 s) = (ts', pts, d)"
    by (cases "sanitize ts (ms_is_video s) (ms_pts90 s) (ms_dts90 s)") auto
  have d: "d = (case last_dts90 ts (ms_is_video s) of None \<Rightarrow> ms_dts90 s
      | Some l \<Rightarrow> if l < ms_dts90 s then ms_dts90 s else min (l + 1) (2 ^ 64 - 1))"
    "pts = max (ms_pts90 s) d"
    "last_dts90 ts' v = (if ms_is_video s = v then Some d else last_dts90 ts v)"
    using e by (auto simp: sanitize_spaced last_dts90_def Let_def)
  have st: "stamped ts (s # ss) = ((ms_is_video s, pts, d), ms_payload s) # stamped ts' ss"
    using e by (simp add: stamped_def sample_times_def)
  show ?case
  proof (cases "ms_is_video s = v")
    case True
    have "spaced (last_dts90 ts v) (ms_dts90 s # ds) = d # spaced (Some d) ds" for ds
      using d(1) True by (simp add: Let_def)
    then show ?thesis using Cons.IH [of ts'] d(2,3) True unfolding st by (simp add: Let_def)
  next
    case False
    then show ?thesis using Cons.IH [of ts'] d(3) unfolding st by (simp add: Let_def)
  qed
qed (simp add: stamped_def)

lemma sort_key_map: "sort_key f (map g xs) = map g (sort_key (\<lambda>x. f (g x)) xs)"
proof (induction xs)
  case (Cons x xs)
  have "insort_key f (g x) (map g ys) = map g (insort_key (\<lambda>x. f (g x)) x ys)" for ys
    by (induction ys) simp_all
  with Cons show ?case by simp
qed simp

lemma sort_key_pair: "sort_key (\<lambda>x. (f x, c)) xs = sort_key f xs"
proof (induction xs)
  case (Cons x xs)
  have "insort_key (\<lambda>x. (f x, c)) x ys = insort_key f x ys" for ys
    by (induction ys) (auto simp: less_eq_prod_def)
  with Cons show ?case by simp
qed simp

definition window_sample :: "hls_input \<Rightarrow> bool \<Rightarrow> payload_kind \<Rightarrow> packet_ref \<Rightarrow> mux_sample" where
  "window_sample input is_video kind p =
     \<lparr>ms_dts_ms = tp_as_millis (pr_dts p), ms_is_video = is_video, ms_pts90 = clock90 (pr_pts p),
      ms_dts90 = clock90 (pr_dts p), ms_payload = projr (packet_to_payload (packet_bytes input) p kind)\<rparr>"

lemma window_samples_map:
  "window_samples input v window kind ps = Inr ss \<Longrightarrow>
    ss = map (window_sample input v kind) (filter (in_window window) ps) \<and>
    (\<forall>p \<in> set (filter (in_window window) ps). \<exists>b. packet_to_payload (packet_bytes input) p kind = Inr b)"
proof (induction ps arbitrary: ss)
  case (Cons p ps)
  show ?case
  proof (cases "in_window window p")
    case True
    then have n: "\<not> (packet_start_ms p < sw_start_ms window \<or> sw_end_ms window \<le> packet_start_ms p)"
      by (simp add: in_window_def)
    obtain bs ss' where s: "packet_to_payload (packet_bytes input) p kind = Inr bs"
      "window_samples input v window kind ps = Inr ss'"
      "ss = \<lparr>ms_dts_ms = tp_as_millis (pr_dts p), ms_is_video = v, ms_pts90 = clock90 (pr_pts p),
        ms_dts90 = clock90 (pr_dts p), ms_payload = bs\<rparr> # ss'"
      using Cons.prems n by (auto simp: result_simps Let_def to_90khz_clock)
    show ?thesis using Cons.IH [OF s(2)] s True by (simp add: window_sample_def)
  next
    case False
    then have "packet_start_ms p < sw_start_ms window \<or> sw_end_ms window \<le> packet_start_ms p"
      by (auto simp: in_window_def)
    then show ?thesis using Cons False by (simp add: Let_def)
  qed
qed simp

lemma segment_stream:
  assumes "segment_samples input tracks window = Inr samples"
    and "track = (if v then hts_video tracks else hts_audio tracks)"
  shows "filter (\<lambda>s. ms_is_video s = v) samples =
      map (window_sample input v (ht_payload track)) (decode_order window (ht_packets track)) \<and>
    (\<forall>p \<in> set (decode_order window (ht_packets track)).
      \<exists>b. packet_to_payload (packet_bytes input) p (ht_payload track) = Inr b)"
proof -
  let ?k = "\<lambda>s. (ms_dts_ms s, \<not> ms_is_video s)"
  obtain vs as where s: "window_samples input True window (ht_payload (hts_video tracks)) (ht_packets (hts_video tracks)) = Inr vs"
    "window_samples input False window (ht_payload (hts_audio tracks)) (ht_packets (hts_audio tracks)) = Inr as"
    "samples = sort_key ?k (vs @ as)"
    using assms(1) by (auto simp: segment_samples_def result_simps)
  note m = window_samples_map [OF s(1)] window_samples_map [OF s(2)]
  let ?g = "window_sample input v (ht_payload track)" and ?ps = "filter (in_window window) (ht_packets track)"
  have "\<forall>s \<in> set vs. ms_is_video s" "\<forall>s \<in> set as. \<not> ms_is_video s"
    using m by (auto simp: window_sample_def)
  then have "filter (\<lambda>s. ms_is_video s = v) (vs @ as) = map ?g ?ps"
    using m assms(2) by (cases v) (simp_all add: filter_id_conv filter_empty_conv)
  then have "filter (\<lambda>s. ms_is_video s = v) samples = sort_key ?k (map ?g ?ps)"
    unfolding s(3) by (simp only: filter_sort)
  also have "\<dots> = map ?g (decode_order window (ht_packets track))"
    unfolding sort_key_map decode_order_def by (simp add: window_sample_def sort_key_pair)
  finally show ?thesis using m assms(2) by (auto simp: decode_order_def)
qed

lemma stream_carries_track:
  assumes "segment_samples input tracks window = Inr samples"
    and "track = (if v then hts_video tracks else hts_audio tracks)"
  shows "carries_track input window sid track (stream_pes v sid (stamped sanitizer_default samples))"
proof -
  let ?ps = "decode_order window (ht_packets track)" and ?g = "window_sample input v (ht_payload track)"
  note s = segment_stream [OF assms]
  have none: "last_dts90 sanitizer_default v = None" by (simp add: last_dts90_def sanitizer_default_def)
  let ?zs = "zip ?ps (spaced None (map (\<lambda>p. clock90 (pr_dts p)) ?ps))"
  have pes: "stream_pes v sid (stamped sanitizer_default samples) =
      map (\<lambda>(p, d). pes_packet sid (max (clock90 (pr_pts p)) d) d (ms_payload (?g p))) ?zs"
    unfolding stream_pes_def stamped_stream none conjunct1 [OF s] Let_def
    by (simp add: zip_map1 split_beta comp_def window_sample_def)
  have "case packet_to_payload (packet_bytes input) p (ht_payload track) of
      Inl _ \<Rightarrow> False
    | Inr payload \<Rightarrow> read_pes (pes_packet sid (max (clock90 (pr_pts p)) d) d (ms_payload (?g p))) =
        Some (sid, max (clock90 (pr_pts p)) d mod 2 ^ 29, d mod 2 ^ 29, payload)" if "(p, d) \<in> set ?zs" for p d
  proof -
    have "p \<in> set ?ps" using that by (rule set_zip_leftD)
    then obtain b where "packet_to_payload (packet_bytes input) p (ht_payload track) = Inr b" using s by blast
    then show ?thesis by (simp add: read_pes_packet window_sample_def)
  qed
  then show ?thesis unfolding carries_track_def Let_def pes
    by (auto simp: list_all2_map2 list_all2_same)
qed

text \<open>C10: A player that follows a muxed segment recovers its window. Under continuous counters on every PID it finds
  the program tables and, on the video and on the audio PID, PES units that its own reader of the PES format decodes:
  one per packet of the track that falls into the window, in the order of their decode times, each with the stream id
  of the track, the payload the packet converts to, and the packet's times on the 90 kHz clock, of which the decode
  time is moved behind the one before where it does not lie behind it and the presentation time is never before the
  decode time. Of each time a unit keeps the low 29 bits.\<close>

theorem mux_segment_demultiplexes:
  assumes "mux_segment input tracks window = Inr out"
  shows "ts_units 0 out = [0 # pat_section] \<and>
    ts_units PMT_PID out = [0 # pmt_section (ts_stream_type (ht_payload (hts_video tracks)))
      (ts_stream_type (ht_payload (hts_audio tracks)))] \<and>
    carries_track input window VIDEO_STREAM_ID (hts_video tracks) (ts_units VIDEO_PID out) \<and>
    carries_track input window (audio_stream_id (ht_payload (hts_audio tracks))) (hts_audio tracks)
      (ts_units AUDIO_PID out) \<and>
    list_all (\<lambda>pid. continuous pid out) [0..<8192]"
proof -
  obtain samples m where m: "segment_samples input tracks window = Inr samples" "out = tm_out m"
    "mux_inv m (\<lambda>pid. if pid = 0 then [0 # pat_section]
      else if pid = PMT_PID then [0 # pmt_section (ts_stream_type (ht_payload (hts_video tracks)))
             (ts_stream_type (ht_payload (hts_audio tracks)))]
      else if pid = VIDEO_PID then stream_pes True VIDEO_STREAM_ID (stamped sanitizer_default samples)
      else if pid = AUDIO_PID
      then stream_pes False (audio_stream_id (ht_payload (hts_audio tracks))) (stamped sanitizer_default samples)
      else [])"
    by (rule mux_segment_cases [OF assms])
  have "list_all (\<lambda>pid. continuous pid out) [0..<8192]"
    unfolding list_all_iff m(2) using mux_inv_units [OF m(3)] by simp
  then show ?thesis
    using mux_inv_units [OF m(3), of 0] mux_inv_units [OF m(3) pids(1)] mux_inv_units [OF m(3) pids(2)]
      mux_inv_units [OF m(3) pids(3)] pids m(2) stream_carries_track [OF m(1), of _ True]
      stream_carries_track [OF m(1), of _ False] by simp
qed

text \<open>One video track and an audio track without packets in the window, for the witnesses.\<close>

definition demo_input :: hls_input where
  "demo_input = \<lparr>hi_payload = (\<lambda>ps. Inr (concat (map (\<lambda>p. replicate (pr_size p) 7) ps))),
     hi_output_limit = 5000, hi_compressed_limit = 1000\<rparr>"

definition demo_tracks :: "unit hls_track_set" where
  "demo_tracks =
     \<lparr>hts_video = \<lparr>ht_id = ''v0'', ht_codec_string = ''avc1'', ht_timescale = 1000, ht_packets = demo_packets,
        ht_payload = RawAudio, ht_fmp4_sample_entry = None\<rparr>,
      hts_audio = \<lparr>ht_id = ''a0'', ht_codec_string = ''ac-3'', ht_timescale = 1000, ht_packets = [],
        ht_payload = Ac3, ht_fmp4_sample_entry = None\<rparr>\<rparr>"

definition demo_window :: segment_window where
  "demo_window = \<lparr>sw_index = 0, sw_start_ms = 0, sw_end_ms = 60\<rparr>"

lemma demo_mux: "\<exists>out. mux_segment demo_input demo_tracks demo_window = Inr out"
  by (simp add: mux_segment_def check_mux_budget_def track_budget_def demo_tracks_def demo_packets_def
      demo_packet_def demo_window_def demo_input_def packet_start_ms_def tp_as_millis_def time_point_millis_def
      packet_cost_def track_growth_def sat_add_def sat_mul_def div_ceil_def segment_samples_def
      packet_to_payload_def packet_bytes_def Let_def)

theorem mux_segment_demultiplexes_witness:
  "\<exists>out. mux_segment demo_input demo_tracks demo_window = Inr out \<and> ts_units 0 out = [0 # pat_section] \<and>
    carries_track demo_input demo_window VIDEO_STREAM_ID (hts_video demo_tracks) (ts_units VIDEO_PID out) \<and>
    list_all (\<lambda>pid. continuous pid out) [0..<8192]"
  using demo_mux mux_segment_demultiplexes by metis

section \<open>The budget bounds the output\<close>

lemma sat_add_small: "sat_add w a b < 2 ^ w - 1 \<Longrightarrow> sat_add w a b = a + b"
  by (auto simp: sat_add_def min_def split: if_splits)

lemma sat_mul_small: "sat_mul w a b < 2 ^ w - 1 \<Longrightarrow> sat_mul w a b = a * b"
  by (auto simp: sat_mul_def min_def split: if_splits)

text \<open>Below the largest integer no operation of the cost has saturated.\<close>

lemma packet_cost_small:
  assumes "packet_cost True (f, g) p < 2 ^ 64 - 1"
  shows "packet_cost True (f, g) p = div_ceil (pr_size p * f + g + 64) 176 * 188 \<and> g < 2 ^ 64 - 1"
proof -
  define y where "y = sat_add 64 (sat_mul 64 (pr_size p) f) g"
  define x where "x = sat_add 64 y 64"
  have c: "packet_cost True (f, g) p = sat_mul 64 (div_ceil x 176) 188"
    by (simp add: packet_cost_def x_def y_def)
  then have c': "packet_cost True (f, g) p = div_ceil x 176 * 188" using assms sat_mul_small by metis
  have "x \<le> div_ceil x 176 * 176" by (rule div_ceil_ge) simp
  then have x: "x < 2 ^ 64 - 1" using assms unfolding c' by linarith
  have xe: "x = y + 64" using x unfolding x_def by (rule sat_add_small)
  then have y: "y < 2 ^ 64 - 1" using x by linarith
  have ye: "y = sat_mul 64 (pr_size p) f + g" using y unfolding y_def by (rule sat_add_small)
  then have "sat_mul 64 (pr_size p) f < 2 ^ 64 - 1" using y by linarith
  from sat_mul_small [OF this] show ?thesis using c' xe ye y by simp
qed

lemma sum_sat_small:
  assumes "sum_list (map (\<lambda>bs. sat_add 64 (length bs) 4) xs) < 2 ^ 64 - 1"
  shows "sum_list (map (\<lambda>bs. sat_add 64 (length bs) 4) xs) = length (concat (map (\<lambda>x. start_code @ x) xs))"
  using assms
proof (induction xs)
  case (Cons x xs)
  then have "sat_add 64 (length x) 4 < 2 ^ 64 - 1" "sum_list (map (\<lambda>bs. sat_add 64 (length bs) 4) xs) < 2 ^ 64 - 1"
    by simp_all
  with Cons.IH sat_add_small [of 64 "length x" 4] show ?case by simp
qed simp

lemma h264_growth:
  assumes "h264_sample_to_annex_b sample ls = Inr out" "length sample < 2 ^ 64"
  shows "length out \<le> length sample * div_ceil 4 (max ls 1)"
proof (cases "looks_like_annex_b sample")
  case True
  then have "length sample * 1 \<le> length sample * div_ceil 4 (max ls 1)"
    using div_ceil_pos [of 4 "max ls 1"] by (intro mult_le_mono2) simp
  then show ?thesis using assms(1) True by (simp add: h264_sample_to_annex_b_def)
next
  case False
  then have a: "avc_sample_to_annex_b sample ls = Inr out"
    using assms(1) by (auto simp: h264_sample_to_annex_b_def map_err_def split: sum.splits)
  then have "1 \<le> ls" unfolding avc_sample_iff [OF assms(2)] by blast
  then show ?thesis using avc_sample_growth [OF a assms(2)] by (simp add: max_def)
qed

lemma payload_growth:
  assumes p: "packet_to_payload read packet kind = Inr bs" and r: "\<And>b. read packet = Inr b \<Longrightarrow> length b = pr_size packet"
    and g: "snd (track_growth kind) < 2 ^ 64 - 1" and s: "pr_size packet < 2 ^ 64"
  shows "length bs \<le> pr_size packet * fst (track_growth kind) + snd (track_growth kind)"
proof -
  obtain b where b: "read packet = Inr b" using p by (auto simp: packet_to_payload_def result_simps)
  have lb: "length b = pr_size packet" by (rule r [OF b])
  show ?thesis
  proof (cases kind)
    case (Avc ls sets)
    obtain o' where o: "h264_sample_to_annex_b b ls = Inr o'"
      "length bs \<le> length (concat (map (\<lambda>x. start_code @ x) (aps_sps sets @ aps_pps sets))) + length o'"
      using p b Avc by (auto simp: packet_to_payload_def result_simps Let_def split: if_splits)
    have "length o' \<le> pr_size packet * div_ceil 4 (max ls 1)" using h264_growth [OF o(1)] s lb by simp
    then show ?thesis using o(2) g sum_sat_small [of "aps_sps sets @ aps_pps sets"]
      by (simp add: track_growth_def Avc)
  next
    case (Hevc ls sets)
    obtain o' where o: "hevc_sample_to_annex_b b ls = Inr o'" "length bs \<le> length sets + length o'"
      using p b Hevc by (auto simp: packet_to_payload_def result_simps map_err_def split: if_splits sum.splits)
    have "1 \<le> ls" using o(1) s lb hevc_sample_iff [of b ls o'] by simp
    then have "length o' \<le> pr_size packet * div_ceil 4 (max ls 1)"
      using hevc_sample_growth [OF o(1)] s lb by (simp add: max_def)
    then show ?thesis using o(2) by (simp add: track_growth_def Hevc)
  next
    case (Aac config)
    then obtain h where "adts_header (pr_size packet) config = Inr h" "bs = h @ b"
      using p b by (auto simp: packet_to_payload_def result_simps map_err_def split: sum.splits)
    then show ?thesis using adts_header_length lb by (simp add: track_growth_def Aac)
  qed (use p b lb in \<open>simp_all add: packet_to_payload_def track_growth_def\<close>)
qed

lemma budget_loop_sum:
  assumes "budget_loop ts g w ps (o1, c1) = (o2, c2)" "o2 < 2 ^ 64 - 1"
  shows "o2 = o1 + sum_list (map (packet_cost ts g) (filter (in_window w) ps))"
  using assms
proof (induction ts g w ps "(o1, c1)" arbitrary: o1 c1 rule: budget_loop.induct)
  case (2 ts g w p ps o1 c1)
  show ?case
  proof (cases "in_window w p")
    case True
    let ?o = "sat_add 64 o1 (packet_cost ts g p)"
    have n: "\<not> (packet_start_ms p < sw_start_ms w \<or> sw_end_ms w \<le> packet_start_ms p)"
      using True by (simp add: in_window_def)
    have e: "budget_loop ts g w ps (?o, sat_add 64 c1 (pr_size p)) = (o2, c2)"
      using "2.prems"(1) n by (simp add: Let_def)
    have o: "o2 = ?o + sum_list (map (packet_cost ts g) (filter (in_window w) ps))"
      using "2.hyps"(2) [OF refl n e "2.prems"(2)] .
    then have "?o < 2 ^ 64 - 1" using "2.prems"(2) by linarith
    then have "?o = o1 + packet_cost ts g p" by (rule sat_add_small)
    then show ?thesis using o True by simp
  next
    case False
    then have y: "packet_start_ms p < sw_start_ms w \<or> sw_end_ms w \<le> packet_start_ms p"
      by (auto simp: in_window_def)
    then have e: "budget_loop ts g w ps (o1, c1) = (o2, c2)" using "2.prems"(1) by (simp add: Let_def)
    show ?thesis using "2.hyps"(1) [OF refl y e "2.prems"(2)] False by simp
  qed
qed simp

lemma window_samples_cost:
  assumes "window_samples input v w kind ps = Inr ss"
    and r: "\<And>p b. packet_bytes input p = Inr b \<Longrightarrow> length b = pr_size p" and "\<forall>p \<in> set ps. pr_size p < 2 ^ 64"
    and "sum_list (map (packet_cost True (track_growth kind)) (filter (in_window w) ps)) < 2 ^ 64 - 1"
  shows "sum_list (map (\<lambda>s. 188 * div_ceil (length (ms_payload s) + 19) 176) ss)
    \<le> sum_list (map (packet_cost True (track_growth kind)) (filter (in_window w) ps))"
  using assms(1,3,4)
proof (induction ps arbitrary: ss)
  case (Cons p ps)
  show ?case
  proof (cases "in_window w p")
    case True
    then have n: "\<not> (packet_start_ms p < sw_start_ms w \<or> sw_end_ms w \<le> packet_start_ms p)"
      by (simp add: in_window_def)
    obtain bs s ss' where s: "packet_to_payload (packet_bytes input) p kind = Inr bs"
      "window_samples input v w kind ps = Inr ss'" "ss = s # ss'" "ms_payload s = bs"
      using Cons.prems(1) n by (auto simp: result_simps Let_def)
    have c: "packet_cost True (track_growth kind) p < 2 ^ 64 - 1"
      "sum_list (map (packet_cost True (track_growth kind)) (filter (in_window w) ps)) < 2 ^ 64 - 1"
      using Cons.prems(3) True by simp_all
    obtain f g where fg: "track_growth kind = (f, g)" by fastforce
    note pc = packet_cost_small [OF c(1) [unfolded fg]]
    have "length bs \<le> pr_size p * f + g"
      using payload_growth [OF s(1) r] pc Cons.prems(2) by (simp add: fg)
    then have "div_ceil (length bs + 19) 176 \<le> div_ceil (pr_size p * f + g + 64) 176"
      by (intro div_ceil_mono) simp_all
    then have "188 * div_ceil (length bs + 19) 176 \<le> packet_cost True (track_growth kind) p"
      using pc unfolding fg by simp
    moreover have "sum_list (map (\<lambda>s. 188 * div_ceil (length (ms_payload s) + 19) 176) ss')
      \<le> sum_list (map (packet_cost True (track_growth kind)) (filter (in_window w) ps))"
      using Cons.IH [OF s(2) _ c(2)] Cons.prems(2) by simp
    ultimately show ?thesis using True s(3,4) by simp
  next
    case False
    then have "packet_start_ms p < sw_start_ms w \<or> sw_end_ms w \<le> packet_start_ms p"
      by (auto simp: in_window_def)
    then show ?thesis using Cons False by (simp add: Let_def)
  qed
qed simp

text \<open>C11: The budget computed before muxing is sound: when the input reads as many bytes as the
  packet index says, a segment that passes the check is never longer than the output limit,
  whatever start codes, parameter sets, headers, tables and stuffing the muxer adds.\<close>

theorem mux_segment_within_limit:
  assumes out: "mux_segment input tracks window = Inr out" and limit: "hi_output_limit input < 2 ^ 64 - 1"
    and reads: "\<forall>p b. hi_payload input [p] = Inr b \<longrightarrow> length b = pr_size p"
    and sizes: "\<forall>p \<in> set (ht_packets (hts_video tracks) @ ht_packets (hts_audio tracks)). pr_size p < 2 ^ 32"
  shows "length out \<le> hi_output_limit input"
proof -
  obtain samples where s: "check_mux_budget input tracks window True = Inr ()"
    "segment_samples input tracks window = Inr samples"
    "length out \<le> 376 + sum_list (map (\<lambda>s. 188 * div_ceil (length (ms_payload s) + 19) 176) samples)"
    by (rule mux_segment_cases [OF out])
  let ?cost = "\<lambda>t. sum_list (map (packet_cost True (track_growth (ht_payload t))) (filter (in_window window) (ht_packets t)))"
  obtain o1 c1 o2 c2 where o: "track_budget True window (hts_video tracks) (1024, 0) = (o1, c1)"
    "track_budget True window (hts_audio tracks) (o1, c1) = (o2, c2)" by (metis surj_pair)
  have o2: "o2 \<le> hi_output_limit input"
    using s(1) o by (auto simp: check_mux_budget_def split: if_splits)
  have e2: "o2 = o1 + ?cost (hts_audio tracks)"
    using budget_loop_sum [OF o(2) [unfolded track_budget_def]] o2 limit by simp
  then have e1: "o1 = 1024 + ?cost (hts_video tracks)"
    using budget_loop_sum [OF o(1) [unfolded track_budget_def]] o2 limit by simp
  obtain vs as where v: "window_samples input True window (ht_payload (hts_video tracks)) (ht_packets (hts_video tracks)) = Inr vs"
    "window_samples input False window (ht_payload (hts_audio tracks)) (ht_packets (hts_audio tracks)) = Inr as"
    "samples = sort_key (\<lambda>s. (ms_dts_ms s, \<not> ms_is_video s)) (vs @ as)"
    using s(2) by (auto simp: segment_samples_def result_simps)
  have small: "?cost (hts_video tracks) < 2 ^ 64 - 1" "?cost (hts_audio tracks) < 2 ^ 64 - 1"
    using e1 e2 o2 limit by linarith+
  have rd: "\<And>p b. packet_bytes input p = Inr b \<Longrightarrow> length b = pr_size p"
    using reads by (simp add: packet_bytes_def)
  have sz: "\<forall>p \<in> set (ht_packets (hts_video tracks)). pr_size p < 2 ^ 64"
    "\<forall>p \<in> set (ht_packets (hts_audio tracks)). pr_size p < 2 ^ 64"
    using sizes by (auto intro: less_trans)
  let ?f = "\<lambda>s. 188 * div_ceil (length (ms_payload s) + 19) 176"
  have "sum_list (map ?f samples) = sum_mset (mset (map ?f samples))" by (simp only: sum_mset_sum_list)
  also have "mset (map ?f samples) = mset (map ?f (vs @ as))" unfolding v(3) mset_map mset_sort ..
  also have "sum_mset \<dots> = sum_list (map ?f (vs @ as))" by (simp only: sum_mset_sum_list)
  finally show ?thesis
    using window_samples_cost [OF v(1) rd sz(1) small(1)] window_samples_cost [OF v(2) rd sz(2) small(2)]
      s(3) e1 e2 o2 by simp
qed

theorem mux_segment_within_limit_witness:
  "\<exists>out. mux_segment demo_input demo_tracks demo_window = Inr out \<and> length out \<le> 5000"
proof -
  obtain out where o: "mux_segment demo_input demo_tracks demo_window = Inr out" using demo_mux by blast
  have "length out \<le> hi_output_limit demo_input"
    by (rule mux_segment_within_limit [OF o])
      (auto simp: demo_input_def demo_tracks_def demo_packets_def demo_packet_def)
  with o show ?thesis by (simp add: demo_input_def)
qed

end
