(* ===== verification/Fmp4Validate.thy ===== *)
theory Fmp4Validate
  imports Fmp4Boxes
begin

text \<open>
  \<open>fmp4/validation.rs\<close>: the box readers, the \<open>trun\<close> and \<open>tfdt\<close> readers and the checks that the
  fragment writer runs on its own header, and that the tests run on a whole fragment. The
  readers are characterised on concatenated boxes: they find what an association list of box
  names and payloads holds. \<open>try_reserve_exact\<close> is taken to succeed.
\<close>

section \<open>Box readers\<close>

text \<open>The bytes of the box at an offset, header included, when it fits the input.\<close>

definition box_size_at :: "bytes \<Rightarrow> nat \<Rightarrow> nat option" where
  "box_size_at bs offset =
     (let sz = be_nat (slice bs offset (offset + 4))
      in if sz < 8 \<or> past_end offset sz (length bs) then None else Some sz)"

function find_box_from :: "bytes \<Rightarrow> bytes \<Rightarrow> nat \<Rightarrow> nat option" where
  "find_box_from bs name offset =
     (if past_end offset 8 (length bs) then None
      else case box_size_at bs offset of None \<Rightarrow> None
        | Some sz \<Rightarrow>
            if slice bs (offset + 4) (offset + 8) = name then Some offset
            else find_box_from bs name (offset + sz))"
  by pat_completeness auto
termination
  by (relation "measure (\<lambda>(bs, name, offset). length bs - offset)")
    (auto simp: box_size_at_def Let_def split: if_splits)

declare find_box_from.simps [simp del]

definition find_top_level_box :: "bytes \<Rightarrow> bytes \<Rightarrow> nat option" where
  "find_top_level_box bs name = find_box_from bs name 0"

definition box_payload_at :: "bytes \<Rightarrow> nat \<Rightarrow> bytes option" where
  "box_payload_at bs offset =
     (case get_range bs offset (offset + 4) of None \<Rightarrow> None
      | Some _ \<Rightarrow> map_option (\<lambda>sz. slice bs (offset + 8) (offset + sz)) (box_size_at bs offset))"

definition top_level_box_payload :: "bytes \<Rightarrow> bytes \<Rightarrow> bytes option" where
  "top_level_box_payload bs name = Option.bind (find_top_level_box bs name) (box_payload_at bs)"

text \<open>\<open>child_box_payload\<close> repeats the search and returns the payload.\<close>

definition child_box_payload :: "bytes \<Rightarrow> bytes \<Rightarrow> bytes option" where
  "child_box_payload bs name =
     map_option (\<lambda>offset. slice bs (offset + 8) (offset + be_nat (slice bs offset (offset + 4))))
       (find_box_from bs name 0)"

function child_payloads_from :: "bytes \<Rightarrow> bytes \<Rightarrow> nat \<Rightarrow> bytes list \<Rightarrow> bytes list" where
  "child_payloads_from bs name offset out =
     (if length bs < offset + 8 then out
      else case box_size_at bs offset of None \<Rightarrow> []
        | Some sz \<Rightarrow>
            child_payloads_from bs name (offset + sz)
              (if slice bs (offset + 4) (offset + 8) = name
               then out @ [slice bs (offset + 8) (offset + sz)] else out))"
  by pat_completeness auto
termination
  by (relation "measure (\<lambda>(bs, name, offset, out). length bs - offset)")
    (auto simp: box_size_at_def Let_def split: if_splits)

declare child_payloads_from.simps [simp del]

definition child_box_payloads :: "bytes \<Rightarrow> bytes \<Rightarrow> bytes list" where
  "child_box_payloads bs name = child_payloads_from bs name 0 []"

definition tfdt_base_decode_time :: "bytes \<Rightarrow> nat option" where
  "tfdt_base_decode_time payload =
     (if length payload < 12 \<or> payload ! 0 \<noteq> 1 then None else Some (be_nat (slice payload 4 12)))"

section \<open>Track runs\<close>

record fmp4_sample =
  fs_duration :: nat
  fs_size :: nat
  fs_flags :: nat
  fs_composition_time_offset :: int

record inspected_trun =
  it_data_offset :: int
  it_samples :: "fmp4_sample list"

fun trun_samples :: "bytes \<Rightarrow> nat \<Rightarrow> nat \<Rightarrow> (fmp4_sample list \<times> nat) option" where
  "trun_samples payload 0 offset = Some ([], offset)"
| "trun_samples payload (Suc n) offset =
     (if past_end offset 16 (length payload) then None
      else map_option (\<lambda>(samples, e).
        (\<lparr>fs_duration = be_nat (slice payload offset (offset + 4)),
          fs_size = be_nat (slice payload (offset + 4) (offset + 8)),
          fs_flags = be_nat (slice payload (offset + 8) (offset + 12)),
          fs_composition_time_offset = signed_of 32 (be_nat (slice payload (offset + 12) (offset + 16)))\<rparr>
          # samples, e)) (trun_samples payload n (offset + 16)))"

definition inspect_trun :: "bytes \<Rightarrow> inspected_trun option" where
  "inspect_trun payload =
     (if length payload < 12 \<or> payload ! 0 \<noteq> 1 then None
      else if be_nat (slice payload 1 4) \<noteq> 0x000f01 then None
      else
        let sample_count = be_nat (slice payload 4 8)
        in if 2000000 < sample_count \<or> sample_count * 16 + 12 \<noteq> length payload then None
           else case trun_samples payload sample_count 12 of None \<Rightarrow> None
             | Some (samples, offset) \<Rightarrow>
                 if offset = length payload
                 then Some \<lparr>it_data_offset = signed_of 32 (be_nat (slice payload 8 12)), it_samples = samples\<rparr>
                 else None)"

section \<open>Validation\<close>

record fmp4_media_validation =
  mv_track_count :: nat
  mv_sample_count :: nat
  mv_payload_bytes :: nat

text \<open>The \<open>try_fold\<close> over the samples of a run.\<close>

fun validate_samples :: "fmp4_sample list \<Rightarrow> nat \<times> nat \<Rightarrow> fmp4_error + nat \<times> nat" where
  "validate_samples [] acc = Inr acc"
| "validate_samples (s # ss) (run_bytes, decode_time) =
     (if fs_duration s = 0 then Inl (InvalidHeader ''zero-duration sample'')
      else if fs_size s = 0 then Inl (InvalidHeader ''zero-size sample'')
      else if fs_composition_time_offset s < 0 then Inl (InvalidHeader ''negative composition offset'')
      else case checked_add 64 decode_time (fs_duration s) of
          None \<Rightarrow> Inl (InvalidHeader ''decode time overflowed'')
        | Some next_decode_time \<Rightarrow>
            (case checked_add 64 run_bytes (fs_size s) of
               None \<Rightarrow> Inl (InvalidHeader ''sample bytes overflowed'')
             | Some next_bytes \<Rightarrow> validate_samples ss (next_bytes, next_decode_time)))"

definition non_sync :: "nat \<Rightarrow> bool" where
  "non_sync flags \<longleftrightarrow> odd (flags div 2 ^ 24)"

definition validate_traf :: "bytes \<Rightarrow> nat \<Rightarrow> nat \<Rightarrow> nat \<Rightarrow> fmp4_error + nat \<times> nat \<times> nat" where
  "validate_traf traf mdat_start mdat_end previous_data_end =
     res_bind (ok_or (InvalidHeader ''missing tfdt'') (child_box_payload traf (ascii ''tfdt''))) (\<lambda>tfdt.
     res_bind (ok_or (InvalidHeader ''malformed tfdt'') (tfdt_base_decode_time tfdt)) (\<lambda>base_decode_time.
     res_bind (ok_or (InvalidHeader ''missing trun'') (child_box_payload traf (ascii ''trun''))) (\<lambda>trun.
     res_bind (ok_or (InvalidHeader ''malformed trun'') (inspect_trun trun)) (\<lambda>inspected.
       if it_samples inspected = [] then Inl (InvalidHeader ''empty trun'')
       else if non_sync (fs_flags (hd (it_samples inspected))) then Inl (InvalidHeader ''non-sync start'')
       else if it_data_offset inspected < 0 then Inl (InvalidHeader ''negative data offset'')
       else
         let data_offset = nat (it_data_offset inspected)
         in res_bind (validate_samples (it_samples inspected) (0, base_decode_time)) (\<lambda>(track_payload_bytes, _).
            res_bind (ok_or (InvalidHeader ''data offset overflowed'') (checked_add 64 data_offset track_payload_bytes))
              (\<lambda>data_end.
                if data_offset < mdat_start \<or> mdat_end < data_end then Inl (InvalidHeader ''outside mdat'')
                else if data_offset < previous_data_end then Inl (InvalidHeader ''overlapping payloads'')
                else Inr (data_end, length (it_samples inspected), track_payload_bytes)))))))"

fun validate_traf_loop :: "bytes list \<Rightarrow> nat \<Rightarrow> nat \<Rightarrow> nat \<Rightarrow> nat \<times> nat \<Rightarrow> fmp4_error + nat \<times> nat" where
  "validate_traf_loop [] mdat_start mdat_end previous_data_end acc = Inr acc"
| "validate_traf_loop (traf # trafs) mdat_start mdat_end previous_data_end (sample_count, payload_bytes) =
     res_bind (validate_traf traf mdat_start mdat_end previous_data_end) (\<lambda>(data_end, n, track_bytes).
       validate_traf_loop trafs mdat_start mdat_end data_end
         (sat_add 64 sample_count n, sat_add 64 payload_bytes track_bytes))"

definition validate_trafs :: "bytes \<Rightarrow> nat \<Rightarrow> nat \<Rightarrow> fmp4_error + fmp4_media_validation" where
  "validate_trafs moof mdat_start mdat_end =
     (let trafs = child_box_payloads moof (ascii ''traf'')
      in if trafs = [] then Inl (InvalidHeader ''no traf'')
         else res_bind (validate_traf_loop trafs mdat_start mdat_end mdat_start (0, 0)) (\<lambda>(sample_count, payload_bytes).
           Inr \<lparr>mv_track_count = length trafs, mv_sample_count = sample_count, mv_payload_bytes = payload_bytes\<rparr>))"

definition validate_fragment_header :: "bytes \<Rightarrow> nat \<Rightarrow> fmp4_error + fmp4_media_validation" where
  "validate_fragment_header header payload_len =
     res_bind (ok_or (InvalidHeader ''missing moof'') (top_level_box_payload header (ascii ''moof''))) (\<lambda>moof.
     let mdat = drop (length header - 8) header
     in if length mdat \<noteq> 8 \<or> drop 4 mdat \<noteq> ascii ''mdat'' then Inl (InvalidHeader ''mdat size'')
        else res_bind (ok_or FragmentOverflow (checked_add 64 payload_len 8)) (\<lambda>n.
          if be_nat (take 4 mdat) \<noteq> n then Inl (InvalidHeader ''mdat size'')
          else res_bind (ok_or FragmentOverflow (checked_add 64 (length header) payload_len)) (\<lambda>mdat_end.
            validate_trafs moof (length header) mdat_end)))"

definition validate_media_fragment :: "bytes \<Rightarrow> fmp4_error + fmp4_media_validation" where
  "validate_media_fragment bs =
     res_bind (ok_or (InvalidHeader ''missing moof'') (top_level_box_payload bs (ascii ''moof''))) (\<lambda>moof.
     res_bind (ok_or (InvalidHeader ''missing mdat'') (find_top_level_box bs (ascii ''mdat''))) (\<lambda>mdat_offset.
     res_bind (ok_or (InvalidHeader ''malformed mdat'') (box_payload_at bs mdat_offset)) (\<lambda>mdat.
     res_bind (ok_or (InvalidHeader ''mdat offset overflowed'') (checked_add 64 mdat_offset 8)) (\<lambda>mdat_start.
     res_bind (ok_or (InvalidHeader ''mdat length overflowed'') (checked_add 64 mdat_start (length mdat))) (\<lambda>mdat_end.
       validate_trafs moof mdat_start mdat_end)))))"

section \<open>Reading concatenated boxes\<close>

type_synonym boxes = "(bytes \<times> bytes) list"

definition boxes_bytes :: "boxes \<Rightarrow> bytes" where
  "boxes_bytes bs = concat (map (\<lambda>(name, p). box32 name p) bs)"

definition wf_box :: "bytes \<times> bytes \<Rightarrow> bool" where
  "wf_box b \<longleftrightarrow> length (fst b) = 4 \<and> 8 + length (snd b) < 2 ^ 32"

lemma boxes_bytes_simps [simp]:
  "boxes_bytes [] = []" "boxes_bytes ((n, p) # bs) = box32 n p @ boxes_bytes bs"
  by (simp_all add: boxes_bytes_def)

lemma box_at:
  assumes "wf_box (n, p)" "length (pre @ box32 n p @ rest) < 2 ^ 64"
  shows "box_size_at (pre @ box32 n p @ rest) (length pre) = Some (8 + length p)"
    "be_nat (slice (pre @ box32 n p @ rest) (length pre) (length pre + 4)) = 8 + length p"
    "slice (pre @ box32 n p @ rest) (length pre + 4) (length pre + 8) = n"
    "slice (pre @ box32 n p @ rest) (length pre + 8) (length pre + (8 + length p)) = p"
    "\<not> past_end (length pre) 8 (length (pre @ box32 n p @ rest))"
proof -
  let ?bs = "pre @ box32 n p @ rest"
  have n: "length n = 4" and l: "8 + length p < 2 ^ 32" using assms(1) by (simp_all add: wf_box_def)
  show s: "be_nat (slice ?bs (length pre) (length pre + 4)) = 8 + length p"
    using slice_in [of pre "[]" _ "be_u32 (8 + length p)" 4 "n @ p @ rest"] l by (simp add: box32_def)
  show "slice ?bs (length pre + 4) (length pre + 8) = n"
    using slice_in [of pre "be_u32 (8 + length p)" "length pre + 4" n 4 "p @ rest"] n
    by (simp add: box32_def add.assoc)
  show "slice ?bs (length pre + 8) (length pre + (8 + length p)) = p"
    using slice_in [of pre "be_u32 (8 + length p) @ n" "length pre + 8" p "length p" rest] n
    by (simp add: box32_def add.assoc)
  show "\<not> past_end (length pre) 8 (length ?bs)" using n assms(2) by simp
  show "box_size_at ?bs (length pre) = Some (8 + length p)"
    unfolding box_size_at_def s Let_def using n assms(2) by simp
qed

lemma find_box_step:
  assumes "wf_box (n, p)" "length (pre @ box32 n p @ rest) < 2 ^ 64"
  shows "find_box_from (pre @ box32 n p @ rest) name (length pre) =
    (if n = name then Some (length pre) else find_box_from (pre @ box32 n p @ rest) name (length pre + (8 + length p)))"
  unfolding find_box_from.simps [of "pre @ box32 n p @ rest" name "length pre"] if_not_P [OF box_at(5) [OF assms]]
    box_at(1,3) [OF assms] by simp

lemma find_box_end: "find_box_from bs name (length bs) = None"
proof -
  have "past_end (length bs) 8 (length bs)" using past_end_False [of "length bs" 8 "length bs"] by linarith
  then show ?thesis by (simp add: find_box_from.simps [of bs])
qed

lemma find_box_boxes:
  assumes "list_all wf_box bs" "length (pre @ boxes_bytes bs) < 2 ^ 64"
  shows "case find_box_from (pre @ boxes_bytes bs) name (length pre) of
      None \<Rightarrow> map_of bs name = None
    | Some off \<Rightarrow> \<exists>p. map_of bs name = Some p \<and>
        slice (pre @ boxes_bytes bs) (off + 8)
          (off + be_nat (slice (pre @ boxes_bytes bs) off (off + 4))) = p"
  using assms
proof (induction bs arbitrary: pre)
  case Nil
  then show ?case using find_box_end [of pre] by simp
next
  case (Cons b bs)
  obtain n p where b: "b = (n, p)" by force
  have wf: "wf_box (n, p)" and len: "length (pre @ box32 n p @ boxes_bytes bs) < 2 ^ 64"
    using Cons.prems b by simp_all
  have n: "length n = 4" using wf by (simp add: wf_box_def)
  show ?case
  proof (cases "n = name")
    case True
    then show ?thesis using find_box_step [OF wf len, of name] box_at(2,4) [OF wf len] by (simp add: b)
  next
    case False
    have "pre @ boxes_bytes (b # bs) = (pre @ box32 n p) @ boxes_bytes bs" by (simp add: b)
    moreover have "length pre + (8 + length p) = length (pre @ box32 n p)" using n by simp
    ultimately show ?thesis
      using Cons.IH [of "pre @ box32 n p"] Cons.prems find_box_step [OF wf len, of name] False
      by (simp add: b split: option.splits)
  qed
qed

lemma child_box_payload_boxes:
  assumes "list_all wf_box bs" "length (boxes_bytes bs) < 2 ^ 64"
  shows "child_box_payload (boxes_bytes bs) name = map_of bs name"
  using find_box_boxes [of bs "[]" name] assms
  by (auto simp: child_box_payload_def split: option.splits)

lemma child_payloads_boxes_from:
  assumes "list_all wf_box bs" "length (pre @ boxes_bytes bs) < 2 ^ 64"
  shows "child_payloads_from (pre @ boxes_bytes bs) name (length pre) out =
    out @ map snd (filter (\<lambda>b. fst b = name) bs)"
  using assms
proof (induction bs arbitrary: pre out)
  case Nil
  then show ?case by (simp add: child_payloads_from.simps [of pre])
next
  case (Cons b bs)
  obtain n p where b: "b = (n, p)" by force
  have wf: "wf_box (n, p)" and len: "length (pre @ box32 n p @ boxes_bytes bs) < 2 ^ 64"
    using Cons.prems b by simp_all
  have n: "length n = 4" using wf by (simp add: wf_box_def)
  let ?bs = "pre @ box32 n p @ boxes_bytes bs"
  have e: "\<not> length ?bs < length pre + 8" using n by simp
  have step: "child_payloads_from ?bs name (length pre) out =
      child_payloads_from ?bs name (length pre + (8 + length p)) (if n = name then out @ [p] else out)"
    unfolding child_payloads_from.simps [of ?bs name "length pre"] if_not_P [OF e] box_at(1,3,4) [OF wf len]
    by (simp only: option.case box_at(4) [OF wf len])
  have p: "?bs = (pre @ box32 n p) @ boxes_bytes bs" "length pre + (8 + length p) = length (pre @ box32 n p)"
    using n by simp_all
  have IH: "child_payloads_from ((pre @ box32 n p) @ boxes_bytes bs) name (length (pre @ box32 n p)) out' =
      out' @ map snd (filter (\<lambda>b. fst b = name) bs)" for out'
    using Cons.IH [of "pre @ box32 n p" out'] Cons.prems b by simp
  show ?case using step unfolding p IH by (simp add: b)
qed

lemma child_box_payloads_boxes:
  assumes "list_all wf_box bs" "length (boxes_bytes bs) < 2 ^ 64"
  shows "child_box_payloads (boxes_bytes bs) name = map snd (filter (\<lambda>b. fst b = name) bs)"
  using child_payloads_boxes_from [of bs "[]" name "[]"] assms by (simp add: child_box_payloads_def)

end
