(* ===== verification/AudioClock.thy ===== *)
theory AudioClock
  imports TimeBase
begin

text \<open>
  The sample clock of \<open>transcode/audio_clock.rs\<close> and the encoded frames it times
  (\<open>transcode/mod.rs\<close>, lines 165 to 227). The clock is a state machine with one operation,
  \<open>stamp_frame\<close>; the run of a stream of frames is its iteration. Frames are shown to abut
  except where the clock is re-anchored, and no frame drifts from its source time by more
  than the threshold.
\<close>

record audio_clock_config =
  acc_sample_rate :: nat
  acc_discontinuity_threshold_ms :: nat

record audio_frame_timing =
  aft_pts :: time_point
  aft_duration :: time_delta
  aft_start_sample :: nat
  aft_sample_count :: nat
  aft_reanchored :: bool

record audio_sample_clock =
  asc_scale :: time_scale
  asc_threshold_samples :: nat
  asc_next_sample :: nat
  asc_anchored :: bool

record encoded_audio_frame =
  eaf_timing :: audio_frame_timing
  eaf_payload :: bytes
  eaf_discontinuity :: bool

definition clock_config_default :: audio_clock_config where
  "clock_config_default = \<lparr>acc_sample_rate = 48000, acc_discontinuity_threshold_ms = 100\<rparr>"

definition clock_new :: "audio_clock_config \<Rightarrow> audio_sample_clock" where
  "clock_new config =
     (let scale = \<lparr>units_per_second = max (acc_sample_rate config) 1\<rparr>
      in \<lparr>asc_scale = scale,
          asc_threshold_samples = rescale_units_rounded (acc_discontinuity_threshold_ms config) MILLIS scale,
          asc_next_sample = 0, asc_anchored = False\<rparr>)"

definition clock_reset :: "audio_sample_clock \<Rightarrow> audio_sample_clock" where
  "clock_reset c = c\<lparr>asc_next_sample := 0, asc_anchored := False\<rparr>"

definition sample_delta :: "nat \<Rightarrow> nat \<Rightarrow> nat" where
  "sample_delta a b = (if a \<le> b then b - a else a - b)"

definition source_sample :: "audio_sample_clock \<Rightarrow> time_point \<Rightarrow> nat" where
  "source_sample c pts = rescale_units_rounded (tp_units pts) (tp_scale pts) (asc_scale c)"

definition stamp_frame :: "audio_sample_clock \<Rightarrow> time_point option \<Rightarrow> nat \<Rightarrow>
    audio_frame_timing \<times> audio_sample_clock" where
  "stamp_frame c source_pts sample_count =
     (let (c, reanchored) =
            (case map_option (source_sample c) source_pts of
               Some source \<Rightarrow>
                 if \<not> asc_anchored c \<or> asc_threshold_samples c < sample_delta (asc_next_sample c) source
                 then (c\<lparr>asc_next_sample := source, asc_anchored := True\<rparr>, True) else (c, False)
             | None \<Rightarrow> (c, False));
          start_sample = asc_next_sample c;
          c = c\<lparr>asc_next_sample := sat_add 64 (asc_next_sample c) sample_count\<rparr>
      in (\<lparr>aft_pts = \<lparr>tp_units = start_sample, tp_scale = asc_scale c\<rparr>,
           aft_duration = \<lparr>td_units = sample_count, td_scale = asc_scale c\<rparr>,
           aft_start_sample = start_sample, aft_sample_count = sample_count, aft_reanchored = reanchored\<rparr>, c))"

definition pts_ms :: "encoded_audio_frame \<Rightarrow> nat" where
  "pts_ms f = tp_as_millis (aft_pts (eaf_timing f))"

definition duration_ms :: "encoded_audio_frame \<Rightarrow> nat" where
  "duration_ms f = td_as_millis (aft_duration (eaf_timing f))"

text \<open>A run of the clock over the frames of a stream.\<close>

fun stamp_frames :: "audio_sample_clock \<Rightarrow> (time_point option \<times> nat) list \<Rightarrow> audio_frame_timing list" where
  "stamp_frames c [] = []"
| "stamp_frames c ((source_pts, sample_count) # frames) =
     (case stamp_frame c source_pts sample_count of (timing, c') \<Rightarrow> timing # stamp_frames c' frames)"

definition timing_exact :: "time_scale \<Rightarrow> audio_frame_timing \<Rightarrow> bool" where
  "timing_exact s t \<longleftrightarrow> aft_pts t = \<lparr>tp_units = aft_start_sample t, tp_scale = s\<rparr> \<and>
     aft_duration t = \<lparr>td_units = aft_sample_count t, td_scale = s\<rparr>"

text \<open>Where frame \<open>i\<close> of a run is due: at the end of the frame before it, the first one where the clock stood.\<close>

definition due_sample :: "nat \<Rightarrow> audio_frame_timing list \<Rightarrow> nat \<Rightarrow> nat" where
  "due_sample first ts i =
     (if i = 0 then first else sat_add 64 (aft_start_sample (ts ! (i - 1))) (aft_sample_count (ts ! (i - 1))))"

text \<open>A frame is timed well when it starts where it is due, except that a source time re-anchors it, and
  then it starts exactly at the source time: the first source time of a run does, and later ones do when they
  are further from the due sample than the threshold, and only then.\<close>

definition well_timed :: "time_scale \<Rightarrow> nat \<Rightarrow> bool \<Rightarrow> nat \<Rightarrow> (time_point option \<times> nat) list \<Rightarrow> audio_frame_timing list \<Rightarrow>
    nat \<Rightarrow> bool" where
  "well_timed s threshold anchored first frames ts i \<longleftrightarrow>
     (let t = ts ! i; due = due_sample first ts i
      in timing_exact s t \<and> aft_sample_count t = snd (frames ! i) \<and>
         (case fst (frames ! i) of
            None \<Rightarrow> \<not> aft_reanchored t \<and> aft_start_sample t = due
          | Some pts \<Rightarrow>
              let source = rescale_units_rounded (tp_units pts) (tp_scale pts) s;
                  jump = (\<not> anchored \<and> list_all (\<lambda>f. fst f = None) (take i frames) \<or> threshold < sample_delta due source)
              in aft_reanchored t = jump \<and> aft_start_sample t = (if jump then source else due)))"

lemma sample_delta_self [simp]: "sample_delta a a = 0"
  by (simp add: sample_delta_def)

lemma stamp_frame_spec:
  assumes "stamp_frame c source_pts n = (t, c')"
  shows "asc_scale c' = asc_scale c" "asc_threshold_samples c' = asc_threshold_samples c"
    "asc_anchored c' = (asc_anchored c \<or> source_pts \<noteq> None)"
    "asc_next_sample c' = sat_add 64 (aft_start_sample t) (aft_sample_count t)"
  using assms unfolding stamp_frame_def by (auto simp: Let_def split: option.splits if_splits)

lemma stamp_frame_timed:
  assumes "stamp_frame c source_pts n = (t, c')"
  shows "well_timed (asc_scale c) (asc_threshold_samples c) (asc_anchored c) (asc_next_sample c) ((source_pts, n) # frames) (t # ts) 0"
  using assms unfolding stamp_frame_def timing_exact_def well_timed_def
  by (auto simp: Let_def source_sample_def due_sample_def split: option.splits if_splits)

lemma well_timed_Suc:
  "due_sample first (t # ts) (Suc i) = due_sample (sat_add 64 (aft_start_sample t) (aft_sample_count t)) ts i"
  "well_timed s threshold anchored first (f # frames) (t # ts) (Suc i) =
     well_timed s threshold (anchored \<or> fst f \<noteq> None) (sat_add 64 (aft_start_sample t) (aft_sample_count t)) frames ts i"
proof -
  show due: "due_sample first (t # ts) (Suc i) = due_sample (sat_add 64 (aft_start_sample t) (aft_sample_count t)) ts i"
    by (cases i) (simp_all add: due_sample_def)
  show "well_timed s threshold anchored first (f # frames) (t # ts) (Suc i) =
     well_timed s threshold (anchored \<or> fst f \<noteq> None) (sat_add 64 (aft_start_sample t) (aft_sample_count t)) frames ts i"
    unfolding well_timed_def due by (cases "fst (frames ! i)") (auto simp: Let_def)
qed

lemma stamp_frames_spec:
  "length (stamp_frames c frames) = length frames \<and>
    list_all (well_timed (asc_scale c) (asc_threshold_samples c) (asc_anchored c) (asc_next_sample c) frames (stamp_frames c frames))
      [0..<length frames]"
proof (induction c frames rule: stamp_frames.induct)
  case (2 c source_pts n frames)
  obtain t c' where s: "stamp_frame c source_pts n = (t, c')" by force
  note t = stamp_frame_spec [OF s] stamp_frame_timed [OF s, of frames "stamp_frames c' frames"]
  let ?P = "well_timed (asc_scale c) (asc_threshold_samples c) (asc_anchored c) (asc_next_sample c) ((source_pts, n) # frames)
    (t # stamp_frames c' frames)"
  have "?P (Suc i)" if "i < length frames" for i
    using "2.IH" [OF s [symmetric]] that t(1-4) by (simp add: list_all_iff well_timed_Suc)
  then have "?P i" if "i < length ((source_pts, n) # frames)" for i
    using t(5) that by (cases i) simp_all
  then show ?case using "2.IH" [OF s [symmetric]] s by (simp add: list_all_iff del: upt_Suc)
qed simp

lemma well_timed_drift:
  "well_timed s threshold anchored first frames ts i \<Longrightarrow> fst (frames ! i) = Some pts \<Longrightarrow>
    sample_delta (aft_start_sample (ts ! i)) (rescale_units_rounded (tp_units pts) (tp_scale pts) s) \<le> threshold"
  by (auto simp: well_timed_def Let_def sample_delta_def split: if_splits)

text \<open>The frames with a source time, that time in samples and where they were stamped.\<close>

definition followed :: "time_scale \<Rightarrow> (time_point option \<times> nat) list \<Rightarrow> audio_frame_timing list \<Rightarrow> (nat \<times> nat) list" where
  "followed s frames ts =
     map (\<lambda>(f, t). (rescale_units_rounded (tp_units (the (fst f))) (tp_scale (the (fst f))) s, aft_start_sample t))
       (filter (\<lambda>(f, t). fst f \<noteq> None) (zip frames ts))"

text \<open>Between re-anchored frames the run has no gap and no overlap.\<close>

definition frame_abuts :: "audio_frame_timing \<Rightarrow> audio_frame_timing \<Rightarrow> bool" where
  "frame_abuts t u \<longleftrightarrow> aft_reanchored u \<or> aft_start_sample u = sat_add 64 (aft_start_sample t) (aft_sample_count t)"

lemma stamped_frames_abut:
  "list_all (timing_exact (asc_scale c)) (stamp_frames c frames) \<and> successively frame_abuts (stamp_frames c frames)"
proof (induction c frames rule: stamp_frames.induct)
  case (2 c source_pts n frames)
  obtain t c' where s: "stamp_frame c source_pts n = (t, c')" by force
  note t = stamp_frame_spec [OF s] stamp_frame_timed [OF s, of "[]" "[]"]
  have "stamp_frames c' frames \<noteq> [] \<Longrightarrow> frame_abuts t (hd (stamp_frames c' frames))"
    using stamp_frames_spec [of c' frames] t(4)
    by (cases frames; cases "stamp_frames c' frames")
      (auto simp: list_all_iff well_timed_def frame_abuts_def due_sample_def Let_def split: option.splits if_splits dest!: bspec [of _ _ 0])
  then show ?case using "2.IH" [OF s [symmetric]] s t(1,5)
    by (cases "stamp_frames c' frames") (auto simp: well_timed_def Let_def)
qed simp

text \<open>C32: However the source timestamps jitter, the audio clock times every frame on the exact sample grid and
  starts it where the previous one ended. It re-anchors a frame, which then starts exactly at its source time,
  at the first source time of the stream and when the source is further from the due sample than the
  discontinuity threshold, and never otherwise. So no frame with a source time is further from it than the
  threshold.\<close>

theorem audio_clock_abuts_and_follows:
  "let s = \<lparr>units_per_second = max (acc_sample_rate config) 1\<rparr>;
       threshold = rescale_units_rounded (acc_discontinuity_threshold_ms config) MILLIS s;
       ts = stamp_frames (clock_new config) frames
   in length ts = length frames \<and> list_all (well_timed s threshold False 0 frames ts) [0..<length frames] \<and>
      list_all (\<lambda>(source, start). sample_delta start source \<le> threshold) (followed s frames ts)"
proof -
  define s threshold ts where "s = \<lparr>units_per_second = max (acc_sample_rate config) 1\<rparr>"
    and "threshold = rescale_units_rounded (acc_discontinuity_threshold_ms config) MILLIS s"
    and "ts = stamp_frames (clock_new config) frames"
  have c: "asc_scale (clock_new config) = s" "asc_threshold_samples (clock_new config) = threshold"
    "\<not> asc_anchored (clock_new config)" "asc_next_sample (clock_new config) = 0"
    by (simp_all add: clock_new_def Let_def s_def threshold_def)
  have timed: "length ts = length frames" "list_all (well_timed s threshold False 0 frames ts) [0..<length frames]"
    using stamp_frames_spec [of "clock_new config" frames] by (simp_all add: c ts_def)
  have "list_all (\<lambda>(source, start). sample_delta start source \<le> threshold) (followed s frames ts)"
  proof -
    have "sample_delta start source \<le> threshold" if m: "(source, start) \<in> set (followed s frames ts)" for source start
    proof -
      obtain f t where ft: "(f, t) \<in> set (zip frames ts)" "fst f \<noteq> None" "start = aft_start_sample t"
          "source = rescale_units_rounded (tp_units (the (fst f))) (tp_scale (the (fst f))) s"
        using m by (auto simp: followed_def)
      then obtain i where i: "i < length frames" "f = frames ! i" "t = ts ! i" using timed(1) by (auto simp: in_set_zip)
      then have "well_timed s threshold False 0 frames ts i" using timed(2) by (simp add: list_all_iff)
      then show ?thesis using well_timed_drift ft(2-4) i by auto
    qed
    then show ?thesis by (auto simp: list_all_iff)
  qed
  then show ?thesis using timed unfolding s_def threshold_def ts_def Let_def by blast
qed

end
