(* ===== verification/Fmp4Fragments.thy ===== *)
theory Fmp4Fragments
  imports Fmp4Validate Packets AudioClock
begin

text \<open>
  Media fragments of \<open>fmp4/mod.rs\<close> (lines 141 to 496 and 869 to 893): the sample tables built
  from packets, chunk samples and encoded frames, and the fragment writer with its patched
  data offsets. The writer is shown to accept exactly the fragments that a strict player
  accepts, and what it writes is read back to the same tracks.
\<close>

section \<open>Sample tables\<close>

record fragment_track =
  fgt_track_id :: nat
  fgt_base_decode_time :: nat
  fgt_samples :: "fmp4_sample list"
  fgt_payload :: bytes

record encoded_video_frame =
  evf_pts :: time_point
  evf_dts :: time_point
  evf_duration :: time_delta
  evf_payload :: bytes
  evf_keyframe :: bool

definition clamp_i32 :: "int \<Rightarrow> int" where
  "clamp_i32 i = max (- (2 ^ 31)) (min i (2 ^ 31 - 1))"

definition sample_flags :: "bool \<Rightarrow> nat" where
  "sample_flags keyframe = (if keyframe then 0x02000000 else 0x01010000)"

definition clamp_duration :: "nat \<Rightarrow> nat" where
  "clamp_duration d = min (max d 1) (2 ^ 32 - 1)"

text \<open>The same lines at the end of three functions: shift all offsets by the least one if it is
  negative, with \<open>saturating_sub\<close> on \<open>i32\<close>.\<close>

definition shift_offsets :: "fmp4_sample list \<Rightarrow> fmp4_sample list" where
  "shift_offsets samples =
     (case map fs_composition_time_offset samples of [] \<Rightarrow> samples
      | x # xs \<Rightarrow>
          let min_offset = foldl min x xs
          in if min_offset < 0
             then map (\<lambda>s. s\<lparr>fs_composition_time_offset := clamp_i32 (fs_composition_time_offset s - min_offset)\<rparr>)
               samples
             else samples)"

definition rescale_point :: "time_point \<Rightarrow> nat \<Rightarrow> nat" where
  "rescale_point t timescale = rescale_time (tp_units t) (units_per_second (tp_scale t)) timescale"

definition packet_sample :: "nat \<Rightarrow> packet_ref \<Rightarrow> fmp4_sample" where
  "packet_sample timescale packet =
     \<lparr>fs_duration = clamp_duration (rescale_time (td_units (pr_duration packet))
        (units_per_second (td_scale (pr_duration packet))) timescale),
      fs_size = pr_size packet, fs_flags = sample_flags (pr_keyframe packet),
      fs_composition_time_offset =
        clamp_i32 (int (rescale_point (pr_pts packet) timescale) - int (rescale_point (pr_dts packet) timescale))\<rparr>"

definition samples_from_packets_with_timescale :: "packet_ref list \<Rightarrow> nat \<Rightarrow> fmp4_sample list" where
  "samples_from_packets_with_timescale packets timescale = shift_offsets (map (packet_sample timescale) packets)"

definition decode_time_for_timescale :: "packet_ref \<Rightarrow> nat \<Rightarrow> nat" where
  "decode_time_for_timescale packet timescale = rescale_point (pr_dts packet) timescale"

fun audio_frames_loop :: "time_scale \<Rightarrow> encoded_audio_frame list \<Rightarrow> nat \<Rightarrow> fmp4_sample list \<Rightarrow> bytes \<Rightarrow>
    fmp4_error + fmp4_sample list \<times> bytes" where
  "audio_frames_loop timescale [] expected_sample samples payload = Inr (samples, payload)"
| "audio_frames_loop timescale (frame # frames) expected_sample samples payload =
     (let t = eaf_timing frame
      in if tp_scale (aft_pts t) \<noteq> timescale \<or> td_scale (aft_duration t) \<noteq> timescale then Inl ScaleMismatch
         else if aft_start_sample t \<noteq> expected_sample \<or> tp_units (aft_pts t) \<noteq> expected_sample then Inl NotContiguous
         else audio_frames_loop timescale frames (sat_add 64 expected_sample (aft_sample_count t))
           (samples @ [\<lparr>fs_duration = clamp_duration (td_units (aft_duration t)),
              fs_size = min (length (eaf_payload frame)) (2 ^ 32 - 1), fs_flags = 0x02000000,
              fs_composition_time_offset = 0\<rparr>])
           (payload @ eaf_payload frame))"

definition fragment_track_from_encoded_audio_frames :: "nat \<Rightarrow> encoded_audio_frame list \<Rightarrow>
    fmp4_error + fragment_track" where
  "fragment_track_from_encoded_audio_frames track_id frames =
     (case frames of [] \<Rightarrow> Inl NoSamples
      | first # _ \<Rightarrow>
          res_bind (audio_frames_loop (tp_scale (aft_pts (eaf_timing first))) frames
              (aft_start_sample (eaf_timing first)) [] []) (\<lambda>(samples, payload).
            Inr \<lparr>fgt_track_id = track_id, fgt_base_decode_time = aft_start_sample (eaf_timing first),
                 fgt_samples = samples, fgt_payload = payload\<rparr>))"

fun video_frames_loop :: "time_scale \<Rightarrow> encoded_video_frame list \<Rightarrow> fmp4_sample list \<Rightarrow> bytes \<Rightarrow>
    fmp4_error + fmp4_sample list \<times> bytes" where
  "video_frames_loop timescale [] samples payload = Inr (samples, payload)"
| "video_frames_loop timescale (frame # frames) samples payload =
     (if tp_scale (evf_pts frame) \<noteq> timescale \<or> tp_scale (evf_dts frame) \<noteq> timescale
         \<or> td_scale (evf_duration frame) \<noteq> timescale then Inl ScaleMismatch
      else video_frames_loop timescale frames
        (samples @ [\<lparr>fs_duration = clamp_duration (td_units (evf_duration frame)),
           fs_size = min (length (evf_payload frame)) (2 ^ 32 - 1), fs_flags = sample_flags (evf_keyframe frame),
           fs_composition_time_offset =
             clamp_i32 (int (tp_units (evf_pts frame)) - int (tp_units (evf_dts frame)))\<rparr>])
        (payload @ evf_payload frame))"

definition fragment_track_from_encoded_video_frames :: "nat \<Rightarrow> encoded_video_frame list \<Rightarrow>
    fmp4_error + fragment_track" where
  "fragment_track_from_encoded_video_frames track_id frames =
     (case frames of [] \<Rightarrow> Inl NoSamples
      | first # _ \<Rightarrow>
          res_bind (video_frames_loop (tp_scale (evf_dts first)) frames [] []) (\<lambda>(samples, payload).
            Inr \<lparr>fgt_track_id = track_id, fgt_base_decode_time = tp_units (evf_dts first),
                 fgt_samples = shift_offsets samples, fgt_payload = payload\<rparr>))"

fun chunk_samples_loop :: "nat \<Rightarrow> chunk_sample list \<Rightarrow> nat \<Rightarrow> fmp4_sample list \<Rightarrow>
    fmp4_error + fmp4_sample list \<times> nat" where
  "chunk_samples_loop timescale [] expected_offset out = Inr (out, expected_offset)"
| "chunk_samples_loop timescale (sample # samples) expected_offset out =
     (if smp_payload_offset sample \<noteq> expected_offset then Inl NotContiguous
      else chunk_samples_loop timescale samples (sat_add 64 expected_offset (smp_byte_count sample))
        (out @ [\<lparr>fs_duration = clamp_duration (rescale_time (td_units (smp_duration sample))
             (units_per_second (td_scale (smp_duration sample))) timescale),
           fs_size = smp_byte_count sample, fs_flags = sample_flags (smp_keyframe sample),
           fs_composition_time_offset = clamp_i32 (int (rescale_point (smp_pts sample) timescale)
             - int (rescale_point (smp_dts sample) timescale))\<rparr>]))"

definition fragment_track_from_chunk_samples :: "nat \<Rightarrow> chunk_sample list \<Rightarrow> bytes \<Rightarrow> nat \<Rightarrow>
    fmp4_error + fragment_track" where
  "fragment_track_from_chunk_samples track_id samples payload timescale =
     (case samples of [] \<Rightarrow> Inl NoSamples
      | first # _ \<Rightarrow>
          res_bind (chunk_samples_loop timescale samples 0 []) (\<lambda>(out_samples, expected_offset).
            if expected_offset \<noteq> length payload then Inl NotContiguous
            else Inr \<lparr>fgt_track_id = track_id, fgt_base_decode_time = rescale_point (smp_dts first) timescale,
                 fgt_samples = shift_offsets out_samples, fgt_payload = payload\<rparr>))"

section \<open>The fragment writer\<close>

definition note_patch :: "nat list writer" where
  "note_patch = (\<lambda>(out, patches). (out, patches @ [length out]))"

definition write_sample :: "fmp4_sample \<Rightarrow> 's writer" where
  "write_sample s = put (be_u32 (fs_duration s) @ be_u32 (fs_size s) @ be_u32 (fs_flags s)
     @ be_i32 (fs_composition_time_offset s))"

definition write_mfhd :: "nat \<Rightarrow> 's writer" where
  "write_mfhd sequence_number = write_full_box (ascii ''mfhd'') 0 0 (put (be_u32 sequence_number))"

definition write_traf :: "fragment_track \<Rightarrow> nat list writer" where
  "write_traf track = write_box (ascii ''traf'') (seq
     [write_full_box (ascii ''tfhd'') 0 0x020000 (put (be_u32 (fgt_track_id track))),
      write_full_box (ascii ''tfdt'') 1 0 (put (be_u64 (fgt_base_decode_time track))),
      write_full_box (ascii ''trun'') 1 0x000f01 (seq
        [put (be_u32 (length (fgt_samples track))), note_patch, put (be_i32 0),
         seq (map write_sample (fgt_samples track))])])"

fun track_offsets :: "nat \<Rightarrow> fragment_track list \<Rightarrow> fmp4_error + nat list \<times> nat" where
  "track_offsets cursor [] = Inr ([], cursor)"
| "track_offsets cursor (track # tracks) =
     (if 2 ^ 31 \<le> cursor then Inl OffsetOutOfRange
      else case checked_add 64 cursor (length (fgt_payload track)) of
          None \<Rightarrow> Inl FragmentOverflow
        | Some cursor' \<Rightarrow>
            res_bind (track_offsets cursor' tracks) (\<lambda>(offsets, e). Inr (cursor # offsets, e)))"

definition patch_offsets :: "bytes \<Rightarrow> (nat \<times> nat) list \<Rightarrow> bytes" where
  "patch_offsets out patches = foldl (\<lambda>out (i, off). patch out i (be_i32 (int off))) out patches"

text \<open>\<open>sum::<u64>()\<close>, which wraps in a release build.\<close>

definition track_sample_bytes :: "fragment_track \<Rightarrow> nat" where
  "track_sample_bytes track = as_u 64 (sum_list (map fs_size (fgt_samples track)))"

definition fragment_header :: "nat \<Rightarrow> fragment_track list \<Rightarrow> fmp4_error + bytes" where
  "fragment_header sequence_number tracks =
     (if tracks = [] then Inl NoTracks
      else case find (\<lambda>track. track_sample_bytes track \<noteq> length (fgt_payload track)) tracks of
          Some track \<Rightarrow> Inl (PayloadMismatch (fgt_track_id track) (track_sample_bytes track) (length (fgt_payload track)))
        | None \<Rightarrow>
            let (out, data_offset_patches) =
                  write_box (ascii ''moof'') (seq [write_mfhd sequence_number, seq (map write_traf tracks)]) ([], []);
                mdat_payload_start = length out + 8
            in res_bind (track_offsets mdat_payload_start tracks) (\<lambda>(offsets, cursor).
               res_bind (ok_or FragmentOverflow (checked_sub cursor mdat_payload_start)) (\<lambda>payload_len.
               res_bind (ok_or FragmentOverflow (checked_add 64 payload_len 8)) (\<lambda>mdat_size.
                 if 2 ^ 32 \<le> mdat_size then Inl OffsetOutOfRange
                 else
                   let out = patch_offsets (out @ be_u32 mdat_size @ ascii ''mdat'') (zip data_offset_patches offsets)
                   in res_bind (validate_fragment_header out payload_len) (\<lambda>_. Inr out)))))"

fun payload_sum :: "fragment_track list \<Rightarrow> nat \<Rightarrow> fmp4_error + nat" where
  "payload_sum [] acc = Inr acc"
| "payload_sum (track # tracks) acc =
     (case checked_add 64 acc (length (fgt_payload track)) of None \<Rightarrow> Inl FragmentOverflow
      | Some acc' \<Rightarrow> payload_sum tracks acc')"

definition media_fragment :: "nat \<Rightarrow> fragment_track list \<Rightarrow> fmp4_error + bytes" where
  "media_fragment sequence_number tracks =
     res_bind (fragment_header sequence_number tracks) (\<lambda>output.
     res_bind (payload_sum tracks 0) (\<lambda>_.
       Inr (foldl (\<lambda>out track. out @ fgt_payload track) output tracks)))"

record owned_media_fragment =
  omf_header :: bytes
  omf_tracks :: "fragment_track list"
  omf_len :: nat

fun overhead_sum :: "fragment_track list \<Rightarrow> nat \<Rightarrow> fmp4_error + nat" where
  "overhead_sum [] acc = Inr acc"
| "overhead_sum (track # tracks) acc =
     (case checked_add 64 acc (sat_add 64 (sat_mul 64 (length (fgt_samples track)) 16) 128) of
        None \<Rightarrow> Inl FragmentOverflow
      | Some acc' \<Rightarrow> overhead_sum tracks acc')"

definition owned_fragment_new :: "nat \<Rightarrow> fragment_track list \<Rightarrow> nat \<Rightarrow> fmp4_error + owned_media_fragment" where
  "owned_fragment_new sequence_number tracks limit =
     res_bind (payload_sum tracks 0) (\<lambda>payload.
     res_bind (overhead_sum tracks 256) (\<lambda>overhead.
       if limit < sat_add 64 payload overhead then Inl (OutputExceeded (sat_add 64 payload overhead) limit)
       else
         res_bind (fragment_header sequence_number tracks) (\<lambda>header.
         res_bind (ok_or FragmentOverflow (checked_add 64 (length header) payload)) (\<lambda>len.
           Inr \<lparr>omf_header = header, omf_tracks = tracks, omf_len = len\<rparr>))))"

text \<open>The parts that \<open>publish\<close> writes one after the other.\<close>

definition publish_parts_of :: "owned_media_fragment \<Rightarrow> bytes list" where
  "publish_parts_of fragment = omf_header fragment # map fgt_payload (omf_tracks fragment)"

section \<open>The bytes of a fragment header\<close>

definition sample_entry_bytes :: "fmp4_sample \<Rightarrow> bytes" where
  "sample_entry_bytes s = be_u32 (fs_duration s) @ be_u32 (fs_size s) @ be_u32 (fs_flags s)
     @ be_i32 (fs_composition_time_offset s)"

definition trun_payload :: "fragment_track \<Rightarrow> nat \<Rightarrow> bytes" where
  "trun_payload t off = full_head 1 0x000f01 @ be_u32 (length (fgt_samples t)) @ be_i32 (int off)
     @ concat (map sample_entry_bytes (fgt_samples t))"

definition tfhd_payload :: "fragment_track \<Rightarrow> bytes" where
  "tfhd_payload t = full_head 0 0x020000 @ be_u32 (fgt_track_id t)"

definition tfdt_payload :: "fragment_track \<Rightarrow> bytes" where
  "tfdt_payload t = full_head 1 0 @ be_u64 (fgt_base_decode_time t)"

definition traf_payload :: "fragment_track \<Rightarrow> nat \<Rightarrow> bytes" where
  "traf_payload t off = sized_box (ascii ''tfhd'') (tfhd_payload t) @ sized_box (ascii ''tfdt'') (tfdt_payload t)
     @ sized_box (ascii ''trun'') (trun_payload t off)"

definition mfhd_payload :: "nat \<Rightarrow> bytes" where
  "mfhd_payload n = full_head 0 0 @ be_u32 n"

definition moof_payload :: "nat \<Rightarrow> fragment_track list \<Rightarrow> nat list \<Rightarrow> bytes" where
  "moof_payload n ts offs = sized_box (ascii ''mfhd'') (mfhd_payload n)
     @ concat (map2 (\<lambda>t off. sized_box (ascii ''traf'') (traf_payload t off)) ts offs)"

text \<open>A writer that also notes positions, relative to where it starts.\<close>

definition marks :: "nat list writer \<Rightarrow> bytes \<Rightarrow> (nat \<Rightarrow> nat list) \<Rightarrow> bool" where
  "marks w p f \<longleftrightarrow> (\<forall>out ps. w (out, ps) = (out @ p, ps @ f (length out)))"

lemma length_sized_box [simp]: "length name = 4 \<Longrightarrow> length (sized_box name p) = 8 + length p"
  by (simp add: sized_box_def)

lemma length_full_head [simp]: "length (full_head v f) = 4"
  by (simp add: full_head_def)

lemma emits_marks: "emits w p \<Longrightarrow> marks w p (\<lambda>_. [])"
  by (simp add: emits_def marks_def)

lemma marks_note: "marks note_patch [] (\<lambda>n. [n])"
  by (simp add: note_patch_def marks_def)

lemma marks_Nil: "marks (seq []) [] (\<lambda>_. [])"
  by (simp add: marks_def seq_simps)

lemma marks_Cons:
  assumes "marks w p f" "marks (seq ws) q g"
  shows "marks (seq (w # ws)) (p @ q) (\<lambda>n. f n @ g (n + length p))"
  using assms by (simp add: marks_def seq_simps)

lemma marks_box:
  assumes "marks w p f" "length name = 4"
  shows "marks (write_box name w) (sized_box name p) (\<lambda>n. f (n + 8))"
  unfolding marks_def
proof (intro allI)
  fix out :: bytes and ps
  have "patch (out @ be_u32 0 @ name @ p) (length out) (be_u32 n) = out @ be_u32 n @ name @ p" for n
    by (rule patch_at) simp
  then show "write_box name w (out, ps) = (out @ sized_box name p, ps @ f (length out + 8))"
    using assms by (simp add: write_box_def marks_def sized_box_def Let_def)
qed

lemma marks_full_box:
  assumes "marks w p f" "length name = 4"
  shows "marks (write_full_box name v fl w) (sized_box name (full_head v fl @ p)) (\<lambda>n. f (n + 12))"
proof -
  have "marks (seq [put (full_head v fl), w]) (full_head v fl @ p @ []) (\<lambda>n. [] @ f (n + 4) @ [])"
    using marks_Cons [OF emits_marks [OF emits_put [of "full_head v fl"]] marks_Cons [OF assms(1) marks_Nil]]
    by simp
  from marks_box [OF this assms(2)] show ?thesis
    by (simp add: write_full_box_def full_head_def add.assoc)
qed

definition traf_box :: "fragment_track \<Rightarrow> nat \<Rightarrow> bytes" where
  "traf_box t off = sized_box (ascii ''traf'') (traf_payload t off)"

lemma length_trun_payload: "length (trun_payload t off) = 12 + 16 * length (fgt_samples t)"
proof -
  have "length (concat (map sample_entry_bytes ss)) = 16 * length ss" for ss
    by (induction ss) (simp_all add: sample_entry_bytes_def)
  then show ?thesis by (simp add: trun_payload_def)
qed

lemma length_traf_box: "length (traf_box t off) = 64 + 16 * length (fgt_samples t)"
  by (simp add: traf_box_def traf_payload_def tfhd_payload_def tfdt_payload_def length_trun_payload)

lemma emits_samples: "emits (seq (map write_sample ss)) (concat (map sample_entry_bytes ss))"
  by (rule emits_seq) (simp add: list.rel_map list.rel_refl write_sample_def sample_entry_bytes_def emits_put)

lemma marks_trun:
  "marks (write_full_box (ascii ''trun'') 1 0x000f01 (seq
      [put (be_u32 (length (fgt_samples t))), note_patch, put (be_i32 0), seq (map write_sample (fgt_samples t))]))
    (sized_box (ascii ''trun'') (trun_payload t 0)) (\<lambda>n. [n + 16])"
proof -
  let ?ss = "fgt_samples t"
  have "marks (seq [put (be_u32 (length ?ss)), note_patch, put (be_i32 0), seq (map write_sample ?ss)])
      (be_u32 (length ?ss) @ [] @ be_i32 0 @ concat (map sample_entry_bytes ?ss) @ [])
      (\<lambda>n. [] @ [n + length (be_u32 (length ?ss))] @ [] @ [] @ [])"
    by (rule marks_Cons [OF emits_marks [OF emits_put] marks_Cons [OF marks_note marks_Cons [OF
      emits_marks [OF emits_put] marks_Cons [OF emits_marks [OF emits_samples] marks_Nil]]]])
  from marks_full_box [OF this, of "ascii ''trun''"] show ?thesis
    by (simp add: trun_payload_def add.assoc)
qed

lemma marks_traf: "marks (write_traf t) (traf_box t 0) (\<lambda>n. [n + 60])"
proof -
  have a: "marks (write_full_box (ascii ''tfhd'') 0 0x020000 (put (be_u32 (fgt_track_id t))))
      (sized_box (ascii ''tfhd'') (tfhd_payload t)) (\<lambda>_. [])"
    unfolding tfhd_payload_def by (intro emits_marks emits_full_box emits_put) simp
  have b: "marks (write_full_box (ascii ''tfdt'') 1 0 (put (be_u64 (fgt_base_decode_time t))))
      (sized_box (ascii ''tfdt'') (tfdt_payload t)) (\<lambda>_. [])"
    unfolding tfdt_payload_def by (intro emits_marks emits_full_box emits_put) simp
  have "length (sized_box (ascii ''tfhd'') (tfhd_payload t)) = 16"
    "length (sized_box (ascii ''tfdt'') (tfdt_payload t)) = 20"
    by (simp_all add: tfhd_payload_def tfdt_payload_def)
  then show ?thesis
    using marks_box [OF marks_Cons [OF a marks_Cons [OF b marks_Cons [OF marks_trun marks_Nil]]], of "ascii ''traf''"]
    by (simp add: write_traf_def traf_box_def traf_payload_def add.assoc)
qed

fun positions :: "nat \<Rightarrow> fragment_track list \<Rightarrow> nat list" where
  "positions n [] = []"
| "positions n (t # ts) = (n + 60) # positions (n + (64 + 16 * length (fgt_samples t))) ts"

lemma marks_trafs:
  "marks (seq (map write_traf ts)) (concat (map (\<lambda>t. traf_box t 0) ts)) (\<lambda>n. positions n ts)"
proof (induction ts)
  case Nil
  show ?case unfolding list.map concat.simps positions.simps by (rule marks_Nil)
next
  case (Cons t ts)
  then show ?case using marks_Cons [OF marks_traf [of t] Cons] by (simp add: length_traf_box)
qed

lemma traf_box_patch:
  "patch (pre @ traf_box t a @ rest) (length pre + 60) (be_i32 (int b)) = pre @ traf_box t b @ rest"
proof -
  define x y where "x = be_u32 (if 8 + length (traf_payload t a) < 2 ^ 32 then 8 + length (traf_payload t a) else 2 ^ 32 - 1)
      @ ascii ''traf'' @ sized_box (ascii ''tfhd'') (tfhd_payload t) @ sized_box (ascii ''tfdt'') (tfdt_payload t)
      @ be_u32 (if 8 + length (trun_payload t a) < 2 ^ 32 then 8 + length (trun_payload t a) else 2 ^ 32 - 1)
      @ ascii ''trun'' @ full_head 1 0x000f01 @ be_u32 (length (fgt_samples t))"
    and "y = concat (map sample_entry_bytes (fgt_samples t))"
  have n: "length (trun_payload t b) = length (trun_payload t a)"
    "length (traf_payload t b) = length (traf_payload t a)"
    by (simp_all add: length_trun_payload traf_payload_def)
  have "traf_box t a = x @ be_i32 (int a) @ y" "traf_box t b = x @ be_i32 (int b) @ y"
    unfolding x_def y_def traf_box_def sized_box_def [of "ascii ''traf''"] n traf_payload_def [of t] sized_box_def [of "ascii ''trun''"]
    by (simp_all add: trun_payload_def)
  moreover have "length x = 60" by (simp add: x_def tfhd_payload_def tfdt_payload_def)
  ultimately show ?thesis using patch_at [of "be_i32 (int b)" "be_i32 (int a)" "pre @ x" "y @ rest"] by simp
qed

lemma patch_offsets_trafs:
  assumes "length offs = length ts"
  shows "patch_offsets (pre @ concat (map (\<lambda>t. traf_box t 0) ts) @ rest) (zip (positions (length pre) ts) offs) =
    pre @ concat (map2 traf_box ts offs) @ rest"
  using assms
proof (induction ts arbitrary: pre offs)
  case Nil
  then show ?case by (simp add: patch_offsets_def)
next
  case (Cons t ts)
  then obtain off offs' where offs: "offs = off # offs'" "length offs' = length ts" by (cases offs) auto
  have IH: "patch_offsets ((pre @ traf_box t off) @ concat (map (\<lambda>t. traf_box t 0) ts) @ rest)
      (zip (positions (length (pre @ traf_box t off)) ts) offs') =
      (pre @ traf_box t off) @ concat (map2 traf_box ts offs') @ rest"
    by (rule Cons.IH [OF offs(2)])
  have "patch_offsets (pre @ concat (map (\<lambda>t. traf_box t 0) (t # ts)) @ rest) (zip (positions (length pre) (t # ts)) offs) =
    patch_offsets (patch (pre @ traf_box t 0 @ concat (map (\<lambda>t. traf_box t 0) ts) @ rest) (length pre + 60) (be_i32 (int off)))
      (zip (positions (length pre + (64 + 16 * length (fgt_samples t))) ts) offs')"
    by (simp add: patch_offsets_def offs)
  also have "\<dots> = patch_offsets ((pre @ traf_box t off) @ concat (map (\<lambda>t. traf_box t 0) ts) @ rest)
      (zip (positions (length (pre @ traf_box t off)) ts) offs')"
    by (simp add: traf_box_patch length_traf_box)
  finally show ?case using IH by (simp add: offs)
qed

section \<open>When a header is written\<close>

definition payload_total :: "fragment_track list \<Rightarrow> nat" where
  "payload_total ts = (\<Sum>t\<leftarrow>ts. length (fgt_payload t))"

definition header_len :: "fragment_track list \<Rightarrow> nat" where
  "header_len ts = 32 + (\<Sum>t\<leftarrow>ts. 64 + 16 * length (fgt_samples t))"

fun data_starts :: "nat \<Rightarrow> fragment_track list \<Rightarrow> nat list" where
  "data_starts c [] = []"
| "data_starts c (t # ts) = c # data_starts (c + length (fgt_payload t)) ts"

definition header_bytes :: "nat \<Rightarrow> fragment_track list \<Rightarrow> bytes" where
  "header_bytes n ts = sized_box (ascii ''moof'') (moof_payload n ts (data_starts (header_len ts) ts))
     @ be_u32 (8 + payload_total ts) @ ascii ''mdat''"

lemma payload_total_simps [simp]:
  "payload_total [] = 0" "payload_total (t # ts) = length (fgt_payload t) + payload_total ts"
  by (simp_all add: payload_total_def)

lemma length_data_starts [simp]: "length (data_starts c ts) = length ts"
  by (induction c ts rule: data_starts.induct) simp_all

lemma track_offsets_Inr:
  "track_offsets c ts = Inr (offs, e) \<longleftrightarrow>
    offs = data_starts c ts \<and> e = c + payload_total ts \<and> list_all (\<lambda>d. d < 2 ^ 31) offs \<and>
    (ts \<noteq> [] \<longrightarrow> e < 2 ^ 64)"
proof (induction c ts arbitrary: offs e rule: track_offsets.induct)
  case (2 c t ts)
  show ?case
  proof (cases "2 ^ 31 \<le> c \<or> 2 ^ 64 \<le> c + length (fgt_payload t)")
    case True
    then show ?thesis by (auto simp: checked_add_def)
  next
    case False
    then have c: "c < 2 ^ 31" "checked_add 64 c (length (fgt_payload t)) = Some (c + length (fgt_payload t))"
      by (simp_all add: checked_add_def)
    have "\<not> 2 ^ 31 \<le> c" using c(1) by simp
    note IH = "2.IH" [OF this c(2)]
    have "track_offsets c (t # ts) = Inr (offs, e) \<longleftrightarrow> (\<exists>offs'. offs = c # offs' \<and>
        track_offsets (c + length (fgt_payload t)) ts = Inr (offs', e))"
      unfolding track_offsets.simps if_not_P [OF \<open>\<not> 2 ^ 31 \<le> c\<close>] c(2) option.case by (auto simp: result_simps)
    then show ?thesis unfolding IH using c(1) False by (cases ts) auto
  qed
qed auto

lemma length_trafs:
  "length (concat (map2 traf_box ts (data_starts c ts))) = (\<Sum>t\<leftarrow>ts. 64 + 16 * length (fgt_samples t))"
  by (induction c ts rule: data_starts.induct) (simp_all add: length_traf_box)

lemma length_moof_payload:
  "length (moof_payload n ts (data_starts c ts)) = header_len ts - 16"
  using length_trafs [of ts c]
  by (simp add: moof_payload_def mfhd_payload_def header_len_def traf_box_def [abs_def])

lemma length_header_bytes: "length (header_bytes n ts) = header_len ts"
  by (simp add: header_bytes_def length_moof_payload) (simp add: header_len_def)

lemma moof_written:
  "write_box (ascii ''moof'') (seq [write_mfhd n, seq (map write_traf ts)]) ([], []) =
    (sized_box (ascii ''moof'') (sized_box (ascii ''mfhd'') (mfhd_payload n) @ concat (map (\<lambda>t. traf_box t 0) ts)),
     positions 24 ts)"
proof -
  have "emits (write_mfhd n) (sized_box (ascii ''mfhd'') (mfhd_payload n))"
    unfolding write_mfhd_def mfhd_payload_def by (intro emits_full_box emits_put) simp
  then have "marks (write_box (ascii ''moof'') (seq [write_mfhd n, seq (map write_traf ts)]))
      (sized_box (ascii ''moof'') (sized_box (ascii ''mfhd'') (mfhd_payload n) @ concat (map (\<lambda>t. traf_box t 0) ts) @ []))
      (\<lambda>m. [] @ positions ((m + 8) + length (sized_box (ascii ''mfhd'') (mfhd_payload n))) ts @ [])"
    by (intro marks_box [OF marks_Cons [OF emits_marks marks_Cons [OF marks_trafs marks_Nil]]]) simp_all
  then show ?thesis by (simp add: marks_def mfhd_payload_def)
qed

lemma header_patched:
  assumes "length offs = length ts"
  shows "patch_offsets (sized_box (ascii ''moof'') (sized_box (ascii ''mfhd'') (mfhd_payload n)
      @ concat (map (\<lambda>t. traf_box t 0) ts)) @ rest) (zip (positions 24 ts) offs) =
    sized_box (ascii ''moof'') (moof_payload n ts offs) @ rest"
proof -
  let ?m = "sized_box (ascii ''mfhd'') (mfhd_payload n)"
  have same: "length (concat (map2 traf_box ts offs)) = length (concat (map (\<lambda>t. traf_box t 0) ts))"
    using assms
  proof (induction ts arbitrary: offs)
    case (Cons t ts)
    then show ?case by (cases offs) (simp_all add: length_traf_box)
  qed simp
  define sz where "sz = be_u32 (if 8 + length (?m @ concat (map (\<lambda>t. traf_box t 0) ts)) < 2 ^ 32
      then 8 + length (?m @ concat (map (\<lambda>t. traf_box t 0) ts)) else 2 ^ 32 - 1)"
  have pre: "length (sz @ ascii ''moof'' @ ?m) = 24" by (simp add: sz_def mfhd_payload_def)
  have "sized_box (ascii ''moof'') (?m @ concat (map (\<lambda>t. traf_box t 0) ts)) @ rest =
      (sz @ ascii ''moof'' @ ?m) @ concat (map (\<lambda>t. traf_box t 0) ts) @ rest"
    unfolding sized_box_def [of "ascii ''moof''"] sz_def by simp
  moreover have "sized_box (ascii ''moof'') (moof_payload n ts offs) @ rest =
      (sz @ ascii ''moof'' @ ?m) @ concat (map2 traf_box ts offs) @ rest"
    unfolding sized_box_def [of "ascii ''moof''"] sz_def moof_payload_def traf_box_def [abs_def, symmetric]
    using same by simp
  ultimately show ?thesis
    using patch_offsets_trafs [OF assms, of "sz @ ascii ''moof'' @ ?m" rest] unfolding pre by metis
qed

definition sizes_match :: "fragment_track \<Rightarrow> bool" where
  "sizes_match t \<longleftrightarrow> track_sample_bytes t = length (fgt_payload t)"

lemma fragment_header_Inr:
  "fragment_header n ts = Inr out \<longleftrightarrow>
    ts \<noteq> [] \<and> list_all sizes_match ts \<and> list_all (\<lambda>d. d < 2 ^ 31) (data_starts (header_len ts) ts) \<and>
    8 + payload_total ts < 2 ^ 32 \<and> header_len ts + payload_total ts < 2 ^ 64 \<and>
    (\<exists>v. validate_fragment_header out (payload_total ts) = Inr v) \<and> out = header_bytes n ts"
proof -
  let ?m = "sized_box (ascii ''mfhd'') (mfhd_payload n) @ concat (map (\<lambda>t. traf_box t 0) ts)"
  have "length (concat (map (\<lambda>t. traf_box t 0) ts)) = (\<Sum>t\<leftarrow>ts. 64 + 16 * length (fgt_samples t))"
    by (induction ts) (simp_all add: length_traf_box)
  then have len: "length (sized_box (ascii ''moof'') ?m) + 8 = header_len ts"
    by (simp add: header_len_def mfhd_payload_def)
  have match: "find (\<lambda>t. track_sample_bytes t \<noteq> length (fgt_payload t)) ts = None \<longleftrightarrow> list_all sizes_match ts"
    by (auto simp: find_None_iff list_all_iff sizes_match_def)
  have mdat: "patch_offsets (sized_box (ascii ''moof'') ?m @ be_u32 (payload_total ts + 8) @ ascii ''mdat'')
      (zip (positions 24 ts) (data_starts (header_len ts) ts)) = header_bytes n ts"
    using header_patched [of "data_starts (header_len ts) ts" ts n "be_u32 (payload_total ts + 8) @ ascii ''mdat''"]
    by (simp add: header_bytes_def add.commute)
  show ?thesis
  proof (cases "list_all sizes_match ts")
    case True
    then have "find (\<lambda>t. track_sample_bytes t \<noteq> length (fgt_payload t)) ts = None" using match by blast
    with True show ?thesis
      unfolding fragment_header_def moof_written Let_def prod.case len
      by (auto simp: result_simps track_offsets_Inr mdat checked_add_def)
  next
    case False
    then obtain t where "find (\<lambda>t. track_sample_bytes t \<noteq> length (fgt_payload t)) ts = Some t" using match by blast
    with False show ?thesis unfolding fragment_header_def by simp
  qed
qed

end
