(* ===== verification/Fmp4Exact.thy ===== *)
theory Fmp4Exact
  imports Fmp4Fragments
begin

text \<open>
  What the validation of \<open>fmp4/validation.rs\<close> says about the header that the fragment writer of
  \<open>fmp4/mod.rs\<close> writes: the exact condition under which a fragment is accepted, and the reading
  of an accepted fragment back into its tracks. \<open>typed_track\<close> states the ranges of the machine
  types of the fields (\<open>u32\<close>, \<open>u64\<close>, \<open>i32\<close>).
\<close>

definition typed_sample :: "fmp4_sample \<Rightarrow> bool" where
  "typed_sample s \<longleftrightarrow> fs_duration s < 2 ^ 32 \<and> fs_size s < 2 ^ 32 \<and> fs_flags s < 2 ^ 32 \<and>
     - (2 ^ 31) \<le> fs_composition_time_offset s \<and> fs_composition_time_offset s < 2 ^ 31"

definition typed_track :: "fragment_track \<Rightarrow> bool" where
  "typed_track t \<longleftrightarrow> fgt_track_id t < 2 ^ 32 \<and> fgt_base_decode_time t < 2 ^ 64 \<and>
     list_all typed_sample (fgt_samples t)"

definition sample_ok :: "fmp4_sample \<Rightarrow> bool" where
  "sample_ok s \<longleftrightarrow> 0 < fs_duration s \<and> 0 < fs_size s \<and> 0 \<le> fs_composition_time_offset s"

definition track_ok :: "fragment_track \<Rightarrow> bool" where
  "track_ok t \<longleftrightarrow> fgt_samples t \<noteq> [] \<and> length (fgt_samples t) \<le> 2000000 \<and>
     \<not> non_sync (fs_flags (hd (fgt_samples t))) \<and> list_all sample_ok (fgt_samples t) \<and>
     fgt_base_decode_time t + sum_list (map fs_duration (fgt_samples t)) < 2 ^ 64 \<and>
     sum_list (map fs_size (fgt_samples t)) = length (fgt_payload t)"

section \<open>Readers on written boxes\<close>

lemma slice_mid: "length pre = i \<Longrightarrow> j = i + length m \<Longrightarrow> slice (pre @ m @ rest) i j = m"
  using slice_at [of pre m rest] by simp

lemma sample_fields:
  assumes "typed_sample s"
  shows "be_nat (slice (pre @ sample_entry_bytes s @ rest) (length pre) (length pre + 4)) = fs_duration s"
    "be_nat (slice (pre @ sample_entry_bytes s @ rest) (length pre + 4) (length pre + 8)) = fs_size s"
    "be_nat (slice (pre @ sample_entry_bytes s @ rest) (length pre + 8) (length pre + 12)) = fs_flags s"
    "signed_of 32 (be_nat (slice (pre @ sample_entry_bytes s @ rest) (length pre + 12) (length pre + 16))) =
      fs_composition_time_offset s"
proof -
  let ?a = "be_u32 (fs_duration s)" and ?b = "be_u32 (fs_size s)" and ?c = "be_u32 (fs_flags s)"
    and ?d = "be_i32 (fs_composition_time_offset s)"
  have e: "pre @ sample_entry_bytes s @ rest = pre @ ?a @ ?b @ ?c @ ?d @ rest"
    by (simp add: sample_entry_bytes_def)
  have "slice (pre @ ?a @ ?b @ ?c @ ?d @ rest) (length pre) (length pre + 4) = ?a"
    "slice ((pre @ ?a) @ ?b @ ?c @ ?d @ rest) (length pre + 4) (length pre + 8) = ?b"
    "slice ((pre @ ?a @ ?b) @ ?c @ ?d @ rest) (length pre + 8) (length pre + 12) = ?c"
    "slice ((pre @ ?a @ ?b @ ?c) @ ?d @ rest) (length pre + 12) (length pre + 16) = ?d"
    by (intro slice_mid; simp)+
  moreover have "signed_of 32 (be_nat ?d) = fs_composition_time_offset s"
    using assms by (intro signed_of_be_i32) (simp_all add: typed_sample_def)
  ultimately show "be_nat (slice (pre @ sample_entry_bytes s @ rest) (length pre) (length pre + 4)) = fs_duration s"
    "be_nat (slice (pre @ sample_entry_bytes s @ rest) (length pre + 4) (length pre + 8)) = fs_size s"
    "be_nat (slice (pre @ sample_entry_bytes s @ rest) (length pre + 8) (length pre + 12)) = fs_flags s"
    "signed_of 32 (be_nat (slice (pre @ sample_entry_bytes s @ rest) (length pre + 12) (length pre + 16))) =
      fs_composition_time_offset s"
    using assms unfolding e by (simp_all add: typed_sample_def)
qed

lemma trun_samples_written:
  assumes "list_all typed_sample ss" "length (pre @ concat (map sample_entry_bytes ss)) < 2 ^ 64"
  shows "trun_samples (pre @ concat (map sample_entry_bytes ss)) (length ss) (length pre) =
    Some (ss, length (pre @ concat (map sample_entry_bytes ss)))"
  using assms
proof (induction ss arbitrary: pre)
  case (Cons s ss)
  let ?rest = "concat (map sample_entry_bytes ss)"
  have len: "length (sample_entry_bytes s) = 16" by (simp add: sample_entry_bytes_def)
  have s: "typed_sample s" using Cons.prems by simp
  have IH: "trun_samples ((pre @ sample_entry_bytes s) @ ?rest) (length ss) (length (pre @ sample_entry_bytes s)) =
      Some (ss, length ((pre @ sample_entry_bytes s) @ ?rest))"
    using Cons.prems by (intro Cons.IH) simp_all
  have room: "\<not> past_end (length pre) 16 (length (pre @ sample_entry_bytes s @ ?rest))"
    using Cons.prems(2) len by simp
  have later: "trun_samples (pre @ sample_entry_bytes s @ ?rest) (length ss) (length pre + 16) =
      Some (ss, length (pre @ sample_entry_bytes s @ ?rest))"
    using IH len by simp
  have bytes: "pre @ concat (map sample_entry_bytes (s # ss)) = pre @ sample_entry_bytes s @ ?rest" by simp
  show ?case
    unfolding bytes length_Cons trun_samples.simps(2) if_not_P [OF room] later sample_fields [OF s] by simp
qed simp

lemma inspect_trun_written:
  assumes "list_all typed_sample (fgt_samples t)" "off < 2 ^ 31" "length (fgt_samples t) < 2 ^ 32"
  shows "inspect_trun (trun_payload t off) =
    (if 2000000 < length (fgt_samples t) then None
     else Some \<lparr>it_data_offset = int off, it_samples = fgt_samples t\<rparr>)"
proof -
  let ?ss = "fgt_samples t" and ?p = "trun_payload t off"
  let ?h = "full_head 1 0x000f01" and ?n = "be_u32 (length (fgt_samples t))" and ?o = "be_i32 (int off)"
  let ?rest = "concat (map sample_entry_bytes ?ss)"
  have p: "?p = ?h @ ?n @ ?o @ ?rest" by (simp add: trun_payload_def)
  have h: "?h = [1, 0, 0x0f, 0x01]" by (simp add: full_head_def byte_def)
  have a: "slice ?p 1 4 = [0, 0x0f, 0x01]" unfolding p h by (simp add: slice_def)
  have b: "slice ?p 4 8 = ?n" unfolding p by (rule slice_mid) simp_all
  have "?p = (?h @ ?n) @ ?o @ ?rest" unfolding p by simp
  then have c: "slice ?p 8 12 = ?o" using slice_mid [of "?h @ ?n" 8 12 ?o ?rest] by simp
  have n: "be_nat ?n = length ?ss" using assms(3) by simp
  have f: "signed_of 32 (be_nat ?o) = int off" using assms(2) by (intro signed_of_be_i32) simp_all
  have len: "length ?p = 12 + 16 * length ?ss" by (rule length_trun_payload)
  have first: "?p ! 0 = 1" unfolding p h by simp
  have v: "be_nat [0, 0x0f, 0x01 :: u8] = 0x000f01" by (simp add: be_nat_Cons)
  have pre: "?p = (?h @ ?n @ ?o) @ ?rest" unfolding p by simp
  have "trun_samples ((?h @ ?n @ ?o) @ ?rest) (length ?ss) (length (?h @ ?n @ ?o)) =
      Some (?ss, length ((?h @ ?n @ ?o) @ ?rest))"
    using assms(1,3) len unfolding p by (intro trun_samples_written) simp_all
  then have t: "trun_samples ?p (length ?ss) 12 = Some (?ss, length ?p)" unfolding pre by simp
  show ?thesis unfolding inspect_trun_def a b c n f v Let_def t using len first by simp
qed

lemma validate_samples_Inr:
  "validate_samples ss (a, d) = Inr r \<longleftrightarrow>
    list_all sample_ok ss \<and> (ss \<noteq> [] \<longrightarrow> d + sum_list (map fs_duration ss) < 2 ^ 64 \<and>
      a + sum_list (map fs_size ss) < 2 ^ 64) \<and>
    r = (a + sum_list (map fs_size ss), d + sum_list (map fs_duration ss))"
proof (induction ss arbitrary: a d r)
  case (Cons s ss)
  show ?case
  proof (cases "sample_ok s \<and> d + fs_duration s < 2 ^ 64 \<and> a + fs_size s < 2 ^ 64")
    case True
    then have step: "validate_samples (s # ss) (a, d) = validate_samples ss (a + fs_size s, d + fs_duration s)"
      by (simp add: sample_ok_def checked_add_def)
    show ?thesis unfolding step Cons.IH using True by (cases "ss = []") (auto simp: add.assoc)
  next
    case False
    then show ?thesis by (auto simp: sample_ok_def checked_add_def)
  qed
qed auto

definition traf_boxes :: "fragment_track \<Rightarrow> nat \<Rightarrow> boxes" where
  "traf_boxes t off = [(ascii ''tfhd'', tfhd_payload t), (ascii ''tfdt'', tfdt_payload t),
     (ascii ''trun'', trun_payload t off)]"

definition small_run :: "fragment_track \<Rightarrow> bool" where
  "small_run t \<longleftrightarrow> 16 * length (fgt_samples t) < 2 ^ 31"

lemma traf_payload_boxes:
  assumes "small_run t"
  shows "traf_payload t off = boxes_bytes (traf_boxes t off)" "list_all wf_box (traf_boxes t off)"
    "length (boxes_bytes (traf_boxes t off)) < 2 ^ 64"
proof -
  have n: "8 + length (trun_payload t off) < 2 ^ 32" "8 + length (tfhd_payload t) < 2 ^ 32"
    "8 + length (tfdt_payload t) < 2 ^ 32"
    using assms by (simp_all add: small_run_def length_trun_payload tfhd_payload_def tfdt_payload_def)
  show "traf_payload t off = boxes_bytes (traf_boxes t off)"
    unfolding traf_payload_def sized_box32 [OF n(1)] sized_box32 [OF n(2)] sized_box32 [OF n(3)]
    by (simp add: traf_boxes_def)
  show "list_all wf_box (traf_boxes t off)" using n by (simp add: traf_boxes_def wf_box_def)
  show "length (boxes_bytes (traf_boxes t off)) < 2 ^ 64" using n by (simp add: traf_boxes_def)
qed

lemma ascii_inj [simp]: "ascii s = ascii s' \<longleftrightarrow> map (of_char :: char \<Rightarrow> u8) s = map of_char s'"
  by (simp add: ascii_def)

lemma child_of_traf:
  assumes "small_run t"
  shows "child_box_payload (traf_payload t off) (ascii ''tfhd'') = Some (tfhd_payload t)"
    "child_box_payload (traf_payload t off) (ascii ''tfdt'') = Some (tfdt_payload t)"
    "child_box_payload (traf_payload t off) (ascii ''trun'') = Some (trun_payload t off)"
  unfolding traf_payload_boxes(1) [OF assms] child_box_payload_boxes [OF traf_payload_boxes(2,3) [OF assms]]
  by (simp_all add: traf_boxes_def)

lemma tfdt_written: "typed_track t \<Longrightarrow> tfdt_base_decode_time (tfdt_payload t) = Some (fgt_base_decode_time t)"
proof -
  assume t: "typed_track t"
  have "slice (full_head 1 0 @ be_u64 (fgt_base_decode_time t) @ []) 4 12 = be_u64 (fgt_base_decode_time t)"
    by (rule slice_mid) simp_all
  then have "be_nat (slice (tfdt_payload t) 4 12) = fgt_base_decode_time t"
    using t by (simp add: tfdt_payload_def typed_track_def)
  then show ?thesis
    by (simp add: tfdt_base_decode_time_def) (simp add: tfdt_payload_def full_head_def byte_def)
qed

definition run_ok :: "fragment_track \<Rightarrow> bool" where
  "run_ok t \<longleftrightarrow> fgt_samples t \<noteq> [] \<and> length (fgt_samples t) \<le> 2000000 \<and>
     \<not> non_sync (fs_flags (hd (fgt_samples t))) \<and> list_all sample_ok (fgt_samples t) \<and>
     fgt_base_decode_time t + sum_list (map fs_duration (fgt_samples t)) < 2 ^ 64 \<and>
     sum_list (map fs_size (fgt_samples t)) < 2 ^ 64"

definition run_bytes :: "fragment_track \<Rightarrow> nat" where
  "run_bytes t = sum_list (map fs_size (fgt_samples t))"

lemma validate_traf_written:
  assumes "typed_track t" "small_run t" "off < 2 ^ 31"
  shows "validate_traf (traf_payload t off) ms me prev = Inr r \<longleftrightarrow>
    run_ok t \<and> ms \<le> off \<and> off + run_bytes t \<le> me \<and> prev \<le> off \<and> off + run_bytes t < 2 ^ 64 \<and>
    r = (off + run_bytes t, length (fgt_samples t), run_bytes t)"
proof -
  have samples: "list_all typed_sample (fgt_samples t)" "length (fgt_samples t) < 2 ^ 32"
    using assms(1,2) by (simp_all add: typed_track_def small_run_def)
  note insp = inspect_trun_written [OF samples(1) assms(3) samples(2)]
  show ?thesis
    unfolding validate_traf_def child_of_traf [OF assms(2)] ok_or_simps res_bind_simps tfdt_written [OF assms(1)]
    unfolding insp
    by (auto simp: result_simps validate_samples_Inr Let_def run_ok_def run_bytes_def)
qed

definition add_counts :: "nat \<times> nat \<Rightarrow> fragment_track \<Rightarrow> nat \<times> nat" where
  "add_counts acc t = (sat_add 64 (fst acc) (length (fgt_samples t)), sat_add 64 (snd acc) (run_bytes t))"

lemma track_ok_run: "sizes_match t \<Longrightarrow> track_ok t \<longleftrightarrow> run_ok t"
  "track_ok t \<Longrightarrow> run_bytes t = length (fgt_payload t)"
  "sizes_match t \<Longrightarrow> run_ok t \<Longrightarrow> run_bytes t = length (fgt_payload t)"
  by (auto simp: sizes_match_def track_ok_def run_ok_def run_bytes_def track_sample_bytes_def as_u_def
      intro: le_less_trans [OF eq_imp_le mod_less_divisor])

lemma validate_loop_written:
  assumes "list_all typed_track ts" "list_all small_run ts" "list_all sizes_match ts"
    "list_all (\<lambda>d. d < 2 ^ 31) (data_starts c ts)" "ms \<le> c" "prev \<le> c" "c + payload_total ts \<le> me" "me < 2 ^ 64"
  shows "validate_traf_loop (map2 traf_payload ts (data_starts c ts)) ms me prev acc = Inr r \<longleftrightarrow>
    list_all track_ok ts \<and> r = foldl add_counts acc ts"
  using assms
proof (induction ts arbitrary: c prev acc)
  case (Cons t ts)
  have t: "typed_track t" "small_run t" "sizes_match t" "c < 2 ^ 31" using Cons.prems by simp_all
  show ?case
  proof (cases "run_ok t")
    case True
    note bytes = track_ok_run(3) [OF t(3) True]
    have "validate_traf (traf_payload t c) ms me prev =
        Inr (c + run_bytes t, length (fgt_samples t), run_bytes t)"
      unfolding validate_traf_written [OF t(1,2,4)] using True Cons.prems(5-8) bytes by simp
    then have step: "validate_traf_loop (map2 traf_payload (t # ts) (data_starts c (t # ts))) ms me prev acc =
        validate_traf_loop (map2 traf_payload ts (data_starts (c + length (fgt_payload t)) ts)) ms me
          (c + length (fgt_payload t)) (add_counts acc t)"
      using bytes by (cases acc) (simp add: add_counts_def)
    show ?thesis
      unfolding step using Cons.IH [of "c + length (fgt_payload t)"] Cons.prems True track_ok_run(1) [OF t(3)] by simp
  next
    case False
    then have no: "\<not> validate_traf (traf_payload t c) ms me prev = Inr r'" for r'
      unfolding validate_traf_written [OF t(1,2,4)] by simp
    show ?thesis using False no track_ok_run(1) [OF t(3)] by (cases acc) (auto simp: result_simps)
  qed
qed auto

section \<open>Headers\<close>

definition moof_boxes :: "nat \<Rightarrow> fragment_track list \<Rightarrow> nat list \<Rightarrow> boxes" where
  "moof_boxes n ts offs = (ascii ''mfhd'', mfhd_payload n) #
     map2 (\<lambda>t off. (ascii ''traf'', traf_payload t off)) ts offs"

lemma header_len_member: "t \<in> set ts \<Longrightarrow> 96 + 16 * length (fgt_samples t) \<le> header_len ts"
proof -
  assume t: "t \<in> set ts"
  have "64 + 16 * length (fgt_samples t) \<le> (\<Sum>t\<leftarrow>ts. 64 + 16 * length (fgt_samples t))"
    using t by (intro member_le_sum_list) auto
  then show ?thesis by (simp add: header_len_def)
qed

lemma small_runs: "header_len ts < 2 ^ 31 \<Longrightarrow> list_all small_run ts"
  unfolding list_all_iff small_run_def using header_len_member by (metis add_leD2 le_less_trans)

lemma moof_payload_boxes:
  assumes "header_len ts < 2 ^ 31" "length offs = length ts"
  shows "moof_payload n ts offs = boxes_bytes (moof_boxes n ts offs)" "list_all wf_box (moof_boxes n ts offs)"
proof -
  have len: "length (traf_payload t off) = 56 + 16 * length (fgt_samples t)" for t off
    using length_traf_box [of t off] by (simp add: traf_box_def)
  have small: "8 + length (traf_payload t off) < 2 ^ 32" if "t \<in> set ts" for t off
    using header_len_member [OF that] assms(1) unfolding len by simp
  have m: "8 + length (mfhd_payload n) < 2 ^ 32" by (simp add: mfhd_payload_def)
  have "concat (map2 (\<lambda>t off. sized_box (ascii ''traf'') (traf_payload t off)) ts offs) =
      boxes_bytes (map2 (\<lambda>t off. (ascii ''traf'', traf_payload t off)) ts offs) \<and>
    list_all wf_box (map2 (\<lambda>t off. (ascii ''traf'', traf_payload t off)) ts offs)"
    using assms(2) small
  proof (induction ts arbitrary: offs)
    case (Cons t ts)
    obtain off offs' where o: "offs = off # offs'" "length offs' = length ts" using Cons.prems(1) by (cases offs) auto
    have t: "8 + length (traf_payload t off) < 2 ^ 32" by (rule Cons.prems) simp
    have IH: "concat (map2 (\<lambda>t off. sized_box (ascii ''traf'') (traf_payload t off)) ts offs') =
        boxes_bytes (map2 (\<lambda>t off. (ascii ''traf'', traf_payload t off)) ts offs') \<and>
      list_all wf_box (map2 (\<lambda>t off. (ascii ''traf'', traf_payload t off)) ts offs')"
      using Cons.prems(2) by (intro Cons.IH [OF o(2)]) simp
    have wf: "wf_box (ascii ''traf'', traf_payload t off)" using t by (simp add: wf_box_def)
    show ?case unfolding o(1) using IH wf by (simp add: sized_box32 [OF t])
  qed simp
  then show "moof_payload n ts offs = boxes_bytes (moof_boxes n ts offs)" "list_all wf_box (moof_boxes n ts offs)"
    using m by (simp_all add: moof_payload_def moof_boxes_def sized_box32 wf_box_def)
qed

lemma trafs_of_moof:
  assumes "header_len ts < 2 ^ 31"
  shows "child_box_payloads (moof_payload n ts (data_starts c ts)) (ascii ''traf'') =
    map2 traf_payload ts (data_starts c ts)"
proof -
  note b = moof_payload_boxes [OF assms length_data_starts [of c ts], of n]
  have len: "length (boxes_bytes (moof_boxes n ts (data_starts c ts))) < 2 ^ 64"
    unfolding b(1) [symmetric] length_moof_payload using assms by simp
  have filter_all: "map snd (filter (\<lambda>b. fst b = ascii ''traf'')
      (map2 (\<lambda>t off. (ascii ''traf'', traf_payload t off)) ts offs)) = map2 traf_payload ts offs" for offs
    by (induction ts offs rule: list_induct2') simp_all
  show ?thesis
    unfolding b(1) child_box_payloads_boxes [OF b(2) len] by (simp add: moof_boxes_def filter_all)
qed

lemma top_level_first:
  assumes "wf_box (n, p)" "length (box32 n p @ rest) < 2 ^ 64"
  shows "find_top_level_box (box32 n p @ rest) n = Some 0" "top_level_box_payload (box32 n p @ rest) n = Some p"
proof -
  have l: "length ([] @ box32 n p @ rest) < 2 ^ 64" using assms(2) by simp
  note at = box_at [OF assms(1) l, unfolded append_Nil list.size(3) add_0]
  show f: "find_top_level_box (box32 n p @ rest) n = Some 0"
    using find_box_step [OF assms(1) l, of n] by (simp add: find_top_level_box_def)
  have "length n = 4" using assms(1) by (simp add: wf_box_def)
  then show "top_level_box_payload (box32 n p @ rest) n = Some p"
    using at(1,4) by (simp add: top_level_box_payload_def f box_payload_at_def get_range_def add.assoc)
qed

lemma moof_box:
  assumes "header_len ts < 2 ^ 31"
  shows "wf_box (ascii ''moof'', moof_payload n ts (data_starts c ts))"
    "sized_box (ascii ''moof'') (moof_payload n ts (data_starts c ts)) =
      box32 (ascii ''moof'') (moof_payload n ts (data_starts c ts))"
proof -
  have l: "8 + length (moof_payload n ts (data_starts c ts)) < 2 ^ 32"
    unfolding length_moof_payload using assms by simp
  show "wf_box (ascii ''moof'', moof_payload n ts (data_starts c ts))" using l by (simp add: wf_box_def)
  show "sized_box (ascii ''moof'') (moof_payload n ts (data_starts c ts)) =
      box32 (ascii ''moof'') (moof_payload n ts (data_starts c ts))" by (rule sized_box32 [OF l])
qed

lemma validate_trafs_written:
  assumes "ts \<noteq> []" "list_all typed_track ts" "list_all sizes_match ts" "header_len ts < 2 ^ 31"
    "list_all (\<lambda>d. d < 2 ^ 31) (data_starts (header_len ts) ts)" "payload_total ts < 2 ^ 32"
  shows "validate_trafs (moof_payload n ts (data_starts (header_len ts) ts)) (header_len ts)
      (header_len ts + payload_total ts) = Inr v \<longleftrightarrow>
    list_all track_ok ts \<and>
    v = \<lparr>mv_track_count = length ts, mv_sample_count = fst (foldl add_counts (0, 0) ts),
         mv_payload_bytes = snd (foldl add_counts (0, 0) ts)\<rparr>"
proof -
  have me: "header_len ts + payload_total ts < 2 ^ 64" using assms(4,6) by simp
  have "map2 traf_payload ts (data_starts (header_len ts) ts) \<noteq> []" using assms(1) by (cases ts) simp_all
  moreover have "length (map2 traf_payload ts (data_starts (header_len ts) ts)) = length ts" by simp
  ultimately show ?thesis
    unfolding validate_trafs_def Let_def trafs_of_moof [OF assms(4)]
    using validate_loop_written [OF assms(2) small_runs [OF assms(4)] assms(3,5) order_refl order_refl order_refl me]
    by (auto simp: result_simps split: prod.splits)
qed

lemma validate_header_written:
  assumes "ts \<noteq> []" "list_all typed_track ts" "list_all sizes_match ts" "header_len ts < 2 ^ 31"
    "list_all (\<lambda>d. d < 2 ^ 31) (data_starts (header_len ts) ts)" "8 + payload_total ts < 2 ^ 32"
  shows "(\<exists>v. validate_fragment_header (header_bytes n ts) (payload_total ts) = Inr v) \<longleftrightarrow> list_all track_ok ts"
proof -
  let ?m = "moof_payload n ts (data_starts (header_len ts) ts)"
  let ?tail = "be_u32 (8 + payload_total ts) @ ascii ''mdat''"
  have h: "header_bytes n ts = box32 (ascii ''moof'') ?m @ ?tail"
    by (simp add: header_bytes_def moof_box(2) [OF assms(4)])
  have len: "length (header_bytes n ts) = header_len ts" by (rule length_header_bytes)
  have moof: "top_level_box_payload (header_bytes n ts) (ascii ''moof'') = Some ?m"
    unfolding h by (rule top_level_first(2) [OF moof_box(1) [OF assms(4)]]) (use len h assms(4) in simp)
  have "length (box32 (ascii ''moof'') ?m) = header_len ts - 8" using len unfolding h by simp
  then have tail: "drop (header_len ts - 8) (header_bytes n ts) = ?tail" unfolding h by simp
  have size: "be_nat (take 4 ?tail) = 8 + payload_total ts" using assms(6) by simp
  have total: "payload_total ts < 2 ^ 32" using assms(6) by simp
  have me: "header_len ts + payload_total ts < 2 ^ 64" "payload_total ts + 8 < 2 ^ 64"
    using assms(4,6) by simp_all
  show ?thesis
    unfolding validate_fragment_header_def moof ok_or_simps res_bind_simps len tail size Let_def
    using validate_trafs_written [OF assms(1-5) total, of n] me
    by (simp add: checked_add_def add.commute)
qed

section \<open>Accepted fragments\<close>

definition fragment_ok :: "fragment_track list \<Rightarrow> bool" where
  "fragment_ok ts \<longleftrightarrow> ts \<noteq> [] \<and> list_all track_ok ts \<and>
     header_len ts + payload_total (butlast ts) < 2 ^ 31 \<and> 8 + payload_total ts < 2 ^ 32"

lemma data_starts_below:
  "ts \<noteq> [] \<Longrightarrow> list_all (\<lambda>d. d < b) (data_starts c ts) \<longleftrightarrow> c + payload_total (butlast ts) < b"
proof (induction c ts rule: data_starts.induct)
  case (2 c t ts)
  show ?case
  proof (cases "ts = []")
    case False
    then show ?thesis using 2 by (auto simp: add.assoc)
  qed simp
qed simp

lemma sizes_match_ok:
  assumes "list_all track_ok ts" "payload_total ts < 2 ^ 64"
  shows "list_all sizes_match ts"
  unfolding list_all_iff
proof
  fix t assume t: "t \<in> set ts"
  have "length (fgt_payload t) \<le> payload_total ts"
    unfolding payload_total_def using t by (intro member_le_sum_list) auto
  then have "length (fgt_payload t) < 2 ^ 64" using assms(2) by linarith
  moreover have "sum_list (map fs_size (fgt_samples t)) = length (fgt_payload t)"
    using assms(1) t by (simp add: list_all_iff track_ok_def)
  ultimately show "sizes_match t" by (simp add: sizes_match_def track_sample_bytes_def)
qed

lemma fragment_header_exact:
  assumes "list_all typed_track ts"
  shows "fragment_header n ts = Inr out \<longleftrightarrow> fragment_ok ts \<and> out = header_bytes n ts"
proof (cases "ts \<noteq> [] \<and> list_all (\<lambda>d. d < 2 ^ 31) (data_starts (header_len ts) ts) \<and> 8 + payload_total ts < 2 ^ 32")
  case True
  then have ts: "ts \<noteq> []" "list_all (\<lambda>d. d < 2 ^ 31) (data_starts (header_len ts) ts)" "8 + payload_total ts < 2 ^ 32"
    by blast+
  have h: "header_len ts < 2 ^ 31" using ts(1,2) by (cases ts) simp_all
  have fits: "header_len ts + payload_total ts < 2 ^ 64" using h ts(3) by simp
  note below = data_starts_below [OF ts(1), of "2 ^ 31" "header_len ts"]
  show ?thesis
  proof (cases "list_all sizes_match ts")
    case True
    note v = validate_header_written [OF ts(1) assms True h ts(2,3), of n]
    show ?thesis unfolding fragment_header_Inr fragment_ok_def using v True ts fits below by blast
  next
    case False
    then have "\<not> list_all track_ok ts" using sizes_match_ok [of ts] ts(3) by auto
    then show ?thesis unfolding fragment_header_Inr fragment_ok_def using False by blast
  qed
next
  case False
  then show ?thesis unfolding fragment_header_Inr fragment_ok_def
    using data_starts_below [of ts "2 ^ 31" "header_len ts"] by blast
qed

lemma payload_sum_Inr:
  "payload_sum ts acc = Inr p \<longleftrightarrow> p = acc + payload_total ts \<and> (ts \<noteq> [] \<longrightarrow> p < 2 ^ 64)"
proof (induction ts arbitrary: acc)
  case (Cons t ts)
  show ?case
  proof (cases "acc + length (fgt_payload t) < 2 ^ 64")
    case True
    then have step: "payload_sum (t # ts) acc = payload_sum ts (acc + length (fgt_payload t))"
      by (simp add: checked_add_def)
    show ?thesis unfolding step Cons.IH using True by (cases "ts = []") (auto simp: add.assoc)
  next
    case False
    then show ?thesis by (auto simp: checked_add_def)
  qed
qed auto

lemma media_fragment_exact:
  assumes "list_all typed_track ts"
  shows "media_fragment n ts = Inr out \<longleftrightarrow>
    fragment_ok ts \<and> out = header_bytes n ts @ concat (map fgt_payload ts)"
proof -
  have payloads: "foldl (\<lambda>out t. out @ fgt_payload t) out ts = out @ concat (map fgt_payload ts)" for out
    by (induction ts arbitrary: out) simp_all
  have "fragment_ok ts \<Longrightarrow> payload_sum ts 0 = Inr (payload_total ts)"
    by (simp add: payload_sum_Inr fragment_ok_def)
  then show ?thesis
    by (auto simp: media_fragment_def result_simps fragment_header_exact [OF assms] payloads)
qed

text \<open>How a player reads a fragment: it follows the boxes and takes the payload of each run
  at its data offset.\<close>

definition read_traf :: "bytes \<Rightarrow> bytes \<Rightarrow> fragment_track option" where
  "read_traf out traf =
     Option.bind (child_box_payload traf (ascii ''tfhd'')) (\<lambda>tfhd.
     Option.bind (Option.bind (child_box_payload traf (ascii ''tfdt'')) tfdt_base_decode_time) (\<lambda>base.
     Option.bind (Option.bind (child_box_payload traf (ascii ''trun'')) inspect_trun) (\<lambda>run.
       Some \<lparr>fgt_track_id = be_nat (slice tfhd 4 8), fgt_base_decode_time = base, fgt_samples = it_samples run,
         fgt_payload = slice out (nat (it_data_offset run))
           (nat (it_data_offset run) + sum_list (map fs_size (it_samples run)))\<rparr>)))"

definition read_fragment :: "bytes \<Rightarrow> fragment_track option list option" where
  "read_fragment out =
     map_option (\<lambda>moof. map (read_traf out) (child_box_payloads moof (ascii ''traf'')))
       (top_level_box_payload out (ascii ''moof''))"

lemma tfhd_written: "typed_track t \<Longrightarrow> be_nat (slice (tfhd_payload t) 4 8) = fgt_track_id t"
proof -
  assume t: "typed_track t"
  have "slice (full_head 0 0x020000 @ be_u32 (fgt_track_id t) @ []) 4 8 = be_u32 (fgt_track_id t)"
    by (rule slice_mid) simp_all
  then show ?thesis using t by (simp add: tfhd_payload_def typed_track_def)
qed

lemma read_traf_written:
  assumes "typed_track t" "small_run t" "track_ok t" "off < 2 ^ 31"
    and "slice out off (off + length (fgt_payload t)) = fgt_payload t"
  shows "read_traf out (traf_payload t off) = Some t"
proof -
  have samples: "list_all typed_sample (fgt_samples t)" "length (fgt_samples t) < 2 ^ 32"
    "length (fgt_samples t) \<le> 2000000"
    using assms(1-3) by (simp_all add: typed_track_def small_run_def track_ok_def)
  have "sum_list (map fs_size (fgt_samples t)) = length (fgt_payload t)" using assms(3) by (simp add: track_ok_def)
  then show ?thesis
    unfolding read_traf_def child_of_traf [OF assms(2)]
    using tfdt_written [OF assms(1)] tfhd_written [OF assms(1)] samples(3)
      inspect_trun_written [OF samples(1) assms(4) samples(2)] assms(5) by simp
qed

lemma read_trafs_written:
  assumes "list_all typed_track ts" "list_all small_run ts" "list_all track_ok ts"
    "list_all (\<lambda>d. d < 2 ^ 31) (data_starts (length pre) ts)"
  shows "map (read_traf (pre @ concat (map fgt_payload ts))) (map2 traf_payload ts (data_starts (length pre) ts)) =
    map Some ts"
  using assms
proof (induction ts arbitrary: pre)
  case (Cons t ts)
  let ?out = "pre @ concat (map fgt_payload (t # ts))"
  have out: "?out = (pre @ fgt_payload t) @ concat (map fgt_payload ts)" by simp
  have "slice ?out (length pre) (length pre + length (fgt_payload t)) = fgt_payload t"
    using slice_at [of pre "fgt_payload t" "concat (map fgt_payload ts)"] by simp
  then have hd: "read_traf ?out (traf_payload t (length pre)) = Some t"
    using Cons.prems by (intro read_traf_written) simp_all
  have "map (read_traf ((pre @ fgt_payload t) @ concat (map fgt_payload ts)))
      (map2 traf_payload ts (data_starts (length (pre @ fgt_payload t)) ts)) = map Some ts"
    using Cons.prems by (intro Cons.IH) simp_all
  then have "map (read_traf ?out) (map2 traf_payload ts (data_starts (length pre + length (fgt_payload t)) ts)) = map Some ts"
    unfolding out by simp
  then show ?case using hd by simp
qed simp

lemma media_boxes:
  assumes "fragment_ok ts"
  shows "header_bytes n ts @ concat (map fgt_payload ts) =
      box32 (ascii ''moof'') (moof_payload n ts (data_starts (header_len ts) ts))
        @ box32 (ascii ''mdat'') (concat (map fgt_payload ts))"
    "header_len ts < 2 ^ 31" "length (header_bytes n ts @ concat (map fgt_payload ts)) < 2 ^ 64"
    "list_all (\<lambda>d. d < 2 ^ 31) (data_starts (header_len ts) ts)"
    "length (concat (map fgt_payload ts)) = payload_total ts" "wf_box (ascii ''mdat'', concat (map fgt_payload ts))"
proof -
  show p: "length (concat (map fgt_payload ts)) = payload_total ts"
    by (simp add: payload_total_def length_concat comp_def)
  show h: "header_len ts < 2 ^ 31" using assms by (simp add: fragment_ok_def)
  show "header_bytes n ts @ concat (map fgt_payload ts) =
      box32 (ascii ''moof'') (moof_payload n ts (data_starts (header_len ts) ts))
        @ box32 (ascii ''mdat'') (concat (map fgt_payload ts))"
    unfolding header_bytes_def moof_box(2) [OF h] by (simp add: box32_def [of "ascii ''mdat''"] p)
  show "length (header_bytes n ts @ concat (map fgt_payload ts)) < 2 ^ 64"
    using h p length_header_bytes [of n ts] assms by (simp add: fragment_ok_def)
  show "list_all (\<lambda>d. d < 2 ^ 31) (data_starts (header_len ts) ts)"
    using assms data_starts_below [of ts "2 ^ 31" "header_len ts"] by (simp add: fragment_ok_def)
  show "wf_box (ascii ''mdat'', concat (map fgt_payload ts))"
    using assms p by (simp add: fragment_ok_def wf_box_def)
qed

lemma counts_exact:
  assumes "a + (\<Sum>t\<leftarrow>ts. length (fgt_samples t)) < 2 ^ 64" "b + payload_total ts < 2 ^ 64" "list_all track_ok ts"
  shows "foldl add_counts (a, b) ts = (a + (\<Sum>t\<leftarrow>ts. length (fgt_samples t)), b + payload_total ts)"
  using assms
proof (induction ts arbitrary: a b)
  case (Cons t ts)
  have "add_counts (a, b) t = (a + length (fgt_samples t), b + length (fgt_payload t))"
    using Cons.prems by (simp add: add_counts_def sat_add_exact track_ok_run(2))
  then show ?case using Cons.IH [of "a + length (fgt_samples t)" "b + length (fgt_payload t)"] Cons.prems
    by (simp add: add.assoc)
qed simp

lemma samples_below_header: "(\<Sum>t\<leftarrow>ts. length (fgt_samples t)) \<le> header_len ts"
  unfolding header_len_def by (induction ts) simp_all

text \<open>C12: The fragment writer accepts a fragment exactly when a strict player could play it:
  every track starts on a sync sample, no sample is empty, lasts no time or is composed before
  it is decoded, the sample sizes add up to the payload, decode times do not overflow, no run has
  more than two million samples, every data offset fits 31 bits and the \<open>mdat\<close> box 32 bits. The
  header is then the one computed by the format's layout and the payloads follow it.\<close>

theorem fragment_accepted_exactly:
  assumes "list_all typed_track ts"
  shows "media_fragment n ts = Inr out \<longleftrightarrow>
    ts \<noteq> [] \<and> list_all track_ok ts \<and> header_len ts + payload_total (butlast ts) < 2 ^ 31 \<and>
    8 + payload_total ts < 2 ^ 32 \<and> out = header_bytes n ts @ concat (map fgt_payload ts)"
  unfolding media_fragment_exact [OF assms] fragment_ok_def by blast

lemma media_fragment_top:
  assumes "list_all typed_track ts" "media_fragment n ts = Inr out"
  defines "moof \<equiv> moof_payload n ts (data_starts (header_len ts) ts)" and "mdat \<equiv> concat (map fgt_payload ts)"
  shows "fragment_ok ts" "out = header_bytes n ts @ mdat" "out = box32 (ascii ''moof'') moof @ box32 (ascii ''mdat'') mdat"
    "length out < 2 ^ 64" "wf_box (ascii ''moof'', moof)" "wf_box (ascii ''mdat'', mdat)"
    "top_level_box_payload out (ascii ''moof'') = Some moof"
proof -
  show ok: "fragment_ok ts" "out = header_bytes n ts @ mdat"
    using assms(2) media_fragment_exact [OF assms(1)] by (simp_all add: mdat_def)
  note b = media_boxes [OF ok(1)]
  show out: "out = box32 (ascii ''moof'') moof @ box32 (ascii ''mdat'') mdat"
    unfolding ok(2) mdat_def moof_def by (rule b(1))
  show len: "length out < 2 ^ 64" unfolding ok(2) mdat_def by (rule b(3))
  show wf: "wf_box (ascii ''moof'', moof)" unfolding moof_def by (rule moof_box(1) [OF b(2)])
  show "wf_box (ascii ''mdat'', mdat)" unfolding mdat_def by (rule b(6))
  show "top_level_box_payload out (ascii ''moof'') = Some moof"
    using top_level_first(2) [OF wf len [unfolded out]] out by simp
qed

lemma read_fragment_written:
  assumes "list_all typed_track ts" "media_fragment n ts = Inr out"
  shows "read_fragment out = Some (map Some ts)"
proof -
  note t = media_fragment_top [OF assms]
  note b = media_boxes [OF t(1)]
  have "map (read_traf out) (map2 traf_payload ts (data_starts (header_len ts) ts)) = map Some ts"
    using read_trafs_written [OF assms(1) small_runs [OF b(2)] _ , of "header_bytes n ts"] t(1,2) b(4)
    by (simp add: fragment_ok_def length_header_bytes)
  then show ?thesis unfolding read_fragment_def t(7) option.map(2) trafs_of_moof [OF b(2)] by simp
qed

text \<open>C13: A player that follows the boxes of a written fragment and the data offsets of its runs
  finds exactly the tracks that were written: identifiers, decode times, every sample and every
  payload byte; the MP4 reader of the engine sees the two boxes \<open>moof\<close> and \<open>mdat\<close>.\<close>

theorem fragment_reads_back:
  assumes "list_all typed_track ts" "media_fragment n ts = Inr out"
  shows "read_fragment out = Some (map Some ts) \<and>
    (\<exists>moof. atoms out = [\<lparr>at_kind = ascii ''moof'', at_payload = moof\<rparr>,
       \<lparr>at_kind = ascii ''mdat'', at_payload = concat (map fgt_payload ts)\<rparr>])"
proof
  show "read_fragment out = Some (map Some ts)" by (rule read_fragment_written [OF assms])
  note t = media_fragment_top [OF assms]
  let ?as = "[\<lparr>at_kind = ascii ''moof'', at_payload = moof_payload n ts (data_starts (header_len ts) ts)\<rparr>,
    \<lparr>at_kind = ascii ''mdat'', at_payload = concat (map fgt_payload ts)\<rparr>]"
  have enc: "concat (map enc_atom ?as) = out" using t(5,6) by (simp add: t(3) enc_atom_def wf_box_def)
  have "atoms (concat (map enc_atom ?as)) = ?as"
    unfolding atoms_def using t(4) enc by (intro atom_codec.collect_enc) (simp_all add: wf_atom_def)
  then show "\<exists>moof. atoms out = [\<lparr>at_kind = ascii ''moof'', at_payload = moof\<rparr>,
      \<lparr>at_kind = ascii ''mdat'', at_payload = concat (map fgt_payload ts)\<rparr>]"
    unfolding enc by blast
qed

text \<open>The validator for whole fragments, written independently of the writer, accepts every
  fragment that the writer produces and reports the number of its tracks, of its samples and of
  its payload bytes.\<close>

theorem written_fragment_validates:
  assumes "list_all typed_track ts" "media_fragment n ts = Inr out"
  shows "validate_media_fragment out = Inr \<lparr>mv_track_count = length ts,
    mv_sample_count = (\<Sum>t\<leftarrow>ts. length (fgt_samples t)), mv_payload_bytes = payload_total ts\<rparr>"
proof -
  note ok = media_fragment_top [OF assms]
  let ?m = "moof_payload n ts (data_starts (header_len ts) ts)" and ?d = "concat (map fgt_payload ts)"
  note b = media_boxes [OF ok(1)]
  note out = ok(3) and len = ok(4) and wf = ok(5) and top = ok(7)
  have moof_len: "length (box32 (ascii ''moof'') ?m) = header_len ts - 8"
    by (simp add: length_moof_payload) (simp add: header_len_def)
  have l0: "length ([] @ box32 (ascii ''moof'') ?m @ box32 (ascii ''mdat'') ?d) < 2 ^ 64" using len out by simp
  have l1: "length (box32 (ascii ''moof'') ?m @ box32 (ascii ''mdat'') ?d @ []) < 2 ^ 64" using len out by simp
  have "find_top_level_box out (ascii ''mdat'') = find_box_from out (ascii ''mdat'') (length (box32 (ascii ''moof'') ?m))"
    using find_box_step [OF wf l0, of "ascii ''mdat''"] unfolding find_top_level_box_def out by simp
  then have mdat: "find_top_level_box out (ascii ''mdat'') = Some (header_len ts - 8)"
    using find_box_step [OF b(6) l1, of "ascii ''mdat''"] unfolding out by (simp add: moof_len)
  note at = box_at [OF b(6) l1, unfolded append_Nil2 moof_len, folded out]
  have payload: "box_payload_at out (header_len ts - 8) = Some ?d"
    using at(1,4,5) len by (simp add: box_payload_at_def get_range_def add.assoc)
  have h: "8 \<le> header_len ts" by (simp add: header_len_def)
  have fits: "header_len ts < 2 ^ 64" "header_len ts + payload_total ts < 2 ^ 64" "payload_total ts < 2 ^ 32"
    using b(2) ok(1) by (simp_all add: fragment_ok_def)
  have tracks: "ts \<noteq> []" "list_all track_ok ts" "list_all sizes_match ts"
    using ok(1) fits sizes_match_ok by (simp_all add: fragment_ok_def)
  have "(\<Sum>t\<leftarrow>ts. length (fgt_samples t)) < 2 ^ 64" using samples_below_header [of ts] fits(1) by linarith
  then have counts: "foldl add_counts (0, 0) ts = ((\<Sum>t\<leftarrow>ts. length (fgt_samples t)), payload_total ts)"
    using counts_exact [of 0 ts 0] fits(3) tracks(2) by simp
  have "validate_trafs ?m (header_len ts) (header_len ts + payload_total ts) = Inr
      \<lparr>mv_track_count = length ts, mv_sample_count = (\<Sum>t\<leftarrow>ts. length (fgt_samples t)), mv_payload_bytes = payload_total ts\<rparr>"
    using validate_trafs_written [OF tracks(1) assms(1) tracks(3) b(2,4) fits(3)] tracks(2) counts by simp
  then show ?thesis
    unfolding validate_media_fragment_def top mdat payload ok_or_simps res_bind_simps
    using h fits b(5) by (simp add: checked_add_def)
qed


text \<open>A fragment prepared for streaming fits its limit, and publishing its header and the
  payloads one after the other writes exactly the bytes of the buffered fragment, as many as its
  length says.\<close>

theorem streamed_fragment_within_limit:
  assumes "list_all typed_track ts" "owned_fragment_new n ts limit = Inr f"
  shows "media_fragment n ts = Inr (concat (publish_parts_of f)) \<and>
    omf_len f = length (concat (publish_parts_of f)) \<and> omf_len f \<le> limit"
proof -
  obtain overhead where f: "overhead_sum ts 256 = Inr overhead" "fragment_ok ts"
      "f = \<lparr>omf_header = header_bytes n ts, omf_tracks = ts, omf_len = header_len ts + payload_total ts\<rparr>"
      "sat_add 64 (payload_total ts) overhead \<le> limit"
    using assms(2) unfolding owned_fragment_new_def
    by (auto simp: result_simps payload_sum_Inr fragment_header_exact [OF assms(1)] length_header_bytes split: if_splits)
  note b = media_boxes [OF f(2)]
  have len: "header_len ts + payload_total ts < 2 ^ 64"
    using b(3) [of n] length_header_bytes [of n ts] b(5) by simp
  have "acc + (\<Sum>t\<leftarrow>us. 64 + 16 * length (fgt_samples t)) \<le> overhead"
    if "overhead_sum us acc = Inr overhead" "list_all small_run us" for us acc using that
  proof (induction us arbitrary: acc)
    case (Cons t us)
    have small: "sat_add 64 (sat_mul 64 (length (fgt_samples t)) 16) 128 = 16 * length (fgt_samples t) + 128"
      using Cons.prems(2) by (simp add: small_run_def sat_mul_def sat_add_def)
    have "overhead_sum us (acc + (16 * length (fgt_samples t) + 128)) = Inr overhead"
      using Cons.prems(1) unfolding overhead_sum.simps small by (auto split: option.splits)
    from Cons.IH [OF this] Cons.prems(2) show ?case by simp
  qed simp
  from this [OF f(1) small_runs [OF b(2)]] have "header_len ts \<le> overhead" by (simp add: header_len_def)
  then have "header_len ts + payload_total ts \<le> sat_add 64 (payload_total ts) overhead"
    using len by (simp add: sat_add_def)
  moreover have "concat (publish_parts_of f) = header_bytes n ts @ concat (map fgt_payload ts)"
    by (simp add: publish_parts_of_def f(3))
  ultimately show ?thesis
    using f(2-4) b(5) length_header_bytes [of n ts] media_fragment_exact [OF assms(1)] by simp
qed

section \<open>Concrete fragments\<close>

definition demo_fragment :: "fragment_track list" where
  "demo_fragment =
     [\<lparr>fgt_track_id = 1, fgt_base_decode_time = 9000, fgt_samples =
        [\<lparr>fs_duration = 512, fs_size = 3, fs_flags = 0x02000000, fs_composition_time_offset = 0\<rparr>,
         \<lparr>fs_duration = 512, fs_size = 2, fs_flags = 0x01010000, fs_composition_time_offset = 1024\<rparr>],
       fgt_payload = [1, 2, 3, 4, 5]\<rparr>,
      \<lparr>fgt_track_id = 2, fgt_base_decode_time = 0, fgt_samples =
        [\<lparr>fs_duration = 1024, fs_size = 1, fs_flags = 0x02000000, fs_composition_time_offset = 0\<rparr>],
       fgt_payload = [7]\<rparr>]"

lemma demo_typed: "list_all typed_track demo_fragment"
  by (simp add: demo_fragment_def typed_track_def typed_sample_def)

lemma demo_ok: "demo_fragment \<noteq> []" "list_all track_ok demo_fragment"
  "header_len demo_fragment + payload_total (butlast demo_fragment) < 2 ^ 31" "8 + payload_total demo_fragment < 2 ^ 32"
  by (simp_all add: demo_fragment_def track_ok_def sample_ok_def non_sync_def header_len_def)

lemma demo_written: "\<exists>out. media_fragment 7 demo_fragment = Inr out"
  unfolding media_fragment_exact [OF demo_typed] fragment_ok_def using demo_ok by blast

lemma demo_payloads: "map fgt_payload demo_fragment = [[1, 2, 3, 4, 5], [7]]" "length demo_fragment = 2"
  "(\<Sum>t\<leftarrow>demo_fragment. length (fgt_samples t)) = 3" "payload_total demo_fragment = 6"
  by (simp_all add: demo_fragment_def)

theorem fragment_accepted_exactly_witness:
  "media_fragment 7 demo_fragment = Inr (header_bytes 7 demo_fragment @ [1, 2, 3, 4, 5, 7])"
  using fragment_accepted_exactly [OF demo_typed] demo_ok by (simp add: demo_payloads)

theorem fragment_reads_back_witness:
  "\<exists>out. media_fragment 7 demo_fragment = Inr out \<and> read_fragment out = Some (map Some demo_fragment)"
  using demo_written fragment_reads_back [OF demo_typed] by blast

theorem written_fragment_validates_witness:
  "\<exists>out. media_fragment 7 demo_fragment = Inr out \<and> validate_media_fragment out =
    Inr \<lparr>mv_track_count = 2, mv_sample_count = 3, mv_payload_bytes = 6\<rparr>"
  using demo_written written_fragment_validates [OF demo_typed] unfolding demo_payloads by blast

lemma demo_owned: "\<exists>f. owned_fragment_new 7 demo_fragment 1000 = Inr f"
proof -
  have "payload_sum demo_fragment 0 = Inr 6" by (simp add: payload_sum_Inr demo_payloads)
  moreover have "overhead_sum demo_fragment 256 = Inr 560"
    by (simp add: demo_fragment_def checked_add_def sat_add_def sat_mul_def)
  moreover have "\<not> 1000 < sat_add 64 6 560" by (simp add: sat_add_def)
  moreover have "fragment_header 7 demo_fragment = Inr (header_bytes 7 demo_fragment)"
    unfolding fragment_header_exact [OF demo_typed] fragment_ok_def using demo_ok by blast
  moreover have "length (header_bytes 7 demo_fragment) = 208"
    by (simp add: length_header_bytes) (simp add: header_len_def demo_fragment_def)
  ultimately show ?thesis unfolding owned_fragment_new_def by (simp add: checked_add_def)
qed

theorem streamed_fragment_within_limit_witness:
  "\<exists>f. owned_fragment_new 7 demo_fragment 1000 = Inr f \<and> omf_len f \<le> 1000 \<and>
    media_fragment 7 demo_fragment = Inr (concat (publish_parts_of f))"
  using demo_owned streamed_fragment_within_limit [OF demo_typed] by blast

end
