(* ===== verification/Fmp4Copy.thy ===== *)
theory Fmp4Copy
  imports Fmp4Exact
begin

text \<open>
  The three ways the engine fills a fragment track (\<open>fmp4/mod.rs\<close>, lines 255 to 488): packets of
  a window, chunk samples with their extracted payload, and encoded frames. Each is shown to
  give a track that the fragment writer accepts.
\<close>

section \<open>Composition offsets\<close>

lemma foldl_min_le: "foldl min k xs \<le> (k :: int) \<and> (\<forall>x \<in> set xs. foldl min k xs \<le> x)"
proof (induction xs arbitrary: k)
  case (Cons x xs)
  show ?case using Cons [of "min k x"] by auto
qed simp

lemma foldl_min_range: "P k \<Longrightarrow> list_all P xs \<Longrightarrow> P (foldl min (k :: int) xs)"
  by (induction xs arbitrary: k) (auto simp: min_def)

lemma clamp_i32_bounds: "- (2 ^ 31) \<le> clamp_i32 i" "clamp_i32 i < 2 ^ 31" "0 \<le> i \<Longrightarrow> 0 \<le> clamp_i32 i"
  by (auto simp: clamp_i32_def)

definition shift_by :: "int \<Rightarrow> fmp4_sample \<Rightarrow> fmp4_sample" where
  "shift_by m s = s\<lparr>fs_composition_time_offset := clamp_i32 (fs_composition_time_offset s - m)\<rparr>"

lemma shift_offsets_cases:
  obtains "shift_offsets ss = ss" "\<forall>s \<in> set ss. 0 \<le> fs_composition_time_offset s"
  | m where "shift_offsets ss = map (shift_by m) ss" "\<forall>s \<in> set ss. m \<le> fs_composition_time_offset s"
proof (cases ss)
  case Nil
  then show ?thesis using that(1) by (simp add: shift_offsets_def)
next
  case (Cons s ss')
  define m where "m = foldl min (fs_composition_time_offset s) (map fs_composition_time_offset ss')"
  have le: "\<forall>s \<in> set ss. m \<le> fs_composition_time_offset s"
    using foldl_min_le [of "fs_composition_time_offset s" "map fs_composition_time_offset ss'"] Cons
    by (simp add: m_def)
  have sh: "shift_offsets ss = (if m < 0 then map (shift_by m) ss else ss)"
    by (simp add: shift_offsets_def Cons m_def [symmetric] Let_def shift_by_def [abs_def])
  show ?thesis
  proof (cases "m < 0")
    case True
    then show ?thesis using that(2) [of m] sh le by simp
  next
    case False
    then show ?thesis using that(1) sh le by fastforce
  qed
qed

lemma shift_by_fields:
  "map fs_duration (map (shift_by m) ss) = map fs_duration ss" "map fs_size (map (shift_by m) ss) = map fs_size ss"
  "map fs_flags (map (shift_by m) ss) = map fs_flags ss"
  by (simp_all add: shift_by_def comp_def)

lemma shift_offsets_fields:
  "map fs_duration (shift_offsets ss) = map fs_duration ss" "map fs_size (shift_offsets ss) = map fs_size ss"
  "map fs_flags (shift_offsets ss) = map fs_flags ss" "length (shift_offsets ss) = length ss"
proof -
  show "map fs_duration (shift_offsets ss) = map fs_duration ss" "map fs_size (shift_offsets ss) = map fs_size ss"
    "map fs_flags (shift_offsets ss) = map fs_flags ss"
    by (cases ss rule: shift_offsets_cases; simp only: shift_by_fields)+
  then show "length (shift_offsets ss) = length ss" by (metis length_map)
qed

lemma shift_offsets_nonneg: "list_all (\<lambda>s. 0 \<le> fs_composition_time_offset s) (shift_offsets ss)"
  by (cases ss rule: shift_offsets_cases) (auto simp: list_all_iff shift_by_def intro: clamp_i32_bounds(3))

lemma shift_offsets_typed: "list_all typed_sample ss \<Longrightarrow> list_all typed_sample (shift_offsets ss)"
  using clamp_i32_bounds(1,2)
  by (cases ss rule: shift_offsets_cases) (simp_all add: list_all_iff shift_by_def typed_sample_def)

lemma clamp_duration_bounds: "0 < clamp_duration d" "clamp_duration d < 2 ^ 32"
  by (auto simp: clamp_duration_def)

section \<open>Packets of a window\<close>

definition writable_packets :: "packet_ref list \<Rightarrow> nat \<Rightarrow> bool" where
  "writable_packets ps timescale \<longleftrightarrow> ps \<noteq> [] \<and> length ps \<le> 2000000 \<and> pr_keyframe (hd ps) \<and>
     list_all (\<lambda>p. 0 < pr_size p \<and> pr_size p < 2 ^ 32) ps \<and>
     decode_time_for_timescale (hd ps) timescale < 2 ^ 63"

lemma packet_sample_typed: "pr_size p < 2 ^ 32 \<Longrightarrow> typed_sample (packet_sample timescale p)"
  using clamp_i32_bounds clamp_duration_bounds
  by (auto simp: typed_sample_def packet_sample_def sample_flags_def)

lemma sum_list_bounded: "\<forall>x \<in> set xs. x \<le> (k :: nat) \<Longrightarrow> sum_list xs \<le> length xs * k"
  by (induction xs) auto

lemma packets_track_ok:
  assumes "writable_packets ps timescale" "length payload = sum_list (map pr_size ps)" "tid < 2 ^ 32"
  shows "track_ok \<lparr>fgt_track_id = tid, fgt_base_decode_time = decode_time_for_timescale (hd ps) timescale,
      fgt_samples = samples_from_packets_with_timescale ps timescale, fgt_payload = payload\<rparr> \<and>
    typed_track \<lparr>fgt_track_id = tid, fgt_base_decode_time = decode_time_for_timescale (hd ps) timescale,
      fgt_samples = samples_from_packets_with_timescale ps timescale, fgt_payload = payload\<rparr>"
proof -
  let ?raw = "map (packet_sample timescale) ps" and ?ss = "samples_from_packets_with_timescale ps timescale"
  have ss: "?ss = shift_offsets ?raw" by (simp add: samples_from_packets_with_timescale_def)
  note f = shift_offsets_fields [of ?raw, folded ss]
  have ps: "ps \<noteq> []" "pr_keyframe (hd ps)" "length ps \<le> 2000000"
    "list_all (\<lambda>p. 0 < pr_size p \<and> pr_size p < 2 ^ 32) ps" "decode_time_for_timescale (hd ps) timescale < 2 ^ 63"
    using assms(1) by (simp_all add: writable_packets_def)
  have typed: "list_all typed_sample ?ss"
    unfolding ss using ps(4) packet_sample_typed by (intro shift_offsets_typed) (auto simp: list_all_iff)
  have sizes: "map fs_size ?ss = map pr_size ps" unfolding f by (simp add: packet_sample_def comp_def)
  have flags: "map fs_flags ?ss = map (\<lambda>p. sample_flags (pr_keyframe p)) ps"
    unfolding f by (simp add: packet_sample_def comp_def)
  have durs: "map fs_duration ?ss = map fs_duration ?raw" by (rule f(1))
  have dpos: "list_all (\<lambda>d. 0 < d \<and> d < 2 ^ 32) (map fs_duration ?ss)"
    unfolding durs using clamp_duration_bounds by (auto simp: list_all_iff packet_sample_def)
  have spos: "list_all ((<) 0) (map fs_size ?ss)" unfolding sizes using ps(4) by (auto simp: list_all_iff)
  have ok: "list_all sample_ok ?ss"
    using dpos spos shift_offsets_nonneg [of ?raw, folded ss] by (auto simp: list_all_iff sample_ok_def)
  have ne: "?ss \<noteq> []" and len: "length ?ss = length ps" using f(4) ps(1) by auto
  have "hd (map fs_flags ?ss) = sample_flags (pr_keyframe (hd ps))" unfolding flags using ps(1) by (simp add: hd_map)
  then have sync: "\<not> non_sync (fs_flags (hd ?ss))"
    using ne ps(2) by (simp add: hd_map sample_flags_def non_sync_def)
  have "sum_list (map fs_duration ?ss) \<le> length ps * (2 ^ 32)"
    using sum_list_bounded [of "map fs_duration ?ss" "2 ^ 32"] dpos len by (auto simp: list_all_iff less_imp_le)
  also have "\<dots> \<le> 2000000 * 2 ^ 32" using ps(3) by simp
  finally have "decode_time_for_timescale (hd ps) timescale + sum_list (map fs_duration ?ss) < 2 ^ 64"
    using ps(5) by simp
  then show ?thesis
    using ok ne sync len ps(3,5) typed sizes assms(2,3) by (simp add: track_ok_def typed_track_def)
qed

section \<open>Chunk samples\<close>

lemma chunk_samples_loop_packets:
  assumes "off + sum_list (map pr_size ps) < 2 ^ 64"
  shows "chunk_samples_loop timescale (samples_loop ps idx off) off out =
    Inr (out @ map (packet_sample timescale) ps, off + sum_list (map pr_size ps))"
  using assms
proof (induction ps arbitrary: idx off out)
  case (Cons p ps)
  have "sat_add 64 off (pr_size p) = off + pr_size p" using Cons.prems by (intro sat_add_exact) simp
  then show ?case
    using Cons.IH [of "off + pr_size p"] Cons.prems by (simp add: packet_sample_def add.assoc)
qed simp

lemma spans_payload_length:
  assumes "spans_loop source ps idx = Inr spans"
  shows "length (concat (map span_bytes spans)) = sum_list (map pr_size ps)"
proof -
  have "map length (map span_bytes spans) = map pr_size ps" using spans_loop_fields [OF assms] by (metis map_map)
  then show ?thesis by (simp only: length_concat)
qed

text \<open>A packet range copied out of a source (its chunk samples and its extracted payload) makes
  the same fragment track as its packet references do, and the fragment writer accepts this track:
  a copied range that starts on a keyframe and has no empty packet is always playable.\<close>

theorem copied_range_is_playable:
  assumes "packet_payload_spans source ps rng = Inr spans" "packet_samples_for_range ps rng = Inr samples"
    and "qs = slice ps (rng_start rng) (rng_end rng)" "writable_packets qs timescale" "tid < 2 ^ 32"
    and "sum_list (map pr_size qs) < 2 ^ 64"
  shows "\<exists>t. fragment_track_from_chunk_samples tid samples (concat (map span_bytes spans)) timescale = Inr t \<and>
    t = \<lparr>fgt_track_id = tid, fgt_base_decode_time = decode_time_for_timescale (hd qs) timescale,
         fgt_samples = samples_from_packets_with_timescale qs timescale,
         fgt_payload = concat (map span_bytes spans)\<rparr> \<and> track_ok t \<and> typed_track t"
proof -
  let ?payload = "concat (map span_bytes spans)"
  let ?t = "\<lparr>fgt_track_id = tid, fgt_base_decode_time = decode_time_for_timescale (hd qs) timescale,
         fgt_samples = samples_from_packets_with_timescale qs timescale, fgt_payload = ?payload\<rparr>"
  have sp: "spans_loop source qs (rng_start rng) = Inr spans"
    using assms(1,3) by (simp add: packet_payload_spans_def split: if_splits)
  have sm: "samples = samples_loop qs (rng_start rng) 0"
    using assms(2,3) by (simp add: packet_samples_for_range_def split: if_splits)
  obtain q qs' where q: "qs = q # qs'" using assms(4) by (cases qs) (simp_all add: writable_packets_def)
  have len: "length ?payload = sum_list (map pr_size qs)" by (rule spans_payload_length [OF sp])
  have loop: "chunk_samples_loop timescale samples 0 [] = Inr (map (packet_sample timescale) qs, length ?payload)"
    unfolding sm len using chunk_samples_loop_packets [of 0 qs timescale "rng_start rng" "[]"] assms(6) by simp
  obtain s ss where s: "samples = s # ss" "smp_dts s = pr_dts q" unfolding sm q by simp
  have "fragment_track_from_chunk_samples tid samples ?payload timescale = Inr ?t"
    unfolding fragment_track_from_chunk_samples_def loop
    by (simp add: s q decode_time_for_timescale_def samples_from_packets_with_timescale_def)
  then show ?thesis using packets_track_ok [OF assms(4) len assms(5)] by blast
qed

theorem copied_range_is_playable_witness:
  "\<exists>spans samples t. packet_payload_spans (replicate 100 7) demo_packets \<lparr>rng_start = 0, rng_end = 2\<rparr> = Inr spans \<and>
    packet_samples_for_range demo_packets \<lparr>rng_start = 0, rng_end = 2\<rparr> = Inr samples \<and>
    fragment_track_from_chunk_samples 1 samples (concat (map span_bytes spans)) 90000 = Inr t \<and> track_ok t"
proof -
  let ?r = "\<lparr>rng_start = 0, rng_end = 2\<rparr>" and ?src = "replicate 100 7 :: bytes"
  have q: "slice demo_packets 0 2 = [demo_packet 0 True, demo_packet 40 False]"
    by (simp add: demo_packets_def slice_def numeral_2_eq_2)
  have l: "length demo_packets = 3" by (simp add: demo_packets_def)
  obtain spans where sp: "packet_payload_spans ?src demo_packets ?r = Inr spans"
    by (simp add: packet_payload_spans_def q l demo_packet_def checked_add_def)
  obtain samples where sm: "packet_samples_for_range demo_packets ?r = Inr samples"
    by (simp add: packet_samples_for_range_def q l)
  have "writable_packets [demo_packet 0 True, demo_packet 40 False] 90000"
    by (simp add: writable_packets_def demo_packet_def decode_time_for_timescale_def rescale_point_def
        time_point_millis_def rescale_time_def)
  then show ?thesis
    using copied_range_is_playable [OF sp sm, of "[demo_packet 0 True, demo_packet 40 False]" 90000 1] sp sm q
    by (simp add: demo_packet_def)
qed


section \<open>Encoded frames\<close>

fun frames_follow :: "nat \<Rightarrow> encoded_audio_frame list \<Rightarrow> bool" where
  "frames_follow expected [] \<longleftrightarrow> True"
| "frames_follow expected (f # fs) \<longleftrightarrow> aft_start_sample (eaf_timing f) = expected \<and>
     frames_follow (sat_add 64 expected (aft_sample_count (eaf_timing f))) fs"

definition audio_sample :: "encoded_audio_frame \<Rightarrow> fmp4_sample" where
  "audio_sample f = \<lparr>fs_duration = clamp_duration (aft_sample_count (eaf_timing f)),
     fs_size = min (length (eaf_payload f)) (2 ^ 32 - 1), fs_flags = 0x02000000, fs_composition_time_offset = 0\<rparr>"

lemma audio_frames_loop_exact:
  assumes "list_all (timing_exact s) (map eaf_timing fs)"
  shows "audio_frames_loop s fs expected samples payload =
    (if frames_follow expected fs
     then Inr (samples @ map audio_sample fs, payload @ concat (map eaf_payload fs)) else Inl NotContiguous)"
  using assms
proof (induction fs arbitrary: expected samples payload)
  case (Cons f fs)
  have f: "tp_scale (aft_pts (eaf_timing f)) = s" "td_scale (aft_duration (eaf_timing f)) = s"
    "tp_units (aft_pts (eaf_timing f)) = aft_start_sample (eaf_timing f)"
    "td_units (aft_duration (eaf_timing f)) = aft_sample_count (eaf_timing f)"
    using Cons.prems by (simp_all add: timing_exact_def)
  have IH: "audio_frames_loop s fs e ss p = (if frames_follow e fs
      then Inr (ss @ map audio_sample fs, p @ concat (map eaf_payload fs)) else Inl NotContiguous)" for e ss p
    using Cons.prems by (intro Cons.IH) simp
  show ?case by (simp add: Let_def f IH audio_sample_def)
qed simp

text \<open>Frames timed by the audio clock form one fragment as long as the clock is not re-anchored
  after the first of them: the track starts at the first frame's sample, has one sample per
  frame with the frame's own sample count as duration, and carries all payloads in order.\<close>

theorem clocked_audio_fragment:
  assumes "map eaf_timing fs = stamp_frames c inputs" "fs \<noteq> []"
    and "list_all (\<lambda>f. \<not> aft_reanchored (eaf_timing f)) (tl fs)"
  shows "fragment_track_from_encoded_audio_frames tid fs = Inr
    \<lparr>fgt_track_id = tid, fgt_base_decode_time = aft_start_sample (eaf_timing (hd fs)),
     fgt_samples = map audio_sample fs, fgt_payload = concat (map eaf_payload fs)\<rparr>"
proof -
  let ?ts = "stamp_frames c inputs"
  have t: "list_all (timing_exact (asc_scale c)) (map eaf_timing fs)" "successively frame_abuts (map eaf_timing fs)"
    using stamped_frames_abut [of c inputs] assms(1) by simp_all
  obtain f gs where fs: "fs = f # gs" using assms(2) by (cases fs) auto
  have scale: "tp_scale (aft_pts (eaf_timing f)) = asc_scale c" using t(1) by (simp add: fs timing_exact_def)
  have "successively frame_abuts (map eaf_timing (f # gs)) \<Longrightarrow>
      list_all (\<lambda>f. \<not> aft_reanchored (eaf_timing f)) gs \<Longrightarrow> frames_follow (aft_start_sample (eaf_timing f)) (f # gs)"
    for f gs
  proof (induction gs arbitrary: f)
    case (Cons g gs)
    have "frames_follow (aft_start_sample (eaf_timing g)) (g # gs)"
      using Cons.prems by (intro Cons.IH) simp_all
    moreover have "aft_start_sample (eaf_timing g) =
        sat_add 64 (aft_start_sample (eaf_timing f)) (aft_sample_count (eaf_timing f))"
      using Cons.prems by (simp add: frame_abuts_def)
    ultimately show ?case by simp
  qed simp
  then have "frames_follow (aft_start_sample (eaf_timing f)) fs" using t(2) assms(3) by (simp add: fs)
  then have "audio_frames_loop (asc_scale c) fs (aft_start_sample (eaf_timing f)) [] [] =
      Inr (map audio_sample fs, concat (map eaf_payload fs))"
    using audio_frames_loop_exact [OF t(1)] by simp
  then show ?thesis using scale unfolding fragment_track_from_encoded_audio_frames_def by (simp add: fs)
qed


definition demo_clock_inputs :: "(time_point option \<times> nat) list" where
  "demo_clock_inputs = [(Some (time_point_millis 1000), 1024), (Some (time_point_millis 1021), 1024), (None, 1024)]"

definition demo_frames :: "encoded_audio_frame list" where
  "demo_frames = map (\<lambda>t. \<lparr>eaf_timing = t, eaf_payload = [1, 2], eaf_discontinuity = False\<rparr>)
     (stamp_frames (clock_new clock_config_default) demo_clock_inputs)"

lemma demo_stamped:
  "map aft_start_sample (stamp_frames (clock_new clock_config_default) demo_clock_inputs) = [48000, 49024, 50048]"
  "map aft_reanchored (stamp_frames (clock_new clock_config_default) demo_clock_inputs) = [True, False, False]"
  by (simp_all add: demo_clock_inputs_def stamp_frame_def clock_new_def clock_config_default_def source_sample_def
      rescale_units_rounded_def MILLIS_def time_point_millis_def sample_delta_def sat_add_def Let_def)

theorem clocked_audio_fragment_witness:
  "\<exists>t. fragment_track_from_encoded_audio_frames 2 demo_frames = Inr t \<and> fgt_base_decode_time t = 48000 \<and>
    fgt_payload t = [1, 2, 1, 2, 1, 2]"
proof -
  have timings: "map eaf_timing demo_frames = stamp_frames (clock_new clock_config_default) demo_clock_inputs"
    by (simp add: demo_frames_def comp_def)
  then have starts: "map (\<lambda>f. aft_start_sample (eaf_timing f)) demo_frames = [48000, 49024, 50048]"
    "map (\<lambda>f. aft_reanchored (eaf_timing f)) demo_frames = [True, False, False]"
    using demo_stamped by (simp_all add: demo_frames_def comp_def)
  then obtain f g h where fs: "demo_frames = [f, g, h]" by auto
  have payloads: "concat (map eaf_payload demo_frames) = [1, 2, 1, 2, 1, 2]"
    using fs unfolding demo_frames_def by auto
  have "list_all (\<lambda>f. \<not> aft_reanchored (eaf_timing f)) (tl demo_frames)" using starts(2) unfolding fs by simp
  then have "fragment_track_from_encoded_audio_frames 2 demo_frames = Inr
      \<lparr>fgt_track_id = 2, fgt_base_decode_time = aft_start_sample (eaf_timing (hd demo_frames)),
       fgt_samples = map audio_sample demo_frames, fgt_payload = concat (map eaf_payload demo_frames)\<rparr>"
    by (intro clocked_audio_fragment [OF timings]) (simp_all add: fs)
  moreover have "aft_start_sample (eaf_timing (hd demo_frames)) = 48000" using starts(1) unfolding fs by simp
  ultimately show ?thesis unfolding payloads by simp
qed

end
