(* ===== verification/HlsFmp4.thy ===== *)
theory HlsFmp4
  imports HlsMux Fmp4Copy
begin

text \<open>
  fMP4 segments of native HLS (\<open>hls/mod.rs\<close>, lines 2378 to 2476 and 2539 to 2544): the init
  segment of a track pair and the media segment of a window, built on the fragment writer. A
  written segment is shown to play back to the packets of its window, to stay within the output
  limit, and to be produced whenever the window can be played.
\<close>

definition fmp4_failure :: "fmp4_error \<Rightarrow> hls_error" where
  "fmp4_failure e = HlsInternal (case e of
       OutputExceeded requested limit \<Rightarrow> Resource (Exceeded ''output fragment'' requested limit)
     | InvalidHeader what \<Rightarrow> OtherFailure what
     | _ \<Rightarrow> OtherFailure ''fMP4 fragment'')"

fun packets_in_window :: "packet_ref list \<Rightarrow> segment_window \<Rightarrow> packet_ref list" where
  "packets_in_window [] window = []"
| "packets_in_window (packet # packets) window =
     (let pts = packet_start_ms packet
      in if sw_start_ms window \<le> pts \<and> pts < sw_end_ms window then packet # packets_in_window packets window
         else packets_in_window packets window)"

definition raw_packet_payload :: "hls_input \<Rightarrow> packet_ref list \<Rightarrow> hls_error + bytes" where
  "raw_packet_payload input packets = hi_payload input packets"

definition default_sample_duration :: "packet_ref list \<Rightarrow> nat" where
  "default_sample_duration packets =
     (case packets of [] \<Rightarrow> 1 | packet # _ \<Rightarrow> max (min (td_units (pr_duration packet)) (2 ^ 32 - 1)) 1)"

definition window_fragment_track :: "nat \<Rightarrow> packet_ref list \<Rightarrow> nat \<Rightarrow> bytes \<Rightarrow> fragment_track" where
  "window_fragment_track tid packets timescale payload =
     \<lparr>fgt_track_id = tid, fgt_base_decode_time = decode_time_for_timescale (packets ! 0) timescale,
      fgt_samples = samples_from_packets_with_timescale packets timescale, fgt_payload = payload\<rparr>"

definition mux_fmp4_segment :: "hls_input \<Rightarrow> 'e hls_track_set \<Rightarrow> segment_window \<Rightarrow> hls_error + bytes" where
  "mux_fmp4_segment input tracks window =
     res_bind (check_mux_budget input tracks window False) (\<lambda>_.
       let video_packets = packets_in_window (ht_packets (hts_video tracks)) window;
           audio_packets = packets_in_window (ht_packets (hts_audio tracks)) window
       in if video_packets = [] then Inl (HlsInternal (OtherFailure ''fMP4 segment contains no video samples''))
          else if audio_packets = [] then Inl (HlsInternal (OtherFailure ''fMP4 segment contains no audio samples''))
          else
            res_bind (raw_packet_payload input video_packets) (\<lambda>video_payload.
            res_bind (raw_packet_payload input audio_packets) (\<lambda>audio_payload.
              map_err fmp4_failure (media_fragment (as_u 32 (sw_index window) + 1)
                [window_fragment_track 1 video_packets (ht_timescale (hts_video tracks)) video_payload,
                 window_fragment_track 2 audio_packets (ht_timescale (hts_audio tracks)) audio_payload]))))"

definition fmp4_track_of :: "nat \<Rightarrow> fmp4_track_kind \<Rightarrow> nat \<Rightarrow> 'e hls_track \<Rightarrow> fmp4_sample_entry \<Rightarrow> fmp4_track" where
  "fmp4_track_of tid kind flags track entry =
     \<lparr>ft_id = tid, ft_kind = kind, ft_timescale = ht_timescale track,
      ft_default_sample_duration = default_sample_duration (ht_packets track), ft_default_sample_size = 0,
      ft_default_sample_flags = flags, ft_sample_entry = entry\<rparr>"

definition fmp4_init_segment_for_tracks :: "fmp4_sample_entry hls_track_set \<Rightarrow> hls_error + bytes" where
  "fmp4_init_segment_for_tracks tracks =
     res_bind (ok_or (HlsInternal (OtherFailure ''fMP4 HLS requires video sample-entry metadata''))
       (ht_fmp4_sample_entry (hts_video tracks))) (\<lambda>video_entry.
     res_bind (ok_or (HlsInternal (OtherFailure ''fMP4 HLS requires audio sample-entry metadata''))
       (ht_fmp4_sample_entry (hts_audio tracks))) (\<lambda>audio_entry.
     map_err fmp4_failure (init_segment
       [fmp4_track_of 1 Fmp4Video 0x01010000 (hts_video tracks) video_entry,
        fmp4_track_of 2 Fmp4Audio 0x02000000 (hts_audio tracks) audio_entry])))"

lemma packets_in_window_filter: "packets_in_window ps w = filter (in_window w) ps"
  by (induction ps w rule: packets_in_window.induct) (simp_all add: in_window_def Let_def)

lemma map_err_Inr [simp]: "map_err f r = Inr x \<longleftrightarrow> r = Inr x"
  by (cases r) (simp_all add: map_err_def)

text \<open>The input reads as many bytes as the packet index says.\<close>

definition exact_reads :: "hls_input \<Rightarrow> bool" where
  "exact_reads input \<longleftrightarrow> (\<forall>ps b. hi_payload input ps = Inr b \<longrightarrow> length b = sum_list (map pr_size ps))"

definition typed_packets :: "packet_ref list \<Rightarrow> bool" where
  "typed_packets ps \<longleftrightarrow> list_all (\<lambda>p. pr_size p < 2 ^ 32) ps"

lemma rescale_point_bound: "rescale_point t timescale < 2 ^ 64"
  by (simp add: rescale_point_def rescale_time_def min_less_iff_disj)

lemma window_track_typed:
  assumes "typed_packets ps" "tid < 2 ^ 32"
  shows "typed_track (window_fragment_track tid ps timescale payload)"
proof -
  have "list_all typed_sample (samples_from_packets_with_timescale ps timescale)"
    unfolding samples_from_packets_with_timescale_def
    using assms(1) packet_sample_typed by (intro shift_offsets_typed) (auto simp: list_all_iff typed_packets_def)
  then show ?thesis using assms(2) rescale_point_bound
    by (simp add: typed_track_def window_fragment_track_def decode_time_for_timescale_def)
qed

lemma mux_fmp4_segment_cases:
  assumes "mux_fmp4_segment input tracks window = Inr out"
  obtains v a where "hi_payload input (filter (in_window window) (ht_packets (hts_video tracks))) = Inr v"
    "hi_payload input (filter (in_window window) (ht_packets (hts_audio tracks))) = Inr a"
    "filter (in_window window) (ht_packets (hts_video tracks)) \<noteq> []"
    "filter (in_window window) (ht_packets (hts_audio tracks)) \<noteq> []"
    "check_mux_budget input tracks window False = Inr ()"
    "media_fragment (as_u 32 (sw_index window) + 1)
      [window_fragment_track 1 (filter (in_window window) (ht_packets (hts_video tracks))) (ht_timescale (hts_video tracks)) v,
       window_fragment_track 2 (filter (in_window window) (ht_packets (hts_audio tracks))) (ht_timescale (hts_audio tracks)) a]
      = Inr out"
  using assms unfolding mux_fmp4_segment_def packets_in_window_filter raw_packet_payload_def Let_def
  by (auto simp: result_simps split: if_splits)

section \<open>What a player shows\<close>

text \<open>Times on the clock of a track, rounded down and saturating, and how long before its decode time a packet of
  the list is presented at most.\<close>

definition ticks :: "nat \<Rightarrow> time_scale \<Rightarrow> nat \<Rightarrow> nat" where
  "ticks timescale scale units = min (units * timescale div max (units_per_second scale) 1) (2 ^ 64 - 1)"

definition dts_ticks :: "nat \<Rightarrow> packet_ref \<Rightarrow> nat" where
  "dts_ticks timescale p = ticks timescale (tp_scale (pr_dts p)) (tp_units (pr_dts p))"

definition pts_ticks :: "nat \<Rightarrow> packet_ref \<Rightarrow> nat" where
  "pts_ticks timescale p = ticks timescale (tp_scale (pr_pts p)) (tp_units (pr_pts p))"

definition duration_ticks :: "nat \<Rightarrow> packet_ref \<Rightarrow> nat" where
  "duration_ticks timescale p = ticks timescale (td_scale (pr_duration p)) (td_units (pr_duration p))"

definition composition :: "nat \<Rightarrow> packet_ref \<Rightarrow> int" where
  "composition timescale p = int (pts_ticks timescale p) - int (dts_ticks timescale p)"

fun lead :: "int list \<Rightarrow> int" where
  "lead [] = 0"
| "lead (c # cs) = max (- c) (lead cs)"

text \<open>Packets that a track can time exactly: each is decoded when the one before is over, lasts between one and
  \<open>2 ^ 32 - 1\<close> ticks and is presented within \<open>2 ^ 30\<close> ticks of its decode time.\<close>

fun back_to_back :: "nat \<Rightarrow> packet_ref list \<Rightarrow> bool" where
  "back_to_back timescale (p # q # ps) =
     (dts_ticks timescale q = dts_ticks timescale p + duration_ticks timescale p \<and> back_to_back timescale (q # ps))"
| "back_to_back timescale ps = True"

definition exactly_timed :: "nat \<Rightarrow> packet_ref list \<Rightarrow> bool" where
  "exactly_timed timescale ps \<longleftrightarrow> back_to_back timescale ps \<and>
     list_all (\<lambda>p. 0 < duration_ticks timescale p \<and> duration_ticks timescale p < 2 ^ 32 \<and>
       \<bar>composition timescale p\<bar> < 2 ^ 30) ps"

text \<open>The decode and presentation times a player computes from the samples of a track.\<close>

fun timeline :: "nat \<Rightarrow> fmp4_sample list \<Rightarrow> (nat \<times> int) list" where
  "timeline t [] = []"
| "timeline t (s # ss) = (t, int t + fs_composition_time_offset s) # timeline (t + fs_duration s) ss"

text \<open>A track shows packets: one sample per packet with its size and keyframe flag, the durations and composition
  offsets in ticks within the ranges of their fields, the offsets drawn up by one common delay that leaves none
  negative, and the decode time of the first. Where the packets can be timed exactly, the player decodes each at its
  own decode time and presents each at its own presentation time plus the delay.\<close>

definition shows_packets :: "nat \<Rightarrow> nat \<Rightarrow> packet_ref list \<Rightarrow> bytes \<Rightarrow> fragment_track \<Rightarrow> bool" where
  "shows_packets tid timescale ps payload t \<longleftrightarrow>
     (let cs = map (\<lambda>p. max (- (2 ^ 31)) (min (composition timescale p) (2 ^ 31 - 1))) ps
      in fgt_track_id t = tid \<and> fgt_payload t = payload \<and> fgt_base_decode_time t = dts_ticks timescale (hd ps) \<and>
         map fs_size (fgt_samples t) = map pr_size ps \<and>
         map fs_flags (fgt_samples t) = map (\<lambda>p. if pr_keyframe p then 0x02000000 else 0x01010000) ps \<and>
         map fs_duration (fgt_samples t) = map (\<lambda>p. min (max (duration_ticks timescale p) 1) (2 ^ 32 - 1)) ps \<and>
         map fs_composition_time_offset (fgt_samples t) = map (\<lambda>c. min (c + lead cs) (2 ^ 31 - 1)) cs \<and>
         (exactly_timed timescale ps \<longrightarrow>
            timeline (fgt_base_decode_time t) (fgt_samples t) =
              map (\<lambda>p. (dts_ticks timescale p, int (pts_ticks timescale p) + lead (map (composition timescale) ps))) ps))"

lemma lead_nonneg: "0 \<le> lead cs \<and> (\<forall>c \<in> set cs. 0 \<le> c + lead cs)"
  by (induction cs) auto

lemma lead_le: "0 \<le> k \<Longrightarrow> \<forall>c \<in> set cs. - c \<le> k \<Longrightarrow> lead cs \<le> k"
  by (induction cs) auto

lemma lead_foldl_min: "lead (c # cs) = max 0 (- foldl min c cs)"
proof (induction cs arbitrary: c)
  case (Cons d cs)
  have "lead (c # d # cs) = lead (min c d # cs)" by (auto simp: min_def max_def)
  then show ?case using Cons [of "min c d"] by simp
qed simp

lemma rescale_ticks: "rescale_time units (units_per_second scale) timescale = ticks timescale scale units"
  by (simp add: rescale_time_def ticks_def)

lemma packet_sample_fields:
  "fs_size (packet_sample timescale p) = pr_size p"
  "fs_flags (packet_sample timescale p) = (if pr_keyframe p then 0x02000000 else 0x01010000)"
  "fs_duration (packet_sample timescale p) = min (max (duration_ticks timescale p) 1) (2 ^ 32 - 1)"
  "fs_composition_time_offset (packet_sample timescale p) =
    max (- (2 ^ 31)) (min (composition timescale p) (2 ^ 31 - 1))"
  by (simp_all add: packet_sample_def sample_flags_def clamp_duration_def duration_ticks_def rescale_ticks
      rescale_point_def clamp_i32_def composition_def pts_ticks_def dts_ticks_def)

lemma shift_offsets_lead:
  assumes "\<forall>s \<in> set ss. - (2 ^ 31) \<le> fs_composition_time_offset s \<and> fs_composition_time_offset s < 2 ^ 31"
  shows "map fs_composition_time_offset (shift_offsets ss) =
    map (\<lambda>c. min (c + lead (map fs_composition_time_offset ss)) (2 ^ 31 - 1)) (map fs_composition_time_offset ss)"
proof (cases ss)
  case Nil
  then show ?thesis by (simp add: shift_offsets_def)
next
  case (Cons s ss')
  let ?cs = "map fs_composition_time_offset ss"
  define m where "m = foldl min (fs_composition_time_offset s) (map fs_composition_time_offset ss')"
  have lead: "lead ?cs = max 0 (- m)" unfolding m_def Cons list.map by (rule lead_foldl_min)
  have sh: "shift_offsets ss = (if m < 0 then map (shift_by m) ss else ss)"
    by (simp add: shift_offsets_def Cons m_def [symmetric] Let_def shift_by_def [abs_def])
  have nn: "\<forall>s \<in> set ss. 0 \<le> fs_composition_time_offset s + lead ?cs" using lead_nonneg [of ?cs] by simp
  show ?thesis
  proof (cases "m < 0")
    case True
    then have "lead ?cs = - m" using lead by simp
    then show ?thesis using True nn by (auto simp: sh shift_by_def clamp_i32_def max_def)
  next
    case False
    then have "lead ?cs = 0" using lead by simp
    then show ?thesis using False assms by (auto simp: sh min_def)
  qed
qed

lemma timeline_back_to_back:
  assumes "back_to_back timescale ps" "map fs_duration ss = map (duration_ticks timescale) ps"
    and "map fs_composition_time_offset ss = map (\<lambda>p. composition timescale p + k) ps"
    and "ps \<noteq> [] \<Longrightarrow> t = dts_ticks timescale (hd ps)"
  shows "timeline t ss = map (\<lambda>p. (dts_ticks timescale p, int (pts_ticks timescale p) + k)) ps"
  using assms
proof (induction timescale ps arbitrary: t ss rule: back_to_back.induct)
  case (1 timescale p q ps)
  obtain s ss' where ss: "ss = s # ss'" "map fs_duration ss' = map (duration_ticks timescale) (q # ps)"
    "map fs_composition_time_offset ss' = map (\<lambda>p. composition timescale p + k) (q # ps)"
    "fs_duration s = duration_ticks timescale p" "fs_composition_time_offset s = composition timescale p + k"
    using "1.prems"(2,3) by (cases ss) auto
  have "timeline (t + fs_duration s) ss' = map (\<lambda>p. (dts_ticks timescale p, int (pts_ticks timescale p) + k)) (q # ps)"
    using "1.prems"(1,4) ss by (intro "1.IH") simp_all
  then show ?case using ss "1.prems"(4) by (simp add: composition_def)
qed (auto simp: composition_def)

lemma window_track_shows:
  assumes "ps \<noteq> []"
  shows "shows_packets tid timescale ps payload (window_fragment_track tid ps timescale payload)"
proof -
  let ?ss = "samples_from_packets_with_timescale ps timescale" and ?raw = "map (packet_sample timescale) ps"
  let ?clamp = "\<lambda>p. max (- (2 ^ 31)) (min (composition timescale p) (2 ^ 31 - 1))"
  have ss: "?ss = shift_offsets ?raw" by (simp add: samples_from_packets_with_timescale_def)
  note f = shift_offsets_fields [of ?raw, folded ss]
  have d: "map fs_duration ?ss = map (\<lambda>p. min (max (duration_ticks timescale p) 1) (2 ^ 32 - 1)) ps"
    unfolding f by (simp add: packet_sample_fields comp_def)
  have cs: "map fs_composition_time_offset ?raw = map ?clamp ps" by (simp add: packet_sample_fields comp_def)
  have c: "map fs_composition_time_offset ?ss = map (\<lambda>c. min (c + lead (map ?clamp ps)) (2 ^ 31 - 1)) (map ?clamp ps)"
    unfolding ss cs [symmetric] by (rule shift_offsets_lead) (auto simp: packet_sample_fields)
  have base: "decode_time_for_timescale (ps ! 0) timescale = dts_ticks timescale (hd ps)"
    using assms by (simp add: decode_time_for_timescale_def rescale_point_def rescale_ticks dts_ticks_def hd_conv_nth)
  have "timeline (dts_ticks timescale (hd ps)) ?ss =
      map (\<lambda>p. (dts_ticks timescale p, int (pts_ticks timescale p) + lead (map (composition timescale) ps))) ps"
    if e: "exactly_timed timescale ps"
  proof -
    have each: "0 < duration_ticks timescale p" "duration_ticks timescale p < 2 ^ 32" "\<bar>composition timescale p\<bar> < 2 ^ 30"
      if "p \<in> set ps" for p
      using e that by (auto simp: exactly_timed_def list_all_iff)
    have cl: "map ?clamp ps = map (composition timescale) ps" using each(3) by fastforce
    have le: "lead (map (composition timescale) ps) \<le> 2 ^ 30" using each(3) by (intro lead_le) fastforce+
    show ?thesis
    proof (rule timeline_back_to_back)
      show "back_to_back timescale ps" using e by (simp add: exactly_timed_def)
      show "map fs_duration ?ss = map (duration_ticks timescale) ps" unfolding d using each(1,2) by fastforce
      have "min (composition timescale p + lead (map (composition timescale) ps)) (2 ^ 31 - 1) =
          composition timescale p + lead (map (composition timescale) ps)" if "p \<in> set ps" for p
        using each(3) [OF that] le by simp
      then show "map fs_composition_time_offset ?ss =
          map (\<lambda>p. composition timescale p + lead (map (composition timescale) ps)) ps"
        unfolding c cl by simp
    qed simp
  qed
  then show ?thesis
    unfolding shows_packets_def Let_def window_fragment_track_def fragment_track.simps base f(2,3) d c
    by (simp add: packet_sample_fields comp_def)
qed

text \<open>C14: An fMP4 segment of native HLS plays back to its window: a player that follows the boxes finds one video and
  one audio track, which show the packets of the window in their container order and carry the bytes read for them.
  The player starts each track at the decode time of its first packet; each sample has its packet's size, keyframe
  flag, duration and composition offset on the track's clock, the offsets with one common delay that is as small as
  none of them becomes negative. Where the packets follow each other without gaps, every packet is decoded at its own
  decode time and presented at its own presentation time plus that delay.\<close>

theorem hls_fmp4_segment_plays_back:
  assumes "mux_fmp4_segment input tracks window = Inr out"
    and "typed_packets (ht_packets (hts_video tracks))" "typed_packets (ht_packets (hts_audio tracks))"
  shows "\<exists>v a tv ta. hi_payload input (filter (in_window window) (ht_packets (hts_video tracks))) = Inr v \<and>
    hi_payload input (filter (in_window window) (ht_packets (hts_audio tracks))) = Inr a \<and>
    read_fragment out = Some [Some tv, Some ta] \<and>
    shows_packets 1 (ht_timescale (hts_video tracks)) (filter (in_window window) (ht_packets (hts_video tracks))) v tv \<and>
    shows_packets 2 (ht_timescale (hts_audio tracks)) (filter (in_window window) (ht_packets (hts_audio tracks))) a ta"
proof -
  have filtered: "typed_packets (filter P ps)" if "typed_packets ps" for P ps
    using that by (auto simp: typed_packets_def list_all_iff)
  obtain v a where m: "hi_payload input (filter (in_window window) (ht_packets (hts_video tracks))) = Inr v"
    "hi_payload input (filter (in_window window) (ht_packets (hts_audio tracks))) = Inr a"
    "filter (in_window window) (ht_packets (hts_video tracks)) \<noteq> []"
    "filter (in_window window) (ht_packets (hts_audio tracks)) \<noteq> []"
    "media_fragment (as_u 32 (sw_index window) + 1)
      [window_fragment_track 1 (filter (in_window window) (ht_packets (hts_video tracks))) (ht_timescale (hts_video tracks)) v,
       window_fragment_track 2 (filter (in_window window) (ht_packets (hts_audio tracks))) (ht_timescale (hts_audio tracks)) a]
      = Inr out"
    by (rule mux_fmp4_segment_cases [OF assms(1)])
  have "list_all typed_track
      [window_fragment_track 1 (filter (in_window window) (ht_packets (hts_video tracks))) (ht_timescale (hts_video tracks)) v,
       window_fragment_track 2 (filter (in_window window) (ht_packets (hts_audio tracks))) (ht_timescale (hts_audio tracks)) a]"
    using window_track_typed filtered [OF assms(2)] filtered [OF assms(3)] by simp
  from read_fragment_written [OF this m(5)] m(1,2) window_track_shows [OF m(3)] window_track_shows [OF m(4)]
  show ?thesis by simp
qed

section \<open>Limits and progress\<close>

lemma packet_cost_raw: "packet_cost False g p = sat_add 64 (pr_size p) 16"
  by (simp add: packet_cost_def)

lemma sum_cost_raw:
  assumes "sum_list (map (packet_cost False g) ps) < 2 ^ 64 - 1"
  shows "sum_list (map (packet_cost False g) ps) = sum_list (map pr_size ps) + 16 * length ps"
  using assms
proof (induction ps)
  case (Cons p ps)
  have "packet_cost False g p < 2 ^ 64 - 1" using Cons.prems by simp
  then have "packet_cost False g p = pr_size p + 16" unfolding packet_cost_raw by (rule sat_add_small)
  with Cons show ?case by simp
qed simp

abbreviation window_packets :: "'e hls_track \<Rightarrow> segment_window \<Rightarrow> packet_ref list" where
  "window_packets track window \<equiv> filter (in_window window) (ht_packets track)"

lemma fmp4_budget:
  assumes "check_mux_budget input tracks window False = Inr ()" "hi_output_limit input < 2 ^ 64 - 1"
  shows "1024 + sum_list (map pr_size (window_packets (hts_video tracks) window))
      + 16 * length (window_packets (hts_video tracks) window)
      + sum_list (map pr_size (window_packets (hts_audio tracks) window))
      + 16 * length (window_packets (hts_audio tracks) window) \<le> hi_output_limit input"
proof -
  obtain o1 c1 o2 c2 where o: "track_budget False window (hts_video tracks) (1024, 0) = (o1, c1)"
    "track_budget False window (hts_audio tracks) (o1, c1) = (o2, c2)" by (metis surj_pair)
  have o2: "o2 \<le> hi_output_limit input"
    using assms(1) o by (auto simp: check_mux_budget_def split: if_splits)
  let ?cost = "\<lambda>t. sum_list (map (packet_cost False (track_growth (ht_payload t))) (window_packets t window))"
  have e2: "o2 = o1 + ?cost (hts_audio tracks)"
    using budget_loop_sum [OF o(2) [unfolded track_budget_def]] o2 assms(2) by simp
  then have e1: "o1 = 1024 + ?cost (hts_video tracks)"
    using budget_loop_sum [OF o(1) [unfolded track_budget_def]] o2 assms(2) by simp
  have small: "?cost (hts_video tracks) < 2 ^ 64 - 1" "?cost (hts_audio tracks) < 2 ^ 64 - 1"
    using e1 e2 o2 assms(2) by linarith+
  show ?thesis using sum_cost_raw [OF small(1)] sum_cost_raw [OF small(2)] e1 e2 o2 by linarith
qed

lemma window_track_fields:
  "fgt_samples (window_fragment_track tid ps timescale b) = samples_from_packets_with_timescale ps timescale"
  "fgt_payload (window_fragment_track tid ps timescale b) = b"
  "length (samples_from_packets_with_timescale ps timescale) = length ps"
  by (simp_all add: window_fragment_track_def samples_from_packets_with_timescale_def shift_offsets_fields(4))

lemma two_track_header:
  "header_len [window_fragment_track i vs t1 v, window_fragment_track j as t2 a] =
    160 + 16 * length vs + 16 * length as"
  by (simp add: header_len_def window_track_fields)

text \<open>The budget computed before muxing bounds an fMP4 segment too: when the input reads as many
  bytes as the packet index says, a written segment is never longer than the output limit.\<close>

theorem hls_fmp4_segment_within_limit:
  assumes "mux_fmp4_segment input tracks window = Inr out" "exact_reads input" "hi_output_limit input < 2 ^ 64 - 1"
    and "typed_packets (ht_packets (hts_video tracks))" "typed_packets (ht_packets (hts_audio tracks))"
  shows "length out \<le> hi_output_limit input"
proof -
  have filtered: "typed_packets (filter P ps)" if "typed_packets ps" for P ps
    using that by (auto simp: typed_packets_def list_all_iff)
  obtain v a where m: "hi_payload input (window_packets (hts_video tracks) window) = Inr v"
    "hi_payload input (window_packets (hts_audio tracks) window) = Inr a"
    "check_mux_budget input tracks window False = Inr ()"
    "media_fragment (as_u 32 (sw_index window) + 1)
      [window_fragment_track 1 (window_packets (hts_video tracks) window) (ht_timescale (hts_video tracks)) v,
       window_fragment_track 2 (window_packets (hts_audio tracks) window) (ht_timescale (hts_audio tracks)) a]
      = Inr out"
    by (rule mux_fmp4_segment_cases [OF assms(1)])
  have typed: "list_all typed_track
      [window_fragment_track 1 (window_packets (hts_video tracks) window) (ht_timescale (hts_video tracks)) v,
       window_fragment_track 2 (window_packets (hts_audio tracks) window) (ht_timescale (hts_audio tracks)) a]"
    using window_track_typed filtered [OF assms(4)] filtered [OF assms(5)] by simp
  have len: "length v = sum_list (map pr_size (window_packets (hts_video tracks) window))"
    "length a = sum_list (map pr_size (window_packets (hts_audio tracks) window))"
    using m(1,2) assms(2) unfolding exact_reads_def by blast+
  show ?thesis
    using m(4) fmp4_budget [OF m(3) assms(3)] len
    unfolding media_fragment_exact [OF typed] by (auto simp: length_header_bytes two_track_header window_track_fields)
qed

text \<open>C15: Whenever both tracks of a window can be played (each has packets, starts on a keyframe
  and has no empty packet), the budget admits it under a limit below 2 GiB and the input can be
  read, the segment is produced.\<close>

theorem hls_fmp4_segment_is_produced:
  assumes "check_mux_budget input tracks window False = Inr ()" "hi_output_limit input < 2 ^ 31"
    and "writable_packets (window_packets (hts_video tracks) window) (ht_timescale (hts_video tracks))"
    and "writable_packets (window_packets (hts_audio tracks) window) (ht_timescale (hts_audio tracks))"
    and "hi_payload input (window_packets (hts_video tracks) window) = Inr v"
    and "hi_payload input (window_packets (hts_audio tracks) window) = Inr a"
    and "exact_reads input"
  shows "\<exists>out. mux_fmp4_segment input tracks window = Inr out"
proof -
  let ?vs = "window_packets (hts_video tracks) window" and ?as = "window_packets (hts_audio tracks) window"
  let ?v = "window_fragment_track 1 ?vs (ht_timescale (hts_video tracks)) v"
    and ?a = "window_fragment_track 2 ?as (ht_timescale (hts_audio tracks)) a"
  have ne: "?vs \<noteq> []" "?as \<noteq> []" using assms(3,4) by (simp_all add: writable_packets_def)
  have len: "length v = sum_list (map pr_size ?vs)" "length a = sum_list (map pr_size ?as)"
    using assms(5-7) unfolding exact_reads_def by blast+
  have v: "track_ok ?v" "typed_track ?v"
    using packets_track_ok [OF assms(3) len(1), of 1] ne(1) by (simp_all add: window_fragment_track_def hd_conv_nth)
  have a: "track_ok ?a" "typed_track ?a"
    using packets_track_ok [OF assms(4) len(2), of 2] ne(2) by (simp_all add: window_fragment_track_def hd_conv_nth)
  have "hi_output_limit input < 2 ^ 64 - 1" using assms(2) by simp
  note b = fmp4_budget [OF assms(1) this]
  have ok: "fragment_ok [?v, ?a]"
    using v(1) a(1) b assms(2) len by (simp add: fragment_ok_def two_track_header window_track_fields)
  have typed: "list_all typed_track [?v, ?a]" using v(2) a(2) by simp
  have "\<exists>out. media_fragment (as_u 32 (sw_index window) + 1) [?v, ?a] = Inr out"
    unfolding media_fragment_exact [OF typed] using ok by blast
  then show ?thesis
    using ne assms(1,5,6) unfolding mux_fmp4_segment_def packets_in_window_filter raw_packet_payload_def
    by (auto simp: Let_def map_err_def)
qed

section \<open>A concrete window\<close>

definition demo_av_tracks :: "unit hls_track_set" where
  "demo_av_tracks =
     \<lparr>hts_video = \<lparr>ht_id = ''v0'', ht_codec_string = ''avc1'', ht_timescale = 90000, ht_packets = demo_packets,
        ht_payload = RawAudio, ht_fmp4_sample_entry = None\<rparr>,
      hts_audio = \<lparr>ht_id = ''a0'', ht_codec_string = ''ac-3'', ht_timescale = 48000, ht_packets = demo_packets,
        ht_payload = Ac3, ht_fmp4_sample_entry = None\<rparr>\<rparr>"

lemma demo_exact_reads: "exact_reads demo_input"
  by (auto simp: exact_reads_def demo_input_def length_concat comp_def)

lemma demo_window_packets:
  "filter (in_window demo_window) demo_packets = [demo_packet 0 True, demo_packet 40 False]"
  by (simp add: demo_packets_def demo_packet_def demo_window_def in_window_def packet_start_ms_def
      tp_as_millis_def time_point_millis_def)

lemma demo_writable: "timescale < 2 ^ 32 \<Longrightarrow>
    writable_packets (filter (in_window demo_window) demo_packets) timescale"
  unfolding demo_window_packets
  by (simp add: writable_packets_def demo_packet_def decode_time_for_timescale_def rescale_point_def
      time_point_millis_def rescale_time_def)

lemma demo_typed_packets: "typed_packets demo_packets"
  by (simp add: typed_packets_def demo_packets_def demo_packet_def)

lemma demo_av: "ht_packets (hts_video demo_av_tracks) = demo_packets" "ht_packets (hts_audio demo_av_tracks) = demo_packets"
  "ht_timescale (hts_video demo_av_tracks) = 90000" "ht_timescale (hts_audio demo_av_tracks) = 48000"
  by (simp_all add: demo_av_tracks_def)

lemma demo_av_budget: "check_mux_budget demo_input demo_av_tracks demo_window False = Inr ()"
  by (simp add: check_mux_budget_def track_budget_def demo_av_tracks_def demo_packets_def demo_packet_def
      demo_window_def demo_input_def packet_start_ms_def tp_as_millis_def time_point_millis_def packet_cost_def
      sat_add_def Let_def)

lemma demo_av_reads: "\<exists>b. hi_payload demo_input ps = Inr b"
  by (simp add: demo_input_def)

lemma demo_limit: "hi_output_limit demo_input = 5000"
  by (simp add: demo_input_def)

theorem hls_fmp4_segment_is_produced_witness:
  "\<exists>out. mux_fmp4_segment demo_input demo_av_tracks demo_window = Inr out"
proof -
  obtain v where v: "hi_payload demo_input (window_packets (hts_video demo_av_tracks) demo_window) = Inr v"
    using demo_av_reads by blast
  obtain a where a: "hi_payload demo_input (window_packets (hts_audio demo_av_tracks) demo_window) = Inr a"
    using demo_av_reads by blast
  show ?thesis
    by (rule hls_fmp4_segment_is_produced [OF demo_av_budget _ _ _ v a demo_exact_reads])
      (use demo_writable in \<open>simp_all add: demo_av demo_limit\<close>)
qed

lemma demo_av_muxed: "\<exists>out. mux_fmp4_segment demo_input demo_av_tracks demo_window = Inr out"
proof -
  have r: "hi_payload demo_input ps = Inr (concat (map (\<lambda>p. replicate (pr_size p) 7) ps))" for ps
    by (simp add: demo_input_def)
  let ?ps = "filter (in_window demo_window) demo_packets"
  let ?b = "concat (map (\<lambda>p. replicate (pr_size p) 7) ?ps)"
  have len: "length ?b = sum_list (map pr_size ?ps)" by (simp add: length_concat comp_def)
  have "track_ok (window_fragment_track i ?ps t ?b)" "typed_track (window_fragment_track i ?ps t ?b)"
    if "t < 2 ^ 32" "i < 2 ^ 32" for t i
    using packets_track_ok [OF demo_writable [OF that(1)] len that(2)] demo_window_packets
    by (simp_all add: window_fragment_track_def)
  note t = this
  have typed: "list_all typed_track [window_fragment_track 1 ?ps 90000 ?b, window_fragment_track 2 ?ps 48000 ?b]"
    using t(2) by simp
  have "fragment_ok [window_fragment_track 1 ?ps 90000 ?b, window_fragment_track 2 ?ps 48000 ?b]"
    using t(1) len by (simp add: fragment_ok_def two_track_header window_track_fields)
      (simp add: demo_window_packets demo_packet_def)
  then have "\<exists>out. media_fragment (as_u 32 (sw_index demo_window) + 1)
      [window_fragment_track 1 ?ps 90000 ?b, window_fragment_track 2 ?ps 48000 ?b] = Inr out"
    unfolding media_fragment_exact [OF typed] by blast
  then show ?thesis
    unfolding mux_fmp4_segment_def packets_in_window_filter raw_packet_payload_def demo_av demo_av_budget r
    using demo_window_packets by (auto simp: Let_def map_err_def)
qed

lemma demo_exactly_timed: "exactly_timed 90000 [demo_packet 0 True, demo_packet 40 False]"
  by (simp add: exactly_timed_def demo_packet_def dts_ticks_def pts_ticks_def duration_ticks_def composition_def
      ticks_def time_point_millis_def time_delta_millis_def MILLIS_def)

theorem hls_fmp4_segment_plays_back_witness:
  "\<exists>out v tv ta. mux_fmp4_segment demo_input demo_av_tracks demo_window = Inr out \<and>
    read_fragment out = Some [Some tv, Some ta] \<and>
    shows_packets 1 90000 [demo_packet 0 True, demo_packet 40 False] v tv \<and>
    exactly_timed 90000 [demo_packet 0 True, demo_packet 40 False]"
proof -
  obtain out where out: "mux_fmp4_segment demo_input demo_av_tracks demo_window = Inr out"
    using demo_av_muxed by blast
  have "typed_packets (ht_packets (hts_video demo_av_tracks))" "typed_packets (ht_packets (hts_audio demo_av_tracks))"
    unfolding demo_av by (rule demo_typed_packets)+
  from hls_fmp4_segment_plays_back [OF out this] show ?thesis
    using out demo_exactly_timed unfolding demo_av demo_window_packets by blast
qed

theorem hls_fmp4_segment_within_limit_witness:
  "\<exists>out. mux_fmp4_segment demo_input demo_av_tracks demo_window = Inr out \<and> length out \<le> 5000"
proof -
  obtain out where out: "mux_fmp4_segment demo_input demo_av_tracks demo_window = Inr out"
    using demo_av_muxed by blast
  have "length out \<le> hi_output_limit demo_input"
    by (rule hls_fmp4_segment_within_limit [OF out demo_exact_reads])
      (use demo_typed_packets in \<open>simp_all add: demo_av demo_limit\<close>)
  with out demo_limit show ?thesis by auto
qed

end
