(* ===== verification/Fmp4Init.thy ===== *)
theory Fmp4Init
  imports Mp4Meta
begin

text \<open>
  The init segment that \<open>fmp4/mod.rs\<close> writes, read back with the MP4 metadata readers of
  \<open>container/mp4.rs\<close>. The writers are first turned into a tree of boxes; the readers are then run
  on that tree box by box.
\<close>

section \<open>Sequences of boxes\<close>

definition boxes :: "(bytes \<times> bytes) list \<Rightarrow> bytes" where
  "boxes kps = concat (map (\<lambda>(k, p). sized_box k p) kps)"

definition named :: "(bytes \<times> bytes) list \<Rightarrow> bool" where
  "named kps \<longleftrightarrow> list_all (\<lambda>(k, p). length k = 4) kps"

lemma boxes_simps [simp]: "boxes [] = []" "boxes ((k, p) # kps) = sized_box k p @ boxes kps"
  by (simp_all add: boxes_def)

lemma boxes_append [simp]: "boxes (xs @ ys) = boxes xs @ boxes ys"
  by (simp add: boxes_def)

lemma named_simps [simp]: "named []" "named ((k, p) # kps) \<longleftrightarrow> length k = 4 \<and> named kps"
  "named (xs @ ys) \<longleftrightarrow> named xs \<and> named ys"
  by (simp_all add: named_def)

lemma sized_box_length [simp]: "length k = 4 \<Longrightarrow> length (sized_box k p) = 8 + length p"
  by (simp add: sized_box_def)

lemma member_length: "named kps \<Longrightarrow> (k, p) \<in> set kps \<Longrightarrow> 8 + length p \<le> length (boxes kps)"
  by (induction kps) auto

lemma boxes_enc:
  "named kps \<Longrightarrow> length (boxes kps) < 2 ^ 32 \<Longrightarrow>
    boxes kps = concat (map enc_atom (map (\<lambda>(k, p). \<lparr>at_kind = k, at_payload = p\<rparr>) kps))"
  by (induction kps) (auto simp: enc_atom_def sized_box32)

lemma atoms_boxes:
  assumes "named kps" "length (boxes kps) < 2 ^ 32"
  shows "atoms (boxes kps) = map (\<lambda>(k, p). \<lparr>at_kind = k, at_payload = p\<rparr>) kps"
  unfolding boxes_enc [OF assms] atoms_def
proof (rule atom_codec.collect_enc)
  show "\<forall>a \<in> set (map (\<lambda>(k, p). \<lparr>at_kind = k, at_payload = p\<rparr>) kps). wf_atom a"
    using assms(1) by (auto simp: named_def wf_atom_def list_all_iff)
  show "length (concat (map enc_atom (map (\<lambda>(k, p). \<lparr>at_kind = k, at_payload = p\<rparr>) kps))) < 2 ^ 64"
    using assms(2) unfolding boxes_enc [OF assms, symmetric] by simp
qed

lemma find_atom_boxes:
  assumes "named kps" "length (boxes kps) < 2 ^ 32"
  shows "find_atom (boxes kps) k = map_of kps k"
proof -
  have "map_option at_payload (find (\<lambda>a. at_kind a = k) (map (\<lambda>(k, p). \<lparr>at_kind = k, at_payload = p\<rparr>) kps)) = map_of kps k"
    by (induction kps) auto
  then show ?thesis by (simp add: find_atom_def atoms_boxes [OF assms])
qed

lemma emits_boxes:
  assumes "list_all2 (\<lambda>w b. emits w (sized_box (fst b) (snd b))) ws bs"
  shows "emits (seq ws) (boxes bs)"
proof -
  have "list_all2 emits ws (map (\<lambda>b. sized_box (fst b) (snd b)) bs)"
    using assms by (simp add: list_all2_map2)
  from emits_seq [OF this] show ?thesis by (simp add: boxes_def case_prod_unfold)
qed

section \<open>The tree of an init segment\<close>

definition fb :: "bytes \<Rightarrow> bytes" where
  "fb p = full_head 0 0 @ p"

definition audio_entry_head :: "nat \<Rightarrow> nat \<Rightarrow> bytes" where
  "audio_entry_head channel_count sample_rate =
     replicate 6 0 @ be_u16 1 @ be_u16 0 @ be_u16 0 @ be_u32 0 @ be_u16 channel_count @ be_u16 16
       @ be_u16 0 @ be_u16 0 @ be_u32 (sample_rate * 2 ^ 16)"

definition descriptor :: "u8 \<Rightarrow> bytes \<Rightarrow> bytes" where
  "descriptor tag p = tag # write_descriptor_len (length p) @ p"

definition decoder_specific :: "bytes \<Rightarrow> bytes" where
  "decoder_specific decoder_config = (if decoder_config = [] then [] else descriptor 0x05 decoder_config)"

definition decoder_config_body :: "u8 \<Rightarrow> bytes \<Rightarrow> bytes" where
  "decoder_config_body object_type decoder_config =
     ([object_type, 0x15] @ [0, 0, 0] @ be_u32 0 @ be_u32 0) @ decoder_specific decoder_config"

definition esds_payload :: "u8 \<Rightarrow> bytes \<Rightarrow> bytes" where
  "esds_payload object_type decoder_config =
     fb (descriptor 0x03 ((be_u16 0 @ [0]) @ descriptor 0x04 (decoder_config_body object_type decoder_config)
       @ descriptor 0x06 [2]))"

fun entry_box :: "fmp4_sample_entry \<Rightarrow> bytes \<times> bytes" where
  "entry_box (AvcEntry c w h) = (ascii ''avc1'', video_entry_head w h @ boxes [(ascii ''avcC'', c)])"
| "entry_box (HevcEntry c w h) =
     (ascii ''hev1'', video_entry_head w h @ boxes [(ascii ''hvcC'', c), (ascii ''pasp'', be_u32 1 @ be_u32 1)])"
| "entry_box (SourceHevcEntry s _ _) =
     (sve_codec_fourcc s, take 6 (sve_payload s) @ be_u16 1 @ drop 8 (sve_payload s))"
| "entry_box (AacEntry c n r) = (ascii ''mp4a'', audio_entry_head n r @ boxes [(ascii ''esds'', esds_payload 0x40 c)])"
| "entry_box (Mp3Entry n r) = (ascii ''mp4a'', audio_entry_head n r @ boxes [(ascii ''esds'', esds_payload 0x6b [])])"
| "entry_box (Ac3Entry d n r) = (ascii ''ac-3'', audio_entry_head n r @ boxes [(ascii ''dac3'', d)])"
| "entry_box (Eac3Entry d n r) = (ascii ''ec-3'', audio_entry_head n r @ boxes [(ascii ''dec3'', d)])"
| "entry_box (FlacEntry i n r) =
     (ascii ''fLaC'', audio_entry_head n r @ boxes [(ascii ''dfLa'', fb (0x80 # be_u24 (length i) @ i))])"
| "entry_box (AlacEntry c n r) = (ascii ''alac'', audio_entry_head n r @ boxes [(ascii ''alac'', c)])"

definition stsd_payload :: "fmp4_sample_entry \<Rightarrow> bytes" where
  "stsd_payload e = fb (be_u32 1 @ boxes [entry_box e])"

definition stbl_boxes :: "fmp4_sample_entry \<Rightarrow> (bytes \<times> bytes) list" where
  "stbl_boxes e = [(ascii ''stsd'', stsd_payload e), (ascii ''stts'', fb (be_u32 0)), (ascii ''stsc'', fb (be_u32 0)),
     (ascii ''stsz'', fb (be_u32 0 @ be_u32 0)), (ascii ''stco'', fb (be_u32 0))]"

definition media_header_box :: "fmp4_track_kind \<Rightarrow> bytes \<times> bytes" where
  "media_header_box k = (case k of
      Fmp4Video \<Rightarrow> (ascii ''vmhd'', full_head 0 1 @ be_u16 0 @ be_u16 0 @ be_u16 0 @ be_u16 0)
    | Fmp4Audio \<Rightarrow> (ascii ''smhd'', fb (be_u16 0 @ be_u16 0)))"

definition dinf_box :: "bytes \<times> bytes" where
  "dinf_box = (ascii ''dinf'', boxes [(ascii ''dref'', fb (be_u32 1 @ boxes [(ascii ''url '', full_head 0 1 @ [])]))])"

definition minf_boxes :: "fmp4_track \<Rightarrow> (bytes \<times> bytes) list" where
  "minf_boxes t = [media_header_box (ft_kind t), dinf_box, (ascii ''stbl'', boxes (stbl_boxes (ft_sample_entry t)))]"

definition mdhd_payload :: "nat \<Rightarrow> bytes" where
  "mdhd_payload timescale = fb (be_u32 0 @ be_u32 0 @ be_u32 timescale @ be_u32 0 @ be_u16 0x55c4 @ be_u16 0)"

definition hdlr_payload :: "fmp4_track_kind \<Rightarrow> bytes" where
  "hdlr_payload k = fb (be_u32 0 @ (case k of Fmp4Video \<Rightarrow> ascii ''vide'' | Fmp4Audio \<Rightarrow> ascii ''soun'')
     @ be_u32 0 @ be_u32 0 @ be_u32 0 @ [0])"

definition mdia_boxes :: "fmp4_track \<Rightarrow> (bytes \<times> bytes) list" where
  "mdia_boxes t = [(ascii ''mdhd'', mdhd_payload (ft_timescale t)), (ascii ''hdlr'', hdlr_payload (ft_kind t)),
     (ascii ''minf'', boxes (minf_boxes t))]"

definition identity_matrix :: bytes where
  "identity_matrix = be_u32 0x00010000 @ be_u32 0 @ be_u32 0 @ be_u32 0 @ be_u32 0x00010000
     @ be_u32 0 @ be_u32 0 @ be_u32 0 @ be_u32 0x40000000"

definition tkhd_payload :: "fmp4_track \<Rightarrow> bytes" where
  "tkhd_payload t = full_head 0 7 @ (be_u32 0 @ be_u32 0 @ be_u32 (ft_id t) @ be_u32 0 @ be_u32 0 @ be_u32 0 @ be_u32 0
     @ be_u16 0 @ be_u16 0 @ be_u16 (if ft_kind t = Fmp4Audio then 0x0100 else 0) @ be_u16 0)
     @ identity_matrix @ entry_size (ft_sample_entry t)"

definition trak_boxes_of :: "fmp4_track \<Rightarrow> (bytes \<times> bytes) list" where
  "trak_boxes_of t = [(ascii ''tkhd'', tkhd_payload t), (ascii ''mdia'', boxes (mdia_boxes t))]"

definition mvhd_payload :: bytes where
  "mvhd_payload = fb ((be_u32 0 @ be_u32 0 @ be_u32 MOVIE_TIMESCALE @ be_u32 0 @ be_u32 0x00010000 @ be_u16 0x0100
     @ be_u16 0 @ be_u32 0 @ be_u32 0) @ identity_matrix @ concat (replicate 6 (be_u32 0)) @ be_u32 1)"

definition trex_payload :: "fmp4_track \<Rightarrow> bytes" where
  "trex_payload t = fb (be_u32 (ft_id t) @ be_u32 1 @ be_u32 (ft_default_sample_duration t)
     @ be_u32 (ft_default_sample_size t) @ be_u32 (ft_default_sample_flags t))"

definition moov_boxes :: "fmp4_track list \<Rightarrow> (bytes \<times> bytes) list" where
  "moov_boxes ts = (ascii ''mvhd'', mvhd_payload) # map (\<lambda>t. (ascii ''trak'', boxes (trak_boxes_of t))) ts
     @ [(ascii ''mvex'', boxes (map (\<lambda>t. (ascii ''trex'', trex_payload t)) ts))]"

definition ftyp_payload :: bytes where
  "ftyp_payload = ascii ''iso6'' @ be_u32 1 @ ascii ''iso6'' @ ascii ''mp41'' @ ascii ''cmfc''"

definition init_boxes :: "fmp4_track list \<Rightarrow> (bytes \<times> bytes) list" where
  "init_boxes ts = [(ascii ''ftyp'', ftyp_payload), (ascii ''moov'', boxes (moov_boxes ts))]"

section \<open>The writers emit it\<close>

lemma emits_Nil: "emits (put []) []"
  by (rule emits_put)

lemma emits_seq2: "emits v p \<Longrightarrow> emits w q \<Longrightarrow> emits (seq [v, w]) (p @ q)"
  using emits_seq [of "[v, w]" "[p, q]"] by simp

lemma emits_seq3: "emits u o' \<Longrightarrow> emits v p \<Longrightarrow> emits w q \<Longrightarrow> emits (seq [u, v, w]) (o' @ p @ q)"
  using emits_seq [of "[u, v, w]" "[o', p, q]"] by simp

lemma emits_fb: "emits w p \<Longrightarrow> length name = 4 \<Longrightarrow> emits (write_full_box name 0 0 w) (sized_box name (fb p))"
  unfolding fb_def by (rule emits_full_box)

lemma emits_single: "emits w (sized_box k p) \<Longrightarrow> emits w (boxes [(k, p)])"
  by simp

lemma emits_desc: "emits w p \<Longrightarrow> emits (write_descriptor tag w) (descriptor tag p)"
  unfolding descriptor_def by (rule emits_descriptor)

lemma emits_esds: "emits (write_esds ot c) (sized_box (ascii ''esds'') (esds_payload ot c))"
  unfolding write_esds_def esds_payload_def decoder_config_body_def decoder_specific_def
  by (intro emits_fb emits_desc emits_seq3 emits_seq2 emits_put) (auto intro!: emits_desc emits_put)

lemma emits_entry:
  assumes "source_entry_ok e"
  shows "emits (write_sample_entry e) (sized_box (fst (entry_box e)) (snd (entry_box e)))"
proof -
  have v: "emits (write_video_sample_entry n w h k c) (sized_box n (video_entry_head w h @ sized_box k c))"
    if "length n = 4" "length k = 4" for n w h k c
    unfolding write_video_sample_entry_def using that by (intro emits_box emits_seq2 emits_put)
  have a: "emits (write_audio_sample_entry n c r w) (sized_box n (audio_entry_head c r @ p))"
    if "length n = 4" "emits w p" for n c r w p
    unfolding write_audio_sample_entry_def audio_entry_head_def using that
    by (intro emits_box emits_seq2 emits_put)
  have h: "emits (write_hevc_sample_entry w h c) (sized_box (ascii ''hev1'')
      (video_entry_head w h @ sized_box (ascii ''hvcC'') c @ sized_box (ascii ''pasp'') (be_u32 1 @ be_u32 1)))" for w h c
    unfolding write_hevc_sample_entry_def write_pasp_def max.idem
    by (intro emits_box emits_seq3 emits_put) simp_all
  show ?thesis
    using assms
    by (cases e) (auto simp del: One_nat_def simp: write_sample_entry_def source_entry_ok_def write_dfla_def
        intro!: v a h emits_esds emits_fb emits_box emits_put)
qed

lemma emits_stbl:
  assumes "source_entry_ok (ft_sample_entry t)"
  shows "emits (write_empty_stbl t) (sized_box (ascii ''stbl'') (boxes (stbl_boxes (ft_sample_entry t))))"
proof -
  obtain k p where e: "entry_box (ft_sample_entry t) = (k, p)" by fastforce
  have "emits (write_stsd t) (sized_box (ascii ''stsd'') (stsd_payload (ft_sample_entry t)))"
    unfolding write_stsd_def stsd_payload_def using emits_entry [OF assms]
    by (intro emits_fb emits_seq2 emits_put) (simp_all add: e)
  then show ?thesis
    unfolding write_empty_stbl_def stbl_boxes_def by (intro emits_box emits_boxes) (auto intro!: emits_fb emits_put)
qed

lemma emits_dinf: "emits write_dinf (sized_box (fst dinf_box) (snd dinf_box))"
  unfolding write_dinf_def dinf_box_def fst_conv snd_conv
  by (intro emits_box emits_single emits_fb emits_seq2 emits_put emits_full_box) simp_all

lemma emits_media_header:
  "emits (case k of Fmp4Video \<Rightarrow> write_vmhd | Fmp4Audio \<Rightarrow> write_smhd)
    (sized_box (fst (media_header_box k)) (snd (media_header_box k)))"
  by (cases k) (auto simp: media_header_box_def write_vmhd_def write_smhd_def
      intro!: emits_fb emits_full_box emits_put)

lemma emits_mdhd: "emits (write_mdhd n) (sized_box (ascii ''mdhd'') (mdhd_payload n))"
  unfolding write_mdhd_def mdhd_payload_def by (intro emits_fb emits_put) simp

lemma emits_hdlr: "emits (write_hdlr k) (sized_box (ascii ''hdlr'') (hdlr_payload k))"
  unfolding write_hdlr_def hdlr_payload_def by (intro emits_fb emits_put) simp

lemma emits_mdia:
  assumes "source_entry_ok (ft_sample_entry t)"
  shows "emits (write_box (ascii ''mdia'') (seq [write_mdhd (ft_timescale t), write_hdlr (ft_kind t),
      write_box (ascii ''minf'') (seq [case ft_kind t of Fmp4Video \<Rightarrow> write_vmhd | Fmp4Audio \<Rightarrow> write_smhd,
        write_dinf, write_empty_stbl t])])) (sized_box (ascii ''mdia'') (boxes (mdia_boxes t)))"
proof -
  have "emits (seq [case ft_kind t of Fmp4Video \<Rightarrow> write_vmhd | Fmp4Audio \<Rightarrow> write_smhd, write_dinf, write_empty_stbl t])
      (boxes (minf_boxes t))"
    unfolding minf_boxes_def
    by (intro emits_boxes) (simp add: emits_media_header emits_dinf emits_stbl [OF assms])
  then have "emits (write_box (ascii ''minf'') (seq [case ft_kind t of Fmp4Video \<Rightarrow> write_vmhd | Fmp4Audio \<Rightarrow> write_smhd,
        write_dinf, write_empty_stbl t])) (sized_box (ascii ''minf'') (boxes (minf_boxes t)))"
    by (rule emits_box) simp
  then show ?thesis
    unfolding mdia_boxes_def by (intro emits_box emits_boxes) (simp_all add: emits_mdhd emits_hdlr)
qed

lemma emits_trak:
  assumes "source_entry_ok (ft_sample_entry t)"
  shows "emits (write_trak t None) (sized_box (ascii ''trak'') (boxes (trak_boxes_of t)))"
proof -
  have tk: "emits (write_tkhd t) (sized_box (ascii ''tkhd'') (tkhd_payload t))"
    unfolding write_tkhd_def tkhd_payload_def write_identity_matrix_def identity_matrix_def [symmetric]
    by (intro emits_full_box emits_seq3 emits_put) simp
  show ?thesis
    unfolding write_trak_def option.case trak_boxes_of_def
    using emits_box [OF emits_seq3 [OF tk emits_Nil emits_mdia [OF assms]], of "ascii ''trak''"] by simp
qed

lemma emits_moov:
  assumes "list_all (\<lambda>t. source_entry_ok (ft_sample_entry t)) ts"
  shows "emits (seq [write_mvhd, seq (map (\<lambda>t. write_trak t None) ts), write_mvex ts]) (boxes (moov_boxes ts))"
proof -
  have "emits write_mvhd (sized_box (ascii ''mvhd'') mvhd_payload)"
    unfolding write_mvhd_def mvhd_payload_def write_identity_matrix_def identity_matrix_def [symmetric]
    by (intro emits_fb emits_seq3 emits_put) simp
  moreover have "emits (seq (map (\<lambda>t. write_trak t None) ts)) (boxes (map (\<lambda>t. (ascii ''trak'', boxes (trak_boxes_of t))) ts))"
    using assms by (intro emits_boxes) (simp add: list_all2_map1 list_all2_map2 list.rel_refl_strong list_all_iff emits_trak)
  moreover have "emits (seq (map write_trex ts)) (boxes (map (\<lambda>t. (ascii ''trex'', trex_payload t)) ts))"
    by (intro emits_boxes) (auto simp: list_all2_map1 list_all2_map2 write_trex_def trex_payload_def
        intro!: list.rel_refl_strong emits_fb emits_put)
  then have "emits (write_mvex ts) (sized_box (ascii ''mvex'') (boxes (map (\<lambda>t. (ascii ''trex'', trex_payload t)) ts)))"
    unfolding write_mvex_def by (rule emits_box) simp
  ultimately show ?thesis unfolding moov_boxes_def using emits_seq3 by simp
qed

lemma init_segment_boxes:
  assumes "init_segment ts = Inr bs"
  shows "bs = boxes (init_boxes ts)" "list_all (\<lambda>t. source_entry_ok (ft_sample_entry t)) ts"
proof -
  show ok: "list_all (\<lambda>t. source_entry_ok (ft_sample_entry t)) ts"
    using assms by (auto simp: init_segment_def init_segment_with_edits_def split: if_splits)
  have b: "bs = fst (write_init ts [] ([], ()))"
    using assms by (auto simp: init_segment_def init_segment_with_edits_def split: if_splits)
  have "emits (write_init ts []) (boxes (init_boxes ts))"
    unfolding write_init_def init_boxes_def track_edit_def
    using emits_box [OF emits_put [of ftyp_payload], of "ascii ''ftyp''"] emits_box [OF emits_moov [OF ok], of "ascii ''moov''"]
    by (intro emits_boxes) (simp add: ftyp_payload_def)
  then show "bs = boxes (init_boxes ts)" by (simp add: b emits_def)
qed

end
