(* ===== verification/Mp4Tracks.thy ===== *)
theory Mp4Tracks
  imports Mp4Meta
begin

text \<open>
  Which track an id names. The packet, chunk and codec readers of \<open>container/mp4.rs\<close> number the
  tracks of each kind in file order; an id is shown to name at most one track, and the three readers
  to agree on it.
\<close>

section \<open>The names of the tracks of a file\<close>

primrec name_tracks :: "counters \<Rightarrow> mp4_track_kind option list \<Rightarrow> string option list" where
  "name_tracks cs [] = []"
| "name_tracks cs (k # ks) =
     (case k of
        None \<Rightarrow> None # name_tracks cs ks
      | Some kind \<Rightarrow> let (track_id, cs) = next_track_id kind cs in Some track_id # name_tracks cs ks)"

definition track_names :: "bytes list \<Rightarrow> string option list" where
  "track_names traks = name_tracks (0, 0, 0, 0) (map parse_trak_kind traks)"

fun counter_of :: "mp4_track_kind \<Rightarrow> counters \<Rightarrow> nat" where
  "counter_of MtVideo (v, a, s, x) = v"
| "counter_of MtAudio (v, a, s, x) = a"
| "counter_of MtSubtitle (v, a, s, x) = s"
| "counter_of MtUnknown (v, a, s, x) = x"

definition kind_letter :: "mp4_track_kind \<Rightarrow> char" where
  "kind_letter kind = (case kind of MtVideo \<Rightarrow> CHR ''v'' | MtAudio \<Rightarrow> CHR ''a'' | MtSubtitle \<Rightarrow> CHR ''s''
     | MtUnknown \<Rightarrow> CHR ''x'')"

lemma kind_letter_inj [simp]: "kind_letter j = kind_letter k \<longleftrightarrow> j = k"
  by (cases j; cases k) (simp_all add: kind_letter_def)

lemma next_track_id_eq:
  "\<exists>cs'. next_track_id k cs = (kind_letter k # show_nat (counter_of k cs), cs') \<and>
    counter_of k cs' = counter_of k cs + 1 \<and> (\<forall>j. counter_of j cs \<le> counter_of j cs')"
proof -
  obtain v a s x where cs: "cs = (v, a, s, x)" by (cases cs) auto
  have "counter_of j cs \<le> counter_of j (snd (next_track_id k cs))" for j
    by (cases j; cases k) (simp_all add: cs next_track_id_def)
  then show ?thesis by (cases k) (auto simp: cs next_track_id_def kind_letter_def)
qed

lemma name_tracks_counters:
  "Some track_id \<in> set (name_tracks cs ks) \<Longrightarrow>
    \<exists>k n. track_id = kind_letter k # show_nat n \<and> counter_of k cs \<le> n"
proof (induction ks arbitrary: cs)
  case (Cons k ks)
  show ?case
  proof (cases k)
    case None
    then show ?thesis using Cons by simp
  next
    case (Some kind)
    obtain cs' where s: "next_track_id kind cs = (kind_letter kind # show_nat (counter_of kind cs), cs')"
      and le: "\<And>j. counter_of j cs \<le> counter_of j cs'"
      using next_track_id_eq [of kind cs] by auto
    then have "track_id = kind_letter kind # show_nat (counter_of kind cs) \<or>
        Some track_id \<in> set (name_tracks cs' ks)"
      using Cons.prems Some by simp
    then show ?thesis
    proof
      assume "Some track_id \<in> set (name_tracks cs' ks)"
      then obtain k n where "track_id = kind_letter k # show_nat n" "counter_of k cs' \<le> n" using Cons.IH by blast
      then show ?thesis using le [of k] order_trans by blast
    qed blast
  qed
qed simp

lemma name_tracks_fresh:
  assumes "next_track_id kind cs = (track_id, cs')"
  shows "Some track_id \<notin> set (name_tracks cs' ks)"
proof
  assume "Some track_id \<in> set (name_tracks cs' ks)"
  then obtain k n where kn: "track_id = kind_letter k # show_nat n" "counter_of k cs' \<le> n"
    using name_tracks_counters by blast
  have "track_id = kind_letter kind # show_nat (counter_of kind cs)" "counter_of kind cs' = counter_of kind cs + 1"
    using next_track_id_eq [of kind cs] assms by auto
  with kn show False by (auto simp: show_nat_inj)
qed

lemma length_name_tracks [simp]: "length (name_tracks cs ks) = length ks"
  by (induction ks arbitrary: cs) (auto split: option.splits prod.splits)

section \<open>The walks stop at the named track\<close>

text \<open>
  The common shape of the three readers: a walk over the \<open>trak\<close> boxes that answers with \<open>hit\<close> at the
  first track the request names, passing over a \<open>trak\<close> without a handler or ending there.
\<close>

locale track_walk =
  fixes walk :: "string option \<Rightarrow> counters \<Rightarrow> nat \<Rightarrow> bytes list \<Rightarrow> 'r option"
    and hit :: "bytes \<Rightarrow> nat \<Rightarrow> mp4_track_kind \<Rightarrow> string \<Rightarrow> 'r option"
    and skips :: bool
  assumes walk_Nil: "walk requested cs n [] = None"
    and walk_Cons: "walk requested cs n (t # ts) =
      (case parse_trak_kind t of
         None \<Rightarrow> if skips then walk requested cs (n + 1) ts else None
       | Some kind \<Rightarrow>
           let (track_id, cs) = next_track_id kind cs
           in if should_parse requested kind track_id then hit t n kind track_id
              else walk requested cs (n + 1) ts)"
begin

lemma walk_named:
  assumes "i < length traks" "name_tracks cs (map parse_trak_kind traks) ! i = Some track_id"
    and "skips \<or> None \<notin> set (map parse_trak_kind (take i traks))"
  shows "\<exists>kind. parse_trak_kind (traks ! i) = Some kind \<and>
    walk (Some track_id) cs n traks = hit (traks ! i) (n + i) kind track_id"
  using assms
proof (induction traks arbitrary: cs i n)
  case (Cons t ts)
  show ?case
  proof (cases "parse_trak_kind t")
    case None
    then obtain j where "i = Suc j" using Cons.prems by (cases i) simp_all
    with None Cons.prems Cons.IH [of j cs "n + 1"] show ?thesis by (auto simp: walk_Cons)
  next
    case (Some kind)
    obtain h cs' where h: "next_track_id kind cs = (h, cs')" by (cases "next_track_id kind cs")
    show ?thesis
    proof (cases i)
      case 0
      then show ?thesis using Cons.prems Some h by (auto simp: should_parse_def walk_Cons)
    next
      case (Suc j)
      then have p: "j < length ts" "name_tracks cs' (map parse_trak_kind ts) ! j = Some track_id"
        "skips \<or> None \<notin> set (map parse_trak_kind (take j ts))"
        using Cons.prems Some h by auto
      then have "Some track_id \<in> set (name_tracks cs' (map parse_trak_kind ts))"
        by (metis length_map length_name_tracks nth_mem)
      then have "track_id \<noteq> h" using name_tracks_fresh [OF h] by blast
      then show ?thesis using Cons.IH [OF p, of "n + 1"] Some h Suc by (auto simp: should_parse_def walk_Cons)
    qed
  qed
qed simp

lemma walk_unnamed:
  "Some track_id \<notin> set (name_tracks cs (map parse_trak_kind traks)) \<Longrightarrow> walk (Some track_id) cs n traks = None"
proof (induction traks arbitrary: cs n)
  case (Cons t ts)
  show ?case
  proof (cases "parse_trak_kind t")
    case None
    then show ?thesis using Cons by (simp add: walk_Cons)
  next
    case (Some kind)
    obtain h cs' where "next_track_id kind cs = (h, cs')" by (cases "next_track_id kind cs")
    then show ?thesis using Cons Some by (auto simp: walk_Cons should_parse_def)
  qed
qed (rule walk_Nil)

end

interpretation packet_walk: track_walk packet_track_loop parse_trak_packet_index True
  by unfold_locales simp_all

definition planned_track :: "nat \<Rightarrow> string \<Rightarrow> bytes \<Rightarrow> (chunk_plan \<times> nat option) option" where
  "planned_track target_ms track_id trak =
     map_option (\<lambda>(scale, table). let plan = table_chunk_plan table track_id scale target_ms
       in (plan, peak_chunk_bitrate table plan)) (parse_trak_sample_table trak)"

interpretation plan_walk: track_walk "\<lambda>requested cs n. chunk_plan_loop requested target_ms cs"
  "\<lambda>trak n kind track_id. planned_track target_ms track_id trak" True for target_ms
  by unfold_locales (auto simp: planned_track_def Let_def split: option.splits prod.splits)

interpretation codec_walk: track_walk "\<lambda>requested cs n. codec_config_loop requested cs"
  "\<lambda>trak n kind. parse_trak_codec_config trak kind" False
  by unfold_locales simp_all

section \<open>Properties\<close>

text \<open>The readers of packets, chunk plans and codec configurations agree on the track an id names.
  The track at position \<open>i\<close> of the movie, named by counting the tracks of its kind before it, is the
  one each of them reads when asked for its name. The codec
  reader, unlike the others, needs every earlier track to have a handler.\<close>

theorem track_id_selects_track:
  assumes "i < length (trak_boxes bs)" "track_names (trak_boxes bs) ! i = Some track_id"
  shows "\<exists>kind. parse_trak_kind (trak_boxes bs ! i) = Some kind \<and>
    parse_packet_track bs (Some track_id) = parse_trak_packet_index (trak_boxes bs ! i) i kind track_id \<and>
    parse_chunk_plan_with_peak_bitrate bs (Some track_id) target_ms =
      planned_track target_ms track_id (trak_boxes bs ! i) \<and>
    (None \<in> set (map parse_trak_kind (take i (trak_boxes bs))) \<or>
     parse_codec_config bs (Some track_id) = parse_trak_codec_config (trak_boxes bs ! i) kind track_id)"
proof -
  note names = assms [unfolded track_names_def]
  obtain kind where k: "parse_trak_kind (trak_boxes bs ! i) = Some kind"
    "parse_packet_track bs (Some track_id) = parse_trak_packet_index (trak_boxes bs ! i) i kind track_id"
    using packet_walk.walk_named [OF names, of 0] by (auto simp: parse_packet_track_def)
  have "parse_chunk_plan_with_peak_bitrate bs (Some track_id) target_ms = planned_track target_ms track_id (trak_boxes bs ! i)"
    using plan_walk.walk_named [OF names] by (auto simp: parse_chunk_plan_with_peak_bitrate_def)
  moreover have "parse_codec_config bs (Some track_id) = parse_trak_codec_config (trak_boxes bs ! i) kind track_id"
    if "None \<notin> set (map parse_trak_kind (take i (trak_boxes bs)))"
    using codec_walk.walk_named [OF names] that k(1) by (auto simp: parse_codec_config_def)
  ultimately show "\<exists>kind. parse_trak_kind (trak_boxes bs ! i) = Some kind \<and>
      parse_packet_track bs (Some track_id) = parse_trak_packet_index (trak_boxes bs ! i) i kind track_id \<and>
      parse_chunk_plan_with_peak_bitrate bs (Some track_id) target_ms = planned_track target_ms track_id (trak_boxes bs ! i) \<and>
      (None \<in> set (map parse_trak_kind (take i (trak_boxes bs))) \<or>
       parse_codec_config bs (Some track_id) = parse_trak_codec_config (trak_boxes bs ! i) kind track_id)"
    using k by blast
qed

lemma handlerless_track_hides_later:
  "parse_trak_kind t = None \<Longrightarrow> codec_config_loop requested cs (t # ts) = None \<and>
    packet_track_loop requested cs n (t # ts) = packet_track_loop requested cs (n + 1) ts"
  by simp

lemma unknown_track_id:
  "Some r \<notin> set (track_names (trak_boxes bs)) \<Longrightarrow> parse_packet_track bs (Some r) = None \<and>
    parse_chunk_plan bs (Some r) target_ms = None \<and> parse_codec_config bs (Some r) = None"
  by (simp add: track_names_def parse_packet_track_def parse_chunk_plan_def parse_chunk_plan_with_peak_bitrate_def
      parse_codec_config_def packet_walk.walk_unnamed plan_walk.walk_unnamed codec_walk.walk_unnamed)

end
