(* ===== verification/InitRead.thy ===== *)
theory InitRead
  imports Fmp4Init Mp4Tracks
begin

text \<open>
  The readers of \<open>container/mp4.rs\<close> on the init segment of \<open>fmp4/mod.rs\<close>: every track of an init
  segment is found under its name with the codec, configuration record and sample description that
  were written for it.
\<close>

section \<open>Descriptors\<close>

lemma base128_digit: "unat ((word_of_nat n AND 0x7f) :: u8) = n mod 128"
proof -
  have "(word_of_nat n AND 0x7f :: u8) = take_bit 7 (word_of_nat n)"
    by (simp add: take_bit_eq_mask mask_eq_exp_minus_1)
  then show ?thesis by (simp add: unsigned_take_bit_eq take_bit_nat_def unat_of_nat mod_mod_cancel)
qed

lemma continued_digit:
  "((w AND 0x7f) OR 0x80 :: u8) AND 0x7f = w AND 0x7f" "((w AND 0x7f) OR 0x80 :: u8) AND 0x80 \<noteq> 0"
  "(w AND 0x7f :: u8) AND 0x80 = 0" "(w AND 0x7f :: u8) AND 0x7f = w AND 0x7f"
proof -
  show "((w AND 0x7f) OR 0x80 :: u8) AND 0x80 \<noteq> 0"
    by (simp add: bit.conj_disj_distrib2 and.assoc)
qed (simp_all add: bit.conj_disj_distrib2 and.assoc)

lemma digits128: "n < 2 ^ 28 \<Longrightarrow>
  (((n div 2 ^ 21 mod 128) * 128 + n div 2 ^ 14 mod 128) * 128 + n div 2 ^ 7 mod 128) * 128 + n mod 128 = (n :: nat)"
proof -
  assume n: "n < 2 ^ 28"
  have d: "n div 2 ^ 21 = n div 128 div 128 div 128" "n div 2 ^ 14 = n div 128 div 128" "n div 2 ^ 7 = n div 128"
    by (simp_all add: div_mult2_eq [symmetric])
  have "n div 128 div 128 div 128 < 128" using n unfolding d(1) [symmetric] by (simp add: less_mult_imp_div_less)
  then have m: "n div 128 div 128 div 128 mod 128 = n div 128 div 128 div 128" by simp
  show ?thesis unfolding d m by (simp only: div_mult_mod_eq)
qed

lemma read_descriptor_size_written:
  assumes "n < 2 ^ 28"
  shows "read_descriptor_size (write_descriptor_len n @ rest) = Some (n, 4)"
proof -
  have l: "write_descriptor_len n = [(word_of_nat (n div 2 ^ 21) AND 0x7f) OR 0x80, (word_of_nat (n div 2 ^ 14) AND 0x7f) OR 0x80,
      (word_of_nat (n div 2 ^ 7) AND 0x7f) OR 0x80, word_of_nat n AND 0x7f]"
    by (simp add: write_descriptor_len_def upt_rec Let_def)
  have a: "read_descriptor_size (write_descriptor_len n @ rest) =
      Some ((((n div 2 ^ 21 mod 128) * 128 + n div 2 ^ 14 mod 128) * 128 + n div 2 ^ 7 mod 128) * 128 + n mod 128, 4)"
    unfolding read_descriptor_size_def l
    by (simp only: append_Cons descriptor_size_loop.simps Let_def continued_digit base128_digit if_False simp_thms) simp
  show ?thesis unfolding a digits128 [OF assms] ..
qed

lemma descriptor_at_written:
  assumes "length b < 2 ^ 28" "length (pre @ descriptor t b @ rest) < 2 ^ 64"
  shows "descriptor_at (pre @ descriptor t b @ rest) (length pre) = Some (t, length pre + 5, length pre + 5 + length b)"
proof -
  have "drop (length pre + 1) (pre @ descriptor t b @ rest) = write_descriptor_len (length b) @ b @ rest"
    by (simp add: descriptor_def)
  then have "read_descriptor_size (drop (length pre + 1) (pre @ descriptor t b @ rest)) = Some (length b, 4)"
    using read_descriptor_size_written [OF assms(1)] by simp
  then show ?thesis using assms(2) by (simp add: descriptor_at_def checked_add_def descriptor_def nth_append)
qed

lemma find_descriptor_step:
  assumes "length b < 2 ^ 28" "length (pre @ descriptor t b @ rest) < 2 ^ 64"
  shows "find_descriptor_from (pre @ descriptor t b @ rest) tag (length pre) =
    (if t = tag then Some b
     else case find_descriptor_from (nested_body t b) tag 0 of
       Some nested \<Rightarrow> Some nested
     | None \<Rightarrow> find_descriptor_from (pre @ descriptor t b @ rest) tag (length pre + 5 + length b))"
proof -
  have s: "slice (pre @ descriptor t b @ rest) (length pre + 5) (length pre + 5 + length b) = b"
    using slice_at [of "pre @ t # write_descriptor_len (length b)" b rest] by (simp add: descriptor_def add.assoc)
  have l: "\<not> length (pre @ descriptor t b @ rest) < length pre + 2" by (simp add: descriptor_def)
  show ?thesis
    by (subst find_descriptor_from.simps) (simp only: if_not_P [OF l] descriptor_at_written [OF assms] option.case prod.case s Let_def)
qed

lemma find_descriptor_end: "length bs < off + 2 \<Longrightarrow> find_descriptor_from bs tag off = None"
  by (subst find_descriptor_from.simps) simp

lemma length_descriptor [simp]: "length (descriptor t p) = 5 + length p"
  by (simp add: descriptor_def)

lemma length_fb [simp]: "length (fb p) = 4 + length p"
  by (simp add: fb_def full_head_def)

lemma drop_fb: "n = 4 \<Longrightarrow> drop n (fb p) = p"
  by (simp add: fb_def full_head_def)

lemma find_in_specific:
  assumes "length c < 2 ^ 24"
  shows "find_descriptor_from (decoder_specific c) 0x05 0 = (if c = [] then None else Some c)"
  using assms find_descriptor_step [where b = c and pre = "[]" and t = "0x05" and rest = "[]" and tag = "0x05"]
  by (simp add: decoder_specific_def find_descriptor_end)

lemma drop_decoder_config_body: "drop 13 (decoder_config_body ot c) = decoder_specific c"
  by (simp add: decoder_config_body_def)

lemma length_decoder_config_body: "length (decoder_config_body ot c) \<le> 18 + length c"
  by (simp add: decoder_config_body_def decoder_specific_def)

lemma find_in_es_body:
  assumes c: "length c < 2 ^ 24"
    and body_def: "body = descriptor 0x04 (decoder_config_body ot c) @ descriptor 0x06 [2]"
  shows "find_descriptor_from body 0x04 0 = Some (decoder_config_body ot c)"
    "find_descriptor_from body 0x05 0 = (if c = [] then None else Some c)"
proof -
  have l: "length (decoder_config_body ot c) < 2 ^ 28" using length_decoder_config_body [of ot c] c by simp
  note step = find_descriptor_step [OF l, where pre = "[]" and t = "0x04" and rest = "descriptor 0x06 [2]"]
  show "find_descriptor_from body 0x04 0 = Some (decoder_config_body ot c)"
    unfolding body_def using step [where tag = "0x04"] l by simp
  have e: "find_descriptor_from body 0x05 (5 + length (decoder_config_body ot c)) = None"
  proof -
    have n: "find_descriptor_from (nested_body 0x06 [2]) 0x05 0 = None" by (rule find_descriptor_end) (simp add: nested_body_def)
    have "find_descriptor_from body 0x05 (length (descriptor 0x04 (decoder_config_body ot c)) + 5 + length [2 :: u8]) = None"
      by (rule find_descriptor_end) (simp add: body_def)
    with find_descriptor_step [where b = "[2]" and pre = "descriptor 0x04 (decoder_config_body ot c)" and t = "0x06" and rest = "[]" and tag = "0x05"] n l
    show ?thesis by (simp add: body_def)
  qed
  have "nested_body 0x04 (decoder_config_body ot c) = decoder_specific c"
    by (simp add: nested_body_def drop_decoder_config_body)
  then show "find_descriptor_from body 0x05 0 = (if c = [] then None else Some c)"
    using step [where tag = "0x05"] l e find_in_specific [OF c] by (cases "c = []") (simp_all add: body_def)
qed

lemma esds_read:
  assumes c: "length c < 2 ^ 24"
  shows "audio_specific_config_from_esds (esds_payload ot c) =
    Some \<lparr>object_type_indication = ot,
      audio_object_type = (if 2 \<le> length c then Some (unat (drop_bit 3 (c ! 0))) else None), asc_bytes = c\<rparr>"
proof -
  let ?es = "(be_u16 0 @ [0]) @ descriptor 0x04 (decoder_config_body ot c) @ descriptor 0x06 [2]"
  have g: "get_from (esds_payload ot c) 4 = Some (descriptor 0x03 ?es)"
    by (simp add: get_from_def esds_payload_def drop_fb)
  have l: "length ?es < 2 ^ 28" using length_decoder_config_body [of ot c] c by simp
  have n: "nested_body 0x03 ?es = descriptor 0x04 (decoder_config_body ot c) @ descriptor 0x06 [2]"
    by (simp add: nested_body_def)
  have e: "find_descriptor_from (descriptor 0x03 ?es) tag (5 + length ?es) = None" for tag
    by (rule find_descriptor_end) simp
  have "length ([] @ descriptor 0x03 ?es @ []) < 2 ^ 64" using l by simp
  note step = find_descriptor_step [OF l this, simplified list.size(3) add_0 append_Nil append_Nil2, unfolded n e]
  have "find_descriptor_payload (descriptor 0x03 ?es) 0x04 = Some (decoder_config_body ot c)"
    "find_descriptor_payload (descriptor 0x03 ?es) 0x05 = (if c = [] then None else Some c)"
    unfolding find_descriptor_payload_def step find_in_es_body [OF c refl] by simp_all
  moreover have "get_at (decoder_config_body ot c) 0 = Some ot" by (simp add: get_at_def decoder_config_body_def)
  moreover have "(case (get_at c 0, get_at c 1) of (Some b0, Some b1) \<Rightarrow> Some (unat (drop_bit 3 b0)) | _ \<Rightarrow> None) =
      (if 2 \<le> length c then Some (unat (drop_bit 3 (c ! 0))) else None)"
    by (cases c rule: list.exhaust [case_product list.exhaust]; cases "tl c") (auto simp: get_at_def)
  ultimately show ?thesis
    unfolding audio_specific_config_from_esds_def g by (cases "c = []") (simp_all add: get_at_def)
qed

section \<open>Sample entries\<close>

fun written_config :: "fmp4_sample_entry \<Rightarrow> sample_entry_codec_config option" where
  "written_config (AvcEntry c _ _) =
     Some \<lparr>cc_box_type = ascii ''avcC'', cc_codec_string = avc_codec_string c,
       cc_nalu_length_size = avc_nalu_length_size c, cc_description = c\<rparr>"
| "written_config (HevcEntry c _ _) =
     Some \<lparr>cc_box_type = ascii ''hvcC'', cc_codec_string = hevc_codec_string c (ascii ''hev1''),
       cc_nalu_length_size = hevc_nalu_length_size c, cc_description = c\<rparr>"
| "written_config (SourceHevcEntry s w h) =
     codec_config_from_sample_entry MtVideo
       \<lparr>se_codec_fourcc = sve_codec_fourcc s, se_payload = snd (entry_box (SourceHevcEntry s w h))\<rparr>"
| "written_config (AacEntry c _ _) =
     Some \<lparr>cc_box_type = ascii ''esds'',
       cc_codec_string = (if 2 \<le> length c \<and> 0 < unat (drop_bit 3 (c ! 0))
         then Some (''mp4a.40.'' @ show_nat (unat (drop_bit 3 (c ! 0)))) else None),
       cc_nalu_length_size = None, cc_description = (if c = [] then esds_payload 0x40 [] else c)\<rparr>"
| "written_config (Mp3Entry _ _) =
     Some \<lparr>cc_box_type = ascii ''esds'', cc_codec_string = Some ''mp4a.6b'',
       cc_nalu_length_size = None, cc_description = esds_payload 0x6b []\<rparr>"
| "written_config (Ac3Entry _ _ _) = None"
| "written_config (Eac3Entry _ _ _) = None"
| "written_config (FlacEntry i _ _) =
     Some \<lparr>cc_box_type = ascii ''dfLa'', cc_codec_string = Some ''fLaC'',
       cc_nalu_length_size = None, cc_description = i\<rparr>"
| "written_config (AlacEntry c _ _) =
     Some \<lparr>cc_box_type = ascii ''alac'', cc_codec_string = Some ''alac'',
       cc_nalu_length_size = None, cc_description = c\<rparr>"

fun written_codec :: "fmp4_sample_entry \<Rightarrow> string" where
  "written_codec (AvcEntry _ _ _) = ''h264''"
| "written_codec (HevcEntry _ _ _) = ''hevc''"
| "written_codec (SourceHevcEntry _ _ _) = ''hevc''"
| "written_codec (AacEntry _ _ _) = ''aac''"
| "written_codec (Mp3Entry _ _) = ''mp4a.6b''"
| "written_codec (Ac3Entry _ _ _) = ''ac3''"
| "written_codec (Eac3Entry _ _ _) = ''eac3''"
| "written_codec (FlacEntry _ _ _) = ''flac''"
| "written_codec (AlacEntry _ _ _) = ''alac''"

fun entry_kind :: "fmp4_sample_entry \<Rightarrow> fmp4_track_kind" where
  "entry_kind (AvcEntry _ _ _) = Fmp4Video"
| "entry_kind (HevcEntry _ _ _) = Fmp4Video"
| "entry_kind (SourceHevcEntry _ _ _) = Fmp4Video"
| "entry_kind _ = Fmp4Audio"

fun wf_entry :: "fmp4_sample_entry \<Rightarrow> bool" where
  "wf_entry (AacEntry c _ _) \<longleftrightarrow> length c < 2 ^ 24"
| "wf_entry (FlacEntry i _ _) \<longleftrightarrow> length i < 2 ^ 24"
| "wf_entry _ \<longleftrightarrow> True"

definition reader_kind :: "fmp4_track_kind \<Rightarrow> mp4_track_kind" where
  "reader_kind k = (case k of Fmp4Video \<Rightarrow> MtVideo | Fmp4Audio \<Rightarrow> MtAudio)"

lemmas name_eqs = ascii_def fourccs_def is_video_sample_entry_def is_audio_sample_entry_def

lemma length_video_entry_head [simp]: "length (video_entry_head w h) = 78"
  by (simp add: video_entry_head_def)

lemma length_audio_entry_head [simp]: "length (audio_entry_head n r) = 28"
  by (simp add: audio_entry_head_def)

lemma child_boxes_video:
  "is_video_sample_entry f \<Longrightarrow> sample_entry_child_boxes k f (video_entry_head w h @ bs) = Some bs"
  by (simp add: sample_entry_child_boxes_def get_from_def)

lemma child_boxes_audio:
  "is_audio_sample_entry f \<Longrightarrow> \<not> is_video_sample_entry f \<Longrightarrow>
    sample_entry_child_boxes k f (audio_entry_head n r @ bs) = Some bs"
  by (simp add: sample_entry_child_boxes_def get_from_def)

lemma flac_read: "length i < 2 ^ 24 \<Longrightarrow> flac_stream_info_from_dfla (fb (0x80 # be_u24 (length i) @ i)) = Some i"
proof -
  assume l: "length i < 2 ^ 24"
  have d: "get_from (fb (0x80 # be_u24 (length i) @ i)) 4 = Some (0x80 # be_u24 (length i) @ i)"
    by (simp add: get_from_def drop_fb)
  obtain a b c where u: "be_u24 (length i) = [a, b, c]" by (simp add: be_u24_def)
  have n: "be_nat [a, b, c] = length i" using l unfolding u [symmetric] by (simp add: be_nat_be_u24)
  show ?thesis unfolding flac_stream_info_from_dfla_def d
    by (simp add: u get_at_def n get_range_def slice_def)
qed

lemma video_config:
  assumes "is_video_sample_entry f" "named kps" "length (boxes kps) < 2 ^ 32"
  shows "codec_config_from_sample_entry k \<lparr>se_codec_fourcc = f, se_payload = video_entry_head w h @ boxes kps\<rparr> =
    first_config \<lparr>se_codec_fourcc = f, se_payload = video_entry_head w h @ boxes kps\<rparr>
      (map (\<lambda>(k, p). \<lparr>at_kind = k, at_payload = p\<rparr>) kps)"
  using assms by (simp add: codec_config_from_sample_entry_def child_boxes_video atoms_boxes)

lemma audio_config:
  assumes "is_audio_sample_entry f" "\<not> is_video_sample_entry f" "named [(j, p)]" "length (boxes [(j, p)]) < 2 ^ 32"
  shows "codec_config_from_sample_entry k \<lparr>se_codec_fourcc = f, se_payload = audio_entry_head n r @ boxes [(j, p)]\<rparr> =
    child_config \<lparr>se_codec_fourcc = f, se_payload = audio_entry_head n r @ boxes [(j, p)]\<rparr>
      \<lparr>at_kind = j, at_payload = p\<rparr>"
proof -
  have c: "sample_entry_child_boxes k f (audio_entry_head n r @ boxes [(j, p)]) = Some (boxes [(j, p)])"
    by (rule child_boxes_audio [OF assms(1,2)])
  show ?thesis unfolding codec_config_from_sample_entry_def
    by (simp add: c atoms_boxes [OF assms(3,4)] del: boxes_simps split: option.splits)
qed

lemma digit_chars: "char_of (54 :: nat) = CHR ''6''" "char_of (98 :: nat) = CHR ''b''"
  by (simp_all add: char_of_def bit_0)

lemma config_read:
  assumes "wf_entry e" "length (snd (entry_box e)) < 2 ^ 32"
  shows "codec_config_from_sample_entry (reader_kind (entry_kind e))
    \<lparr>se_codec_fourcc = fst (entry_box e), se_payload = snd (entry_box e)\<rparr> = written_config e"
proof (cases e)
  case (AvcEntry c w h)
  have "is_video_sample_entry (ascii ''avc1'')" by (simp add: name_eqs)
  then show ?thesis using assms(2) AvcEntry
    by (simp add: video_config [where kps = "[(ascii ''avcC'', c)]", simplified] child_config_def)
next
  case (HevcEntry c w h)
  let ?b = "[(ascii ''hvcC'', c), (ascii ''pasp'', be_u32 1 @ be_u32 1)]"
  have v: "is_video_sample_entry (ascii ''hev1'')" "ascii ''hvcC'' \<noteq> ascii ''avcC''"
    "ascii ''hev1'' \<notin> fourccs [''dvh1'', ''dvhe'']" by (simp_all add: name_eqs)
  have "length (boxes ?b) < 2 ^ 32" using assms(2) HevcEntry by simp
  from video_config [OF v(1) _ this] show ?thesis using HevcEntry v by (simp add: child_config_def hvcc_codec_string_def)
next
  case (SourceHevcEntry s w h)
  then show ?thesis by (simp add: reader_kind_def)
next
  case (AacEntry c n r)
  have v: "is_audio_sample_entry (ascii ''mp4a'')" "\<not> is_video_sample_entry (ascii ''mp4a'')"
    "ascii ''esds'' \<noteq> ascii ''avcC''" "ascii ''esds'' \<noteq> ascii ''hvcC''" by (simp_all add: name_eqs)
  have "length (boxes [(ascii ''esds'', esds_payload 0x40 c)]) < 2 ^ 32" using assms(2) AacEntry by simp
  from audio_config [OF v(1,2) _ this] show ?thesis using AacEntry v assms(1)
    by (simp add: child_config_def esds_read mp4a_codec_string_def esds_description_def)
next
  case (Mp3Entry n r)
  have v: "is_audio_sample_entry (ascii ''mp4a'')" "\<not> is_video_sample_entry (ascii ''mp4a'')"
    "ascii ''esds'' \<noteq> ascii ''avcC''" "ascii ''esds'' \<noteq> ascii ''hvcC''" by (simp_all add: name_eqs)
  have "length (boxes [(ascii ''esds'', esds_payload 0x6b [])]) < 2 ^ 32" using assms(2) Mp3Entry by simp
  from audio_config [OF v(1,2) _ this] show ?thesis using Mp3Entry v
    by (simp add: child_config_def esds_read mp4a_codec_string_def esds_description_def show_hex2_lower_def
        digit_char_lower_def digit_chars)
next
  case (Ac3Entry d n r)
  have v: "is_audio_sample_entry (ascii ''ac-3'')" "\<not> is_video_sample_entry (ascii ''ac-3'')"
    "ascii ''dac3'' \<notin> fourccs [''avcC'', ''hvcC'', ''esds'', ''dfLa'', ''alac'']" by (simp_all add: name_eqs)
  have "length (boxes [(ascii ''dac3'', d)]) < 2 ^ 32" using assms(2) Ac3Entry by simp
  from audio_config [OF v(1,2) _ this] show ?thesis using Ac3Entry v(3) by (simp add: child_config_def fourccs_def)
next
  case (Eac3Entry d n r)
  have v: "is_audio_sample_entry (ascii ''ec-3'')" "\<not> is_video_sample_entry (ascii ''ec-3'')"
    "ascii ''dec3'' \<notin> fourccs [''avcC'', ''hvcC'', ''esds'', ''dfLa'', ''alac'']" by (simp_all add: name_eqs)
  have "length (boxes [(ascii ''dec3'', d)]) < 2 ^ 32" using assms(2) Eac3Entry by simp
  from audio_config [OF v(1,2) _ this] show ?thesis using Eac3Entry v(3) by (simp add: child_config_def fourccs_def)
next
  case (FlacEntry i n r)
  have v: "is_audio_sample_entry (ascii ''fLaC'')" "\<not> is_video_sample_entry (ascii ''fLaC'')"
    "ascii ''dfLa'' \<notin> fourccs [''avcC'', ''hvcC'', ''esds'']" by (simp_all add: name_eqs)
  have "length (boxes [(ascii ''dfLa'', fb (0x80 # be_u24 (length i) @ i))]) < 2 ^ 32" using assms(2) FlacEntry by simp
  from audio_config [OF v(1,2) _ this] show ?thesis using FlacEntry v(3) assms(1)
    by (simp add: child_config_def fourccs_def flac_read)
next
  case (AlacEntry c n r)
  have v: "is_audio_sample_entry (ascii ''alac'')" "\<not> is_video_sample_entry (ascii ''alac'')"
    "ascii ''alac'' \<notin> fourccs [''avcC'', ''hvcC'', ''esds'', ''dfLa'']" by (simp_all add: name_eqs)
  have "length (boxes [(ascii ''alac'', c)]) < 2 ^ 32" using assms(2) AlacEntry by simp
  from audio_config [OF v(1,2) _ this] show ?thesis using AlacEntry v(3) by (simp add: child_config_def fourccs_def)
qed

lemma codec_read:
  assumes "source_entry_ok e"
  shows "sample_entry_codec_from_config (fst (entry_box e)) (reader_kind (entry_kind e)) (written_config e) = written_codec e"
  using assms by (cases e) (auto simp: sample_entry_codec_from_config_def sample_entry_codec_def name_eqs reader_kind_def
      source_entry_ok_def)

section \<open>Tracks\<close>

lemma named_media_header [simp]: "length (fst (media_header_box k)) = 4"
  by (cases k) (simp_all add: media_header_box_def)

lemma named_trees [simp]: "named (stbl_boxes e)" "named (minf_boxes t)" "named (mdia_boxes t)"
  "named (trak_boxes_of t)" "named (moov_boxes ts)" "named (init_boxes ts)"
proof -
  show "named (minf_boxes t)"
    by (cases "media_header_box (ft_kind t)") (use named_media_header [of "ft_kind t"] in \<open>simp add: minf_boxes_def dinf_box_def\<close>)
  show "named (moov_boxes ts)" by (simp add: moov_boxes_def) (simp add: named_def list_all_iff)
qed (simp_all add: stbl_boxes_def mdia_boxes_def trak_boxes_of_def init_boxes_def)

lemma tree_sizes:
  assumes "length (boxes (trak_boxes_of t)) < 2 ^ 32"
  shows "length (boxes (mdia_boxes t)) < 2 ^ 32" "length (boxes (minf_boxes t)) < 2 ^ 32"
    "length (boxes (stbl_boxes (ft_sample_entry t))) < 2 ^ 32" "length (stsd_payload (ft_sample_entry t)) < 2 ^ 32"
proof -
  show m: "length (boxes (mdia_boxes t)) < 2 ^ 32"
    using assms member_length [of "trak_boxes_of t" "ascii ''mdia''" "boxes (mdia_boxes t)"]
    by (simp only: named_trees) (simp add: trak_boxes_of_def)
  show i: "length (boxes (minf_boxes t)) < 2 ^ 32"
    using m by (simp add: mdia_boxes_def)
  have "(ascii ''stbl'', boxes (stbl_boxes (ft_sample_entry t))) \<in> set (minf_boxes t)" by (simp add: minf_boxes_def)
  from member_length [OF named_trees(2) this] i
  show b: "length (boxes (stbl_boxes (ft_sample_entry t))) < 2 ^ 32" by simp
  show "length (stsd_payload (ft_sample_entry t)) < 2 ^ 32" using b by (simp add: stbl_boxes_def)
qed

lemma track_boxes_found:
  assumes "length (boxes (trak_boxes_of t)) < 2 ^ 32"
  shows "find_atom (boxes (trak_boxes_of t)) (ascii ''mdia'') = Some (boxes (mdia_boxes t))"
    "find_atom (boxes (mdia_boxes t)) (ascii ''hdlr'') = Some (hdlr_payload (ft_kind t))"
    "find_atom (boxes (mdia_boxes t)) (ascii ''minf'') = Some (boxes (minf_boxes t))"
    "find_atom (boxes (minf_boxes t)) (ascii ''stbl'') = Some (boxes (stbl_boxes (ft_sample_entry t)))"
    "find_atom (boxes (stbl_boxes (ft_sample_entry t))) (ascii ''stsd'') = Some (stsd_payload (ft_sample_entry t))"
proof -
  note s = tree_sizes [OF assms]
  show "find_atom (boxes (trak_boxes_of t)) (ascii ''mdia'') = Some (boxes (mdia_boxes t))"
    using find_atom_boxes [OF named_trees(4) assms] by (simp add: trak_boxes_of_def ascii_def)
  show "find_atom (boxes (mdia_boxes t)) (ascii ''hdlr'') = Some (hdlr_payload (ft_kind t))"
    "find_atom (boxes (mdia_boxes t)) (ascii ''minf'') = Some (boxes (minf_boxes t))"
    using find_atom_boxes [OF named_trees(3) s(1)] by (simp_all add: mdia_boxes_def ascii_def)
  show "find_atom (boxes (minf_boxes t)) (ascii ''stbl'') = Some (boxes (stbl_boxes (ft_sample_entry t)))"
    using find_atom_boxes [OF named_trees(2) s(2)]
    by (cases "ft_kind t") (simp_all add: minf_boxes_def media_header_box_def dinf_box_def ascii_def)
  show "find_atom (boxes (stbl_boxes (ft_sample_entry t))) (ascii ''stsd'') = Some (stsd_payload (ft_sample_entry t))"
    using find_atom_boxes [OF named_trees(1) s(3)] by (simp add: stbl_boxes_def)
qed

lemma ascii_text_ascii [simp]: "ascii_text (ascii s) = s"
proof -
  have "char_of (unat (of_char c :: u8)) = c" for c
  proof -
    have "unat (of_nat (of_char c) :: u8) = of_char c" by (simp only: unat_of_nat) simp
    then show ?thesis by (simp add: of_nat_of_char)
  qed
  then show ?thesis by (simp add: ascii_text_def ascii_def comp_def map_idI)
qed

lemma fourcc_ascii:
  assumes "length s = 4" "list_all (\<lambda>b. ascii_graphic b) (ascii s)"
  shows "fourcc_to_string (ascii s) = Some s"
proof -
  have g: "\<not> ascii_graphic 0x20" by (simp add: ascii_graphic_def)
  have "of_char CHR '' '' = (0x20 :: u8)" by simp
  then have "CHR '' '' \<notin> set s" using assms(2) g by (auto simp: ascii_def list_all_iff)
  moreover from this have "s = [] \<or> hd s \<noteq> CHR '' '' \<and> last s \<noteq> CHR '' ''"
    by (metis hd_in_set last_in_set)
  ultimately have "trim_by (\<lambda>c. c = CHR '' '') s = s" by (intro trim_by_id)
  then show ?thesis using assms by (auto simp: fourcc_to_string_def list_all_iff)
qed

lemma hdlr_read: "parse_hdlr (hdlr_payload k) = \<lparr>hi_kind = Some (case k of Fmp4Video \<Rightarrow> ''vide'' | Fmp4Audio \<Rightarrow> ''soun''), hi_name = None\<rparr>"
proof -
  have f: "fourcc_to_string (ascii ''vide'') = Some ''vide''" "fourcc_to_string (ascii ''soun'') = Some ''soun''"
    by (rule fourcc_ascii; simp add: ascii_graphic_def ascii_def)+
  have n: "parse_mp4_string [0] = None" by (simp add: parse_mp4_string_def trim_by_def)
  have g: "get_from (hdlr_payload k) 24 = Some [0]" "slice (hdlr_payload k) 8 12 =
      (case k of Fmp4Video \<Rightarrow> ascii ''vide'' | Fmp4Audio \<Rightarrow> ascii ''soun'')"
    by (cases k; simp add: get_from_def hdlr_payload_def fb_def full_head_def slice_def)+
  have "\<not> length (hdlr_payload k) < 12" by (cases k) (simp_all add: hdlr_payload_def)
  then show ?thesis by (simp add: parse_hdlr_def g f n split: fmp4_track_kind.split)
qed

lemma kind_read:
  assumes "length (boxes (trak_boxes_of t)) < 2 ^ 32"
  shows "parse_trak_kind (boxes (trak_boxes_of t)) = Some (reader_kind (ft_kind t))"
  by (cases "ft_kind t") (simp_all add: parse_trak_kind_def track_boxes_found [OF assms] hdlr_read handler_to_track_kind_def reader_kind_def)

lemma stsd_entry_read:
  assumes "length (stsd_payload e) < 2 ^ 32" "source_entry_ok e"
  shows "parse_stsd_entry (stsd_payload e) = Some \<lparr>se_codec_fourcc = fst (entry_box e), se_payload = snd (entry_box e)\<rparr>"
proof -
  obtain k p where e: "entry_box e = (k, p)" by (cases "entry_box e")
  have k: "length k = 4" using assms(2) e by (cases e) (auto simp: source_entry_ok_def)
  have l: "8 + length p < 2 ^ 32" using assms(1) k by (simp add: stsd_payload_def e)
  have b: "stsd_payload e = full_head 0 0 @ be_u32 1 @ be_u32 (8 + length p) @ k @ p"
    using l by (simp add: stsd_payload_def fb_def e sized_box_def)
  have "slice (stsd_payload e) 4 8 = be_u32 1" "slice (stsd_payload e) 8 12 = be_u32 (8 + length p)"
    "slice (stsd_payload e) 12 16 = k" "slice (stsd_payload e) 16 (8 + (8 + length p)) = p"
    using k by (simp_all add: b slice_def full_head_def)
  then show ?thesis using l k by (simp add: parse_stsd_entry_def b read_u32_def e full_head_def)
qed

text \<open>What the reader reports for a written track.\<close>

definition written_track_config :: "string \<Rightarrow> fmp4_sample_entry \<Rightarrow> mp4_codec_config" where
  "written_track_config track_id e =
     \<lparr>cfg_track_id = track_id, cfg_track_kind = (case entry_kind e of Fmp4Video \<Rightarrow> ''video'' | Fmp4Audio \<Rightarrow> ''audio''),
      cfg_codec = written_codec e, cfg_sample_entry = ascii_text (fst (entry_box e)),
      cfg_config_box = map_option (\<lambda>c. ascii_text (cc_box_type c)) (written_config e),
      cfg_codec_string = Option.bind (written_config e) cc_codec_string,
      cfg_nalu_length_size = Option.bind (written_config e) cc_nalu_length_size,
      cfg_description_hex = map_option (\<lambda>c. hex_string (cc_description c)) (written_config e),
      cfg_source_video_sample_entry =
        (if entry_kind e = Fmp4Video \<and> length (snd (entry_box e)) \<le> MAX_COPY_VIDEO_SAMPLE_ENTRY_BYTES
         then Some \<lparr>sve_codec_fourcc = fst (entry_box e), sve_payload = snd (entry_box e)\<rparr> else None)\<rparr>"

lemma known_name_read:
  assumes "f \<in> fourccs names" "list_all (\<lambda>s. length s = 4 \<and> list_all ascii_graphic (ascii s)) names"
  shows "fourcc_to_string f = Some (ascii_text f)"
proof -
  obtain s where "s \<in> set names" "f = ascii s" using assms(1) by (auto simp: fourccs_def)
  then show ?thesis using assms(2) by (simp add: list_all_iff [of _ names] fourcc_ascii)
qed

lemma entry_name_read:
  assumes "source_entry_ok e"
  shows "fourcc_to_string (fst (entry_box e)) = Some (ascii_text (fst (entry_box e)))"
proof (rule known_name_read)
  show "fst (entry_box e) \<in> fourccs [''avc1'', ''hvc1'', ''hev1'', ''dvh1'', ''dvhe'', ''mp4a'', ''ac-3'', ''ec-3'', ''fLaC'', ''alac'']"
    using assms by (cases e) (simp_all add: source_entry_ok_def fourccs_def, blast)
qed (simp add: ascii_graphic_def ascii_def)

lemma child_config_box_type: "child_config entry a = Some c \<Longrightarrow>
    cc_box_type c \<in> fourccs [''avcC'', ''hvcC'', ''esds'', ''dfLa'', ''alac'']"
  by (auto simp: child_config_def fourccs_def Let_def split: if_splits)

lemma first_config_box_type: "first_config entry as = Some c \<Longrightarrow>
    cc_box_type c \<in> fourccs [''avcC'', ''hvcC'', ''esds'', ''dfLa'', ''alac'']"
  by (induction as) (auto split: option.splits dest: child_config_box_type)

lemma box_name_read:
  assumes "written_config e = Some c"
  shows "fourcc_to_string (cc_box_type c) = Some (ascii_text (cc_box_type c))"
proof (rule known_name_read)
  show "cc_box_type c \<in> fourccs [''avcC'', ''hvcC'', ''esds'', ''dfLa'', ''alac'']"
  proof (cases e)
    case (SourceHevcEntry s w h)
    then show ?thesis using assms
      by (auto simp: codec_config_from_sample_entry_def bind_eq_Some_conv dest: first_config_box_type)
  qed (use assms in \<open>simp_all add: fourccs_def, auto\<close>)
qed (simp add: ascii_graphic_def ascii_def)

lemma length_source_payload:
  assumes "source_entry_ok e" "entry_kind e = Fmp4Video"
  shows "78 \<le> length (snd (entry_box e))"
  using assms by (cases e) (auto simp: source_entry_ok_def)

definition wf_track :: "fmp4_track \<Rightarrow> bool" where
  "wf_track t \<longleftrightarrow> wf_entry (ft_sample_entry t) \<and> ft_kind t = entry_kind (ft_sample_entry t)"

lemma trak_config_read:
  assumes len: "length (boxes (trak_boxes_of t)) < 2 ^ 32" and ok: "source_entry_ok (ft_sample_entry t)" and wf: "wf_track t"
  shows "parse_trak_codec_config (boxes (trak_boxes_of t)) (reader_kind (ft_kind t)) track_id =
    Some (written_track_config track_id (ft_sample_entry t))"
proof -
  let ?e = "ft_sample_entry t"
  note s = tree_sizes [OF len] and f = track_boxes_found [OF len]
  have k: "ft_kind t = entry_kind ?e" using wf by (simp add: wf_track_def)
  have p: "length (snd (entry_box ?e)) < 2 ^ 32"
    using s(4) by (cases "entry_box ?e") (simp add: stsd_payload_def sized_box_def)
  have c: "codec_config_from_sample_entry (reader_kind (entry_kind ?e))
      \<lparr>se_codec_fourcc = fst (entry_box ?e), se_payload = snd (entry_box ?e)\<rparr> = written_config ?e"
    using wf by (intro config_read p) (simp add: wf_track_def)
  have b: "Option.bind (written_config ?e) (\<lambda>c. fourcc_to_string (cc_box_type c)) =
      map_option (\<lambda>c. ascii_text (cc_box_type c)) (written_config ?e)"
    using box_name_read [of ?e] by (cases "written_config ?e") simp_all
  have v: "entry_kind ?e = Fmp4Video \<longrightarrow> 78 \<le> length (snd (entry_box ?e))" using length_source_payload [OF ok] by blast
  have "mp4_track_kind_name (reader_kind (entry_kind ?e)) = (case entry_kind ?e of Fmp4Video \<Rightarrow> ''video'' | Fmp4Audio \<Rightarrow> ''audio'')"
    "reader_kind (entry_kind ?e) = MtVideo \<longleftrightarrow> entry_kind ?e = Fmp4Video"
    by (cases "entry_kind ?e"; simp add: reader_kind_def mp4_track_kind_name_def)+
  then show ?thesis using v
    by (auto simp: parse_trak_codec_config_def f stsd_entry_read [OF s(4) ok] entry_name_read [OF ok] k c b codec_read [OF ok]
        written_track_config_def Let_def)
qed

lemma init_sizes:
  assumes "length (boxes (init_boxes ts)) < 2 ^ 32"
  shows "length (boxes (moov_boxes ts)) < 2 ^ 32"
    "t \<in> set ts \<Longrightarrow> length (boxes (trak_boxes_of t)) < 2 ^ 32"
proof -
  show m: "length (boxes (moov_boxes ts)) < 2 ^ 32" using assms by (simp add: init_boxes_def)
  assume "t \<in> set ts"
  then have "(ascii ''trak'', boxes (trak_boxes_of t)) \<in> set (moov_boxes ts)" by (auto simp: moov_boxes_def)
  from member_length [OF named_trees(5) this] m show "length (boxes (trak_boxes_of t)) < 2 ^ 32" by simp
qed

lemma traks_read:
  assumes "length (boxes (init_boxes ts)) < 2 ^ 32"
  shows "trak_boxes (boxes (init_boxes ts)) = map (\<lambda>t. boxes (trak_boxes_of t)) ts"
proof -
  have k: "ascii ''mvhd'' \<noteq> ascii ''trak''" "ascii ''mvex'' \<noteq> ascii ''trak''" "ascii ''ftyp'' \<noteq> ascii ''moov''"
    by (simp_all add: ascii_def)
  have m: "map at_payload (filter (\<lambda>a. at_kind a = ascii ''trak'') (atoms (boxes (moov_boxes ts)))) = map (\<lambda>t. boxes (trak_boxes_of t)) ts"
    unfolding atoms_boxes [OF named_trees(5) init_sizes(1) [OF assms]]
    by (simp add: moov_boxes_def k comp_def)
  show ?thesis unfolding trak_boxes_def atoms_boxes [OF named_trees(6) assms]
    by (simp add: init_boxes_def k m)
qed

section \<open>Properties\<close>

text \<open>C17: The MP4 reader finds every track of an init segment under its name, the letter of its kind and
  its position among the tracks of that kind, and reports the codec, the configuration record (as hex), the
  codec string, the NAL length size and the sample description that were written for it. For AAC the
  configuration is the AudioSpecificConfig inside the descriptors of \<open>esds\<close>, for FLAC the stream info inside
  \<open>dfLa\<close>.\<close>

theorem init_segment_describes_tracks:
  assumes "init_segment ts = Inr bs" "length bs < 2 ^ 32" "list_all wf_track ts" "i < length ts"
    and "name_tracks (0, 0, 0, 0) (map (\<lambda>t. Some (reader_kind (ft_kind t))) ts) ! i = Some track_id"
  shows "parse_codec_config bs (Some track_id) = Some (written_track_config track_id (ft_sample_entry (ts ! i)))"
proof -
  note b = init_segment_boxes [OF assms(1)]
  have len: "length (boxes (init_boxes ts)) < 2 ^ 32" using assms(2) b(1) by simp
  have tr: "trak_boxes bs = map (\<lambda>t. boxes (trak_boxes_of t)) ts" using traks_read [OF len] b(1) by simp
  have kinds: "map parse_trak_kind (trak_boxes bs) = map (\<lambda>t. Some (reader_kind (ft_kind t))) ts"
    unfolding tr using kind_read init_sizes(2) [OF len] by simp
  have t: "ts ! i \<in> set ts" using assms(4) by simp
  have "\<exists>kind. parse_trak_kind (trak_boxes bs ! i) = Some kind \<and>
      codec_config_loop (Some track_id) (0, 0, 0, 0) (trak_boxes bs) = parse_trak_codec_config (trak_boxes bs ! i) kind track_id"
  proof (rule codec_walk.walk_named)
    show "name_tracks (0, 0, 0, 0) (map parse_trak_kind (trak_boxes bs)) ! i = Some track_id"
      unfolding kinds by (rule assms(5))
    show "False \<or> None \<notin> set (map parse_trak_kind (take i (trak_boxes bs)))"
      unfolding take_map [symmetric] kinds by (auto dest: in_set_takeD)
  qed (use assms(4) tr in simp)
  moreover have "parse_trak_kind (trak_boxes bs ! i) = Some (reader_kind (ft_kind (ts ! i)))"
    using kinds assms(4) tr by (metis length_map nth_map)
  ultimately have "parse_codec_config bs (Some track_id) =
      parse_trak_codec_config (boxes (trak_boxes_of (ts ! i))) (reader_kind (ft_kind (ts ! i))) track_id"
    using assms(4) by (simp add: parse_codec_config_def tr)
  then show ?thesis
    using trak_config_read [OF init_sizes(2) [OF len t]] assms(3) b(2) t by (simp add: list_all_iff)
qed

definition demo_init_track :: "nat \<Rightarrow> fmp4_sample_entry \<Rightarrow> fmp4_track" where
  "demo_init_track n e = \<lparr>ft_id = n, ft_kind = entry_kind e, ft_timescale = 1000, ft_default_sample_duration = 0,
     ft_default_sample_size = 0, ft_default_sample_flags = 0, ft_sample_entry = e\<rparr>"

theorem init_segment_describes_tracks_witness:
  "let ts = [demo_init_track 1 (AvcEntry [1, 0x64, 0, 0x1f, 0xff] 640 360), demo_init_track 2 (AacEntry [0x12, 0x10] 2 44100)];
       bs = boxes (init_boxes ts); c = the (parse_codec_config bs (Some ''a0''))
   in init_segment ts = Inr bs \<and> cfg_codec c = ''aac'' \<and> cfg_codec_string c = Some ''mp4a.40.2'' \<and>
      cfg_description_hex c = Some ''1210''"
proof -
  let ?ts = "[demo_init_track 1 (AvcEntry [1, 0x64, 0, 0x1f, 0xff] 640 360), demo_init_track 2 (AacEntry [0x12, 0x10] 2 44100)]"
  obtain bs where i: "init_segment ?ts = Inr bs"
    by (simp add: init_segment_def init_segment_with_edits_def demo_init_track_def source_entry_ok_def)
  note b = init_segment_boxes(1) [OF i]
  have len: "length bs < 2 ^ 32"
    unfolding b by (simp add: init_boxes_def moov_boxes_def trak_boxes_of_def mdia_boxes_def minf_boxes_def stbl_boxes_def
        stsd_payload_def demo_init_track_def media_header_box_def dinf_box_def ftyp_payload_def mvhd_payload_def
        tkhd_payload_def trex_payload_def mdhd_payload_def hdlr_payload_def identity_matrix_def entry_size_def
        esds_payload_def decoder_config_body_def decoder_specific_def full_head_def length_concat sum_list_replicate)
  have "parse_codec_config bs (Some ''a0'') = Some (written_track_config ''a0'' (ft_sample_entry (?ts ! 1)))"
    by (rule init_segment_describes_tracks [OF i len])
      (simp_all add: wf_track_def demo_init_track_def reader_kind_def next_track_id_def show_nat.simps digit_char_def
        char_of_def bit_0)
  then show ?thesis unfolding Let_def using i b
    by (simp add: demo_init_track_def written_track_config_def show_nat.simps digit_char_def hex_string_def
        show_hex2_lower_def digit_char_lower_def char_of_def bit_0)
qed

end
