(* ===== verification/Probe.thy ===== *)
theory Probe
  imports MkvMeta InitRead
begin

text \<open>
  The probe document (\<open>probe/mod.rs\<close>): codec families, the tracks of an MP4 or Matroska source under their
  public names, chapters, and the capability summary. Frame rates, which are floating point, are left out of the
  video descriptor.
\<close>

section \<open>Codec families\<close>

datatype codec_family =
    H264 | Hevc | Av1 | Vp9 | Aac | Ac3 | Eac3 | Dts | TrueHd | Flac | Alac | Opus | Mp3
  | TextSubtitle | BitmapSubtitle | UnknownCodec

datatype track_kind = Video | Audio | Subtitle | UnknownKind

datatype subtitle_format = TextFormat | BitmapFormat | UnknownFormat

definition one_of :: "ustring \<Rightarrow> string list \<Rightarrow> bool" where
  "one_of s names = list_ex (\<lambda>name. s = lit name) names"

definition subtitle_format_for_codec :: "ustring \<Rightarrow> subtitle_format" where
  "subtitle_format_for_codec codec =
     (let c = ascii_lower (trim codec)
      in if one_of c [''subrip'', ''ass'', ''ssa'', ''mov_text'', ''webvtt'', ''text'', ''subviewer'', ''microdvd'']
           then TextFormat
         else if one_of c [''hdmv_pgs_subtitle'', ''dvd_subtitle'', ''dvb_subtitle'', ''dvb_teletext'', ''xsub'']
           then BitmapFormat
         else UnknownFormat)"

definition normalize_audio_codec :: "ustring \<Rightarrow> ustring" where
  "normalize_audio_codec codec =
     (let c = ascii_lower (trim codec) in if c = lit ''dca'' then lit ''dts'' else c)"

definition codec_family_of :: "ustring \<Rightarrow> codec_family" where
  "codec_family_of codec =
     (let c = normalize_audio_codec codec
      in if one_of c [''h264'', ''avc1'', ''avc3''] then H264
         else if one_of c [''hevc'', ''h265'', ''hvc1'', ''hev1'', ''dvh1'', ''dvhe''] then Hevc
         else if one_of c [''av1'', ''av01''] then Av1
         else if one_of c [''vp9'', ''vp09''] then Vp9
         else if one_of c [''aac'', ''mp4a''] then Aac
         else if one_of c [''ac3'', ''ac-3''] then Ac3
         else if one_of c [''eac3'', ''ec-3''] then Eac3
         else if one_of c [''dts''] then Dts
         else if one_of c [''truehd''] then TrueHd
         else if one_of c [''flac''] then Flac
         else if one_of c [''alac''] then Alac
         else if one_of c [''opus''] then Opus
         else if one_of c [''mp3'', ''.mp3''] then Mp3
         else if one_of c [''subrip'', ''ass'', ''ssa'', ''mov_text'', ''webvtt'', ''text'', ''subviewer'', ''microdvd'']
           then TextSubtitle
         else if one_of c [''hdmv_pgs_subtitle'', ''dvd_subtitle'', ''dvb_subtitle'', ''dvb_teletext'', ''xsub'']
           then BitmapSubtitle
         else UnknownCodec)"

section \<open>The probe document\<close>

datatype dynamic_range = RangeSdr | RangeHdr10 | RangeHdr10Plus | RangeHlg | RangeDolbyVision | RangeUnknown

datatype container_family = IsoBmff | MatroskaFamily | UnknownFamily

record container_descriptor =
  cd_family :: container_family
  cd_brand :: string
  cd_extension_hint :: "ustring option"

record media_source =
  src_path :: ustring
  src_size_bytes :: nat
  src_container :: container_descriptor

record codec_descriptor =
  cdc_id :: ustring
  cdc_family :: codec_family
  cdc_profile :: "ustring option"

record track_flags =
  fl_default :: bool
  fl_forced :: bool

record video_descriptor =
  vd_width :: "nat option"
  vd_height :: "nat option"
  vd_bitrate_bps :: "nat option"
  vd_pixel_format :: "string option"
  vd_dynamic_range :: dynamic_range

record audio_descriptor =
  ad_channels :: "nat option"
  ad_sample_rate :: "nat option"
  ad_bitrate_bps :: "nat option"
  ad_atmos :: bool
  ad_object_audio_candidate :: bool
  ad_lossless :: bool

record media_track =
  trk_id :: string
  trk_index :: nat
  trk_kind :: track_kind
  trk_codec :: codec_descriptor
  trk_duration_ms :: "nat option"
  trk_language :: "ustring option"
  trk_title :: "ustring option"
  trk_flags :: track_flags
  trk_video :: "video_descriptor option"
  trk_audio :: "audio_descriptor option"
  trk_subtitle :: "subtitle_format option"

record probe_chapter =
  pc_id :: string
  pc_start_ms :: nat
  pc_end_ms :: "nat option"
  pc_title :: "ustring option"
  pc_language :: "ustring option"

record media_capabilities =
  cap_remux_without_decode :: bool
  cap_segment_without_decode :: bool
  cap_requires_video_decode :: bool
  cap_requires_audio_decode :: bool
  cap_unsupported_track_ids :: "string list"

record media_probe =
  pr_schema_version :: nat
  pr_source :: media_source
  pr_duration_ms :: "nat option"
  pr_tracks :: "media_track list"
  pr_chapters :: "probe_chapter list"
  pr_attachment_count :: nat
  pr_capabilities :: media_capabilities

section \<open>Tracks\<close>

record track_shape =
  sh_width :: "nat option"
  sh_height :: "nat option"
  sh_bitrate_bps :: "nat option"
  sh_dynamic_range :: dynamic_range
  sh_pixel_format :: "string option"
  sh_channels :: "nat option"
  sh_sample_rate :: "nat option"
  sh_atmos :: bool
  sh_object_audio_candidate :: bool

record track_input =
  ti_id :: string
  ti_index :: nat
  ti_kind :: track_kind
  ti_codec :: ustring
  ti_duration_ms :: "nat option"
  ti_language :: "ustring option"
  ti_title :: "ustring option"
  ti_flags :: track_flags
  ti_shape :: track_shape

definition then_some :: "bool \<Rightarrow> 'a \<Rightarrow> 'a option" where
  "then_some b x = (if b then Some x else None)"

definition media_track_of :: "track_input \<Rightarrow> media_track" where
  "media_track_of t =
     (let family = codec_family_of (ti_codec t); shape = ti_shape t
      in \<lparr>trk_id = ti_id t, trk_index = ti_index t, trk_kind = ti_kind t,
          trk_codec = \<lparr>cdc_id = ti_codec t, cdc_family = family, cdc_profile = None\<rparr>,
          trk_duration_ms = ti_duration_ms t, trk_language = ti_language t, trk_title = ti_title t,
          trk_flags = ti_flags t,
          trk_video = then_some (ti_kind t = Video)
            \<lparr>vd_width = sh_width shape, vd_height = sh_height shape, vd_bitrate_bps = sh_bitrate_bps shape,
             vd_pixel_format = sh_pixel_format shape, vd_dynamic_range = sh_dynamic_range shape\<rparr>,
          trk_audio = then_some (ti_kind t = Audio)
            \<lparr>ad_channels = sh_channels shape, ad_sample_rate = sh_sample_rate shape,
             ad_bitrate_bps = sh_bitrate_bps shape, ad_atmos = sh_atmos shape,
             ad_object_audio_candidate = sh_object_audio_candidate shape,
             ad_lossless = (family \<in> {TrueHd, Flac, Alac})\<rparr>,
          trk_subtitle = then_some (ti_kind t = Subtitle) (subtitle_format_for_codec (ti_codec t))\<rparr>)"

fun dynamic_range_from_mp4 :: "mp4_dynamic_range \<Rightarrow> dynamic_range" where
  "dynamic_range_from_mp4 Sdr = RangeSdr"
| "dynamic_range_from_mp4 Hdr10 = RangeHdr10"
| "dynamic_range_from_mp4 Hlg = RangeHlg"
| "dynamic_range_from_mp4 DolbyVision = RangeDolbyVision"
| "dynamic_range_from_mp4 UnknownRange = RangeUnknown"

text \<open>The three counters of a listing; a track of unknown kind is named after its index.\<close>

type_synonym listing_counters = "nat \<times> nat \<times> nat"

definition probe_next_track_id :: "track_kind \<Rightarrow> listing_counters \<Rightarrow> nat \<Rightarrow> string \<times> listing_counters" where
  "probe_next_track_id kind = (\<lambda>(v, a, s) fallback.
     case kind of
       Video \<Rightarrow> (''v'' @ show_nat v, (v + 1, a, s))
     | Audio \<Rightarrow> (''a'' @ show_nat a, (v, a + 1, s))
     | Subtitle \<Rightarrow> (''s'' @ show_nat s, (v, a, s + 1))
     | UnknownKind \<Rightarrow> (''x'' @ show_nat fallback, (v, a, s)))"

fun kind_from_mp4 :: "mp4_track_kind \<Rightarrow> track_kind" where
  "kind_from_mp4 MtVideo = Video"
| "kind_from_mp4 MtAudio = Audio"
| "kind_from_mp4 MtSubtitle = Subtitle"
| "kind_from_mp4 MtUnknown = UnknownKind"

fun mp4_track_loop :: "listing_counters \<Rightarrow> mp4_track list \<Rightarrow> media_track list" where
  "mp4_track_loop cs [] = []"
| "mp4_track_loop cs (track # tracks) =
     (let kind = kind_from_mp4 (m4_kind track);
          (track_id, cs') = probe_next_track_id kind cs (m4_index track)
      in media_track_of
           \<lparr>ti_id = track_id, ti_index = m4_index track, ti_kind = kind, ti_codec = lit (m4_codec track),
            ti_duration_ms = m4_duration_ms track, ti_language = map_option lit (m4_language track),
            ti_title = m4_title track, ti_flags = \<lparr>fl_default = m4_default track, fl_forced = m4_forced track\<rparr>,
            ti_shape = \<lparr>sh_width = m4_width track, sh_height = m4_height track, sh_bitrate_bps = m4_bitrate_bps track,
              sh_dynamic_range = dynamic_range_from_mp4 (m4_dynamic_range track),
              sh_pixel_format = m4_pixel_format track, sh_channels = m4_channels track,
              sh_sample_rate = m4_sample_rate track, sh_atmos = m4_atmos track,
              sh_object_audio_candidate = m4_atmos track\<rparr>\<rparr> # mp4_track_loop cs' tracks)"

definition tracks_from_mp4 :: "mp4_basic_metadata \<Rightarrow> media_track list" where
  "tracks_from_mp4 meta = mp4_track_loop (0, 0, 0) (bm_tracks meta)"

fun kind_from_matroska :: "mkv_track_kind \<Rightarrow> track_kind" where
  "kind_from_matroska MkvVideo = Video"
| "kind_from_matroska MkvAudio = Audio"
| "kind_from_matroska MkvSubtitle = Subtitle"
| "kind_from_matroska MkvUnknown = UnknownKind"

definition dynamic_range_from_transfer :: "nat option \<Rightarrow> dynamic_range" where
  "dynamic_range_from_transfer transfer =
     (if transfer = Some 16 then RangeHdr10 else if transfer = Some 18 then RangeHlg else RangeUnknown)"

fun matroska_track_loop :: "nat option \<Rightarrow> listing_counters \<Rightarrow> matroska_track list \<Rightarrow> media_track list" where
  "matroska_track_loop duration_ms cs [] = []"
| "matroska_track_loop duration_ms cs (track # tracks) =
     (let kind = kind_from_matroska (mt_kind track);
          (track_id, cs') = probe_next_track_id kind cs (mt_index track)
      in media_track_of
           \<lparr>ti_id = track_id, ti_index = mt_index track, ti_kind = kind, ti_codec = mt_codec track,
            ti_duration_ms = duration_ms, ti_language = mt_language track, ti_title = mt_name track,
            ti_flags = \<lparr>fl_default = mt_default track, fl_forced = mt_forced track\<rparr>,
            ti_shape = \<lparr>sh_width = mt_width track, sh_height = mt_height track, sh_bitrate_bps = None,
              sh_dynamic_range = dynamic_range_from_transfer (mt_transfer_characteristics track),
              sh_pixel_format = mt_pixel_format track, sh_channels = mt_channels track,
              sh_sample_rate = mt_sample_rate track, sh_atmos = mt_atmos track,
              sh_object_audio_candidate = mt_object_audio_candidate track\<rparr>\<rparr>
         # matroska_track_loop duration_ms cs' tracks)"

definition tracks_from_matroska :: "matroska_basic_metadata \<Rightarrow> media_track list" where
  "tracks_from_matroska meta = matroska_track_loop (mm_duration_ms meta) (0, 0, 0) (mm_tracks meta)"

section \<open>Capabilities\<close>

definition video_can_copy :: "codec_family \<Rightarrow> bool" where
  "video_can_copy family \<longleftrightarrow> family \<in> {H264, Hevc, Av1, Vp9}"

definition audio_can_copy :: "codec_family \<Rightarrow> bool" where
  "audio_can_copy family \<longleftrightarrow> family \<in> {Aac, Ac3, Eac3, Dts, TrueHd, Flac, Alac, Opus, Mp3}"

abbreviation trk_family :: "media_track \<Rightarrow> codec_family" where
  "trk_family t \<equiv> cdc_family (trk_codec t)"

definition infer_capabilities :: "media_track list \<Rightarrow> media_capabilities" where
  "infer_capabilities tracks =
     (let unsupported = map trk_id (filter (\<lambda>t. trk_family t = UnknownCodec) tracks);
          video = list_ex (\<lambda>t. trk_kind t = Video \<and> \<not> video_can_copy (trk_family t)) tracks;
          audio = list_ex (\<lambda>t. trk_kind t = Audio \<and> \<not> audio_can_copy (trk_family t)) tracks
      in \<lparr>cap_remux_without_decode = (\<not> video \<and> \<not> audio), cap_segment_without_decode = (\<not> video \<and> \<not> audio),
          cap_requires_video_decode = video, cap_requires_audio_decode = audio,
          cap_unsupported_track_ids = unsupported\<rparr>)"

section \<open>The probe\<close>

definition chapters_from_mp4 :: "mp4_chapter list \<Rightarrow> probe_chapter list" where
  "chapters_from_mp4 = map (\<lambda>c. \<lparr>pc_id = ch_id c, pc_start_ms = ch_start_ms c, pc_end_ms = ch_end_ms c,
     pc_title = ch_title c, pc_language = map_option lit (ch_language c)\<rparr>)"

definition chapters_from_matroska :: "matroska_chapter list \<Rightarrow> probe_chapter list" where
  "chapters_from_matroska = map (\<lambda>c. \<lparr>pc_id = mc_id c, pc_start_ms = mc_start_ms c, pc_end_ms = mc_end_ms c,
     pc_title = mc_title c, pc_language = mc_language c\<rparr>)"

text \<open>\<open>Path::extension\<close> on a Unix path: what follows the last dot of the last component, unless that
  component is \<open>..\<close> or has its only dot in front.\<close>

fun path_components :: "ustring \<Rightarrow> ustring \<Rightarrow> ustring list" where
  "path_components acc [] = [acc]"
| "path_components acc (c # cs) =
     (if [c] = lit ''/'' then acc # path_components [] cs else path_components (acc @ [c]) cs)"

definition path_extension :: "ustring \<Rightarrow> ustring option" where
  "path_extension path =
     (case rev (filter (\<lambda>c. c \<noteq> [] \<and> c \<noteq> lit ''.'') (path_components [] path)) of
        [] \<Rightarrow> None
      | name # _ \<Rightarrow>
          let ext = rev (takeWhile (\<lambda>c. [c] \<noteq> lit ''.'') (rev name))
          in if name = lit ''..'' \<or> length name \<le> Suc (length ext) then None else Some ext)"

definition container_descriptor_of :: "container_kind \<Rightarrow> ustring \<Rightarrow> container_descriptor" where
  "container_descriptor_of container path =
     \<lparr>cd_family = (case container of Mp4 \<Rightarrow> IsoBmff | Mov \<Rightarrow> IsoBmff | Matroska \<Rightarrow> MatroskaFamily
         | Webm \<Rightarrow> MatroskaFamily | Unknown \<Rightarrow> UnknownFamily),
       cd_brand = (case container of Mp4 \<Rightarrow> ''mp4'' | Mov \<Rightarrow> ''mov'' | Matroska \<Rightarrow> ''matroska'' | Webm \<Rightarrow> ''webm''
         | Unknown \<Rightarrow> ''unknown''),
       cd_extension_hint = map_option ascii_lower (path_extension path)\<rparr>"

definition probe_metadata :: "ustring \<Rightarrow> nat \<Rightarrow> bytes \<Rightarrow> media_probe" where
  "probe_metadata path size_bytes bs =
     (let container = sniff_container (take 4096 bs);
          (duration_ms, tracks, chapters, attachment_count) =
            (if container \<in> {Mp4, Mov} then
               let meta = parse_basic_metadata bs
               in (bm_duration_ms meta, tracks_from_mp4 meta, chapters_from_mp4 (bm_chapters meta), 0)
             else if container \<in> {Matroska, Webm} then
               let meta = mkv_basic_metadata bs
               in (mm_duration_ms meta, tracks_from_matroska meta, chapters_from_matroska (mm_chapters meta),
                   mm_attachment_count meta)
             else (None, [], [], 0))
      in \<lparr>pr_schema_version = 1,
          pr_source = \<lparr>src_path = path, src_size_bytes = size_bytes, src_container = container_descriptor_of container path\<rparr>,
          pr_duration_ms = duration_ms, pr_tracks = tracks, pr_chapters = chapters,
          pr_attachment_count = attachment_count, pr_capabilities = infer_capabilities tracks\<rparr>)"

section \<open>Public names\<close>

text \<open>The names a listing gives to tracks of the given kinds and indexes.\<close>

fun listing_names :: "listing_counters \<Rightarrow> (track_kind \<times> nat) list \<Rightarrow> string list" where
  "listing_names cs [] = []"
| "listing_names cs ((kind, index) # ks) =
     (let (track_id, cs') = probe_next_track_id kind cs index in track_id # listing_names cs' ks)"

fun listing_counter :: "track_kind \<Rightarrow> listing_counters \<Rightarrow> nat" where
  "listing_counter Video (v, a, s) = v"
| "listing_counter Audio (v, a, s) = a"
| "listing_counter Subtitle (v, a, s) = s"
| "listing_counter UnknownKind (v, a, s) = 0"

definition listing_letter :: "track_kind \<Rightarrow> char" where
  "listing_letter kind = (case kind of Video \<Rightarrow> CHR ''v'' | Audio \<Rightarrow> CHR ''a'' | Subtitle \<Rightarrow> CHR ''s''
     | UnknownKind \<Rightarrow> CHR ''x'')"

lemma listing_letter_inj [simp]: "listing_letter j = listing_letter k \<longleftrightarrow> j = k"
  by (cases j; cases k) (simp_all add: listing_letter_def)

definition listing_number :: "track_kind \<Rightarrow> listing_counters \<Rightarrow> nat \<Rightarrow> nat" where
  "listing_number kind cs index = (if kind = UnknownKind then index else listing_counter kind cs)"

lemma probe_next_track_id_eq:
  "\<exists>cs'. probe_next_track_id k cs i = (listing_letter k # show_nat (listing_number k cs i), cs') \<and>
    (k \<noteq> UnknownKind \<longrightarrow> listing_counter k cs' = listing_counter k cs + 1) \<and>
    (\<forall>j. listing_counter j cs \<le> listing_counter j cs')"
proof -
  obtain v a s where cs: "cs = (v, a, s)" by (cases cs) auto
  have "listing_counter j cs \<le> listing_counter j (snd (probe_next_track_id k cs i))" for j
    by (cases j; cases k) (simp_all add: cs probe_next_track_id_def)
  then show ?thesis
    by (cases k) (auto simp: cs probe_next_track_id_def listing_letter_def listing_number_def)
qed

lemma listing_names_form:
  "track_id \<in> set (listing_names cs ks) \<Longrightarrow>
    \<exists>k n. track_id = listing_letter k # show_nat n \<and> listing_counter k cs \<le> n \<and>
      (k = UnknownKind \<longrightarrow> n \<in> snd ` set ks)"
proof (induction ks arbitrary: cs)
  case (Cons ki ks)
  obtain k i where ki: "ki = (k, i)" by (cases ki)
  obtain cs' where s: "probe_next_track_id k cs i = (listing_letter k # show_nat (listing_number k cs i), cs')"
    and le: "\<And>j. listing_counter j cs \<le> listing_counter j cs'"
    using probe_next_track_id_eq [of k cs i] by auto
  have "track_id = listing_letter k # show_nat (listing_number k cs i) \<or> track_id \<in> set (listing_names cs' ks)"
    using Cons.prems by (simp add: ki s)
  then show ?case
  proof
    assume t: "track_id = listing_letter k # show_nat (listing_number k cs i)"
    have "listing_counter k cs \<le> listing_number k cs i" by (cases cs) (simp add: listing_number_def)
    moreover have "k = UnknownKind \<longrightarrow> listing_number k cs i \<in> snd ` set (ki # ks)" by (simp add: ki listing_number_def)
    ultimately show ?thesis using t by blast
  next
    assume "track_id \<in> set (listing_names cs' ks)"
    from Cons.IH [OF this] obtain j n where j: "track_id = listing_letter j # show_nat n" "listing_counter j cs' \<le> n"
      "j = UnknownKind \<longrightarrow> n \<in> snd ` set ks" by (elim exE conjE) (rule that)
    have "listing_counter j cs \<le> n" using j(2) le [of j] by linarith
    moreover have "j = UnknownKind \<longrightarrow> n \<in> snd ` set (ki # ks)" using j(3) by auto
    ultimately show ?thesis using j(1) by blast
  qed
qed simp

lemma listing_names_distinct: "distinct (map snd ks) \<Longrightarrow> distinct (listing_names cs ks)"
proof (induction ks arbitrary: cs)
  case (Cons ki ks)
  obtain k i where ki: "ki = (k, i)" by (cases ki)
  obtain cs' where s: "probe_next_track_id k cs i = (listing_letter k # show_nat (listing_number k cs i), cs')"
    and step: "k \<noteq> UnknownKind \<longrightarrow> listing_counter k cs' = listing_counter k cs + 1"
    using probe_next_track_id_eq [of k cs i] by auto
  have "listing_letter k # show_nat (listing_number k cs i) \<notin> set (listing_names cs' ks)"
  proof
    assume "listing_letter k # show_nat (listing_number k cs i) \<in> set (listing_names cs' ks)"
    then obtain j n where j: "listing_letter k # show_nat (listing_number k cs i) = listing_letter j # show_nat n"
      "listing_counter j cs' \<le> n" "j = UnknownKind \<longrightarrow> n \<in> snd ` set ks" using listing_names_form by blast
    then have "k = j" "n = listing_number k cs i" by (auto simp: show_nat_inj)
    then show False using j(2,3) step Cons.prems by (cases "k = UnknownKind") (auto simp: ki listing_number_def)
  qed
  then show ?case using Cons by (simp add: ki s)
qed simp

lemma media_track_of_id [simp]: "trk_id (media_track_of t) = ti_id t"
  by (simp add: media_track_of_def Let_def)

lemma mp4_listing:
  "map trk_id (mp4_track_loop cs ts) = listing_names cs (map (\<lambda>t. (kind_from_mp4 (m4_kind t), m4_index t)) ts)"
  by (induction ts arbitrary: cs) (simp_all add: Let_def split: prod.split)

lemma matroska_listing:
  "map trk_id (matroska_track_loop d cs ts) =
    listing_names cs (map (\<lambda>t. (kind_from_matroska (mt_kind t), mt_index t)) ts)"
  by (induction ts arbitrary: cs) (simp_all add: Let_def split: prod.split)

text \<open>Both readers number the tracks they keep from zero.\<close>

lemma foldl_invariant: "P s \<Longrightarrow> (\<And>s x. P s \<Longrightarrow> P (f s x)) \<Longrightarrow> P (foldl f s xs)"
  by (induction xs arbitrary: s) simp_all

definition mp4_indexed :: "mp4_basic_metadata \<Rightarrow> bool" where
  "mp4_indexed meta \<longleftrightarrow> map m4_index (bm_tracks meta) = [0..<length (bm_tracks meta)]"

lemma parse_trak_index: "parse_trak payload i = Some t \<Longrightarrow> m4_index t = i"
  by (auto simp: parse_trak_def Let_def bind_eq_Some_conv case_prod_beta)

lemma moov_step_indexed: "mp4_indexed meta \<Longrightarrow> mp4_indexed (moov_step meta a)"
  by (auto simp: moov_step_def mp4_indexed_def Let_def dest: parse_trak_index split: option.split)

lemma parse_basic_metadata_indexed: "mp4_indexed (parse_basic_metadata bs)"
proof -
  have moov: "mp4_indexed meta \<Longrightarrow> mp4_indexed (parse_moov p meta)" for p meta
    unfolding parse_moov_def by (rule foldl_invariant) (simp_all add: moov_step_indexed)
  have ftyp: "mp4_indexed meta \<Longrightarrow> mp4_indexed (parse_ftyp p meta)" for p meta
    by (simp add: parse_ftyp_def mp4_indexed_def)
  show ?thesis unfolding parse_basic_metadata_def
    by (rule foldl_invariant) (auto simp: mp4_indexed_def [of "\<lparr>bm_major_brand = _, bm_compatible_brands = _,
      bm_duration_ms = _, bm_tracks = _, bm_chapters = _\<rparr>"] moov ftyp)
qed

definition mkv_indexed :: "matroska_basic_metadata \<Rightarrow> bool" where
  "mkv_indexed meta \<longleftrightarrow> map mt_index (mm_tracks meta) = [0..<length (mm_tracks meta)]"

lemma parse_track_entry_index: "parse_track_entry payload i = Some t \<Longrightarrow> mt_index t = i"
  by (auto simp: parse_track_entry_def Let_def)

lemma parse_tracks_indexed: "mkv_indexed meta \<Longrightarrow> mkv_indexed (parse_tracks p meta)"
  unfolding parse_tracks_def
  by (rule foldl_invariant) (auto simp: mkv_indexed_def dest: parse_track_entry_index split: option.split)

lemma segment_loop_indexed: "mkv_indexed meta \<Longrightarrow> mkv_indexed (segment_loop meta es)"
proof (induction es arbitrary: meta)
  case (Cons e es)
  have info: "mm_tracks (parse_info p meta) = mm_tracks meta" for p
    by (simp add: parse_info_def Let_def split: option.split prod.split)
  have chapters: "mm_tracks (parse_chapters p meta) = mm_tracks meta" for p
    by (simp add: parse_chapters_def Let_def)
  show ?case using Cons parse_tracks_indexed [OF Cons.prems]
    by (simp add: Let_def mkv_indexed_def info chapters)
qed simp

lemma mkv_basic_metadata_indexed: "mkv_indexed (mkv_basic_metadata bs)"
  by (simp add: mkv_basic_metadata_def Let_def segment_loop_indexed mkv_indexed_def [of "\<lparr>mm_duration_ms = _,
    mm_tracks = _, mm_chapters = _, mm_attachment_count = _\<rparr>"] split: option.split)

lemma probe_ids_distinct: "distinct (map trk_id (pr_tracks (probe_metadata path size_bytes bs)))"
proof -
  have mp4: "distinct (map trk_id (tracks_from_mp4 (parse_basic_metadata bs)))"
    using parse_basic_metadata_indexed [of bs]
    by (simp add: tracks_from_mp4_def mp4_listing mp4_indexed_def comp_def listing_names_distinct)
  have mkv: "distinct (map trk_id (tracks_from_matroska (mkv_basic_metadata bs)))"
    using mkv_basic_metadata_indexed [of bs]
    by (simp add: tracks_from_matroska_def matroska_listing mkv_indexed_def comp_def listing_names_distinct)
  show ?thesis using mp4 mkv by (simp add: probe_metadata_def Let_def)
qed

text \<open>C18: Whatever the bytes of the source, the probe gives its tracks pairwise distinct names.\<close>

theorem probe_track_ids_distinct: "distinct (map trk_id (pr_tracks (probe_metadata path size_bytes bs)))"
  by (rule probe_ids_distinct)

section \<open>The names the readers answer to\<close>

lemma reader_step:
  "\<exists>cs' x' r. probe_next_track_id (kind_from_matroska k) (v, a, s) i =
      (listing_letter (kind_from_matroska k) # show_nat (listing_number (kind_from_matroska k) (v, a, s) i), cs') \<and>
    mkv_next_track_id k (v, a, s, x) = (listing_letter (kind_from_matroska k) # show_nat r, (fst cs', fst (snd cs'), snd (snd cs'), x')) \<and>
    (k \<noteq> MkvUnknown \<longrightarrow> r = listing_number (kind_from_matroska k) (v, a, s) i \<and> r < listing_counter (kind_from_matroska k) cs')"
  by (cases k) (auto simp: probe_next_track_id_def mkv_next_track_id_def listing_letter_def listing_number_def)

lemma kind_from_matroska_unknown [simp]: "kind_from_matroska k = UnknownKind \<longleftrightarrow> k = MkvUnknown"
  by (cases k) simp_all

lemma select_by_listing_name:
  assumes "i < length ts" "mt_kind (ts ! i) \<noteq> MkvUnknown"
  shows "select_loop (Some (map trk_id (matroska_track_loop d (v, a, s) ts) ! i)) (v, a, s, x) ts =
    Some \<lparr>sct_id = map trk_id (matroska_track_loop d (v, a, s) ts) ! i, sct_number = mt_number (ts ! i),
      sct_kind = mt_kind (ts ! i), sct_frame_duration = track_frame_duration (ts ! i)\<rparr>"
  using assms
proof (induction ts arbitrary: i v a s x)
  case (Cons t ts)
  let ?k = "kind_from_matroska (mt_kind t)"
  obtain cs' x' r where step: "probe_next_track_id ?k (v, a, s) (mt_index t) = (listing_letter ?k # show_nat (listing_number ?k (v, a, s) (mt_index t)), cs')"
    "mkv_next_track_id (mt_kind t) (v, a, s, x) = (listing_letter ?k # show_nat r, fst cs', fst (snd cs'), snd (snd cs'), x')"
    "mt_kind t \<noteq> MkvUnknown \<longrightarrow> r = listing_number ?k (v, a, s) (mt_index t) \<and> r < listing_counter ?k cs'"
    using reader_step [of "mt_kind t" v a s "mt_index t" x] by blast
  obtain v' a' s' where cs': "cs' = (v', a', s')" by (cases cs')
  have
    p: "probe_next_track_id ?k (v, a, s) (mt_index t) = (listing_letter ?k # show_nat (listing_number ?k (v, a, s) (mt_index t)), v', a', s')"
    and m: "mkv_next_track_id (mt_kind t) (v, a, s, x) = (listing_letter ?k # show_nat r, v', a', s', x')"
    and r: "mt_kind t \<noteq> MkvUnknown \<longrightarrow> r = listing_number ?k (v, a, s) (mt_index t) \<and> r < listing_counter ?k (v', a', s')"
    using step unfolding cs' by (simp_all only: fst_conv snd_conv)
  have nm: "map trk_id (matroska_track_loop d (v, a, s) (t # ts)) =
      (listing_letter ?k # show_nat (listing_number ?k (v, a, s) (mt_index t))) # map trk_id (matroska_track_loop d (v', a', s') ts)"
    by (simp add: p Let_def)
  show ?case
  proof (cases i)
    case 0
    then show ?thesis unfolding nm using Cons.prems r by (simp add: m)
  next
    case (Suc j)
    let ?n = "map trk_id (matroska_track_loop d (v', a', s') ts) ! j"
    have j: "j < length ts" "mt_kind (ts ! j) \<noteq> MkvUnknown" using Cons.prems Suc by simp_all
    have "?n = listing_names (v', a', s') (map (\<lambda>t. (kind_from_matroska (mt_kind t), mt_index t)) ts) ! j"
      by (simp add: matroska_listing)
    moreover have "\<exists>n. listing_names cs (map (\<lambda>t. (kind_from_matroska (mt_kind t), mt_index t)) ts) ! j =
        listing_letter (kind_from_matroska (mt_kind (ts ! j))) # show_nat n \<and>
        listing_counter (kind_from_matroska (mt_kind (ts ! j))) cs \<le> n" if "j < length ts" "mt_kind (ts ! j) \<noteq> MkvUnknown" for cs j ts
      using that
    proof (induction ts arbitrary: cs j)
      case (Cons t ts)
      obtain cs' where e: "probe_next_track_id (kind_from_matroska (mt_kind t)) cs (mt_index t) =
          (listing_letter (kind_from_matroska (mt_kind t)) # show_nat (listing_number (kind_from_matroska (mt_kind t)) cs (mt_index t)), cs')"
        "\<And>j. listing_counter j cs \<le> listing_counter j cs'" using probe_next_track_id_eq by blast
      show ?case
      proof (cases j)
        case 0
        then show ?thesis using Cons.prems by (auto simp: e listing_number_def)
      next
        case (Suc l)
        then show ?thesis using Cons.IH [of l cs'] Cons.prems e(2) order_trans by (fastforce simp: e(1))
      qed
    qed simp
    ultimately obtain n where n: "?n = listing_letter (kind_from_matroska (mt_kind (ts ! j))) # show_nat n"
      "listing_counter (kind_from_matroska (mt_kind (ts ! j))) (v', a', s') \<le> n" using j by metis
    have "listing_letter ?k # show_nat r \<noteq> ?n"
    proof
      assume "listing_letter ?k # show_nat r = ?n"
      then have "?k = kind_from_matroska (mt_kind (ts ! j))" "r = n" by (simp_all add: n(1) show_nat_inj)
      then show False using n(2) r j(2) by (metis kind_from_matroska_unknown not_le)
    qed
    moreover have "map trk_id (matroska_track_loop d (v, a, s) (t # ts)) ! i = ?n"
      unfolding nm by (simp add: Suc)
    ultimately show ?thesis using Cons.IH [OF j, of v' a' s' x'] by (simp add: m Suc del: matroska_track_loop.simps)
  qed
qed simp

text \<open>C19: The name the probe gives a Matroska track of known kind selects exactly that track in the packet
  reader and the chunk planner: its number, its kind, its frame duration.\<close>

theorem matroska_probe_name_selects_track:
  assumes "i < length (mm_tracks meta)" "mt_kind (mm_tracks meta ! i) \<noteq> MkvUnknown"
  shows "select_chunk_track (mm_tracks meta) (Some (trk_id (tracks_from_matroska meta ! i))) =
    Some \<lparr>sct_id = trk_id (tracks_from_matroska meta ! i), sct_number = mt_number (mm_tracks meta ! i),
      sct_kind = mt_kind (mm_tracks meta ! i), sct_frame_duration = track_frame_duration (mm_tracks meta ! i)\<rparr>"
proof -
  have "length (matroska_track_loop d cs ts) = length ts" for d cs ts
    by (induction ts arbitrary: cs) (simp_all add: Let_def split: prod.split)
  then show ?thesis
    using select_by_listing_name [OF assms, of "mm_duration_ms meta" 0 0 0 0] assms(1)
    by (simp add: tracks_from_matroska_def select_chunk_track_def)
qed

definition demo_mkv_track :: "nat \<Rightarrow> mkv_track_kind \<Rightarrow> matroska_track" where
  "demo_mkv_track i k =
     \<lparr>mt_index = i, mt_number = i + 1, mt_kind = k, mt_codec = lit ''aac'', mt_language = None, mt_name = None,
      mt_default = False, mt_forced = False, mt_width = None, mt_height = None, mt_pixel_format = None,
      mt_transfer_characteristics = None, mt_channels = None, mt_sample_rate = None, mt_atmos = False,
      mt_object_audio_candidate = False, mt_default_duration_ns = None, mt_codec_private = None\<rparr>"

theorem matroska_probe_name_selects_track_witness:
  "let ts = [demo_mkv_track 0 MkvVideo, demo_mkv_track 1 MkvUnknown, demo_mkv_track 2 MkvAudio];
       meta = \<lparr>mm_duration_ms = None, mm_tracks = ts, mm_chapters = [], mm_attachment_count = 0\<rparr>
   in select_chunk_track ts (Some (trk_id (tracks_from_matroska meta ! 2))) =
    Some \<lparr>sct_id = trk_id (tracks_from_matroska meta ! 2), sct_number = 3,
      sct_kind = MkvAudio, sct_frame_duration = track_frame_duration (demo_mkv_track 2 MkvAudio)\<rparr>"
  using matroska_probe_name_selects_track [of 2 "\<lparr>mm_duration_ms = None, mm_tracks = [demo_mkv_track 0 MkvVideo,
      demo_mkv_track 1 MkvUnknown, demo_mkv_track 2 MkvAudio], mm_chapters = [], mm_attachment_count = 0\<rparr>"]
  by (simp add: demo_mkv_track_def)

text \<open>A track of unknown kind does not keep its name: the probe names it after its index, the readers after the
  number of unknown tracks before it.\<close>

lemma unknown_track_named_apart:
  "let ts = [demo_mkv_track 0 MkvVideo, demo_mkv_track 1 MkvUnknown];
       meta = \<lparr>mm_duration_ms = None, mm_tracks = ts, mm_chapters = [], mm_attachment_count = 0\<rparr>
   in trk_id (tracks_from_matroska meta ! 1) = ''x1'' \<and> select_chunk_track ts (Some ''x1'') = None \<and>
      map_option sct_number (select_chunk_track ts (Some ''x0'')) = Some 2"
  by (simp add: demo_mkv_track_def tracks_from_matroska_def select_chunk_track_def probe_next_track_id_def
      mkv_next_track_id_def show_nat.simps digit_char_def char_of_def bit_0 Let_def)

lemma parse_trak_at: "parse_trak payload i = map_option (\<lambda>t. t\<lparr>m4_index := i\<rparr>) (parse_trak payload 0)"
  by (simp add: parse_trak_def Let_def case_prod_beta map_option_bind comp_def)

definition trak_listed :: "bytes \<Rightarrow> bool" where
  "trak_listed trak \<longleftrightarrow> (case (parse_trak_kind trak, parse_trak trak 0) of
     (Some k, Some t) \<Rightarrow> m4_kind t = k \<and> k \<noteq> MtUnknown
   | _ \<Rightarrow> False)"

lemma moov_tracks:
  assumes "\<forall>a \<in> set as. at_kind a = ascii ''trak'' \<longrightarrow> trak_listed (at_payload a)"
  shows "\<exists>ts. bm_tracks (foldl moov_step meta as) = bm_tracks meta @ ts \<and>
    map (Some \<circ> m4_kind) ts = map parse_trak_kind (map at_payload (filter (\<lambda>a. at_kind a = ascii ''trak'') as)) \<and>
    MtUnknown \<notin> m4_kind ` set ts"
  using assms
proof (induction as arbitrary: meta)
  case (Cons a as)
  show ?case
  proof (cases "at_kind a = ascii ''trak''")
    case True
    then have "trak_listed (at_payload a)" using Cons.prems by simp
    then obtain t where t: "parse_trak_kind (at_payload a) = Some (m4_kind t)" "parse_trak (at_payload a) 0 = Some t"
      "m4_kind t \<noteq> MtUnknown" by (auto simp: trak_listed_def split: option.splits)
    have "ascii ''trak'' \<noteq> ascii ''mvhd''" by (simp add: ascii_def)
    then have "moov_step meta a = meta\<lparr>bm_tracks := bm_tracks meta @ [t\<lparr>m4_index := length (bm_tracks meta)\<rparr>]\<rparr>"
      by (simp add: moov_step_def True parse_trak_at [of _ "length (bm_tracks meta)"] t(2))
    moreover have "\<forall>b \<in> set as. at_kind b = ascii ''trak'' \<longrightarrow> trak_listed (at_payload b)" using Cons.prems by simp
    from Cons.IH [OF this, of "moov_step meta a"]
    obtain ts where "bm_tracks (foldl moov_step (moov_step meta a) as) = bm_tracks (moov_step meta a) @ ts"
      "map (Some \<circ> m4_kind) ts = map parse_trak_kind (map at_payload (filter (\<lambda>a. at_kind a = ascii ''trak'') as))"
      "MtUnknown \<notin> m4_kind ` set ts" by (elim exE conjE) (rule that)
    ultimately show ?thesis using t(1,3) True
      by (intro exI [of _ "t\<lparr>m4_index := length (bm_tracks meta)\<rparr> # ts"]) (auto simp: comp_def)
  next
    case False
    then have "bm_tracks (moov_step meta a) = bm_tracks meta"
      by (simp add: moov_step_def Let_def split: option.split)
    then show ?thesis using Cons.IH [of "moov_step meta a"] Cons.prems False by simp
  qed
qed simp

lemma listing_names_tracks:
  "MtUnknown \<notin> m4_kind ` set ts \<Longrightarrow>
    map Some (listing_names (v, a, s) (map (\<lambda>t. (kind_from_mp4 (m4_kind t), m4_index t)) ts)) =
    name_tracks (v, a, s, x) (map (Some \<circ> m4_kind) ts)"
proof (induction ts arbitrary: v a s)
  case (Cons t ts)
  then show ?case
    by (cases "m4_kind t") (auto simp: probe_next_track_id_def next_track_id_def)
qed simp

lemma file_tracks:
  assumes "list_all trak_listed (trak_boxes bs)"
  shows "\<exists>ts. bm_tracks (parse_basic_metadata bs) = ts \<and>
    map (Some \<circ> m4_kind) ts = map parse_trak_kind (trak_boxes bs) \<and> MtUnknown \<notin> m4_kind ` set ts"
proof -
  let ?step = "\<lambda>meta a. if at_kind a = ascii ''ftyp'' then parse_ftyp (at_payload a) meta
       else if at_kind a = ascii ''moov'' then parse_moov (at_payload a) meta else meta"
  let ?traks = "\<lambda>as. concat (map (\<lambda>moov. map at_payload (filter (\<lambda>a. at_kind a = ascii ''trak'') (atoms (at_payload moov))))
       (filter (\<lambda>a. at_kind a = ascii ''moov'') as))"
  have "list_all trak_listed (?traks as) \<Longrightarrow>
    \<exists>ts. bm_tracks (foldl ?step meta as) = bm_tracks meta @ ts \<and>
      map (Some \<circ> m4_kind) ts = map parse_trak_kind (?traks as) \<and> MtUnknown \<notin> m4_kind ` set ts" for as meta
  proof (induction as arbitrary: meta)
    case (Cons a as)
    show ?case
    proof (cases "at_kind a = ascii ''moov''")
      case True
      have "ascii ''moov'' \<noteq> ascii ''ftyp''" by (simp add: ascii_def)
      then have step: "?step meta a = parse_moov (at_payload a) meta" using True by simp
      have "\<forall>b \<in> set (atoms (at_payload a)). at_kind b = ascii ''trak'' \<longrightarrow> trak_listed (at_payload b)"
        using Cons.prems True by (auto simp: list_all_iff)
      from moov_tracks [OF this, of meta, folded parse_moov_def] obtain ts where ts: "bm_tracks (parse_moov (at_payload a) meta) = bm_tracks meta @ ts"
        "map (Some \<circ> m4_kind) ts =
          map parse_trak_kind (map at_payload (filter (\<lambda>a. at_kind a = ascii ''trak'') (atoms (at_payload a))))"
        "MtUnknown \<notin> m4_kind ` set ts" by (elim exE conjE) (rule that)
      have "list_all trak_listed (?traks as)" using Cons.prems True by simp
      from Cons.IH [OF this, of "?step meta a"] obtain us where us: "bm_tracks (foldl ?step (?step meta a) as) = bm_tracks (?step meta a) @ us"
        "map (Some \<circ> m4_kind) us = map parse_trak_kind (?traks as)" "MtUnknown \<notin> m4_kind ` set us" by (elim exE conjE) (rule that)
      show ?thesis
      proof (intro exI conjI)
        show "bm_tracks (foldl ?step meta (a # as)) = bm_tracks meta @ (ts @ us)"
          using ts(1) us(1) by (simp only: step foldl_Cons append_assoc)
        show "map (Some \<circ> m4_kind) (ts @ us) = map parse_trak_kind (?traks (a # as))"
          using ts(2) us(2) True by simp
        show "MtUnknown \<notin> m4_kind ` set (ts @ us)" using ts(3) us(3) by auto
      qed
    next
      case False
      then have b: "bm_tracks (?step meta a) = bm_tracks meta" by (simp add: parse_ftyp_def)
      have "list_all trak_listed (?traks as)" using Cons.prems False by simp
      from Cons.IH [OF this, of "?step meta a"] show ?thesis using b False by (simp only: foldl_Cons filter.simps if_False)
    qed
  qed simp
  from this [of "atoms bs" "\<lparr>bm_major_brand = None, bm_compatible_brands = [], bm_duration_ms = None, bm_tracks = [],
      bm_chapters = []\<rparr>"] assms
  show ?thesis unfolding parse_basic_metadata_def trak_boxes_def by simp
qed

lemma mp4_listing_fields:
  "length (mp4_track_loop cs ts) = length ts"
  "map trk_kind (mp4_track_loop cs ts) = map (kind_from_mp4 \<circ> m4_kind) ts"
  "map trk_index (mp4_track_loop cs ts) = map m4_index ts"
  by (induction ts arbitrary: cs) (simp_all add: media_track_of_def Let_def split: prod.split)

text \<open>C20: When every \<open>trak\<close> of a file has a handler of known kind and a sample entry, the probe lists one track for
  each, in file order and of its kind, and the name it gives a track is the one the readers answer to: asked for it, the
  packet reader indexes exactly that \<open>trak\<close>, the chunk planner plans it and the codec reader reads its configuration.
  A name the probe did not give selects no track in any of them.\<close>

theorem mp4_probe_names_match_readers:
  assumes "list_all trak_listed (trak_boxes bs)" "i < length (trak_boxes bs)"
  shows "let tracks = tracks_from_mp4 (parse_basic_metadata bs); track_id = trk_id (tracks ! i)
    in length tracks = length (trak_boxes bs) \<and> trk_index (tracks ! i) = i \<and>
      (\<exists>kind. parse_trak_kind (trak_boxes bs ! i) = Some kind \<and> trk_kind (tracks ! i) = kind_from_mp4 kind \<and>
        parse_packet_track bs (Some track_id) = parse_trak_packet_index (trak_boxes bs ! i) i kind track_id \<and>
        parse_chunk_plan_with_peak_bitrate bs (Some track_id) target_ms =
          planned_track target_ms track_id (trak_boxes bs ! i) \<and>
        parse_codec_config bs (Some track_id) = parse_trak_codec_config (trak_boxes bs ! i) kind track_id) \<and>
      (\<forall>r. r \<notin> trk_id ` set tracks \<longrightarrow> parse_packet_track bs (Some r) = None \<and>
        parse_chunk_plan bs (Some r) target_ms = None \<and> parse_codec_config bs (Some r) = None)"
proof -
  obtain ts where ts: "bm_tracks (parse_basic_metadata bs) = ts"
    "map (Some \<circ> m4_kind) ts = map parse_trak_kind (trak_boxes bs)" "MtUnknown \<notin> m4_kind ` set ts"
    using file_tracks [OF assms(1)] by blast
  define tracks where "tracks = tracks_from_mp4 (parse_basic_metadata bs)"
  have names: "map (Some \<circ> trk_id) tracks = track_names (trak_boxes bs)"
  proof -
    have "map (Some \<circ> trk_id) tracks = map Some (map trk_id (mp4_track_loop (0, 0, 0) ts))"
      by (simp add: tracks_def tracks_from_mp4_def ts(1))
    then show ?thesis using listing_names_tracks [OF ts(3), of 0 0 0 0] by (simp add: track_names_def ts(2) mp4_listing)
  qed
  have lts: "length ts = length (trak_boxes bs)" using arg_cong [OF ts(2), of length] by simp
  have len: "length tracks = length (trak_boxes bs)"
    by (simp add: tracks_def tracks_from_mp4_def ts(1) mp4_listing_fields(1) lts)
  have name: "track_names (trak_boxes bs) ! i = Some (trk_id (tracks ! i))"
    using assms(2) by (simp add: names [symmetric] len)
  have "map trk_index tracks = [0..<length ts]"
    using parse_basic_metadata_indexed [of bs]
    by (simp add: tracks_def tracks_from_mp4_def ts(1) mp4_listing_fields(3) mp4_indexed_def)
  then have index: "trk_index (tracks ! i) = i"
    using assms(2) len lts nth_map [of i tracks trk_index] by simp
  have handler: "None \<notin> set (map parse_trak_kind (take i (trak_boxes bs)))"
    using assms(1) by (auto simp: list_all_iff trak_listed_def dest!: in_set_takeD split: option.splits)
  obtain kind where kind: "parse_trak_kind (trak_boxes bs ! i) = Some kind"
    "parse_packet_track bs (Some (trk_id (tracks ! i))) = parse_trak_packet_index (trak_boxes bs ! i) i kind (trk_id (tracks ! i))"
    "parse_chunk_plan_with_peak_bitrate bs (Some (trk_id (tracks ! i))) target_ms =
      planned_track target_ms (trk_id (tracks ! i)) (trak_boxes bs ! i)"
    "parse_codec_config bs (Some (trk_id (tracks ! i))) = parse_trak_codec_config (trak_boxes bs ! i) kind (trk_id (tracks ! i))"
    using track_id_selects_track [OF assms(2) name, of target_ms] handler by blast
  have "map trk_kind tracks = map (kind_from_mp4 \<circ> m4_kind) ts"
    by (simp add: tracks_def tracks_from_mp4_def ts(1) mp4_listing_fields(2))
  then have k1: "trk_kind (tracks ! i) = kind_from_mp4 (m4_kind (ts ! i))"
    using assms(2) len lts nth_map [of i tracks trk_kind] by simp
  have k2: "Some (m4_kind (ts ! i)) = Some kind"
    using arg_cong [OF ts(2), of "\<lambda>xs. xs ! i"] assms(2) lts kind(1) by simp
  have none: "parse_packet_track bs (Some r) = None \<and> parse_chunk_plan bs (Some r) target_ms = None \<and>
      parse_codec_config bs (Some r) = None" if "r \<notin> trk_id ` set tracks" for r
  proof (rule unknown_track_id)
    show "Some r \<notin> set (track_names (trak_boxes bs))" using that by (auto simp: names [symmetric])
  qed
  show ?thesis unfolding Let_def tracks_def [symmetric] using len index kind k1 k2 none by auto
qed

definition demo_trak :: "string \<Rightarrow> string \<Rightarrow> bytes" where
  "demo_trak handler codec =
     boxes [(ascii ''mdia'', boxes [(ascii ''hdlr'', replicate 8 0 @ ascii handler),
       (ascii ''minf'', boxes [(ascii ''stbl'', boxes [(ascii ''stsd'',
          replicate 4 0 @ be_u32 1 @ be_u32 16 @ ascii codec @ replicate 8 0)])])])]"

definition demo_mdia :: "string \<Rightarrow> string \<Rightarrow> (bytes \<times> bytes) list" where
  "demo_mdia handler codec =
     [(ascii ''hdlr'', replicate 8 0 @ ascii handler),
      (ascii ''minf'', boxes [(ascii ''stbl'', boxes [(ascii ''stsd'',
          replicate 4 0 @ be_u32 1 @ be_u32 16 @ ascii codec @ replicate 8 0)])])]"

lemma demo_mdia_length: "length handler = 4 \<Longrightarrow> length codec = 4 \<Longrightarrow> length (boxes (demo_mdia handler codec)) < 100"
  by (simp add: demo_mdia_def)

lemma demo_stbl_found:
  assumes "length p < 100"
  shows "find_atom (boxes [(ascii ''stbl'', boxes [(ascii ''stsd'', p)])]) (ascii ''stbl'') = Some (boxes [(ascii ''stsd'', p)])"
    "find_atom (boxes [(ascii ''stsd'', p)]) (ascii ''stsd'') = Some p"
  using assms by (subst find_atom_boxes; simp add: named_def)+

lemma demo_trak_reads:
  assumes "length handler = 4" "length codec = 4"
  shows "parse_trak_kind (demo_trak handler codec) = Some (handler_to_track_kind (fourcc_to_string (ascii handler)))"
    "map_option m4_kind (parse_trak (demo_trak handler codec) 0) = Some (handler_to_track_kind (fourcc_to_string (ascii handler)))"
proof -
  let ?mdia = "boxes (demo_mdia handler codec)"
  have l: "length (boxes [(ascii ''mdia'', ?mdia)]) < 2 ^ 32" "length ?mdia < 2 ^ 32"
    using demo_mdia_length [OF assms] by simp_all
  have t: "demo_trak handler codec = boxes [(ascii ''mdia'', ?mdia)]"
    by (simp add: demo_trak_def demo_mdia_def)
  have n: "named [(ascii ''mdia'', ?mdia)]" "named (demo_mdia handler codec)"
    by (simp_all add: named_def demo_mdia_def)
  let ?h = "replicate 8 0 @ ascii handler"
  have h: "parse_hdlr ?h = \<lparr>hi_kind = fourcc_to_string (ascii handler), hi_name = None\<rparr>"
    using assms by (simp add: parse_hdlr_def slice_def get_from_def)
  have "find_atom ?mdia (ascii ''hdlr'') = Some ?h"
    by (simp add: find_atom_boxes [OF n(2) l(2)]) (simp add: demo_mdia_def)
  moreover have "find_atom (demo_trak handler codec) (ascii ''mdia'') = Some ?mdia"
    unfolding t by (subst find_atom_boxes [OF n(1) l(1)]) simp
  ultimately show "parse_trak_kind (demo_trak handler codec) = Some (handler_to_track_kind (fourcc_to_string (ascii handler)))"
    by (simp add: parse_trak_kind_def h)
  let ?stsd = "replicate 4 0 @ be_u32 1 @ be_u32 16 @ ascii codec @ replicate 8 (0 :: 8 word)"
  have "parse_stsd_entry ?stsd = Some \<lparr>se_codec_fourcc = ascii codec, se_payload = replicate 8 0\<rparr>"
    using assms by (simp add: parse_stsd_entry_def slice_def read_u32_def)
  then obtain info where stsd: "parse_stsd ?stsd = Some info" by (simp add: parse_stsd_def)
  have stbl: "find_atom (boxes [(ascii ''stbl'', boxes [(ascii ''stsd'', ?stsd)])]) (ascii ''stbl'') = Some (boxes [(ascii ''stsd'', ?stsd)])"
    "find_atom (boxes [(ascii ''stsd'', ?stsd)]) (ascii ''stsd'') = Some ?stsd"
    using assms by (intro demo_stbl_found; simp)+
  have neq: "ascii ''hdlr'' \<noteq> ascii ''minf''" "ascii ''minf'' \<noteq> ascii ''mdhd''" by (simp_all add: ascii_def)
  obtain mdia where m: "parse_mdia ?mdia = Some mdia" "md_handler mdia = parse_hdlr ?h" "md_sample_entry mdia = Some info"
    unfolding parse_mdia_def atoms_boxes [OF n(2) l(2)]
    using neq stsd stbl unfolding demo_mdia_def
    by (simp add: mdia_step_def parse_stbl_def Let_def del: boxes_simps)
  have "foldl trak_step (None, None, None) (atoms (demo_trak handler codec)) = (None, Some mdia, None)"
    unfolding t atoms_boxes [OF n(1) l(1)] by (simp add: trak_step_def m(1) ascii_def)
  then show "map_option m4_kind (parse_trak (demo_trak handler codec) 0) = Some (handler_to_track_kind (fourcc_to_string (ascii handler)))"
    by (simp add: parse_trak_def m(2,3) h case_prod_beta)
qed

lemma demo_traks:
  "trak_listed (demo_trak ''vide'' ''av01'')" "trak_listed (demo_trak ''soun'' ''Opus'')"
proof -
  have "handler_to_track_kind (fourcc_to_string (ascii ''vide'')) = MtVideo"
    "handler_to_track_kind (fourcc_to_string (ascii ''soun'')) = MtAudio"
    using fourcc_ascii [of "''vide''"] fourcc_ascii [of "''soun''"]
    by (simp_all add: handler_to_track_kind_def ascii_graphic_def ascii_def)
  then show "trak_listed (demo_trak ''vide'' ''av01'')" "trak_listed (demo_trak ''soun'' ''Opus'')"
    using demo_trak_reads [of "''vide''" "''av01''"] demo_trak_reads [of "''soun''" "''Opus''"]
    by (auto simp: trak_listed_def)
qed

definition demo_movie :: bytes where
  "demo_movie = boxes [(ascii ''moov'',
     boxes (map (\<lambda>t. (ascii ''trak'', t)) [demo_trak ''vide'' ''av01'', demo_trak ''soun'' ''Opus'']))]"

lemma demo_movie_traks: "trak_boxes demo_movie = [demo_trak ''vide'' ''av01'', demo_trak ''soun'' ''Opus'']"
proof -
  let ?ts = "map (\<lambda>t. (ascii ''trak'', t)) [demo_trak ''vide'' ''av01'', demo_trak ''soun'' ''Opus'']"
  have l: "length (boxes ?ts) < 2 ^ 31" by (simp add: demo_trak_def)
  have n: "named ?ts" "named [(ascii ''moov'', boxes ?ts)]" by (simp_all add: named_def)
  have "atoms demo_movie = [\<lparr>at_kind = ascii ''moov'', at_payload = boxes ?ts\<rparr>]"
    unfolding demo_movie_def using l by (subst atoms_boxes [OF n(2)]) simp_all
  moreover have "atoms (boxes ?ts) = map (\<lambda>t. \<lparr>at_kind = ascii ''trak'', at_payload = t\<rparr>)
      [demo_trak ''vide'' ''av01'', demo_trak ''soun'' ''Opus'']"
    using l by (subst atoms_boxes [OF n(1)]) simp_all
  ultimately show ?thesis by (simp add: trak_boxes_def del: boxes_simps)
qed

theorem mp4_probe_names_match_readers_witness:
  "let tracks = tracks_from_mp4 (parse_basic_metadata demo_movie)
   in length tracks = 2 \<and>
     (\<exists>kind. parse_packet_track demo_movie (Some (trk_id (tracks ! 1))) =
        parse_trak_packet_index (demo_trak ''soun'' ''Opus'') 1 kind (trk_id (tracks ! 1)))"
  using mp4_probe_names_match_readers [of demo_movie 1 0] demo_traks
  unfolding demo_movie_traks Let_def by auto

end
