(* ===== verification/Sessions.thy ===== *)
theory Sessions
  imports Probe
begin

text \<open>
  Playback plans (\<open>session/mod.rs\<close>) and the routing of extracted chunks through their stages
  (\<open>pipeline/mod.rs\<close>): which tracks a plan selects, which of them it copies and which it decodes and
  encodes, and what the pipeline emits for a chunk of each.
\<close>

section \<open>Plans\<close>

datatype playback_target = NativeChroma | Browser | AppleNative

datatype audio_selection = PrimaryAudio | AllAudio

datatype stage_kind = Demux | PacketFilter | DecodeKind | EncodeKind | SubtitleTransform | MuxKind

datatype stage_mode = SharedMode | CopyMode | TransformMode | DecodeMode | EncodeMode

datatype transport_kind = ChromaFrames | ChromaSegments

record playback_constraints =
  pcs_target :: playback_target
  pcs_max_video_pixels :: "nat option"
  pcs_prefer_copy :: bool
  pcs_audio_selection :: audio_selection
  pcs_include_subtitles :: bool

record pipeline_stage =
  stg_id :: string
  stg_kind :: stage_kind
  stg_track_ids :: "string list"
  stg_mode :: stage_mode
  stg_reason :: string

record transport_plan =
  tp_id :: string
  tp_kind :: transport_kind
  tp_source_stage_id :: string
  tp_notes :: "string list"

record playback_plan =
  pp_schema_version :: nat
  pp_source_path :: ustring
  pp_duration_ms :: "nat option"
  pp_selected_tracks :: "string list"
  pp_stages :: "pipeline_stage list"
  pp_transports :: "transport_plan list"
  pp_constraints :: playback_constraints

definition constraints_default :: playback_constraints where
  "constraints_default = \<lparr>pcs_target = NativeChroma, pcs_max_video_pixels = None, pcs_prefer_copy = True,
     pcs_audio_selection = PrimaryAudio, pcs_include_subtitles = True\<rparr>"

section \<open>What a target plays\<close>

definition video_can_copy_for_target :: "codec_family \<Rightarrow> playback_target \<Rightarrow> bool" where
  "video_can_copy_for_target family target =
     (case target of
        NativeChroma \<Rightarrow> family \<in> {H264, Hevc, Av1, Vp9}
      | AppleNative \<Rightarrow> family \<in> {H264, Hevc}
      | Browser \<Rightarrow> family \<in> {H264, Av1, Vp9})"

definition audio_can_copy_for_target :: "codec_family \<Rightarrow> playback_target \<Rightarrow> bool" where
  "audio_can_copy_for_target family target =
     (case target of
        NativeChroma \<Rightarrow> family \<in> {Aac, Ac3, Eac3, Dts, TrueHd, Flac, Alac, Opus, Mp3}
      | AppleNative \<Rightarrow> family \<in> {Aac, Ac3, Eac3, Alac, Mp3}
      | Browser \<Rightarrow> family \<in> {Aac, Mp3, Opus})"

definition audio_can_transcode_for_target :: "codec_family \<Rightarrow> playback_target \<Rightarrow> bool" where
  "audio_can_transcode_for_target family target \<longleftrightarrow> target \<noteq> NativeChroma \<and> family \<in> {Opus, TrueHd, Dts}"

definition subtitle_can_copy_for_target :: "codec_family \<Rightarrow> playback_target \<Rightarrow> bool" where
  "subtitle_can_copy_for_target family target =
     (case target of
        NativeChroma \<Rightarrow> family \<in> {TextSubtitle, BitmapSubtitle}
      | _ \<Rightarrow> family = TextSubtitle)"

definition track_can_copy_for_target :: "playback_target \<Rightarrow> media_track \<Rightarrow> bool" where
  "track_can_copy_for_target target track =
     (case trk_kind track of
        Video \<Rightarrow> video_can_copy_for_target (trk_family track) target
      | Audio \<Rightarrow> audio_can_copy_for_target (trk_family track) target
      | Subtitle \<Rightarrow> subtitle_can_copy_for_target (trk_family track) target
      | UnknownKind \<Rightarrow> False)"

definition target_can_use_track :: "playback_target \<Rightarrow> media_track \<Rightarrow> bool" where
  "target_can_use_track target track =
     (if trk_kind track = Subtitle \<and> target \<in> {Browser, AppleNative}
      then (case trk_subtitle track of Some format \<Rightarrow> format \<noteq> BitmapFormat | None \<Rightarrow> True)
      else True)"

section \<open>Selecting tracks\<close>

definition or_else :: "'a option \<Rightarrow> 'a option \<Rightarrow> 'a option" where
  "or_else a b = (case a of Some x \<Rightarrow> Some x | None \<Rightarrow> b)"

definition first_of :: "'a list \<Rightarrow> 'a option" where
  "first_of xs = (case xs of [] \<Rightarrow> None | x # _ \<Rightarrow> Some x)"

abbreviation trk_default :: "media_track \<Rightarrow> bool" where
  "trk_default t \<equiv> fl_default (trk_flags t)"

definition primary_audio_track :: "media_probe \<Rightarrow> playback_target \<Rightarrow> media_track option" where
  "primary_audio_track probe target =
     (let audio_tracks = filter (target_can_use_track target) (filter (\<lambda>t. trk_kind t = Audio) (pr_tracks probe))
      in or_else (find (\<lambda>t. trk_default t \<and> track_can_copy_for_target target t) audio_tracks)
        (or_else (find (track_can_copy_for_target target) audio_tracks)
        (or_else (find (\<lambda>t. trk_default t \<and> audio_can_transcode_for_target (trk_family t) target) audio_tracks)
        (or_else (find (\<lambda>t. audio_can_transcode_for_target (trk_family t) target) audio_tracks)
        (or_else (find trk_default audio_tracks)
          (first_of audio_tracks))))))"

definition select_tracks :: "media_probe \<Rightarrow> playback_constraints \<Rightarrow> media_track list" where
  "select_tracks probe constraints =
     (case find (\<lambda>t. trk_kind t = Video) (pr_tracks probe) of Some video \<Rightarrow> [video] | None \<Rightarrow> []) @
     (case pcs_audio_selection constraints of
        PrimaryAudio \<Rightarrow>
          (case primary_audio_track probe (pcs_target constraints) of Some audio \<Rightarrow> [audio] | None \<Rightarrow> [])
      | AllAudio \<Rightarrow>
          filter (target_can_use_track (pcs_target constraints)) (filter (\<lambda>t. trk_kind t = Audio) (pr_tracks probe))) @
     (if pcs_include_subtitles constraints
      then filter (target_can_use_track (pcs_target constraints)) (filter (\<lambda>t. trk_kind t = Subtitle) (pr_tracks probe))
      else [])"

section \<open>Planning playback\<close>

definition transports_for_plan :: "bool \<Rightarrow> transport_plan list" where
  "transports_for_plan has_decode =
     \<lparr>tp_id = ''chroma-segments0'', tp_kind = ChromaSegments, tp_source_stage_id = ''mux0'',
      tp_notes = [''compressed timed chunks for copy-first playback'']\<rparr> #
     (if has_decode then
        [\<lparr>tp_id = ''chroma-frames0'', tp_kind = ChromaFrames, tp_source_stage_id = ''decode0'',
          tp_notes = [''available only when a plan contains decode stages'']\<rparr>]
      else [])"

text \<open>The six stages a plan may have.\<close>

definition demux_stage_of :: "string list \<Rightarrow> pipeline_stage" where
  "demux_stage_of ids = \<lparr>stg_id = ''demux0'', stg_kind = Demux, stg_track_ids = ids, stg_mode = SharedMode,
     stg_reason = ''one shared demux stage feeds every selected track''\<rparr>"

definition copy_stage_of :: "string list \<Rightarrow> pipeline_stage" where
  "copy_stage_of ids = \<lparr>stg_id = ''packet-copy0'', stg_kind = PacketFilter, stg_track_ids = ids, stg_mode = CopyMode,
     stg_reason = ''copy-compatible tracks stay compressed and bypass decode''\<rparr>"

definition decode_stage_of :: "string list \<Rightarrow> pipeline_stage" where
  "decode_stage_of ids = \<lparr>stg_id = ''decode0'', stg_kind = DecodeKind, stg_track_ids = ids, stg_mode = DecodeMode,
     stg_reason = ''target cannot consume these compressed track families directly''\<rparr>"

definition encode_stage_of :: "string list \<Rightarrow> pipeline_stage" where
  "encode_stage_of ids = \<lparr>stg_id = ''encode0'', stg_kind = EncodeKind, stg_track_ids = ids, stg_mode = EncodeMode,
     stg_reason = ''decoded tracks need a target-native compressed representation''\<rparr>"

definition subtitle_stage_of :: "string list \<Rightarrow> pipeline_stage" where
  "subtitle_stage_of ids = \<lparr>stg_id = ''subtitle-text0'', stg_kind = SubtitleTransform, stg_track_ids = ids,
     stg_mode = TransformMode, stg_reason = ''text subtitles are normalized once and can feed multiple transports''\<rparr>"

definition mux_stage_of :: "string list \<Rightarrow> pipeline_stage" where
  "mux_stage_of ids = \<lparr>stg_id = ''mux0'', stg_kind = MuxKind, stg_track_ids = ids, stg_mode = SharedMode,
     stg_reason = ''one mux graph owns timing, interleaving, and transport fanout''\<rparr>"

definition plan_playback :: "media_probe \<Rightarrow> playback_constraints \<Rightarrow> playback_plan" where
  "plan_playback probe constraints =
     (let selected = select_tracks probe constraints;
          target = pcs_target constraints;
          selected_ids = map trk_id selected;
          copy_tracks = map trk_id (filter (track_can_copy_for_target target) selected);
          decode_tracks = map trk_id (filter (\<lambda>t. \<not> track_can_copy_for_target target t) selected);
          text_subtitles = map trk_id (filter (\<lambda>t. trk_kind t = Subtitle \<and> trk_family t = TextSubtitle) selected);
          stages =
            [demux_stage_of selected_ids] @
            (if copy_tracks = [] then [] else [copy_stage_of copy_tracks]) @
            (if decode_tracks = [] then [] else [decode_stage_of decode_tracks, encode_stage_of decode_tracks]) @
            (if text_subtitles = [] then [] else [subtitle_stage_of text_subtitles]) @
            [mux_stage_of selected_ids]
      in \<lparr>pp_schema_version = 1, pp_source_path = src_path (pr_source probe), pp_duration_ms = pr_duration_ms probe,
          pp_selected_tracks = selected_ids, pp_stages = stages,
          pp_transports = transports_for_plan (decode_tracks \<noteq> []), pp_constraints = constraints\<rparr>)"

section \<open>Outputs of several audio tracks\<close>

record audio_output_plan =
  ao_audio_track_id :: string
  ao_audio_stage_id :: string
  ao_shared_video_stage_id :: "string option"
  ao_duplicates_video_encode :: bool

record multi_audio_output_plan =
  mao_video_track_id :: "string option"
  mao_shared_video_stage_id :: "string option"
  mao_audio_outputs :: "audio_output_plan list"

definition output_stage_for_track :: "pipeline_stage list \<Rightarrow> string \<Rightarrow> string option" where
  "output_stage_for_track stages track_id =
     map_option stg_id (find (\<lambda>stage. stg_kind stage \<in> {PacketFilter, EncodeKind, SubtitleTransform} \<and>
       track_id \<in> set (stg_track_ids stage)) (rev stages))"

definition plan_multi_audio_outputs :: "playback_plan \<Rightarrow> media_probe \<Rightarrow> multi_audio_output_plan" where
  "plan_multi_audio_outputs plan probe =
     (let is_kind = (\<lambda>kind track_id. list_ex (\<lambda>t. trk_id t = track_id \<and> trk_kind t = kind) (pr_tracks probe));
          video_track_id = find (is_kind Video) (pp_selected_tracks plan);
          shared = Option.bind video_track_id (output_stage_for_track (pp_stages plan));
          audio_outputs = List.map_filter (\<lambda>audio_track_id.
            map_option (\<lambda>audio_stage_id.
              \<lparr>ao_audio_track_id = audio_track_id, ao_audio_stage_id = audio_stage_id,
               ao_shared_video_stage_id = shared, ao_duplicates_video_encode = False\<rparr>)
              (output_stage_for_track (pp_stages plan) audio_track_id))
            (filter (is_kind Audio) (pp_selected_tracks plan))
      in \<lparr>mao_video_track_id = video_track_id, mao_shared_video_stage_id = shared, mao_audio_outputs = audio_outputs\<rparr>)"

section \<open>Routing chunks\<close>

datatype pipeline_error = UnselectedTrack string | MissingStage string

datatype stage_payload =
    PacketCopy "chunk_sample list" bytes
  | DecodeInput "chunk_sample list" bytes
  | EncodeInput nat

record stage_chunk =
  sc_stage_id :: string
  sc_stage_kind :: stage_kind
  sc_stage_mode :: stage_mode
  sc_track_id :: string
  sc_chunk :: native_chunk
  sc_payload :: stage_payload

definition stage_for_track :: "pipeline_stage list \<Rightarrow> string \<Rightarrow> stage_kind \<Rightarrow> stage_mode \<Rightarrow> pipeline_stage option" where
  "stage_for_track stages track_id kind mode =
     find (\<lambda>stage. stg_kind stage = kind \<and> stg_mode stage = mode \<and> track_id \<in> set (stg_track_ids stage)) stages"

definition packet_copy_chunk :: "pipeline_stage \<Rightarrow> extracted_chunk \<Rightarrow> bytes \<Rightarrow> stage_chunk" where
  "packet_copy_chunk stage extracted payload =
     \<lparr>sc_stage_id = stg_id stage, sc_stage_kind = stg_kind stage, sc_stage_mode = stg_mode stage,
      sc_track_id = ec_track_id extracted, sc_chunk = ec_chunk extracted,
      sc_payload = PacketCopy (ec_samples extracted) payload\<rparr>"

definition decode_input_chunk :: "pipeline_stage \<Rightarrow> extracted_chunk \<Rightarrow> bytes \<Rightarrow> stage_chunk" where
  "decode_input_chunk stage extracted payload =
     \<lparr>sc_stage_id = stg_id stage, sc_stage_kind = stg_kind stage, sc_stage_mode = stg_mode stage,
      sc_track_id = ec_track_id extracted, sc_chunk = ec_chunk extracted,
      sc_payload = DecodeInput (ec_samples extracted) payload\<rparr>"

definition encode_input_chunk :: "pipeline_stage \<Rightarrow> extracted_chunk \<Rightarrow> stage_chunk" where
  "encode_input_chunk stage extracted =
     \<lparr>sc_stage_id = stg_id stage, sc_stage_kind = stg_kind stage, sc_stage_mode = stg_mode stage,
      sc_track_id = ec_track_id extracted, sc_chunk = ec_chunk extracted,
      sc_payload = EncodeInput (as_u 32 (length (ec_samples extracted)))\<rparr>"

text \<open>What one chunk adds to \<open>out\<close>: its copy, decode and encode items, in this order.\<close>

definition chunk_items :: "pipeline_stage list \<Rightarrow> extracted_chunk \<Rightarrow> bytes \<Rightarrow> stage_chunk list" where
  "chunk_items stages extracted payload =
     (let track_id = ec_track_id extracted
      in (case stage_for_track stages track_id PacketFilter CopyMode of
            Some stage \<Rightarrow> [packet_copy_chunk stage extracted payload] | None \<Rightarrow> []) @
         (case stage_for_track stages track_id DecodeKind DecodeMode of
            Some stage \<Rightarrow> [decode_input_chunk stage extracted payload] | None \<Rightarrow> []) @
         (case stage_for_track stages track_id EncodeKind EncodeMode of
            Some stage \<Rightarrow> [encode_input_chunk stage extracted] | None \<Rightarrow> []))"

fun emit_loop :: "playback_plan \<Rightarrow> stage_chunk list \<Rightarrow> (extracted_chunk \<times> bytes) list \<Rightarrow> pipeline_error + stage_chunk list" where
  "emit_loop plan out [] = Inr out"
| "emit_loop plan out ((extracted, payload) # chunks) =
     (if ec_track_id extracted \<notin> set (pp_selected_tracks plan) then Inl (UnselectedTrack (ec_track_id extracted))
      else
        let items = chunk_items (pp_stages plan) extracted payload
        in if items = [] then Inl (MissingStage (ec_track_id extracted))
           else emit_loop plan (out @ items) chunks)"

definition emit_stage_chunks :: "playback_plan \<Rightarrow> (extracted_chunk \<times> bytes) list \<Rightarrow> pipeline_error + stage_chunk list" where
  "emit_stage_chunks plan chunks = emit_loop plan [] chunks"

section \<open>The selection\<close>

lemma or_else_Some: "or_else a b = Some x \<Longrightarrow> a = Some x \<or> a = None \<and> b = Some x"
  by (auto simp: or_else_def split: option.splits)

lemma find_in_set: "find P xs = Some x \<Longrightarrow> x \<in> set xs \<and> P x"
  by (metis find_Some_iff nth_mem)

lemma first_of_in_set: "first_of xs = Some x \<Longrightarrow> x \<in> set xs"
  by (auto simp: first_of_def split: list.splits)

lemma primary_audio_in_probe:
  "primary_audio_track probe target = Some t \<Longrightarrow> t \<in> set (pr_tracks probe) \<and> trk_kind t = Audio"
  by (auto simp: primary_audio_track_def Let_def dest!: or_else_Some find_in_set first_of_in_set)

lemma selected_in_probe: "t \<in> set (select_tracks probe constraints) \<Longrightarrow> t \<in> set (pr_tracks probe)"
  by (auto simp: select_tracks_def split: option.splits audio_selection.splits if_splits
      dest!: primary_audio_in_probe find_in_set find_in_set [OF sym])

lemma selected_unique:
  assumes "distinct (map trk_id (pr_tracks probe))" "s \<in> set (select_tracks probe constraints)"
    "t \<in> set (select_tracks probe constraints)" "trk_id s = trk_id t"
  shows "s = t"
  using assms selected_in_probe by (metis distinct_map inj_on_def)

section \<open>What a plan does with a chunk\<close>

definition copy_ids :: "media_probe \<Rightarrow> playback_constraints \<Rightarrow> string list" where
  "copy_ids probe constraints =
     map trk_id (filter (track_can_copy_for_target (pcs_target constraints)) (select_tracks probe constraints))"

definition decode_ids :: "media_probe \<Rightarrow> playback_constraints \<Rightarrow> string list" where
  "decode_ids probe constraints =
     map trk_id (filter (\<lambda>t. \<not> track_can_copy_for_target (pcs_target constraints) t) (select_tracks probe constraints))"

lemma plan_selected [simp]: "pp_selected_tracks (plan_playback probe constraints) = map trk_id (select_tracks probe constraints)"
  by (simp add: plan_playback_def Let_def)

definition text_ids :: "media_probe \<Rightarrow> playback_constraints \<Rightarrow> string list" where
  "text_ids probe constraints =
     map trk_id (filter (\<lambda>t. trk_kind t = Subtitle \<and> trk_family t = TextSubtitle) (select_tracks probe constraints))"

lemma stage_of_simps [simp]:
  "stg_id (copy_stage_of ids) = ''packet-copy0''" "stg_id (decode_stage_of ids) = ''decode0''"
  "stg_id (encode_stage_of ids) = ''encode0''" "stg_id (subtitle_stage_of ids) = ''subtitle-text0''"
  "stg_kind (demux_stage_of ids) = Demux" "stg_kind (copy_stage_of ids) = PacketFilter"
  "stg_kind (decode_stage_of ids) = DecodeKind" "stg_kind (encode_stage_of ids) = EncodeKind"
  "stg_kind (subtitle_stage_of ids) = SubtitleTransform" "stg_kind (mux_stage_of ids) = MuxKind"
  "stg_mode (copy_stage_of ids) = CopyMode" "stg_mode (decode_stage_of ids) = DecodeMode"
  "stg_mode (encode_stage_of ids) = EncodeMode" "stg_track_ids (copy_stage_of ids) = ids"
  "stg_track_ids (decode_stage_of ids) = ids" "stg_track_ids (encode_stage_of ids) = ids"
  "stg_track_ids (subtitle_stage_of ids) = ids"
  unfolding demux_stage_of_def copy_stage_of_def decode_stage_of_def encode_stage_of_def subtitle_stage_of_def
    mux_stage_of_def pipeline_stage.select_convs by (rule refl)+

lemma plan_stages:
  "pp_stages (plan_playback probe constraints) =
     [demux_stage_of (map trk_id (select_tracks probe constraints))] @
     (if copy_ids probe constraints = [] then [] else [copy_stage_of (copy_ids probe constraints)]) @
     (if decode_ids probe constraints = [] then []
      else [decode_stage_of (decode_ids probe constraints), encode_stage_of (decode_ids probe constraints)]) @
     (if text_ids probe constraints = [] then [] else [subtitle_stage_of (text_ids probe constraints)]) @
     [mux_stage_of (map trk_id (select_tracks probe constraints))]"
  unfolding plan_playback_def Let_def copy_ids_def decode_ids_def text_ids_def playback_plan.select_convs by (rule refl)

lemma find_append: "find P (xs @ ys) = (case find P xs of Some x \<Rightarrow> Some x | None \<Rightarrow> find P ys)"
  by (induction xs) simp_all

lemma plan_stage_for_track:
  "stage_for_track (pp_stages (plan_playback probe constraints)) track_id PacketFilter CopyMode =
    (if track_id \<in> set (copy_ids probe constraints) then Some (copy_stage_of (copy_ids probe constraints)) else None)"
  "stage_for_track (pp_stages (plan_playback probe constraints)) track_id DecodeKind DecodeMode =
    (if track_id \<in> set (decode_ids probe constraints) then Some (decode_stage_of (decode_ids probe constraints)) else None)"
  "stage_for_track (pp_stages (plan_playback probe constraints)) track_id EncodeKind EncodeMode =
    (if track_id \<in> set (decode_ids probe constraints) then Some (encode_stage_of (decode_ids probe constraints)) else None)"
  unfolding plan_stages stage_for_track_def
  by (cases "copy_ids probe constraints = []"; cases "decode_ids probe constraints = []"; cases "text_ids probe constraints = []";
      simp only: if_True if_False append.simps find.simps stage_of_simps stage_kind.distinct stage_mode.distinct simp_thms
        list.set empty_iff)+

text \<open>The items a chunk of a copied track, and of any other selected track, is due.\<close>

definition copied_items :: "extracted_chunk \<times> bytes \<Rightarrow> stage_chunk list" where
  "copied_items = (\<lambda>(e, payload).
     [\<lparr>sc_stage_id = ''packet-copy0'', sc_stage_kind = PacketFilter, sc_stage_mode = CopyMode, sc_track_id = ec_track_id e,
       sc_chunk = ec_chunk e, sc_payload = PacketCopy (ec_samples e) payload\<rparr>])"

definition recoded_items :: "extracted_chunk \<times> bytes \<Rightarrow> stage_chunk list" where
  "recoded_items = (\<lambda>(e, payload).
     [\<lparr>sc_stage_id = ''decode0'', sc_stage_kind = DecodeKind, sc_stage_mode = DecodeMode, sc_track_id = ec_track_id e,
       sc_chunk = ec_chunk e, sc_payload = DecodeInput (ec_samples e) payload\<rparr>,
      \<lparr>sc_stage_id = ''encode0'', sc_stage_kind = EncodeKind, sc_stage_mode = EncodeMode, sc_track_id = ec_track_id e,
       sc_chunk = ec_chunk e, sc_payload = EncodeInput (as_u 32 (length (ec_samples e)))\<rparr>])"

definition track_copied :: "media_probe \<Rightarrow> playback_target \<Rightarrow> string \<Rightarrow> bool" where
  "track_copied probe target track_id \<longleftrightarrow>
     list_ex (\<lambda>t. trk_id t = track_id \<and> track_can_copy_for_target target t) (pr_tracks probe)"

lemma selected_split:
  assumes "distinct (map trk_id (pr_tracks probe))" "track_id \<in> set (map trk_id (select_tracks probe constraints))"
  shows "track_id \<in> set (copy_ids probe constraints) \<longleftrightarrow> track_copied probe (pcs_target constraints) track_id"
    "track_id \<in> set (decode_ids probe constraints) \<longleftrightarrow> \<not> track_copied probe (pcs_target constraints) track_id"
proof -
  obtain t where t: "t \<in> set (select_tracks probe constraints)" "trk_id t = track_id" using assms(2) by auto
  have u: "s = t" if "s \<in> set (pr_tracks probe)" "trk_id s = track_id" for s
    using that t selected_in_probe [OF t(1)] assms(1) by (metis distinct_map inj_on_def)
  have p: "t \<in> set (pr_tracks probe)" by (rule selected_in_probe [OF t(1)])
  have c: "track_copied probe (pcs_target constraints) track_id \<longleftrightarrow> track_can_copy_for_target (pcs_target constraints) t"
    unfolding track_copied_def list_ex_iff using u t(2) p by blast
  have m: "track_id \<in> set (map trk_id (filter P (select_tracks probe constraints))) \<longleftrightarrow> P t" for P
    unfolding set_map set_filter image_iff using u t selected_in_probe by blast
  show "track_id \<in> set (copy_ids probe constraints) \<longleftrightarrow> track_copied probe (pcs_target constraints) track_id"
    "track_id \<in> set (decode_ids probe constraints) \<longleftrightarrow> \<not> track_copied probe (pcs_target constraints) track_id"
    unfolding c copy_ids_def decode_ids_def m by (rule refl)+
qed

lemma plan_chunk_items:
  assumes "distinct (map trk_id (pr_tracks probe))" "ec_track_id e \<in> set (map trk_id (select_tracks probe constraints))"
  shows "chunk_items (pp_stages (plan_playback probe constraints)) e payload =
    (if track_copied probe (pcs_target constraints) (ec_track_id e) then copied_items (e, payload) else recoded_items (e, payload))"
  unfolding chunk_items_def Let_def plan_stage_for_track selected_split [OF assms]
  by (simp add: copied_items_def recoded_items_def packet_copy_chunk_def decode_input_chunk_def encode_input_chunk_def)

text \<open>C16: The pipeline of a plan made from a probe never lacks a stage: a chunk of a track the plan did not
  select is the only error, the first such chunk is the one reported, and otherwise every chunk, in order,
  yields one copied item when the target plays its track, and a decode item followed by an encode item when
  it does not.\<close>

theorem pipeline_routes_every_selected_chunk:
  fixes path size_bytes bs constraints
  defines "probe \<equiv> probe_metadata path size_bytes bs"
  shows "emit_stage_chunks (plan_playback probe constraints) chunks =
    (case find (\<lambda>(e, _). ec_track_id e \<notin> set (pp_selected_tracks (plan_playback probe constraints))) chunks of
       Some (e, _) \<Rightarrow> Inl (UnselectedTrack (ec_track_id e))
     | None \<Rightarrow> Inr (concat (map (\<lambda>c. if track_copied probe (pcs_target constraints) (ec_track_id (fst c))
         then copied_items c else recoded_items c) chunks)))"
proof -
  have d: "distinct (map trk_id (pr_tracks probe))" unfolding probe_def by (rule probe_ids_distinct)
  let ?items = "\<lambda>c. if track_copied probe (pcs_target constraints) (ec_track_id (fst c)) then copied_items c else recoded_items c"
  have "emit_loop (plan_playback probe constraints) out chunks =
    (case find (\<lambda>(e, _). ec_track_id e \<notin> set (pp_selected_tracks (plan_playback probe constraints))) chunks of
       Some (e, _) \<Rightarrow> Inl (UnselectedTrack (ec_track_id e))
     | None \<Rightarrow> Inr (out @ concat (map ?items chunks)))" for out
  proof (induction chunks arbitrary: out)
    case (Cons c chunks)
    obtain e payload where c: "c = (e, payload)" by (cases c)
    show ?case
    proof (cases "ec_track_id e \<in> set (map trk_id (select_tracks probe constraints))")
      case True
      have i: "chunk_items (pp_stages (plan_playback probe constraints)) e payload = ?items c"
        unfolding c using plan_chunk_items [OF d True] by simp
      have "?items c \<noteq> []" by (cases c) (simp add: copied_items_def recoded_items_def)
      then show ?thesis using True i by (simp add: c Cons.IH Let_def split: option.split)
    next
      case False
      then show ?thesis by (simp add: c)
    qed
  qed simp
  from this [of "[]"] show ?thesis unfolding emit_stage_chunks_def append_Nil .
qed

section \<open>The audio track a plan prefers\<close>

lemma pick_rank:
  assumes n: "\<forall>a \<in> set xs. n \<le> r a" and P: "\<And>a. n \<le> r a \<Longrightarrow> P a \<longleftrightarrow> r a = n"
    and rest: "\<forall>a \<in> set xs. Suc n \<le> r a \<Longrightarrow> rest = find (\<lambda>t. \<forall>a \<in> set xs. r t \<le> r a) xs"
  shows "or_else (find P xs) rest = find (\<lambda>t. \<forall>a \<in> set xs. r t \<le> r a) xs"
proof (cases "find P xs")
  case None
  then have "Suc n \<le> r a" if "a \<in> set xs" for a
    using n P that unfolding find_None_iff by (metis Suc_leI le_neq_implies_less)
  then show ?thesis using rest None by (simp add: or_else_def)
next
  case (Some t)
  then have t: "t \<in> set xs" "r t = n" using find_in_set [OF Some] n P by auto
  have "P a \<longleftrightarrow> (\<forall>b \<in> set xs. r a \<le> r b)" if "a \<in> set xs" for a
    using n P t that by (metis le_antisym)
  then have "find P xs = find (\<lambda>t. \<forall>a \<in> set xs. r t \<le> r a) xs" by (intro find_cong) auto
  then have m: "find (\<lambda>t. \<forall>a \<in> set xs. r t \<le> r a) xs = Some t" using Some by (simp only:)
  show ?thesis unfolding or_else_def Some m by simp
qed

text \<open>
  Both planners choose an audio track by the same ladder: a default track they can copy, any they can copy, a
  default one they can decode, any they can decode, a default one, the first one.
\<close>

locale audio_choice =
  fixes pick :: "media_track list \<Rightarrow> media_track option"
    and copies decodes :: "media_track \<Rightarrow> bool"
  assumes pick_ladder: "pick ts =
    or_else (find (\<lambda>t. trk_default t \<and> copies t) ts)
      (or_else (find copies ts)
      (or_else (find (\<lambda>t. trk_default t \<and> decodes t) ts)
      (or_else (find decodes ts)
      (or_else (find trk_default ts) (first_of ts)))))"
begin

definition rank :: "media_track \<Rightarrow> nat" where
  "rank t = (if copies t then 0 else if decodes t then 2 else 4) + (if trk_default t then 0 else 1)"

lemma rank_bounds:
  "trk_default a \<and> copies a \<longleftrightarrow> rank a = 0"
  "Suc 0 \<le> rank a \<Longrightarrow> copies a \<longleftrightarrow> rank a = Suc 0"
  "Suc (Suc 0) \<le> rank a \<Longrightarrow> trk_default a \<and> decodes a \<longleftrightarrow> rank a = Suc (Suc 0)"
  "Suc (Suc (Suc 0)) \<le> rank a \<Longrightarrow> decodes a \<longleftrightarrow> rank a = Suc (Suc (Suc 0))"
  "Suc (Suc (Suc (Suc 0))) \<le> rank a \<Longrightarrow> trk_default a \<longleftrightarrow> rank a = Suc (Suc (Suc (Suc 0)))"
  "rank a \<le> Suc (Suc (Suc (Suc (Suc 0))))"
  by (cases "copies a"; cases "decodes a"; cases "trk_default a"; simp add: rank_def)+

lemma pick_best: "pick ts = find (\<lambda>t. \<forall>a \<in> set ts. rank t \<le> rank a) ts"
  unfolding pick_ladder
  apply (rule pick_rank [where n = 0], simp, rule rank_bounds(1))
  apply (rule pick_rank, assumption, rule rank_bounds(2), assumption)
  apply (rule pick_rank, assumption, rule rank_bounds(3), assumption)
  apply (rule pick_rank, assumption, rule rank_bounds(4), assumption)
  apply (rule pick_rank, assumption, rule rank_bounds(5), assumption)
proof -
  assume "\<forall>a \<in> set ts. Suc (Suc (Suc (Suc (Suc 0)))) \<le> rank a"
  then have "\<forall>a \<in> set ts. rank a = Suc (Suc (Suc (Suc (Suc 0))))" using rank_bounds(6) le_antisym by blast
  then have "find (\<lambda>t. \<forall>a \<in> set ts. rank t \<le> rank a) ts = find (\<lambda>t. True) ts" by (intro find_cong) auto
  then show "first_of ts = find (\<lambda>t. \<forall>a \<in> set ts. rank t \<le> rank a) ts" by (cases ts) (simp_all add: first_of_def)
qed

lemma pick_playable:
  assumes "t \<in> set ts" "copies t \<or> decodes t"
  shows "\<exists>p. pick ts = Some p \<and> p \<in> set ts \<and> (copies p \<or> decodes p)"
proof -
  obtain m where m: "m \<in> set ts" "\<forall>a \<in> set ts. rank m \<le> rank a"
    using assms(1) arg_min_nat_lemma [of "\<lambda>a. a \<in> set ts" t rank] by blast
  have "pick ts \<noteq> None" unfolding pick_best find_None_iff using m by blast
  then obtain p where p: "pick ts = Some p" by blast
  then have r: "p \<in> set ts" "rank p \<le> rank t" using find_in_set [OF p [unfolded pick_best]] assms(1) by auto
  have "rank t \<le> 3" using assms(2) by (cases "copies t"; cases "decodes t"; simp add: rank_def)
  then have "rank p \<le> 3" using r(2) by linarith
  then have "copies p \<or> decodes p" by (cases "copies p"; cases "decodes p"; simp add: rank_def)
  then show ?thesis using p r(1) by blast
qed

lemma pick_None: "pick ts = None \<longleftrightarrow> ts = []"
  by (cases ts) (auto simp: pick_ladder or_else_def first_of_def split: option.split)

end

definition session_pick :: "playback_target \<Rightarrow> media_track list \<Rightarrow> media_track option" where
  "session_pick target audio_tracks =
     or_else (find (\<lambda>t. trk_default t \<and> track_can_copy_for_target target t) audio_tracks)
       (or_else (find (track_can_copy_for_target target) audio_tracks)
       (or_else (find (\<lambda>t. trk_default t \<and> audio_can_transcode_for_target (trk_family t) target) audio_tracks)
       (or_else (find (\<lambda>t. audio_can_transcode_for_target (trk_family t) target) audio_tracks)
       (or_else (find trk_default audio_tracks)
         (first_of audio_tracks)))))"

interpretation session_audio: audio_choice "session_pick target" "track_can_copy_for_target target"
  "\<lambda>t. audio_can_transcode_for_target (trk_family t) target" for target
  by unfold_locales (simp add: session_pick_def)

text \<open>The order of preference of a target: the lower, the better.\<close>

definition audio_rank :: "playback_target \<Rightarrow> media_track \<Rightarrow> nat" where
  "audio_rank target t =
     (if track_can_copy_for_target target t then 0
      else if audio_can_transcode_for_target (trk_family t) target then 2 else 4) + (if trk_default t then 0 else 1)"

lemma session_rank: "session_audio.rank target = audio_rank target"
  by (rule ext) (simp add: session_audio.rank_def audio_rank_def)

text \<open>The primary audio track is the first of the best: among the audio tracks of the source, the first
  one no other is preferred to, where a track the target plays as it is comes before one it can only be given
  transcoded and that before any other, and within each the default tracks come first.\<close>

theorem primary_audio_is_best:
  "primary_audio_track probe target =
    (let audio = filter (\<lambda>t. trk_kind t = Audio) (pr_tracks probe)
     in find (\<lambda>t. list_all (\<lambda>a. audio_rank target t \<le> audio_rank target a) audio) audio)"
proof -
  have e: "filter (target_can_use_track target) (filter (\<lambda>t. trk_kind t = Audio) (pr_tracks probe)) =
      filter (\<lambda>t. trk_kind t = Audio) (pr_tracks probe)"
    unfolding filter_filter by (rule filter_cong) (auto simp: target_can_use_track_def)
  then have "primary_audio_track probe target = session_pick target (filter (\<lambda>t. trk_kind t = Audio) (pr_tracks probe))"
    by (simp only: primary_audio_track_def session_pick_def Let_def)
  then show ?thesis by (simp only: session_audio.pick_best session_rank Let_def list_all_iff)
qed

section \<open>One output per audio track\<close>

lemma selected_audio_stage:
  assumes d: "distinct (map trk_id (pr_tracks probe))" and t: "t \<in> set (select_tracks probe constraints)"
    and k: "trk_kind t \<noteq> Subtitle"
  shows "output_stage_for_track (pp_stages (plan_playback probe constraints)) (trk_id t) =
    Some (if track_can_copy_for_target (pcs_target constraints) t then ''packet-copy0'' else ''encode0'')"
proof -
  have u: "s = t" if "s \<in> set (select_tracks probe constraints)" "trk_id s = trk_id t" for s
    using selected_unique [OF d that(1) t that(2)] .
  have m: "trk_id t \<in> set (map trk_id (filter P (select_tracks probe constraints))) \<longleftrightarrow> P t" for P
    unfolding set_map set_filter image_iff using u t by (metis (mono_tags, lifting) mem_Collect_eq)
  have c: "trk_id t \<in> set (copy_ids probe constraints) \<longleftrightarrow> track_can_copy_for_target (pcs_target constraints) t"
    "trk_id t \<in> set (decode_ids probe constraints) \<longleftrightarrow> \<not> track_can_copy_for_target (pcs_target constraints) t"
    "trk_id t \<notin> set (text_ids probe constraints)"
    unfolding copy_ids_def decode_ids_def text_ids_def m using k by simp_all
  have f: "find Q (rev (if ids = [] then [] else xs)) = (if ids = [] then None else find Q (rev xs))" for Q ids and xs :: "pipeline_stage list"
    by simp
  show ?thesis
    using c unfolding output_stage_for_track_def plan_stages rev_append find_append f
    by (cases "copy_ids probe constraints = []"; cases "decode_ids probe constraints = []";
        cases "track_can_copy_for_target (pcs_target constraints) t"; simp split: if_split)
qed

lemma selected_of_kind:
  assumes d: "distinct (map trk_id (pr_tracks probe))" and t: "t \<in> set (select_tracks probe constraints)"
  shows "list_ex (\<lambda>s. trk_id s = trk_id t \<and> trk_kind s = kind) (pr_tracks probe) \<longleftrightarrow> trk_kind t = kind"
proof -
  have "s = t" if "s \<in> set (pr_tracks probe)" "trk_id s = trk_id t" for s
    using that selected_in_probe [OF t] d by (metis distinct_map inj_on_def)
  then show ?thesis using selected_in_probe [OF t] by (auto simp: list_ex_iff)
qed

text \<open>C31: The fan-out of a plan made from a probe has one output for each selected audio track, in their order,
  fed by the copy stage when the target plays the track and by the encoder when it does not, and all of them
  share the one stage that emits the selected video.\<close>

theorem multi_audio_fanout:
  fixes path size_bytes bs constraints
  defines "probe \<equiv> probe_metadata path size_bytes bs"
  defines "stage \<equiv> \<lambda>t. if track_can_copy_for_target (pcs_target constraints) t then ''packet-copy0'' else ''encode0''"
  defines "video \<equiv> find (\<lambda>t. trk_kind t = Video) (select_tracks probe constraints)"
  shows "plan_multi_audio_outputs (plan_playback probe constraints) probe =
    \<lparr>mao_video_track_id = map_option trk_id video, mao_shared_video_stage_id = map_option stage video,
     mao_audio_outputs = map (\<lambda>t. \<lparr>ao_audio_track_id = trk_id t, ao_audio_stage_id = stage t,
         ao_shared_video_stage_id = map_option stage video, ao_duplicates_video_encode = False\<rparr>)
       (filter (\<lambda>t. trk_kind t = Audio) (select_tracks probe constraints))\<rparr>"
proof -
  have d: "distinct (map trk_id (pr_tracks probe))" unfolding probe_def by (rule probe_ids_distinct)
  let ?sel = "select_tracks probe constraints"
  let ?is = "\<lambda>kind track_id. list_ex (\<lambda>t. trk_id t = track_id \<and> trk_kind t = kind) (pr_tracks probe)"
  have kind: "?is kind (trk_id t) \<longleftrightarrow> trk_kind t = kind" if "t \<in> set ?sel" for t kind
    using selected_of_kind [OF d that] .
  have "find (?is Video) (map trk_id ts) = map_option trk_id (find (\<lambda>t. trk_kind t = Video) ts)" if "set ts \<subseteq> set ?sel" for ts
    using that by (induction ts) (simp_all add: kind)
  then have v: "find (?is Video) (map trk_id ?sel) = map_option trk_id video" by (simp add: video_def)
  have st: "output_stage_for_track (pp_stages (plan_playback probe constraints)) (trk_id t) = Some (stage t)"
    if "t \<in> set ?sel" "trk_kind t \<noteq> Subtitle" for t
    using selected_audio_stage [OF d that] by (simp add: stage_def)
  have s: "Option.bind (map_option trk_id video) (output_stage_for_track (pp_stages (plan_playback probe constraints))) = map_option stage video"
  proof (cases video)
    case (Some t)
    then have "t \<in> set ?sel \<and> trk_kind t = Video" unfolding video_def by (rule find_in_set)
    then show ?thesis using st Some by simp
  qed simp
  have a: "List.map_filter (\<lambda>i. map_option (f i) (output_stage_for_track (pp_stages (plan_playback probe constraints)) i))
      (filter (?is Audio) (map trk_id ts)) = map (\<lambda>t. f (trk_id t) (stage t)) (filter (\<lambda>t. trk_kind t = Audio) ts)"
    if "set ts \<subseteq> set ?sel" for ts and f :: "string \<Rightarrow> string \<Rightarrow> audio_output_plan"
    using that by (induction ts) (simp_all add: kind st map_filter_simps)
  show ?thesis
    unfolding plan_multi_audio_outputs_def Let_def plan_selected v s a [OF subset_refl] by (rule refl)
qed

end
