(* ===== verification/ExecutionPlans.thy ===== *)
theory ExecutionPlans
  imports Sessions
begin

text \<open>
  The execution plan of a native HLS transcode (\<open>transcode/execution_plan.rs\<close>): which tracks it takes, whether each is
  copied or decoded and encoded, the stages in order, what the build lacks to run it, and the output it promises.
\<close>

section \<open>Requests and plans\<close>

datatype video_codec = CodecH264 | CodecHevc | CodecAv1

datatype audio_codec = CodecAac | CodecAc3 | CodecEac3

datatype transcode_stage_kind =
    TsDemux | TsVideoCopy | TsVideoDecode | TsVideoEncode | TsAudioCopy | TsAudioDecode | TsAudioEncode | TsHlsFmp4Mux

datatype transcode_stage_status = NativeReady | PacketCopyStatus | NativeMissing

record hls_transcode_request =
  htr_target :: playback_target
  htr_audio_track_id :: "string option"
  htr_segment_target_ms :: nat
  htr_force_video_transcode :: bool

record transcode_stage =
  xs_id :: string
  xs_kind :: transcode_stage_kind
  xs_track_ids :: "string list"
  xs_status :: transcode_stage_status
  xs_reason :: string
  xs_missing_capability :: "string option"

record transcode_output_video =
  ov_codec :: video_codec
  ov_packet_copy :: bool
  ov_bitrate_bps :: nat
  ov_width :: "nat option"
  ov_height :: "nat option"

record transcode_output_audio =
  oa_codec :: audio_codec
  oa_packet_copy :: bool
  oa_channels :: nat
  oa_sample_rate :: nat
  oa_bitrate_bps :: nat

record transcode_output_plan =
  top_transport :: string
  top_segment_target_ms :: nat
  top_video :: "transcode_output_video option"
  top_audio :: "transcode_output_audio option"

record transcode_execution_plan =
  xp_schema_version :: nat
  xp_source_path :: ustring
  xp_target :: playback_target
  xp_selected_video_track_id :: "string option"
  xp_selected_audio_track_id :: "string option"
  xp_output :: transcode_output_plan
  xp_stages :: "transcode_stage list"
  xp_engine_executable :: bool
  xp_missing_capabilities :: "string list"
  xp_reasons :: "string list"

section \<open>What the build can do\<close>

definition video_can_copy_for_hls :: "media_track \<Rightarrow> playback_target \<Rightarrow> bool" where
  "video_can_copy_for_hls track target =
     (case target of
        Browser \<Rightarrow> trk_family track = H264
      | _ \<Rightarrow> trk_family track \<in> {H264, Hevc})"

definition audio_can_copy_for_hls :: "playback_target \<Rightarrow> media_track \<Rightarrow> bool" where
  "audio_can_copy_for_hls target track =
     (case target of
        NativeChroma \<Rightarrow> trk_family track \<in> {Aac, Ac3, Eac3, Mp3}
      | AppleNative \<Rightarrow> trk_family track \<in> {Aac, Ac3, Eac3, Mp3}
      | Browser \<Rightarrow> trk_family track \<in> {Aac, Mp3})"

definition native_video_decode_ready :: "codec_family \<Rightarrow> bool" where
  "native_video_decode_ready family \<longleftrightarrow> family \<in> {H264, Hevc, Av1}"

definition native_audio_decode_ready :: "codec_family \<Rightarrow> bool" where
  "native_audio_decode_ready family \<longleftrightarrow> family \<in> {Opus, TrueHd, Dts}"

definition native_video_decode_reason :: "codec_family \<Rightarrow> string" where
  "native_video_decode_reason family =
     (case family of
        H264 \<Rightarrow> ''preferred native H.264 decode with portable OpenH264 fallback emits BGRA frames''
      | Hevc \<Rightarrow> ''preferred native HEVC decode with portable safe-Rust fallback emits BGRA frames''
      | Av1 \<Rightarrow> ''portable dav1d AV1 decode emits BGRA frames''
      | _ \<Rightarrow> ''native video decode emits BGRA frames'')"

definition native_audio_decode_reason :: "codec_family \<Rightarrow> string" where
  "native_audio_decode_reason family =
     (case family of
        Opus \<Rightarrow> ''portable pure-Rust Opus decode can feed the target-native audio bridge''
      | TrueHd \<Rightarrow> ''portable TrueHD decode can feed the target-native audio bridge''
      | Dts \<Rightarrow> ''portable DTS Core decode can feed the target-native audio bridge''
      | _ \<Rightarrow> ''portable audio decode can feed the target-native audio bridge'')"

definition capability_label :: "codec_family \<Rightarrow> string" where
  "capability_label family =
     (case family of
        H264 \<Rightarrow> ''h264'' | Hevc \<Rightarrow> ''hevc'' | Av1 \<Rightarrow> ''av1'' | Vp9 \<Rightarrow> ''vp9'' | Aac \<Rightarrow> ''aac'' | Ac3 \<Rightarrow> ''ac3''
      | Eac3 \<Rightarrow> ''eac3'' | Dts \<Rightarrow> ''dts'' | TrueHd \<Rightarrow> ''truehd'' | Flac \<Rightarrow> ''flac'' | Alac \<Rightarrow> ''alac'' | Opus \<Rightarrow> ''opus''
      | Mp3 \<Rightarrow> ''mp3'' | TextSubtitle \<Rightarrow> ''textSubtitle'' | BitmapSubtitle \<Rightarrow> ''bitmapSubtitle''
      | UnknownCodec \<Rightarrow> ''unknown'')"

section \<open>What comes out\<close>

definition video_codec_for_family :: "codec_family \<Rightarrow> video_codec option" where
  "video_codec_for_family family =
     (case family of H264 \<Rightarrow> Some CodecH264 | Hevc \<Rightarrow> Some CodecHevc | Av1 \<Rightarrow> Some CodecAv1 | _ \<Rightarrow> None)"

definition audio_codec_for_family :: "codec_family \<Rightarrow> audio_codec option" where
  "audio_codec_for_family family =
     (case family of Aac \<Rightarrow> Some CodecAac | Ac3 \<Rightarrow> Some CodecAc3 | Eac3 \<Rightarrow> Some CodecEac3 | _ \<Rightarrow> None)"

definition audio_transcode_codec :: "playback_target \<Rightarrow> codec_family \<Rightarrow> audio_codec" where
  "audio_transcode_codec target family =
     (case target of Browser \<Rightarrow> CodecAac | AppleNative \<Rightarrow> CodecAac | NativeChroma \<Rightarrow> CodecAac)"

definition unwrap_or :: "'a option \<Rightarrow> 'a \<Rightarrow> 'a" where
  "unwrap_or x d = (case x of Some v \<Rightarrow> v | None \<Rightarrow> d)"

definition audio_channels :: "media_track \<Rightarrow> nat" where
  "audio_channels track = unwrap_or (Option.bind (trk_audio track) ad_channels) 2"

definition audio_sample_rate :: "media_track \<Rightarrow> nat" where
  "audio_sample_rate track = unwrap_or (Option.bind (trk_audio track) ad_sample_rate) 48000"

definition audio_transcode_channels :: "media_track \<Rightarrow> audio_codec \<Rightarrow> nat" where
  "audio_transcode_channels track codec =
     (case codec of
        CodecAac \<Rightarrow> if trk_family track \<in> {Opus, TrueHd, Dts} then min (audio_channels track) 6
                    else min (audio_channels track) 2
      | _ \<Rightarrow> min (audio_channels track) 6)"

definition fallback_bitrate :: "media_track \<Rightarrow> nat" where
  "fallback_bitrate track =
     (let pixels = (case Option.bind (trk_video track) (\<lambda>v. case (vd_width v, vd_height v) of
               (Some w, Some h) \<Rightarrow> Some (w * h) | _ \<Rightarrow> None) of
             Some p \<Rightarrow> p | None \<Rightarrow> 1920 * 1080)
      in if 3840 * 2160 \<le> pixels then 16000000
         else if 1920 * 1080 \<le> pixels then 8000000
         else if 1280 * 720 \<le> pixels then 4500000
         else 2500000)"

definition video_bitrate_bps :: "media_track \<Rightarrow> bool \<Rightarrow> nat" where
  "video_bitrate_bps track packet_copy =
     (let source = (case Option.bind (trk_video track) vd_bitrate_bps of Some b \<Rightarrow> b | None \<Rightarrow> fallback_bitrate track)
      in if packet_copy then source else min source (fallback_bitrate track))"

definition audio_bitrate_bps :: "media_track \<Rightarrow> bool \<Rightarrow> nat" where
  "audio_bitrate_bps track packet_copy =
     (if packet_copy then unwrap_or (Option.bind (trk_audio track) ad_bitrate_bps) 384000
      else if min (audio_channels track) 6 \<le> 2 then 192000
      else 640000)"

section \<open>Stages\<close>

definition ready_stage :: "string \<Rightarrow> transcode_stage_kind \<Rightarrow> string list \<Rightarrow> string \<Rightarrow> transcode_stage" where
  "ready_stage i kind track_ids reason = \<lparr>xs_id = i, xs_kind = kind, xs_track_ids = track_ids, xs_status = NativeReady,
     xs_reason = reason, xs_missing_capability = None\<rparr>"

definition copy_stage :: "string \<Rightarrow> transcode_stage_kind \<Rightarrow> string list \<Rightarrow> string \<Rightarrow> transcode_stage" where
  "copy_stage i kind track_ids reason = \<lparr>xs_id = i, xs_kind = kind, xs_track_ids = track_ids, xs_status = PacketCopyStatus,
     xs_reason = reason, xs_missing_capability = None\<rparr>"

definition missing_stage :: "string \<Rightarrow> transcode_stage_kind \<Rightarrow> string list \<Rightarrow> string \<Rightarrow> string \<Rightarrow> transcode_stage" where
  "missing_stage i kind track_ids reason missing = \<lparr>xs_id = i, xs_kind = kind, xs_track_ids = track_ids,
     xs_status = NativeMissing, xs_reason = reason, xs_missing_capability = Some missing\<rparr>"

definition selected_ids :: "media_track option \<Rightarrow> media_track option \<Rightarrow> string list" where
  "selected_ids video audio =
     map trk_id ((case video of Some v \<Rightarrow> [v] | None \<Rightarrow> []) @ (case audio of Some a \<Rightarrow> [a] | None \<Rightarrow> []))"

definition needs_tone_map :: "media_track \<Rightarrow> bool" where
  "needs_tone_map track =
     (case trk_video track of
        Some video \<Rightarrow> vd_dynamic_range video \<in> {RangeHdr10, RangeHdr10Plus, RangeHlg, RangeDolbyVision}
      | None \<Rightarrow> False)"

text \<open>The stages, the reasons and the output of the video track.\<close>

definition plan_video :: "hls_transcode_request \<Rightarrow> media_track \<Rightarrow> transcode_stage list \<times> string list \<times> transcode_output_video" where
  "plan_video request track =
     (if \<not> htr_force_video_transcode request \<and> video_can_copy_for_hls track (htr_target request) then
        ([copy_stage ''video-copy0'' TsVideoCopy [trk_id track]
            ''target can consume the compressed video packets without decode''],
         [''video '' @ trk_id track @ '' stays on packet-copy path''],
         \<lparr>ov_codec = unwrap_or (video_codec_for_family (trk_family track)) CodecH264, ov_packet_copy = True,
          ov_bitrate_bps = video_bitrate_bps track True, ov_width = Option.bind (trk_video track) vd_width,
          ov_height = Option.bind (trk_video track) vd_height\<rparr>)
      else
        ((if needs_tone_map track then
            [missing_stage ''tone-map0'' TsVideoEncode [trk_id track]
               ''HDR-to-SDR requires verified tone mapping; use compatible compressed HDR copy''
               ''videoToneMap:hdrToSdr'']
          else []) @
         (if native_video_decode_ready (trk_family track) then
            [ready_stage ''video-decode0'' TsVideoDecode [trk_id track] (native_video_decode_reason (trk_family track))]
          else
            [missing_stage ''video-decode0'' TsVideoDecode [trk_id track]
               ''compressed source video must decode before target-native HLS encode''
               (''videoDecode:'' @ capability_label (trk_family track))]) @
         [ready_stage ''video-encode0'' TsVideoEncode [trk_id track]
            ''preferred native H.264 encode with portable OpenH264 fallback''],
         [''video '' @ trk_id track @ '' is planned for native H.264 encode''],
         \<lparr>ov_codec = CodecH264, ov_packet_copy = False, ov_bitrate_bps = video_bitrate_bps track False,
          ov_width = Option.bind (trk_video track) vd_width, ov_height = Option.bind (trk_video track) vd_height\<rparr>))"

definition show_audio_codec :: "audio_codec \<Rightarrow> string" where
  "show_audio_codec codec = (case codec of CodecAac \<Rightarrow> ''Aac'' | CodecAc3 \<Rightarrow> ''Ac3'' | CodecEac3 \<Rightarrow> ''Eac3'')"

definition plan_audio :: "hls_transcode_request \<Rightarrow> media_track \<Rightarrow> transcode_stage list \<times> string list \<times> transcode_output_audio" where
  "plan_audio request track =
     (if audio_can_copy_for_hls (htr_target request) track then
        ([copy_stage ''audio-copy0'' TsAudioCopy [trk_id track]
            ''target can consume the compressed audio packets without decode''],
         [''audio '' @ trk_id track @ '' stays on packet-copy path''],
         \<lparr>oa_codec = unwrap_or (audio_codec_for_family (trk_family track)) CodecAac, oa_packet_copy = True,
          oa_channels = audio_channels track, oa_sample_rate = audio_sample_rate track,
          oa_bitrate_bps = audio_bitrate_bps track True\<rparr>)
      else
        (let target_codec = audio_transcode_codec (htr_target request) (trk_family track)
         in ((if native_audio_decode_ready (trk_family track) then
                [ready_stage ''audio-decode0'' TsAudioDecode [trk_id track] (native_audio_decode_reason (trk_family track))]
              else
                [missing_stage ''audio-decode0'' TsAudioDecode [trk_id track]
                   ''compressed source audio must decode before target-native HLS encode''
                   (''audioDecode:'' @ capability_label (trk_family track))]) @
             [ready_stage ''audio-encode0'' TsAudioEncode [trk_id track]
                ''native audio encode backend exists for the selected output codec''],
             [''audio '' @ trk_id track @ '' is planned for native '' @ show_audio_codec target_codec @ '' encode''],
             \<lparr>oa_codec = target_codec, oa_packet_copy = False,
              oa_channels = audio_transcode_channels track target_codec, oa_sample_rate = audio_sample_rate track,
              oa_bitrate_bps = audio_bitrate_bps track False\<rparr>)))"

definition transcode_pick :: "playback_target \<Rightarrow> media_track list \<Rightarrow> media_track option" where
  "transcode_pick target tracks =
     or_else (find (\<lambda>t. trk_default t \<and> audio_can_copy_for_hls target t) tracks)
       (or_else (find (audio_can_copy_for_hls target) tracks)
       (or_else (find (\<lambda>t. trk_default t \<and> native_audio_decode_ready (trk_family t)) tracks)
       (or_else (find (\<lambda>t. native_audio_decode_ready (trk_family t)) tracks)
       (or_else (find trk_default tracks)
         (first_of tracks)))))"

definition select_audio_track :: "media_probe \<Rightarrow> string option \<Rightarrow> playback_target \<Rightarrow> media_track option" where
  "select_audio_track probe requested target =
     (let tracks = filter (\<lambda>t. trk_kind t = Audio) (pr_tracks probe)
      in case requested of
           Some r \<Rightarrow> find (\<lambda>t. trk_id t = r) tracks
         | None \<Rightarrow> transcode_pick target tracks)"

definition plan_hls_transcode :: "media_probe \<Rightarrow> hls_transcode_request \<Rightarrow> transcode_execution_plan" where
  "plan_hls_transcode probe request =
     (let video = find (\<lambda>t. trk_kind t = Video) (pr_tracks probe);
          audio = select_audio_track probe (htr_audio_track_id request) (htr_target request);
          v = map_option (plan_video request) video;
          a = map_option (plan_audio request) audio;
          stages =
            [ready_stage ''demux0'' TsDemux (selected_ids video audio) ''bounded native container probe and packet scheduling''] @
            (case v of Some (vs, _, _) \<Rightarrow> vs | None \<Rightarrow> []) @
            (case a of Some (as, _, _) \<Rightarrow> as | None \<Rightarrow> []) @
            [ready_stage ''hls-fmp4-mux0'' TsHlsFmp4Mux (selected_ids video audio)
               ''native HLS/fMP4 muxer owns playlists, init segments, and media fragments''];
          missing_capabilities = List.map_filter xs_missing_capability stages
      in \<lparr>xp_schema_version = 1, xp_source_path = src_path (pr_source probe), xp_target = htr_target request,
          xp_selected_video_track_id = map_option trk_id video, xp_selected_audio_track_id = map_option trk_id audio,
          xp_output = \<lparr>top_transport = ''hlsFmp4'', top_segment_target_ms = htr_segment_target_ms request,
            top_video = map_option (snd \<circ> snd) v, top_audio = map_option (snd \<circ> snd) a\<rparr>,
          xp_stages = stages, xp_engine_executable = (missing_capabilities = []),
          xp_missing_capabilities = missing_capabilities,
          xp_reasons = (case v of Some (_, rs, _) \<Rightarrow> rs | None \<Rightarrow> []) @ (case a of Some (_, rs, _) \<Rightarrow> rs | None \<Rightarrow> [])\<rparr>)"

section \<open>The ladder of the transcoder\<close>

interpretation transcode_audio: audio_choice "transcode_pick target" "audio_can_copy_for_hls target"
  "\<lambda>t. native_audio_decode_ready (trk_family t)" for target
  by unfold_locales (simp add: transcode_pick_def)

lemma missing_append: "List.map_filter f (xs @ ys) = List.map_filter f xs @ List.map_filter f ys"
  by (induction xs) (simp_all add: map_filter_simps split: option.split)

lemma stage_missing [simp]:
  "xs_missing_capability (ready_stage i k t r) = None" "xs_missing_capability (copy_stage i k t r) = None"
  "xs_missing_capability (missing_stage i k t r m) = Some m"
  by (simp_all add: ready_stage_def copy_stage_def missing_stage_def)

text \<open>What the video and the audio stages lack.\<close>

definition video_gaps :: "hls_transcode_request \<Rightarrow> media_track \<Rightarrow> string list" where
  "video_gaps request t =
     (if \<not> htr_force_video_transcode request \<and> video_can_copy_for_hls t (htr_target request) then []
      else (if needs_tone_map t then [''videoToneMap:hdrToSdr''] else []) @
        (if native_video_decode_ready (trk_family t) then [] else [''videoDecode:'' @ capability_label (trk_family t)]))"

definition audio_gaps :: "hls_transcode_request \<Rightarrow> media_track \<Rightarrow> string list" where
  "audio_gaps request t =
     (if audio_can_copy_for_hls (htr_target request) t \<or> native_audio_decode_ready (trk_family t) then []
      else [''audioDecode:'' @ capability_label (trk_family t)])"

lemma video_stage_gaps: "List.map_filter xs_missing_capability (fst (plan_video request t)) = video_gaps request t"
  by (simp add: plan_video_def video_gaps_def missing_append map_filter_simps)

lemma audio_stage_gaps: "List.map_filter xs_missing_capability (fst (plan_audio request t)) = audio_gaps request t"
  by (simp add: plan_audio_def audio_gaps_def missing_append map_filter_simps Let_def)

lemma plan_missing:
  "xp_missing_capabilities (plan_hls_transcode probe request) =
    (case find (\<lambda>t. trk_kind t = Video) (pr_tracks probe) of Some t \<Rightarrow> video_gaps request t | None \<Rightarrow> []) @
    (case select_audio_track probe (htr_audio_track_id request) (htr_target request) of
       Some t \<Rightarrow> audio_gaps request t | None \<Rightarrow> [])"
  by (simp add: plan_hls_transcode_def Let_def missing_append map_filter_simps video_stage_gaps [symmetric]
      audio_stage_gaps [symmetric] case_prod_beta split: option.split)

text \<open>C26: A transcode plan that asks for no particular audio track can be run by the engine exactly when the first
  video track is copied, or is standard dynamic range of a family the engine decodes, and the source has no
  audio track or some audio track that is copied or decoded: the choice of the track never costs the plan its
  executability.\<close>

theorem transcode_plan_executable_iff:
  assumes "htr_audio_track_id request = None"
  shows "xp_engine_executable (plan_hls_transcode probe request) \<longleftrightarrow>
    (case find (\<lambda>t. trk_kind t = Video) (pr_tracks probe) of
       None \<Rightarrow> True
     | Some t \<Rightarrow> \<not> htr_force_video_transcode request \<and> video_can_copy_for_hls t (htr_target request) \<or>
         \<not> needs_tone_map t \<and> native_video_decode_ready (trk_family t)) \<and>
    (let audio = filter (\<lambda>t. trk_kind t = Audio) (pr_tracks probe)
     in audio = [] \<or> list_ex (\<lambda>t. audio_can_copy_for_hls (htr_target request) t \<or> native_audio_decode_ready (trk_family t)) audio)"
proof -
  let ?audio = "filter (\<lambda>t. trk_kind t = Audio) (pr_tracks probe)"
  have e: "xp_engine_executable (plan_hls_transcode probe request) \<longleftrightarrow> xp_missing_capabilities (plan_hls_transcode probe request) = []"
    by (simp add: plan_hls_transcode_def Let_def)
  have s: "select_audio_track probe None (htr_target request) = transcode_pick (htr_target request) ?audio"
    by (simp add: select_audio_track_def)
  let ?ok = "\<lambda>t. audio_can_copy_for_hls (htr_target request) t \<or> native_audio_decode_ready (trk_family t)"
  have "(case transcode_pick (htr_target request) ?audio of Some t \<Rightarrow> audio_gaps request t | None \<Rightarrow> []) = [] \<longleftrightarrow>
      ?audio = [] \<or> list_ex ?ok ?audio"
  proof (cases "transcode_pick (htr_target request) ?audio")
    case None
    then have n: "?audio = []" using transcode_audio.pick_None by blast
    show ?thesis unfolding None by (simp add: n)
  next
    case (Some p)
    have p: "p \<in> set ?audio" using find_in_set [OF Some [unfolded transcode_audio.pick_best]] by (rule conjunct1)
    have g: "audio_gaps request p = [] \<longleftrightarrow> ?ok p" by (simp add: audio_gaps_def)
    have "?ok p" if t: "t \<in> set ?audio" "?ok t" for t
    proof -
      obtain q where "transcode_pick (htr_target request) ?audio = Some q" "?ok q"
        using transcode_audio.pick_playable [OF t] by (elim exE conjE) (rule that)
      then show ?thesis using Some by simp
    qed
    then have ex: "list_ex ?ok ?audio \<longleftrightarrow> ?ok p" unfolding list_ex_iff using p by blast
    have "?audio \<noteq> []" using p by (metis empty_iff list.set(1))
    then show ?thesis unfolding Some by (simp add: g ex)
  qed
  moreover have "video_gaps request t = [] \<longleftrightarrow>
      \<not> htr_force_video_transcode request \<and> video_can_copy_for_hls t (htr_target request) \<or>
      \<not> needs_tone_map t \<and> native_video_decode_ready (trk_family t)" for t
    by (simp add: video_gaps_def)
  ultimately show ?thesis unfolding e plan_missing assms s Let_def by (simp split: option.split)
qed

definition demo_media_track :: "string \<Rightarrow> track_kind \<Rightarrow> codec_family \<Rightarrow> media_track" where
  "demo_media_track i kind family =
     \<lparr>trk_id = i, trk_index = 0, trk_kind = kind, trk_codec = \<lparr>cdc_id = [], cdc_family = family, cdc_profile = None\<rparr>,
      trk_duration_ms = None, trk_language = None, trk_title = None, trk_flags = \<lparr>fl_default = False, fl_forced = False\<rparr>,
      trk_video = None, trk_audio = None, trk_subtitle = None\<rparr>"

definition demo_probe :: "media_track list \<Rightarrow> media_probe" where
  "demo_probe tracks =
     \<lparr>pr_schema_version = 1, pr_source = \<lparr>src_path = [], src_size_bytes = 0,
        src_container = container_descriptor_of Mp4 []\<rparr>, pr_duration_ms = None, pr_tracks = tracks, pr_chapters = [],
      pr_attachment_count = 0, pr_capabilities = infer_capabilities tracks\<rparr>"

definition demo_request :: "playback_target \<Rightarrow> hls_transcode_request" where
  "demo_request target = \<lparr>htr_target = target, htr_audio_track_id = None, htr_segment_target_ms = 6000,
     htr_force_video_transcode = False\<rparr>"

theorem transcode_plan_executable_iff_witness:
  "xp_engine_executable (plan_hls_transcode
     (demo_probe [demo_media_track ''v0'' Video H264, demo_media_track ''a0'' Audio Flac, demo_media_track ''a1'' Audio Opus])
     (demo_request Browser))"
  by (subst transcode_plan_executable_iff) (simp_all add: demo_request_def demo_probe_def demo_media_track_def
      video_can_copy_for_hls_def native_audio_decode_ready_def)

section \<open>The promised output\<close>

lemma fallback_range: "2500000 \<le> fallback_bitrate t \<and> fallback_bitrate t \<le> 16000000"
  by (simp add: fallback_bitrate_def Let_def)

text \<open>C27: What a transcode plan promises about its output: a copied video track keeps its codec and its bit rate,
  an encoded one is H.264 at no more than the source's bit rate and at no more than 16 Mbit/s; encoded audio is AAC with
  the source's channels up to six, and never more than the source has.\<close>

theorem transcode_output_bounds:
  fixes probe request
  defines "output \<equiv> xp_output (plan_hls_transcode probe request)"
  defines "video \<equiv> find (\<lambda>t. trk_kind t = Video) (pr_tracks probe)"
  defines "audio \<equiv> select_audio_track probe (htr_audio_track_id request) (htr_target request)"
  shows "(case (top_video output, video) of
      (None, None) \<Rightarrow> True
    | (Some ov, Some t) \<Rightarrow>
        if ov_packet_copy ov
        then video_codec_for_family (trk_family t) = Some (ov_codec ov) \<and>
          ov_bitrate_bps ov = unwrap_or (Option.bind (trk_video t) vd_bitrate_bps) (fallback_bitrate t)
        else ov_codec ov = CodecH264 \<and> ov_bitrate_bps ov \<le> 16000000 \<and>
          ov_bitrate_bps ov \<le> unwrap_or (Option.bind (trk_video t) vd_bitrate_bps) 16000000
    | _ \<Rightarrow> False) \<and>
    (case (top_audio output, audio) of
      (None, None) \<Rightarrow> True
    | (Some oa, Some t) \<Rightarrow>
        oa_sample_rate oa = audio_sample_rate t \<and>
        (if oa_packet_copy oa then oa_channels oa = audio_channels t
         else oa_codec oa = CodecAac \<and> oa_channels oa \<le> 6 \<and> oa_channels oa \<le> audio_channels t)
    | _ \<Rightarrow> False)"
proof -
  have v: "top_video output = map_option (\<lambda>t. snd (snd (plan_video request t))) video"
    and a: "top_audio output = map_option (\<lambda>t. snd (snd (plan_audio request t))) audio"
    by (simp_all add: output_def video_def audio_def plan_hls_transcode_def Let_def option.map_comp comp_def)
  have copied: "video_can_copy_for_hls t target \<Longrightarrow> video_codec_for_family (trk_family t) \<noteq> None" for t target
    by (cases target; cases "trk_family t") (simp_all add: video_can_copy_for_hls_def video_codec_for_family_def)
  have "ov_packet_copy (snd (snd (plan_video request t))) \<Longrightarrow>
      video_codec_for_family (trk_family t) = Some (ov_codec (snd (snd (plan_video request t))))" for t
    using copied by (auto simp: plan_video_def unwrap_or_def split: if_splits option.splits)
  then show ?thesis unfolding v a using fallback_range
    by (auto simp: plan_video_def plan_audio_def video_bitrate_bps_def unwrap_or_def audio_transcode_codec_def
        audio_transcode_channels_def Let_def min_le_iff_disj split: option.split playback_target.split)
qed

text \<open>A copied MP3 track has no codec of its own in the output plan, so it is announced as AAC.\<close>

lemma copied_mp3_announced_as_aac:
  "select_audio_track probe (htr_audio_track_id request) (htr_target request) = Some t \<Longrightarrow> trk_family t = Mp3 \<Longrightarrow>
    \<exists>oa. top_audio (xp_output (plan_hls_transcode probe request)) = Some oa \<and> oa_packet_copy oa \<and> oa_codec oa = CodecAac"
  by (cases "htr_target request") (simp_all add: plan_hls_transcode_def Let_def plan_audio_def audio_can_copy_for_hls_def
      audio_codec_for_family_def unwrap_or_def)

end
