(* ===== verification/DolbyBoxes.thy ===== *)
theory DolbyBoxes
  imports Mp4Codec
begin

text \<open>
  The Dolby audio headers of \<open>codec/ac3.rs\<close>: the AC-3 and E-AC-3 frame headers, the \<open>dac3\<close> and \<open>dec3\<close> boxes written from
  them, the bit reader and the bit writer underneath. A byte string is also read as the list of its bits, most significant
  first; the reader and the writer are proved to work on that list.
\<close>

section \<open>Bits of a byte string\<close>

definition bit_of :: "bytes \<Rightarrow> nat \<Rightarrow> bool" where
  "bit_of bs i = bit (bs ! (i div 8)) (7 - i mod 8)"

definition bits :: "bytes \<Rightarrow> bool list" where
  "bits bs = map (bit_of bs) [0..<8 * length bs]"

definition field :: "nat \<Rightarrow> nat \<Rightarrow> bool list" where
  "field n v = map (\<lambda>i. odd (v div 2 ^ i)) (rev [0..<n])"

definition num :: "bool list \<Rightarrow> nat" where
  "num xs = fold (\<lambda>b v. v * 2 + of_bool b) xs 0"

lemma length_bits [simp]: "length (bits bs) = 8 * length bs"
  by (simp add: bits_def)

lemma bits_nth: "i < 8 * length bs \<Longrightarrow> bits bs ! i = bit_of bs i"
  by (simp add: bits_def)

lemma length_field [simp]: "length (field n v) = n"
  by (simp add: field_def)

lemma num_snoc: "num (xs @ [b]) = num xs * 2 + of_bool b"
  by (simp add: num_def)

lemma num_bound: "num xs < 2 ^ length xs"
  by (induction xs rule: rev_induct) (auto simp: num_snoc, simp add: num_def)

lemma field_Suc: "field (Suc n) v = field n (v div 2) @ [odd v]"
proof -
  have "rev [0..<Suc n] = map Suc (rev [0..<n]) @ [0]"
    by (simp add: upt_conv_Cons rev_map flip: map_Suc_upt del: upt_Suc)
  then show ?thesis by (simp add: field_def div_mult2_eq)
qed

lemma num_field: "num (field n v) = v mod 2 ^ n"
proof (induction n arbitrary: v)
  case (Suc n)
  have "v div 2 mod 2 ^ n * 2 + v mod 2 = v mod 2 ^ Suc n"
    using mod_mult2_eq [of v 2 "2 ^ n"] by (simp add: mult.commute)
  then show ?case by (simp add: field_Suc num_snoc Suc.IH odd_iff_mod_2_eq_one)
qed (simp add: field_def num_def)

lemma num_field_id [simp]: "v < 2 ^ n \<Longrightarrow> num (field n v) = v"
  by (simp add: num_field)

lemma field_mod: "field n (v mod 2 ^ n) = field n v"
  by (simp add: field_def flip: bit_iff_odd take_bit_eq_mod) (simp add: bit_take_bit_iff)

lemma bits_append: "bits (xs @ ys) = bits xs @ bits ys"
proof (rule nth_equalityI)
  fix i assume "i < length (bits (xs @ ys))"
  moreover have "(i - 8 * length xs) div 8 = i div 8 - length xs"
      "(i - 8 * length xs) mod 8 = i mod 8" if "8 * length xs \<le> i"
    using that by (auto elim!: less_eqE)
  ultimately show "bits (xs @ ys) ! i = (bits xs @ bits ys) ! i"
    by (auto simp: nth_append bits_nth bit_of_def less_mult_imp_div_less not_less div_less_iff_less_mult)
qed simp

lemma bits_single: "bits [b] = map (bit b) [7, 6, 5, 4, 3, 2, 1, 0]"
  by (simp add: bits_def bit_of_def upt_rec)

section \<open>The writer\<close>

text \<open>\<open>BitWriter\<close>: the bytes it fills, which start as zeros, and the offset of the next bit. Writing past the last byte
  panics in the code and is \<open>None\<close> here.\<close>

record bit_writer =
  bw_bytes :: bytes
  bw_bit_offset :: nat

definition bit_writer_new :: "bytes \<Rightarrow> bit_writer" where
  "bit_writer_new out = \<lparr>bw_bytes = out, bw_bit_offset = 0\<rparr>"

definition write_bit :: "nat \<Rightarrow> bit_writer \<Rightarrow> bit_writer option" where
  "write_bit b w =
     (let byte_index = bw_bit_offset w div 8;
          shift = 7 - bw_bit_offset w mod 8
      in if byte_index < length (bw_bytes w)
         then Some \<lparr>bw_bytes = (bw_bytes w)[byte_index := bw_bytes w ! byte_index OR push_bit shift (byte b)],
                    bw_bit_offset = bw_bit_offset w + 1\<rparr>
         else None)"

primrec write_u16 :: "nat \<Rightarrow> nat \<Rightarrow> bit_writer \<Rightarrow> bit_writer option" where
  "write_u16 0 v w = Some w"
| "write_u16 (Suc bit_index) v w =
     Option.bind (write_bit (v div 2 ^ bit_index mod 2) w) (write_u16 bit_index v)"

definition bytes_written :: "bit_writer \<Rightarrow> nat" where
  "bytes_written w = div_ceil (bw_bit_offset w) 8"

text \<open>The fields written one after the other.\<close>

primrec write_fields :: "(nat \<times> nat) list \<Rightarrow> bit_writer \<Rightarrow> bit_writer option" where
  "write_fields [] w = Some w"
| "write_fields (f # fs) w = Option.bind (write_u16 (fst f) (snd f) w) (write_fields fs)"

definition field_bits :: "(nat \<times> nat) list \<Rightarrow> bool list" where
  "field_bits fs = concat (map (\<lambda>f. field (fst f) (snd f)) fs)"

text \<open>A writer holds the bits written so far, and zeros after them.\<close>

definition holds :: "bit_writer \<Rightarrow> nat \<Rightarrow> bool list \<Rightarrow> bool" where
  "holds w n out \<longleftrightarrow> length (bw_bytes w) = n \<and> bw_bit_offset w = length out \<and> length out \<le> 8 * n \<and>
     bits (bw_bytes w) = out @ replicate (8 * n - length out) False"

lemma holds_new: "holds (bit_writer_new (replicate n 0)) n []"
  by (auto simp: holds_def bit_writer_new_def bits_def bit_of_def less_mult_imp_div_less mult.commute
      intro!: map_replicate_const [symmetric] nth_equalityI)

lemma write_bit_holds:
  assumes "holds w n out" "length out < 8 * n" "b < 2"
  shows "\<exists>w'. write_bit b w = Some w' \<and> holds w' n (out @ [b = 1])"
proof -
  let ?k = "length out div 8" and ?s = "7 - length out mod 8"
  let ?bs = "(bw_bytes w)[?k := bw_bytes w ! ?k OR push_bit ?s (byte b)]"
  have len: "length (bw_bytes w) = n" "bw_bit_offset w = length out" and old: "bits (bw_bytes w) = out @ replicate (8 * n - length out) False"
    using assms(1) by (simp_all add: holds_def)
  have k: "?k < n" using assms(2) by (simp add: less_mult_imp_div_less mult.commute)
  have b: "bit (push_bit ?s (byte b)) j \<longleftrightarrow> b = 1 \<and> j = ?s" if "j < 8" for j
    using assms(3) that by (cases "b = 0") (auto simp: bit_push_bit_iff byte_def bit_1_iff bit_exp_iff less_2_cases_iff)
  have "bits ?bs = out @ (b = 1) # replicate (8 * n - length out - 1) False"
  proof (rule nth_equalityI)
    fix i assume "i < length (bits ?bs)"
    then have i: "i < 8 * n" using len by simp
    have same: "i = length out" if "i div 8 = ?k" "7 - i mod 8 = ?s"
    proof -
      have "i mod 8 = length out mod 8" using that(2) mod_less_divisor [of 8 i] mod_less_divisor [of 8 "length out"] by linarith
      then show ?thesis using that(1) by (metis div_mult_mod_eq)
    qed
    have "bits ?bs ! i \<longleftrightarrow> bits (bw_bytes w) ! i \<or> b = 1 \<and> i = length out"
    proof (cases "i div 8 = ?k")
      case True
      have "7 - i mod 8 = ?s \<longleftrightarrow> i = length out" using same [OF True] by blast
      moreover have "bit (push_bit ?s (byte b)) (7 - i mod 8) \<longleftrightarrow> b = 1 \<and> 7 - i mod 8 = ?s" by (rule b) linarith
      moreover have "bit_of ?bs i \<longleftrightarrow> bit (bw_bytes w ! ?k OR push_bit ?s (byte b)) (7 - i mod 8)"
        unfolding bit_of_def True using k len(1) by (simp only: nth_list_update_eq)
      moreover have "bit_of (bw_bytes w) i \<longleftrightarrow> bit (bw_bytes w ! ?k) (7 - i mod 8)" unfolding bit_of_def True ..
      moreover have "bits ?bs ! i = bit_of ?bs i" "bits (bw_bytes w) ! i = bit_of (bw_bytes w) i"
        by (simp_all only: bits_nth len(1) length_list_update i)
      ultimately show ?thesis by (simp only: bit_or_iff)
    next
      case False
      then have "i \<noteq> length out" by blast
      then show ?thesis using False i len(1) by (simp add: bits_nth bit_of_def)
    qed
    then show "bits ?bs ! i = (out @ (b = 1) # replicate (8 * n - length out - 1) False) ! i"
      using i by (auto simp: old nth_append nth_Cons' less_diff_conv)
  qed (use len assms(2) in simp)
  then show ?thesis using k len assms(2) by (simp add: write_bit_def Let_def holds_def)
qed

lemma write_u16_holds:
  "holds w n out \<Longrightarrow> length out + k \<le> 8 * n \<Longrightarrow> \<exists>w'. write_u16 k v w = Some w' \<and> holds w' n (out @ field k v)"
proof (induction k arbitrary: w out)
  case (Suc k)
  obtain w1 where w1: "write_bit (v div 2 ^ k mod 2) w = Some w1" "holds w1 n (out @ [odd (v div 2 ^ k)])"
    using write_bit_holds [OF Suc.prems(1), of "v div 2 ^ k mod 2"] Suc.prems(2)
    by (auto simp: odd_iff_mod_2_eq_one)
  obtain w2 where "write_u16 k v w1 = Some w2" "holds w2 n ((out @ [odd (v div 2 ^ k)]) @ field k v)"
    using Suc.IH [OF w1(2)] Suc.prems(2) by auto
  then show ?case using w1(1) by (simp add: field_def)
qed (simp add: field_def)

lemma length_field_bits: "length (field_bits fs) = sum_list (map fst fs)"
  by (induction fs) (simp_all add: field_bits_def)

lemma write_fields_holds:
  "holds w n out \<Longrightarrow> length out + sum_list (map fst fs) \<le> 8 * n \<Longrightarrow>
    \<exists>w'. write_fields fs w = Some w' \<and> holds w' n (out @ field_bits fs)"
proof (induction fs arbitrary: w out)
  case (Cons f fs)
  obtain w1 where w1: "write_u16 (fst f) (snd f) w = Some w1" "holds w1 n (out @ field (fst f) (snd f))"
    using write_u16_holds [OF Cons.prems(1), of "fst f" "snd f"] Cons.prems(2) by auto
  obtain w2 where "write_fields fs w1 = Some w2" "holds w2 n ((out @ field (fst f) (snd f)) @ field_bits fs)"
    using Cons.IH [OF w1(2)] Cons.prems(2) by (auto simp: add.assoc)
  then show ?case using w1(1) by (simp add: field_bits_def)
qed (simp add: field_bits_def)

section \<open>The reader\<close>

text \<open>\<open>BitReader\<close>: the state is the bit offset. Every failure carries its reason.\<close>

datatype dolby_error =
    MissingSyncWord | EndedEarly | TooManyBits | HalfSampleRate | BsidOutOfRange nat | FrameExceedsUnit
  | TooManySubstreams | SubstreamOrder | DependentWithoutParent | UnsupportedFrameType nat | NoIndependentSubstream
  | InvalidFscod | InvalidFscod2

definition ac3_read_bits :: "nat \<Rightarrow> bytes \<Rightarrow> nat \<Rightarrow> nat \<Rightarrow> dolby_error + (nat \<times> nat)" where
  "ac3_read_bits w bs bit_count bit_offset =
     (if w < bit_count then Inl TooManyBits
      else if length bs * 8 < sat_add 64 bit_offset bit_count then Inl EndedEarly
      else Inr (fold (\<lambda>i v. (v * 2 + bit_at bs i) mod 2 ^ w) [bit_offset..<bit_offset + bit_count] 0,
             bit_offset + bit_count))"

definition ac3_read :: "bytes \<Rightarrow> nat \<Rightarrow> nat \<Rightarrow> dolby_error + (nat \<times> nat)" where
  "ac3_read = ac3_read_bits 8"

definition ac3_read_u16 :: "bytes \<Rightarrow> nat \<Rightarrow> nat \<Rightarrow> dolby_error + (nat \<times> nat)" where
  "ac3_read_u16 = ac3_read_bits 16"

definition ac3_skip :: "bytes \<Rightarrow> nat \<Rightarrow> nat \<Rightarrow> dolby_error + nat" where
  "ac3_skip bs bit_count bit_offset =
     (if length bs * 8 < sat_add 64 bit_offset bit_count then Inl EndedEarly else Inr (bit_offset + bit_count))"

lemma bit_at_bit_of: "bit_at bs i = of_bool (bit_of bs i)"
  by (simp add: bit_at_def bit_of_def and_one_eq mod_2_eq_odd flip: bit_iff_odd_drop_bit)

lemma fold_bits:
  "off + n \<le> 8 * length bs \<Longrightarrow> n \<le> w \<Longrightarrow>
    fold (\<lambda>i v. (v * 2 + bit_at bs i) mod 2 ^ w) [off..<off + n] 0 = num (slice (bits bs) off (off + n))"
proof (induction n)
  case (Suc n)
  have snoc: "slice (bits bs) off (off + Suc n) = slice (bits bs) off (off + n) @ [bit_of bs (off + n)]"
    using Suc.prems(1) by (simp add: slice_def take_Suc_conv_app_nth bits_nth)
  have "num (slice (bits bs) off (off + Suc n)) < 2 ^ w"
    using num_bound [of "slice (bits bs) off (off + Suc n)"] Suc.prems
    by (elim order_less_le_trans) (simp add: power_increasing del: power_Suc)
  then have "num (slice (bits bs) off (off + n)) * 2 + of_bool (bit_of bs (off + n)) < 2 ^ w"
    by (simp only: snoc num_snoc)
  moreover have "fold (\<lambda>i v. (v * 2 + bit_at bs i) mod 2 ^ w) [off..<off + n] 0 = num (slice (bits bs) off (off + n))"
    using Suc by simp
  ultimately show ?case by (simp only: snoc num_snoc) (simp add: bit_at_bit_of)
qed (simp add: num_def slice_def)

lemma fold_bits_bound: "fold (\<lambda>i v. (v * 2 + bit_at bs i) mod 2 ^ w) xs 0 < 2 ^ length xs"
proof (induction xs rule: rev_induct)
  case (snoc x xs)
  have "bit_at bs x \<le> 1" by (simp add: bit_at_bit_of)
  then show ?case using snoc by (simp add: order_le_less_trans [OF mod_less_eq_dividend])
qed simp

lemma ac3_read_bits_Inr: "ac3_read_bits w bs n off = Inr (v, off') \<Longrightarrow> off' = off + n \<and> v < 2 ^ n"
  using fold_bits_bound [of bs w "[off..<off + n]"] by (auto simp: ac3_read_bits_def split: if_splits)

lemmas ac3_read_Inr = ac3_read_bits_Inr [where w = 8, folded ac3_read_def] ac3_read_bits_Inr [where w = 16, folded ac3_read_u16_def]

section \<open>The boxes\<close>

record ac3_specific_box =
  a3_fscod :: nat
  a3_bsid :: nat
  a3_bsmod :: nat
  a3_acmod :: nat
  a3_lfeon :: bool
  a3_bit_rate_code :: nat

record eac3_substream =
  es_fscod :: nat
  es_bsid :: nat
  es_bsmod :: nat
  es_acmod :: nat
  es_lfeon :: bool
  es_num_dep_sub :: nat
  es_chan_loc :: nat

record eac3_specific_box =
  e3_data_rate :: nat
  e3_independent_substreams :: "eac3_substream list"

record eac3_header =
  eh_frame_type :: nat
  eh_substream_id :: nat
  eh_frame_size :: nat
  eh_sample_rate :: nat
  eh_num_blocks :: nat
  eh_fscod :: nat
  eh_bsid :: nat
  eh_bsmod :: nat
  eh_acmod :: nat
  eh_lfeon :: bool
  eh_channel_map_present :: bool
  eh_channel_map :: nat

definition dac3_fields :: "ac3_specific_box \<Rightarrow> (nat \<times> nat) list" where
  "dac3_fields b = [(2, a3_fscod b), (5, a3_bsid b), (3, a3_bsmod b), (3, a3_acmod b), (1, of_bool (a3_lfeon b)),
     (5, a3_bit_rate_code b), (5, 0)]"

definition dac3_payload :: "ac3_specific_box \<Rightarrow> bytes option" where
  "dac3_payload b = map_option bw_bytes (write_fields (dac3_fields b) (bit_writer_new (replicate 3 0)))"

definition substream_fields :: "eac3_substream \<Rightarrow> (nat \<times> nat) list" where
  "substream_fields s =
     [(2, es_fscod s), (5, es_bsid s), (1, 0), (1, 0), (3, es_bsmod s), (3, es_acmod s), (1, of_bool (es_lfeon s)),
      (3, 0), (4, min (es_num_dep_sub s) 15),
      if es_num_dep_sub s = 0 then (1, 0) else (9, es_chan_loc s mod 2 ^ 9)]"

definition dec3_fields :: "eac3_specific_box \<Rightarrow> (nat \<times> nat) list" where
  "dec3_fields b =
     [(13, min (e3_data_rate b) 0x1fff), (3, min (max (length (e3_independent_substreams b)) 1 - 1) 7)] @
     concat (map substream_fields (take 8 (e3_independent_substreams b)))"

definition dec3_payload :: "eac3_specific_box \<Rightarrow> bytes option" where
  "dec3_payload b =
     (let substream_count = max (length (e3_independent_substreams b)) 1
      in map_option (\<lambda>w. take (bytes_written w) (bw_bytes w))
           (write_fields (dec3_fields b) (bit_writer_new (replicate (2 + substream_count * 4 + substream_count * 2) 0))))"

section \<open>Parsing a frame header\<close>

definition has_sync :: "bytes \<Rightarrow> nat \<Rightarrow> bool" where
  "has_sync frame n \<longleftrightarrow> n \<le> length frame \<and> frame ! 0 = 0x0b \<and> frame ! 1 = 0x77"

definition skip_if :: "bool \<Rightarrow> bytes \<Rightarrow> nat \<Rightarrow> nat \<Rightarrow> dolby_error + nat" where
  "skip_if c bs n off = (if c then ac3_skip bs n off else Inr off)"

definition parse_ac3_specific_box :: "bytes \<Rightarrow> dolby_error + ac3_specific_box" where
  "parse_ac3_specific_box frame =
     (if \<not> has_sync frame 7 then Inl MissingSyncWord
      else res_bind (ac3_skip frame 32 0) (\<lambda>off.
        res_bind (ac3_read frame 2 off) (\<lambda>(fscod, off).
        if fscod = 3 then Inl HalfSampleRate
        else res_bind (ac3_read frame 6 off) (\<lambda>(frmsizecod, off).
        res_bind (ac3_read frame 5 off) (\<lambda>(bsid, off).
        if 8 < bsid then Inl (BsidOutOfRange bsid)
        else res_bind (ac3_read frame 3 off) (\<lambda>(bsmod, off).
        res_bind (ac3_read frame 3 off) (\<lambda>(acmod, off).
        res_bind (skip_if (acmod mod 2 \<noteq> 0 \<and> acmod \<noteq> 1) frame 2 off) (\<lambda>off.
        res_bind (skip_if (acmod div 4 mod 2 \<noteq> 0) frame 2 off) (\<lambda>off.
        res_bind (skip_if (acmod = 2) frame 2 off) (\<lambda>off.
        res_bind (ac3_read frame 1 off) (\<lambda>(lfeon, off).
          Inr \<lparr>a3_fscod = fscod, a3_bsid = bsid, a3_bsmod = bsmod, a3_acmod = acmod, a3_lfeon = (lfeon \<noteq> 0),
               a3_bit_rate_code = frmsizecod div 2\<rparr>)))))))))))"

definition sample_rate_from_fscod :: "nat \<Rightarrow> dolby_error + nat" where
  "sample_rate_from_fscod fscod =
     (if fscod = 0 then Inr 48000 else if fscod = 1 then Inr 44100 else if fscod = 2 then Inr 32000 else Inl InvalidFscod)"

definition sample_rate_from_eac3_fscod2 :: "nat \<Rightarrow> dolby_error + nat" where
  "sample_rate_from_eac3_fscod2 fscod2 =
     (if fscod2 = 0 then Inr 24000 else if fscod2 = 1 then Inr 22050 else if fscod2 = 2 then Inr 16000
      else Inl InvalidFscod2)"

text \<open>The sample rate and the number of blocks: the second code is \<open>fscod2\<close> or \<open>numblkscod\<close>.\<close>

definition rate_and_blocks :: "nat \<Rightarrow> nat \<Rightarrow> dolby_error + (nat \<times> nat)" where
  "rate_and_blocks fscod code =
     (if fscod = 3 then res_bind (sample_rate_from_eac3_fscod2 code) (\<lambda>sample_rate. Inr (sample_rate, 6))
      else res_bind (sample_rate_from_fscod fscod) (\<lambda>sample_rate.
        Inr (sample_rate, if code = 0 then 1 else if code = 1 then 2 else if code = 2 then 3 else 6)))"

definition read_channel_map :: "nat \<Rightarrow> bytes \<Rightarrow> nat \<Rightarrow> dolby_error + (bool \<times> nat)" where
  "read_channel_map frame_type frame off =
     (if frame_type = 1 then
        res_bind (ac3_read frame 1 off) (\<lambda>(present, off).
          if present \<noteq> 0 then res_bind (ac3_read_u16 frame 16 off) (\<lambda>(channel_map, off). Inr (True, channel_map))
          else Inr (False, 0))
      else Inr (False, 0))"

definition parse_eac3_header :: "bytes \<Rightarrow> dolby_error + eac3_header" where
  "parse_eac3_header frame =
     (if \<not> has_sync frame 10 then Inl MissingSyncWord
      else res_bind (ac3_skip frame 16 0) (\<lambda>off.
        res_bind (ac3_read frame 2 off) (\<lambda>(frame_type, off).
        res_bind (ac3_read frame 3 off) (\<lambda>(substream_id, off).
        res_bind (ac3_read_u16 frame 11 off) (\<lambda>(size_code, off).
        res_bind (ac3_read frame 2 off) (\<lambda>(fscod, off).
        res_bind (ac3_read frame 2 off) (\<lambda>(code, off).
        res_bind (rate_and_blocks fscod code) (\<lambda>(sample_rate, num_blocks).
        res_bind (ac3_read frame 3 off) (\<lambda>(acmod, off).
        res_bind (ac3_read frame 1 off) (\<lambda>(lfeon, off).
        res_bind (ac3_read frame 5 off) (\<lambda>(bsid, off).
        res_bind (ac3_skip frame 5 off) (\<lambda>off.
        res_bind (ac3_read frame 3 off) (\<lambda>(bsmod, off).
        res_bind (read_channel_map frame_type frame off) (\<lambda>(present, channel_map).
          Inr \<lparr>eh_frame_type = frame_type, eh_substream_id = substream_id, eh_frame_size = (size_code + 1) * 2,
               eh_sample_rate = sample_rate, eh_num_blocks = num_blocks, eh_fscod = fscod, eh_bsid = bsid,
               eh_bsmod = bsmod, eh_acmod = acmod, eh_lfeon = (lfeon \<noteq> 0), eh_channel_map_present = present,
               eh_channel_map = channel_map\<rparr>))))))))))))))"

lemma parse_eac3_header_bounds:
  assumes "parse_eac3_header frame = Inr h"
  shows "2 \<le> eh_frame_size h" "eh_fscod h < 4" "eh_bsid h < 32" "eh_bsmod h < 8" "eh_acmod h < 8" "eh_num_blocks h \<le> 6"
    "0 < eh_num_blocks h" "eh_sample_rate h \<le> 48000"
  using assms
  by (auto simp: parse_eac3_header_def res_bind_Inr rate_and_blocks_def sample_rate_from_eac3_fscod2_def
      sample_rate_from_fscod_def dest!: ac3_read_Inr split: if_splits)

section \<open>Parsing an access unit\<close>

definition substream_of :: "eac3_header \<Rightarrow> eac3_substream" where
  "substream_of h = \<lparr>es_fscod = eh_fscod h, es_bsid = eh_bsid h, es_bsmod = eh_bsmod h, es_acmod = eh_acmod h,
     es_lfeon = eh_lfeon h, es_num_dep_sub = 0, es_chan_loc = 0\<rparr>"

definition add_dependent :: "eac3_header \<Rightarrow> eac3_substream \<Rightarrow> eac3_substream" where
  "add_dependent h parent = parent\<lparr>es_num_dep_sub := sat_add 8 (es_num_dep_sub parent) 1,
     es_chan_loc := es_chan_loc parent OR
       (if eh_channel_map_present h then eh_channel_map h div 2 ^ 5 mod 2 ^ 9 else eh_acmod h)\<rparr>"

definition add_substream :: "eac3_header \<Rightarrow> eac3_substream list \<Rightarrow> dolby_error + eac3_substream list" where
  "add_substream h independent =
     (if eh_frame_type h = 0 then
        if 8 \<le> length independent then Inl TooManySubstreams
        else if eh_substream_id h \<noteq> length independent then Inl SubstreamOrder
        else Inr (independent @ [substream_of h])
      else if eh_frame_type h = 1 then
        if eh_substream_id h < length independent
        then Inr (independent[eh_substream_id h := add_dependent h (independent ! eh_substream_id h)])
        else Inl DependentWithoutParent
      else Inl (UnsupportedFrameType (eh_frame_type h)))"

record eac3_scan =
  sc_offset :: nat
  sc_independent :: "eac3_substream list"
  sc_total_frame_size :: nat
  sc_total_blocks :: nat
  sc_sample_rate :: nat

definition eac3_scan_frame :: "bytes \<Rightarrow> eac3_scan \<Rightarrow> dolby_error + eac3_scan" where
  "eac3_scan_frame access_unit s =
     res_bind (parse_eac3_header (drop (sc_offset s) access_unit)) (\<lambda>h.
       if length access_unit < sat_add 64 (sc_offset s) (eh_frame_size h) then Inl FrameExceedsUnit
       else res_bind (add_substream h (sc_independent s)) (\<lambda>independent.
         Inr \<lparr>sc_offset = sc_offset s + eh_frame_size h, sc_independent = independent,
              sc_total_frame_size = sat_add 64 (sc_total_frame_size s) (eh_frame_size h),
              sc_total_blocks = sat_add 32 (sc_total_blocks s) (eh_num_blocks h),
              sc_sample_rate = max (sc_sample_rate s) (eh_sample_rate h)\<rparr>))"

lemma eac3_scan_frame_advances: "eac3_scan_frame access_unit s = Inr s' \<Longrightarrow> sc_offset s < sc_offset s'"
  by (auto simp: eac3_scan_frame_def res_bind_Inr dest!: parse_eac3_header_bounds(1) split: if_splits)

function eac3_scan_frames :: "bytes \<Rightarrow> eac3_scan \<Rightarrow> dolby_error + eac3_scan" where
  "eac3_scan_frames access_unit s =
     (if sc_offset s < length access_unit then
        (case eac3_scan_frame access_unit s of Inl e \<Rightarrow> Inl e | Inr s' \<Rightarrow> eac3_scan_frames access_unit s')
      else Inr s)"
  by pat_completeness auto

termination
  by (relation "measure (\<lambda>(access_unit, s). length access_unit - sc_offset s)") (auto dest: eac3_scan_frame_advances)

declare eac3_scan_frames.simps [simp del]

definition eac3_scan_init :: eac3_scan where
  "eac3_scan_init = \<lparr>sc_offset = 0, sc_independent = [], sc_total_frame_size = 0, sc_total_blocks = 0, sc_sample_rate = 0\<rparr>"

definition parse_eac3_specific_box :: "bytes \<Rightarrow> dolby_error + eac3_specific_box" where
  "parse_eac3_specific_box access_unit =
     res_bind (eac3_scan_frames access_unit eac3_scan_init) (\<lambda>s.
       if sc_independent s = [] then Inl NoIndependentSubstream
       else Inr \<lparr>e3_data_rate = min (as_u 64 (sc_total_frame_size s * 8 * max (sc_sample_rate s) 1)
                     div (max (sc_total_blocks s) 1 * 256) div 1000) 0x1fff,
                 e3_independent_substreams = sc_independent s\<rparr>)"

section \<open>What parsing yields\<close>

definition substream_ok :: "eac3_substream \<Rightarrow> bool" where
  "substream_ok s \<longleftrightarrow> es_fscod s < 2 ^ 2 \<and> es_bsid s < 2 ^ 5 \<and> es_bsmod s < 2 ^ 3 \<and> es_acmod s < 2 ^ 3 \<and>
     es_chan_loc s < 2 ^ 9 \<and> (es_num_dep_sub s = 0 \<longrightarrow> es_chan_loc s = 0)"

lemma or_less: "(a :: nat) < 2 ^ n \<Longrightarrow> b < 2 ^ n \<Longrightarrow> a OR b < 2 ^ n"
  by (metis take_bit_nat_eq_self_iff take_bit_or)

lemma add_substream_ok:
  assumes "add_substream h ss = Inr ss'" "parse_eac3_header frame = Inr h" "\<forall>s \<in> set ss. substream_ok s" "length ss \<le> 8"
  shows "(\<forall>s \<in> set ss'. substream_ok s) \<and> length ss' \<le> 8"
proof -
  note b = parse_eac3_header_bounds [OF assms(2)]
  have new: "substream_ok (substream_of h)" using b by (simp add: substream_ok_def substream_of_def)
  have dep: "substream_ok (add_dependent h s)" if "substream_ok s" for s
  proof -
    have "es_chan_loc s OR (if eh_channel_map_present h then eh_channel_map h div 2 ^ 5 mod 2 ^ 9 else eh_acmod h) < 2 ^ 9"
      using that b by (intro or_less) (auto simp: substream_ok_def)
    then show ?thesis using that by (simp add: substream_ok_def add_dependent_def sat_add_def)
  qed
  show ?thesis using assms(1,3,4) new dep
    by (auto simp: add_substream_def split: if_splits dest!: set_update_subset_insert [THEN subsetD])
qed

lemma eac3_scan_frames_ok:
  "eac3_scan_frames au s = Inr s' \<Longrightarrow> \<forall>x \<in> set (sc_independent s). substream_ok x \<Longrightarrow> length (sc_independent s) \<le> 8 \<Longrightarrow>
    (\<forall>x \<in> set (sc_independent s'). substream_ok x) \<and> length (sc_independent s') \<le> 8"
proof (induction au s rule: eac3_scan_frames.induct)
  case (1 au s)
  show ?case
  proof (cases "sc_offset s < length au")
    case True
    then obtain s1 where s1: "eac3_scan_frame au s = Inr s1" "eac3_scan_frames au s1 = Inr s'"
      using 1(2) by (subst (asm) eac3_scan_frames.simps) (auto split: sum.splits)
    then obtain h where "parse_eac3_header (drop (sc_offset s) au) = Inr h"
        "add_substream h (sc_independent s) = Inr (sc_independent s1)"
      by (auto simp: eac3_scan_frame_def res_bind_Inr split: if_splits)
    note ok = add_substream_ok [OF this(2,1) 1(3,4)]
    show ?thesis by (rule 1(1) [OF True s1]) (use ok in simp_all)
  qed (use 1 in \<open>simp add: eac3_scan_frames.simps\<close>)
qed

lemma parsed_box_ok:
  assumes "parse_eac3_specific_box au = Inr b"
  shows "e3_data_rate b < 2 ^ 13" "e3_independent_substreams b \<noteq> []" "length (e3_independent_substreams b) \<le> 8"
    "\<forall>s \<in> set (e3_independent_substreams b). substream_ok s"
  using assms eac3_scan_frames_ok [of au eac3_scan_init]
  by (auto simp: parse_eac3_specific_box_def res_bind_Inr eac3_scan_init_def split: if_splits)

section \<open>A reader of \<open>dec3\<close> boxes\<close>

text \<open>The layout of ETSI TS 102 366, annex F.6: each independent substream has two bits of sample rate code, five of
  bit stream identification, one reserved, one \<open>asvc\<close>, three of bit stream mode, three of channel mode, one LFE flag and
  three reserved bits before the four bits of its number of dependent substreams.\<close>

definition get_field :: "nat \<Rightarrow> bool list \<Rightarrow> (nat \<times> bool list) option" where
  "get_field n xs = (if n \<le> length xs then Some (num (take n xs), drop n xs) else None)"

primrec get_fields :: "nat list \<Rightarrow> bool list \<Rightarrow> (nat list \<times> bool list) option" where
  "get_fields [] xs = Some ([], xs)"
| "get_fields (n # ns) xs =
     Option.bind (get_field n xs) (\<lambda>(v, xs). Option.bind (get_fields ns xs) (\<lambda>(vs, xs). Some (v # vs, xs)))"

definition get_substream :: "bool list \<Rightarrow> (eac3_substream \<times> bool list) option" where
  "get_substream xs =
     Option.bind (get_fields [2, 5, 1, 1, 3, 3, 1, 3, 4] xs) (\<lambda>(vs, xs).
     Option.bind (get_field (if vs ! 8 = 0 then 1 else 9) xs) (\<lambda>(loc, xs).
       Some (\<lparr>es_fscod = vs ! 0, es_bsid = vs ! 1, es_bsmod = vs ! 4, es_acmod = vs ! 5, es_lfeon = (vs ! 6 = 1),
              es_num_dep_sub = vs ! 8, es_chan_loc = loc\<rparr>, xs)))"

primrec get_substreams :: "nat \<Rightarrow> bool list \<Rightarrow> (eac3_substream list \<times> bool list) option" where
  "get_substreams 0 xs = Some ([], xs)"
| "get_substreams (Suc n) xs =
     Option.bind (get_substream xs) (\<lambda>(s, xs). Option.bind (get_substreams n xs) (\<lambda>(ss, xs). Some (s # ss, xs)))"

definition read_dec3 :: "bytes \<Rightarrow> (eac3_specific_box \<times> bool list) option" where
  "read_dec3 payload =
     Option.bind (get_fields [13, 3] (bits payload)) (\<lambda>(vs, xs).
     Option.bind (get_substreams (vs ! 1 + 1) xs) (\<lambda>(ss, xs).
       Some (\<lparr>e3_data_rate = vs ! 0, e3_independent_substreams = ss\<rparr>, xs)))"

lemma get_field_field: "v < 2 ^ n \<Longrightarrow> get_field n (field n v @ xs) = Some (v, xs)"
  by (simp add: get_field_def)

lemma get_fields_fields:
  "\<forall>f \<in> set fs. snd f < 2 ^ fst f \<Longrightarrow> get_fields (map fst fs) (field_bits fs @ xs) = Some (map snd fs, xs)"
  by (induction fs) (simp_all add: field_bits_def get_field_field)

definition capped :: "eac3_substream \<Rightarrow> eac3_substream" where
  "capped s = s\<lparr>es_num_dep_sub := min (es_num_dep_sub s) 15\<rparr>"

lemma get_substream_fields:
  assumes "substream_ok s"
  shows "get_substream (field_bits (substream_fields s) @ xs) = Some (capped s, xs)"
proof -
  let ?head = "[(2, es_fscod s), (5, es_bsid s), (1, 0), (1, 0), (3, es_bsmod s), (3, es_acmod s), (1, of_bool (es_lfeon s)),
      (3, 0), (4, min (es_num_dep_sub s) 15)] :: (nat \<times> nat) list"
  let ?loc = "if es_num_dep_sub s = 0 then (1, 0) else (9, es_chan_loc s mod 2 ^ 9) :: nat \<times> nat"
  have split: "field_bits (substream_fields s) @ xs = field_bits ?head @ field (fst ?loc) (snd ?loc) @ xs"
    by (simp add: substream_fields_def field_bits_def)
  have head: "get_fields [2, 5, 1, 1, 3, 3, 1, 3, 4] (field_bits ?head @ ys) = Some (map snd ?head, ys)" for ys
    using get_fields_fields [of ?head ys] assms by (simp add: substream_ok_def)
  have loc: "get_field (fst ?loc) (field (fst ?loc) (snd ?loc) @ xs) = Some (es_chan_loc s, xs)"
    using assms by (simp add: get_field_field substream_ok_def)
  have "get_substream (field_bits ?head @ field (fst ?loc) (snd ?loc) @ xs) = Some (capped s, xs)"
    unfolding get_substream_def head using loc by (cases s) (auto simp: capped_def split: if_splits)
  then show ?thesis by (simp only: split)
qed

lemma get_substreams_fields:
  "\<forall>s \<in> set ss. substream_ok s \<Longrightarrow>
    get_substreams (length ss) (field_bits (concat (map substream_fields ss)) @ xs) = Some (map capped ss, xs)"
proof (induction ss)
  case (Cons s ss)
  have "field_bits (concat (map substream_fields (s # ss))) = field_bits (substream_fields s) @ field_bits (concat (map substream_fields ss))"
    by (simp add: field_bits_def)
  then show ?case using Cons get_substream_fields by simp
qed (simp add: field_bits_def)

section \<open>What is written\<close>

lemma bits_take: "bits (take k bs) = take (8 * k) (bits bs)"
proof (rule nth_equalityI)
  fix i assume "i < length (bits (take k bs))"
  then have "i < 8 * k" "i < 8 * length bs" by simp_all
  then show "bits (take k bs) ! i = take (8 * k) (bits bs) ! i"
    by (simp add: bits_nth bit_of_def less_mult_imp_div_less mult.commute)
qed simp

lemma written_bits:
  assumes "holds w n out"
  shows "bits (take (bytes_written w) (bw_bytes w)) = out @ replicate (8 * div_ceil (length out) 8 - length out) False"
proof -
  have "length out \<le> 8 * div_ceil (length out) 8" "div_ceil (length out) 8 \<le> n"
    using assms div_ceil_ge [of 8 "length out"] div_ceil_least [of 8 "length out" n] by (simp_all add: holds_def mult.commute)
  then show ?thesis using assms by (simp add: bits_take holds_def bytes_written_def min_def)
qed

lemma substream_fields_size: "sum_list (map fst (substream_fields s)) \<le> 32"
  by (simp add: substream_fields_def)

lemma dec3_fields_size:
  "sum_list (map fst (dec3_fields b)) \<le> 8 * (2 + max (length (e3_independent_substreams b)) 1 * 4 + max (length (e3_independent_substreams b)) 1 * 2)"
proof -
  have "sum_list (map fst (concat (map substream_fields ss))) \<le> 32 * length ss" for ss
  proof (induction ss)
    case (Cons s ss)
    then show ?case using substream_fields_size [of s] by simp
  qed simp
  from this [of "take 8 (e3_independent_substreams b)"] show ?thesis by (simp add: dec3_fields_def)
qed

lemma dec3_payload_bits:
  "\<exists>out. dec3_payload b = Some out \<and> bits out = field_bits (dec3_fields b) @
    replicate (8 * div_ceil (length (field_bits (dec3_fields b))) 8 - length (field_bits (dec3_fields b))) False"
proof -
  let ?n = "2 + max (length (e3_independent_substreams b)) 1 * 4 + max (length (e3_independent_substreams b)) 1 * 2"
  obtain w where w: "write_fields (dec3_fields b) (bit_writer_new (replicate ?n 0)) = Some w" "holds w ?n (field_bits (dec3_fields b))"
    using write_fields_holds [OF holds_new, of "dec3_fields b" ?n] dec3_fields_size [of b] by auto
  show ?thesis by (intro exI conjI, unfold dec3_payload_def Let_def w(1) option.map, rule refl, rule written_bits [OF w(2)])
qed

text \<open>C28: An E-AC-3 access unit that parses is described by a \<open>dec3\<close> box whose writer never runs past its buffer, and
  from which a reader that follows the published layout recovers the data rate and every independent substream with its
  sample rate code, identification, mode, channels, LFE flag, channel locations and the number of its dependent
  substreams (at most fifteen can be said); what follows is less than a byte of zeros.\<close>

theorem dec3_describes_access_unit:
  assumes "parse_eac3_specific_box access_unit = Inr b"
  shows "\<exists>out padding. dec3_payload b = Some out \<and>
    read_dec3 out = Some (b\<lparr>e3_independent_substreams := map capped (e3_independent_substreams b)\<rparr>, padding) \<and>
    length padding < 8 \<and> True \<notin> set padding"
proof -
  note ok = parsed_box_ok [OF assms]
  let ?ss = "e3_independent_substreams b" and ?len = "length (field_bits (dec3_fields b))"
  let ?pad = "replicate (8 * div_ceil ?len 8 - ?len) False"
  obtain out where out: "dec3_payload b = Some out" "bits out = field_bits (dec3_fields b) @ ?pad"
    using dec3_payload_bits [of b] by blast
  have n: "max (length ?ss) 1 - 1 = length ?ss - 1" "length ?ss - 1 + 1 = length ?ss" using ok(2) by (cases ?ss; simp)+
  have split: "bits out = field_bits [(13, e3_data_rate b), (3, length ?ss - 1)] @ field_bits (concat (map substream_fields ?ss)) @ ?pad"
    using ok(1,3) n(1) by (simp add: out(2) dec3_fields_def field_bits_def)
  have head: "get_fields [13, 3] (bits out) =
      Some ([e3_data_rate b, length ?ss - 1], field_bits (concat (map substream_fields ?ss)) @ ?pad)"
    using get_fields_fields [of "[(13, e3_data_rate b), (3, length ?ss - 1)]"] ok(1,3) by (simp add: split)
  have index: "[e3_data_rate b, length ?ss - 1] ! 1 + 1 = length ?ss" using n(2) by simp
  have "read_dec3 out = Some (b\<lparr>e3_independent_substreams := map capped ?ss\<rparr>, ?pad)"
    unfolding read_dec3_def head bind.bind_lunit prod.case index get_substreams_fields [OF ok(4)] by simp
  moreover have "8 * div_ceil ?len 8 - ?len < 8"
    by (simp add: div_ceil_def) presburger
  ultimately show ?thesis using out(1) by auto
qed

definition demo_unit :: bytes where
  "demo_unit = [0x0b, 0x77, 0x00, 0x04, 0x3f, 0x80, 0x00, 0x00, 0x00, 0x00]"

lemma demo_unit_header:
  "parse_eac3_header demo_unit = Inr \<lparr>eh_frame_type = 0, eh_substream_id = 0, eh_frame_size = 10, eh_sample_rate = 48000,
     eh_num_blocks = 6, eh_fscod = 0, eh_bsid = 16, eh_bsmod = 0, eh_acmod = 7, eh_lfeon = True,
     eh_channel_map_present = False, eh_channel_map = 0\<rparr>"
  by (simp add: parse_eac3_header_def has_sync_def demo_unit_def ac3_skip_def ac3_read_def ac3_read_u16_def
      ac3_read_bits_def bit_at_def sat_add_def rate_and_blocks_def sample_rate_from_fscod_def read_channel_map_def)

lemma demo_unit_parses: "\<exists>b. parse_eac3_specific_box demo_unit = Inr b"
proof -
  have "eac3_scan_frame demo_unit eac3_scan_init = Inr \<lparr>sc_offset = 10, sc_independent = [\<lparr>es_fscod = 0, es_bsid = 16, es_bsmod = 0,
      es_acmod = 7, es_lfeon = True, es_num_dep_sub = 0, es_chan_loc = 0\<rparr>], sc_total_frame_size = 10,
      sc_total_blocks = 6, sc_sample_rate = 48000\<rparr>"
    by (simp add: eac3_scan_frame_def eac3_scan_init_def demo_unit_header add_substream_def substream_of_def sat_add_def)
      (simp add: demo_unit_def)
  then show ?thesis
    by (simp add: parse_eac3_specific_box_def eac3_scan_frames.simps [of _ eac3_scan_init] eac3_scan_frames.simps [of _ "\<lparr>sc_offset = _,
        sc_independent = _, sc_total_frame_size = _, sc_total_blocks = _, sc_sample_rate = _\<rparr>"])
      (simp add: demo_unit_def eac3_scan_init_def)
qed

theorem dec3_describes_access_unit_witness:
  "\<exists>b out. parse_eac3_specific_box demo_unit = Inr b \<and> dec3_payload b = Some out"
  using demo_unit_parses dec3_describes_access_unit [of demo_unit] by blast

section \<open>The Atmos extension\<close>

lemma slice_bits_field:
  "bits bs = xs @ field n v @ ys \<Longrightarrow> v < 2 ^ n \<Longrightarrow> num (slice (bits bs) (length xs) (length xs + n)) = v"
  by (simp add: slice_def)

lemma read_bits_num:
  "off + n \<le> 8 * length bs \<Longrightarrow> n \<le> 32 \<Longrightarrow> off + n < 2 ^ 64 \<Longrightarrow>
    read_bits bs off n = Some (num (slice (bits bs) off (off + n)), off + n)"
  using fold_bits [of off n bs 32] by (simp add: read_bits_def sat_add_exact mult.commute)

text \<open>C29: The Atmos flag of an E-AC-3 track is read from the wrong place: the reader of sample entries takes twenty-four
  bits for the nineteen that stand before the number of dependent substreams in the \<open>dec3\<close> boxes the engine writes, so for a
  track with one substream it answers a bit of the complexity index and ignores the extension flag.\<close>

theorem atmos_flag_read_from_complexity:
  assumes "substream_ok s" "es_num_dep_sub s = 0" "rate < 2 ^ 13"
    "dec3_payload \<lparr>e3_data_rate = rate, e3_independent_substreams = [s]\<rparr> = Some out" "flag = 0 \<or> flag = 1"
  shows "length out = 5 \<and>
    dec3_has_eac3_extension_type_a (out @ [flag, complexity]) = bit complexity 3"
proof -
  let ?b = "\<lparr>e3_data_rate = rate, e3_independent_substreams = [s]\<rparr>"
  let ?bs = "out @ [flag, complexity]"
  have "length (field_bits (dec3_fields ?b)) = 40"
    using assms(2) by (simp add: length_field_bits dec3_fields_def substream_fields_def)
  then have out: "bits out = field_bits (dec3_fields ?b)"
    using dec3_payload_bits [of ?b] assms(4) by (auto simp: div_ceil_def)
  then have len: "length out = 5" using \<open>length (field_bits (dec3_fields ?b)) = 40\<close> length_bits [of out] by simp
  have bs: "bits ?bs = bits out @ map (bit flag) [7, 6, 5, 4, 3, 2, 1, 0] @ map (bit complexity) [7, 6, 5, 4, 3, 2, 1, 0]"
    using bits_append [of out "[flag, complexity]"] bits_append [of "[flag]" "[complexity]"] by (simp add: bits_single)
  have high: "\<not> bit flag j" if "0 < j" for j
    using that assms(5) by (auto simp: bit_1_iff)
  have count: "num (slice (bits ?bs) 13 16) = 0"
    using slice_bits_field [of ?bs "field 13 (min rate 8191)" 3 0] by (simp add: bs out dec3_fields_def field_bits_def)
  have nodep: "num (slice (bits ?bs) 40 44) = 0"
    using len high by (simp add: bs slice_def num_def)
  have ext: "num (slice (bits ?bs) 52 53) = of_bool (bit complexity 3)"
    using len by (simp add: bs slice_def num_def)
  show ?thesis using len count nodep ext
    by (simp add: dec3_has_eac3_extension_type_a_def read_bits_num)
qed

definition demo_substream :: eac3_substream where
  "demo_substream = \<lparr>es_fscod = 0, es_bsid = 16, es_bsmod = 0, es_acmod = 7, es_lfeon = True, es_num_dep_sub = 0,
     es_chan_loc = 0\<rparr>"

theorem atmos_flag_read_from_complexity_witness:
  "\<exists>out. dec3_payload \<lparr>e3_data_rate = 768, e3_independent_substreams = [demo_substream]\<rparr> = Some out \<and>
    \<not> dec3_has_eac3_extension_type_a (out @ [1, 16]) \<and> dec3_has_eac3_extension_type_a (out @ [0, 8])"
proof -
  obtain out where out: "dec3_payload \<lparr>e3_data_rate = 768, e3_independent_substreams = [demo_substream]\<rparr> = Some out"
    using dec3_payload_bits by blast
  note read = atmos_flag_read_from_complexity [OF _ _ _ out]
  have "bit (8 :: u8) 3" "\<not> bit (16 :: u8) 3" by simp_all
  moreover have "dec3_has_eac3_extension_type_a (out @ [1, 16]) = bit (16 :: u8) 3"
      "dec3_has_eac3_extension_type_a (out @ [0, 8]) = bit (8 :: u8) 3"
    using read by (simp_all add: substream_ok_def demo_substream_def)
  ultimately show ?thesis using out by blast
qed

section \<open>The \<open>dac3\<close> box\<close>

text \<open>A parsed AC-3 frame is described by three bytes that hold its fields in the order of the \<open>dac3\<close> box, followed by
  five zero bits: the code of the frame size loses its lowest bit, which tells the two sizes of a bit rate apart.\<close>

theorem dac3_describes_frame:
  assumes "parse_ac3_specific_box frame = Inr b"
  shows "\<exists>out. dac3_payload b = Some out \<and> length out = 3 \<and>
    get_fields [2, 5, 3, 3, 1, 5] (bits out) =
      Some ([a3_fscod b, a3_bsid b, a3_bsmod b, a3_acmod b, of_bool (a3_lfeon b), a3_bit_rate_code b],
        replicate 5 False) \<and> a3_fscod b < 3 \<and> a3_bsid b \<le> 8"
proof -
  have ok: "a3_fscod b < 3" "a3_bsid b \<le> 8" "a3_bsmod b < 8" "a3_acmod b < 8" "a3_bit_rate_code b < 32"
    using assms by (auto simp: parse_ac3_specific_box_def res_bind_Inr dest!: ac3_read_Inr split: if_splits)
  let ?fs = "[(2, a3_fscod b), (5, a3_bsid b), (3, a3_bsmod b), (3, a3_acmod b), (1, of_bool (a3_lfeon b)),
    (5, a3_bit_rate_code b)] :: (nat \<times> nat) list"
  obtain w where w: "write_fields (dac3_fields b) (bit_writer_new (replicate 3 0)) = Some w" "holds w 3 (field_bits (dac3_fields b))"
    using write_fields_holds [OF holds_new, of "dac3_fields b" 3] by (auto simp: dac3_fields_def)
  have len: "length (field_bits (dac3_fields b)) = 24" by (simp add: length_field_bits dac3_fields_def)
  have "bits (bw_bytes w) = field_bits ?fs @ field 5 0"
    using w(2) len by (simp add: holds_def) (simp add: dac3_fields_def field_bits_def)
  moreover have "field 5 0 = replicate 5 False" by (simp add: field_def upt_rec numeral_eq_Suc)
  moreover have "length (bw_bytes w) = 3" using w(2) by (simp add: holds_def)
  ultimately show ?thesis using get_fields_fields [of ?fs] ok w(1) by (simp add: dac3_payload_def)
qed

definition demo_ac3_frame :: bytes where
  "demo_ac3_frame = [0x0b, 0x77, 0, 0, 0x50, 0x41, 0x40]"

lemma demo_ac3_frame_parses: "parse_ac3_specific_box demo_ac3_frame = Inr \<lparr>a3_fscod = 1, a3_bsid = 8, a3_bsmod = 1,
    a3_acmod = 2, a3_lfeon = False, a3_bit_rate_code = 8\<rparr>"
  by (simp add: parse_ac3_specific_box_def has_sync_def demo_ac3_frame_def ac3_skip_def skip_if_def ac3_read_def
      ac3_read_bits_def bit_at_def sat_add_def)

theorem dac3_describes_frame_witness: "\<exists>b out. parse_ac3_specific_box demo_ac3_frame = Inr b \<and> dac3_payload b = Some out"
  using demo_ac3_frame_parses dac3_describes_frame [of demo_ac3_frame] by blast

end
