(* ===== verification/HlsTracks.thy ===== *)
theory HlsTracks
  imports HlsPlaylist HlsFmp4 ExecutionPlans DolbyBoxes
begin

text \<open>
  The tracks of native HLS (\<open>hls/mod.rs\<close>, lines 968 to 1685 and 1903 to 2085): which video and audio track is taken, how
  its payload is repackaged, its sample entry and codec string, and the playlist and muxing plans built from them.
\<close>

section \<open>Selection\<close>

datatype hls_track_kind = HlsVideo | HlsAudio | HlsOther

fun hls_kind_from_mp4 :: "mp4_track_kind \<Rightarrow> hls_track_kind" where
  "hls_kind_from_mp4 MtVideo = HlsVideo"
| "hls_kind_from_mp4 MtAudio = HlsAudio"
| "hls_kind_from_mp4 MtSubtitle = HlsOther"
| "hls_kind_from_mp4 MtUnknown = HlsOther"

fun hls_kind_from_matroska :: "mkv_track_kind \<Rightarrow> hls_track_kind" where
  "hls_kind_from_matroska MkvVideo = HlsVideo"
| "hls_kind_from_matroska MkvAudio = HlsAudio"
| "hls_kind_from_matroska MkvSubtitle = HlsOther"
| "hls_kind_from_matroska MkvUnknown = HlsOther"

definition is_supported_hls_codec :: "hls_track_kind \<Rightarrow> ustring \<Rightarrow> bool" where
  "is_supported_hls_codec kind codec =
     (case kind of
        HlsVideo \<Rightarrow> codec = lit ''h264'' \<or> codec = lit ''hevc''
      | HlsAudio \<Rightarrow> codec = lit ''aac'' \<or> codec = lit ''ac3'' \<or> codec = lit ''eac3''
      | HlsOther \<Rightarrow> False)"

definition next_semantic_track_id :: "string \<Rightarrow> nat \<Rightarrow> string \<times> nat" where
  "next_semantic_track_id prefix_text n = (prefix_text @ show_nat n, sat_add 32 n 1)"

text \<open>The four counters of both selections, here on the kinds of the probe.\<close>

definition next_hls_id :: "track_kind \<Rightarrow> counters \<Rightarrow> string \<times> counters" where
  "next_hls_id kind = (\<lambda>(v, a, s, x).
     case kind of
       Video \<Rightarrow> (let (i, v) = next_semantic_track_id ''v'' v in (i, (v, a, s, x)))
     | Audio \<Rightarrow> (let (i, a) = next_semantic_track_id ''a'' a in (i, (v, a, s, x)))
     | Subtitle \<Rightarrow> (let (i, s) = next_semantic_track_id ''s'' s in (i, (v, a, s, x)))
     | UnknownKind \<Rightarrow> (let (i, x) = next_semantic_track_id ''x'' x in (i, (v, a, s, x))))"

fun select_mp4_loop :: "mp4_track_kind \<Rightarrow> string option \<Rightarrow> counters \<Rightarrow> mp4_track list \<Rightarrow> (string \<times> mp4_track) option" where
  "select_mp4_loop kind requested cs [] = None"
| "select_mp4_loop kind requested cs (track # tracks) =
     (let (track_id, cs) = next_hls_id (kind_from_mp4 (m4_kind track)) cs
      in if m4_kind track \<noteq> kind \<or> \<not> is_supported_hls_codec (hls_kind_from_mp4 kind) (lit (m4_codec track))
         then select_mp4_loop kind requested cs tracks
         else if (case requested of Some r \<Rightarrow> r = track_id | None \<Rightarrow> True) then Some (track_id, track)
         else select_mp4_loop kind requested cs tracks)"

definition select_mp4_hls_track :: "mp4_track list \<Rightarrow> mp4_track_kind \<Rightarrow> string option \<Rightarrow> (string \<times> mp4_track) option" where
  "select_mp4_hls_track tracks kind requested = select_mp4_loop kind requested (0, 0, 0, 0) tracks"

fun select_matroska_loop ::
    "mkv_track_kind \<Rightarrow> string option \<Rightarrow> counters \<Rightarrow> (string \<times> matroska_track) option \<Rightarrow> matroska_track list \<Rightarrow>
     (string \<times> matroska_track) option" where
  "select_matroska_loop kind requested cs first_supported [] = first_supported"
| "select_matroska_loop kind requested cs first_supported (track # tracks) =
     (let (track_id, cs) = next_hls_id (kind_from_matroska (mt_kind track)) cs
      in if mt_kind track \<noteq> kind \<or> \<not> is_supported_hls_codec (hls_kind_from_matroska kind) (mt_codec track)
         then select_matroska_loop kind requested cs first_supported tracks
         else if requested = Some track_id then Some (track_id, track)
         else if requested = None \<and> mt_default track then Some (track_id, track)
         else select_matroska_loop kind requested cs
           (if requested = None \<and> first_supported = None then Some (track_id, track) else first_supported) tracks)"

definition select_matroska_hls_track ::
    "matroska_track list \<Rightarrow> mkv_track_kind \<Rightarrow> string option \<Rightarrow> (string \<times> matroska_track) option" where
  "select_matroska_hls_track tracks kind requested = select_matroska_loop kind requested (0, 0, 0, 0) None tracks"

section \<open>Codec strings\<close>

definition fallback_video_codec_string :: "ustring \<Rightarrow> string" where
  "fallback_video_codec_string codec = (if codec = lit ''hevc'' then ''hev1.1.6.L120'' else ''avc1.640028'')"

definition fallback_audio_codec_string :: "ustring \<Rightarrow> string" where
  "fallback_audio_codec_string codec =
     (if codec = lit ''ac3'' then ''ac-3'' else if codec = lit ''eac3'' then ''ec-3'' else ''mp4a.40.2'')"

definition clamped_u16 :: "nat \<Rightarrow> nat" where
  "clamped_u16 value = min value (2 ^ 16 - 1)"

definition matroska_hevc_codec_string :: "bytes \<Rightarrow> string option" where
  "matroska_hevc_codec_string config =
     (if length config < 13 then None
      else
        let profile_space = unat (drop_bit 6 (config ! 1) AND 0x03);
            space = (if profile_space = 1 then ''A'' else if profile_space = 2 then ''B''
                     else if profile_space = 3 then ''C'' else []);
            tier = (if config ! 1 AND 0x20 \<noteq> 0 then ''H'' else ''L'');
            profile_idc = unat (config ! 1 AND 0x1f);
            compatibility = be_nat (slice config 2 6);
            level_idc = unat (config ! 12)
        in Some (''hev1.'' @ space @ show_nat profile_idc @ ''.'' @ show_hex (reverse_bits32 compatibility) @ ''.'' @
             tier @ show_nat level_idc))"

definition matroska_video_codec_string :: "matroska_track \<Rightarrow> string" where
  "matroska_video_codec_string track =
     (case mt_codec_private track of
        Some config \<Rightarrow>
          if mt_codec track = lit ''h264'' \<and> 4 \<le> length config
          then ''avc1.'' @ show_hex2 (unat (config ! 1)) @ show_hex2 (unat (config ! 2)) @ show_hex2 (unat (config ! 3))
          else if mt_codec track = lit ''hevc''
          then unwrap_or (matroska_hevc_codec_string config) (fallback_video_codec_string (mt_codec track))
          else fallback_video_codec_string (mt_codec track)
      | None \<Rightarrow> fallback_video_codec_string (mt_codec track))"

definition matroska_audio_codec_string :: "matroska_track \<Rightarrow> string" where
  "matroska_audio_codec_string track =
     (case mt_codec_private track of
        Some config \<Rightarrow>
          if mt_codec track = lit ''aac''
          then (case parse_audio_specific_config config of
                  Inr c \<Rightarrow> ''mp4a.40.'' @ show_nat (aac_object_type c)
                | Inl _ \<Rightarrow> fallback_audio_codec_string (mt_codec track))
          else fallback_audio_codec_string (mt_codec track)
      | None \<Rightarrow> fallback_audio_codec_string (mt_codec track))"

definition hex_digit :: "u8 \<Rightarrow> hls_error + nat" where
  "hex_digit b =
     (let n = unat b in
      if 48 \<le> n \<and> n \<le> 57 then Inr (n - 48)
      else if 97 \<le> n \<and> n \<le> 102 then Inr (n - 97 + 10)
      else if 65 \<le> n \<and> n \<le> 70 then Inr (n - 65 + 10)
      else Inl (HlsUnsupported ''invalid hex digit''))"

fun hex_pairs :: "bytes \<Rightarrow> hls_error + bytes" where
  "hex_pairs (h # l # rest) =
     res_bind (hex_digit h) (\<lambda>hi. res_bind (hex_digit l) (\<lambda>lo.
       res_bind (hex_pairs rest) (\<lambda>out. Inr ((push_bit 4 (byte hi) OR byte lo) # out))))"
| "hex_pairs _ = Inr []"

definition hex_to_bytes :: "ustring \<Rightarrow> hls_error + bytes" where
  "hex_to_bytes hex =
     (let clean = utf8_encode (trim hex)
      in if odd (length clean) then Inl (HlsUnsupported ''hex string has odd length'') else hex_pairs clean)"

section \<open>The selected track is the probed one\<close>

lemma select_mp4_find:
  assumes "kind = MtVideo \<or> kind = MtAudio"
  shows "v + length ts < 2 ^ 32 \<Longrightarrow> a + length ts < 2 ^ 32 \<Longrightarrow>
    select_mp4_loop kind requested (v, a, s, x) ts =
      find (\<lambda>(i, t). m4_kind t = kind \<and> is_supported_hls_codec (hls_kind_from_mp4 kind) (lit (m4_codec t)) \<and>
          (\<forall>r. requested = Some r \<longrightarrow> r = i))
        (zip (map trk_id (mp4_track_loop (v, a, s') ts)) ts)"
proof (induction ts arbitrary: v a s s' x)
  case (Cons t ts)
  have b: "v + length ts < 2 ^ 32" "a + length ts < 2 ^ 32" "Suc v + length ts < 2 ^ 32" "Suc a + length ts < 2 ^ 32"
    using Cons.prems by simp_all
  have sat: "sat_add 32 v 1 = Suc v" "sat_add 32 a 1 = Suc a" using Cons.prems by (simp_all add: sat_add_exact)
  show ?case using assms Cons.IH [OF b(1,2)] Cons.IH [OF b(3,2)] Cons.IH [OF b(1,4)]
    by (cases "m4_kind t"; cases requested) (auto simp: next_hls_id_def next_semantic_track_id_def
        probe_next_track_id_def sat [simplified] Let_def)
qed simp

lemma select_matroska_find:
  assumes "kind = MkvVideo \<or> kind = MkvAudio"
  defines "ok \<equiv> \<lambda>t. mt_kind t = kind \<and> is_supported_hls_codec (hls_kind_from_matroska kind) (mt_codec t)"
  shows "v + length ts < 2 ^ 32 \<Longrightarrow> a + length ts < 2 ^ 32 \<Longrightarrow>
    select_matroska_loop kind requested (v, a, s, x) first ts =
      (let named = zip (map trk_id (matroska_track_loop d (v, a, s') ts)) ts
       in case requested of
            Some r \<Rightarrow> or_else (find (\<lambda>(i, t). ok t \<and> i = r) named) first
          | None \<Rightarrow> or_else (find (\<lambda>(i, t). ok t \<and> mt_default t) named) (or_else first (find (\<lambda>(i, t). ok t) named)))"
proof (induction ts arbitrary: v a s s' x first)
  case Nil
  show ?case by (cases requested; cases first) (simp_all add: or_else_def)
next
  case (Cons t ts)
  have sat: "sat_add 32 v (Suc 0) = Suc v" "sat_add 32 a (Suc 0) = Suc a" using Cons.prems by (simp_all add: sat_add_exact)
  obtain i j v' a' sx x' sy where
    n: "next_hls_id (kind_from_matroska (mt_kind t)) (v, a, s, x) = (i, (v', a', sx, x'))" and
    p: "probe_next_track_id (kind_from_matroska (mt_kind t)) (v, a, s') (mt_index t) = (j, (v', a', sy))" and
    b: "v' + length ts < 2 ^ 32" "a' + length ts < 2 ^ 32" and e: "ok t \<Longrightarrow> j = i"
    using assms(1) Cons.prems
    by (cases "mt_kind t") (auto simp: ok_def next_hls_id_def next_semantic_track_id_def probe_next_track_id_def sat)
  have loop: "select_matroska_loop kind requested (v, a, s, x) first (t # ts) =
      (if \<not> ok t then select_matroska_loop kind requested (v', a', sx, x') first ts
       else if requested = Some i \<or> requested = None \<and> mt_default t then Some (i, t)
       else select_matroska_loop kind requested (v', a', sx, x')
         (if requested = None \<and> first = None then Some (i, t) else first) ts)"
    by (simp add: n ok_def)
  have listing: "zip (map trk_id (matroska_track_loop d (v, a, s') (t # ts))) (t # ts) =
      (j, t) # zip (map trk_id (matroska_track_loop d (v', a', sy) ts)) ts" by (simp add: p Let_def)
  show ?case
  proof (cases "ok t")
    case True
    then show ?thesis unfolding loop listing Cons.IH [OF b, where s' = sy] Let_def e [OF True]
      by (cases requested; cases first) (simp_all add: or_else_def)
  next
    case False
    then show ?thesis unfolding loop listing Cons.IH [OF b, where s' = sy] Let_def by (simp cong: option.case_cong)
  qed
qed

text \<open>C24: Native HLS takes the tracks the probe names: the track it selects under a name is the first video or audio track
  with a supported codec that the probe lists under that name; with no name requested it is the first supported track of
  an MP4 file, and of a Matroska file the first supported default track, or else the first supported one.\<close>

theorem hls_selects_probed_tracks:
  fixes mp4 mkv requested
  defines "mp4_named \<equiv> zip (map trk_id (tracks_from_mp4 mp4)) (bm_tracks mp4)"
    and "mkv_named \<equiv> zip (map trk_id (tracks_from_matroska mkv)) (mm_tracks mkv)"
  assumes "length (bm_tracks mp4) < 2 ^ 32" "length (mm_tracks mkv) < 2 ^ 32"
  shows "select_mp4_hls_track (bm_tracks mp4) MtAudio requested =
      find (\<lambda>(i, t). m4_kind t = MtAudio \<and> m4_codec t \<in> {''aac'', ''ac3'', ''eac3''} \<and>
        (case requested of Some r \<Rightarrow> r = i | None \<Rightarrow> True)) mp4_named \<and>
    select_mp4_hls_track (bm_tracks mp4) MtVideo None =
      find (\<lambda>(i, t). m4_kind t = MtVideo \<and> m4_codec t \<in> {''h264'', ''hevc''}) mp4_named \<and>
    select_matroska_hls_track (mm_tracks mkv) MkvAudio requested =
      (let ok = \<lambda>t. mt_kind t = MkvAudio \<and> mt_codec t \<in> lit ` {''aac'', ''ac3'', ''eac3''}
       in case requested of
            Some r \<Rightarrow> find (\<lambda>(i, t). ok t \<and> i = r) mkv_named
          | None \<Rightarrow> or_else (find (\<lambda>(i, t). ok t \<and> mt_default t) mkv_named) (find (\<lambda>(i, t). ok t) mkv_named)) \<and>
    select_matroska_hls_track (mm_tracks mkv) MkvVideo None =
      (let ok = \<lambda>t. mt_kind t = MkvVideo \<and> mt_codec t \<in> lit ` {''h264'', ''hevc''}
       in or_else (find (\<lambda>(i, t). ok t \<and> mt_default t) mkv_named) (find (\<lambda>(i, t). ok t) mkv_named))"
proof -
  have mp4: "select_mp4_hls_track (bm_tracks mp4) kind requested =
      find (\<lambda>(i, t). m4_kind t = kind \<and> is_supported_hls_codec (hls_kind_from_mp4 kind) (lit (m4_codec t)) \<and>
        (\<forall>r. requested = Some r \<longrightarrow> r = i)) mp4_named" if "kind = MtVideo \<or> kind = MtAudio" for kind requested
    using select_mp4_find [OF that, of 0 "bm_tracks mp4" 0 requested 0 0 0] assms(3)
    by (simp add: select_mp4_hls_track_def mp4_named_def tracks_from_mp4_def)
  have mkv: "select_matroska_hls_track (mm_tracks mkv) kind requested =
      (let ok = \<lambda>t. mt_kind t = kind \<and> is_supported_hls_codec (hls_kind_from_matroska kind) (mt_codec t)
       in case requested of
            Some r \<Rightarrow> or_else (find (\<lambda>(i, t). ok t \<and> i = r) mkv_named) None
          | None \<Rightarrow> or_else (find (\<lambda>(i, t). ok t \<and> mt_default t) mkv_named) (or_else None (find (\<lambda>(i, t). ok t) mkv_named)))"
    if "kind = MkvVideo \<or> kind = MkvAudio" for kind requested
    unfolding select_matroska_hls_track_def mkv_named_def tracks_from_matroska_def Let_def
    by (rule select_matroska_find [OF that, unfolded Let_def]) (use assms(4) in simp_all)
  have none: "or_else x None = x" "or_else None x = x" for x :: "(string \<times> matroska_track) option"
    by (cases x; simp add: or_else_def)+
  show ?thesis
    unfolding mp4 [OF disjI1, OF refl] mp4 [OF disjI2, OF refl] mkv [OF disjI1, OF refl] mkv [OF disjI2, OF refl]
    by (intro conjI; cases requested) (simp_all add: is_supported_hls_codec_def none Let_def)
qed

section \<open>The tracks of an MP4 file\<close>

text \<open>\<open>HlsInput\<close>: the metadata held in memory and the reads, which fetch from the file.\<close>

record hls_source =
  hs_metadata :: bytes
  hs_mp4_metadata :: "string list \<Rightarrow> hls_error + bytes"
  hs_source_len :: nat
  hs_input :: hls_input
  hs_matroska_packets :: "string list \<Rightarrow> nat \<Rightarrow> nat \<Rightarrow> hls_error + matroska_packet_track list"
  hs_matroska_plan :: "string \<Rightarrow> nat \<Rightarrow> hls_error + chunk_plan"

text \<open>\<open>ok_or_else(|| anyhow!(...))?\<close>, and a failure of the Dolby header parser, which is an \<open>anyhow\<close> error too.\<close>

definition or_fail :: "string \<Rightarrow> 'a option \<Rightarrow> hls_error + 'a" where
  "or_fail what = ok_or (HlsInternal (OtherFailure what))"

definition dolby_failure :: "dolby_error \<Rightarrow> hls_error" where
  "dolby_failure e = HlsInternal (OtherFailure ''Dolby header'')"

definition config_bytes :: "string \<Rightarrow> string option \<Rightarrow> hls_error + bytes" where
  "config_bytes missing description_hex = res_bind (or_fail missing description_hex) (\<lambda>hex. hex_to_bytes (lit hex))"

definition mp4_video_payload :: "string \<Rightarrow> mp4_codec_config \<Rightarrow> hls_error + payload_kind" where
  "mp4_video_payload codec config =
     (if codec = ''h264'' then
        res_bind (config_bytes ''missing avcC'' (cfg_description_hex config)) (\<lambda>avc.
        res_bind (map_err HlsH264 (parse_avc_decoder_config avc)) (\<lambda>sets.
          Inr (payload_kind.Avc (unwrap_or (cfg_nalu_length_size config) 4) sets)))
      else if codec = ''hevc'' then
        res_bind (config_bytes ''missing hvcC'' (cfg_description_hex config)) (\<lambda>hvc.
        res_bind (map_err HlsHevc (parse_hevc_decoder_config hvc)) (\<lambda>sets.
        res_bind (map_err HlsHevc (hevc_decoder_config_to_annex_b hvc)) (\<lambda>annex_b.
          Inr (payload_kind.Hevc (unwrap_or (cfg_nalu_length_size config) (hdc_length_size sets)) annex_b))))
      else Inl (HlsUnsupported ''native HLS MP4 video codec is not supported''))"

definition mp4_video_sample_entry :: "mp4_track \<Rightarrow> mp4_codec_config \<Rightarrow> hls_error + fmp4_sample_entry option" where
  "mp4_video_sample_entry track config =
     (let width = clamped_u16 (unwrap_or (m4_width track) 0); height = clamped_u16 (unwrap_or (m4_height track) 0) in
      if m4_codec track = ''h264'' then
        res_bind (config_bytes ''missing avcC'' (cfg_description_hex config)) (\<lambda>avc. Inr (Some (AvcEntry avc width height)))
      else if m4_codec track = ''hevc'' then
        res_bind (or_fail ''missing or oversized source HEVC sample entry'' (cfg_source_video_sample_entry config)) (\<lambda>source.
          Inr (Some (SourceHevcEntry source width height)))
      else Inr None)"

definition mp4_audio_payload :: "string \<Rightarrow> mp4_codec_config \<Rightarrow> hls_error + payload_kind" where
  "mp4_audio_payload codec config =
     (if codec = ''aac'' then
        res_bind (config_bytes ''missing AudioSpecificConfig'' (cfg_description_hex config)) (\<lambda>asc.
        res_bind (map_err HlsAac (parse_audio_specific_config asc)) (\<lambda>c. Inr (payload_kind.Aac c)))
      else if codec = ''ac3'' then Inr payload_kind.Ac3
      else if codec = ''eac3'' then Inr payload_kind.Eac3
      else if codec \<in> {''mp3'', ''flac'', ''alac''} then Inr RawAudio
      else Inl (HlsUnsupported ''native HLS MP4 audio codec is not supported''))"

text \<open>The sample entry of a Dolby track is made from its first packet; the box writers cannot run past their buffers.\<close>

definition ac3_entry :: "hls_source \<Rightarrow> packet_ref list \<Rightarrow> nat \<Rightarrow> nat \<Rightarrow> hls_error + fmp4_sample_entry" where
  "ac3_entry source packets channel_count sample_rate =
     res_bind (or_fail ''missing AC-3 packet for dac3'' (first_of packets)) (\<lambda>first_packet.
     res_bind (packet_bytes (hs_input source) first_packet) (\<lambda>frame.
     res_bind (map_err dolby_failure (parse_ac3_specific_box frame)) (\<lambda>b.
     res_bind (or_fail ''out of bounds'' (dac3_payload b)) (\<lambda>dac3.
       Inr (Ac3Entry dac3 channel_count sample_rate)))))"

definition eac3_entry :: "hls_source \<Rightarrow> packet_ref list \<Rightarrow> nat \<Rightarrow> nat \<Rightarrow> hls_error + fmp4_sample_entry" where
  "eac3_entry source packets channel_count sample_rate =
     res_bind (or_fail ''missing E-AC-3 packet for dec3'' (first_of packets)) (\<lambda>first_packet.
     res_bind (packet_bytes (hs_input source) first_packet) (\<lambda>access_unit.
     res_bind (map_err dolby_failure (parse_eac3_specific_box access_unit)) (\<lambda>b.
     res_bind (or_fail ''out of bounds'' (dec3_payload b)) (\<lambda>dec3.
       Inr (Eac3Entry dec3 channel_count sample_rate)))))"

definition mp4_audio_sample_entry ::
    "hls_source \<Rightarrow> mp4_track \<Rightarrow> mp4_codec_config \<Rightarrow> packet_ref list \<Rightarrow> hls_error + fmp4_sample_entry option" where
  "mp4_audio_sample_entry source track config packets =
     (let channel_count = clamped_u16 (unwrap_or (m4_channels track) 2); sample_rate = unwrap_or (m4_sample_rate track) 48000;
          codec = m4_codec track
      in if codec = ''aac'' then
           res_bind (config_bytes ''missing AudioSpecificConfig'' (cfg_description_hex config)) (\<lambda>asc.
             Inr (Some (AacEntry asc channel_count sample_rate)))
         else if codec = ''ac3'' then res_bind (ac3_entry source packets channel_count sample_rate) (\<lambda>e. Inr (Some e))
         else if codec = ''eac3'' then res_bind (eac3_entry source packets channel_count sample_rate) (\<lambda>e. Inr (Some e))
         else if codec = ''mp3'' then Inr (Some (Mp3Entry channel_count sample_rate))
         else if codec = ''flac'' then
           res_bind (config_bytes ''missing FLAC STREAMINFO'' (cfg_description_hex config)) (\<lambda>c.
             Inr (Some (FlacEntry c channel_count sample_rate)))
         else if codec = ''alac'' then
           res_bind (config_bytes ''missing ALAC codec config'' (cfg_description_hex config)) (\<lambda>c.
             Inr (Some (AlacEntry c channel_count sample_rate)))
         else Inr None)"

definition first_timescale :: "packet_ref list \<Rightarrow> nat \<Rightarrow> nat" where
  "first_timescale packets d = unwrap_or (map_option (\<lambda>p. units_per_second (tp_scale (pr_dts p))) (first_of packets)) d"

definition require_audio :: "string option \<Rightarrow> 'a option \<Rightarrow> hls_error + 'a" where
  "require_audio requested = or_fail (case requested of
       Some _ \<Rightarrow> ''native HLS could not use requested audio track''
     | None \<Rightarrow> ''native HLS currently requires AAC, AC-3, or E-AC-3 audio'')"

definition hls_tracks_from_mp4 :: "hls_source \<Rightarrow> string option \<Rightarrow> hls_error + fmp4_sample_entry hls_track_set" where
  "hls_tracks_from_mp4 source requested =
     (let meta = parse_basic_metadata (hs_metadata source) in
      res_bind (or_fail ''native HLS currently requires H.264 or HEVC video''
        (select_mp4_hls_track (bm_tracks meta) MtVideo None)) (\<lambda>(video_track_id, video_meta).
      res_bind (require_audio requested (select_mp4_hls_track (bm_tracks meta) MtAudio requested)) (\<lambda>(audio_track_id, audio_meta).
      res_bind (hs_mp4_metadata source [video_track_id, audio_track_id]) (\<lambda>selected.
      res_bind (or_fail ''missing MP4 video decoder config'' (parse_codec_config selected (Some video_track_id))) (\<lambda>video_config.
      res_bind (or_fail ''missing MP4 audio decoder config'' (parse_codec_config selected (Some audio_track_id))) (\<lambda>audio_config.
      res_bind (or_fail ''missing MP4 video packet index'' (parse_packet_track selected (Some video_track_id))) (\<lambda>video_index.
      res_bind (or_fail ''missing MP4 audio packet index'' (parse_packet_track selected (Some audio_track_id))) (\<lambda>audio_index.
      res_bind (mp4_video_payload (m4_codec video_meta) video_config) (\<lambda>video_payload.
      res_bind (mp4_video_sample_entry video_meta video_config) (\<lambda>video_entry.
      res_bind (mp4_audio_payload (m4_codec audio_meta) audio_config) (\<lambda>audio_payload.
      res_bind (mp4_audio_sample_entry source audio_meta audio_config (mi_packets audio_index)) (\<lambda>audio_entry.
        Inr \<lparr>hts_video = \<lparr>ht_id = video_track_id,
               ht_codec_string = unwrap_or (cfg_codec_string video_config) (fallback_video_codec_string (lit (m4_codec video_meta))),
               ht_timescale = first_timescale (mi_packets video_index) 90000, ht_packets = mi_packets video_index,
               ht_payload = video_payload, ht_fmp4_sample_entry = video_entry\<rparr>,
             hts_audio = \<lparr>ht_id = audio_track_id,
               ht_codec_string = unwrap_or (cfg_codec_string audio_config) (fallback_audio_codec_string (lit (m4_codec audio_meta))),
               ht_timescale = first_timescale (mi_packets audio_index) (unwrap_or (m4_sample_rate audio_meta) 48000),
               ht_packets = mi_packets audio_index, ht_payload = audio_payload,
               ht_fmp4_sample_entry = audio_entry\<rparr>\<rparr>))))))))))))"

section \<open>The tracks of a Matroska file\<close>

definition matroska_video_payload_kind :: "matroska_track \<Rightarrow> hls_error + payload_kind" where
  "matroska_video_payload_kind track =
     (if mt_codec track = lit ''h264'' then
        res_bind (or_fail ''missing Matroska avcC private data'' (mt_codec_private track)) (\<lambda>avc.
        res_bind (map_err HlsH264 (parse_avc_decoder_config avc)) (\<lambda>sets.
          Inr (payload_kind.Avc (aps_length_size sets) sets)))
      else if mt_codec track = lit ''hevc'' then
        res_bind (or_fail ''missing Matroska hvcC private data'' (mt_codec_private track)) (\<lambda>hvc.
        res_bind (map_err HlsHevc (parse_hevc_decoder_config hvc)) (\<lambda>sets.
        res_bind (map_err HlsHevc (hevc_decoder_config_to_annex_b hvc)) (\<lambda>annex_b.
          Inr (payload_kind.Hevc (hdc_length_size sets) annex_b))))
      else Inl (HlsUnsupported ''native HLS Matroska video codec is not supported''))"

definition matroska_audio_payload_kind :: "matroska_track \<Rightarrow> hls_error + payload_kind" where
  "matroska_audio_payload_kind track =
     (if mt_codec track = lit ''aac'' then
        res_bind (or_fail ''missing Matroska AAC private data'' (mt_codec_private track)) (\<lambda>asc.
        res_bind (map_err HlsAac (parse_audio_specific_config asc)) (\<lambda>c. Inr (payload_kind.Aac c)))
      else if mt_codec track = lit ''ac3'' then Inr payload_kind.Ac3
      else if mt_codec track = lit ''eac3'' then Inr payload_kind.Eac3
      else if mt_codec track \<in> lit ` {''mp3'', ''flac'', ''alac''} then Inr RawAudio
      else Inl (HlsUnsupported ''native HLS Matroska audio codec is not supported''))"

definition matroska_video_fmp4_sample_entry :: "matroska_track \<Rightarrow> hls_error + fmp4_sample_entry option" where
  "matroska_video_fmp4_sample_entry track =
     (let width = clamped_u16 (unwrap_or (mt_width track) 0); height = clamped_u16 (unwrap_or (mt_height track) 0) in
      if mt_codec track = lit ''h264'' then
        res_bind (or_fail ''missing Matroska avcC private data'' (mt_codec_private track)) (\<lambda>c. Inr (Some (AvcEntry c width height)))
      else if mt_codec track = lit ''hevc'' then
        res_bind (or_fail ''missing Matroska hvcC private data'' (mt_codec_private track)) (\<lambda>c. Inr (Some (HevcEntry c width height)))
      else Inr None)"

definition matroska_audio_fmp4_sample_entry ::
    "hls_source \<Rightarrow> matroska_track \<Rightarrow> packet_ref list \<Rightarrow> hls_error + fmp4_sample_entry option" where
  "matroska_audio_fmp4_sample_entry source track packets =
     (let channel_count = clamped_u16 (unwrap_or (mt_channels track) 2); sample_rate = unwrap_or (mt_sample_rate track) 48000;
          codec = mt_codec track
      in if codec = lit ''aac'' then
           res_bind (or_fail ''missing Matroska AAC private data'' (mt_codec_private track)) (\<lambda>c.
             Inr (Some (AacEntry c channel_count sample_rate)))
         else if codec = lit ''ac3'' then res_bind (ac3_entry source packets channel_count sample_rate) (\<lambda>e. Inr (Some e))
         else if codec = lit ''eac3'' then res_bind (eac3_entry source packets channel_count sample_rate) (\<lambda>e. Inr (Some e))
         else if codec = lit ''mp3'' then Inr (Some (Mp3Entry channel_count sample_rate))
         else if codec = lit ''flac'' then
           res_bind (or_fail ''missing Matroska FLAC STREAMINFO'' (mt_codec_private track)) (\<lambda>c.
             Inr (Some (FlacEntry c channel_count sample_rate)))
         else if codec = lit ''alac'' then
           res_bind (or_fail ''missing Matroska ALAC codec config'' (mt_codec_private track)) (\<lambda>c.
             Inr (Some (AlacEntry c channel_count sample_rate)))
         else Inr None)"

text \<open>Both selections of a Matroska file.\<close>

definition select_matroska_pair ::
    "hls_source \<Rightarrow> string option \<Rightarrow> hls_error + ((string \<times> matroska_track) \<times> string \<times> matroska_track)" where
  "select_matroska_pair source requested =
     (let tracks = mm_tracks (mkv_basic_metadata (hs_metadata source)) in
      res_bind (or_fail ''native HLS currently requires H.264 or HEVC video''
        (select_matroska_hls_track tracks MkvVideo None)) (\<lambda>video.
      res_bind (require_audio requested (select_matroska_hls_track tracks MkvAudio requested)) (\<lambda>audio.
        Inr (video, audio))))"

text \<open>\<open>remove(0)\<close> panics on an empty list.\<close>

definition first_packets :: "matroska_packet_track list \<Rightarrow> hls_error + packet_ref list" where
  "first_packets tracks = or_fail ''panic'' (map_option mp_packets (first_of tracks))"

definition matroska_track_set ::
    "string \<Rightarrow> string \<Rightarrow> packet_ref list \<Rightarrow> payload_kind \<Rightarrow> fmp4_sample_entry option \<Rightarrow>
     string \<Rightarrow> string \<Rightarrow> packet_ref list \<Rightarrow> payload_kind \<Rightarrow> fmp4_sample_entry option \<Rightarrow> fmp4_sample_entry hls_track_set" where
  "matroska_track_set video_id video_codec video_packets video_payload video_entry
       audio_id audio_codec audio_packets audio_payload audio_entry =
     \<lparr>hts_video = \<lparr>ht_id = video_id, ht_codec_string = video_codec, ht_timescale = first_timescale video_packets 90000,
        ht_packets = video_packets, ht_payload = video_payload, ht_fmp4_sample_entry = video_entry\<rparr>,
      hts_audio = \<lparr>ht_id = audio_id, ht_codec_string = audio_codec, ht_timescale = first_timescale audio_packets 48000,
        ht_packets = audio_packets, ht_payload = audio_payload, ht_fmp4_sample_entry = audio_entry\<rparr>\<rparr>"

definition hls_tracks_from_matroska :: "hls_source \<Rightarrow> string option \<Rightarrow> hls_error + fmp4_sample_entry hls_track_set" where
  "hls_tracks_from_matroska source requested =
     res_bind (select_matroska_pair source requested) (\<lambda>((video_track_id, video), audio_track_id, audio).
     res_bind (hs_matroska_packets source [video_track_id] 0 (2 ^ 64 - 1)) (\<lambda>video_tracks.
     res_bind (first_packets video_tracks) (\<lambda>video_packets.
     res_bind (hs_matroska_packets source [audio_track_id] 0 (2 ^ 64 - 1)) (\<lambda>audio_tracks.
     res_bind (first_packets audio_tracks) (\<lambda>audio_packets.
     res_bind (matroska_video_payload_kind video) (\<lambda>video_payload.
     res_bind (matroska_video_fmp4_sample_entry video) (\<lambda>video_entry.
     res_bind (matroska_audio_payload_kind audio) (\<lambda>audio_payload.
     res_bind (matroska_audio_fmp4_sample_entry source audio audio_packets) (\<lambda>audio_entry.
       Inr (matroska_track_set video_track_id (matroska_video_codec_string video) video_packets video_payload video_entry
         audio_track_id (matroska_audio_codec_string audio) audio_packets audio_payload audio_entry))))))))))"

definition packets_of_track :: "string \<Rightarrow> matroska_packet_track list \<Rightarrow> packet_ref list option" where
  "packets_of_track track_id tracks = map_option mp_packets (find (\<lambda>t. mp_id t = track_id) tracks)"

section \<open>Windows of a Matroska file\<close>

definition matroska_hls_tracks_for_selected_window ::
    "hls_source \<Rightarrow> string option \<Rightarrow> segment_window \<Rightarrow> hls_error + fmp4_sample_entry hls_track_set" where
  "matroska_hls_tracks_for_selected_window source requested window =
     res_bind (select_matroska_pair source requested) (\<lambda>((video_track_id, video), audio_track_id, audio).
     res_bind (hs_matroska_packets source [video_track_id, audio_track_id] (sw_start_ms window) (sw_end_ms window)) (\<lambda>tracks.
     res_bind (or_fail ''missing Matroska video packets for HLS init window''
       (Option.bind (packets_of_track video_track_id tracks) (\<lambda>ps. if ps = [] then None else Some ps))) (\<lambda>video_packets.
     res_bind (or_fail ''missing Matroska audio packets for HLS init window''
       (Option.bind (packets_of_track audio_track_id tracks) (\<lambda>ps. if ps = [] then None else Some ps))) (\<lambda>audio_packets.
     res_bind (matroska_audio_fmp4_sample_entry source audio audio_packets) (\<lambda>audio_entry.
     res_bind (matroska_video_payload_kind video) (\<lambda>video_payload.
     res_bind (matroska_video_fmp4_sample_entry video) (\<lambda>video_entry.
     res_bind (matroska_audio_payload_kind audio) (\<lambda>audio_payload.
       Inr (matroska_track_set video_track_id (matroska_video_codec_string video) video_packets video_payload video_entry
         audio_track_id (matroska_audio_codec_string audio) audio_packets audio_payload audio_entry)))))))))"

definition matroska_hls_tracks_for_first_window ::
    "hls_source \<Rightarrow> string option \<Rightarrow> nat \<Rightarrow> hls_error + fmp4_sample_entry hls_track_set" where
  "matroska_hls_tracks_for_first_window source requested segment_target_ms =
     matroska_hls_tracks_for_selected_window source requested
       \<lparr>sw_index = 0, sw_start_ms = 0, sw_end_ms = max (max segment_target_ms MIN_SEGMENT_MS) 1\<rparr>"

section \<open>Playlist plans\<close>

record hls_vod_playlist_plan =
  hvp_video_track_id :: string
  hvp_audio_track_id :: string
  hvp_video_codec :: string
  hvp_audio_codec :: string
  hvp_windows :: "segment_window list"
  hvp_target_duration_seconds :: nat
  hvp_bandwidth_bits_per_second :: nat

definition extend_last :: "nat option \<Rightarrow> segment_window list \<Rightarrow> segment_window list" where
  "extend_last duration windows =
     (case duration of
        Some d \<Rightarrow> butlast windows @
          [(last windows)\<lparr>sw_end_ms := max (max (sw_end_ms (last windows)) d) (sat_add 64 (sw_start_ms (last windows)) 1)\<rparr>]
      | None \<Rightarrow> windows)"

definition hls_playlist_plan_from_chunk_plan ::
    "string \<Rightarrow> string \<Rightarrow> string \<Rightarrow> string \<Rightarrow> chunk_plan \<Rightarrow> nat \<Rightarrow> nat option \<Rightarrow> hls_error + hls_vod_playlist_plan" where
  "hls_playlist_plan_from_chunk_plan video_track_id audio_track_id video_codec audio_codec video_plan source_len duration =
     (let windows = chunk_plan_windows video_plan in
      if windows = [] then Inl (HlsUnsupported ''native HLS could not build keyframe-aligned segment windows'')
      else let windows = extend_last duration windows
           in Inr \<lparr>hvp_video_track_id = video_track_id, hvp_audio_track_id = audio_track_id, hvp_video_codec = video_codec,
                hvp_audio_codec = audio_codec, hvp_windows = windows,
                hvp_target_duration_seconds = target_duration_seconds_for_windows windows,
                hvp_bandwidth_bits_per_second = estimate_hls_bandwidth_from_source_size source_len duration\<rparr>)"

definition hls_playlist_plan_from_mp4 :: "hls_source \<Rightarrow> nat \<Rightarrow> string option \<Rightarrow> nat \<Rightarrow> hls_error + hls_vod_playlist_plan" where
  "hls_playlist_plan_from_mp4 source source_len requested segment_target_ms =
     (let meta = parse_basic_metadata (hs_metadata source) in
      res_bind (or_fail ''native HLS currently requires H.264 or HEVC video''
        (select_mp4_hls_track (bm_tracks meta) MtVideo None)) (\<lambda>(video_track_id, video_meta).
      res_bind (require_audio requested (select_mp4_hls_track (bm_tracks meta) MtAudio requested)) (\<lambda>(audio_track_id, audio_meta).
      res_bind (hs_mp4_metadata source [video_track_id, audio_track_id]) (\<lambda>selected.
      res_bind (or_fail ''missing MP4 video decoder config'' (parse_codec_config selected (Some video_track_id))) (\<lambda>video_config.
      res_bind (or_fail ''missing MP4 audio decoder config'' (parse_codec_config selected (Some audio_track_id))) (\<lambda>audio_config.
      res_bind (or_fail ''missing MP4 video chunk plan'' (parse_chunk_plan selected (Some video_track_id) segment_target_ms)) (\<lambda>video_plan.
        hls_playlist_plan_from_chunk_plan video_track_id audio_track_id
          (unwrap_or (cfg_codec_string video_config) (fallback_video_codec_string (lit (m4_codec video_meta))))
          (unwrap_or (cfg_codec_string audio_config) (fallback_audio_codec_string (lit (m4_codec audio_meta))))
          video_plan source_len (bm_duration_ms meta))))))))"

definition hls_playlist_plan_from_matroska :: "hls_source \<Rightarrow> nat \<Rightarrow> string option \<Rightarrow> nat \<Rightarrow> hls_error + hls_vod_playlist_plan" where
  "hls_playlist_plan_from_matroska source source_len requested segment_target_ms =
     res_bind (select_matroska_pair source requested) (\<lambda>((video_track_id, video), audio_track_id, audio).
     res_bind (hs_matroska_plan source video_track_id segment_target_ms) (\<lambda>video_plan.
       hls_playlist_plan_from_chunk_plan video_track_id audio_track_id (matroska_video_codec_string video)
         (matroska_audio_codec_string audio) video_plan source_len
         (mm_duration_ms (mkv_basic_metadata (hs_metadata source)))))"

definition playlist_plan_open :: "hls_source \<Rightarrow> string option \<Rightarrow> nat \<Rightarrow> hls_error + hls_vod_playlist_plan" where
  "playlist_plan_open source requested segment_target =
     (let segment_target_ms = max segment_target 500 in
      if looks_like_mp4 (hs_metadata source)
      then hls_playlist_plan_from_mp4 source (hs_source_len source) requested segment_target_ms
      else if looks_like_ebml (hs_metadata source)
      then hls_playlist_plan_from_matroska source (hs_source_len source) requested segment_target_ms
      else Inl (HlsUnsupported ''native HLS currently supports MP4/MOV and Matroska/WebM sources''))"

record hls_vod_plan =
  hvd_tracks :: "fmp4_sample_entry hls_track_set"
  hvd_windows :: "segment_window list"
  hvd_target_duration_seconds :: nat
  hvd_bandwidth_bits_per_second :: nat

definition vod_plan_from_source :: "hls_source \<Rightarrow> string option \<Rightarrow> nat \<Rightarrow> hls_error + hls_vod_plan" where
  "vod_plan_from_source source requested segment_target =
     res_bind
       (if looks_like_mp4 (hs_metadata source) then hls_tracks_from_mp4 source requested
        else if looks_like_ebml (hs_metadata source) then hls_tracks_from_matroska source requested
        else Inl (HlsUnsupported ''native HLS currently supports MP4/MOV and Matroska/WebM sources'')) (\<lambda>tracks.
       if ht_packets (hts_video tracks) = [] \<or> ht_packets (hts_audio tracks) = []
       then Inl (HlsUnsupported ''native HLS requires one packet-indexed video track and one packet-indexed audio track'')
       else
         let windows = segment_windows (ht_packets (hts_video tracks)) (max segment_target 500) in
         if windows = [] then Inl (HlsUnsupported ''native HLS could not build keyframe-aligned segment windows'')
         else Inr \<lparr>hvd_tracks = tracks, hvd_windows = windows,
                hvd_target_duration_seconds = target_duration_seconds_for_windows windows,
                hvd_bandwidth_bits_per_second = estimate_hls_bandwidth_bits_per_second tracks windows\<rparr>)"

definition matroska_hls_tracks_for_window ::
    "hls_source \<Rightarrow> hls_vod_playlist_plan \<Rightarrow> segment_window \<Rightarrow> hls_error + fmp4_sample_entry hls_track_set" where
  "matroska_hls_tracks_for_window source plan window =
     (let meta = mkv_basic_metadata (hs_metadata source) in
      res_bind (or_fail ''native HLS currently requires H.264 or HEVC video''
        (select_matroska_hls_track (mm_tracks meta) MkvVideo None)) (\<lambda>(_, video).
      res_bind (or_fail ''native HLS could not use requested audio track''
        (select_matroska_hls_track (mm_tracks meta) MkvAudio (Some (hvp_audio_track_id plan)))) (\<lambda>(_, audio).
      res_bind (hs_matroska_packets source [hvp_video_track_id plan, hvp_audio_track_id plan]
        (sw_start_ms window) (sw_end_ms window)) (\<lambda>tracks.
      res_bind (or_fail ''missing Matroska video packets for HLS segment window''
        (packets_of_track (hvp_video_track_id plan) tracks)) (\<lambda>video_packets.
      res_bind (or_fail ''missing Matroska audio packets for HLS segment window''
        (packets_of_track (hvp_audio_track_id plan) tracks)) (\<lambda>audio_packets.
      res_bind (matroska_audio_fmp4_sample_entry source audio audio_packets) (\<lambda>audio_entry.
      res_bind (matroska_video_payload_kind video) (\<lambda>video_payload.
      res_bind (matroska_video_fmp4_sample_entry video) (\<lambda>video_entry.
      res_bind (matroska_audio_payload_kind audio) (\<lambda>audio_payload.
        Inr (matroska_track_set (hvp_video_track_id plan) (hvp_video_codec plan) video_packets video_payload video_entry
          (hvp_audio_track_id plan) (hvp_audio_codec plan) audio_packets audio_payload audio_entry)))))))))))"

section \<open>Every track set can be written as fMP4\<close>

definition playable_video :: "payload_kind \<Rightarrow> bool" where
  "playable_video p = (case p of payload_kind.Avc _ _ \<Rightarrow> True | payload_kind.Hevc _ _ \<Rightarrow> True | _ \<Rightarrow> False)"

definition playable_audio :: "payload_kind \<Rightarrow> bool" where
  "playable_audio p = (case p of payload_kind.Aac _ \<Rightarrow> True | payload_kind.Ac3 \<Rightarrow> True | payload_kind.Eac3 \<Rightarrow> True | _ \<Rightarrow> False)"

definition writable :: "fmp4_sample_entry hls_track_set \<Rightarrow> bool" where
  "writable tracks \<longleftrightarrow> playable_video (ht_payload (hts_video tracks)) \<and> playable_audio (ht_payload (hts_audio tracks)) \<and>
     ht_fmp4_sample_entry (hts_video tracks) \<noteq> None \<and> ht_fmp4_sample_entry (hts_audio tracks) \<noteq> None"

lemma or_fail_Inr [simp]: "or_fail w x = Inr y \<longleftrightarrow> x = Some y"
  by (simp add: or_fail_def)

lemma require_audio_Inr [simp]: "require_audio r x = Inr y \<longleftrightarrow> x = Some y"
  by (simp add: require_audio_def)

lemma select_mp4_supported:
  "select_mp4_loop kind requested cs ts = Some (i, t) \<Longrightarrow> is_supported_hls_codec (hls_kind_from_mp4 kind) (lit (m4_codec t))"
  by (induction kind requested cs ts rule: select_mp4_loop.induct) (auto split: prod.splits if_splits)

lemma select_matroska_supported:
  "select_matroska_loop kind requested cs first ts = Some (i, t) \<Longrightarrow>
    \<forall>x. first = Some x \<longrightarrow> is_supported_hls_codec (hls_kind_from_matroska kind) (mt_codec (snd x)) \<Longrightarrow>
    is_supported_hls_codec (hls_kind_from_matroska kind) (mt_codec t)"
  by (induction kind requested cs first ts rule: select_matroska_loop.induct) (auto split: prod.splits if_splits)

lemma payloads_playable:
  "mp4_video_payload codec config = Inr p \<Longrightarrow> playable_video p"
  "matroska_video_payload_kind track = Inr p \<Longrightarrow> playable_video p"
  by (auto simp: mp4_video_payload_def matroska_video_payload_kind_def res_bind_Inr playable_video_def split: if_splits)

lemma audio_payloads_playable:
  "mp4_audio_payload codec config = Inr p \<Longrightarrow> is_supported_hls_codec HlsAudio (lit codec) \<Longrightarrow> playable_audio p"
  "matroska_audio_payload_kind track = Inr p \<Longrightarrow> is_supported_hls_codec HlsAudio (mt_codec track) \<Longrightarrow> playable_audio p"
  by (auto simp: mp4_audio_payload_def matroska_audio_payload_kind_def res_bind_Inr playable_audio_def
      is_supported_hls_codec_def split: if_splits)

lemma entries_present:
  "mp4_video_sample_entry t config = Inr e \<Longrightarrow> is_supported_hls_codec HlsVideo (lit (m4_codec t)) \<Longrightarrow> e \<noteq> None"
  "mp4_audio_sample_entry source t config ps = Inr e \<Longrightarrow> is_supported_hls_codec HlsAudio (lit (m4_codec t)) \<Longrightarrow> e \<noteq> None"
  "matroska_video_fmp4_sample_entry u = Inr e \<Longrightarrow> is_supported_hls_codec HlsVideo (mt_codec u) \<Longrightarrow> e \<noteq> None"
  "matroska_audio_fmp4_sample_entry source u ps = Inr e \<Longrightarrow> is_supported_hls_codec HlsAudio (mt_codec u) \<Longrightarrow> e \<noteq> None"
  by (auto simp: mp4_video_sample_entry_def mp4_audio_sample_entry_def matroska_video_fmp4_sample_entry_def
      matroska_audio_fmp4_sample_entry_def is_supported_hls_codec_def Let_def res_bind_Inr split: if_splits)

lemma mp4_selected:
  assumes "select_mp4_hls_track ts kind r = Some (i, t)"
  shows "is_supported_hls_codec (hls_kind_from_mp4 kind) (lit (m4_codec t))"
  using assms select_mp4_supported by (simp add: select_mp4_hls_track_def)

lemma matroska_selected:
  assumes "select_matroska_hls_track ts kind r = Some (i, t)"
  shows "is_supported_hls_codec (hls_kind_from_matroska kind) (mt_codec t)"
  using assms select_matroska_supported [of kind r "(0, 0, 0, 0)" None ts i t] by (simp add: select_matroska_hls_track_def)

lemma matroska_set_writable:
  assumes "matroska_video_payload_kind video = Inr vp" "matroska_video_fmp4_sample_entry video = Inr ve"
    "matroska_audio_payload_kind audio = Inr ap" "matroska_audio_fmp4_sample_entry source audio aps = Inr ae"
    "is_supported_hls_codec HlsVideo (mt_codec video)" "is_supported_hls_codec HlsAudio (mt_codec audio)"
  shows "writable (matroska_track_set vi vc vps vp ve ai ac ps ap ae)"
  using payloads_playable(2) [OF assms(1)] audio_payloads_playable(2) [OF assms(3,6)] entries_present(3) [OF assms(2,5)]
    entries_present(4) [OF assms(4,6)]
  by (simp add: writable_def matroska_track_set_def)

lemma matroska_pair_supported:
  "select_matroska_pair source requested = Inr ((vi, video), ai, audio) \<Longrightarrow>
    is_supported_hls_codec HlsVideo (mt_codec video) \<and> is_supported_hls_codec HlsAudio (mt_codec audio)"
  using matroska_selected [where kind = MkvVideo] matroska_selected [where kind = MkvAudio]
  by (fastforce simp: select_matroska_pair_def Let_def res_bind_Inr)

lemma mp4_tracks_writable:
  assumes "hls_tracks_from_mp4 source requested = Inr tracks"
  shows "writable tracks"
proof -
  obtain vi v ai a vc ac p vp ve ap ae where
    sel: "select_mp4_hls_track (bm_tracks (parse_basic_metadata (hs_metadata source))) MtVideo None = Some (vi, v)"
      "select_mp4_hls_track (bm_tracks (parse_basic_metadata (hs_metadata source))) MtAudio requested = Some (ai, a)" and
    parts: "mp4_video_payload (m4_codec v) vc = Inr vp" "mp4_video_sample_entry v vc = Inr ve"
      "mp4_audio_payload (m4_codec a) ac = Inr ap" "mp4_audio_sample_entry source a ac p = Inr ae" and
    tracks: "ht_payload (hts_video tracks) = vp" "ht_fmp4_sample_entry (hts_video tracks) = ve"
      "ht_payload (hts_audio tracks) = ap" "ht_fmp4_sample_entry (hts_audio tracks) = ae"
    using assms unfolding hls_tracks_from_mp4_def Let_def
    by (elim res_bind_Inr [THEN iffD1, elim_format] exE conjE) (force simp: res_bind_Inr)
  have "is_supported_hls_codec HlsVideo (lit (m4_codec v))" "is_supported_hls_codec HlsAudio (lit (m4_codec a))"
    using mp4_selected [OF sel(1)] mp4_selected [OF sel(2)] by simp_all
  then show ?thesis
    using payloads_playable(1) [OF parts(1)] audio_payloads_playable(1) [OF parts(3)] entries_present(1) [OF parts(2)]
      entries_present(2) [OF parts(4)] tracks
    by (simp add: writable_def)
qed

lemma matroska_tracks_writable:
  "hls_tracks_from_matroska source requested = Inr tracks \<Longrightarrow> writable tracks"
  "matroska_hls_tracks_for_selected_window source requested window = Inr tracks \<Longrightarrow> writable tracks"
  unfolding hls_tracks_from_matroska_def matroska_hls_tracks_for_selected_window_def
  by (fastforce simp: res_bind_Inr intro: matroska_set_writable dest: matroska_pair_supported)+

lemma window_tracks_writable:
  assumes "matroska_hls_tracks_for_window source plan window = Inr tracks"
  shows "writable tracks"
  using assms matroska_selected [where kind = MkvVideo] matroska_selected [where kind = MkvAudio]
  unfolding matroska_hls_tracks_for_window_def Let_def
  by (fastforce simp: res_bind_Inr intro: matroska_set_writable)

definition fits_fmp4 :: "fmp4_sample_entry hls_track_set \<Rightarrow> bool" where
  "fits_fmp4 tracks \<longleftrightarrow> playable_video (ht_payload (hts_video tracks)) \<and> playable_audio (ht_payload (hts_audio tracks)) \<and>
    (\<exists>v a. ht_fmp4_sample_entry (hts_video tracks) = Some v \<and> ht_fmp4_sample_entry (hts_audio tracks) = Some a \<and>
      fmp4_init_segment_for_tracks tracks = map_err fmp4_failure (init_segment
        [fmp4_track_of 1 Fmp4Video 0x01010000 (hts_video tracks) v,
         fmp4_track_of 2 Fmp4Audio 0x02000000 (hts_audio tracks) a]))"

definition ok_tracks :: "hls_error + fmp4_sample_entry hls_track_set \<Rightarrow> bool" where
  "ok_tracks r = (case r of Inl _ \<Rightarrow> True | Inr tracks \<Rightarrow> fits_fmp4 tracks)"

lemma ok_tracks_writable: "(\<And>tracks. r = Inr tracks \<Longrightarrow> writable tracks) \<Longrightarrow> ok_tracks r"
  by (cases r) (auto simp: ok_tracks_def fits_fmp4_def writable_def fmp4_init_segment_for_tracks_def)

text \<open>C25: Whatever the file and whichever audio track is asked for, a track set native HLS builds can be written: the video
  is H.264 or HEVC, the audio AAC, AC-3 or E-AC-3, both have a sample entry, and so the init segment is the one of
  the two tracks and never fails for want of one.\<close>

theorem hls_tracks_fit_fmp4:
  "ok_tracks (hls_tracks_from_mp4 source requested) \<and> ok_tracks (hls_tracks_from_matroska source requested) \<and>
   ok_tracks (matroska_hls_tracks_for_selected_window source requested window) \<and>
   ok_tracks (matroska_hls_tracks_for_window source plan window)"
  by (intro conjI ok_tracks_writable) (fact mp4_tracks_writable matroska_tracks_writable window_tracks_writable)+

section \<open>Announced and muxed segments\<close>

lemma millis_round [simp]: "ms < 2 ^ 64 \<Longrightarrow> tp_as_millis (time_point_millis ms) = ms"
  "ms < 2 ^ 64 \<Longrightarrow> td_as_millis (time_delta_millis ms) = ms"
  by (simp_all add: tp_as_millis_def time_point_millis_def td_as_millis_def time_delta_millis_def)

lemma packet_start_bound: "packet_start_ms p < 2 ^ 64"
  unfolding packet_start_ms_def tp_as_millis_def by (rule to_millis_bound)

lemma packet_end_bound: "packet_end_ms p < 2 ^ 64"
  unfolding packet_end_ms_def by (rule sat_add_bound)

lemma planner_follows_cuts:
  assumes "0 < target" "segment_cuts target ps start ws = (start', ws')"
  shows "0 < tcp_count s \<Longrightarrow> tcp_target_ms s = target \<Longrightarrow> tcp_chunk_start_ms s = start \<Longrightarrow> start < 2 ^ 64 \<Longrightarrow>
    map (\<lambda>c. tp_as_millis (nc_start c)) (tcp_chunks s) = map sw_start_ms ws \<Longrightarrow>
    (let s' = foldl planner_push s ps in tcp_chunk_start_ms s' = start' \<and> 0 < tcp_count s' \<and> start' < 2 ^ 64 \<and>
      map (\<lambda>c. tp_as_millis (nc_start c)) (tcp_chunks s') = map sw_start_ms ws' \<and>
      tcp_last_end_ms s' = (if ps = [] then tcp_last_end_ms s else packet_end_ms (last ps)))"
  using assms(2)
proof (induction ps arbitrary: s start ws)
  case (Cons p ps)
  show ?case
  proof (cases "pr_keyframe p \<and> target \<le> packet_start_ms p - start")
    case True
    then have cut: "segment_cuts target ps (packet_start_ms p)
        (ws @ [\<lparr>sw_index = length ws, sw_start_ms = start, sw_end_ms = packet_start_ms p\<rparr>]) = (start', ws')"
      using Cons.prems(6) by (simp add: Let_def)
    have "let s' = foldl planner_push (planner_push s p) ps in tcp_chunk_start_ms s' = start' \<and> 0 < tcp_count s' \<and> start' < 2 ^ 64 \<and>
      map (\<lambda>c. tp_as_millis (nc_start c)) (tcp_chunks s') = map sw_start_ms ws' \<and>
      tcp_last_end_ms s' = (if ps = [] then tcp_last_end_ms (planner_push s p) else packet_end_ms (last ps))"
      by (rule Cons.IH [OF _ _ _ _ _ cut])
        (use Cons.prems True assms(1) packet_start_bound [of p] in \<open>simp_all add: planner_push_def Let_def planner_emit_def\<close>)
    moreover have "tcp_last_end_ms (planner_push s p) = packet_end_ms p"
      using Cons.prems assms(1) by (simp add: planner_push_def Let_def)
    ultimately show ?thesis by (simp add: Let_def)
  next
    case False
    have cut: "segment_cuts target ps start ws = (start', ws')"
      using Cons.prems(6) unfolding segment_cuts.simps Let_def if_not_P [OF False] .
    have "let s' = foldl planner_push (planner_push s p) ps in tcp_chunk_start_ms s' = start' \<and> 0 < tcp_count s' \<and> start' < 2 ^ 64 \<and>
      map (\<lambda>c. tp_as_millis (nc_start c)) (tcp_chunks s') = map sw_start_ms ws' \<and>
      tcp_last_end_ms s' = (if ps = [] then tcp_last_end_ms (planner_push s p) else packet_end_ms (last ps))"
      by (rule Cons.IH [OF _ _ _ _ _ cut]) (use Cons.prems False assms(1) in \<open>auto simp: planner_push_def Let_def\<close>)
    moreover have "tcp_last_end_ms (planner_push s p) = packet_end_ms p"
      using Cons.prems assms(1) by (simp add: planner_push_def Let_def)
    ultimately show ?thesis by (simp add: Let_def)
  qed
qed (simp add: Let_def)

lemma close_tiled:
  "length xs = length ws \<Longrightarrow> tiled a ws (sw_start_ms v) \<Longrightarrow> map sw_start_ms xs = map sw_start_ms ws \<Longrightarrow>
    map sw_index xs = map sw_index ws \<Longrightarrow> sw_start_ms v < 2 ^ 64 \<Longrightarrow> close_windows (xs @ [v]) = ws @ [v]"
proof (induction xs ws arbitrary: a rule: list_induct2)
  case (Cons x xs w ws)
  have le: "sw_end_ms w \<le> sw_start_ms v" using tiled_le Cons.prems(1) by auto
  have "close_windows (x # xs @ [v]) = x\<lparr>sw_end_ms := sw_end_ms w\<rparr> # close_windows (xs @ [v])"
  proof (cases xs)
    case Nil
    then show ?thesis using Cons.hyps Cons.prems le by (auto simp: sat_add_def max_def)
  next
    case (Cons y ys)
    then obtain u us where "ws = u # us" using Cons.hyps by (cases ws) auto
    then show ?thesis using Cons Cons.prems le by (auto simp: sat_add_def max_def)
  qed
  moreover have "x\<lparr>sw_end_ms := sw_end_ms w\<rparr> = w" using Cons.prems(2,3) by (cases x; cases w) simp
  moreover have "close_windows (xs @ [v]) = ws @ [v]" using Cons.IH Cons.prems by auto
  ultimately show ?case by simp
qed simp

text \<open>The windows of the chunk plan are those the muxer cuts from the packets when no frame is presented longer than the
  last one in decode order.\<close>

lemma chunk_windows_are_segment_windows:
  assumes "0 < target" "ps \<noteq> []" "length ps < 2 ^ 32"
    and latest: "\<forall>p \<in> set ps. packet_end_ms p \<le> packet_end_ms (last ps)"
  shows "chunk_plan_windows (plan_track_chunks tid ps target) = segment_windows ps target"
proof -
  obtain p qs where ps: "ps = p # qs" using assms(2) by (cases ps) auto
  obtain start ws where cut: "segment_cuts target qs (packet_start_ms p) [] = (start, ws)" by fastforce
  define s1 where "s1 = planner_push (planner_new target) p"
  have s1: "0 < tcp_count s1" "tcp_target_ms s1 = target" "tcp_chunk_start_ms s1 = packet_start_ms p" "tcp_chunks s1 = []"
    "tcp_last_end_ms s1 = packet_end_ms p"
    using assms(1) by (simp_all add: s1_def planner_push_def planner_new_def Let_def)
  define s where "s = foldl planner_push s1 qs"
  have s: "tcp_chunk_start_ms s = start" "0 < tcp_count s" "start < 2 ^ 64"
      "map (\<lambda>c. tp_as_millis (nc_start c)) (tcp_chunks s) = map sw_start_ms ws" "tcp_last_end_ms s = packet_end_ms (last ps)"
    using planner_follows_cuts [OF assms(1) cut s1(1,2,3) packet_start_bound] s1(4,5) by (simp_all add: s_def Let_def ps)
  have plan: "cp_chunks (plan_track_chunks tid ps target) = tcp_chunks s @ [planner_emit s]"
    using s(2) assms(1) by (simp add: plan_track_chunks_def planner_finish_def ps s_def s1_def)
  have index: "map nc_index (tcp_chunks s @ [planner_emit s]) = [0..<Suc (length (tcp_chunks s))]"
    using plan_chunks_inv [OF assms(1-3), of tid] unfolding plan Let_def by simp
  have len: "length (tcp_chunks s) = length ws" using arg_cong [OF s(4), of length] by simp
  have tiles: "tiled (packet_start_ms p) ws start" "map sw_index ws = [0..<length ws]"
    using segment_cuts_tiled [OF _ _ assms(1) cut, of "packet_start_ms p"] by simp_all
  define v where "v = chunk_window (planner_emit s)"
  have start_le: "start \<le> packet_end_ms (last ps)"
  proof -
    have "segment_cuts t rs st vs = (start, us) \<Longrightarrow> start = st \<or> start \<in> packet_start_ms ` set rs" for t rs st vs us
      by (induction t rs st vs rule: segment_cuts.induct) (auto simp: Let_def split: if_splits)
    from this [OF cut] obtain q where q: "q \<in> set ps" "start = packet_start_ms q" by (auto simp: ps)
    have "packet_start_ms q \<le> packet_end_ms q" unfolding packet_end_ms_def by (rule sat_add_ge [OF packet_start_bound])
    then show ?thesis using latest q by force
  qed
  have last_end: "foldl max 0 (map packet_end_ms ps) = packet_end_ms (last ps)"
  proof (rule antisym)
    have "foldl max k (map packet_end_ms rs) \<le> m" if "k \<le> m" "\<forall>r \<in> set rs. packet_end_ms r \<le> m" for k m rs
      using that by (induction rs arbitrary: k) auto
    then show "foldl max 0 (map packet_end_ms ps) \<le> packet_end_ms (last ps)" using latest by simp
    show "packet_end_ms (last ps) \<le> foldl max 0 (map packet_end_ms ps)" by (rule foldl_max_ge) (use assms(2) in simp)
  qed
  have v: "v = \<lparr>sw_index = length ws, sw_start_ms = start,
      sw_end_ms = max (foldl max 0 (map packet_end_ms ps)) (sat_add 64 start 1)\<rparr>"
  proof -
    have "nc_index (planner_emit s) = length ws" using index len by (simp add: map_eq_append_conv)
    moreover have "packet_end_ms (last ps) - start < 2 ^ 64" using packet_end_bound [of "last ps"] by linarith
    moreover have "sat_add 64 start (packet_end_ms (last ps) - start) = packet_end_ms (last ps)"
      using start_le packet_end_bound [of "last ps"] by (simp add: sat_add_def)
    ultimately show ?thesis using s(1,3,5)
      by (simp add: v_def chunk_window_def planner_emit_def Let_def last_end)
  qed
  have "map sw_start_ms (map chunk_window (tcp_chunks s)) = map sw_start_ms ws"
    using s(4) by (simp add: chunk_window_def Let_def comp_def)
  moreover have "map sw_index (map chunk_window (tcp_chunks s)) = map sw_index ws"
    using index tiles(2) len by (simp add: chunk_window_def Let_def comp_def)
  ultimately have "close_windows (map chunk_window (tcp_chunks s) @ [v]) = ws @ [v]"
    using len tiles(1) s(3) by (intro close_tiled [of _ _ "packet_start_ms p"]) (simp_all add: v)
  moreover have "chunk_plan_windows (plan_track_chunks tid ps target) =
      collapse_short_windows (close_windows (map chunk_window (tcp_chunks s) @ [v])) MIN_SEGMENT_MS"
    by (simp add: chunk_plan_windows_def plan v_def)
  moreover have "segment_windows ps target = collapse_short_windows (ws @ [v]) MIN_SEGMENT_MS"
    by (simp add: segment_windows_def ps cut Let_def v)
  ultimately show ?thesis by simp
qed

text \<open>C21: A playlist planned from the chunks of a video track announces the segments that the muxer cuts from its packets,
  when no frame is presented longer than the last one in decode order: as many, with the same numbers and the same
  starts, and each ends where the muxed one does, except that the last is extended to the announced duration of the
  file.\<close>

theorem playlist_announces_muxed_segments:
  assumes "0 < target" "ps \<noteq> []" "length ps < 2 ^ 32"
    "\<forall>p \<in> set ps. packet_end_ms p \<le> packet_end_ms (last ps) \<and> packet_start_ms p < 2 ^ 64 - 1"
  shows "\<exists>plan. hls_playlist_plan_from_chunk_plan vid aid vc ac (plan_track_chunks tid ps target) len duration = Inr plan \<and>
    map (\<lambda>w. (sw_index w, sw_start_ms w)) (hvp_windows plan) =
      map (\<lambda>w. (sw_index w, sw_start_ms w)) (segment_windows ps target) \<and>
    butlast (hvp_windows plan) = butlast (segment_windows ps target) \<and>
    sw_end_ms (last (hvp_windows plan)) =
      (case duration of Some d \<Rightarrow> max (sw_end_ms (last (segment_windows ps target))) d
       | None \<Rightarrow> sw_end_ms (last (segment_windows ps target)))"
proof -
  let ?ws = "segment_windows ps target"
  have same: "chunk_plan_windows (plan_track_chunks tid ps target) = ?ws"
    using chunk_windows_are_segment_windows [OF assms(1-3)] assms(4) by blast
  have tiles: "?ws \<noteq> []" "tiled (packet_start_ms (hd ps)) ?ws (sw_end_ms (last ?ws))"
    using segment_windows_tiled [OF assms(2,1)] assms(4) by (simp_all add: Let_def)
  obtain us u where us: "?ws = us @ [u]" using tiles(1) by (cases ?ws rule: rev_cases) auto
  have "sw_start_ms u < sw_end_ms u" using tiles(2) unfolding us by (auto simp: tiled_append)
  then show ?thesis
    by (cases duration) (auto simp: hls_playlist_plan_from_chunk_plan_def same us Let_def extend_last_def sat_add_def max_def)
qed

lemma frame_times: "ms < 2 ^ 32 \<Longrightarrow> packet_start_ms (demo_packet ms key) = ms" "ms < 2 ^ 32 \<Longrightarrow> packet_end_ms (demo_packet ms key) = ms + 40"
  by (simp_all add: packet_end_ms_def packet_start_ms_def demo_packet_def sat_add_exact)

theorem playlist_announces_muxed_segments_witness:
  "\<exists>plan. hls_playlist_plan_from_chunk_plan ''v0'' ''a0'' ''avc1'' ''mp4a''
      (plan_track_chunks ''v0'' [demo_packet 0 True, demo_packet 4000 True, demo_packet 5200 False] 4000) 1000 (Some 5250) = Inr plan \<and>
    sw_end_ms (last (hvp_windows plan)) =
      max (sw_end_ms (last (segment_windows [demo_packet 0 True, demo_packet 4000 True, demo_packet 5200 False] 4000))) 5250"
  using playlist_announces_muxed_segments [of 4000 "[demo_packet 0 True, demo_packet 4000 True, demo_packet 5200 False]"
      "''v0''" "''a0''" "''avc1''" "''mp4a''" "''v0''" 1000 "Some 5250"]
  by (auto simp: frame_times)

text \<open>Without that condition they can differ: here the frame presented last comes before a reordered one, the planner takes
  the last chunk for less than a second and joins it to the first, the muxer does not.\<close>

lemma reordered_end_changes_segments:
  defines "ps \<equiv> [demo_packet 0 True, demo_packet 4000 True, demo_packet 4990 False, demo_packet 4930 False]"
  shows "length (chunk_plan_windows (plan_track_chunks ''v0'' ps 4000)) = 1" "length (segment_windows ps 4000) = 2"
proof -
  have key: "pr_keyframe (demo_packet ms key) = key" for ms key by (simp add: demo_packet_def)
  show "length (segment_windows ps 4000) = 2"
    by (simp add: ps_def segment_windows_def frame_times key Let_def sat_add_def collapse_short_windows_def MIN_SEGMENT_MS_def
        collapse_first_def)
  show "length (chunk_plan_windows (plan_track_chunks ''v0'' ps 4000)) = 1"
    by (simp add: ps_def plan_track_chunks_def planner_new_def planner_push_def planner_finish_def frame_times key Let_def
        planner_emit_def chunk_plan_windows_def chunk_window_def sat_add_def collapse_short_windows_def MIN_SEGMENT_MS_def
        collapse_first_def as_u_def)
qed

section \<open>Codec strings of both containers\<close>

text \<open>For the same HEVC configuration record the codec string announced for a Matroska track is the one an MP4
  \<open>hev1\<close> sample entry gets exactly when all constraint flags are zero: the Matroska string leaves them out.\<close>

theorem matroska_hevc_string_drops_constraints:
  assumes "13 \<le> length config"
  shows "matroska_hevc_codec_string config = hevc_codec_string config (ascii ''hev1'') \<longleftrightarrow>
    (\<forall>b \<in> set (slice config 6 12). b = 0)"
proof -
  have len: "length (slice config 2 6) = 4" using assms by simp
  obtain c where c: "read_u32 (slice config 2 6) = Some c" "c = be_nat (slice config 2 6)" using len by (simp add: read_u32_def)
  have three: "(3 :: u8) = mask 2" by (simp add: mask_eq_exp_minus_1)
  have space: "drop_bit 6 (config ! 1) AND 3 = drop_bit 6 (config ! 1)"
    unfolding three by (intro bit_word_eqI) (auto simp: bit_and_iff bit_drop_bit_eq bit_mask_iff dest: bit_imp_le_length)
  have zeros: "drop_trailing_zeros bs = [] \<longleftrightarrow> (\<forall>b \<in> set bs. b = 0)" for bs
    by (simp add: drop_trailing_zeros_def)
  have tail: "concat (map (\<lambda>b. ''.'' @ show_hex2 (unat b)) bs) = [] \<longleftrightarrow> bs = []" for bs :: bytes by (cases bs) simp_all
  show ?thesis unfolding matroska_hevc_codec_string_def hevc_codec_string_def Let_def space
    using assms c zeros [of "slice config 6 12"] tail [of "drop_trailing_zeros (slice config 6 12)"] by simp
qed

theorem matroska_hevc_string_drops_constraints_witness:
  "matroska_hevc_codec_string (1 # 1 # replicate 4 0 @ 1 # replicate 6 0) \<noteq>
   hevc_codec_string (1 # 1 # replicate 4 0 @ 1 # replicate 6 0) (ascii ''hev1'')"
  using matroska_hevc_string_drops_constraints [of "1 # 1 # replicate 4 0 @ 1 # replicate 6 0"]
  by (simp add: slice_def numeral_eq_Suc)

section \<open>Configurations of MP4 tracks\<close>

lemma hex_digit_show: "n < 16 \<Longrightarrow> hex_digit (byte (of_char (digit_char_lower n))) = Inr n"
proof -
  assume n: "n < 16"
  then have "of_char (digit_char_lower n) = (if n < 10 then 48 + n else 87 + n :: nat)" by (simp add: digit_char_lower_def)
  then show ?thesis using n by (auto simp: hex_digit_def Let_def)
qed

lemma hex_pairs_show:
  "hex_pairs (map (\<lambda>c. byte (of_char c)) (hex_string bs)) = Inr bs"
proof (induction bs)
  case (Cons b bs)
  have "unat b div 16 < 16" using unat_u8_less [of b] by (simp add: less_mult_imp_div_less)
  moreover have "push_bit 4 (byte (unat b div 16)) OR byte (unat b mod 16) = b"
  proof -
    have hi: "byte (unat b div 16) = drop_bit 4 b"
      using unat_u8_less [of b] drop_bit_eq_div [of 4 "unat b"] unat_drop_bit_eq [of 4 b]
      by (intro word_unat_eq_iff [THEN iffD2]) (simp add: div_le_dividend [THEN le_less_trans])
    have lo: "byte (unat b mod 16) = take_bit 4 b"
      by (rule word_unat_eq_iff [THEN iffD2]) (simp add: unat_take_bit_u8)
    show ?thesis unfolding hi lo by (rule bit_word_eqI) (auto simp: bit_or_iff bit_push_bit_iff bit_take_bit_iff bit_drop_bit_eq)
  qed
  ultimately show ?case using Cons.IH hex_digit_show
    by (simp add: hex_string_def show_hex2_lower_def)
qed (simp add: hex_string_def)

lemma hex_string_ascii: "c \<in> set (hex_string bs) \<Longrightarrow> 48 \<le> (of_char c :: nat) \<and> (of_char c :: nat) \<le> 102"
proof -
  have "n < 16 \<Longrightarrow> 48 \<le> (of_char (digit_char_lower n) :: nat) \<and> (of_char (digit_char_lower n) :: nat) \<le> 102" for n
    by (simp add: digit_char_lower_def)
  moreover have "unat (b :: u8) div 16 < 16" for b using unat_u8_less [of b] by (simp add: less_mult_imp_div_less)
  ultimately show "c \<in> set (hex_string bs) \<Longrightarrow> ?thesis" by (auto simp: hex_string_def show_hex2_lower_def)
qed

lemma hex_to_bytes_hex_string: "hex_to_bytes (lit (hex_string bs)) = Inr bs"
proof -
  have ascii_chars: "\<forall>c \<in> set (lit (hex_string bs)). 48 \<le> c \<and> c \<le> 102"
    using hex_string_ascii [of _ bs] by (auto simp: lit_def)
  then have "\<forall>c \<in> set (lit (hex_string bs)). \<not> char_whitespace c" by (auto simp: char_whitespace_def)
  then have trimmed: "trim (lit (hex_string bs)) = lit (hex_string bs)"
    by (intro trim_by_id) (metis hd_in_set last_in_set)
  have "utf8_encode cs = map byte cs" if "\<forall>c \<in> set cs. 48 \<le> c \<and> c \<le> 102" for cs
    using that by (induction cs) (simp_all add: utf8_encode_def utf8_encode_char_def)
  then have encoded: "utf8_encode (lit (hex_string bs)) = map (\<lambda>c. byte (of_char c)) (hex_string bs)"
    using ascii_chars by (simp add: lit_def)
  have "length (hex_string bs) = 2 * length bs"
    by (induction bs) (simp_all add: hex_string_def show_hex2_lower_def)
  then show ?thesis by (simp add: hex_to_bytes_def trimmed encoded hex_pairs_show Let_def)
qed

text \<open>So the configuration bytes of an MP4 track reach the decoder and the init segment as they stand in the file.\<close>

lemma config_bytes_of_description:
  "config_bytes missing (map_option (\<lambda>c. hex_string (cc_description c)) config) =
    (case config of Some c \<Rightarrow> Inr (cc_description c) | None \<Rightarrow> Inl (HlsInternal (OtherFailure missing)))"
  by (cases config) (simp_all add: config_bytes_def or_fail_def hex_to_bytes_hex_string)

section \<open>An example\<close>

definition demo_mkv_meta :: matroska_basic_metadata where
  "demo_mkv_meta = \<lparr>mm_duration_ms = None, mm_tracks = [demo_mkv_track 0 MkvVideo, demo_mkv_track 1 MkvAudio, demo_mkv_track 2 MkvAudio],
     mm_chapters = [], mm_attachment_count = 0\<rparr>"

theorem hls_selects_probed_tracks_witness:
  "map_option fst (select_matroska_hls_track (mm_tracks demo_mkv_meta) MkvAudio (Some (''a'' @ show_nat 1))) = Some (''a'' @ show_nat 1)"
  using hls_selects_probed_tracks [of "\<lparr>bm_major_brand = None, bm_compatible_brands = [], bm_duration_ms = None,
      bm_tracks = [], bm_chapters = []\<rparr>" demo_mkv_meta "Some (''a'' @ show_nat 1)"]
  by (simp add: demo_mkv_meta_def demo_mkv_track_def tracks_from_matroska_def probe_next_track_id_def Let_def
      show_nat_inj)

end
