(* ===== verification/DtsFrames.thy ===== *)
theory DtsFrames
  imports DolbyBoxes
begin

text \<open>
  The DTS core frame headers of \<open>codec/dts.rs\<close>: the search for the sync word, the header fields read bit by bit, and the
  walk over the frames of a packet. The bit reader is the one of \<open>Mp4Codec\<close>, whose reads are fields of the bit list of
  \<open>DolbyBoxes\<close>.
\<close>

section \<open>The header\<close>

record dts_core_frame_header =
  dh_offset :: nat
  dh_frame_size :: nat
  dh_sample_count :: nat
  dh_sample_rate :: nat
  dh_channel_arrangement :: nat
  dh_channels :: nat
  dh_lfe :: bool
  dh_bitrate_bps :: "nat option"

datatype dts_parse_error =
    DtsSyncNotFound | DtsTruncatedHeader | DtsUnsupportedField string nat | DtsFrameOutOfBounds

definition DTS_CORE_SYNC_BE :: bytes where
  "DTS_CORE_SYNC_BE = [0x7f, 0xfe, 0x80, 0x01]"

definition find_dts_core_sync :: "bytes \<Rightarrow> nat option" where
  "find_dts_core_sync payload =
     find (\<lambda>i. slice payload i (i + length DTS_CORE_SYNC_BE) = DTS_CORE_SYNC_BE)
       [0..<length payload + 1 - length DTS_CORE_SYNC_BE]"

definition dts_sample_rate :: "nat \<Rightarrow> nat option" where
  "dts_sample_rate code =
     map_of [(1, 8000), (2, 16000), (3, 32000), (6, 11025), (7, 22050), (8, 44100), (11, 12000), (12, 24000),
       (13, 48000), (14, 96000), (15, 192000)] code"

definition dts_base_channel_count :: "nat \<Rightarrow> nat option" where
  "dts_base_channel_count arrangement =
     (if arrangement = 0 then Some 1
      else if arrangement \<le> 4 then Some 2
      else if arrangement \<le> 6 then Some 3
      else if arrangement \<le> 8 then Some 4
      else if arrangement = 9 then Some 5
      else if arrangement \<le> 11 then Some 6
      else if arrangement = 12 then Some 7
      else if arrangement \<le> 14 then Some 8
      else if arrangement = 15 then Some 6
      else None)"

definition dts_bitrates :: "nat list" where
  "dts_bitrates = [32000, 56000, 64000, 96000, 112000, 128000, 192000, 224000, 256000, 320000, 384000, 448000, 512000,
     576000, 640000, 768000, 960000, 1024000, 1152000, 1280000, 1344000, 1408000, 1411200, 1472000, 1536000, 1920000,
     2048000, 3072000, 3840000]"

definition dts_bitrate_bps :: "nat \<Rightarrow> nat option" where
  "dts_bitrate_bps code = (if code < length dts_bitrates then Some (dts_bitrates ! code) else None)"

definition dts_read :: "bytes \<Rightarrow> nat \<Rightarrow> nat \<Rightarrow> dts_parse_error + (nat \<times> nat)" where
  "dts_read bs bit_count bit_offset = ok_or DtsTruncatedHeader (read_bits bs bit_offset bit_count)"

definition dts_header_of ::
    "nat \<Rightarrow> nat \<Rightarrow> nat \<Rightarrow> nat \<Rightarrow> nat \<Rightarrow> nat \<Rightarrow> nat \<Rightarrow> dts_parse_error + dts_core_frame_header" where
  "dts_header_of offset block_count frame_size channel_arrangement sample_rate_code bitrate_code lfe_code =
     res_bind (ok_or (DtsUnsupportedField ''sampleRateCode'' sample_rate_code) (dts_sample_rate sample_rate_code)) (\<lambda>sample_rate.
     res_bind (ok_or (DtsUnsupportedField ''channelArrangement'' channel_arrangement)
         (dts_base_channel_count channel_arrangement)) (\<lambda>base_channels.
       Inr \<lparr>dh_offset = offset, dh_frame_size = frame_size, dh_sample_count = block_count * 32,
            dh_sample_rate = sample_rate, dh_channel_arrangement = channel_arrangement,
            dh_channels = base_channels + of_bool (lfe_code \<noteq> 0), dh_lfe = (lfe_code \<noteq> 0),
            dh_bitrate_bps = dts_bitrate_bps bitrate_code\<rparr>))"

definition parse_dts_core_frame_at :: "bytes \<Rightarrow> nat \<Rightarrow> dts_parse_error + dts_core_frame_header" where
  "parse_dts_core_frame_at payload offset =
     res_bind (ok_or DtsTruncatedHeader (get_from payload offset)) (\<lambda>header.
     if length header < 12 then Inl DtsTruncatedHeader
     else if take (length DTS_CORE_SYNC_BE) header \<noteq> DTS_CORE_SYNC_BE then Inl DtsSyncNotFound
     else res_bind (dts_read header 32 0) (\<lambda>(sync, pos).
     if sync \<noteq> 0x7ffe8001 then Inl DtsSyncNotFound
     else res_bind (dts_read header 1 pos) (\<lambda>(frame_type, pos).
     res_bind (dts_read header 5 pos) (\<lambda>(deficit_sample_count, pos).
     res_bind (dts_read header 1 pos) (\<lambda>(crc_present, pos).
     res_bind (dts_read header 7 pos) (\<lambda>(block_code, pos).
     res_bind (dts_read header 14 pos) (\<lambda>(size_code, pos).
     res_bind (dts_read header 6 pos) (\<lambda>(channel_arrangement, pos).
     res_bind (dts_read header 4 pos) (\<lambda>(sample_rate_code, pos).
     res_bind (dts_read header 5 pos) (\<lambda>(bitrate_code, pos).
     res_bind (dts_read header 1 pos) (\<lambda>(embedded_downmix, pos).
     res_bind (dts_read header 1 pos) (\<lambda>(embedded_dynamic_range, pos).
     res_bind (dts_read header 1 pos) (\<lambda>(embedded_timestamp, pos).
     res_bind (dts_read header 1 pos) (\<lambda>(auxiliary_data, pos).
     res_bind (dts_read header 1 pos) (\<lambda>(hdcd, pos).
     res_bind (dts_read header 3 pos) (\<lambda>(extension_audio, pos).
     res_bind (dts_read header 1 pos) (\<lambda>(extended_coding, pos).
     res_bind (dts_read header 1 pos) (\<lambda>(audio_sync_word_insertion, pos).
     res_bind (dts_read header 2 pos) (\<lambda>(lfe_code, pos).
     let frame_size = size_code + 1
     in case checked_add 64 offset frame_size of
          None \<Rightarrow> Inl DtsFrameOutOfBounds
        | Some end \<Rightarrow>
            if length payload < end then Inl DtsFrameOutOfBounds
            else dts_header_of offset (block_code + 1) frame_size channel_arrangement sample_rate_code bitrate_code
                   lfe_code)))))))))))))))))))"

text \<open>What the header declares, by bit positions.\<close>

definition dts_field :: "bytes \<Rightarrow> nat \<Rightarrow> nat \<Rightarrow> nat" where
  "dts_field header n from_bit = num (slice (bits header) from_bit (from_bit + n))"

lemma dts_read_Inr:
  "pos + n \<le> 8 * length bs \<Longrightarrow> n \<le> 32 \<Longrightarrow> pos + n < 2 ^ 64 \<Longrightarrow> dts_read bs n pos = Inr (dts_field bs n pos, pos + n)"
  using fold_bits [of pos n bs 32] by (simp add: dts_read_def read_bits_def dts_field_def sat_add_exact)

lemma dts_field_bound: "dts_field bs n pos < 2 ^ n"
proof -
  have "length (slice (bits bs) pos (pos + n)) \<le> n" by (simp add: slice_def)
  then show ?thesis
    unfolding dts_field_def by (rule order_less_le_trans [OF num_bound power_increasing]) simp
qed

definition dts_sync_at :: "bytes \<Rightarrow> nat \<Rightarrow> bool" where
  "dts_sync_at payload offset \<longleftrightarrow> take 4 (drop offset payload) = DTS_CORE_SYNC_BE"

lemma bits_four: "bits [a, b, c, d] = bits [a] @ bits [b] @ bits [c] @ bits [d]"
  using bits_append [of "[a]" "[b, c, d]"] bits_append [of "[b]" "[c, d]"] bits_append [of "[c]" "[d]"] by simp

lemma dts_sync_field:
  assumes "take 4 header = DTS_CORE_SYNC_BE"
  shows "dts_field header 32 0 = 0x7ffe8001"
proof -
  have "bits header = bits DTS_CORE_SYNC_BE @ bits (drop 4 header)"
    using assms by (metis append_take_drop_id bits_append)
  then have "slice (bits header) 0 (0 + 32) = bits DTS_CORE_SYNC_BE" by (simp add: slice_def DTS_CORE_SYNC_BE_def)
  moreover have "num (bits DTS_CORE_SYNC_BE) = 0x7ffe8001"
    by (simp add: bits_four DTS_CORE_SYNC_BE_def bits_single num_def)
  ultimately show ?thesis by (simp add: dts_field_def)
qed

lemma parse_dts_core_frame_at_fields:
  "parse_dts_core_frame_at payload offset =
     (let header = drop offset payload; frame_size = dts_field header 14 46 + 1
      in if length payload < offset + 12 then Inl DtsTruncatedHeader
         else if \<not> dts_sync_at payload offset then Inl DtsSyncNotFound
         else if 2 ^ 64 \<le> offset + frame_size \<or> length payload < offset + frame_size then Inl DtsFrameOutOfBounds
         else dts_header_of offset (dts_field header 7 39 + 1) frame_size (dts_field header 6 60)
                (dts_field header 4 66) (dts_field header 5 70) (dts_field header 2 85))"
proof (cases "length payload < offset + 12 \<or> \<not> dts_sync_at payload offset")
  case True
  have four: "length DTS_CORE_SYNC_BE = 4" by (simp add: DTS_CORE_SYNC_BE_def)
  show ?thesis using True by (auto simp: parse_dts_core_frame_at_def get_from_def dts_sync_at_def four Let_def)
next
  case False
  then have sync: "take 4 (drop offset payload) = DTS_CORE_SYNC_BE" "length payload \<ge> offset + 12"
    by (simp_all add: dts_sync_at_def not_less)
  have len: "\<not> length payload - offset < 12" using sync(2) by linarith
  have four: "length DTS_CORE_SYNC_BE = 4" by (simp add: DTS_CORE_SYNC_BE_def)
  have read: "dts_read (drop offset payload) n pos = Inr (dts_field (drop offset payload) n pos, pos + n)"
    if "pos + n \<le> 96" "n \<le> 32" for n pos
    using that sync(2) by (intro dts_read_Inr) simp_all
  show ?thesis
    using sync dts_sync_field [OF sync(1)] len
    by (simp add: parse_dts_core_frame_at_def get_from_def read four dts_sync_at_def Let_def checked_add_def not_less)
qed

lemma dts_header_of_Inr:
  "dts_header_of offset blocks n arrangement rate_code bitrate_code lfe_code = Inr h \<Longrightarrow>
    dh_offset h = offset \<and> dh_frame_size h = n \<and> dh_sample_count h = blocks * 32"
  by (auto simp: dts_header_of_def res_bind_Inr)

lemma parse_dts_core_frame_at_Inr:
  assumes "parse_dts_core_frame_at payload offset = Inr h"
  shows "dts_sync_at payload offset" "dh_offset h = offset" "0 < dh_frame_size h" "offset + dh_frame_size h \<le> length payload"
    "offset + dh_frame_size h < 2 ^ 64" "dh_frame_size h \<le> 2 ^ 14"
    "dh_sample_count h = 32 * (dts_field (drop offset payload) 7 39 + 1)"
  using assms dts_field_bound [of "drop offset payload" 14 46]
  by (auto simp: parse_dts_core_frame_at_fields Let_def not_less not_le dest!: dts_header_of_Inr split: if_splits)

lemma dts_sync_at_inside: "dts_sync_at payload i \<Longrightarrow> i + 4 \<le> length payload"
  by (drule arg_cong [where f = length, OF iffD1 [OF dts_sync_at_def]]) (auto simp: DTS_CORE_SYNC_BE_def)

lemma find_dts_core_sync_Some:
  "find_dts_core_sync payload = Some i \<Longrightarrow> dts_sync_at payload i \<and> (\<forall>j < i. \<not> dts_sync_at payload j)"
  by (auto simp: find_dts_core_sync_def find_Some_iff dts_sync_at_def slice_def DTS_CORE_SYNC_BE_def)

lemma find_dts_core_sync_None: "find_dts_core_sync payload = None \<longleftrightarrow> (\<forall>i. \<not> dts_sync_at payload i)"
proof -
  have "find_dts_core_sync payload = None \<longleftrightarrow> (\<forall>i < length payload - 3. \<not> dts_sync_at payload i)"
    by (auto simp: find_dts_core_sync_def find_None_iff slice_def DTS_CORE_SYNC_BE_def dts_sync_at_def)
  also have "\<dots> \<longleftrightarrow> (\<forall>i. \<not> dts_sync_at payload i)"
  proof -
    have "i < length payload - 3" if "dts_sync_at payload i" for i using dts_sync_at_inside [OF that] by linarith
    then show ?thesis by blast
  qed
  finally show ?thesis .
qed

lemma dts_sync_at_drop [simp]: "dts_sync_at (drop k payload) i = dts_sync_at payload (k + i)"
  by (simp add: dts_sync_at_def add.commute)

section \<open>The frames of a packet\<close>

function dts_frames_from :: "bytes \<Rightarrow> nat \<Rightarrow> dts_parse_error + dts_core_frame_header list" where
  "dts_frames_from payload offset =
     (case find_dts_core_sync (drop offset payload) of
        None \<Rightarrow> Inr []
      | Some sync \<Rightarrow>
          let absolute = offset + sync
          in case parse_dts_core_frame_at payload absolute of
               Inl e \<Rightarrow> Inl e
             | Inr header \<Rightarrow>
                 res_bind (dts_frames_from payload (sat_add 64 absolute (max (dh_frame_size header) 1))) (\<lambda>frames.
                   Inr (header # frames)))"
  by pat_completeness auto

termination
proof (relation "measure (\<lambda>(payload, offset). length payload - offset)")
  fix payload offset sync absolute header
  assume "absolute = offset + sync" "parse_dts_core_frame_at payload absolute = Inr header"
  then show "((payload, sat_add 64 absolute (max (dh_frame_size header) 1)), payload, offset)
      \<in> measure (\<lambda>(payload, offset). length payload - offset)"
    using parse_dts_core_frame_at_Inr(3-5) [of payload absolute header] by (simp add: sat_add_exact max_def) linarith
qed simp

declare dts_frames_from.simps [simp del]

definition parse_dts_core_frames :: "bytes \<Rightarrow> dts_parse_error + dts_core_frame_header list" where
  "parse_dts_core_frames payload =
     res_bind (dts_frames_from payload 0) (\<lambda>frames. if frames = [] then Inl DtsSyncNotFound else Inr frames)"

lemma dts_frames_from_step:
  "dts_frames_from payload offset =
     (case find_dts_core_sync (drop offset payload) of
        None \<Rightarrow> Inr []
      | Some sync \<Rightarrow> res_bind (parse_dts_core_frame_at payload (offset + sync)) (\<lambda>h.
          res_bind (dts_frames_from payload (dh_offset h + dh_frame_size h)) (\<lambda>fs. Inr (h # fs))))"
proof -
  have next_offset: "sat_add 64 k (max (dh_frame_size h) 1) = dh_offset h + dh_frame_size h"
    if "parse_dts_core_frame_at payload k = Inr h" for k h
    using parse_dts_core_frame_at_Inr [OF that] by (simp add: sat_add_exact max_def)
  show ?thesis
  proof (cases "find_dts_core_sync (drop offset payload)")
    case (Some sync)
    show ?thesis
    proof (cases "parse_dts_core_frame_at payload (offset + sync)")
      case (Inr h)
      show ?thesis by (subst dts_frames_from.simps) (simp only: Some Inr next_offset [OF Inr] Let_def option.case sum.case res_bind_simps)
    qed (subst dts_frames_from.simps, simp add: Some)
  qed (subst dts_frames_from.simps, simp)
qed

definition frame_span :: "dts_core_frame_header \<Rightarrow> nat set" where
  "frame_span h = {dh_offset h..<dh_offset h + dh_frame_size h}"

lemma dts_frames_from_spans:
  assumes "dts_frames_from payload offset = Inr fs"
  shows "\<forall>h \<in> set fs. offset \<le> dh_offset h \<and> parse_dts_core_frame_at payload (dh_offset h) = Inr h"
    "sorted_wrt (\<lambda>h k. dh_offset h + dh_frame_size h \<le> dh_offset k) fs"
    "\<forall>i \<ge> offset. dts_sync_at payload i \<longrightarrow> (\<exists>h \<in> set fs. i \<in> frame_span h)"
proof -
  have "(\<forall>h \<in> set fs. offset \<le> dh_offset h \<and> parse_dts_core_frame_at payload (dh_offset h) = Inr h) \<and>
      sorted_wrt (\<lambda>h k. dh_offset h + dh_frame_size h \<le> dh_offset k) fs \<and>
      (\<forall>i \<ge> offset. dts_sync_at payload i \<longrightarrow> (\<exists>h \<in> set fs. i \<in> frame_span h))"
    using assms
  proof (induction fs arbitrary: offset)
    case Nil
    then have none: "\<not> dts_sync_at payload (offset + i)" for i
      by (auto simp: dts_frames_from_step [of payload offset] find_dts_core_sync_None res_bind_Inr split: option.splits)
    show ?case using none by (auto simp: le_iff_add)
  next
    case (Cons h fs)
    obtain sync where sync: "find_dts_core_sync (drop offset payload) = Some sync"
        "parse_dts_core_frame_at payload (offset + sync) = Inr h"
        "dts_frames_from payload (dh_offset h + dh_frame_size h) = Inr fs"
      using Cons.prems by (auto simp: dts_frames_from_step [of payload offset] res_bind_Inr split: option.splits)
    have h: "dh_offset h = offset + sync" using parse_dts_core_frame_at_Inr(2) [OF sync(2)] .
    have first: "\<not> dts_sync_at payload (offset + j)" if "j < sync" for j
      using find_dts_core_sync_Some [OF sync(1)] that by simp
    have "\<exists>k \<in> set (h # fs). i \<in> frame_span k" if "offset \<le> i" "dts_sync_at payload i" for i
    proof (cases "dh_offset h + dh_frame_size h \<le> i")
      case False
      have "offset + sync \<le> i" using first [of "i - offset"] that by force
      then show ?thesis using False h by (simp add: frame_span_def)
    qed (use Cons.IH [OF sync(3)] that in auto)
    then show ?case using Cons.IH [OF sync(3)] sync(2) h by fastforce
  qed
  then show "\<forall>h \<in> set fs. offset \<le> dh_offset h \<and> parse_dts_core_frame_at payload (dh_offset h) = Inr h"
    "sorted_wrt (\<lambda>h k. dh_offset h + dh_frame_size h \<le> dh_offset k) fs"
    "\<forall>i \<ge> offset. dts_sync_at payload i \<longrightarrow> (\<exists>h \<in> set fs. i \<in> frame_span h)" by blast+
qed

lemma dts_header_of_not_sync: "dts_header_of offset b n a r t l \<noteq> Inl DtsSyncNotFound"
  by (cases "dts_sample_rate r"; cases "dts_base_channel_count a") (auto simp: dts_header_of_def)

lemma dts_frames_from_not_sync: "dts_frames_from payload offset \<noteq> Inl DtsSyncNotFound"
proof (induction payload offset rule: dts_frames_from.induct)
  case (1 payload offset)
  have at: "parse_dts_core_frame_at payload k \<noteq> Inl DtsSyncNotFound" if "dts_sync_at payload k" for k
    using that dts_header_of_not_sync by (auto simp: parse_dts_core_frame_at_fields Let_def split: if_splits)
  show ?case
  proof (cases "find_dts_core_sync (drop offset payload)")
    case (Some sync)
    note sync = find_dts_core_sync_Some [OF Some]
    show ?thesis
    proof (cases "parse_dts_core_frame_at payload (offset + sync)")
      case (Inr h)
      show ?thesis using 1 [OF Some refl Inr] by (subst dts_frames_from.simps) (auto simp: Some Inr Let_def res_bind_def split: sum.splits)
    qed (use at [of "offset + sync"] sync in \<open>simp add: dts_frames_from_step [of payload offset] Some\<close>)
  qed (simp add: dts_frames_from_step [of payload offset])
qed

section \<open>Written frames\<close>

text \<open>A frame as an encoder writes it: the fields of the header in order, the ones the parser skips in between, and the
  rest of the frame, whatever it holds.\<close>

record dts_frame =
  df_flags :: nat
  df_blocks :: nat
  df_arrangement :: nat
  df_rate_code :: nat
  df_bitrate_code :: nat
  df_options :: nat
  df_lfe_code :: nat
  df_tail :: nat
  df_body :: bytes

definition dts_frame_fields :: "dts_frame \<Rightarrow> (nat \<times> nat) list" where
  "dts_frame_fields d =
     [(7, df_flags d), (7, df_blocks d - 1), (14, 11 + length (df_body d)), (6, df_arrangement d), (4, df_rate_code d),
      (5, df_bitrate_code d), (10, df_options d), (2, df_lfe_code d), (9, df_tail d)]"

definition dts_frame_bytes :: "dts_frame \<Rightarrow> bytes" where
  "dts_frame_bytes d =
     DTS_CORE_SYNC_BE @
     (case write_fields (dts_frame_fields d) (bit_writer_new (replicate 8 0)) of Some w \<Rightarrow> bw_bytes w | None \<Rightarrow> []) @
     df_body d"

definition dts_frame_ok :: "dts_frame \<Rightarrow> bool" where
  "dts_frame_ok d \<longleftrightarrow> 0 < df_blocks d \<and> df_blocks d \<le> 128 \<and> length (df_body d) + 12 \<le> 2 ^ 14 \<and>
     df_arrangement d \<le> 15 \<and> dts_sample_rate (df_rate_code d) \<noteq> None \<and> df_bitrate_code d < 32 \<and> df_lfe_code d < 4"

definition dts_frame_header :: "nat \<Rightarrow> dts_frame \<Rightarrow> dts_core_frame_header" where
  "dts_frame_header offset d =
     \<lparr>dh_offset = offset, dh_frame_size = 12 + length (df_body d), dh_sample_count = df_blocks d * 32,
      dh_sample_rate = the (dts_sample_rate (df_rate_code d)), dh_channel_arrangement = df_arrangement d,
      dh_channels = the (dts_base_channel_count (df_arrangement d)) + of_bool (df_lfe_code d \<noteq> 0),
      dh_lfe = (df_lfe_code d \<noteq> 0), dh_bitrate_bps = dts_bitrate_bps (df_bitrate_code d)\<rparr>"

primrec dts_headers :: "nat \<Rightarrow> dts_frame list \<Rightarrow> dts_core_frame_header list" where
  "dts_headers offset [] = []"
| "dts_headers offset (d # ds) = dts_frame_header offset d # dts_headers (offset + 12 + length (df_body d)) ds"

lemma dts_frame_bytes_shape:
  obtains hdr where "dts_frame_bytes d = DTS_CORE_SYNC_BE @ hdr @ df_body d" "length hdr = 8"
    "bits hdr = field_bits (dts_frame_fields d)"
proof -
  obtain w where w: "write_fields (dts_frame_fields d) (bit_writer_new (replicate 8 0)) = Some w"
      "holds w 8 (field_bits (dts_frame_fields d))"
    using write_fields_holds [OF holds_new, of "dts_frame_fields d" 8] by (auto simp: dts_frame_fields_def)
  moreover have "length (field_bits (dts_frame_fields d)) = 64"
    by (simp add: length_field_bits dts_frame_fields_def)
  ultimately show thesis by (intro that [of "bw_bytes w"]) (auto simp: dts_frame_bytes_def holds_def)
qed

lemma length_dts_frame_bytes [simp]: "length (dts_frame_bytes d) = 12 + length (df_body d)"
  by (rule dts_frame_bytes_shape [of d]) (simp add: DTS_CORE_SYNC_BE_def)

lemma dts_frame_field:
  assumes "dts_frame_fields d = fs @ (n, v) # gs" "v < 2 ^ n"
  shows "dts_field (dts_frame_bytes d @ rest) n (32 + sum_list (map fst fs)) = v"
proof -
  obtain hdr where hdr: "dts_frame_bytes d = DTS_CORE_SYNC_BE @ hdr @ df_body d" "bits hdr = field_bits (dts_frame_fields d)"
    by (rule dts_frame_bytes_shape)
  have "bits (dts_frame_bytes d @ rest) = (bits DTS_CORE_SYNC_BE @ field_bits fs) @ field n v @ field_bits gs @ bits (df_body d @ rest)"
    by (simp add: hdr bits_append assms(1)) (simp add: field_bits_def)
  moreover have "length (bits DTS_CORE_SYNC_BE @ field_bits fs) = 32 + sum_list (map fst fs)"
    by (simp add: DTS_CORE_SYNC_BE_def length_field_bits)
  ultimately show ?thesis by (simp add: dts_field_def slice_def assms(2))
qed

lemma dts_sample_rate_code: "dts_sample_rate code \<noteq> None \<Longrightarrow> code < 2 ^ 4"
  by (auto simp: dts_sample_rate_def split: if_splits)

lemma parse_written_dts_frame:
  assumes "dts_frame_ok d" "drop offset payload = dts_frame_bytes d @ rest" "length payload < 2 ^ 64"
  shows "parse_dts_core_frame_at payload offset = Inr (dts_frame_header offset d)"
proof -
  obtain rate where rate: "dts_sample_rate (df_rate_code d) = Some rate" using assms(1) by (auto simp: dts_frame_ok_def)
  obtain base where base: "dts_base_channel_count (df_arrangement d) = Some base"
    using assms(1) by (cases "dts_base_channel_count (df_arrangement d)") (auto simp: dts_frame_ok_def dts_base_channel_count_def split: if_splits)
  have len: "length payload = offset + 12 + length (df_body d) + length rest"
    using arg_cong [OF assms(2), of length] by simp
  have sync: "dts_sync_at payload offset"
    by (rule dts_frame_bytes_shape [of d]) (simp add: dts_sync_at_def assms(2) DTS_CORE_SYNC_BE_def)
  note f = dts_frame_field [of d _ _ _ _ rest, unfolded dts_frame_fields_def]
  have "dts_field (dts_frame_bytes d @ rest) 7 39 = df_blocks d - 1"
    using f [of "[(7, df_flags d)]"] assms(1) by (simp add: dts_frame_ok_def) linarith
  moreover have "dts_field (dts_frame_bytes d @ rest) 14 46 = 11 + length (df_body d)"
    using f [of "[(7, df_flags d), (7, df_blocks d - 1)]"] assms(1) by (simp add: dts_frame_ok_def)
  moreover have "dts_field (dts_frame_bytes d @ rest) 6 60 = df_arrangement d"
    using f [of "take 3 (dts_frame_fields d)"] assms(1) by (simp add: dts_frame_fields_def dts_frame_ok_def)
  moreover have "dts_field (dts_frame_bytes d @ rest) 4 66 = df_rate_code d"
    using f [of "take 4 (dts_frame_fields d)"] dts_sample_rate_code [of "df_rate_code d"] rate by (simp add: dts_frame_fields_def)
  moreover have "dts_field (dts_frame_bytes d @ rest) 5 70 = df_bitrate_code d"
    using f [of "take 5 (dts_frame_fields d)"] assms(1) by (simp add: dts_frame_fields_def dts_frame_ok_def)
  moreover have "dts_field (dts_frame_bytes d @ rest) 2 85 = df_lfe_code d"
    using f [of "take 7 (dts_frame_fields d)"] assms(1) by (simp add: dts_frame_fields_def dts_frame_ok_def)
  ultimately show ?thesis
    using assms(1,3) sync len
    by (simp add: parse_dts_core_frame_at_fields assms(2) dts_header_of_def rate base dts_frame_header_def dts_frame_ok_def)
qed

lemma dts_frames_from_written:
  "\<forall>d \<in> set ds. dts_frame_ok d \<Longrightarrow> drop offset payload = concat (map dts_frame_bytes ds) \<Longrightarrow> length payload < 2 ^ 64 \<Longrightarrow>
    dts_frames_from payload offset = Inr (dts_headers offset ds)"
proof (induction ds arbitrary: offset)
  case Nil
  then show ?case by (simp add: dts_frames_from_step [of payload offset] find_dts_core_sync_def DTS_CORE_SYNC_BE_def)
next
  case (Cons d ds)
  have at: "parse_dts_core_frame_at payload offset = Inr (dts_frame_header offset d)"
    using Cons.prems by (intro parse_written_dts_frame) auto
  have "find_dts_core_sync (drop offset payload) = Some 0"
  proof (cases "find_dts_core_sync (drop offset payload)")
    case (Some k)
    then show ?thesis using find_dts_core_sync_Some [OF Some] parse_dts_core_frame_at_Inr(1) [OF at] by (cases k) auto
  next
    case None
    then show ?thesis using parse_dts_core_frame_at_Inr(1) [OF at] find_dts_core_sync_None [of "drop offset payload"] by (metis add_0_right dts_sync_at_drop)
  qed
  moreover have after: "drop (offset + 12 + length (df_body d)) payload = concat (map dts_frame_bytes ds)"
    using arg_cong [OF Cons.prems(2), of "drop (12 + length (df_body d))"] by (simp add: add_ac)
  moreover have "dts_frames_from payload (offset + 12 + length (df_body d)) = Inr (dts_headers (offset + 12 + length (df_body d)) ds)"
    using Cons.prems after by (intro Cons.IH) simp_all
  ultimately show ?case
    by (simp add: dts_frames_from_step [of payload offset] at) (simp add: dts_frame_header_def add.assoc)
qed

section \<open>Properties\<close>

text \<open>The frames the walk returns for a packet lie inside it, in order and without overlap, every one is what the
  header parser reads at its offset, and every sync word of the packet lies in one of them; a packet with no sync word at
  all is exactly the one refused for want of a frame.\<close>

theorem dts_frames_cover_syncs:
  "(parse_dts_core_frames payload = Inl DtsSyncNotFound \<longleftrightarrow> (\<forall>i. \<not> dts_sync_at payload i)) \<and>
   (case parse_dts_core_frames payload of
      Inl _ \<Rightarrow> True
    | Inr fs \<Rightarrow>
        sorted_wrt (\<lambda>h k. dh_offset h + dh_frame_size h \<le> dh_offset k) fs \<and>
        list_all (\<lambda>h. parse_dts_core_frame_at payload (dh_offset h) = Inr h \<and> frame_span h \<subseteq> {..<length payload}) fs \<and>
        {i. dts_sync_at payload i} \<subseteq> \<Union> (set (map frame_span fs)))"
proof (cases "dts_frames_from payload 0")
  case (Inl e)
  then show ?thesis
    using dts_frames_from_not_sync [of payload 0]
    by (cases "find_dts_core_sync payload")
      (auto simp: parse_dts_core_frames_def dts_frames_from_step [of payload 0] find_dts_core_sync_None [symmetric])
next
  case (Inr fs)
  have "\<exists>i. dts_sync_at payload i" if "fs \<noteq> []"
    using dts_frames_from_spans(1) [OF Inr] that parse_dts_core_frame_at_Inr(1) by (cases fs) auto
  moreover have "frame_span h \<subseteq> {..<length payload}" if "h \<in> set fs" for h
    using dts_frames_from_spans(1) [OF Inr] that parse_dts_core_frame_at_Inr(4) [of payload "dh_offset h" h]
    by (auto simp: frame_span_def)
  ultimately show ?thesis
    using dts_frames_from_spans [OF Inr] Inr
    by (auto simp: parse_dts_core_frames_def list_all_iff)
qed

text \<open>C30: A packet of DTS frames written one after the other, whatever the bytes after each header are, parses to exactly
  those frames: their offsets and sizes, sample counts, rates, channels and bitrates.\<close>

theorem dts_packet_reads_back:
  assumes "ds \<noteq> []" "\<forall>d \<in> set ds. dts_frame_ok d" "length (concat (map dts_frame_bytes ds)) < 2 ^ 64"
  shows "parse_dts_core_frames (concat (map dts_frame_bytes ds)) = Inr (dts_headers 0 ds)"
proof -
  have "dts_frames_from (concat (map dts_frame_bytes ds)) 0 = Inr (dts_headers 0 ds)"
    by (rule dts_frames_from_written) (use assms in simp_all)
  then show ?thesis using assms(1) by (cases ds) (simp_all add: parse_dts_core_frames_def)
qed

theorem dts_packet_reads_back_witness:
  "parse_dts_core_frames (concat (map dts_frame_bytes
     [\<lparr>df_flags = 62, df_blocks = 16, df_arrangement = 9, df_rate_code = 13, df_bitrate_code = 24, df_options = 0,
       df_lfe_code = 1, df_tail = 0, df_body = DTS_CORE_SYNC_BE\<rparr>])) =
   Inr [\<lparr>dh_offset = 0, dh_frame_size = 16, dh_sample_count = 512, dh_sample_rate = 48000, dh_channel_arrangement = 9,
         dh_channels = 6, dh_lfe = True, dh_bitrate_bps = Some 1536000\<rparr>]"
  by (subst dts_packet_reads_back)
    (simp_all add: dts_frame_ok_def dts_sample_rate_def DTS_CORE_SYNC_BE_def dts_frame_header_def
      dts_base_channel_count_def dts_bitrate_bps_def dts_bitrates_def)

end
