(* ===== verification/PgsDecoder.thy ===== *)
theory PgsDecoder
  imports Float64 "HOL-Library.AList"
begin

text \<open>
  The decoder of HDMV presentation graphics, \<open>codec/subtitle_resources/bitmap/pgs.rs\<close>: the run length code of a bitmap, the
  palettes, objects, compositions and windows a stream defines, and the display sets it shows. The decoder's maps are
  association lists; errors are the code's messages. The length of a buffer stands for its capacity, as the code reserves
  exactly what it fills. After an error the caller gives the track up, so an error carries no state. The run length decoder is
  shown to accept exactly a grammar of lines and to return their pixels; a stream of packets keeps the limits of the decoder,
  shows what its segments say and does so however it is cut into packets.
\<close>

section \<open>Bitmaps\<close>

definition MAX_PIXELS :: nat where "MAX_PIXELS = 16 * 1024 * 1024"
definition MAX_RGBA_BYTES :: nat where "MAX_RGBA_BYTES = 64 * 1024 * 1024"
definition MAX_ENCODED_BYTES :: nat where "MAX_ENCODED_BYTES = 8 * 1024 * 1024"

record bitmap_rect =
  br_x :: nat
  br_y :: nat
  br_width :: nat
  br_height :: nat
  br_rgba :: bytes

record display_set =
  ds_time_ms :: nat
  ds_canvas_width :: nat
  ds_canvas_height :: nat
  ds_images :: "bitmap_rect list"

definition checked_rgba_len :: "nat \<Rightarrow> nat \<Rightarrow> string + nat" where
  "checked_rgba_len width height =
     res_bind (ok_or ''Bitmap pixel count overflow'' (checked_mul 64 width height)) (\<lambda>pixels.
     if width = 0 \<or> height = 0 \<or> MAX_PIXELS < pixels then Inl ''Bitmap dimensions exceed limit''
     else res_bind (ok_or ''Bitmap RGBA size overflow'' (checked_mul 64 pixels 4)) (\<lambda>len.
       if MAX_RGBA_BYTES < len then Inl ''Bitmap RGBA size limit exceeded'' else Inr len))"

lemma checked_rgba_len_Inr:
  "checked_rgba_len width height = Inr len \<longleftrightarrow>
     0 < width \<and> 0 < height \<and> width * height \<le> MAX_PIXELS \<and> len = 4 * (width * height)"
  by (auto simp: checked_rgba_len_def checked_mul_def res_bind_Inr MAX_PIXELS_def MAX_RGBA_BYTES_def mult.commute split: if_splits)

section \<open>The run length code\<close>

text \<open>A run after a zero byte and its flags: how many pixels, of which colour, and where the next code starts.\<close>

definition rle_run :: "bytes \<Rightarrow> nat \<Rightarrow> nat \<Rightarrow> nat \<Rightarrow> string + (nat \<times> u8 \<times> nat)" where
  "rle_run bytes flags cursor room =
     res_bind (if flags div 64 mod 2 \<noteq> 0
               then res_bind (ok_or ''Truncated PGS long run'' (get_at bytes cursor)) (\<lambda>b.
                 Inr (flags mod 64 * 2 ^ 8 + unat b, cursor + 1))
               else Inr (flags mod 64, cursor)) (\<lambda>(count, cursor).
     if count = 0 \<or> room < count then Inl ''PGS RLE run exceeds scan line''
     else if flags div 128 mod 2 \<noteq> 0
     then res_bind (ok_or ''Truncated PGS colored run'' (get_at bytes cursor)) (\<lambda>color. Inr (count, color, cursor + 1))
     else Inr (count, 0, cursor))"

definition fill_pixels :: "u8 list \<Rightarrow> nat \<Rightarrow> nat \<Rightarrow> u8 \<Rightarrow> u8 list" where
  "fill_pixels output start count color = take start output @ replicate count color @ drop (start + count) output"

lemma rle_run_Inr: "rle_run bytes flags cursor room = Inr (count, color, cursor') \<Longrightarrow> cursor \<le> cursor' \<and> 0 < count \<and> count \<le> room"
  by (auto simp: rle_run_def res_bind_Inr split: if_splits)

function rle_loop :: "bytes \<Rightarrow> nat \<Rightarrow> nat \<Rightarrow> nat \<Rightarrow> nat \<Rightarrow> nat \<Rightarrow> u8 list \<Rightarrow> string + (nat \<times> nat \<times> u8 list)" where
  "rle_loop bytes width height cursor x row output =
     (if \<not> cursor < length bytes then Inr (x, row, output)
      else if height \<le> row then Inl ''PGS RLE data exceeds image height''
      else if bytes ! cursor \<noteq> 0 then
        if width \<le> x then Inl ''PGS RLE line exceeds image width''
        else rle_loop bytes width height (cursor + 1) (x + 1) row (output[row * width + x := bytes ! cursor])
      else case get_at bytes (cursor + 1) of
          None \<Rightarrow> Inl ''Truncated PGS RLE escape''
        | Some flags \<Rightarrow>
            if flags = 0 then rle_loop bytes width height (cursor + 2) 0 (row + 1) output
            else case rle_run bytes (unat flags) (cursor + 2) (width - x) of
                Inl e \<Rightarrow> Inl e
              | Inr (count, color, cursor') \<Rightarrow>
                  rle_loop bytes width height cursor' (x + count) row (fill_pixels output (row * width + x) count color))"
  by pat_completeness auto

termination
  by (relation "measure (\<lambda>(bytes, width, height, cursor, x, row, output). length bytes - cursor)") (auto dest!: rle_run_Inr)

declare rle_loop.simps [simp del]

definition decode_rle :: "bytes \<Rightarrow> nat \<Rightarrow> nat \<Rightarrow> string + u8 list" where
  "decode_rle bytes width height =
     res_bind (checked_rgba_len width height) (\<lambda>len.
     res_bind (rle_loop bytes width height 0 0 0 (replicate (len div 4) 0)) (\<lambda>(x, row, output).
       if row \<noteq> height \<and> \<not> (row + 1 = height \<and> x = width) then Inl ''Incomplete PGS RLE image'' else Inr output))"

text \<open>The code as a grammar: a line is a list of codes, lines are separated by two zero bytes, and what a line leaves
  unsaid is colour zero.\<close>

datatype rle_code = Pixel u8 | Run bool "u8 option" nat

fun code_ok :: "rle_code \<Rightarrow> bool" where
  "code_ok (Pixel c) = (c \<noteq> 0)"
| "code_ok (Run long color n) = (0 < n \<and> n < (if long then 2 ^ 14 else 2 ^ 6))"

fun code_bytes :: "rle_code \<Rightarrow> bytes" where
  "code_bytes (Pixel c) = [c]"
| "code_bytes (Run long color n) =
     [0, byte ((if color = None then 0 else 128) + (if long then 64 + n div 2 ^ 8 else n))] @
     (if long then [byte n] else []) @ (case color of None \<Rightarrow> [] | Some c \<Rightarrow> [c])"

fun code_pixels :: "rle_code \<Rightarrow> u8 list" where
  "code_pixels (Pixel c) = [c]"
| "code_pixels (Run long color n) = replicate n (case color of None \<Rightarrow> 0 | Some c \<Rightarrow> c)"

definition line_pixels :: "rle_code list \<Rightarrow> u8 list" where
  "line_pixels l = concat (map code_pixels l)"

definition line_bytes :: "rle_code list \<Rightarrow> bytes" where
  "line_bytes l = concat (map code_bytes l)"

fun lines_bytes :: "rle_code list list \<Rightarrow> bytes" where
  "lines_bytes [] = []"
| "lines_bytes [l] = line_bytes l"
| "lines_bytes (l # ls) = line_bytes l @ [0, 0] @ lines_bytes ls"

definition pad_line :: "nat \<Rightarrow> u8 list \<Rightarrow> u8 list" where
  "pad_line width l = l @ replicate (width - length l) 0"

definition lines_ok :: "nat \<Rightarrow> rle_code list list \<Rightarrow> bool" where
  "lines_ok width ls \<longleftrightarrow> (\<forall>l \<in> set ls. list_all code_ok l \<and> length (line_pixels l) \<le> width)"

text \<open>Every line of the image is ended, or the last one is full.\<close>

definition image_lines :: "nat \<Rightarrow> nat \<Rightarrow> rle_code list list \<Rightarrow> bool" where
  "image_lines width height ls \<longleftrightarrow> lines_ok width ls \<and> ls \<noteq> [] \<and>
     (length ls = height + 1 \<and> last ls = [] \<or> length ls = height \<and> length (line_pixels (last ls)) = width)"

definition image_pixels :: "nat \<Rightarrow> nat \<Rightarrow> rle_code list list \<Rightarrow> u8 list" where
  "image_pixels width height ls = concat (map (pad_line width \<circ> line_pixels) (take height ls))"


section \<open>What the loop paints\<close>

text \<open>While the loop runs, the output is what the codes read so far say, and zeros after it.\<close>

definition painted :: "nat \<Rightarrow> u8 list \<Rightarrow> u8 list" where
  "painted n front = front @ replicate (n - length front) 0"

lemma painted_fill:
  "length front + count \<le> n \<Longrightarrow> fill_pixels (painted n front) (length front) count color = painted n (front @ replicate count color)"
  by (simp add: fill_pixels_def painted_def)

lemma painted_pixel:
  "length front < n \<Longrightarrow> (painted n front)[length front := c] = painted n (front @ [c])"
  by (simp add: painted_def list_update_append Cons_replicate_eq flip: replicate_Suc) 
    (metis Suc_diff_Suc list_update_code(2) replicate_Suc)

lemma painted_zeros: "painted n (front @ replicate k 0) = (if length front + k \<le> n then painted n front else front @ replicate k 0)"
  by (simp add: painted_def flip: replicate_add)

lemma room_in_image:
  assumes "(row :: nat) < height" "x + k \<le> width"
  shows "row * width + x + k \<le> width * height"
proof -
  have "row * width + x + k \<le> Suc row * width" using assms(2) by simp
  also have "\<dots> \<le> height * width" using assms(1) by (intro mult_right_mono) auto
  finally show ?thesis by (simp add: mult.commute)
qed

lemma drop_bytes:
  assumes "drop cursor bytes = xs @ rest" "xs \<noteq> []"
  shows "cursor < length bytes" "bytes ! cursor = hd xs" "drop (cursor + length xs) bytes = rest"
    "1 < length xs \<Longrightarrow> cursor + 1 < length bytes \<and> bytes ! (cursor + 1) = xs ! 1"
    "2 < length xs \<Longrightarrow> cursor + 2 < length bytes \<and> bytes ! (cursor + 2) = xs ! 2"
    "3 < length xs \<Longrightarrow> cursor + 3 < length bytes \<and> bytes ! (cursor + 3) = xs ! 3"
proof -
  have len: "cursor + length xs \<le> length bytes" using arg_cong [OF assms(1), of length] assms(2) by (cases "cursor \<le> length bytes") auto
  have nth: "bytes ! (cursor + k) = xs ! k" if "k < length xs" for k
    using nth_drop [of cursor bytes k] that len by (simp add: assms(1) nth_append)
  show "cursor < length bytes" using len assms(2) by (cases xs) auto
  show "bytes ! cursor = hd xs" using nth [of 0] assms(2) by (simp add: hd_conv_nth)
  show "drop (cursor + length xs) bytes = rest" using arg_cong [OF assms(1), of "drop (length xs)"] by (simp add: add.commute)
  show "1 < length xs \<Longrightarrow> cursor + 1 < length bytes \<and> bytes ! (cursor + 1) = xs ! 1"
    "2 < length xs \<Longrightarrow> cursor + 2 < length bytes \<and> bytes ! (cursor + 2) = xs ! 2"
    "3 < length xs \<Longrightarrow> cursor + 3 < length bytes \<and> bytes ! (cursor + 3) = xs ! 3"
    using nth [of 1] nth [of 2] nth [of 3] len by simp_all
qed

lemma flag_parts:
  fixes m :: nat
  assumes "m < 64"
  shows "(192 + m) mod 64 = m" "(128 + m) mod 64 = m" "(64 + m) mod 64 = m" "(192 + m) div 64 = 3" "(128 + m) div 64 = 2"
    "(64 + m) div 64 = 1" "(192 + m) div 128 = 1" "(128 + m) div 128 = 1" "(64 + m) div 128 = 0"
  using assms by (auto intro!: div_nat_eqI mod_nat_eqI)

lemma rle_loop_run:
  assumes "cursor < length bytes" "row < height" "bytes ! cursor = 0" "get_at bytes (cursor + 1) = Some f" "f \<noteq> 0"
    "rle_run bytes (unat f) (cursor + 2) (width - x) = Inr (count, color, cursor')"
  shows "rle_loop bytes width height cursor x row output =
    rle_loop bytes width height cursor' (x + count) row (fill_pixels output (row * width + x) count color)"
  by (subst rle_loop.simps) (simp only: assms(1,3,4,6) assms(2) [unfolded not_le [symmetric]] assms(5) if_False if_True
      not_True_eq_False not_False_eq_True option.case sum.case prod.case refl)

lemma rle_code_step:
  assumes "drop cursor bytes = code_bytes code @ rest" "code_ok code" "row < height"
    "x + length (code_pixels code) \<le> width" "length front = row * width + x"
  shows "rle_loop bytes width height cursor x row (painted (width * height) front) =
    rle_loop bytes width height (cursor + length (code_bytes code)) (x + length (code_pixels code)) row
      (painted (width * height) (front @ code_pixels code))"
proof (cases code)
  case (Pixel c)
  note d = drop_bytes [OF assms(1)]
  show ?thesis
    using Pixel assms(2-4) d(1,2) room_in_image [OF assms(3), of x 1 width]
    by (subst rle_loop.simps) (simp add: painted_pixel flip: assms(5))
next
  case (Run long color n)
  note d = drop_bytes [OF assms(1)]
  define flags where "flags = (if color = None then 0 else 128) + (if long then 64 + n div 2 ^ 8 else n)"
  have n: "0 < n" "n < (if long then 2 ^ 14 else 2 ^ 6)" using assms(2) Run by simp_all
  have flags: "flags < 256" "byte flags \<noteq> 0" "unat (byte flags) = flags"
    using n by (auto simp: flags_def unat_eq_zero [symmetric] split: if_splits)
  have parts: "flags mod 64 = (if long then n div 2 ^ 8 else n)" "flags div 64 mod 2 \<noteq> 0 \<longleftrightarrow> long" "flags div 128 mod 2 \<noteq> 0 \<longleftrightarrow> color \<noteq> None"
    using n by (cases long; cases color; simp add: flags_def flag_parts less_mult_imp_div_less)+
  have three: "cursor + 3 = Suc (Suc (Suc cursor))" by simp
  have run: "rle_run bytes flags (cursor + 2) (width - x) =
      Inr (n, case color of None \<Rightarrow> 0 | Some c \<Rightarrow> c, cursor + length (code_bytes code))"
    unfolding rle_run_def parts using Run assms(4) n(1) d(5) d(6) [unfolded three]
    by (cases long; cases color) (auto simp: three get_at_def numeral_nat(1) add.commute mod_mult_div_eq)
  have start: "bytes ! cursor = 0" "cursor + 1 < length bytes" "bytes ! (cursor + 1) = byte flags" using d(2,4) Run by (simp_all add: flags_def)
  have "rle_loop bytes width height cursor x row (painted (width * height) front) =
    rle_loop bytes width height (cursor + length (code_bytes code)) (x + n) row
      (fill_pixels (painted (width * height) front) (row * width + x) n (case color of None \<Rightarrow> 0 | Some c \<Rightarrow> c))"
  proof (rule rle_loop_run [of _ _ _ _ "byte flags"])
    show "cursor < length bytes" using start(2) by simp
    show "get_at bytes (cursor + 1) = Some (byte flags)" unfolding get_at_def using start(2,3) by simp
    show "rle_run bytes (unat (byte flags)) (cursor + 2) (width - x) =
        Inr (n, case color of None \<Rightarrow> 0 | Some c \<Rightarrow> c, cursor + length (code_bytes code))"
      unfolding flags(3) by (rule run)
  qed (fact assms(3) start(1) flags(2))+
  then show ?thesis
    using Run assms(4) room_in_image [OF assms(3), of x n width] by (simp add: painted_fill flip: assms(5))
qed


lemma line_simps [simp]:
  "line_bytes [] = []" "line_bytes (c # l) = code_bytes c @ line_bytes l"
  "line_pixels [] = []" "line_pixels (c # l) = code_pixels c @ line_pixels l"
  by (simp_all add: line_bytes_def line_pixels_def)

lemma rle_line_step:
  "drop cursor bytes = line_bytes l @ rest \<Longrightarrow> list_all code_ok l \<Longrightarrow> row < height \<Longrightarrow>
   x + length (line_pixels l) \<le> width \<Longrightarrow> length front = row * width + x \<Longrightarrow>
   rle_loop bytes width height cursor x row (painted (width * height) front) =
    rle_loop bytes width height (cursor + length (line_bytes l)) (x + length (line_pixels l)) row
      (painted (width * height) (front @ line_pixels l))"
proof (induction l arbitrary: cursor x front)
  case (Cons c l)
  note step = rle_code_step [of cursor bytes c "line_bytes l @ rest" row height x width front]
  have "drop (cursor + length (code_bytes c)) bytes = line_bytes l @ rest"
    using drop_bytes(3) [of cursor bytes "code_bytes c" "line_bytes l @ rest"] Cons.prems(1) by (cases c) simp_all
  then show ?case
    using step Cons.prems Cons.IH [of "cursor + length (code_bytes c)" "x + length (code_pixels c)" "front @ code_pixels c"]
    by (simp add: add.assoc)
qed simp

lemma rle_end_line:
  "drop cursor bytes = [0, 0] @ rest \<Longrightarrow> row < height \<Longrightarrow>
    rle_loop bytes width height cursor x row output = rle_loop bytes width height (cursor + 2) 0 (row + 1) output"
  using drop_bytes [of cursor bytes "[0, 0]" rest] by (subst rle_loop.simps) (simp add: get_at_def)

lemma painted_pad_line:
  assumes "length l \<le> width" "length front + width \<le> n"
  shows "painted n (front @ l) = painted n (front @ pad_line width l)"
  using assms painted_zeros [of n "front @ l" "width - length l"] by (simp add: pad_line_def)

definition padded :: "nat \<Rightarrow> rle_code list list \<Rightarrow> u8 list" where
  "padded width ls = concat (map (pad_line width \<circ> line_pixels) ls)"

lemma length_padded: "lines_ok width ls \<Longrightarrow> length (padded width ls) = length ls * width"
  by (induction ls) (auto simp: padded_def lines_ok_def pad_line_def)

lemma rle_lines_step:
  assumes "ls \<noteq> []" "drop cursor bytes = lines_bytes ls" "lines_ok width ls"
    "row + length ls \<le> height \<or> row + length ls = height + 1 \<and> last ls = []" "length front = row * width"
  shows "rle_loop bytes width height cursor 0 row (painted (width * height) front) =
    Inr (length (line_pixels (last ls)), row + length ls - 1,
      painted (width * height) (front @ padded width (butlast ls) @ line_pixels (last ls)))"
  using assms
proof (induction ls arbitrary: cursor row front rule: lines_bytes.induct)
  case (2 l)
  show ?case
  proof (cases "row < height")
    case True
    have "rle_loop bytes width height cursor 0 row (painted (width * height) front) =
      rle_loop bytes width height (cursor + length (line_bytes l)) (length (line_pixels l)) row (painted (width * height) (front @ line_pixels l))"
      using rle_line_step [of cursor bytes l "[]" row height 0 width front] True "2.prems" by (simp add: lines_ok_def)
    moreover have "\<not> cursor + length (line_bytes l) < length bytes"
      using arg_cong [OF "2.prems"(2), of length] by simp
    ultimately show ?thesis by (simp add: rle_loop.simps padded_def)
  next
    case False
    then have "l = []" using "2.prems"(4) by auto
    then show ?thesis using "2.prems"(2) by (simp add: rle_loop.simps padded_def)
  qed
next
  case (3 l k ls)
  let ?c = "cursor + length (line_bytes l)" and ?rest = "[0, 0] @ lines_bytes (k # ls)"
  have row: "row < height" using "3.prems"(4) by (auto split: if_splits)
  have l: "list_all code_ok l" "length (line_pixels l) \<le> width" using "3.prems"(3) by (auto simp: lines_ok_def)
  have "rle_loop bytes width height cursor 0 row (painted (width * height) front) =
      rle_loop bytes width height ?c (length (line_pixels l)) row (painted (width * height) (front @ line_pixels l))"
    using rle_line_step [of cursor bytes l ?rest row height 0 width front] row l "3.prems"(2,5) by simp
  also have "\<dots> = rle_loop bytes width height (?c + 2) 0 (row + 1) (painted (width * height) (front @ line_pixels l))"
    using arg_cong [OF "3.prems"(2), of "drop (length (line_bytes l))"] row
    by (intro rle_end_line [of _ _ "lines_bytes (k # ls)"]) (simp_all add: add.commute)
  also have "painted (width * height) (front @ line_pixels l) = painted (width * height) (front @ pad_line width (line_pixels l))"
    using l(2) "3.prems"(5) room_in_image [OF row, of 0 width width] by (intro painted_pad_line) simp_all
  also have "rle_loop bytes width height (?c + 2) 0 (row + 1) \<dots> =
      Inr (length (line_pixels (last (k # ls))), row + 1 + length (k # ls) - 1,
        painted (width * height) ((front @ pad_line width (line_pixels l)) @ padded width (butlast (k # ls)) @ line_pixels (last (k # ls))))"
  proof (rule "3.IH")
    show "drop (?c + 2) bytes = lines_bytes (k # ls)"
      using arg_cong [OF "3.prems"(2), of "drop (length (line_bytes l) + 2)"] by (simp add: add_ac)
  qed (use "3.prems" l(2) in \<open>auto simp: lines_ok_def pad_line_def\<close>)
  finally show ?case by (simp add: padded_def)
qed simp

text \<open>And everything the loop reads is such lines.\<close>

lemma flag_cases:
  fixes u :: nat
  assumes "u < 256"
  shows "u = (if u div 128 mod 2 \<noteq> 0 then 128 else 0) + (if u div 64 mod 2 \<noteq> 0 then 64 else 0) + u mod 64"
proof -
  obtain q r where u: "u = 64 * q + r" "r < 64" "u div 64 = q" "u mod 64 = r"
    using mult_div_mod_eq [of 64 u] by (metis mod_less_divisor zero_less_numeral)
  moreover have "u div 128 = q div 2" using u(3) div_mult2_eq [of u 64 2] by simp
  moreover have "q \<in> {0, 1, 2, 3}" using assms u(1) by auto
  ultimately show ?thesis by auto
qed

lemma long_count: "(m :: nat) < 64 \<Longrightarrow> k < 256 \<Longrightarrow> m * 256 + k < 16384"
  by simp

lemma rle_run_codes:
  assumes run: "rle_run bytes (unat flags) (cursor + 2) room = Inr (count, color, cursor')"
    and at: "cursor + 1 < length bytes" "bytes ! cursor = 0" "bytes ! (cursor + 1) = flags"
  shows "\<exists>code. code_ok code \<and> drop cursor bytes = code_bytes code @ drop cursor' bytes \<and> code_pixels code = replicate count color"
proof -
  define long where "long \<longleftrightarrow> unat flags div 64 mod 2 \<noteq> 0"
  define colored where "colored \<longleftrightarrow> unat flags div 128 mod 2 \<noteq> 0"
  let ?code = "Run long (if colored then Some color else None) count"
  have head: "drop cursor bytes = 0 # flags # drop (cursor + 2) bytes"
    using at Cons_nth_drop_Suc [of cursor bytes] Cons_nth_drop_Suc [of "cursor + 1" bytes] by simp
  have u: "unat flags = (if colored then 128 else 0) + (if long then 64 else 0) + unat flags mod 64"
    using flag_cases [of "unat flags"] unsigned_less [of flags] by (simp add: long_def colored_def)
  have next_byte: "drop c bytes = bytes ! c # drop (c + 1) bytes" if "c < length bytes" for c
    using that Cons_nth_drop_Suc [of c bytes] by simp
  have three: "cursor + 3 = Suc (Suc (Suc cursor))" by simp
  have four: "cursor + 4 = Suc (Suc (Suc (Suc cursor)))" "4 + cursor = Suc (Suc (Suc (Suc cursor)))" by simp_all
  have small: "unat flags mod 64 < 64" by simp
  have "code_ok ?code \<and> drop (cursor + 2) bytes = (if long then [byte count] else []) @ (if colored then [color] else []) @ drop cursor' bytes
      \<and> unat flags = (if colored then 128 else 0) + (if long then 64 + count div 2 ^ 8 else count) \<and> (\<not> colored \<longrightarrow> color = 0)"
  proof (cases long)
    case True
    then obtain b where b: "cursor + 2 < length bytes" "b = bytes ! (cursor + 2)" "count = unat flags mod 64 * 2 ^ 8 + unat b" "0 < count"
        "if colored then cursor + 3 < length bytes \<and> color = bytes ! (cursor + 3) \<and> cursor' = cursor + 4 else color = 0 \<and> cursor' = cursor + 3"
      using run by (auto simp: three rle_run_def res_bind_Inr long_def colored_def get_at_def split: if_splits)
    have lt: "unat b < 256" using unsigned_less [of b] by simp
    then have "unat (byte count) = unat b" "count div 2 ^ 8 = unat flags mod 64" by (simp_all add: b(3))
    moreover have "count < 2 ^ 14" using long_count [OF small lt] by (simp add: b(3))
    moreover have "byte count = b" using \<open>unat (byte count) = unat b\<close> by (metis byte_unat)
    ultimately show ?thesis
      using b True u next_byte [of "cursor + 2"] next_byte [of "cursor + 3"] by (auto simp: three four split: if_splits)
  next
    case False
    then have "count = unat flags mod 64" "0 < count"
        "if colored then cursor + 2 < length bytes \<and> color = bytes ! (cursor + 2) \<and> cursor' = cursor + 3 else color = 0 \<and> cursor' = cursor + 2"
      using run by (auto simp: rle_run_def res_bind_Inr long_def colored_def get_at_def split: if_splits)
    then show ?thesis using False u small next_byte [of "cursor + 2"] by (auto simp: three split: if_splits)
  qed
  moreover from this have "flags = byte ((if colored then 128 else 0) + (if long then 64 + count div 2 ^ 8 else count))"
    by (metis byte_unat)
  ultimately show ?thesis by (intro exI [of _ ?code]) (auto simp: head)
qed


lemma lines_bytes_Cons_code: "ls \<noteq> [] \<Longrightarrow> lines_bytes ((code # hd ls) # tl ls) = code_bytes code @ lines_bytes ls"
  by (cases ls rule: lines_bytes.cases) simp_all

lemma lines_bytes_Cons_end: "ls \<noteq> [] \<Longrightarrow> lines_bytes ([] # ls) = [0, 0] @ lines_bytes ls"
  by (cases ls) simp_all

text \<open>The lines the loop reads from a place in a line, and where it stops.\<close>

definition reads_lines :: "nat \<Rightarrow> nat \<Rightarrow> bytes \<Rightarrow> nat \<Rightarrow> nat \<Rightarrow> nat \<Rightarrow> nat \<Rightarrow> rle_code list list \<Rightarrow> bool" where
  "reads_lines width height rest x row x' row' ls \<longleftrightarrow>
     ls \<noteq> [] \<and> rest = lines_bytes ls \<and> list_all code_ok (hd ls) \<and> x + length (line_pixels (hd ls)) \<le> width \<and> lines_ok width (tl ls) \<and>
     row + length ls = row' + 1 \<and> x' = (if tl ls = [] then x else 0) + length (line_pixels (last ls)) \<and>
     (row' < height \<or> row' = height \<and> last ls = [])"

lemma reads_code:
  assumes "reads_lines width height rest (x + length (code_pixels code)) row x' row' ls" "code_ok code" "row < height"
  shows "reads_lines width height (code_bytes code @ rest) x row x' row' ((code # hd ls) # tl ls)"
proof -
  obtain l k where ls: "ls = l # k" using assms(1) by (cases ls) (auto simp: reads_lines_def)
  show ?thesis
    using assms lines_bytes_Cons_code [of ls code] unfolding reads_lines_def ls
    by (cases "k = []") (simp_all add: add.assoc)
qed

lemma reads_end:
  assumes "reads_lines width height rest 0 (row + 1) x' row' ls" "x \<le> width" "row < height"
  shows "reads_lines width height ([0, 0] @ rest) x row x' row' ([] # ls)"
proof -
  obtain l k where ls: "ls = l # k" using assms(1) by (cases ls) (auto simp: reads_lines_def)
  show ?thesis
    using assms lines_bytes_Cons_end [of ls] unfolding reads_lines_def ls
    by (cases "k = []") (simp_all add: lines_ok_def)
qed

lemma rle_loop_reads_lines:
  assumes "rle_loop bytes width height cursor x row output = Inr (x', row', output')" "x \<le> width" "row \<le> height"
    "row = height \<Longrightarrow> x = 0"
  shows "\<exists>ls. reads_lines width height (drop cursor bytes) x row x' row' ls"
  using assms
proof (induction bytes width height cursor x row "output" rule: rle_loop.induct)
  case (1 bytes width height cursor x row canvas)
  show ?case
  proof (cases "cursor < length bytes")
    case False
    then show ?thesis using "1.prems" by (intro exI [of _ "[[]]"]) (auto simp: rle_loop.simps reads_lines_def lines_ok_def)
  next
    case more: True
    have row: "row < height" using "1.prems"(1) more by (subst (asm) rle_loop.simps) (auto split: if_splits)
    show ?thesis
    proof (cases "bytes ! cursor = 0")
      case False
      then have x: "x < width" using "1.prems"(1) more by (subst (asm) rle_loop.simps) (auto split: if_splits)
      have "rle_loop bytes width height (cursor + 1) (x + 1) row (canvas[row * width + x := bytes ! cursor]) = Inr (x', row', output')"
        using "1.prems"(1) more row False x by (subst (asm) rle_loop.simps) simp
      then obtain ls where "reads_lines width height (drop (cursor + 1) bytes) (x + 1) row x' row' ls"
        using "1.IH"(1) more row False x by auto
      then have "reads_lines width height (code_bytes (Pixel (bytes ! cursor)) @ drop (cursor + 1) bytes) x row x' row'
          ((Pixel (bytes ! cursor) # hd ls) # tl ls)"
        using False row by (intro reads_code) simp_all
      then show ?thesis using Cons_nth_drop_Suc [OF more] by auto
    next
      case True
      obtain flags where flags: "get_at bytes (cursor + 1) = Some flags"
        using "1.prems"(1) more row True by (subst (asm) rle_loop.simps) (auto simp: get_at_def split: if_splits)
      then have head: "drop cursor bytes = 0 # flags # drop (cursor + 2) bytes"
        using True Cons_nth_drop_Suc [of cursor bytes] Cons_nth_drop_Suc [of "cursor + 1" bytes] by (auto simp: get_at_def split: if_splits)
      show ?thesis
      proof (cases "flags = 0")
        case ended: True
        have "rle_loop bytes width height (cursor + 2) 0 (row + 1) canvas = Inr (x', row', output')"
          using "1.prems"(1) rle_end_line [of cursor bytes "drop (cursor + 2) bytes" row height width x canvas] head row ended by simp
        then obtain ls where "reads_lines width height (drop (cursor + 2) bytes) 0 (row + 1) x' row' ls"
          using "1.IH"(2) [OF _ _ _ flags ended] more row True by auto
        then show ?thesis using reads_end "1.prems"(2) row head ended by fastforce
      next
        case run: False
        obtain count color cursor' where rle: "rle_run bytes (unat flags) (cursor + 2) (width - x) = Inr (count, color, cursor')"
          using "1.prems"(1) more row True flags run
          by (subst (asm) rle_loop.simps) (cases "rle_run bytes (unat flags) (cursor + 2) (width - x)"; auto simp: get_at_def split: if_splits)
        have room: "x + count \<le> width" using rle_run_Inr [OF rle] "1.prems"(2) by linarith
        have "rle_loop bytes width height cursor' (x + count) row (fill_pixels canvas (row * width + x) count color) = Inr (x', row', output')"
          using "1.prems"(1) rle_loop_run [OF more row True flags run rle] by simp
        then obtain ls where ls: "reads_lines width height (drop cursor' bytes) (x + count) row x' row' ls"
          using "1.IH"(3) [OF _ _ _ flags run rle refl] more row True room by auto
        obtain code where code: "code_ok code" "drop cursor bytes = code_bytes code @ drop cursor' bytes"
            "code_pixels code = replicate count color"
          using rle_run_codes [OF rle] flags True by (auto simp: get_at_def split: if_splits)
        have "reads_lines width height (code_bytes code @ drop cursor' bytes) x row x' row' ((code # hd ls) # tl ls)"
          using ls code(1,3) row by (intro reads_code) simp_all
        then show ?thesis using code(2) by auto
      qed
    qed
  qed
qed


lemma decode_image_lines:
  assumes "image_lines width height ls" "0 < width" "0 < height" "width * height \<le> MAX_PIXELS"
  shows "decode_rle (lines_bytes ls) width height = Inr (image_pixels width height ls)"
proof -
  have ok: "ls \<noteq> []" "lines_ok width ls" and last: "length ls = height + 1 \<and> last ls = [] \<or> length ls = height \<and> length (line_pixels (last ls)) = width"
    using assms(1) by (simp_all add: image_lines_def)
  have "rle_loop (lines_bytes ls) width height 0 0 0 (painted (width * height) []) =
    Inr (length (line_pixels (last ls)), length ls - 1, painted (width * height) (padded width (butlast ls) @ line_pixels (last ls)))"
    using rle_lines_step [of ls 0 "lines_bytes ls" width 0 height "[]"] ok last by auto
  moreover have "painted (width * height) (padded width (butlast ls) @ line_pixels (last ls)) = image_pixels width height ls"
  proof -
    have front: "length (padded width (butlast ls)) = (length ls - 1) * width"
      using ok(2) length_padded [of width "butlast ls"] by (auto simp: lines_ok_def dest: in_set_butlastD)
    have split: "ls = butlast ls @ [last ls]" using ok(1) by simp
    show ?thesis
    proof (cases "length ls = height")
      case True
      then have full: "length (line_pixels (last ls)) = width" using last by auto
      have "image_pixels width height ls = padded width (butlast ls @ [last ls])" unfolding split [symmetric] using True by (simp add: image_pixels_def padded_def)
      also have "\<dots> = padded width (butlast ls) @ line_pixels (last ls)" by (simp add: padded_def pad_line_def full)
      finally show ?thesis using True front full assms(3) by (cases height) (simp_all add: painted_def mult.commute)
    next
      case False
      then have "length ls = height + 1" "last ls = []" using last by auto
      then show ?thesis using front by (simp add: painted_def image_pixels_def padded_def butlast_conv_take mult.commute)
    qed
  qed
  moreover have "replicate (4 * (width * height) div 4) 0 = painted (width * height) []" by (simp add: painted_def)
  ultimately show ?thesis
    using assms last checked_rgba_len_Inr [of width height "4 * (width * height)"]
    by (auto simp: decode_rle_def)
qed

lemma decode_rle_iff:
  "decode_rle bytes width height = Inr pixels \<longleftrightarrow>
     0 < width \<and> 0 < height \<and> width * height \<le> MAX_PIXELS \<and>
     (\<exists>ls. image_lines width height ls \<and> bytes = lines_bytes ls \<and> pixels = image_pixels width height ls)"
proof
  assume l: "decode_rle bytes width height = Inr pixels"
  then obtain x row where dims: "0 < width" "0 < height" "width * height \<le> MAX_PIXELS"
    and loop: "rle_loop bytes width height 0 0 0 (replicate (width * height) 0) = Inr (x, row, pixels)"
    and whole: "row = height \<or> row + 1 = height \<and> x = width"
    by (auto simp: decode_rle_def res_bind_Inr checked_rgba_len_Inr split: if_splits)
  obtain ls where ls: "reads_lines width height bytes 0 0 x row ls"
    using rle_loop_reads_lines [OF loop] dims by auto
  then have "image_lines width height ls" "bytes = lines_bytes ls"
    using whole by (cases ls; auto simp: reads_lines_def image_lines_def lines_ok_def)+
  then show "0 < width \<and> 0 < height \<and> width * height \<le> MAX_PIXELS \<and>
     (\<exists>ls. image_lines width height ls \<and> bytes = lines_bytes ls \<and> pixels = image_pixels width height ls)"
    using decode_image_lines [of width height ls] dims l by auto
qed (auto simp: decode_image_lines)

lemma length_image_pixels:
  assumes "image_lines width height ls"
  shows "length (image_pixels width height ls) = width * height"
proof -
  have "lines_ok width (take height ls)" "length (take height ls) = height"
    using assms by (auto simp: image_lines_def lines_ok_def dest: in_set_takeD)
  then show ?thesis using length_padded [of width "take height ls"] by (simp add: image_pixels_def padded_def mult.commute)
qed


section \<open>Colours\<close>

text \<open>Sums and differences of floats round like products; the sign of a zero is lost in the final cast to a byte.\<close>

fun f64_add :: "f64 \<Rightarrow> f64 \<Rightarrow> f64" where
  "f64_add (Finite a) (Finite b) = round_f64 (a + b)"
| "f64_add NaN _ = NaN"
| "f64_add _ NaN = NaN"
| "f64_add (Infinite s) (Infinite t) = (if s = t then Infinite s else NaN)"
| "f64_add (Infinite s) _ = Infinite s"
| "f64_add _ (Infinite s) = Infinite s"

fun f64_neg :: "f64 \<Rightarrow> f64" where
  "f64_neg (Finite a) = Finite (- a)"
| "f64_neg (Infinite s) = Infinite (\<not> s)"
| "f64_neg NaN = NaN"

definition f64_sub :: "f64 \<Rightarrow> f64 \<Rightarrow> f64" where
  "f64_sub a b = f64_add a (f64_neg b)"

fun f64_clamp_byte :: "f64 \<Rightarrow> f64" where
  "f64_clamp_byte (Finite a) = Finite (max 0 (min a 255))"
| "f64_clamp_byte (Infinite s) = Finite (if s then 0 else 255)"
| "f64_clamp_byte NaN = NaN"

definition color_byte :: "f64 \<Rightarrow> u8" where
  "color_byte v = byte (f64_as_uint 8 (f64_clamp_byte (f64_round v)))"

definition ycbcr :: "u8 \<Rightarrow> u8 \<Rightarrow> u8 \<Rightarrow> u8 \<Rightarrow> bytes" where
  "ycbcr y cr cb alpha =
     (let y = f64_mul (round_f64 (1164383 / 1000000)) (f64_sub (f64_of_nat (unat y)) (Finite 16));
          cr = f64_sub (f64_of_nat (unat cr)) (Finite 128);
          cb = f64_sub (f64_of_nat (unat cb)) (Finite 128)
      in [color_byte (f64_add y (f64_mul (round_f64 (1792741 / 1000000)) cr)),
          color_byte (f64_sub (f64_sub y (f64_mul (round_f64 (213249 / 1000000)) cb)) (f64_mul (round_f64 (532909 / 1000000)) cr)),
          color_byte (f64_add y (f64_mul (round_f64 (2112402 / 1000000)) cb)), alpha])"

lemma length_ycbcr [simp]: "length (ycbcr y cr cb alpha) = 4"
  by (simp add: ycbcr_def Let_def)


section \<open>The decoder\<close>

record pgs_object =
  po_width :: nat
  po_height :: nat
  po_expected :: nat
  po_data :: bytes
  po_complete :: bool

record pgs_placement =
  pp_object_id :: nat
  pp_window_id :: nat
  pp_x :: nat
  pp_y :: nat
  pp_crop :: "(nat \<times> nat \<times> nat \<times> nat) option"

record pgs_decoder =
  pd_palettes :: "(nat \<times> bytes list) list"
  pd_objects :: "(nat \<times> pgs_object) list"
  pd_placements :: "pgs_placement list"
  pd_canvas_width :: nat
  pd_canvas_height :: nat
  pd_palette :: nat
  pd_time_ms :: nat
  pd_dirty :: bool
  pd_has_composition :: bool
  pd_pending :: bytes
  pd_pending_time :: nat
  pd_windows :: "(nat \<times> nat \<times> nat \<times> nat \<times> nat) list"

definition pgs_decoder_default :: pgs_decoder where
  "pgs_decoder_default =
     \<lparr>pd_palettes = [], pd_objects = [], pd_placements = [], pd_canvas_width = 0, pd_canvas_height = 0, pd_palette = 0,
      pd_time_ms = 0, pd_dirty = False, pd_has_composition = False, pd_pending = [], pd_pending_time = 0, pd_windows = []\<rparr>"

definition be16 :: "bytes \<Rightarrow> nat \<Rightarrow> string + nat" where
  "be16 bs offset = res_bind (ok_or ''Truncated PGS integer'' (get_range bs offset (offset + 2))) (\<lambda>pair. Inr (be_nat pair))"

text \<open>\<open>as_chunks\<close>: the whole pieces of \<open>k\<close> bytes.\<close>

fun whole_chunks :: "nat \<Rightarrow> bytes \<Rightarrow> bytes list" where
  "whole_chunks k bs = (if k = 0 \<or> length bs < k then [] else take k bs # whole_chunks k (drop k bs))"

declare whole_chunks.simps [simp del]

definition pgs_palette :: "bytes \<Rightarrow> pgs_decoder \<Rightarrow> string + pgs_decoder" where
  "pgs_palette body st =
     (if length body < 2 \<or> (length body - 2) mod 5 \<noteq> 0 then Inl ''Invalid PGS palette segment''
      else let oid = unat (body ! 0)
      in if map_of (pd_palettes st) oid = None \<and> 16 \<le> length (pd_palettes st) then Inl ''PGS palette count limit exceeded''
         else let palette = (case map_of (pd_palettes st) oid of Some p \<Rightarrow> p | None \<Rightarrow> replicate 256 [0, 0, 0, 0]);
                  palette = foldl (\<lambda>p e. p[unat (e ! 0) := ycbcr (e ! 1) (e ! 2) (e ! 3) (e ! 4)]) palette
                    (whole_chunks 5 (drop 2 body))
              in Inr (st\<lparr>pd_palettes := AList.update oid palette (pd_palettes st), pd_dirty := True\<rparr>))"

definition objects_len :: "(nat \<times> pgs_object) list \<Rightarrow> nat" where
  "objects_len objects = sum_list (map (\<lambda>(_, object). length (po_data object)) objects)"

text \<open>The first fragment of an object: its header is checked and an empty object takes the place of an older one.\<close>

definition pgs_first_fragment :: "bytes \<Rightarrow> nat \<Rightarrow> pgs_decoder \<Rightarrow> string + pgs_decoder" where
  "pgs_first_fragment body oid st =
     (if length body < 11 then Inl ''Truncated first PGS object fragment''
      else let declared = unat (body ! 4) * 2 ^ 16 + unat (body ! 5) * 2 ^ 8 + unat (body ! 6)
      in res_bind (ok_or ''Invalid PGS object length'' (checked_sub declared 4)) (\<lambda>expected.
         if MAX_ENCODED_BYTES < expected then Inl ''PGS object size limit exceeded''
         else res_bind (be16 body 7) (\<lambda>width.
         res_bind (be16 body 9) (\<lambda>height.
         res_bind (checked_rgba_len width height) (\<lambda>_.
         if map_of (pd_objects st) oid = None \<and> 256 \<le> length (pd_objects st) then Inl ''PGS object count limit exceeded''
         else if MAX_RGBA_BYTES < sat_add 64 (objects_len (filter (\<lambda>(key, _). key \<noteq> oid) (pd_objects st))) expected
         then Inl ''PGS retained object budget exceeded''
         else Inr (st\<lparr>pd_objects := AList.update oid
                \<lparr>po_width = width, po_height = height, po_expected = expected, po_data = [], po_complete = False\<rparr>
                (pd_objects st)\<rparr>))))))"

definition pgs_append_fragment :: "bytes \<Rightarrow> nat \<Rightarrow> bool \<Rightarrow> pgs_decoder \<Rightarrow> string + pgs_decoder" where
  "pgs_append_fragment fragment oid last_fragment st =
     (if MAX_RGBA_BYTES < sat_add 64 (objects_len (pd_objects st)) (length fragment) then Inl ''PGS retained object budget exceeded''
      else res_bind (ok_or ''PGS continuation without first fragment'' (map_of (pd_objects st) oid)) (\<lambda>object.
      if po_complete object \<or> po_expected object < sat_add 64 (length (po_data object)) (length fragment)
      then Inl ''PGS object fragment exceeds declared length''
      else let object = object\<lparr>po_data := po_data object @ fragment\<rparr>
      in if last_fragment \<and> length (po_data object) \<noteq> po_expected object then Inl ''Incomplete final PGS object fragment''
         else Inr (st\<lparr>pd_objects := AList.update oid (object\<lparr>po_complete := po_complete object \<or> last_fragment\<rparr>) (pd_objects st),
                       pd_dirty := True\<rparr>)))"

definition pgs_object_segment :: "bytes \<Rightarrow> pgs_decoder \<Rightarrow> string + pgs_decoder" where
  "pgs_object_segment body st =
     (if length body < 4 then Inl ''Truncated PGS object header''
      else res_bind (be16 body 0) (\<lambda>oid.
      let sequence = unat (body ! 3)
      in if sequence mod 64 \<noteq> 0 then Inl ''Invalid PGS object sequence flags''
         else let first = sequence div 128 mod 2 \<noteq> 0; last_fragment = sequence div 64 mod 2 \<noteq> 0
         in res_bind (if first then res_bind (pgs_first_fragment body oid st) (\<lambda>st. Inr (st, 11)) else Inr (st, 4)) (\<lambda>(st, offset).
            pgs_append_fragment (drop offset body) oid last_fragment st)))"

primrec pgs_placements :: "nat \<Rightarrow> bytes \<Rightarrow> nat \<Rightarrow> string + (pgs_placement list \<times> nat)" where
  "pgs_placements 0 body offset = Inr ([], offset)"
| "pgs_placements (Suc n) body offset =
     (if length body - offset < 8 then Inl ''Truncated PGS composition object''
      else res_bind (be16 body offset) (\<lambda>object_id.
      let window_id = unat (body ! (offset + 2)); flags = unat (body ! (offset + 3))
      in if flags mod 64 \<noteq> 0 then Inl ''Invalid PGS composition object flags''
         else res_bind (be16 body (offset + 4)) (\<lambda>x.
         res_bind (be16 body (offset + 6)) (\<lambda>y.
         let offset = offset + 8
         in res_bind
              (if flags div 128 mod 2 \<noteq> 0 then
                 if length body - offset < 8 then Inl ''Truncated PGS crop rectangle''
                 else res_bind (be16 body offset) (\<lambda>left. res_bind (be16 body (offset + 2)) (\<lambda>upper.
                      res_bind (be16 body (offset + 4)) (\<lambda>width. res_bind (be16 body (offset + 6)) (\<lambda>height.
                        Inr (Some (left, upper, width, height), offset + 8)))))
               else Inr (None, offset)) (\<lambda>(crop, offset).
            res_bind (pgs_placements n body offset) (\<lambda>(placements, offset).
              Inr (\<lparr>pp_object_id = object_id, pp_window_id = window_id, pp_x = x, pp_y = y, pp_crop = crop\<rparr> # placements,
                   offset)))))))"

definition pgs_composition :: "bytes \<Rightarrow> nat \<Rightarrow> pgs_decoder \<Rightarrow> string + pgs_decoder" where
  "pgs_composition body time_ms st =
     (if length body < 11 then Inl ''Truncated PGS composition''
      else res_bind (be16 body 0) (\<lambda>width.
      res_bind (be16 body 2) (\<lambda>height.
      res_bind (checked_rgba_len width height) (\<lambda>_.
      let state = unat (body ! 7)
      in if state \<notin> {0, 0x40, 0x80} then Inl ''Invalid PGS composition state''
         else let st = (if state = 0x80 then st\<lparr>pd_objects := [], pd_palettes := [], pd_windows := []\<rparr> else st);
                  count = unat (body ! 10)
         in if 64 < count then Inl ''PGS composition object count limit exceeded''
            else res_bind (pgs_placements count body 11) (\<lambda>(placements, offset).
              if offset \<noteq> length body then Inl ''Trailing PGS composition data''
              else Inr (st\<lparr>pd_placements := placements, pd_canvas_width := width, pd_canvas_height := height,
                            pd_palette := unat (body ! 9), pd_time_ms := time_ms, pd_has_composition := True,
                            pd_dirty := True\<rparr>))))))"

text \<open>One window after the other, the identifiers seen so far in the map.\<close>

fun pgs_windows_loop :: "nat \<Rightarrow> nat \<Rightarrow> bytes list \<Rightarrow> (nat \<times> nat \<times> nat \<times> nat \<times> nat) list \<Rightarrow>
    string + (nat \<times> nat \<times> nat \<times> nat \<times> nat) list" where
  "pgs_windows_loop canvas_width canvas_height [] windows = Inr windows"
| "pgs_windows_loop canvas_width canvas_height (w # ws) windows =
     res_bind (be16 w 1) (\<lambda>x. res_bind (be16 w 3) (\<lambda>y. res_bind (be16 w 5) (\<lambda>width. res_bind (be16 w 7) (\<lambda>height.
       if width = 0 \<or> height = 0 \<or> canvas_width < sat_add 32 x width \<or> canvas_height < sat_add 32 y height
       then Inl ''PGS window outside canvas''
       else if map_of windows (unat (w ! 0)) \<noteq> None then Inl ''Duplicate PGS window identifier''
       else pgs_windows_loop canvas_width canvas_height ws (AList.update (unat (w ! 0)) (x, y, width, height) windows)))))"

definition pgs_windows :: "bytes \<Rightarrow> pgs_decoder \<Rightarrow> string + pgs_decoder" where
  "pgs_windows body st =
     res_bind (ok_or ''Missing PGS window count'' (get_at body 0)) (\<lambda>b.
     let count = unat b
     in if 64 < count \<or> length body \<noteq> 1 + count * 9 then Inl ''Invalid PGS windows''
        else res_bind (pgs_windows_loop (pd_canvas_width st) (pd_canvas_height st) (whole_chunks 9 (drop 1 body)) []) (\<lambda>windows.
          Inr (st\<lparr>pd_windows := windows\<rparr>)))"


section \<open>Displays\<close>

text \<open>The visible part of a placed object: where it is shown and which part of the object that is.\<close>

definition pgs_visible ::
    "pgs_decoder \<Rightarrow> pgs_object \<Rightarrow> pgs_placement \<Rightarrow> string + (nat \<times> nat \<times> nat \<times> nat \<times> nat \<times> nat) option" where
  "pgs_visible st object pl =
     (let (left, upper, width, height) = (case pp_crop pl of Some c \<Rightarrow> c | None \<Rightarrow> (0, 0, po_width object, po_height object))
      in if width = 0 \<or> height = 0 \<or> po_width object < sat_add 32 left width \<or> po_height object < sat_add 32 upper height
         then Inl ''PGS object rectangle outside canvas''
         else let (wx, wy, ww, wh) = (case map_of (pd_windows st) (pp_window_id pl) of Some w \<Rightarrow> w
                    | None \<Rightarrow> (0, 0, pd_canvas_width st, pd_canvas_height st));
                  x = max (pp_x pl) wx;
                  y = max (pp_y pl) wy;
                  right = min (min (sat_add 32 (pp_x pl) width) (wx + ww)) (pd_canvas_width st);
                  bottom = min (min (sat_add 32 (pp_y pl) height) (wy + wh)) (pd_canvas_height st)
              in if right \<le> x \<or> bottom \<le> y then Inr None
                 else Inr (Some (x, y, right - x, bottom - y, left + (x - pp_x pl), upper + (y - pp_y pl))))"

definition paint_rows :: "bytes list \<Rightarrow> u8 list \<Rightarrow> nat \<Rightarrow> nat \<Rightarrow> nat \<Rightarrow> nat \<Rightarrow> nat \<Rightarrow> bytes" where
  "paint_rows palette indices object_width left upper width height =
     concat (map (\<lambda>row. let start = row * object_width + left
                  in concat (map (\<lambda>index. palette ! unat index) (slice indices start (start + width)))) [upper..<upper + height])"

text \<open>The images of the placements, \<open>retained\<close> bytes being held already.\<close>

fun pgs_images :: "pgs_decoder \<Rightarrow> bytes list \<Rightarrow> pgs_placement list \<Rightarrow> nat \<Rightarrow> string + bitmap_rect list" where
  "pgs_images st palette [] retained = Inr []"
| "pgs_images st palette (pl # pls) retained =
     res_bind (ok_or ''PGS composition object missing'' (map_of (pd_objects st) (pp_object_id pl))) (\<lambda>object.
     if \<not> po_complete object then Inl ''PGS composition references unfinished object''
     else res_bind (pgs_visible st object pl) (\<lambda>visible.
     case visible of
       None \<Rightarrow> pgs_images st palette pls retained
     | Some (x, y, width, height, left, upper) \<Rightarrow>
         res_bind (checked_rgba_len width height) (\<lambda>len.
         res_bind (ok_or ''PGS decoded image size overflow'' (checked_add 64 retained len)) (\<lambda>retained.
         res_bind (checked_rgba_len (po_width object) (po_height object)) (\<lambda>n.
         let index_bytes = n div 4
         in if MAX_RGBA_BYTES < sat_add 64 retained index_bytes then Inl ''PGS decoded display budget exceeded''
            else res_bind (decode_rle (po_data object) (po_width object) (po_height object)) (\<lambda>indices.
            res_bind (pgs_images st palette pls retained) (\<lambda>images.
              Inr (\<lparr>br_x = x, br_y = y, br_width = width, br_height = height,
                     br_rgba = paint_rows palette indices (po_width object) left upper width height\<rparr> # images)))))))) "

definition pgs_display :: "pgs_decoder \<Rightarrow> string + display_set" where
  "pgs_display st =
     res_bind
       (if pd_placements st = [] then Inr []
        else res_bind (ok_or ''PGS composition palette missing'' (map_of (pd_palettes st) (pd_palette st))) (\<lambda>palette.
          pgs_images st palette (pd_placements st) 0)) (\<lambda>images.
       Inr \<lparr>ds_time_ms = pd_time_ms st, ds_canvas_width = pd_canvas_width st, ds_canvas_height = pd_canvas_height st,
            ds_images = images\<rparr>)"

definition pgs_segment :: "nat \<Rightarrow> bytes \<Rightarrow> nat \<Rightarrow> pgs_decoder \<Rightarrow> string + (pgs_decoder \<times> display_set option)" where
  "pgs_segment kind body time_ms st =
     (if kind = 0x14 then res_bind (pgs_palette body st) (\<lambda>st. Inr (st, None))
      else if kind = 0x15 then res_bind (pgs_object_segment body st) (\<lambda>st. Inr (st, None))
      else if kind = 0x16 then res_bind (pgs_composition body time_ms st) (\<lambda>st. Inr (st, None))
      else if kind = 0x17 then res_bind (pgs_windows body st) (\<lambda>st. Inr (st, None))
      else if kind = 0x80 then
        if body \<noteq> [] then Inl ''Invalid PGS end segment''
        else if pd_has_composition st \<and> pd_dirty st then
          let st = st\<lparr>pd_dirty := False\<rparr>
          in res_bind (pgs_display st) (\<lambda>display. Inr (st, Some display))
        else Inr (st, None)
      else Inl ''Unsupported PGS segment type'')"

definition display_bytes :: "display_set \<Rightarrow> nat" where
  "display_bytes display = sum_list (map (\<lambda>image. length (br_rgba image)) (ds_images display))"

definition add_display :: "display_set option \<Rightarrow> display_set list \<times> nat \<Rightarrow> string + (display_set list \<times> nat)" where
  "add_display shown acc =
     (case shown of
        None \<Rightarrow> Inr acc
      | Some display \<Rightarrow>
          let (result, result_bytes) = acc
          in if 1024 \<le> length result then Inl ''PGS display count limit exceeded''
             else res_bind (ok_or ''PGS packet display size overflow'' (checked_add 64 result_bytes (display_bytes display)))
               (\<lambda>result_bytes.
                 if MAX_RGBA_BYTES < result_bytes then Inl ''PGS packet display budget exceeded''
                 else Inr (result @ [display], result_bytes)))"

text \<open>The segments that are complete in \<open>pending\<close>, of which the first \<open>retained\<close> bytes came with earlier packets.\<close>

function pgs_segments_loop :: "bytes \<Rightarrow> nat \<Rightarrow> nat \<Rightarrow> nat \<Rightarrow> nat \<Rightarrow> pgs_decoder \<Rightarrow> display_set list \<times> nat \<Rightarrow>
    string + (nat \<times> pgs_decoder \<times> display_set list)" where
  "pgs_segments_loop pending retained previous_time time_ms consumed st acc =
     (if length pending - consumed < 3 then Inr (consumed, st, fst acc)
      else let len = be_nat (slice pending (consumed + 1) (consumed + 3)); end_of = consumed + 3 + len
      in if length pending < end_of then Inr (consumed, st, fst acc)
         else let segment_time = (if consumed < retained then previous_time else time_ms)
         in res_bind (pgs_segment (unat (pending ! consumed)) (slice pending (consumed + 3) end_of) segment_time st) (\<lambda>(st, shown).
            res_bind (add_display shown acc) (\<lambda>acc.
              pgs_segments_loop pending retained previous_time time_ms end_of st acc)))"
  by pat_completeness auto

termination
  by (relation "measure (\<lambda>(pending, _, _, _, consumed, _). length pending - consumed)") auto

declare pgs_segments_loop.simps [simp del]

definition pgs_push_packet :: "bytes \<Rightarrow> nat \<Rightarrow> pgs_decoder \<Rightarrow> string + (pgs_decoder \<times> display_set list)" where
  "pgs_push_packet bs time_ms st =
     (if MAX_ENCODED_BYTES < length bs \<or> MAX_ENCODED_BYTES < sat_add 64 (length (pd_pending st)) (length bs)
      then Inl ''PGS packet size limit exceeded''
      else let retained = length (pd_pending st); previous_time = pd_pending_time st; pending = pd_pending st @ bs
      in res_bind (pgs_segments_loop pending retained previous_time time_ms 0 (st\<lparr>pd_pending := pending\<rparr>) ([], 0))
           (\<lambda>(consumed, st, result).
             Inr (st\<lparr>pd_pending := drop consumed pending,
                     pd_pending_time := (if consumed < retained then previous_time else time_ms)\<rparr>, result)))"

definition pgs_finish :: "pgs_decoder \<Rightarrow> string + unit" where
  "pgs_finish st =
     (if pd_pending st \<noteq> [] then Inl ''Truncated PGS segment''
      else if \<not> list_all (\<lambda>(_, object). po_complete object) (pd_objects st) then Inl ''Truncated PGS object''
      else Inr ())"


section \<open>Limits\<close>

lemma length_update: "length (AList.update k v al) = (if map_of al k = None then length al + 1 else length al)"
  by (induction al) auto

lemma set_update: "set (AList.update k v al) \<subseteq> insert (k, v) (set al)"
  by (induction al) auto

lemma list_all_update: "list_all P al \<Longrightarrow> P (k, v) \<Longrightarrow> list_all P (AList.update k v al)"
  using set_update [of k v al] by (auto simp: list_all_iff)

lemma map_of_list_all: "list_all P al \<Longrightarrow> map_of al k = Some v \<Longrightarrow> P (k, v)"
  by (auto simp: list_all_iff dest: map_of_SomeD)

lemma objects_len_Cons [simp]: "objects_len [] = 0" "objects_len ((k, v) # al) = length (po_data v) + objects_len al"
  by (simp_all add: objects_len_def)

lemma objects_len_others:
  assumes "distinct (map fst al)"
  shows "objects_len al = objects_len (filter (\<lambda>(key, _). key \<noteq> k) al) + (case map_of al k of Some v \<Rightarrow> length (po_data v) | None \<Rightarrow> 0)"
    "objects_len (AList.update k v al) = objects_len (filter (\<lambda>(key, _). key \<noteq> k) al) + length (po_data v)"
proof -
  have absent: "filter (\<lambda>(key, _). key \<noteq> k) bl = bl \<and> map_of bl k = None" if "k \<notin> fst ` set bl" for bl :: "(nat \<times> pgs_object) list"
    using that by (induction bl) auto
  show "objects_len al = objects_len (filter (\<lambda>(key, _). key \<noteq> k) al) + (case map_of al k of Some v \<Rightarrow> length (po_data v) | None \<Rightarrow> 0)"
    "objects_len (AList.update k v al) = objects_len (filter (\<lambda>(key, _). key \<noteq> k) al) + length (po_data v)"
    using assms by (induction al) (auto simp: absent)
qed

definition dims_ok :: "nat \<Rightarrow> nat \<Rightarrow> bool" where
  "dims_ok width height \<longleftrightarrow> 0 < width \<and> 0 < height \<and> width * height \<le> MAX_PIXELS \<and> width < 2 ^ 16 \<and> height < 2 ^ 16"

definition object_ok :: "pgs_object \<Rightarrow> bool" where
  "object_ok object \<longleftrightarrow> dims_ok (po_width object) (po_height object) \<and> length (po_data object) \<le> po_expected object \<and>
     po_expected object \<le> MAX_ENCODED_BYTES \<and> (po_complete object \<longrightarrow> length (po_data object) = po_expected object)"

definition palette_ok :: "bytes list \<Rightarrow> bool" where
  "palette_ok palette \<longleftrightarrow> length palette = 256 \<and> list_all (\<lambda>c. length c = 4) palette"

definition pgs_ok :: "pgs_decoder \<Rightarrow> bool" where
  "pgs_ok st \<longleftrightarrow>
     length (pd_palettes st) \<le> 16 \<and> list_all (\<lambda>(_, palette). palette_ok palette) (pd_palettes st) \<and>
     distinct (map fst (pd_objects st)) \<and> length (pd_objects st) \<le> 256 \<and> list_all (\<lambda>(_, object). object_ok object) (pd_objects st) \<and>
     objects_len (pd_objects st) \<le> MAX_RGBA_BYTES \<and>
     length (pd_placements st) \<le> 64 \<and> list_all (\<lambda>pl. pp_x pl < 2 ^ 16 \<and> pp_y pl < 2 ^ 16) (pd_placements st) \<and>
     length (pd_pending st) \<le> MAX_ENCODED_BYTES"

lemma be16_Inr: "be16 bs offset = Inr v \<Longrightarrow> offset + 2 \<le> length bs \<and> v < 2 ^ 16"
  using be_nat_bound [of "slice bs offset (offset + 2)"] by (auto simp: be16_def res_bind_Inr)

lemma palette_ok_update: "palette_ok p \<Longrightarrow> length c = 4 \<Longrightarrow> palette_ok (p[unat (b :: u8) := c])"
  by (auto simp: palette_ok_def list_all_iff dest!: set_update_subset_insert [THEN subsetD])

lemma pgs_palette_ok: "pgs_palette body st = Inr st' \<Longrightarrow> pgs_ok st \<Longrightarrow> pgs_ok st'"
proof -
  have fold: "palette_ok p \<Longrightarrow> palette_ok (foldl (\<lambda>p e. p[unat (e ! 0 :: u8) := ycbcr (e ! 1) (e ! 2) (e ! 3) (e ! 4)]) p es)" for p es
    by (induction es arbitrary: p) (auto simp: palette_ok_update)
  have zero: "palette_ok (replicate 256 [0, 0, 0, 0])" by (simp add: palette_ok_def list_all_iff)
  assume "pgs_palette body st = Inr st'" "pgs_ok st"
  then show "pgs_ok st'"
    using fold [OF zero] fold [OF map_of_list_all [of "\<lambda>(_, palette). palette_ok palette" "pd_palettes st", simplified]]
    by (auto simp: pgs_palette_def pgs_ok_def Let_def length_update split: if_splits option.splits intro!: list_all_update)
qed


lemma sat_add_le: "sat_add 64 a b \<le> MAX_RGBA_BYTES \<Longrightarrow> a + b \<le> MAX_RGBA_BYTES"
  by (auto simp: sat_add_def MAX_RGBA_BYTES_def min_def split: if_splits)

lemma pgs_first_fragment_ok: "pgs_first_fragment body oid st = Inr st' \<Longrightarrow> pgs_ok st \<Longrightarrow> pgs_ok st'"
  using objects_len_others(2) [of "pd_objects st" oid]
  by (auto simp: pgs_first_fragment_def Let_def res_bind_Inr pgs_ok_def length_update checked_rgba_len_Inr object_ok_def dims_ok_def
      not_less distinct_update split: if_splits intro!: list_all_update dest!: be16_Inr dest: sat_add_le)

lemma sat_add_le_small: "sat_add 64 a b \<le> n \<Longrightarrow> n \<le> MAX_ENCODED_BYTES \<Longrightarrow> a + b \<le> n"
  by (auto simp: sat_add_def MAX_ENCODED_BYTES_def min_def split: if_splits)

lemma pgs_append_fragment_ok:
  assumes "pgs_append_fragment fragment oid l st = Inr st'" "pgs_ok st"
  shows "pgs_ok st'"
proof -
  obtain object where object: "map_of (pd_objects st) oid = Some object" "\<not> po_complete object"
      "sat_add 64 (objects_len (pd_objects st)) (length fragment) \<le> MAX_RGBA_BYTES"
      "sat_add 64 (length (po_data object)) (length fragment) \<le> po_expected object"
      "l \<longrightarrow> length (po_data object @ fragment) = po_expected object"
      "st' = st\<lparr>pd_objects := AList.update oid (object\<lparr>po_data := po_data object @ fragment, po_complete := l\<rparr>) (pd_objects st), pd_dirty := True\<rparr>"
    using assms(1) by (auto simp: pgs_append_fragment_def Let_def res_bind_Inr not_less split: if_splits)
  have ok: "object_ok object" "distinct (map fst (pd_objects st))"
    using map_of_list_all [OF _ object(1), of "\<lambda>(_, object). object_ok object"] assms(2) by (simp_all add: pgs_ok_def)
  have "objects_len (pd_objects st') = objects_len (pd_objects st) + length fragment"
    using objects_len_others [OF ok(2), of oid] by (simp add: object(1,6))
  moreover have "object_ok (object\<lparr>po_data := po_data object @ fragment, po_complete := l\<rparr>)"
    using ok(1) sat_add_le_small [OF object(4)] object(5) by (simp add: object_ok_def)
  ultimately show ?thesis
    using assms(2) sat_add_le [OF object(3)] object(1) by (simp add: pgs_ok_def object(6) length_update distinct_update list_all_update)
qed

lemma pgs_object_segment_ok: "pgs_object_segment body st = Inr st' \<Longrightarrow> pgs_ok st \<Longrightarrow> pgs_ok st'"
  by (auto simp: pgs_object_segment_def Let_def res_bind_Inr split: if_splits
      dest: pgs_first_fragment_ok pgs_append_fragment_ok)

lemma pgs_placements_ok:
  "pgs_placements n body offset = Inr (pls, offset') \<Longrightarrow>
    length pls = n \<and> list_all (\<lambda>pl. pp_x pl < 2 ^ 16 \<and> pp_y pl < 2 ^ 16) pls"
  by (induction n arbitrary: offset pls) (auto simp: Let_def res_bind_Inr split: if_splits dest!: be16_Inr)

lemma pgs_composition_ok: "pgs_composition body t st = Inr st' \<Longrightarrow> pgs_ok st \<Longrightarrow> pgs_ok st'"
  by (auto simp: pgs_composition_def Let_def res_bind_Inr pgs_ok_def split: if_splits dest!: pgs_placements_ok)

lemma pgs_windows_ok: "pgs_windows body st = Inr st' \<Longrightarrow> pgs_ok st \<Longrightarrow> pgs_ok st'"
  by (auto simp: pgs_windows_def Let_def res_bind_Inr pgs_ok_def split: if_splits)

lemma pgs_segment_ok: "pgs_segment kind body t st = Inr (st', shown) \<Longrightarrow> pgs_ok st \<Longrightarrow> pgs_ok st'"
  by (auto simp: pgs_segment_def Let_def res_bind_Inr split: if_splits
      dest: pgs_palette_ok pgs_object_segment_ok pgs_composition_ok pgs_windows_ok) (auto simp: pgs_ok_def)

definition image_ok :: "nat \<Rightarrow> nat \<Rightarrow> bitmap_rect \<Rightarrow> bool" where
  "image_ok canvas_width canvas_height img \<longleftrightarrow>
     0 < br_width img \<and> 0 < br_height img \<and> br_x img + br_width img \<le> canvas_width \<and>
     br_y img + br_height img \<le> canvas_height \<and> length (br_rgba img) = 4 * (br_width img * br_height img)"

definition display_ok :: "display_set \<Rightarrow> bool" where
  "display_ok display \<longleftrightarrow>
     list_all (image_ok (ds_canvas_width display) (ds_canvas_height display)) (ds_images display) \<and>
     display_bytes display \<le> MAX_RGBA_BYTES"

lemma pgs_visible_inside:
  assumes "pgs_visible st object pl = Inr (Some (x, y, width, height, left, upper))" "object_ok object"
  shows "0 < width" "0 < height" "x + width \<le> pd_canvas_width st" "y + height \<le> pd_canvas_height st"
    "left + width \<le> po_width object" "upper + height \<le> po_height object"
proof -
  have exact: "a + b \<le> n" if "\<not> n < sat_add 32 a b" "n < 2 ^ 16" for a b n :: nat
    using that by (auto simp: sat_add_def min_def split: if_splits)
  have below: "sat_add 32 a b \<le> a + b" for a b by (simp add: sat_add_def)
  have dims: "po_width object < 2 ^ 16" "po_height object < 2 ^ 16" using assms(2) by (simp_all add: object_ok_def dims_ok_def)
  obtain cl cu cw ch where c: "(case pp_crop pl of Some c \<Rightarrow> c | None \<Rightarrow> (0, 0, po_width object, po_height object)) = (cl, cu, cw, ch)"
    using prod_cases4 by blast
  obtain wx wy ww wh where w: "(case map_of (pd_windows st) (pp_window_id pl) of Some w \<Rightarrow> w
      | None \<Rightarrow> (0, 0, pd_canvas_width st, pd_canvas_height st)) = (wx, wy, ww, wh)"
    using prod_cases4 by blast
  define right where "right = min (min (sat_add 32 (pp_x pl) cw) (wx + ww)) (pd_canvas_width st)"
  define bottom where "bottom = min (min (sat_add 32 (pp_y pl) ch) (wy + wh)) (pd_canvas_height st)"
  have inside: "\<not> po_width object < sat_add 32 cl cw" "\<not> po_height object < sat_add 32 cu ch"
    and v: "x = max (pp_x pl) wx" "y = max (pp_y pl) wy" "width = right - x" "height = bottom - y" "left = cl + (x - pp_x pl)"
      "upper = cu + (y - pp_y pl)" "x < right" "y < bottom"
    using assms(1) unfolding pgs_visible_def c w Let_def prod.case right_def [symmetric] bottom_def [symmetric]
    by (auto simp: not_le split: if_splits)
  have "right \<le> pp_x pl + cw" "bottom \<le> pp_y pl + ch" "right \<le> pd_canvas_width st" "bottom \<le> pd_canvas_height st"
    using below [of "pp_x pl" cw] below [of "pp_y pl" ch] by (simp_all add: right_def bottom_def min_le_iff_disj)
  then show "0 < width" "0 < height" "x + width \<le> pd_canvas_width st" "y + height \<le> pd_canvas_height st"
    "left + width \<le> po_width object" "upper + height \<le> po_height object"
    using v exact [OF inside(1) dims(1)] exact [OF inside(2) dims(2)] by linarith+
qed

lemma length_paint_rows:
  assumes "length indices = object_width * object_height" "left + width \<le> object_width" "upper + height \<le> object_height"
    "palette_ok palette"
  shows "length (paint_rows palette indices object_width left upper width height) = 4 * (width * height)"
proof -
  have color: "length (palette ! unat (i :: u8)) = 4" for i
    using assms(4) unsigned_less [of i] by (simp add: palette_ok_def list_all_length)
  have row: "length (slice indices (row * object_width + left) (row * object_width + left + width)) = width" if "row < object_height" for row
    using room_in_image [OF that, of left width object_width] assms(1,2) by (simp add: mult.commute)
  have "length (concat (map (\<lambda>i. palette ! unat i) is)) = 4 * length is" for "is" :: "u8 list"
    by (induction "is") (simp_all add: color)
  then have "length (concat (map (\<lambda>row. concat (map (\<lambda>i. palette ! unat i) (slice indices (row * object_width + left) (row * object_width + left + width)))) rows))
      = 4 * (width * length rows)" if "\<forall>row \<in> set rows. row < object_height" for rows
    using that
  proof (induction rows)
    case (Cons r rows)
    then show ?case using row [of r] by (simp del: length_slice add: algebra_simps)
  qed simp
  then show ?thesis using assms(3) by (simp add: paint_rows_def Let_def)
qed


lemma pgs_images_ok:
  assumes "pgs_images st palette pls retained = Inr imgs" "list_all (\<lambda>(_, object). object_ok object) (pd_objects st)" "palette_ok palette"
    "retained \<le> MAX_RGBA_BYTES"
  shows "list_all (image_ok (pd_canvas_width st) (pd_canvas_height st)) imgs \<and>
    retained + sum_list (map (\<lambda>img. length (br_rgba img)) imgs) \<le> MAX_RGBA_BYTES"
  using assms(1,4)
proof (induction pls arbitrary: retained imgs)
  case (Cons pl pls)
  obtain object visible where object: "map_of (pd_objects st) (pp_object_id pl) = Some object" "pgs_visible st object pl = Inr visible"
    using Cons.prems(1) by (auto simp: res_bind_Inr split: if_splits)
  have ok: "object_ok object" using map_of_list_all [OF assms(2) object(1)] by simp
  have complete: "po_complete object" using Cons.prems(1) object(1) by (auto simp: res_bind_Inr split: if_splits)
  show ?case
  proof (cases visible)
    case None
    then show ?thesis using Cons object complete by simp
  next
    case (Some v)
    obtain x y width height left upper where v: "visible = Some (x, y, width, height, left, upper)" using Some by (cases v) auto
    note inside = pgs_visible_inside [OF object(2) [unfolded v] ok]
    obtain indices rest where rest:
        "decode_rle (po_data object) (po_width object) (po_height object) = Inr indices"
        "retained + 4 * (width * height) \<le> MAX_RGBA_BYTES"
        "pgs_images st palette pls (retained + 4 * (width * height)) = Inr rest"
        "imgs = \<lparr>br_x = x, br_y = y, br_width = width, br_height = height,
           br_rgba = paint_rows palette indices (po_width object) left upper width height\<rparr> # rest"
      using Cons.prems(1) object complete v
      by (auto simp: res_bind_Inr Let_def checked_rgba_len_Inr checked_add_def not_less split: if_splits dest: sat_add_le)
    have "length indices = po_width object * po_height object"
      using rest(1) length_image_pixels by (auto simp: decode_rle_iff)
    then have "length (br_rgba (hd imgs)) = 4 * (width * height)"
      using length_paint_rows inside(5,6) assms(3) rest(4) by simp
    then show ?thesis using Cons.IH [OF rest(3,2)] inside(1-4) rest(4) by (simp add: image_ok_def)
  qed
qed simp

lemma pgs_display_ok:
  assumes "pgs_display st = Inr display" "pgs_ok st"
  shows "display_ok display"
proof -
  obtain imgs where imgs: "ds_images display = imgs" "ds_canvas_width display = pd_canvas_width st" "ds_canvas_height display = pd_canvas_height st"
      "imgs = [] \<or> (\<exists>palette. map_of (pd_palettes st) (pd_palette st) = Some palette \<and> pgs_images st palette (pd_placements st) 0 = Inr imgs)"
    using assms(1) by (auto simp: pgs_display_def res_bind_Inr split: if_splits)
  show ?thesis
  proof (cases "imgs = []")
    case False
    then obtain palette where palette: "map_of (pd_palettes st) (pd_palette st) = Some palette" "pgs_images st palette (pd_placements st) 0 = Inr imgs"
      using imgs(4) by blast
    have "palette_ok palette" using map_of_list_all [OF _ palette(1), of "\<lambda>(_, p). palette_ok p"] assms(2) by (simp add: pgs_ok_def)
    then show ?thesis
      using pgs_images_ok [OF palette(2)] assms(2) by (simp add: display_ok_def display_bytes_def imgs pgs_ok_def)
  qed (simp add: display_ok_def display_bytes_def imgs)
qed

definition displays_bytes :: "display_set list \<Rightarrow> nat" where
  "displays_bytes displays = sum_list (map display_bytes displays)"

definition shown_ok :: "display_set list \<Rightarrow> bool" where
  "shown_ok displays \<longleftrightarrow> list_all display_ok displays \<and> length displays \<le> 1024 \<and> displays_bytes displays \<le> MAX_RGBA_BYTES"

lemma pgs_segment_shown: "pgs_segment kind body t st = Inr (st', Some display) \<Longrightarrow> pgs_ok st \<Longrightarrow> display_ok display"
  by (auto simp: pgs_segment_def Let_def res_bind_Inr split: if_splits intro!: pgs_display_ok) (auto simp: pgs_ok_def)

lemma add_display_ok:
  "add_display shown acc = Inr acc' \<Longrightarrow> shown_ok (fst acc) \<Longrightarrow> snd acc = displays_bytes (fst acc) \<Longrightarrow>
    (\<forall>display. shown = Some display \<longrightarrow> display_ok display) \<Longrightarrow>
    fst acc' = fst acc @ (case shown of None \<Rightarrow> [] | Some display \<Rightarrow> [display]) \<and> shown_ok (fst acc') \<and> snd acc' = displays_bytes (fst acc')"
  by (cases acc) (auto simp: add_display_def shown_ok_def displays_bytes_def res_bind_Inr checked_add_def not_le not_less split: option.splits if_splits)

lemma pgs_segment_pending: "pgs_segment kind body t st = Inr (st', shown) \<Longrightarrow> pd_pending st' = pd_pending st \<and> pd_pending_time st' = pd_pending_time st"
  by (auto simp: pgs_segment_def pgs_palette_def pgs_object_segment_def pgs_first_fragment_def pgs_append_fragment_def pgs_composition_def
      pgs_windows_def Let_def res_bind_Inr split: if_splits)

section \<open>A stream of segments\<close>

text \<open>What a stream of timed bytes says, however it is cut into packets: segments of a kind, a body and the time of their
  first byte, and the bytes of an unfinished one.\<close>

type_synonym pgs_stream = "(u8 \<times> nat) list"

function stream_segments :: "pgs_stream \<Rightarrow> (nat \<times> bytes \<times> nat) list \<times> pgs_stream" where
  "stream_segments s =
     (let n = 3 + be_nat (map fst (slice s 1 3))
      in if length s < 3 \<or> length s < n then ([], s)
         else let (segs, rest) = stream_segments (drop n s)
              in ((unat (fst (hd s)), map fst (slice s 3 n), snd (hd s)) # segs, rest))"
  by pat_completeness auto

termination by (relation "measure length") auto

declare stream_segments.simps [simp del]

fun show_segments :: "(nat \<times> bytes \<times> nat) list \<Rightarrow> pgs_decoder \<Rightarrow> string + (pgs_decoder \<times> display_set list)" where
  "show_segments [] st = Inr (st, [])"
| "show_segments ((kind, body, time) # segs) st =
     res_bind (pgs_segment kind body time st) (\<lambda>(st, shown).
     res_bind (show_segments segs st) (\<lambda>(st, displays).
       Inr (st, (case shown of None \<Rightarrow> [] | Some display \<Rightarrow> [display]) @ displays)))"

definition packet_stream :: "nat \<Rightarrow> nat \<Rightarrow> nat \<Rightarrow> bytes \<Rightarrow> pgs_stream" where
  "packet_stream retained previous_time time_ms bs =
     zip bs (replicate retained previous_time @ replicate (length bs - retained) time_ms)"

lemma packet_stream_simps [simp]:
  assumes "retained \<le> length bs"
  shows "length (packet_stream retained t u bs) = length bs" "map fst (packet_stream retained t u bs) = bs"
    "i < length bs \<Longrightarrow> packet_stream retained t u bs ! i = (bs ! i, if i < retained then t else u)"
  using assms by (simp_all add: packet_stream_def nth_append)

lemma pgs_segments_loop_stream:
  assumes "pgs_segments_loop pending retained previous_time time_ms consumed st acc = Inr (consumed', st', displays)"
    "retained \<le> length pending" "pgs_ok st" "shown_ok (fst acc)" "snd acc = displays_bytes (fst acc)" "consumed \<le> length pending"
  shows "pgs_ok st' \<and> shown_ok displays \<and> consumed' \<le> length pending \<and>
    (\<exists>segs shown. stream_segments (drop consumed (packet_stream retained previous_time time_ms pending)) =
        (segs, drop consumed' (packet_stream retained previous_time time_ms pending)) \<and>
      show_segments segs st = Inr (st', shown) \<and> displays = fst acc @ shown)"
  using assms
proof (induction pending retained previous_time time_ms consumed st acc rule: pgs_segments_loop.induct)
  case (1 pending retained previous_time time_ms consumed st acc)
  let ?Z = "packet_stream retained previous_time time_ms pending"
  let ?len = "be_nat (slice pending (consumed + 1) (consumed + 3))"
  note Z = packet_stream_simps [OF "1.prems"(2), where t = previous_time and u = time_ms]
  have bytes: "map fst (slice (drop consumed ?Z) a b) = slice pending (consumed + a) (consumed + b)" for a b
  proof -
    have "map fst (slice (drop consumed ?Z) a b) = slice (drop consumed (map fst ?Z)) a b"
      by (simp only: slice_def take_map drop_map)
    then show ?thesis by (simp add: Z(2) slice_def add.commute)
  qed
  have head: "hd (drop consumed ?Z) = (pending ! consumed, if consumed < retained then previous_time else time_ms)" if "consumed < length pending"
    using that Z(1) Z(3) [of consumed] by (simp add: hd_drop_conv_nth)
  show ?case
  proof (cases "length pending - consumed < 3 \<or> length pending < consumed + 3 + ?len")
    case True
    then have "consumed' = consumed" "st' = st" "displays = fst acc"
      using "1.prems"(1) by (auto simp: pgs_segments_loop.simps [of pending] Let_def split: if_splits)
    moreover have "stream_segments (drop consumed ?Z) = ([], drop consumed ?Z)"
      using True "1.prems"(6) by (subst stream_segments.simps) (auto simp: Let_def bytes Z(1))
    ultimately show ?thesis using "1.prems" by (intro conjI exI [of _ "[]"]) simp_all
  next
    case False
    let ?kind = "unat (pending ! consumed)" and ?body = "slice pending (consumed + 3) (consumed + 3 + ?len)"
    let ?time = "if consumed < retained then previous_time else time_ms"
    obtain st1 shown acc1 where step: "pgs_segment ?kind ?body ?time st = Inr (st1, shown)" "add_display shown acc = Inr acc1"
        "pgs_segments_loop pending retained previous_time time_ms (consumed + 3 + ?len) st1 acc1 = Inr (consumed', st', displays)"
      using "1.prems"(1) False by (subst (asm) pgs_segments_loop.simps) (auto simp: Let_def res_bind_Inr split: if_splits)
    note acc1 = add_display_ok [OF step(2) "1.prems"(4,5)]
    have shown: "\<forall>display. shown = Some display \<longrightarrow> display_ok display" using pgs_segment_shown step(1) "1.prems"(3) by blast
    obtain segs more where rest: "pgs_ok st'" "shown_ok displays" "consumed' \<le> length pending"
        "stream_segments (drop (consumed + 3 + ?len) ?Z) = (segs, drop consumed' ?Z)" "show_segments segs st1 = Inr (st', more)"
        "displays = fst acc1 @ more"
      using "1.IH" [OF _ refl refl _ refl step(3)] False acc1 [OF shown] pgs_segment_ok [OF step(1) "1.prems"(3)] "1.prems"(2)
      by (auto simp: Let_def)
    have "stream_segments (drop consumed ?Z) = ((?kind, ?body, ?time) # segs, drop consumed' ?Z)"
      using False rest(4) head by (subst stream_segments.simps) (auto simp: Let_def bytes Z(1) ac_simps)
    then show ?thesis using rest step(1) acc1 [OF shown] by simp
  qed
qed


text \<open>Segments neither read nor change the bytes that wait for more.\<close>

definition unpend :: "pgs_decoder \<Rightarrow> pgs_decoder" where
  "unpend st = st\<lparr>pd_pending := [], pd_pending_time := 0\<rparr>"

lemma unpend_fields [simp]:
  "pd_palettes (unpend st) = pd_palettes st" "pd_objects (unpend st) = pd_objects st" "pd_placements (unpend st) = pd_placements st"
  "pd_canvas_width (unpend st) = pd_canvas_width st" "pd_canvas_height (unpend st) = pd_canvas_height st"
  "pd_palette (unpend st) = pd_palette st" "pd_time_ms (unpend st) = pd_time_ms st" "pd_dirty (unpend st) = pd_dirty st"
  "pd_has_composition (unpend st) = pd_has_composition st" "pd_windows (unpend st) = pd_windows st"
  by (simp_all add: unpend_def)

lemma unpend_updates [simp]:
  "unpend (st\<lparr>pd_pending := p\<rparr>) = unpend st" "unpend (st\<lparr>pd_pending_time := t\<rparr>) = unpend st" "unpend (unpend st) = unpend st"
  by (simp_all add: unpend_def)

lemma unpend_commutes [simp]:
  "unpend (st\<lparr>pd_palettes := x_palettes\<rparr>) = unpend st\<lparr>pd_palettes := x_palettes\<rparr>"
  "unpend (st\<lparr>pd_objects := x_objects\<rparr>) = unpend st\<lparr>pd_objects := x_objects\<rparr>"
  "unpend (st\<lparr>pd_placements := x_placements\<rparr>) = unpend st\<lparr>pd_placements := x_placements\<rparr>"
  "unpend (st\<lparr>pd_canvas_width := x_canvas_width\<rparr>) = unpend st\<lparr>pd_canvas_width := x_canvas_width\<rparr>"
  "unpend (st\<lparr>pd_canvas_height := x_canvas_height\<rparr>) = unpend st\<lparr>pd_canvas_height := x_canvas_height\<rparr>"
  "unpend (st\<lparr>pd_palette := x_palette\<rparr>) = unpend st\<lparr>pd_palette := x_palette\<rparr>"
  "unpend (st\<lparr>pd_time_ms := x_time_ms\<rparr>) = unpend st\<lparr>pd_time_ms := x_time_ms\<rparr>"
  "unpend (st\<lparr>pd_dirty := x_dirty\<rparr>) = unpend st\<lparr>pd_dirty := x_dirty\<rparr>"
  "unpend (st\<lparr>pd_has_composition := x_has_composition\<rparr>) = unpend st\<lparr>pd_has_composition := x_has_composition\<rparr>"
  "unpend (st\<lparr>pd_windows := x_windows\<rparr>) = unpend st\<lparr>pd_windows := x_windows\<rparr>"
  by (simp_all add: unpend_def)

lemma res_bind_map:
  "map_sum id g (res_bind r f) = res_bind r (\<lambda>x. map_sum id g (f x))" "res_bind (map_sum id h r) f = res_bind r (\<lambda>x. f (h x))"
  by (cases r; simp)+

lemma res_bind_nested:
  "res_bind (res_bind r f) g = res_bind r (\<lambda>x. res_bind (f x) g)"
  "res_bind (if c then r else r') f = (if c then res_bind r f else res_bind r' f)"
  by (cases r; simp)+

lemma pgs_palette_unpend: "pgs_palette body (unpend st) = map_sum id unpend (pgs_palette body st)"
  by (simp add: pgs_palette_def Let_def)

lemma pgs_first_fragment_unpend: "pgs_first_fragment body oid (unpend st) = map_sum id unpend (pgs_first_fragment body oid st)"
  by (simp add: pgs_first_fragment_def Let_def res_bind_map if_distrib [of "map_sum id unpend"] cong: if_cong)

lemma pgs_append_fragment_unpend: "pgs_append_fragment fragment oid l (unpend st) = map_sum id unpend (pgs_append_fragment fragment oid l st)"
  by (simp add: pgs_append_fragment_def Let_def res_bind_map if_distrib [of "map_sum id unpend"] cong: if_cong)

lemma pgs_object_segment_unpend: "pgs_object_segment body (unpend st) = map_sum id unpend (pgs_object_segment body st)"
  by (simp add: pgs_object_segment_def Let_def res_bind_map if_distrib [of "map_sum id unpend"] pgs_first_fragment_unpend
      pgs_append_fragment_unpend res_bind_nested cong: if_cong)

lemma pgs_composition_unpend: "pgs_composition body t (unpend st) = map_sum id unpend (pgs_composition body t st)"
  by (simp add: pgs_composition_def Let_def res_bind_map if_distrib [of "map_sum id unpend"] split_def cong: if_cong)

lemma pgs_windows_unpend: "pgs_windows body (unpend st) = map_sum id unpend (pgs_windows body st)"
  by (simp add: pgs_windows_def Let_def res_bind_map if_distrib [of "map_sum id unpend"] cong: if_cong)

lemma pgs_images_unpend [simp]: "pgs_images (unpend st) palette pls retained = pgs_images st palette pls retained"
proof -
  have visible: "pgs_visible (unpend st) = pgs_visible st" by (intro ext) (simp only: pgs_visible_def unpend_fields)
  show ?thesis by (induction pls arbitrary: retained) (simp_all add: visible Let_def cong: option.case_cong if_cong)
qed

lemma pgs_display_unpend: "pgs_display (unpend st) = pgs_display st"
  by (simp add: pgs_display_def)

lemma pgs_segment_unpend:
  "pgs_segment kind body t (unpend st) = map_sum id (map_prod unpend id) (pgs_segment kind body t st)"
proof -
  show ?thesis
    by (simp add: pgs_segment_def pgs_palette_unpend pgs_object_segment_unpend pgs_composition_unpend pgs_windows_unpend res_bind_map
        pgs_display_unpend [of "st\<lparr>pd_dirty := False\<rparr>", simplified] Let_def cong: if_cong)
qed

lemma show_segments_unpend:
  "show_segments segs (unpend st) = map_sum id (map_prod unpend id) (show_segments segs st)"
proof (induction segs arbitrary: st)
  case (Cons seg segs)
  obtain kind body t where seg: "seg = (kind, body, t)" by (cases seg) auto
  show ?case
  proof (cases "pgs_segment kind body t st")
    case (Inr r)
    obtain st1 shown where "r = (st1, shown)" by (cases r) auto
    then show ?thesis
      using Inr Cons.IH [of st1] by (cases "show_segments segs st1") (auto simp: seg pgs_segment_unpend)
  qed (simp add: seg pgs_segment_unpend)
qed simp

lemma show_segments_append:
  "show_segments (xs @ ys) st = res_bind (show_segments xs st) (\<lambda>(st, shown).
     res_bind (show_segments ys st) (\<lambda>(st, more). Inr (st, shown @ more)))"
proof (induction xs arbitrary: st)
  case (Cons seg xs)
  obtain kind body t where seg: "seg = (kind, body, t)" by (cases seg) auto
  show ?case
    by (cases "pgs_segment kind body t st") (auto simp: seg Cons.IH res_bind_def split: sum.splits prod.splits)
next
  case Nil
  show ?case by (cases "show_segments ys st") auto
qed

lemma stream_segments_rest:
  "stream_segments s = (segs, rest) \<Longrightarrow> stream_segments rest = ([], rest) \<and> length rest \<le> length s"
proof (induction s arbitrary: segs rule: stream_segments.induct)
  case (1 s)
  let ?n = "3 + be_nat (map fst (slice s 1 3))"
  show ?case
  proof (cases "length s < 3 \<or> length s < ?n")
    case True
    then have "stream_segments s = ([], s)" by (subst stream_segments.simps) (auto simp: Let_def)
    then show ?thesis using "1.prems" by simp
  next
    case False
    obtain more where "stream_segments (drop ?n s) = (more, rest)"
      using "1.prems" False by (auto simp: stream_segments.simps [of s] Let_def split: prod.splits)
    then show ?thesis using "1.IH" [OF refl False] by force
  qed
qed

lemma stream_segments_append:
  "stream_segments s = (segs, rest) \<Longrightarrow>
    stream_segments (s @ t) = (segs @ fst (stream_segments (rest @ t)), snd (stream_segments (rest @ t)))"
proof (induction s arbitrary: segs rule: stream_segments.induct)
  case (1 s)
  let ?n = "3 + be_nat (map fst (slice s 1 3))"
  show ?case
  proof (cases "length s < 3 \<or> length s < ?n")
    case True
    then have "stream_segments s = ([], s)" by (subst stream_segments.simps) (auto simp: Let_def)
    then show ?thesis using "1.prems" by simp
  next
    case False
    obtain more where more: "stream_segments (drop ?n s) = (more, rest)" "segs = (unat (fst (hd s)), map fst (slice s 3 ?n), snd (hd s)) # more"
      using "1.prems" False by (auto simp: stream_segments.simps [of s] Let_def split: prod.splits)
    have same: "slice (s @ t) 1 3 = slice s 1 3" "slice (s @ t) 3 ?n = slice s 3 ?n" "hd (s @ t) = hd s" "drop ?n (s @ t) = drop ?n s @ t"
      using False by (auto simp: slice_append_left hd_append)
    have "stream_segments (s @ t) =
        ((unat (fst (hd s)), map fst (slice s 3 ?n), snd (hd s)) # fst (stream_segments (drop ?n s @ t)), snd (stream_segments (drop ?n s @ t)))"
      using False by (subst stream_segments.simps) (simp only: same Let_def, simp split: prod.splits)
    then show ?thesis using "1.IH" [OF refl False more(1)] more(2) by simp
  qed
qed

text \<open>The decoder between two packets: the stream so far is unfinished, and only the time of its first byte is kept.\<close>

definition waiting :: "pgs_stream \<Rightarrow> pgs_decoder \<Rightarrow> bool" where
  "waiting s st \<longleftrightarrow> stream_segments s = ([], s) \<and> pd_pending st = map fst s \<and> (s \<noteq> [] \<longrightarrow> pd_pending_time st = snd (hd s))"

lemma stream_segments_same_start:
  assumes "stream_segments s = ([], s)" "map fst s' = map fst s" "s \<noteq> [] \<longrightarrow> snd (hd s') = snd (hd s)"
    "stream_segments (s @ t) = (segs, rest)"
  shows "\<exists>rest'. stream_segments (s' @ t) = (segs, rest') \<and> map fst rest' = map fst rest \<and>
    (rest \<noteq> [] \<longrightarrow> snd (hd rest') = snd (hd rest)) \<and> (rest' = rest \<or> rest = s @ t \<and> rest' = s' @ t)"
proof -
  let ?n = "3 + be_nat (map fst (slice (s @ t) 1 3))"
  have len: "length s' = length s" using arg_cong [OF assms(2), of length] by simp
  have bytes: "map fst (slice (s' @ t) a b) = map fst (slice (s @ t) a b)" for a b
    by (simp only: slice_def take_map [symmetric] drop_map [symmetric] map_append assms(2))
  have head: "fst (hd (s' @ t)) = fst (hd (s @ t))" "snd (hd (s' @ t)) = snd (hd (s @ t))"
    using assms(2,3) len by (cases s; cases s'; simp)+
  show ?thesis
  proof (cases "length (s @ t) < 3 \<or> length (s @ t) < ?n")
    case True
    then have "stream_segments (s @ t) = ([], s @ t)" "stream_segments (s' @ t) = ([], s' @ t)"
      by (subst stream_segments.simps, auto simp: Let_def bytes len)+
    then show ?thesis using assms(2,4) head by auto
  next
    case False
    have beyond: "length s \<le> ?n"
    proof (cases "length s < 3")
      case True
      then show ?thesis by simp
    next
      case long: False
      have "slice (s @ t) 1 3 = slice s 1 3" using long by (simp add: slice_append_left)
      moreover have "length s < 3 + be_nat (map fst (slice s 1 3))"
        using assms(1) long by (subst (asm) stream_segments.simps) (auto simp: Let_def split: if_splits prod.splits)
      ultimately show ?thesis by simp
    qed
    then have "drop ?n (s' @ t) = drop ?n (s @ t)" by (simp add: len)
    then have "stream_segments (s' @ t) = stream_segments (s @ t)"
      using False by (subst (1 2) stream_segments.simps) (auto simp: Let_def bytes len head)
    then show ?thesis using assms(4) by auto
  qed
qed


definition timed :: "bytes \<Rightarrow> nat \<Rightarrow> pgs_stream" where
  "timed bs t = map (\<lambda>b. (b, t)) bs"

lemma packet_stream_timed: "packet_stream (length pending) u t (pending @ bs) = timed pending u @ timed bs t"
  by (rule nth_equalityI) (auto simp: packet_stream_def timed_def nth_append)

lemma pgs_push_stream:
  assumes "pgs_push_packet bs t st = Inr (st', shown)" "waiting s st" "pgs_ok st"
  shows "pgs_ok st' \<and> shown_ok shown \<and>
    (\<exists>segs s'. stream_segments (s @ timed bs t) = (segs, s') \<and> waiting s' st' \<and> show_segments segs (unpend st) = Inr (unpend st', shown))"
proof -
  define u pending where "u = pd_pending_time st" and "pending = pd_pending st"
  let ?all = "pending @ bs" and ?r = "length pending"
  obtain consumed st1 where loop: "pgs_segments_loop ?all ?r u t 0 (st\<lparr>pd_pending := ?all\<rparr>) ([], 0) = Inr (consumed, st1, shown)"
      "st' = st1\<lparr>pd_pending := drop consumed ?all, pd_pending_time := (if consumed < ?r then u else t)\<rparr>"
      "sat_add 64 ?r (length bs) \<le> MAX_ENCODED_BYTES"
    using assms(1) by (auto simp: pgs_push_packet_def Let_def res_bind_Inr u_def pending_def not_less split: if_splits)
  have ok: "pgs_ok (st\<lparr>pd_pending := ?all\<rparr>)"
    using assms(3) sat_add_le_small [OF loop(3)] by (simp add: pgs_ok_def)
  obtain segs where segs: "pgs_ok st1" "shown_ok shown" "consumed \<le> length ?all"
      "stream_segments (timed pending u @ timed bs t) = (segs, drop consumed (timed pending u @ timed bs t))"
      "show_segments segs (st\<lparr>pd_pending := ?all\<rparr>) = Inr (st1, shown)"
    using pgs_segments_loop_stream [OF loop(1) _ ok] by (auto simp: shown_ok_def displays_bytes_def packet_stream_timed)
  have wait: "stream_segments s = ([], s)" "pending = map fst s" "s \<noteq> [] \<longrightarrow> u = snd (hd s)"
    using assms(2) by (simp_all add: waiting_def u_def pending_def)
  obtain segs' rest where true_stream: "stream_segments (s @ timed bs t) = (segs', rest)" by (cases "stream_segments (s @ timed bs t)") auto
  have "snd (hd (timed pending u)) = snd (hd s)" if "s \<noteq> []" using that wait(2,3) by (cases s) (simp_all add: timed_def)
  moreover have "map fst (timed pending u) = map fst s" by (simp add: timed_def wait(2) o_def)
  ultimately have same: "segs' = segs" "map fst rest = drop consumed ?all" "rest \<noteq> [] \<longrightarrow> snd (hd rest) = (if consumed < ?r then u else t)"
  proof -
    have Z: "map fst (drop consumed (timed pending u @ timed bs t)) = drop consumed ?all"
      by (simp only: timed_def drop_map [symmetric] map_append) (simp add: o_def)
    have hd: "snd (hd (drop consumed (timed pending u @ timed bs t))) = (if consumed < ?r then u else t)" if "consumed < length ?all"
      using that by (simp add: hd_drop_conv_nth nth_append timed_def)
    obtain rest' where r: "stream_segments (timed pending u @ timed bs t) = (segs', rest')" "map fst rest' = map fst rest"
        "rest \<noteq> [] \<longrightarrow> snd (hd rest') = snd (hd rest)"
      using stream_segments_same_start [OF wait(1) \<open>map fst (timed pending u) = map fst s\<close> _ true_stream]
        \<open>s \<noteq> [] \<Longrightarrow> snd (hd (timed pending u)) = snd (hd s)\<close> by blast
    have eq: "segs' = segs" "rest' = drop consumed (timed pending u @ timed bs t)" using r(1) segs(4) by simp_all
    have len: "length rest = length ?all - consumed" using arg_cong [OF r(2), of length] by (simp add: eq timed_def)
    show "segs' = segs" by (rule eq(1))
    show "map fst rest = drop consumed ?all" using r(2) Z unfolding eq(2) by (simp only:)
    show "rest \<noteq> [] \<longrightarrow> snd (hd rest) = (if consumed < ?r then u else t)"
    proof
      assume ne: "rest \<noteq> []"
      then have "consumed < length ?all" using len by (cases rest) auto
      then show "snd (hd rest) = (if consumed < ?r then u else t)" using r(3) ne hd unfolding eq(2) by (simp only: simp_thms)
    qed
  qed
  have "show_segments segs (unpend st) = Inr (unpend st1, shown)"
    using show_segments_unpend [of segs "st\<lparr>pd_pending := ?all\<rparr>"] segs(5) by simp
  moreover have "pgs_ok st'" using segs(1) loop(2) sat_add_le_small [OF loop(3)] by (simp add: pgs_ok_def)
  moreover have "waiting rest st'" using stream_segments_rest [OF true_stream] same(2,3) loop(2) by (auto simp: waiting_def)
  ultimately show ?thesis using segs(2) true_stream same(1) loop(2) by auto
qed

section \<open>Runs\<close>

text \<open>The displays of one packet after the other.\<close>

fun pgs_run :: "(bytes \<times> nat) list \<Rightarrow> pgs_decoder \<Rightarrow> string + (pgs_decoder \<times> display_set list list)" where
  "pgs_run [] st = Inr (st, [])"
| "pgs_run ((bs, t) # ps) st =
     res_bind (pgs_push_packet bs t st) (\<lambda>(st, shown). res_bind (pgs_run ps st) (\<lambda>(st, more). Inr (st, shown # more)))"

definition timed_packets :: "(bytes \<times> nat) list \<Rightarrow> pgs_stream" where
  "timed_packets ps = concat (map (\<lambda>(bs, t). timed bs t) ps)"

lemma pgs_run_stream:
  "pgs_run ps st = Inr (st', shown) \<Longrightarrow> waiting s st \<Longrightarrow> pgs_ok st \<Longrightarrow>
    pgs_ok st' \<and> list_all shown_ok shown \<and>
    (\<exists>segs s'. stream_segments (s @ timed_packets ps) = (segs, s') \<and> waiting s' st' \<and> show_segments segs (unpend st) = Inr (unpend st', concat shown))"
proof (induction ps arbitrary: st s shown)
  case Nil
  then show ?case by (auto simp: waiting_def timed_packets_def)
next
  case (Cons p ps)
  obtain bs t where p: "p = (bs, t)" by (cases p)
  obtain st1 first more where step: "pgs_push_packet bs t st = Inr (st1, first)" "pgs_run ps st1 = Inr (st', more)" "shown = first # more"
    using Cons.prems(1) by (auto simp: p res_bind_Inr)
  obtain segs s1 where one: "pgs_ok st1" "shown_ok first" "stream_segments (s @ timed bs t) = (segs, s1)" "waiting s1 st1"
      "show_segments segs (unpend st) = Inr (unpend st1, first)"
    using pgs_push_stream [OF step(1) Cons.prems(2,3)] by blast
  obtain segs' s' where rest: "pgs_ok st'" "list_all shown_ok more" "stream_segments (s1 @ timed_packets ps) = (segs', s')" "waiting s' st'"
      "show_segments segs' (unpend st1) = Inr (unpend st', concat more)"
    using Cons.IH [OF step(2) one(4,1)] by blast
  have "stream_segments (s @ timed_packets (p # ps)) = (segs @ segs', s')"
    using stream_segments_append [OF one(3), of "timed_packets ps"] rest(3) by (simp add: timed_packets_def p)
  then show ?case using one rest step(3) by (auto simp: show_segments_append)
qed

text \<open>A run from the start keeps the limits and shows what its stream says; how the stream is cut into packets does not
  matter.\<close>

lemma pgs_start: "waiting [] pgs_decoder_default" "pgs_ok pgs_decoder_default" "unpend pgs_decoder_default = pgs_decoder_default"
  by (simp_all add: waiting_def pgs_ok_def pgs_decoder_default_def unpend_def stream_segments.simps objects_len_def)

theorem pgs_run_from_start:
  assumes "pgs_run ps pgs_decoder_default = Inr (st, shown)"
  shows "pgs_ok st \<and> list_all shown_ok shown \<and>
    (\<exists>segs rest. stream_segments (timed_packets ps) = (segs, rest) \<and> pd_pending st = map fst rest \<and>
      show_segments segs pgs_decoder_default = Inr (unpend st, concat shown))"
  using pgs_run_stream [OF assms pgs_start(1,2)] unfolding pgs_start(3) by (auto simp: waiting_def)

theorem pgs_cuts_do_not_matter:
  assumes "pgs_run ps pgs_decoder_default = Inr (st, shown)" "pgs_run qs pgs_decoder_default = Inr (st', shown')"
    and "timed_packets ps = timed_packets qs"
  shows "concat shown = concat shown' \<and> unpend st = unpend st' \<and> pd_pending st = pd_pending st'"
  using pgs_run_from_start [OF assms(1)] pgs_run_from_start [OF assms(2)] assms(3) by auto

end
