(* ===== verification/Spec2Isabelle.thy ===== *)
theory Spec2Isabelle
  imports Budget Resources Mp4Chapters MkvPlans HlsTracks DtsFrames PgsDecoder
begin

text \<open>
  \<^bold>\<open>Chroma Engine: a model of its media core and the theorems about it.\<close>

  The program reads video files, plans how to play them and repackages them as native HLS. Bytes of an MP4 or Matroska
  file go through a metadata budget, are parsed into tracks with packet indexes, and described by a probe document; a
  session or a transcode plan chooses tracks and decides for each whether it is copied or recoded; the segment code cuts
  the presentation into windows, and muxes the packets of a window into an MPEG transport stream or an fMP4 fragment,
  announced by playlists. All of this is modelled below as executable functions: a Rust \<open>struct\<close> is a \<open>record\<close>,
  an \<open>enum\<close> a \<open>datatype\<close>, a \<open>Result\<close> a sum with the error on the left, a \<open>Vec<u8>\<close> a list of 8-bit words,
  a mutated \<open>self\<close> a state that is passed and returned. Unsigned integers are naturals with the checked, saturating
  and truncating operations of the source written out, at the width of the source (\<open>Prelude\<close>).

  \<^bold>\<open>Parts and theories\<close> (all sources under \<open>src/src/\<close>):
  \<^item> \<open>Prelude\<close>, \<open>Iterators\<close>, \<open>Text\<close>, \<open>Float64\<close>, \<open>Float64Round\<close>: arithmetic, byte strings, results; the interface of
    iterators over framed bytes; UTF-8 texts and number formats; binary64 arithmetic as far as the readers use it.
  \<^item> \<open>TimeBase\<close>, \<open>Packets\<close> (\<open>packet/mod.rs\<close>): time scales and rescaling; packet indexes, the keyframe chunk planner,
    seek windows, payload spans. A chunk plan is shown to partition its packets and to be cut on keyframes.
  \<^item> \<open>Resources\<close> (\<open>resources.rs\<close>, \<open>work.rs\<close>): the policy, the admission pool and the work control. A state of the pool
    changes by \<open>admit\<close> and \<open>drop_lease\<close>, in any interleaving.
  \<^item> \<open>Atoms\<close> (\<open>container/mp4/atom.rs\<close>), \<open>Ebml\<close> (\<open>container/matroska/ebml.rs\<close>), \<open>Budget\<close> (\<open>container/mod.rs\<close> and the
    validators of \<open>mp4.rs\<close> and \<open>matroska.rs\<close>): boxes, elements and the limits a file must keep, as exact conditions on
    the tree of the whole file.
  \<^item> \<open>Mp4Tables\<close>, \<open>Mp4Codec\<close>, \<open>Mp4Meta\<close>, \<open>Mp4Tracks\<close>, \<open>Mp4Chapters\<close> (\<open>container/mp4.rs\<close>, \<open>codec/pixel_format.rs\<close>):
    sample tables with their packets and chunk plans, sample entries and codec strings, movie metadata, the names of
    tracks and the readers that answer to them, chapters.
  \<^item> \<open>MkvBlocks\<close>, \<open>MkvPackets\<close>, \<open>MkvMeta\<close>, \<open>MkvPlans\<close> (\<open>container/matroska.rs\<close>): blocks with lacing, packet indexes and
    the repair of their times, tracks and chapters, chunk plans from cues and blocks.
  \<^item> \<open>AnnexB\<close> (\<open>codec/h264.rs\<close>, \<open>hevc.rs\<close>, \<open>aac.rs\<close>), \<open>DolbyBoxes\<close> (\<open>codec/ac3.rs\<close>), \<open>DtsFrames\<close> (\<open>codec/dts.rs\<close>):
    the repackaging of samples and the audio headers, against encoders and demultiplexers of their formats.
  \<^item> \<open>Probe\<close> (\<open>probe/mod.rs\<close>), \<open>Sessions\<close> (\<open>session/mod.rs\<close>, \<open>pipeline/mod.rs\<close>), \<open>ExecutionPlans\<close>
    (\<open>transcode/execution_plan.rs\<close>): the tracks of a file under their public names, the plans made from them and the
    routing of chunks through the stages of a plan.
  \<^item> \<open>AudioClock\<close> (\<open>transcode/audio_clock.rs\<close>): the sample clock of encoded audio.
  \<^item> \<open>Fmp4Boxes\<close>, \<open>Fmp4Validate\<close>, \<open>Fmp4Fragments\<close>, \<open>Fmp4Exact\<close>, \<open>Fmp4Copy\<close>, \<open>Fmp4Init\<close>, \<open>InitRead\<close>
    (\<open>fmp4/mod.rs\<close>, \<open>fmp4/validation.rs\<close>): init segments and media fragments, the validation the writer runs on its own
    header, the exact condition under which a fragment is written, and readers that recover what was written.
  \<^item> \<open>TsMux\<close> (\<open>hls/transport_stream.rs\<close>), \<open>HlsWindows\<close>, \<open>HlsMux\<close>, \<open>HlsFmp4\<close>, \<open>HlsPlaylist\<close>, \<open>HlsTracks\<close>
    (\<open>hls/mod.rs\<close>, \<open>hls/input.rs\<close>, \<open>hls/playlist.rs\<close>): transport packets and the timestamp sanitizer, segment windows,
    segments of both kinds with the budget computed beforehand, playlists, and the tracks chosen for them.
  \<^item> \<open>PgsDecoder\<close> (\<open>codec/subtitle_resources/bitmap/pgs.rs\<close>): the decoder of PGS subtitles.
  \<^item> this theory: a property across Matroska packets and the transport stream muxer.

  \<^bold>\<open>How the parts are specified.\<close> What a component promises is stated by definitions that do not use the component: a
  grammar of what is accepted (boxes and elements of a file, NAL units, runs of a bitmap), an encoder of the format, a
  player that follows the fields of the written bytes (\<open>read_fragment\<close>, \<open>read_pes\<close>, \<open>ts_units\<close>, \<open>shows_packets\<close>,
  the playlist readers) or a closed form. Round trips, refinements and exact conditions relate the model of the code to
  them. Interfaces that several parts share are locales interpreted on the model: iterators over framed bytes
  (\<open>offset_iter\<close>, \<open>offset_codec\<close>), budgeted walks over nested boxes (\<open>nested_boxes\<close>), bounded pools
  (\<open>bounded_pool\<close>), walks to a named track (\<open>track_walk\<close>), the choice of an audio track (\<open>audio_choice\<close>). Where the
  code does something else than it means to, the theorem says what it does: the 29-bit timestamps, reordered frames
  presented late, the Atmos flag read from the wrong bits.

  \<^bold>\<open>Termination.\<close> No definition uses fuel: every loop is structural recursion or decreases a measure (the bytes or
  entries left, the stack of a walk), so all functions are total.

  \<^bold>\<open>Parameters.\<close> Reads of the source file are arguments: \<open>hi_payload\<close> of an HLS input, the reads of \<open>hls_source\<close>, the
  bytes of a mapped file. \<open>packet_ref_size\<close> is the size of a \<open>PacketRef\<close> in memory. \<open>try_reserve\<close> succeeds; \<open>usize\<close>
  has 64 bits.

  \<^bold>\<open>Not modelled:\<close> drivers of external decoders and encoders, hardware and platform probing, audio resampling and the
  analysis of signals in floating point; files, processes and the command line; frame rates, which are floating point
  and only displayed; the recovery of damaged Dolby Vision files (\<open>dolby_recovery.rs\<close>); the windows of a Matroska file
  read piecewise (\<open>matroska/file.rs\<close>); text, DVD and DVB subtitles.
\<close>

section \<open>Matroska video through the transport stream muxer\<close>

lemma sanitize_raises: "sanitize s v pts dts = (s', pts', dts') \<Longrightarrow> dts \<le> 2 ^ 64 - 1 \<Longrightarrow> dts \<le> pts'"
  by (auto simp: sanitize_def Let_def sat_add_def split: option.splits if_splits)

lemma to_90khz_bound: "to_90khz s u \<le> 2 ^ 64 - 1"
proof -
  have "sat_mul 64 u TS_CLOCK div k \<le> 2 ^ 64 - 1" for k
    by (rule le_trans [OF div_le_dividend]) (simp add: sat_mul_def)
  then show ?thesis by (simp add: to_90khz_def)
qed

text \<open>C34: A Matroska video frame that is presented before its slot in decode order, as every
  reordered (B) frame is, leaves the transport stream muxer with the presentation time of
  that slot or later: the repaired decode time lies after the presentation time, and the
  timestamp sanitizer raises the presentation time to it.\<close>

theorem reordered_frames_presented_late:
  assumes "\<forall>p \<in> set ps. tp_scale (pr_pts p) = td_scale d" "0 < td_units d" "i < length ps"
    and fits: "tp_units (pr_pts (ps ! 0)) + td_units d * length ps < 2 ^ 64"
    and early: "tp_units (pr_pts (ps ! i)) < tp_units (pr_pts (ps ! 0)) + td_units d * i"
    and q: "q = repair_matroska_packet_timing ps MkvVideo (Some d) ! i"
    and s: "sanitize s True (to_90khz (td_scale d) (tp_units (pr_pts q))) (to_90khz (td_scale d) (tp_units (pr_dts q)))
      = (s', pts90, dts90)"
  shows "pr_pts q = pr_pts (ps ! i) \<and> tp_units (pr_pts q) < tp_units (pr_dts q) \<and>
    to_90khz (td_scale d) (tp_units (pr_pts (ps ! 0)) + td_units d * i) \<le> pts90"
proof -
  let ?t = "tp_units (pr_pts (ps ! 0)) + td_units d * i"
  have q': "q = (ps ! i)\<lparr>pr_dts := \<lparr>tp_units = ?t, tp_scale = td_scale d\<rparr>, pr_duration := d\<rparr>"
    unfolding q by (rule repaired_packet [OF assms(1,3,4)])
  then have "tp_units (pr_dts q) = ?t" "pr_pts q = pr_pts (ps ! i)" by simp_all
  moreover have "to_90khz (td_scale d) (tp_units (pr_dts q)) \<le> pts90"
    using sanitize_raises [OF s] to_90khz_bound by simp
  ultimately show ?thesis using early by simp
qed

theorem reordered_frames_presented_late_witness:
  "\<exists>s' pts90 dts90.
     sanitize sanitizer_default True (to_90khz MILLIS 40) (to_90khz MILLIS 80) = (s', pts90, dts90) \<and> 7200 \<le> pts90"
proof -
  obtain s' pts90 dts90 where s: "sanitize sanitizer_default True (to_90khz MILLIS 40) (to_90khz MILLIS 80) = (s', pts90, dts90)"
    by (metis surj_pair)
  let ?q = "repair_matroska_packet_timing reordered_video MkvVideo (Some (time_delta_millis 40)) ! 2"
  have "?q = (reordered_video ! 2)\<lparr>pr_dts := \<lparr>tp_units = tp_units (pr_pts (reordered_video ! 0)) + td_units (time_delta_millis 40) * 2,
      tp_scale = td_scale (time_delta_millis 40)\<rparr>, pr_duration := time_delta_millis 40\<rparr>"
    by (rule repaired_packet)
      (simp_all add: reordered_video_def time_point_millis_def time_delta_millis_def)
  then have q: "tp_units (pr_pts ?q) = 40" "tp_units (pr_dts ?q) = 80"
    by (simp_all add: reordered_video_def time_point_millis_def time_delta_millis_def)
  have "to_90khz MILLIS 80 \<le> pts90"
    using reordered_frames_presented_late [where ps = reordered_video and d = "time_delta_millis 40" and i = 2
        and s = sanitizer_default and s' = s' and ?pts90.0 = pts90 and ?dts90.0 = dts90, OF _ _ _ _ _ refl] s q
    by (simp add: reordered_video_def time_point_millis_def time_delta_millis_def)
  then show ?thesis using s by (simp add: to_90khz_def sat_mul_def TS_CLOCK_def MILLIS_def)
qed

end
